(* ===== verification/Amule_Prelude.thy ===== *)
theory Amule_Prelude
  imports Main "HOL-Library.Word"
begin

text \<open>
  Shared vocabulary of the development: the machine-integer types the sources use, wrap-around
  arithmetic on naturals for code that computes on \<open>uint64\<close>, \<open>uint32\<close> and \<open>uint16\<close> positions, the
  outcome of code that can leave the defined behaviour of C++, and \<open>std::map\<close> as a key-sorted
  association list with the member functions the sources call (\<open>lower_bound\<close>, \<open>upper_bound\<close>,
  \<open>insert\<close>, \<open>erase\<close>, assignment through an iterator).
\<close>

unbundle bit_operations_syntax

named_theorems stdmap_simps \<open>rewriting of std::map operations at a known position\<close>
named_theorems wrap_simps \<open>wrap-around arithmetic that does not wrap\<close>

section \<open>Machine integers\<close>

type_synonym uint8 = "8 word"
type_synonym uint16 = "16 word"
type_synonym uint32 = "32 word"
type_synonym uint64 = "64 word"

text \<open>Where positions are naturals, an assignment to a narrower variable keeps the low bits.\<close>

definition u16 :: "nat \<Rightarrow> nat" where
  "u16 n = n mod 2 ^ 16"

definition u32 :: "nat \<Rightarrow> nat" where
  "u32 n = n mod 2 ^ 32"

definition u64 :: "nat \<Rightarrow> nat" where
  "u64 n = n mod 2 ^ 64"

definition inc64 :: "nat \<Rightarrow> nat" where
  "inc64 n = u64 (n + 1)"

definition sub64 :: "nat \<Rightarrow> nat \<Rightarrow> nat" where
  "sub64 a b = u64 (a + (2 ^ 64 - u64 b))"

definition dec64 :: "nat \<Rightarrow> nat" where
  "dec64 n = sub64 n 1"

lemma u16_small [wrap_simps]: "n < 2 ^ 16 \<Longrightarrow> u16 n = n"
  by (simp add: u16_def)

lemma u32_small [wrap_simps]: "n < 2 ^ 32 \<Longrightarrow> u32 n = n"
  by (simp add: u32_def)

lemma u64_small [wrap_simps]: "n < 2 ^ 64 \<Longrightarrow> u64 n = n"
  by (simp add: u64_def)

lemma inc64_small [wrap_simps]: "n + 1 < 2 ^ 64 \<Longrightarrow> inc64 n = n + 1"
  by (simp add: inc64_def u64_def)

lemma sub64_small [wrap_simps]: "b \<le> a \<Longrightarrow> a < 2 ^ 64 \<Longrightarrow> sub64 a b = a - b"
proof -
  assume le: "b \<le> a" and lt: "a < 2 ^ 64"
  then have "a + (2 ^ 64 - b) = (a - b) + 2 ^ 64" by simp
  then have "(a + (2 ^ 64 - b)) mod 2 ^ 64 = (a - b) mod 2 ^ 64" by (simp only: mod_add_self2)
  also have "\<dots> = a - b" using lt by (simp add: less_imp_diff_less)
  finally show ?thesis using le lt by (simp add: sub64_def u64_def)
qed

lemma dec64_0: "dec64 0 = 2 ^ 64 - 1"
  by (simp add: dec64_def sub64_def u64_def)

lemma dec64_Suc [wrap_simps]: "Suc n < 2 ^ 64 \<Longrightarrow> dec64 (Suc n) = n"
  unfolding dec64_def by (subst sub64_small) auto

lemma dec64_pos: "0 < n \<Longrightarrow> n < 2 ^ 64 \<Longrightarrow> dec64 n = n - 1"
  by (cases n) (simp_all add: dec64_Suc)

text \<open>The size of a part and of a block of a file, and of a whole file (\<open>src/src/include/protocol/ed2k/Constants.h\<close>).\<close>

definition PARTSIZE :: nat where
  "PARTSIZE = 9728000"

definition EMBLOCKSIZE :: nat where
  "EMBLOCKSIZE = 184320"

definition MAX_FILE_SIZE :: nat where
  "MAX_FILE_SIZE = 0x4000000000"

section \<open>Leaving defined behaviour\<close>

text \<open>
  \<open>OutOfBounds\<close> stands for an access outside an allocated object; \<open>SignedOverflow\<close> for a signed
  result that its type cannot hold; \<open>NoReturn\<close> for a loop that
  cannot end; \<open>DivisionByZero\<close> for a division by zero. An operation that can do one of them returns \<open>Inl\<close> of the fault.
\<close>

datatype fault = OutOfBounds | NoReturn | SignedOverflow | DivisionByZero

fun sum_bind :: "'e + 'a \<Rightarrow> ('a \<Rightarrow> 'e + 'b) \<Rightarrow> 'e + 'b" where
  "sum_bind (Inl e) f = Inl e"
| "sum_bind (Inr a) f = f a"

lemma sum_bind_Inr: "sum_bind r f = Inr b \<longleftrightarrow> (\<exists>a. r = Inr a \<and> f a = Inr b)"
  by (cases r) auto

section \<open>\<open>std::map\<close> as a key-sorted association list\<close>

type_synonym ('k, 'v) stdmap = "('k \<times> 'v) list"

definition sm_ok :: "('k::linorder, 'v) stdmap \<Rightarrow> bool" where
  "sm_ok m = sorted_wrt (<) (map fst m)"

fun sm_insert :: "'k::linorder \<Rightarrow> 'v \<Rightarrow> ('k, 'v) stdmap \<Rightarrow> ('k, 'v) stdmap" where
  "sm_insert k v [] = [(k, v)]"
| "sm_insert k v ((k', v') # m) =
     (if k < k' then (k, v) # (k', v') # m
      else if k = k' then (k', v') # m
      else (k', v') # sm_insert k v m)"

definition sm_erase :: "'k \<Rightarrow> ('k, 'v) stdmap \<Rightarrow> ('k, 'v) stdmap" where
  "sm_erase k m = filter (\<lambda>p. fst p \<noteq> k) m"

definition sm_assign :: "'k \<Rightarrow> 'v \<Rightarrow> ('k, 'v) stdmap \<Rightarrow> ('k, 'v) stdmap" where
  "sm_assign k v m = map (\<lambda>p. if fst p = k then (k, v) else p) m"

definition sm_lower_bound :: "'k::linorder \<Rightarrow> ('k, 'v) stdmap \<Rightarrow> ('k, 'v) stdmap" where
  "sm_lower_bound k m = dropWhile (\<lambda>p. fst p < k) m"

definition sm_before :: "'k::linorder \<Rightarrow> ('k, 'v) stdmap \<Rightarrow> ('k, 'v) stdmap" where
  "sm_before k m = takeWhile (\<lambda>p. fst p < k) m"

lemma sm_before_lower_bound: "sm_before k m @ sm_lower_bound k m = m"
  by (simp add: sm_before_def sm_lower_bound_def)

lemma sm_before_less: "p \<in> set (sm_before k m) \<Longrightarrow> fst p < k"
  by (auto simp: sm_before_def dest: set_takeWhileD)

lemma sm_ok_append:
  "sm_ok (xs @ ys) \<longleftrightarrow> sm_ok xs \<and> sm_ok ys \<and> (\<forall>x \<in> set xs. \<forall>y \<in> set ys. fst x < fst y)"
  by (auto simp: sm_ok_def sorted_wrt_append)

lemma sm_ok_Cons: "sm_ok (p # ys) \<longleftrightarrow> sm_ok ys \<and> (\<forall>y \<in> set ys. fst p < fst y)"
  by (auto simp: sm_ok_def)

lemma sm_ok_Nil [simp]: "sm_ok []"
  by (simp add: sm_ok_def)

lemma sm_lower_bound_ge: "sm_ok m \<Longrightarrow> p \<in> set (sm_lower_bound k m) \<Longrightarrow> k \<le> fst p"
proof (induction m)
  case (Cons a m)
  show ?case
  proof (cases "fst a < k")
    case True
    with Cons show ?thesis by (simp add: sm_lower_bound_def sm_ok_Cons)
  next
    case False
    with Cons.prems show ?thesis by (force simp: sm_lower_bound_def sm_ok_Cons)
  qed
qed (simp add: sm_lower_bound_def)

lemma sm_erase_mid [stdmap_simps]:
  "sm_ok (xs @ (k, v) # ys) \<Longrightarrow> sm_erase k (xs @ (k, v) # ys) = xs @ ys"
proof -
  assume ok: "sm_ok (xs @ (k, v) # ys)"
  have "filter (\<lambda>p. fst p \<noteq> k) xs = xs" and "filter (\<lambda>p. fst p \<noteq> k) ys = ys"
    using ok by (auto simp: filter_id_conv sm_ok_append sm_ok_Cons)
  then show ?thesis by (simp add: sm_erase_def)
qed

lemma sm_assign_mid [stdmap_simps]:
  "sm_ok (xs @ (k, v) # ys) \<Longrightarrow> sm_assign k w (xs @ (k, v) # ys) = xs @ (k, w) # ys"
  by (auto simp: sm_assign_def sm_ok_append sm_ok_Cons intro!: map_idI)

lemma sm_insert_mid [stdmap_simps]:
  assumes "\<forall>x \<in> set xs. fst x < k" and "\<forall>y \<in> set ys. k < fst y"
  shows "sm_insert k v (xs @ ys) = xs @ (k, v) # ys"
  using assms
proof (induction xs)
  case Nil
  then show ?case by (cases ys) auto
next
  case (Cons a xs)
  then show ?case by (cases a) auto
qed

lemma set_sm_insert: "set (sm_insert k v m) \<subseteq> insert (k, v) (set m)"
  by (induction k v m rule: sm_insert.induct) auto

lemma sm_ok_sm_insert: "sm_ok m \<Longrightarrow> sm_ok (sm_insert k v m)"
proof (induction k v m rule: sm_insert.induct)
  case (2 k v k' v' m)
  then show ?case using set_sm_insert [of k v m] by (force simp: sm_ok_Cons)
qed (simp add: sm_ok_def)

lemma map_of_sm_insert:
  "sm_ok m \<Longrightarrow> map_of (sm_insert k v m) k' = (if k' = k \<and> map_of m k = None then Some v else map_of m k')"
proof (induction k v m rule: sm_insert.induct)
  case (2 k v k1 v1 m)
  have "map_of m k = None" if "k < k1"
  proof -
    have "k \<notin> fst ` set m" using that 2(2) by (force simp: sm_ok_Cons)
    then show ?thesis by (simp add: map_of_eq_None_iff)
  qed
  then show ?case using 2 by (auto simp: sm_ok_Cons)
qed simp

lemma map_of_sm_assign:
  "map_of (sm_assign k v m) k' = (if k' = k \<and> map_of m k \<noteq> None then Some v else map_of m k')"
  by (induction m) (auto simp: sm_assign_def)

lemma map_of_sm_erase: "map_of (sm_erase k m) k' = (if k' = k then None else map_of m k')"
  by (induction m) (auto simp: sm_erase_def)

lemma sm_ok_sm_assign: "sm_ok m \<Longrightarrow> sm_ok (sm_assign k v m)"
  by (induction m) (auto simp: sm_ok_Cons sm_assign_def)

lemma sm_ok_sm_erase: "sm_ok m \<Longrightarrow> sm_ok (sm_erase k m)"
  by (induction m) (auto simp: sm_ok_Cons sm_erase_def)

lemma sm_ok_distinct: "sm_ok m \<Longrightarrow> distinct (map fst m)"
  by (induction m) (auto simp: sm_ok_Cons)

lemma sm_ok_mem: "sm_ok m \<Longrightarrow> (k, v) \<in> set m \<longleftrightarrow> map_of m k = Some v"
  by (simp add: sm_ok_distinct)

lemma sm_insert_present: "sm_ok m \<Longrightarrow> map_of m k \<noteq> None \<Longrightarrow> sm_insert k v m = m"
proof (induction k v m rule: sm_insert.induct)
  case (2 k v k1 v1 m)
  have "k1 \<le> k"
  proof (rule ccontr)
    assume "\<not> k1 \<le> k"
    then have "k \<noteq> k1" "k \<notin> fst ` set m" using 2(2) by (force simp: sm_ok_Cons)+
    then show False using 2(3) by (simp add: map_of_eq_None_iff)
  qed
  then show ?case using 2 by (auto simp: sm_ok_Cons)
qed simp

text \<open>\<open>m[k] = v\<close>.\<close>

definition sm_put :: "'k::linorder \<Rightarrow> 'v \<Rightarrow> ('k, 'v) stdmap \<Rightarrow> ('k, 'v) stdmap" where
  "sm_put k v m = sm_assign k v (sm_insert k v m)"

lemma map_of_sm_put: "sm_ok m \<Longrightarrow> map_of (sm_put k v m) = (map_of m)(k \<mapsto> v)"
  by (auto simp: sm_put_def map_of_sm_assign map_of_sm_insert fun_eq_iff)

lemma sm_ok_sm_put: "sm_ok m \<Longrightarrow> sm_ok (sm_put k v m)"
  by (simp add: sm_put_def sm_ok_sm_assign sm_ok_sm_insert)

lemma sm_put_mid: "sm_ok (xs @ (k, v) # ys) \<Longrightarrow> sm_put k w (xs @ (k, v) # ys) = xs @ (k, w) # ys"
  by (simp add: sm_put_def sm_insert_present sm_assign_mid map_add_Some_iff)

lemma sm_put_last:
  assumes "\<forall>x \<in> set xs. fst x < k"
  shows "sm_put k v xs = xs @ [(k, v)]"
proof -
  have "sm_insert k v xs = xs @ [(k, v)]" using sm_insert_mid [of xs k "[]" v] assms by simp
  moreover have "sm_assign k v (xs @ [(k, v)]) = xs @ [(k, v)]"
    using assms by (auto simp: sm_assign_def intro!: map_idI)
  ultimately show ?thesis by (simp add: sm_put_def)
qed

end
