(* ===== verification/Interval_Set.thy ===== *)
theory Interval_Set
  imports Amule_Prelude
begin

text \<open>
  The interface of the structures that store sets of positions as ranges (\<open>CGapList\<close>, \<open>CRangeSet\<close>):
  ins a range in, del a range out. A client that replays a sequence of such calls sees the set
  that the sequence describes; this is proved once here, from the laws of the two calls.
\<close>

datatype range_op = Put nat nat | Take nat nat

fun op_within :: "nat \<Rightarrow> range_op \<Rightarrow> bool" where
  "op_within n (Put a b) = (a \<le> b \<and> b < n)"
| "op_within n (Take a b) = (a \<le> b \<and> b < n)"

fun op_spec :: "range_op \<Rightarrow> nat set \<Rightarrow> nat set" where
  "op_spec (Put a b) A = A \<union> {a..b}"
| "op_spec (Take a b) A = A - {a..b}"

fun run_ops ::
  "('s \<Rightarrow> nat \<Rightarrow> nat \<Rightarrow> 'e + 's) \<Rightarrow> ('s \<Rightarrow> nat \<Rightarrow> nat \<Rightarrow> 'e + 's) \<Rightarrow> 's \<Rightarrow> range_op list \<Rightarrow> 'e + 's"
where
  "run_ops ins del s [] = Inr s"
| "run_ops ins del s (Put a b # ops) = sum_bind (ins s a b) (\<lambda>s'. run_ops ins del s' ops)"
| "run_ops ins del s (Take a b # ops) = sum_bind (del s a b) (\<lambda>s'. run_ops ins del s' ops)"

text \<open>Whether a position is in the set after the calls: the last call that touches it decides.\<close>

fun op_touches :: "nat \<Rightarrow> range_op \<Rightarrow> bool" where
  "op_touches x (Put a b) = (a \<le> x \<and> x \<le> b)"
| "op_touches x (Take a b) = (a \<le> x \<and> x \<le> b)"

fun op_is_put :: "range_op \<Rightarrow> bool" where
  "op_is_put (Put a b) = True"
| "op_is_put (Take a b) = False"

definition last_writer :: "range_op list \<Rightarrow> nat set \<Rightarrow> nat \<Rightarrow> bool" where
  "last_writer ops A x =
     (case filter (op_touches x) (rev ops) of [] \<Rightarrow> x \<in> A | r # _ \<Rightarrow> op_is_put r)"

lemma op_spec_mem: "x \<in> op_spec r A \<longleftrightarrow> (if op_touches x r then op_is_put r else x \<in> A)"
  by (cases r) auto

lemma last_writer_Cons: "last_writer (r # ops) A x = last_writer ops (op_spec r A) x"
  by (cases "filter (op_touches x) (rev ops)") (auto simp: last_writer_def op_spec_mem)

lemma fold_op_spec_last_writer: "x \<in> fold op_spec ops A \<longleftrightarrow> last_writer ops A x"
proof (induction ops arbitrary: A)
  case Nil
  then show ?case by (simp add: last_writer_def)
next
  case (Cons r ops)
  then show ?case by (simp add: last_writer_Cons)
qed

locale interval_set =
  fixes inv :: "'s \<Rightarrow> bool"
    and elems :: "'s \<Rightarrow> nat set"
    and lim :: "'s \<Rightarrow> nat"
    and ins :: "'s \<Rightarrow> nat \<Rightarrow> nat \<Rightarrow> 'e + 's"
    and del :: "'s \<Rightarrow> nat \<Rightarrow> nat \<Rightarrow> 'e + 's"
  assumes ins_law: "inv s \<Longrightarrow> a \<le> b \<Longrightarrow> b < lim s \<Longrightarrow>
      \<exists>s'. ins s a b = Inr s' \<and> inv s' \<and> elems s' = elems s \<union> {a..b} \<and> lim s' = lim s"
    and del_law: "inv s \<Longrightarrow> a \<le> b \<Longrightarrow> b < lim s \<Longrightarrow>
      \<exists>s'. del s a b = Inr s' \<and> inv s' \<and> elems s' = elems s - {a..b} \<and> lim s' = lim s"
begin

lemma run_refines:
  assumes "inv s" and "\<forall>r \<in> set ops. op_within (lim s) r"
  shows "\<exists>s'. run_ops ins del s ops = Inr s' \<and> inv s' \<and> elems s' = fold op_spec ops (elems s) \<and>
    lim s' = lim s"
  using assms
proof (induction ops arbitrary: s)
  case Nil
  then show ?case by simp
next
  case (Cons r ops)
  show ?case
  proof (cases r)
    case (Put a b)
    obtain s' where "ins s a b = Inr s'" "inv s'" "elems s' = elems s \<union> {a..b}" "lim s' = lim s"
      using ins_law [of s a b] Cons.prems Put by auto
    then show ?thesis using Cons.IH [of s'] Cons.prems Put by simp
  next
    case (Take a b)
    obtain s' where "del s a b = Inr s'" "inv s'" "elems s' = elems s - {a..b}" "lim s' = lim s"
      using del_law [of s a b] Cons.prems Take by auto
    then show ?thesis using Cons.IH [of s'] Cons.prems Take by simp
  qed
qed

lemma run_last_writer:
  assumes "inv s" and "\<forall>r \<in> set ops. op_within (lim s) r"
  shows "\<exists>s'. run_ops ins del s ops = Inr s' \<and> inv s' \<and>
    (\<forall>x. x \<in> elems s' \<longleftrightarrow> last_writer ops (elems s) x)"
  using run_refines [OF assms] by (auto simp: fold_op_spec_last_writer)

end

end
