(* ===== verification/GapList.thy ===== *)
theory GapList
  imports Amule_Prelude Interval_Set
begin

text \<open>
  \<open>CGapList\<close> (\<open>src/src/GapList.cpp\<close>, \<open>src/src/GapList.h\<close>): the byte ranges of a partial download
  that are still missing. The list is a \<open>std::map\<close> from the last to the first byte of each gap;
  beside it the class caches the completeness of every part and the total gap size. Positions
  are naturals with the wrap-around of \<open>uint64\<close>, \<open>uint32\<close> and \<open>uint16\<close> written out where the
  source computes in those types. A write outside \<open>m_partsComplete\<close> is the fault
  \<open>OutOfBounds\<close>.
\<close>

section \<open>Data\<close>

datatype ePartComplete = complete | incomplete | unknown

type_synonym gapmap = "(nat, nat) stdmap"

record gaplist =
  m_gaplist :: gapmap
  m_filesize :: nat
  m_iPartCount :: nat
  m_sizeLastPart :: nat
  m_totalGapSize :: nat
  m_totalGapSizeValid :: bool
  m_partsComplete :: "ePartComplete list"

section \<open>Operations\<close>

definition GetPartSize :: "gaplist \<Rightarrow> nat \<Rightarrow> nat" where
  "GetPartSize g part =
     (if int part = int (m_iPartCount g) - 1 then m_sizeLastPart g else u32 PARTSIZE)"

text \<open>\<open>None\<close>: the arguments are refused; \<open>Some gapend\<close>: accepted, with the end clipped.\<close>

definition ArgCheck :: "gaplist \<Rightarrow> nat \<Rightarrow> nat \<Rightarrow> nat option" where
  "ArgCheck g gapstart gapend =
     (if gapend < gapstart then None
      else if gapend \<ge> m_filesize g then Some (dec64 (m_filesize g))
      else Some gapend)"

text \<open>
  The loop \<open>for (uint16 part = first; part <= last; part++) m_partsComplete[part] = st\<close>. After
  part 65535 the counter wraps to 0 and the loop would not end.
\<close>

function mark_parts ::
  "ePartComplete \<Rightarrow> nat \<Rightarrow> nat \<Rightarrow> ePartComplete list \<Rightarrow> fault + ePartComplete list" where
  "mark_parts st part partlast parts =
     (if part \<le> partlast then
        if part \<ge> length parts then Inl OutOfBounds
        else if part = 65535 then Inl NoReturn
        else mark_parts st (part + 1) partlast (parts[part := st])
      else Inr parts)"
  by pat_completeness auto
termination
  by (relation "measure (\<lambda>(st, part, partlast, parts). Suc partlast - part)") auto

declare mark_parts.simps [simp del]

text \<open>
  The loop of \<open>AddGap\<close> over the gaps from \<open>lower_bound\<close> on: \<open>it\<close> is what is left to visit, \<open>m\<close> the
  whole map. The result is the map and, unless the function returned inside the loop, the limits of
  the gap to insert.
\<close>

fun add_gap_loop :: "nat \<Rightarrow> nat \<Rightarrow> gapmap \<Rightarrow> gapmap \<Rightarrow> gapmap \<times> (nat \<times> nat) option" where
  "add_gap_loop gapstart gapend [] m = (m, Some (gapstart, gapend))"
| "add_gap_loop gapstart gapend ((curGapEnd, curGapStart) # it) m =
     (if curGapStart \<ge> gapstart \<and> curGapEnd \<le> gapend then
        add_gap_loop gapstart gapend it (sm_erase curGapEnd m)
      else if curGapStart \<ge> gapstart \<and> curGapStart \<le> inc64 gapend then
        add_gap_loop gapstart curGapEnd it (sm_erase curGapEnd m)
      else if curGapEnd \<le> gapend \<and> curGapEnd \<ge> dec64 gapstart then
        add_gap_loop curGapStart gapend it (sm_erase curGapEnd m)
      else if curGapStart \<le> gapstart \<and> curGapEnd \<ge> gapend then (m, None)
      else if curGapStart > gapstart then (m, Some (gapstart, gapend))
      else add_gap_loop gapstart gapend it m)"

definition AddGap :: "gaplist \<Rightarrow> nat \<Rightarrow> nat \<Rightarrow> fault + gaplist" where
  "AddGap g gapstart gapend0 =
     (case ArgCheck g gapstart gapend0 of
        None \<Rightarrow> Inr g
      | Some gapend \<Rightarrow>
          sum_bind
            (mark_parts incomplete (u16 (gapstart div PARTSIZE)) (u16 (gapend div PARTSIZE))
               (m_partsComplete g))
            (\<lambda>parts.
               let m = m_gaplist g;
                   it = sm_lower_bound (if gapstart > 0 then gapstart - 1 else 0) m;
                   m' = (case add_gap_loop gapstart gapend it m of
                           (m1, None) \<Rightarrow> m1
                         | (m1, Some (gs, ge)) \<Rightarrow> sm_insert ge gs m1)
               in Inr (g\<lparr>m_partsComplete := parts, m_totalGapSizeValid := False,
                         m_gaplist := m'\<rparr>)))"

definition set_part :: "gaplist \<Rightarrow> nat \<Rightarrow> ePartComplete \<Rightarrow> fault + gaplist" where
  "set_part g part st =
     (if part < length (m_partsComplete g)
      then Inr (g\<lparr>m_partsComplete := (m_partsComplete g)[part := st]\<rparr>) else Inl OutOfBounds)"

definition AddGapPart :: "gaplist \<Rightarrow> nat \<Rightarrow> fault + gaplist" where
  "AddGapPart g part =
     (if part \<ge> m_iPartCount g then Inr g
      else
        let gapstart = u64 (part * PARTSIZE);
            gapend = dec64 (u64 (gapstart + GetPartSize g part))
        in sum_bind (AddGap g gapstart gapend) (\<lambda>g'. set_part g' part incomplete))"

text \<open>The loop of \<open>FillGap\<close>, in the same form; \<open>break\<close> ends it with the map as it is.\<close>

fun fill_gap_loop :: "nat \<Rightarrow> nat \<Rightarrow> gapmap \<Rightarrow> gapmap \<Rightarrow> gapmap" where
  "fill_gap_loop partstart partend [] m = m"
| "fill_gap_loop partstart partend ((curGapEnd, curGapStart) # it) m =
     (if curGapStart \<ge> partstart then
        if curGapEnd \<le> partend then
          fill_gap_loop partstart partend it (sm_erase curGapEnd m)
        else if curGapStart \<le> partend then sm_assign curGapEnd (inc64 partend) m
        else m
      else if curGapEnd > partend then
        sm_insert (dec64 partstart) curGapStart (sm_assign curGapEnd (inc64 partend) m)
      else if curGapEnd \<ge> partstart then
        fill_gap_loop partstart partend it
          (sm_erase curGapEnd (sm_insert (dec64 partstart) curGapStart m))
      else fill_gap_loop partstart partend it m)"

definition FillGap :: "gaplist \<Rightarrow> nat \<Rightarrow> nat \<Rightarrow> fault + gaplist" where
  "FillGap g partstart partend0 =
     (case ArgCheck g partstart partend0 of
        None \<Rightarrow> Inr g
      | Some partend \<Rightarrow>
          sum_bind
            (mark_parts unknown (u16 (partstart div PARTSIZE)) (u16 (partend div PARTSIZE))
               (m_partsComplete g))
            (\<lambda>parts.
               let m = m_gaplist g
               in Inr (g\<lparr>m_partsComplete := parts, m_totalGapSizeValid := False,
                         m_gaplist :=
                           fill_gap_loop partstart partend (sm_lower_bound partstart m) m\<rparr>)))"

definition FillGapPart :: "gaplist \<Rightarrow> nat \<Rightarrow> fault + gaplist" where
  "FillGapPart g part =
     (if part \<ge> m_iPartCount g then Inr g
      else
        let gapstart = u64 (part * PARTSIZE);
            gapend = dec64 (u64 (gapstart + GetPartSize g part))
        in sum_bind (FillGap g gapstart gapend) (\<lambda>g'. set_part g' part complete))"

definition Init :: "nat \<Rightarrow> bool \<Rightarrow> fault + gaplist" where
  "Init fileSize isEmpty =
     (let cnt0 = u16 (fileSize div PARTSIZE + 1);
          last0 = u32 (fileSize mod PARTSIZE);
          full = (last0 = 0 \<and> fileSize \<noteq> 0);
          lastp = (if full then u32 PARTSIZE else last0);
          cnt = (if full then u16 (cnt0 + 65535) else cnt0);
          g = \<lparr>m_gaplist = [], m_filesize = fileSize, m_iPartCount = cnt,
               m_sizeLastPart = lastp, m_totalGapSize = 0, m_totalGapSizeValid = False,
               m_partsComplete = []\<rparr>
      in if isEmpty then
           sum_bind (AddGap (g\<lparr>m_partsComplete := replicate cnt incomplete\<rparr>) 0 (dec64 fileSize))
             (\<lambda>g'. Inr (g'\<lparr>m_totalGapSize := fileSize, m_totalGapSizeValid := True\<rparr>))
         else
           Inr (g\<lparr>m_partsComplete := replicate cnt complete, m_totalGapSize := 0,
                  m_totalGapSizeValid := True\<rparr>))"

fun sum_gaps :: "nat \<Rightarrow> gapmap \<Rightarrow> nat" where
  "sum_gaps acc [] = acc"
| "sum_gaps acc ((e, s) # it) = sum_gaps (u64 (acc + (sub64 e s + 1))) it"

definition GetGapSize :: "gaplist \<Rightarrow> nat \<times> gaplist" where
  "GetGapSize g =
     (let g' = (if m_totalGapSizeValid g then g
                else g\<lparr>m_totalGapSizeValid := True,
                       m_totalGapSize := sum_gaps 0 (m_gaplist g)\<rparr>)
      in (m_totalGapSize g', g'))"

fun part_gap_loop :: "nat \<Rightarrow> nat \<Rightarrow> nat \<Rightarrow> gapmap \<Rightarrow> nat" where
  "part_gap_loop rs re acc [] = acc"
| "part_gap_loop rs re acc ((curGapEnd, curGapStart) # it) =
     (if curGapStart \<le> rs \<and> curGapEnd \<ge> re then u64 (acc + (sub64 re rs + 1))
      else if curGapStart \<ge> rs then
        if curGapStart \<le> re then
          part_gap_loop rs re (u64 (acc + (sub64 (min curGapEnd re) curGapStart + 1))) it
        else acc
      else if curGapEnd \<ge> rs \<and> curGapEnd \<le> re then
        part_gap_loop rs re (u64 (acc + (sub64 curGapEnd rs + 1))) it
      else part_gap_loop rs re acc it)"

definition GetGapSizePart :: "gaplist \<Rightarrow> nat \<Rightarrow> nat" where
  "GetGapSizePart g part =
     (let rs = u64 (part * PARTSIZE);
          re = dec64 (u64 (rs + GetPartSize g part))
      in u32 (part_gap_loop rs re 0 (sm_lower_bound rs (m_gaplist g))))"

fun is_complete_loop :: "nat \<Rightarrow> nat \<Rightarrow> gapmap \<Rightarrow> bool" where
  "is_complete_loop gapstart gapend [] = True"
| "is_complete_loop gapstart gapend ((curGapEnd, curGapStart) # it) =
     (if (curGapStart \<ge> gapstart \<and> curGapEnd \<le> gapend) \<or>
         (curGapStart \<ge> gapstart \<and> curGapStart \<le> gapend) \<or>
         (curGapEnd \<le> gapend \<and> curGapEnd \<ge> gapstart) \<or>
         (gapstart \<ge> curGapStart \<and> gapend \<le> curGapEnd) then False
      else if curGapStart > gapend then True
      else is_complete_loop gapstart gapend it)"

definition IsComplete :: "gaplist \<Rightarrow> nat \<Rightarrow> nat \<Rightarrow> bool" where
  "IsComplete g gapstart gapend0 =
     (case ArgCheck g gapstart gapend0 of
        None \<Rightarrow> False
      | Some gapend \<Rightarrow>
          is_complete_loop gapstart gapend (sm_lower_bound gapstart (m_gaplist g)))"

definition IsCompletePart :: "gaplist \<Rightarrow> nat \<Rightarrow> fault + (bool \<times> gaplist)" where
  "IsCompletePart g part =
     (if part = m_iPartCount g \<and> m_sizeLastPart g = PARTSIZE then Inr (True, g)
      else if part \<ge> m_iPartCount g then Inr (False, g)
      else if part \<ge> length (m_partsComplete g) then Inl OutOfBounds
      else
        let status = m_partsComplete g ! part
        in if status = unknown then
             let partstart = u64 (part * PARTSIZE);
                 partend = dec64 (u64 (partstart + GetPartSize g part));
                 status' = (if IsComplete g partstart partend then complete else incomplete)
             in Inr (status' = complete,
                     g\<lparr>m_partsComplete := (m_partsComplete g)[part := status']\<rparr>)
           else Inr (status = complete, g))"

definition IsCompleteAll :: "gaplist \<Rightarrow> bool" where
  "IsCompleteAll g = (m_gaplist g = [])"

definition gaplist_size :: "gaplist \<Rightarrow> nat" where
  "gaplist_size g = u32 (length (m_gaplist g))"

section \<open>The set of missing bytes and the shape of the map\<close>

definition covered :: "gapmap \<Rightarrow> nat set" where
  "covered m = (\<Union>(e, s) \<in> set m. {s..e})"

text \<open>Gaps in order, non-empty, and with at least one byte between neighbours.\<close>

fun gaps_from :: "nat \<Rightarrow> gapmap \<Rightarrow> bool" where
  "gaps_from lo [] = True"
| "gaps_from lo ((e, s) # m) = (lo \<le> s \<and> s \<le> e \<and> gaps_from (e + 2) m)"

fun gap_next :: "nat \<Rightarrow> gapmap \<Rightarrow> nat" where
  "gap_next lo [] = lo"
| "gap_next lo ((e, s) # m) = gap_next (e + 2) m"

lemma covered_Nil [simp]: "covered [] = {}"
  by (simp add: covered_def)

lemma covered_Cons [simp]: "covered ((e, s) # m) = {s..e} \<union> covered m"
  by (simp add: covered_def)

lemma covered_append [simp]: "covered (xs @ ys) = covered xs \<union> covered ys"
  by (simp add: covered_def)

lemma gaps_from_append:
  "gaps_from lo (xs @ ys) \<longleftrightarrow> gaps_from lo xs \<and> gaps_from (gap_next lo xs) ys"
  by (induction lo xs rule: gaps_from.induct) auto

lemma gaps_from_mono: "gaps_from lo m \<Longrightarrow> lo' \<le> lo \<Longrightarrow> gaps_from lo' m"
  by (cases m) auto

lemma gaps_from_ge: "gaps_from lo m \<Longrightarrow> (e, s) \<in> set m \<Longrightarrow> lo \<le> s \<and> s \<le> e"
  by (induction lo m rule: gaps_from.induct) fastforce+

lemma covered_ge: "gaps_from lo m \<Longrightarrow> x \<in> covered m \<Longrightarrow> lo \<le> x"
  by (fastforce simp: covered_def dest: gaps_from_ge)

lemma gaps_from_sm_ok: "gaps_from lo m \<Longrightarrow> sm_ok m"
proof (induction lo m rule: gaps_from.induct)
  case (2 lo e s m)
  then show ?case by (fastforce simp: sm_ok_Cons dest: gaps_from_ge)
qed simp

lemma gap_next_ge: "gaps_from lo xs \<Longrightarrow> lo \<le> gap_next lo xs"
proof (induction lo xs rule: gaps_from.induct)
  case (2 lo e s m)
  then have "e + 2 \<le> gap_next (e + 2) m" and "lo \<le> e" by auto
  then show ?case by simp
qed simp

lemma gap_next_gt: "gaps_from lo xs \<Longrightarrow> (e, s) \<in> set xs \<Longrightarrow> e + 2 \<le> gap_next lo xs"
proof (induction lo xs rule: gaps_from.induct)
  case (2 lo e' s' m)
  then show ?case using gap_next_ge [of "e' + 2" m] by auto
qed simp

lemma gap_next_le:
  "gaps_from lo xs \<Longrightarrow> lo \<le> b \<Longrightarrow> \<forall>(e, s) \<in> set xs. e + 2 \<le> b \<Longrightarrow> gap_next lo xs \<le> b"
  by (induction lo xs rule: gaps_from.induct) auto

lemma covered_less_gap_next: "gaps_from lo xs \<Longrightarrow> x \<in> covered xs \<Longrightarrow> x + 1 < gap_next lo xs"
  by (fastforce simp: covered_def dest: gap_next_gt)

lemma covered_end: "gaps_from lo m \<Longrightarrow> (e, s) \<in> set m \<Longrightarrow> e \<in> covered m"
  by (fastforce simp: covered_def dest: gaps_from_ge)

section \<open>Correctness of the loops\<close>

definition add_post :: "gapmap \<Rightarrow> nat set \<Rightarrow> gapmap \<times> (nat \<times> nat) option \<Rightarrow> bool" where
  "add_post bef C r \<longleftrightarrow>
     (snd r = None \<longrightarrow> gaps_from 0 (fst r) \<and> covered (fst r) = covered bef \<union> C) \<and>
     (\<forall>gs ge. snd r = Some (gs, ge) \<longrightarrow>
        (\<exists>aft. fst r = bef @ aft \<and> gap_next 0 bef \<le> gs \<and> gs \<le> ge \<and> gaps_from (ge + 2) aft \<and>
           {gs..ge} \<union> covered aft = C))"

lemma add_gap_loop_correct:
  assumes "gaps_from 0 (bef @ it)" and "gap_next 0 bef \<le> gs" and "\<forall>(e, s) \<in> set it. gs \<le> e + 1"
    and "gs \<le> ge" and "ge + 1 < 2 ^ 64" and "\<forall>(e, s) \<in> set it. e + 1 < 2 ^ 64"
  shows "add_post bef ({gs..ge} \<union> covered it) (add_gap_loop gs ge it (bef @ it))"
  using assms
proof (induction it arbitrary: gs ge)
  case Nil
  then show ?case by (simp add: add_post_def)
next
  case (Cons p it)
  obtain e s where p: "p = (e, s)" by (cases p)
  have ok: "sm_ok (bef @ (e, s) # it)"
    using Cons.prems(1) unfolding p by (rule gaps_from_sm_ok)
  note erase = sm_erase_mid [OF ok]
  have bef: "gaps_from 0 bef" and lo: "gap_next 0 bef \<le> s" and se: "s \<le> e"
    and it: "gaps_from (e + 2) it"
    using Cons.prems(1) by (simp_all add: p gaps_from_append)
  have bi: "gaps_from 0 (bef @ it)"
    using bef lo se it by (auto simp: gaps_from_append intro: gaps_from_mono)
  have far: "\<forall>(e', s') \<in> set it. e + 2 \<le> s' \<and> s' \<le> e'"
    using it by (auto dest: gaps_from_ge)
  have gse: "gs \<le> e + 1" and e64: "e + 1 < 2 ^ 64" using Cons.prems(3,6) by (auto simp: p)
  have inc: "inc64 ge = ge + 1" using Cons.prems(5) by (rule inc64_small)
  have dec: "gs \<noteq> 0 \<Longrightarrow> dec64 gs = gs - 1" using Cons.prems(4,5) by (simp add: dec64_pos)
  consider (inside) "s \<ge> gs" "e \<le> ge"
    | (head) "s \<ge> gs" "ge < e" "s \<le> ge + 1"
    | (behind) "ge + 1 < s"
    | (tail) "s < gs" "e \<le> ge"
    | (cover) "s < gs" "ge < e" using gse by linarith
  then show ?case
  proof cases
    case inside
    have C: "{gs..ge} \<union> covered (p # it) = {gs..ge} \<union> covered it" using inside by (auto simp: p)
    have "add_post bef ({gs..ge} \<union> covered it) (add_gap_loop gs ge it (bef @ it))"
      by (rule Cons.IH) (use Cons.prems bi in auto)
    then show ?thesis unfolding C using inside by (simp add: p erase)
  next
    case head
    have C: "{gs..ge} \<union> covered (p # it) = {gs..e} \<union> covered it" using head by (auto simp: p)
    have "add_post bef ({gs..e} \<union> covered it) (add_gap_loop gs e it (bef @ it))"
      by (rule Cons.IH) (use Cons.prems bi head e64 in auto)
    then show ?thesis unfolding C using head by (simp add: p erase inc)
  next
    case behind
    then have "add_gap_loop gs ge (p # it) (bef @ p # it) = (bef @ p # it, Some (gs, ge))"
      using inc se Cons.prems(4) by (simp add: p)
    then show ?thesis
      using Cons.prems(2,4) it behind se by (simp add: add_post_def p)
  next
    case tail
    then have d: "dec64 gs \<le> e" using dec gse by auto
    have C: "{gs..ge} \<union> covered (p # it) = {s..ge} \<union> covered it" using tail gse by (auto simp: p)
    have "\<forall>(e', s') \<in> set it. s \<le> e' + 1" using far se by fastforce
    then have "add_post bef ({s..ge} \<union> covered it) (add_gap_loop s ge it (bef @ it))"
      by (intro Cons.IH) (use Cons.prems bi tail lo in auto)
    then show ?thesis unfolding C using tail d by (simp add: p erase)
  next
    case cover
    then have "add_gap_loop gs ge (p # it) (bef @ p # it) = (bef @ p # it, None)"
      by (simp add: p)
    moreover have "{gs..ge} \<union> {s..e} = {s..e}" using cover by auto
    then have "{gs..ge} \<union> ({s..e} \<union> covered it) = {s..e} \<union> covered it" by blast
    ultimately show ?thesis
      using Cons.prems(1) by (simp add: add_post_def p)
  qed
qed

text \<open>What \<open>FillGap\<close> leaves of the gaps its loop visits.\<close>

lemma fill_gap_loop_correct:
  assumes "gaps_from 0 (bef @ it)" and "\<forall>(e, s) \<in> set it. ps \<le> e"
    and "\<forall>(e, s) \<in> set bef. e < ps"
    and "ps \<le> pe" and "pe + 1 < 2 ^ 64"
  shows "gaps_from 0 (fill_gap_loop ps pe it (bef @ it)) \<and>
    covered (fill_gap_loop ps pe it (bef @ it)) = covered (bef @ it) - {ps..pe}"
  using assms
proof (induction it arbitrary: bef)
  case Nil
  then show ?case by (auto simp: covered_def)
next
  case (Cons p it)
  obtain e s where p: "p = (e, s)" by (cases p)
  have ok: "sm_ok (bef @ (e, s) # it)"
    using Cons.prems(1) unfolding p by (rule gaps_from_sm_ok)
  note erase = sm_erase_mid [OF ok]
  note assign = sm_assign_mid [OF ok]
  have bef: "gaps_from 0 bef" and lo: "gap_next 0 bef \<le> s" and se: "s \<le> e"
    and it: "gaps_from (e + 2) it"
    using Cons.prems(1) by (simp_all add: p gaps_from_append)
  have bi: "gaps_from 0 (bef @ it)"
    using bef lo se it by (auto simp: gaps_from_append intro: gaps_from_mono)
  have cb: "covered bef \<inter> {ps..} = {}"
    using Cons.prems(3) by (fastforce simp: covered_def)
  have ci: "covered it \<inter> {..e + 1} = {}" using it by (fastforce dest: covered_ge)
  have pse: "ps \<le> e" using Cons.prems(2) by (auto simp: p)
  have inc: "inc64 pe = pe + 1" using Cons.prems(5) by (rule inc64_small)
  consider (inside) "ps \<le> s" "e \<le> pe" | (head) "ps \<le> s" "pe < e" "s \<le> pe" | (behind) "pe < s"
    | (split) "s < ps" "pe < e" | (tail) "s < ps" "e \<le> pe" by linarith
  then show ?case
  proof cases
    case inside
    have IH: "gaps_from 0 (fill_gap_loop ps pe it (bef @ it)) \<and>
        covered (fill_gap_loop ps pe it (bef @ it)) = covered (bef @ it) - {ps..pe}"
      by (rule Cons.IH) (use Cons.prems bi in auto)
    have "covered (bef @ (e, s) # it) - {ps..pe} = covered (bef @ it) - {ps..pe}"
      using inside by auto
    then show ?thesis using IH inside by (simp add: p erase)
  next
    case head
    have "{s..e} - {ps..pe} = {pe + 1..e}" using head by auto
    moreover have "gaps_from 0 (bef @ (e, pe + 1) # it)"
      using bef lo head it by (simp add: gaps_from_append)
    ultimately show ?thesis using head cb ci by (auto simp: p assign inc)
  next
    case behind
    then show ?thesis
      using Cons.prems(1,4) cb ci se by (auto simp: p)
  next
    case split
    then obtain q where q: "ps = Suc q" by (cases ps) auto
    then have k: "dec64 (Suc q) = q" using Cons.prems(4,5) by (simp add: dec64_Suc)
    have b: "\<forall>x \<in> set bef. fst x < q"
      using gap_next_gt [OF bef] lo split q by fastforce
    have a: "\<forall>y \<in> set ((e, Suc pe) # it). q < fst y"
      using pse it q by (fastforce dest: gaps_from_ge)
    have "gaps_from 0 (bef @ (q, s) # (e, Suc pe) # it)"
      using bef lo split it q Cons.prems(4) by (simp add: gaps_from_append)
    moreover have "{s..e} - {ps..pe} = {s..q} \<union> {Suc pe..e}"
      using split q Cons.prems(4) by auto
    ultimately show ?thesis
      using split cb ci by (auto simp: p q k assign inc sm_insert_mid [OF b a])
  next
    case tail
    then obtain q where q: "ps = Suc q" by (cases ps) auto
    then have k: "dec64 (Suc q) = q" using Cons.prems(4,5) by (simp add: dec64_Suc)
    have b: "\<forall>x \<in> set bef. fst x < q"
      using gap_next_gt [OF bef] lo tail q by fastforce
    have a: "\<forall>y \<in> set ((e, s) # it). q < fst y"
      using pse it q by (fastforce dest: gaps_from_ge)
    have ok2: "sm_ok ((bef @ [(q, s)]) @ (e, s) # it)"
      using ok b a by (auto simp: sm_ok_append sm_ok_Cons)
    have bi2: "gaps_from 0 ((bef @ [(q, s)]) @ it)"
      using bef lo tail q it pse by (auto simp: gaps_from_append intro: gaps_from_mono)
    have IH: "gaps_from 0 (fill_gap_loop ps pe it ((bef @ [(q, s)]) @ it)) \<and>
        covered (fill_gap_loop ps pe it ((bef @ [(q, s)]) @ it)) =
          covered ((bef @ [(q, s)]) @ it) - {ps..pe}"
      by (rule Cons.IH) (use Cons.prems bi2 q in \<open>auto simp: p\<close>)
    have "{s..e} - {ps..pe} = {s..q}" using tail q pse by auto
    moreover have "{s..q} - {ps..pe} = {s..q}" using q by auto
    ultimately have "covered ((bef @ [(q, s)]) @ it) - {ps..pe} =
        covered (bef @ (e, s) # it) - {ps..pe}"
      by auto
    moreover have "sm_erase e (sm_insert q s (bef @ (e, s) # it)) = (bef @ [(q, s)]) @ it"
      using sm_insert_mid [OF b a, of s] sm_erase_mid [OF ok2] by simp
    moreover have "fill_gap_loop ps pe (p # it) (bef @ p # it) =
        fill_gap_loop ps pe it (sm_erase e (sm_insert q s (bef @ (e, s) # it)))"
      using tail pse by (simp add: p q k)
    ultimately show ?thesis using IH by (simp add: p)
  qed
qed

section \<open>Invariant\<close>

definition missing :: "gaplist \<Rightarrow> nat set" where
  "missing g = covered (m_gaplist g)"

definition part_bytes :: "gaplist \<Rightarrow> nat \<Rightarrow> nat set" where
  "part_bytes g p = {p * PARTSIZE..<p * PARTSIZE + GetPartSize g p}"

fun cache_agrees :: "ePartComplete \<Rightarrow> nat set \<Rightarrow> bool" where
  "cache_agrees complete A = (A = {})"
| "cache_agrees incomplete A = (A \<noteq> {})"
| "cache_agrees unknown A = True"

definition layout_ok :: "gaplist \<Rightarrow> bool" where
  "layout_ok g \<longleftrightarrow>
     0 < m_filesize g \<and> m_filesize g \<le> MAX_FILE_SIZE \<and>
     m_iPartCount g = (m_filesize g - 1) div PARTSIZE + 1 \<and>
     m_sizeLastPart g = (m_filesize g - 1) mod PARTSIZE + 1 \<and>
     length (m_partsComplete g) = m_iPartCount g"

definition gaplist_inv :: "gaplist \<Rightarrow> bool" where
  "gaplist_inv g \<longleftrightarrow>
     layout_ok g \<and> gaps_from 0 (m_gaplist g) \<and> missing g \<subseteq> {..<m_filesize g} \<and>
     (\<forall>p < m_iPartCount g. cache_agrees (m_partsComplete g ! p) (missing g \<inter> part_bytes g p)) \<and>
     (m_totalGapSizeValid g \<longrightarrow> m_totalGapSize g = card (missing g))"

lemma PARTSIZE_pos: "0 < PARTSIZE"
  by (simp add: PARTSIZE_def)

lemma layout_ok_filesize: "layout_ok g \<Longrightarrow> m_filesize g < 2 ^ 64"
  by (simp add: layout_ok_def MAX_FILE_SIZE_def)

lemma div_le_eq_lt:
  "x div PARTSIZE = p \<longleftrightarrow> p * PARTSIZE \<le> x \<and> x < p * PARTSIZE + PARTSIZE"
  using less_eq_div_iff_mult_less_eq [OF PARTSIZE_pos, of p x]
    less_eq_div_iff_mult_less_eq [OF PARTSIZE_pos, of "Suc p" x]
  by auto

lemma div_partsize_less:
  assumes "x < n" shows "x div PARTSIZE \<le> (n - 1) div PARTSIZE"
  using assms by (simp add: div_le_mono)

lemma layout_ok_part_less: "layout_ok g \<Longrightarrow> x < m_filesize g \<Longrightarrow> x div PARTSIZE < m_iPartCount g"
  using div_partsize_less [of x "m_filesize g"] by (simp add: layout_ok_def)

lemma layout_ok_count: "layout_ok g \<Longrightarrow> m_iPartCount g < 65535"
proof -
  assume ok: "layout_ok g"
  then have "(m_filesize g - 1) div PARTSIZE \<le> MAX_FILE_SIZE div PARTSIZE"
    by (intro div_le_mono) (auto simp: layout_ok_def)
  then show ?thesis using ok by (simp add: layout_ok_def MAX_FILE_SIZE_def PARTSIZE_def)
qed

lemma layout_ok_part_end:
  assumes ok: "layout_ok g" and p: "p < m_iPartCount g"
  shows "p * PARTSIZE + GetPartSize g p \<le> m_filesize g" and "0 < GetPartSize g p"
    and "p + 1 < m_iPartCount g \<Longrightarrow> GetPartSize g p = PARTSIZE"
    and "p + 1 = m_iPartCount g \<Longrightarrow> p * PARTSIZE + GetPartSize g p = m_filesize g"
proof -
  let ?n = "m_filesize g - 1"
  have u: "u32 PARTSIZE = PARTSIZE" by (simp add: u32_def PARTSIZE_def)
  have dm: "?n div PARTSIZE * PARTSIZE + ?n mod PARTSIZE = ?n" by (rule div_mult_mod_eq)
  show full: "GetPartSize g p = PARTSIZE" if "p + 1 < m_iPartCount g"
    using that u by (simp add: GetPartSize_def)
  show lst: "p * PARTSIZE + GetPartSize g p = m_filesize g" if "p + 1 = m_iPartCount g"
    using that ok dm by (auto simp: GetPartSize_def layout_ok_def)
  show "0 < GetPartSize g p"
    using ok u PARTSIZE_pos by (simp add: GetPartSize_def layout_ok_def)
  show "p * PARTSIZE + GetPartSize g p \<le> m_filesize g"
  proof (cases "p + 1 = m_iPartCount g")
    case False
    with p have l: "p + 1 < m_iPartCount g" by simp
    then have "(p + 1) * PARTSIZE \<le> ?n div PARTSIZE * PARTSIZE"
      using ok by (intro mult_le_mono1) (simp add: layout_ok_def)
    moreover have "?n div PARTSIZE * PARTSIZE \<le> ?n" using dm by simp
    ultimately show ?thesis using full [OF l] by (simp only: add_mult_distrib)
  qed (use lst in simp)
qed

lemma part_bytes_eq:
  assumes ok: "layout_ok g" and p: "p < m_iPartCount g"
  shows "part_bytes g p = {x. x < m_filesize g \<and> x div PARTSIZE = p}"
proof -
  have "x \<in> part_bytes g p \<longleftrightarrow> x < m_filesize g \<and> x div PARTSIZE = p" for x
  proof (cases "p + 1 = m_iPartCount g")
    case True
    then have e: "p * PARTSIZE + GetPartSize g p = m_filesize g"
      by (rule layout_ok_part_end(4) [OF ok p])
    have "x < m_filesize g \<Longrightarrow> x div PARTSIZE \<le> p"
      using layout_ok_part_less [OF ok, of x] True by simp
    moreover have "p * PARTSIZE \<le> x \<longleftrightarrow> p \<le> x div PARTSIZE"
      using PARTSIZE_pos by (simp add: less_eq_div_iff_mult_less_eq)
    ultimately show ?thesis using e by (auto simp: part_bytes_def)
  next
    case False
    with p have l: "p + 1 < m_iPartCount g" by simp
    have e: "GetPartSize g p = PARTSIZE" by (rule layout_ok_part_end(3) [OF ok p l])
    have "x div PARTSIZE = p \<longleftrightarrow> p * PARTSIZE \<le> x \<and> x < p * PARTSIZE + PARTSIZE"
      using PARTSIZE_pos div_le_eq_lt [of x p] by simp
    then show ?thesis
      using layout_ok_part_end(1) [OF ok p] by (auto simp: part_bytes_def e)
  qed
  then show ?thesis by blast
qed

lemma mark_parts_Inr:
  assumes "b < length parts" and "length parts \<le> 65535"
  shows "\<exists>parts'. mark_parts st a b parts = Inr parts' \<and> length parts' = length parts \<and>
    (\<forall>i < length parts. parts' ! i = (if a \<le> i \<and> i \<le> b then st else parts ! i))"
  using assms
proof (induction st a b parts rule: mark_parts.induct)
  case (1 st a b parts)
  show ?case
  proof (cases "a \<le> b")
    case True
    then have "a < length parts" and "a \<noteq> 65535" using "1.prems" by auto
    moreover obtain parts' where "mark_parts st (a + 1) b (parts[a := st]) = Inr parts'"
      and "length parts' = length parts"
      and "\<forall>i < length parts. parts' ! i = (if a + 1 \<le> i \<and> i \<le> b then st else parts[a := st] ! i)"
      using "1.IH" True "1.prems" \<open>a < length parts\<close> \<open>a \<noteq> 65535\<close> by auto
    ultimately show ?thesis
      using True by (auto simp: mark_parts.simps [of st a b parts] nth_list_update)
  next
    case False
    then show ?thesis by (auto simp: mark_parts.simps [of st a b parts])
  qed
qed

section \<open>Correctness of the operations\<close>

lemma ArgCheck_in_range:
  assumes "layout_ok g" and "a < m_filesize g" and "a \<le> b"
  shows "ArgCheck g a b = Some (min b (m_filesize g - 1))"
  using assms layout_ok_filesize [OF assms(1)]
  by (auto simp: ArgCheck_def dec64_pos layout_ok_def)

lemma ArgCheck_refused: "b < a \<Longrightarrow> ArgCheck g a b = None"
  by (simp add: ArgCheck_def)

text \<open>Both range operations first mark the parts that the range touches.\<close>

lemma mark_range:
  assumes "layout_ok g" and "a \<le> b" and "b < m_filesize g"
  shows "\<exists>parts'. mark_parts st (u16 (a div PARTSIZE)) (u16 (b div PARTSIZE)) (m_partsComplete g) =
      Inr parts' \<and> length parts' = m_iPartCount g \<and>
    (\<forall>i < m_iPartCount g. parts' ! i =
       (if a div PARTSIZE \<le> i \<and> i \<le> b div PARTSIZE then st else m_partsComplete g ! i))"
proof -
  have cnt: "m_iPartCount g < 65535" by (rule layout_ok_count [OF assms(1)])
  have b: "b div PARTSIZE < m_iPartCount g" by (rule layout_ok_part_less [OF assms(1,3)])
  have "a div PARTSIZE \<le> b div PARTSIZE" by (rule div_le_mono [OF assms(2)])
  with b cnt have "u16 (a div PARTSIZE) = a div PARTSIZE" and "u16 (b div PARTSIZE) = b div PARTSIZE"
    by (simp_all add: u16_small)
  then show ?thesis
    using mark_parts_Inr [of "b div PARTSIZE" "m_partsComplete g" st "a div PARTSIZE"] b cnt assms(1)
    by (simp add: layout_ok_def)
qed

lemma range_touches_part:
  assumes "layout_ok g" and "a \<le> b" and "b < m_filesize g" and "p < m_iPartCount g"
  shows "{a..b} \<inter> part_bytes g p \<noteq> {} \<longleftrightarrow> a div PARTSIZE \<le> p \<and> p \<le> b div PARTSIZE"
proof
  assume "{a..b} \<inter> part_bytes g p \<noteq> {}"
  then obtain x where "x \<in> {a..b}" and "x \<in> part_bytes g p" by blast
  then have "a \<le> x" "x \<le> b" "x div PARTSIZE = p"
    using part_bytes_eq [OF assms(1,4)] by auto
  then show "a div PARTSIZE \<le> p \<and> p \<le> b div PARTSIZE" by (auto intro: div_le_mono)
next
  assume p: "a div PARTSIZE \<le> p \<and> p \<le> b div PARTSIZE"
  define x where "x = max a (p * PARTSIZE)"
  have "p * PARTSIZE \<le> b" using p PARTSIZE_pos by (simp add: less_eq_div_iff_mult_less_eq)
  then have xb: "x \<le> b" using assms(2) by (simp add: x_def)
  have "a < p * PARTSIZE + PARTSIZE"
    using p less_eq_div_iff_mult_less_eq [OF PARTSIZE_pos, of "Suc p" a] by auto
  then have "x div PARTSIZE = p" unfolding div_le_eq_lt x_def using PARTSIZE_pos by auto
  then have "x \<in> {a..b} \<inter> part_bytes g p"
    using xb assms(3) by (simp add: part_bytes_eq [OF assms(1,4)]) (simp add: x_def)
  then show "{a..b} \<inter> part_bytes g p \<noteq> {}" by blast
qed

lemma layout_ok_update:
  "layout_ok g \<Longrightarrow> length parts = m_iPartCount g \<Longrightarrow>
    layout_ok (g\<lparr>m_partsComplete := parts, m_totalGapSizeValid := v, m_gaplist := m\<rparr>)"
  by (simp add: layout_ok_def)

lemma part_bytes_update [simp]:
  "part_bytes (g\<lparr>m_partsComplete := parts, m_totalGapSizeValid := v, m_gaplist := m\<rparr>) p = part_bytes g p"
  "part_bytes (g\<lparr>m_partsComplete := parts\<rparr>) p = part_bytes g p"
  by (simp_all add: part_bytes_def GetPartSize_def)

lemma AddGap_core:
  assumes ok: "layout_ok g" and gaps: "gaps_from 0 (m_gaplist g)"
    and sub: "missing g \<subseteq> {..<m_filesize g}" and ab: "a \<le> b" and b: "b < m_filesize g"
    and cache: "\<And>p. p < m_iPartCount g \<Longrightarrow> {a..b} \<inter> part_bytes g p = {} \<Longrightarrow>
      cache_agrees (m_partsComplete g ! p) (missing g \<inter> part_bytes g p)"
  shows "\<exists>g'. AddGap g a b = Inr g' \<and> gaplist_inv g' \<and> missing g' = missing g \<union> {a..b} \<and>
    m_filesize g' = m_filesize g \<and> m_iPartCount g' = m_iPartCount g"
proof -
  have f64: "m_filesize g < 2 ^ 64" by (rule layout_ok_filesize [OF ok])
  have arg: "ArgCheck g a b = Some b" using ArgCheck_in_range [OF ok, of a b] ab b by simp
  obtain parts' where parts': "mark_parts incomplete (u16 (a div PARTSIZE)) (u16 (b div PARTSIZE))
      (m_partsComplete g) = Inr parts'" and len: "length parts' = m_iPartCount g"
    and nth: "\<forall>i < m_iPartCount g. parts' ! i =
       (if a div PARTSIZE \<le> i \<and> i \<le> b div PARTSIZE then incomplete else m_partsComplete g ! i)"
    using mark_range [OF ok ab b] by blast
  let ?k = "if a > 0 then a - 1 else 0"
  define bef where "bef = sm_before ?k (m_gaplist g)"
  define it where "it = sm_lower_bound ?k (m_gaplist g)"
  have m: "m_gaplist g = bef @ it" by (simp add: bef_def it_def sm_before_lower_bound)
  have smok: "sm_ok (m_gaplist g)" using gaps by (rule gaps_from_sm_ok)
  have it_ge: "\<forall>(e, s) \<in> set it. a \<le> e + 1"
    using sm_lower_bound_ge [OF smok, of _ ?k] by (fastforce simp: it_def split: if_splits)
  have it64: "\<forall>(e, s) \<in> set it. e + 1 < 2 ^ 64"
    using covered_end [OF gaps] sub f64 by (fastforce simp: missing_def m)
  have nxt: "gap_next 0 bef \<le> a"
  proof (rule gap_next_le)
    show "gaps_from 0 bef" using gaps m by (simp add: gaps_from_append)
    show "\<forall>(e, s) \<in> set bef. e + 2 \<le> a"
      using sm_before_less [of _ ?k "m_gaplist g"] by (fastforce simp: bef_def split: if_splits)
  qed simp
  define r where "r = add_gap_loop a b it (m_gaplist g)"
  have post: "add_post bef ({a..b} \<union> covered it) r"
    unfolding r_def m
    by (rule add_gap_loop_correct) (use gaps m nxt it_ge ab b f64 it64 in auto)
  define m' where "m' = (case r of (m1, None) \<Rightarrow> m1 | (m1, Some (gs, ge)) \<Rightarrow> sm_insert ge gs m1)"
  have m'_ok: "gaps_from 0 m' \<and> covered m' = covered (m_gaplist g) \<union> {a..b}"
  proof (cases "snd r")
    case None
    then have "m' = fst r" by (cases r) (simp add: m'_def)
    then show ?thesis using post None by (auto simp: add_post_def m)
  next
    case (Some lims)
    obtain gs ge where lims: "lims = (gs, ge)" by (cases lims)
    have m'_eq: "m' = sm_insert ge gs (fst r)"
      using Some lims by (cases r) (simp add: m'_def)
    obtain aft where aft: "fst r = bef @ aft" "gap_next 0 bef \<le> gs" "gs \<le> ge"
        "gaps_from (ge + 2) aft" "{gs..ge} \<union> covered aft = {a..b} \<union> covered it"
      using post Some lims by (auto simp: add_post_def)
    have gb: "gaps_from 0 bef" using gaps m by (simp add: gaps_from_append)
    have "\<forall>x \<in> set bef. fst x < ge" using gap_next_gt [OF gb] aft(2,3) by fastforce
    moreover have "\<forall>y \<in> set aft. ge < fst y" using aft(4) by (fastforce dest: gaps_from_ge)
    ultimately have "m' = bef @ (ge, gs) # aft" by (simp add: m'_eq aft(1) sm_insert_mid)
    then show ?thesis using gb aft by (auto simp: gaps_from_append m)
  qed
  let ?g' = "g\<lparr>m_partsComplete := parts', m_totalGapSizeValid := False, m_gaplist := m'\<rparr>"
  have add: "AddGap g a b = Inr ?g'"
    using arg parts' by (simp add: AddGap_def r_def m'_def it_def Let_def)
  have mis: "missing ?g' = missing g \<union> {a..b}" using m'_ok by (simp add: missing_def)
  have "cache_agrees (parts' ! p) (missing ?g' \<inter> part_bytes g p)" if "p < m_iPartCount g"
    for p
  proof (cases "a div PARTSIZE \<le> p \<and> p \<le> b div PARTSIZE")
    case True
    then have "{a..b} \<inter> part_bytes g p \<noteq> {}" using range_touches_part [OF ok ab b that] by blast
    then have "missing ?g' \<inter> part_bytes g p \<noteq> {}" unfolding mis by blast
    then show ?thesis using True nth that by simp
  next
    case False
    then have "{a..b} \<inter> part_bytes g p = {}" using range_touches_part [OF ok ab b that] by blast
    moreover from this have "missing ?g' \<inter> part_bytes g p = missing g \<inter> part_bytes g p"
      unfolding mis by blast
    ultimately show ?thesis using False cache that nth by auto
  qed
  moreover have "layout_ok ?g'" by (rule layout_ok_update [OF ok len])
  moreover have "missing ?g' \<subseteq> {..<m_filesize g}" unfolding mis using sub b by auto
  ultimately have "gaplist_inv ?g'" using m'_ok by (simp add: gaplist_inv_def)
  with add mis show ?thesis by (intro exI [of _ ?g']) simp
qed

lemma AddGap_range:
  assumes "gaplist_inv g" and "a \<le> b" and "b < m_filesize g"
  shows "\<exists>g'. AddGap g a b = Inr g' \<and> gaplist_inv g' \<and> missing g' = missing g \<union> {a..b} \<and>
    m_filesize g' = m_filesize g \<and> m_iPartCount g' = m_iPartCount g"
  using assms by (intro AddGap_core) (auto simp: gaplist_inv_def)

lemma FillGap_range:
  assumes inv: "gaplist_inv g" and ab: "a \<le> b" and b: "b < m_filesize g"
  shows "\<exists>g'. FillGap g a b = Inr g' \<and> gaplist_inv g' \<and> missing g' = missing g - {a..b} \<and>
    m_filesize g' = m_filesize g \<and> m_iPartCount g' = m_iPartCount g"
proof -
  have ok: "layout_ok g" and gaps: "gaps_from 0 (m_gaplist g)"
    and sub: "missing g \<subseteq> {..<m_filesize g}"
    using inv by (simp_all add: gaplist_inv_def)
  have f64: "m_filesize g < 2 ^ 64" by (rule layout_ok_filesize [OF ok])
  have arg: "ArgCheck g a b = Some b" using ArgCheck_in_range [OF ok, of a b] ab b by simp
  obtain parts' where parts': "mark_parts unknown (u16 (a div PARTSIZE)) (u16 (b div PARTSIZE))
      (m_partsComplete g) = Inr parts'" and len: "length parts' = m_iPartCount g"
    and nth: "\<forall>i < m_iPartCount g. parts' ! i =
       (if a div PARTSIZE \<le> i \<and> i \<le> b div PARTSIZE then unknown else m_partsComplete g ! i)"
    using mark_range [OF ok ab b] by blast
  define bef where "bef = sm_before a (m_gaplist g)"
  define it where "it = sm_lower_bound a (m_gaplist g)"
  define m' where "m' = fill_gap_loop a b it (m_gaplist g)"
  have m: "m_gaplist g = bef @ it" by (simp add: bef_def it_def sm_before_lower_bound)
  have smok: "sm_ok (m_gaplist g)" using gaps by (rule gaps_from_sm_ok)
  have m'_ok: "gaps_from 0 m' \<and> covered m' = covered (m_gaplist g) - {a..b}"
    unfolding m'_def m
  proof (rule fill_gap_loop_correct)
    show "gaps_from 0 (bef @ it)" using gaps m by simp
    show "\<forall>(e, s) \<in> set it. a \<le> e" using sm_lower_bound_ge [OF smok] by (fastforce simp: it_def)
    show "\<forall>(e, s) \<in> set bef. e < a" using sm_before_less by (fastforce simp: bef_def)
  qed (use ab b f64 in auto)
  let ?g' = "g\<lparr>m_partsComplete := parts', m_totalGapSizeValid := False, m_gaplist := m'\<rparr>"
  have fill: "FillGap g a b = Inr ?g'"
    using arg parts' by (simp add: FillGap_def m'_def it_def Let_def)
  have mis: "missing ?g' = missing g - {a..b}" using m'_ok by (simp add: missing_def)
  have "cache_agrees (parts' ! p) (missing ?g' \<inter> part_bytes g p)" if "p < m_iPartCount g"
    for p
  proof (cases "a div PARTSIZE \<le> p \<and> p \<le> b div PARTSIZE")
    case False
    then have "{a..b} \<inter> part_bytes g p = {}" using range_touches_part [OF ok ab b that] by blast
    then have "missing ?g' \<inter> part_bytes g p = missing g \<inter> part_bytes g p" unfolding mis by blast
    then show ?thesis using False inv that nth by (auto simp: gaplist_inv_def)
  qed (use nth that in auto)
  moreover have "layout_ok ?g'" by (rule layout_ok_update [OF ok len])
  moreover have "missing ?g' \<subseteq> {..<m_filesize g}" unfolding mis using sub by auto
  ultimately have "gaplist_inv ?g'" using m'_ok by (simp add: gaplist_inv_def)
  with fill mis show ?thesis by (intro exI [of _ ?g']) simp
qed

text \<open>The calls on a whole part, and the queries.\<close>

lemma part_range:
  assumes "layout_ok g" and "p < m_iPartCount g"
  shows "u64 (p * PARTSIZE) = p * PARTSIZE"
    and "dec64 (u64 (u64 (p * PARTSIZE) + GetPartSize g p)) = p * PARTSIZE + GetPartSize g p - 1"
    and "p * PARTSIZE \<le> p * PARTSIZE + GetPartSize g p - 1"
    and "p * PARTSIZE + GetPartSize g p - 1 < m_filesize g"
    and "{p * PARTSIZE..p * PARTSIZE + GetPartSize g p - 1} = part_bytes g p"
proof -
  note e = layout_ok_part_end(1,2) [OF assms] and f = layout_ok_filesize [OF assms(1)]
  show a: "u64 (p * PARTSIZE) = p * PARTSIZE" using e f by (simp add: u64_small)
  show "dec64 (u64 (u64 (p * PARTSIZE) + GetPartSize g p)) = p * PARTSIZE + GetPartSize g p - 1"
    unfolding a using e f by (simp add: u64_small dec64_pos)
  show "p * PARTSIZE \<le> p * PARTSIZE + GetPartSize g p - 1"
    and "p * PARTSIZE + GetPartSize g p - 1 < m_filesize g"
    using e by auto
  show "{p * PARTSIZE..p * PARTSIZE + GetPartSize g p - 1} = part_bytes g p"
    using e(2) by (auto simp: part_bytes_def)
qed

lemma set_part_ok:
  assumes "gaplist_inv g" and "p < m_iPartCount g"
    and "cache_agrees st (missing g \<inter> part_bytes g p)"
  shows "\<exists>g'. set_part g p st = Inr g' \<and> gaplist_inv g' \<and> missing g' = missing g \<and>
    m_filesize g' = m_filesize g \<and> m_iPartCount g' = m_iPartCount g"
proof -
  let ?g' = "g\<lparr>m_partsComplete := (m_partsComplete g)[p := st]\<rparr>"
  have len: "p < length (m_partsComplete g)" using assms(1,2) by (simp add: gaplist_inv_def layout_ok_def)
  have "missing ?g' = missing g" by (simp add: missing_def)
  moreover from this have "gaplist_inv ?g'"
    using assms len by (auto simp: gaplist_inv_def layout_ok_def nth_list_update)
  ultimately show ?thesis using len by (simp add: set_part_def)
qed

lemma AddGapPart_ok:
  assumes "gaplist_inv g" and p: "p < m_iPartCount g"
  shows "\<exists>g'. AddGapPart g p = Inr g' \<and> gaplist_inv g' \<and> missing g' = missing g \<union> part_bytes g p"
proof -
  have ok: "layout_ok g" using assms(1) by (simp add: gaplist_inv_def)
  note r = part_range [OF ok p]
  obtain g1 where g1: "AddGap g (p * PARTSIZE) (p * PARTSIZE + GetPartSize g p - 1) = Inr g1"
    "gaplist_inv g1" "missing g1 = missing g \<union> part_bytes g p"
    "m_filesize g1 = m_filesize g" "m_iPartCount g1 = m_iPartCount g"
    using AddGap_range [OF assms(1) r(3,4)] r(5) by auto
  have "part_bytes g1 p = part_bytes g p"
    using part_bytes_eq [OF ok p] part_bytes_eq [of g1 p] g1 p by (simp add: gaplist_inv_def)
  moreover have "p * PARTSIZE \<in> part_bytes g p"
    using layout_ok_part_end(2) [OF ok p] by (simp add: part_bytes_def)
  ultimately have c: "cache_agrees incomplete (missing g1 \<inter> part_bytes g1 p)" using g1(3) by auto
  have "p < m_iPartCount g1" using p g1(5) by simp
  then obtain g' where "set_part g1 p incomplete = Inr g'" "gaplist_inv g'" "missing g' = missing g1"
    using set_part_ok [OF g1(2) _ c] by blast
  then show ?thesis using p r(1,2) g1 by (auto simp: AddGapPart_def Let_def)
qed

lemma FillGapPart_ok:
  assumes "gaplist_inv g" and p: "p < m_iPartCount g"
  shows "\<exists>g'. FillGapPart g p = Inr g' \<and> gaplist_inv g' \<and> missing g' = missing g - part_bytes g p"
proof -
  have ok: "layout_ok g" using assms(1) by (simp add: gaplist_inv_def)
  note r = part_range [OF ok p]
  obtain g1 where g1: "FillGap g (p * PARTSIZE) (p * PARTSIZE + GetPartSize g p - 1) = Inr g1"
    "gaplist_inv g1" "missing g1 = missing g - part_bytes g p"
    "m_filesize g1 = m_filesize g" "m_iPartCount g1 = m_iPartCount g"
    using FillGap_range [OF assms(1) r(3,4)] r(5) by auto
  have "part_bytes g1 p = part_bytes g p"
    using part_bytes_eq [OF ok p] part_bytes_eq [of g1 p] g1 p by (simp add: gaplist_inv_def)
  then have c: "cache_agrees complete (missing g1 \<inter> part_bytes g1 p)" using g1(3) by auto
  have "p < m_iPartCount g1" using p g1(5) by simp
  then obtain g' where "set_part g1 p complete = Inr g'" "gaplist_inv g'" "missing g' = missing g1"
    using set_part_ok [OF g1(2) _ c] by blast
  then show ?thesis using p r(1,2) g1 by (auto simp: FillGapPart_def Let_def)
qed

lemma is_complete_loop_eq:
  "gaps_from lo it \<Longrightarrow> a \<le> b \<Longrightarrow> is_complete_loop a b it \<longleftrightarrow> covered it \<inter> {a..b} = {}"
proof (induction lo it rule: gaps_from.induct)
  case (2 lo e s m)
  have m: "covered m \<inter> {..e + 1} = {}" using "2.prems" by (fastforce dest: covered_ge)
  show ?case
  proof (cases "b < s")
    case True
    then have "covered ((e, s) # m) \<inter> {a..b} = {}" using m "2.prems" by auto
    then show ?thesis using True "2.prems" by auto
  next
    case False
    show ?thesis
    proof (cases "e < a")
      case True
      then have "{s..e} \<inter> {a..b} = {}" by auto
      then show ?thesis using True False "2" by (auto simp: Int_Un_distrib2)
    next
      case ea: False
      then have "max s a \<in> covered ((e, s) # m)" and "max s a \<in> {a..b}"
        using False "2.prems" by auto
      then have "covered ((e, s) # m) \<inter> {a..b} \<noteq> {}" by blast
      moreover have "\<not> is_complete_loop a b ((e, s) # m)" using False ea "2.prems" by auto
      ultimately show ?thesis by simp
    qed
  qed
qed simp

lemma split_at:
  assumes "gaps_from 0 m"
  shows "covered m \<inter> {a..} = covered (sm_lower_bound a m) \<inter> {a..}"
    and "\<exists>lo. gaps_from lo (sm_lower_bound a m)"
proof -
  have "covered (sm_before a m) \<inter> {a..} = {}"
    using sm_before_less by (fastforce simp: covered_def)
  then show "covered m \<inter> {a..} = covered (sm_lower_bound a m) \<inter> {a..}"
    using covered_append [of "sm_before a m" "sm_lower_bound a m"]
    by (auto simp: sm_before_lower_bound)
  show "\<exists>lo. gaps_from lo (sm_lower_bound a m)"
    using assms gaps_from_append [of 0 "sm_before a m" "sm_lower_bound a m"]
    by (auto simp: sm_before_lower_bound)
qed

lemma IsComplete_ok:
  assumes inv: "gaplist_inv g" and "a \<le> b" and "b < m_filesize g"
  shows "IsComplete g a b \<longleftrightarrow> missing g \<inter> {a..b} = {}"
proof -
  have ok: "layout_ok g" and gaps: "gaps_from 0 (m_gaplist g)"
    using inv by (simp_all add: gaplist_inv_def)
  have arg: "ArgCheck g a b = Some b" using ArgCheck_in_range [OF ok, of a b] assms by simp
  obtain lo where lo: "gaps_from lo (sm_lower_bound a (m_gaplist g))" using split_at(2) [OF gaps] by blast
  have "X \<inter> {a..b} = (X \<inter> {a..}) \<inter> {a..b}" for X by auto
  then have "missing g \<inter> {a..b} = covered (sm_lower_bound a (m_gaplist g)) \<inter> {a..b}"
    using split_at(1) [OF gaps, of a] by (metis missing_def)
  then show ?thesis
    using is_complete_loop_eq [OF lo assms(2)] arg by (simp add: IsComplete_def)
qed

lemma IsCompletePart_ok:
  assumes inv: "gaplist_inv g" and p: "p < m_iPartCount g"
  shows "\<exists>g'. IsCompletePart g p = Inr (missing g \<inter> part_bytes g p = {}, g') \<and> gaplist_inv g' \<and>
    m_gaplist g' = m_gaplist g"
proof -
  have ok: "layout_ok g" using inv by (simp add: gaplist_inv_def)
  then have len: "length (m_partsComplete g) = m_iPartCount g" by (simp add: layout_ok_def)
  note r = part_range [OF ok p]
  have agree: "cache_agrees (m_partsComplete g ! p) (missing g \<inter> part_bytes g p)"
    using inv p by (simp add: gaplist_inv_def)
  show ?thesis
  proof (cases "m_partsComplete g ! p = unknown")
    case True
    define st where "st = (if missing g \<inter> part_bytes g p = {} then complete else incomplete)"
    have st: "cache_agrees st (missing g \<inter> part_bytes g p)" by (simp add: st_def)
    have i: "IsComplete g (p * PARTSIZE) (p * PARTSIZE + GetPartSize g p - 1) \<longleftrightarrow>
        missing g \<inter> part_bytes g p = {}"
      using IsComplete_ok [OF inv r(3,4)] r(5) by simp
    have "IsCompletePart g p =
        Inr (missing g \<inter> part_bytes g p = {}, g\<lparr>m_partsComplete := (m_partsComplete g)[p := st]\<rparr>)"
      using True p len r(1,2) i by (simp add: IsCompletePart_def st_def Let_def)
    moreover have "gaplist_inv (g\<lparr>m_partsComplete := (m_partsComplete g)[p := st]\<rparr>)"
      using set_part_ok [OF inv p st] p len by (auto simp: set_part_def)
    ultimately show ?thesis by simp
  next
    case False
    then have "(m_partsComplete g ! p = complete) = (missing g \<inter> part_bytes g p = {})"
      using agree by (cases "m_partsComplete g ! p") auto
    then show ?thesis using False p len inv by (simp add: IsCompletePart_def Let_def)
  qed
qed

text \<open>Sizes.\<close>

lemma covered_Cons_disjoint: "gaps_from lo ((e, s) # m) \<Longrightarrow> {s..e} \<inter> covered m = {}"
  by (fastforce dest: covered_ge)

lemma finite_covered [simp]: "finite (covered m)"
  by (auto simp: covered_def)

lemma sum_gaps_eq:
  assumes "gaps_from lo m" and "acc + card (covered m) < 2 ^ 64" and "covered m \<subseteq> {..<2 ^ 64}"
  shows "sum_gaps acc m = acc + card (covered m)"
  using assms
proof (induction m arbitrary: acc lo)
  case (Cons p m)
  obtain e s where p: "p = (e, s)" by (cases p)
  have c: "card (covered (p # m)) = (e - s + 1) + card (covered m)"
    using covered_Cons_disjoint [of lo e s m] Cons.prems(1) by (auto simp: p card_Un_disjoint)
  have "e \<in> covered (p # m)" and "s \<le> e" using Cons.prems(1) by (auto simp: p)
  then have "sub64 e s = e - s" using Cons.prems(3) by (intro sub64_small) auto
  moreover have "gaps_from (e + 2) m" and "covered m \<subseteq> {..<2 ^ 64}"
    using Cons.prems(1,3) by (simp_all add: p)
  ultimately show ?case
    using Cons.IH [of "e + 2" "acc + (e - s + 1)"] Cons.prems(2) c by (simp add: p u64_small)
qed simp

lemma GetGapSize_ok:
  assumes inv: "gaplist_inv g"
  shows "fst (GetGapSize g) = card (missing g) \<and> gaplist_inv (snd (GetGapSize g)) \<and>
    missing (snd (GetGapSize g)) = missing g"
proof -
  have sub: "missing g \<subseteq> {..<m_filesize g}" and f: "m_filesize g < 2 ^ 64"
    and gaps: "gaps_from 0 (m_gaplist g)"
    using inv layout_ok_filesize by (auto simp: gaplist_inv_def)
  have "card (missing g) \<le> m_filesize g" using card_mono [OF _ sub] by simp
  with f have "0 + card (covered (m_gaplist g)) < 2 ^ 64" by (simp add: missing_def)
  moreover have "{..<m_filesize g} \<subseteq> {..<2 ^ 64}" using f by auto
  with sub have "covered (m_gaplist g) \<subseteq> {..<2 ^ 64}" unfolding missing_def by (rule order_trans)
  ultimately have "sum_gaps 0 (m_gaplist g) = card (missing g)"
    using sum_gaps_eq [OF gaps] by (simp add: missing_def)
  then show ?thesis
    using inv by (auto simp: GetGapSize_def gaplist_inv_def missing_def layout_ok_def part_bytes_def
        GetPartSize_def Let_def)
qed

lemma part_gap_loop_eq:
  assumes "gaps_from lo it" and "rs \<le> re" and "re + 1 < 2 ^ 64"
    and "acc + card (covered it \<inter> {rs..re}) < 2 ^ 64" and "\<forall>(e, s) \<in> set it. e < 2 ^ 64"
  shows "part_gap_loop rs re acc it = acc + card (covered it \<inter> {rs..re})"
  using assms
proof (induction it arbitrary: acc lo)
  case (Cons p it)
  obtain e s where p: "p = (e, s)" by (cases p)
  have se: "s \<le> e" and it: "gaps_from (e + 2) it" using Cons.prems(1) by (simp_all add: p)
  have dis: "{s..e} \<inter> covered it = {}" using covered_Cons_disjoint Cons.prems(1) p by blast
  have C: "covered (p # it) \<inter> {rs..re} = ({s..e} \<inter> {rs..re}) \<union> (covered it \<inter> {rs..re})"
    by (auto simp: p)
  have card: "card (covered (p # it) \<inter> {rs..re}) =
      card ({s..e} \<inter> {rs..re}) + card (covered it \<inter> {rs..re})"
    unfolding C using dis by (intro card_Un_disjoint) auto
  have far: "covered it \<inter> {..e + 1} = {}" using it by (fastforce dest: covered_ge)
  have IH: "part_gap_loop rs re acc' it = acc' + card (covered it \<inter> {rs..re})"
    if "acc' + card (covered it \<inter> {rs..re}) < 2 ^ 64" for acc'
    using Cons.IH [OF it] Cons.prems that by auto
  have ib: "{s..e} \<inter> {rs..re} = {max s rs..min e re}" by auto
  consider (all) "s \<le> rs" "re \<le> e" | (in_head) "rs \<le> s" "s \<le> re" "\<not> (s \<le> rs \<and> re \<le> e)"
    | (behind) "re < s" | (tail) "s < rs" "rs \<le> e" "e < re" | (before) "s < rs" "e < rs"
    by linarith
  then show ?case
  proof cases
    case all
    then have "covered it \<inter> {rs..re} = {}" using far by auto
    moreover have "card ({s..e} \<inter> {rs..re}) = re - rs + 1"
      using all Cons.prems(2) by (simp add: ib max_def min_def)
    moreover have "sub64 re rs = re - rs" using Cons.prems(2,3) by (intro sub64_small) auto
    ultimately show ?thesis using all Cons.prems(4) card by (simp add: p u64_small)
  next
    case in_head
    define d where "d = min e re - s"
    have "sub64 (min e re) s = d"
      unfolding d_def using in_head se Cons.prems(3) by (intro sub64_small) auto
    moreover have "card ({s..e} \<inter> {rs..re}) = d + 1"
      using in_head se by (auto simp: ib max_def d_def)
    ultimately show ?thesis
      using in_head IH Cons.prems(4) card by (auto simp: p u64_small)
  next
    case behind
    then have "{s..e} \<inter> {rs..re} = {}" and "covered it \<inter> {rs..re} = {}" using far se by auto
    then show ?thesis using behind Cons.prems(2) card se by (simp add: p)
  next
    case tail
    have "sub64 e rs = e - rs" using tail Cons.prems(3) by (intro sub64_small) auto
    moreover have "card ({s..e} \<inter> {rs..re}) = e - rs + 1" using tail by (simp add: ib)
    ultimately show ?thesis
      using tail IH Cons.prems(4) card by (auto simp: p u64_small)
  next
    case before
    then have "{s..e} \<inter> {rs..re} = {}" by auto
    then show ?thesis using before IH Cons.prems(2,4) card by (auto simp: p)
  qed
qed simp

lemma GetGapSizePart_ok:
  assumes inv: "gaplist_inv g" and p: "p < m_iPartCount g"
  shows "GetGapSizePart g p = card (missing g \<inter> part_bytes g p)"
proof -
  have ok: "layout_ok g" and gaps: "gaps_from 0 (m_gaplist g)"
    and sub: "missing g \<subseteq> {..<m_filesize g}"
    using inv by (simp_all add: gaplist_inv_def)
  note r = part_range [OF ok p] and f = layout_ok_filesize [OF ok]
  let ?rs = "p * PARTSIZE" and ?re = "p * PARTSIZE + GetPartSize g p - 1"
  let ?it = "sm_lower_bound ?rs (m_gaplist g)"
  obtain lo where lo: "gaps_from lo ?it" using split_at(2) [OF gaps] by blast
  have "X \<inter> {?rs..?re} = (X \<inter> {?rs..}) \<inter> {?rs..?re}" for X by auto
  then have eq: "covered ?it \<inter> {?rs..?re} = missing g \<inter> part_bytes g p"
    using split_at(1) [OF gaps, of ?rs] r(5) by (metis missing_def)
  have "card (missing g \<inter> part_bytes g p) \<le> card (part_bytes g p)"
    by (intro card_mono) (auto simp: part_bytes_def)
  also have "\<dots> = GetPartSize g p" by (simp add: part_bytes_def)
  also have "\<dots> \<le> PARTSIZE"
  proof -
    have "(m_filesize g - 1) mod PARTSIZE < PARTSIZE" by (rule mod_less_divisor [OF PARTSIZE_pos])
    moreover have "u32 PARTSIZE = PARTSIZE" by (simp add: u32_def PARTSIZE_def)
    ultimately show ?thesis using ok by (simp add: GetPartSize_def layout_ok_def)
  qed
  finally have small: "card (missing g \<inter> part_bytes g p) \<le> PARTSIZE" .
  have "\<forall>(e, s) \<in> set ?it. e < 2 ^ 64"
  proof -
    have "set ?it \<subseteq> set (m_gaplist g)" by (auto simp: sm_lower_bound_def dest: set_dropWhileD)
    then show ?thesis using covered_end [OF gaps] sub f by (fastforce simp: missing_def)
  qed
  then have "part_gap_loop ?rs ?re 0 ?it = card (missing g \<inter> part_bytes g p)"
    using part_gap_loop_eq [OF lo r(3), of 0] r(4) f small eq by (simp add: PARTSIZE_def)
  then show ?thesis
    using r(1,2) small by (simp add: GetGapSizePart_def Let_def u32_small PARTSIZE_def)
qed

lemma Init_layout:
  assumes n: "0 < n" and le: "n \<le> MAX_FILE_SIZE"
  defines "cnt0 \<equiv> u16 (n div PARTSIZE + 1)" and "last0 \<equiv> u32 (n mod PARTSIZE)"
  defines "full \<equiv> last0 = 0 \<and> n \<noteq> 0"
  shows "(if full then u16 (cnt0 + 65535) else cnt0) = (n - 1) div PARTSIZE + 1"
    and "(if full then u32 PARTSIZE else last0) = (n - 1) mod PARTSIZE + 1"
proof -
  define q where "q = n div PARTSIZE"
  define r where "r = n mod PARTSIZE"
  have nqr: "n = q * PARTSIZE + r" by (simp add: q_def r_def)
  have r: "r < PARTSIZE" by (simp add: r_def PARTSIZE_pos)
  have q: "q < 30000"
    using nqr le by (simp add: MAX_FILE_SIZE_def PARTSIZE_def)
  have c: "cnt0 = q + 1" unfolding cnt0_def q_def [symmetric] using q by (simp add: u16_def)
  have l: "last0 = r" unfolding last0_def r_def [symmetric] using r by (simp add: u32_def PARTSIZE_def)
  have n1: "(n - 1) div PARTSIZE = (if r = 0 then q - 1 else q) \<and>
      (n - 1) mod PARTSIZE = (if r = 0 then PARTSIZE - 1 else r - 1)"
  proof (cases "r = 0")
    case True
    then obtain k where k: "q = Suc k" using nqr n by (cases q) auto
    have "n - 1 = k * PARTSIZE + (PARTSIZE - 1)" using True nqr k PARTSIZE_pos by simp
    then show ?thesis using True k PARTSIZE_pos by (simp only:) (simp add: PARTSIZE_def)
  next
    case False
    then obtain k where k: "r = Suc k" by (cases r) auto
    have "n - 1 = q * PARTSIZE + k" using nqr k by simp
    moreover have "k < PARTSIZE" using k r by simp
    ultimately show ?thesis using k by simp
  qed
  show "(if full then u16 (cnt0 + 65535) else cnt0) = (n - 1) div PARTSIZE + 1"
  proof (cases "r = 0")
    case True
    then have "0 < q" using nqr n by (cases q) auto
    then show ?thesis using True n1 c l n q by (simp add: full_def u16_def)
  qed (use n1 c l full_def in auto)
  show "(if full then u32 PARTSIZE else last0) = (n - 1) mod PARTSIZE + 1"
    using n1 l n by (auto simp: full_def u32_def PARTSIZE_def)
qed

lemma Init_ok:
  assumes n: "0 < n" and le: "n \<le> MAX_FILE_SIZE"
  shows "\<exists>g. Init n e = Inr g \<and> gaplist_inv g \<and> missing g = (if e then {..<n} else {}) \<and>
    m_filesize g = n \<and> (m_totalGapSizeValid g \<and> m_totalGapSize g = (if e then n else 0))"
proof -
  define cnt where "cnt = (n - 1) div PARTSIZE + 1"
  define g0 where "g0 = \<lparr>m_gaplist = [], m_filesize = n, m_iPartCount = cnt,
    m_sizeLastPart = (n - 1) mod PARTSIZE + 1, m_totalGapSize = 0, m_totalGapSizeValid = False,
    m_partsComplete = []\<rparr>"
  note lay = Init_layout [OF n le]
  have f: "n < 2 ^ 64" using le by (simp add: MAX_FILE_SIZE_def)
  have init: "Init n e =
      (if e then sum_bind (AddGap (g0\<lparr>m_partsComplete := replicate cnt incomplete\<rparr>) 0 (dec64 n))
          (\<lambda>g'. Inr (g'\<lparr>m_totalGapSize := n, m_totalGapSizeValid := True\<rparr>))
       else Inr (g0\<lparr>m_partsComplete := replicate cnt complete, m_totalGapSize := 0,
          m_totalGapSizeValid := True\<rparr>))"
    by (simp only: Init_def Let_def lay g0_def cnt_def)
  show ?thesis
  proof (cases e)
    case True
    let ?g = "g0\<lparr>m_partsComplete := replicate cnt incomplete\<rparr>"
    have ok: "layout_ok ?g" using n le by (simp add: layout_ok_def g0_def cnt_def)
    have all: "{0..n - 1} \<inter> part_bytes ?g p \<noteq> {}" if "p < m_iPartCount ?g" for p
      using range_touches_part [OF ok _ _ that, of 0 "n - 1"] n that by (simp add: g0_def cnt_def)
    have "\<exists>g'. AddGap ?g 0 (n - 1) = Inr g' \<and> gaplist_inv g' \<and> missing g' = missing ?g \<union> {0..n - 1} \<and>
        m_filesize g' = m_filesize ?g \<and> m_iPartCount g' = m_iPartCount ?g"
    proof (rule AddGap_core [OF ok])
      fix p assume "p < m_iPartCount ?g" and "{0..n - 1} \<inter> part_bytes ?g p = {}"
      then show "cache_agrees (m_partsComplete ?g ! p) (missing ?g \<inter> part_bytes ?g p)"
        using all by blast
    qed (use n in \<open>auto simp: g0_def missing_def\<close>)
    then obtain g' where g': "AddGap ?g 0 (n - 1) = Inr g'" "gaplist_inv g'"
      "missing g' = {0..n - 1}" "m_filesize g' = n"
      by (auto simp: g0_def missing_def)
    have n1: "{0..n - 1} = {..<n}" using n by auto
    let ?g' = "g'\<lparr>m_totalGapSize := n, m_totalGapSizeValid := True\<rparr>"
    have "Init n e = Inr ?g'"
      unfolding init using True g'(1) dec64_pos [OF n f] by simp
    moreover have mis: "missing ?g' = {..<n}" using g'(3) n1 by (simp add: missing_def)
    have "part_bytes ?g' p = part_bytes g' p" for p by (simp add: part_bytes_def GetPartSize_def)
    then have "gaplist_inv ?g'"
      using g'(2) mis g'(3) n1 by (simp add: gaplist_inv_def layout_ok_def)
    ultimately show ?thesis using True mis g'(4) by simp
  next
    case False
    let ?g = "g0\<lparr>m_partsComplete := replicate cnt complete, m_totalGapSize := 0,
      m_totalGapSizeValid := True\<rparr>"
    have "Init n e = Inr ?g" unfolding init using False by simp
    moreover have "gaplist_inv ?g"
      using n le
      by (simp add: gaplist_inv_def layout_ok_def g0_def cnt_def missing_def del: replicate_Suc)
    ultimately show ?thesis using False by (simp add: g0_def missing_def)
  qed
qed

section \<open>Properties\<close>

interpretation gl: interval_set gaplist_inv missing m_filesize AddGap FillGap
proof unfold_locales
  fix g a b
  assume "gaplist_inv g" and "a \<le> b" and "b < m_filesize g"
  then show "\<exists>g'. AddGap g a b = Inr g' \<and> gaplist_inv g' \<and> missing g' = missing g \<union> {a..b} \<and>
      m_filesize g' = m_filesize g"
    and "\<exists>g'. FillGap g a b = Inr g' \<and> gaplist_inv g' \<and> missing g' = missing g - {a..b} \<and>
      m_filesize g' = m_filesize g"
    by (meson AddGap_range FillGap_range)+
qed

lemma clipped:
  assumes "gaplist_inv g" and "a < m_filesize g" and "a \<le> b"
  shows "AddGap g a b = AddGap g a (min b (m_filesize g - 1))"
    and "FillGap g a b = FillGap g a (min b (m_filesize g - 1))"
proof -
  have ok: "layout_ok g" using assms(1) by (simp add: gaplist_inv_def)
  have "ArgCheck g a b = ArgCheck g a (min b (m_filesize g - 1))"
    using ArgCheck_in_range [OF ok assms(2)] assms by simp
  then show "AddGap g a b = AddGap g a (min b (m_filesize g - 1))"
    and "FillGap g a b = FillGap g a (min b (m_filesize g - 1))"
    by (simp_all add: AddGap_def FillGap_def)
qed

text \<open>
  C21. \<open>CGapList::AddGap\<close> on a consistent list, for a start inside the file: the call completes
  without an access outside \<open>m_partsComplete\<close>, keeps the list consistent (gaps ordered, joined when
  they touch, inside the file; the per-part and total caches correct), and the missing bytes become
  the old ones together with the range, clipped at the end of the file; a range that ends before
  it starts changes nothing.
\<close>

theorem AddGap_correct:
  assumes "gaplist_inv g" and "gapstart < m_filesize g"
  shows "\<exists>g'. AddGap g gapstart gapend = Inr g' \<and> gaplist_inv g' \<and>
    missing g' = missing g \<union> {gapstart..min gapend (m_filesize g - 1)} \<and>
    (gapend < gapstart \<longrightarrow> g' = g)"
proof (cases "gapend < gapstart")
  case True
  then show ?thesis using assms by (auto simp: AddGap_def ArgCheck_refused)
next
  case False
  then have "gapstart \<le> min gapend (m_filesize g - 1)" and "min gapend (m_filesize g - 1) < m_filesize g"
    using assms(2) by auto
  then show ?thesis
    using AddGap_range [OF assms(1)] clipped(1) [OF assms] False by (metis linorder_not_less)
qed

theorem AddGap_correct_witness:
  "\<exists>g g'. Init 100 False = Inr g \<and> AddGap g 10 200 = Inr g' \<and> gaplist_inv g' \<and> missing g' = {10..99}"
proof -
  obtain g where g: "Init 100 False = Inr g" "gaplist_inv g" "missing g = {}" "m_filesize g = 100"
    using Init_ok [of 100 False] by (auto simp: MAX_FILE_SIZE_def)
  show ?thesis using AddGap_correct [OF g(2), of 10 200] g by auto
qed

text \<open>
  C22. \<open>CGapList::FillGap\<close>: under the same conditions the call completes, keeps the list consistent,
  and removes exactly the given range from the missing bytes, whether gaps lie inside it, overlap
  either end, or enclose it and are cut in two.
\<close>

theorem FillGap_correct:
  assumes "gaplist_inv g" and "partstart < m_filesize g"
  shows "\<exists>g'. FillGap g partstart partend = Inr g' \<and> gaplist_inv g' \<and>
    missing g' = missing g - {partstart..partend} \<and> (partend < partstart \<longrightarrow> g' = g)"
proof (cases "partend < partstart")
  case True
  then show ?thesis using assms by (auto simp: FillGap_def ArgCheck_refused)
next
  case False
  let ?e = "min partend (m_filesize g - 1)"
  have "partstart \<le> ?e" and "?e < m_filesize g" using False assms(2) by auto
  then obtain g' where g': "FillGap g partstart partend = Inr g'" "gaplist_inv g'"
    "missing g' = missing g - {partstart..?e}"
    using FillGap_range [OF assms(1)] clipped(2) [OF assms] False by (metis linorder_not_less)
  moreover have "missing g \<subseteq> {..<m_filesize g}" using assms(1) by (simp add: gaplist_inv_def)
  then have "missing g - {partstart..?e} = missing g - {partstart..partend}" by auto
  ultimately show ?thesis using False by auto
qed

theorem FillGap_correct_witness:
  "\<exists>g g'. Init 100 True = Inr g \<and> FillGap g 10 19 = Inr g' \<and> missing g' = {..<10} \<union> {20..<100}"
proof -
  obtain g where g: "Init 100 True = Inr g" "gaplist_inv g" "missing g = {..<100}" "m_filesize g = 100"
    using Init_ok [of 100 True] by (auto simp: MAX_FILE_SIZE_def)
  then obtain g' where "FillGap g 10 19 = Inr g'" "missing g' = {..<100} - {10..19}"
    using FillGap_correct [OF g(2), of 10 19] by auto
  moreover have "{..<100} - {10..19} = {..<10} \<union> {20..<100::nat}" by auto
  ultimately show ?thesis using g(1) by (intro exI [of _ g] exI [of _ g']) simp
qed

text \<open>
  C23. A download, whole: after \<open>Init\<close> with a file of any legal size and any sequence of
  \<open>AddGap\<close>/\<open>FillGap\<close> calls inside the file, every call has completed, and a byte is missing exactly
  when the last call that touched it was an \<open>AddGap\<close> (or none touched it). \<open>IsComplete()\<close> says
  whether no byte is missing.
\<close>

theorem gaplist_sequence:
  assumes "0 < n" and "n \<le> MAX_FILE_SIZE" and "\<forall>r \<in> set ops. op_within n r"
  shows "\<exists>g g'. Init n True = Inr g \<and> run_ops AddGap FillGap g ops = Inr g' \<and> gaplist_inv g' \<and>
    (\<forall>x. x \<in> missing g' \<longleftrightarrow> last_writer ops {..<n} x) \<and>
    (IsCompleteAll g' \<longleftrightarrow> (\<forall>x < n. \<not> last_writer ops {..<n} x))"
proof -
  obtain g where g: "Init n True = Inr g" "gaplist_inv g" "missing g = {..<n}" "m_filesize g = n"
    using Init_ok [OF assms(1,2), of True] by auto
  have within: "\<forall>r \<in> set ops. op_within (m_filesize g) r" using assms(3) g(4) by simp
  obtain g' where run: "run_ops AddGap FillGap g ops = Inr g'" "gaplist_inv g'"
      "missing g' = fold op_spec ops (missing g)" "m_filesize g' = m_filesize g"
    using gl.run_refines [OF g(2) within] by blast
  then have g': "run_ops AddGap FillGap g ops = Inr g'" "gaplist_inv g'"
      "\<forall>x. x \<in> missing g' \<longleftrightarrow> last_writer ops {..<n} x" "m_filesize g' = n"
    using g(3,4) by (simp_all add: fold_op_spec_last_writer)
  have "IsCompleteAll g' \<longleftrightarrow> missing g' = {}"
    using g'(2) by (cases "m_gaplist g'") (auto simp: IsCompleteAll_def missing_def gaplist_inv_def)
  moreover have "missing g' \<subseteq> {..<n}" using g'(2,4) by (auto simp: gaplist_inv_def)
  ultimately have "IsCompleteAll g' \<longleftrightarrow> (\<forall>x < n. \<not> last_writer ops {..<n} x)"
    using g'(3) by auto
  then show ?thesis using g g' by blast
qed

theorem gaplist_sequence_witness:
  "\<exists>g g'. Init 100 True = Inr g \<and>
     run_ops AddGap FillGap g [Take 0 59, Put 20 29, Take 50 99] = Inr g' \<and> 25 \<in> missing g' \<and>
     45 \<notin> missing g'"
proof -
  have "\<exists>g g'. Init 100 True = Inr g \<and>
     run_ops AddGap FillGap g [Take 0 59, Put 20 29, Take 50 99] = Inr g' \<and> gaplist_inv g' \<and>
    (\<forall>x. x \<in> missing g' \<longleftrightarrow> last_writer [Take 0 59, Put 20 29, Take 50 99] {..<100} x) \<and>
    (IsCompleteAll g' \<longleftrightarrow> (\<forall>x < 100. \<not> last_writer [Take 0 59, Put 20 29, Take 50 99] {..<100} x))"
    by (rule gaplist_sequence) (simp_all add: MAX_FILE_SIZE_def)
  then obtain g g' where g: "Init 100 True = Inr g"
      "run_ops AddGap FillGap g [Take 0 59, Put 20 29, Take 50 99] = Inr g'"
      "\<forall>x. x \<in> missing g' \<longleftrightarrow> last_writer [Take 0 59, Put 20 29, Take 50 99] {..<100} x"
    by blast
  then show ?thesis
    by (intro exI [of _ g] exI [of _ g']) (simp add: last_writer_def del: run_ops.simps)
qed

text \<open>
  The queries about a part agree with the set of missing bytes, whatever the caches hold:
  \<open>IsComplete(part)\<close> is true exactly when no byte of the part is missing (and refreshes the cache
  without changing the gaps), \<open>GetGapSize(part)\<close> is the number of its missing bytes, \<open>GetGapSize()\<close>
  the number of all missing bytes; the dummy part after a file of whole parts counts as complete.
\<close>

theorem part_queries_correct:
  assumes "gaplist_inv g" and "p < m_iPartCount g"
  shows "\<exists>g'. IsCompletePart g p = Inr (missing g \<inter> part_bytes g p = {}, g') \<and> gaplist_inv g' \<and>
      missing g' = missing g \<and>
      GetGapSizePart g p = card (missing g \<inter> part_bytes g p) \<and>
      fst (GetGapSize g) = card (missing g) \<and> gaplist_inv (snd (GetGapSize g)) \<and>
      (m_sizeLastPart g = PARTSIZE \<longrightarrow> IsCompletePart g (m_iPartCount g) = Inr (True, g))"
proof -
  obtain g' where "IsCompletePart g p = Inr (missing g \<inter> part_bytes g p = {}, g')" "gaplist_inv g'"
    "m_gaplist g' = m_gaplist g"
    using IsCompletePart_ok [OF assms] by blast
  moreover from this have "missing g' = missing g" by (simp add: missing_def)
  ultimately show ?thesis
    using GetGapSizePart_ok [OF assms] GetGapSize_ok [OF assms(1)]
    by (intro exI [of _ g']) (simp add: IsCompletePart_def)
qed

theorem part_queries_correct_witness:
  "\<exists>g g'. Init 100 True = Inr g \<and> IsCompletePart g 0 = Inr (False, g') \<and> GetGapSizePart g 0 = 100"
proof -
  obtain g where g: "Init 100 True = Inr g" "gaplist_inv g" "missing g = {..<100}" "m_filesize g = 100"
    using Init_ok [of 100 True] by (auto simp: MAX_FILE_SIZE_def)
  have ok: "layout_ok g" using g(2) by (simp add: gaplist_inv_def)
  then have c: "0 < m_iPartCount g" by (simp add: layout_ok_def)
  have "x div PARTSIZE = 0" if "x < 100" for x using that by (simp add: PARTSIZE_def)
  then have "part_bytes g 0 = {..<100}" unfolding part_bytes_eq [OF ok c] g(4) by blast
  then have e: "missing g \<inter> part_bytes g 0 = {..<100}" using g(3) by blast
  obtain g' where "IsCompletePart g 0 = Inr (missing g \<inter> part_bytes g 0 = {}, g')"
    and "GetGapSizePart g 0 = card (missing g \<inter> part_bytes g 0)"
    using part_queries_correct [OF g(2) c] by blast
  then show ?thesis
    unfolding e using g(1) by (intro exI [of _ g] exI [of _ g']) (simp add: lessThan_empty_iff)
qed

text \<open>
  Two calls outside the conditions above. For an empty file \<open>Init(0, true)\<close> passes the end
  \<open>(uint64)-1\<close>, which \<open>ArgCheck\<close> "clips" to itself, and the part loop leaves the one-element cache.
  \<open>AddGap\<close> with a start behind the end of the file stores a gap that ends before it starts.
\<close>

lemma Init_empty_file: "Init 0 True = Inl OutOfBounds"
proof -
  have "mark_parts incomplete 0 34106 [incomplete] = Inl OutOfBounds"
    by (simp add: mark_parts.simps [of _ 0] mark_parts.simps [of _ "Suc 0"])
  moreover have "u16 (18446744073709551615 div PARTSIZE) = 34106"
    by (simp add: u16_def PARTSIZE_def)
  ultimately show ?thesis
    by (simp add: Init_def Let_def AddGap_def ArgCheck_def dec64_0 u16_def u32_def PARTSIZE_def)
qed

lemma AddGap_behind_end:
  "\<exists>g g'. Init 100 False = Inr g \<and> AddGap g 150 160 = Inr g' \<and> m_gaplist g' = [(99, 150)]"
proof -
  have d: "dec64 100 = 99" using dec64_pos [of 100] by simp
  have "mark_parts incomplete 0 0 [complete] = Inr [incomplete]"
    by (simp add: mark_parts.simps [of _ 0] mark_parts.simps [of _ "Suc 0"])
  then show ?thesis
    by (simp add: Init_def Let_def AddGap_def ArgCheck_def d u16_def u32_def PARTSIZE_def
        sm_lower_bound_def)
qed

end
