(* ===== verification/RangeMap.thy ===== *)
theory RangeMap
  imports Amule_Prelude Interval_Set
begin

text \<open>
  \<open>CRangeMap\<close> (\<open>src/src/RangeMap.h\<close>): a map from non-overlapping ranges to values, kept in a
  \<open>std::map\<close> from the start of a range to its end and value; \<open>CRangeSet\<close> is the instance without a
  value. Keys are the default \<open>uint64\<close>; an iterator is the start key of the range it points to. A
  violated \<open>MULE_VALIDATE_PARAMS\<close> is the error \<open>InvalidParams\<close>.
\<close>

section \<open>Data and operations\<close>

type_synonym 'v rangemap = "(nat, nat \<times> 'v) stdmap"

datatype rm_error = InvalidParams

text \<open>
  \<open>find_range\<close>: the last range that starts at or before the key, if it reaches the key.
\<close>

definition find_range :: "'v rangemap \<Rightarrow> nat \<Rightarrow> (nat \<times> nat \<times> 'v) option" where
  "find_range m key =
     (let before = takeWhile (\<lambda>p. fst p \<le> key) m
      in if m = [] \<or> before = [] then None
         else let it = last before
              in if key \<le> fst (snd it) then Some it else None)"

text \<open>\<open>get_insert_it\<close>: the part of the map from the returned iterator on.\<close>

definition get_insert_it :: "'v rangemap \<Rightarrow> nat \<Rightarrow> 'v rangemap" where
  "get_insert_it m start =
     (if m = [] then []
      else
        let it = length m - 1
        in if start \<le> fst (last m) then
             let it' = (if start \<noteq> fst (last m) then length (sm_before start m) else it)
             in drop (if it' \<noteq> 0 then it' - 1 else it') m
           else drop it m)"

definition resize :: "nat \<Rightarrow> nat \<Rightarrow> nat \<Rightarrow> 'v \<Rightarrow> 'v rangemap \<Rightarrow> 'v rangemap" where
  "resize startPos endPos itKey itVal m = sm_insert startPos (endPos, itVal) (sm_erase itKey m)"

text \<open>
  The loop of \<open>do_insert\<close>. \<open>it\<close> is the part of the map still to visit, \<open>m\<close> the whole map. It ends
  with \<open>Inl k\<close> when the function returns the iterator \<open>k\<close> from inside the loop, and with the limits of
  the range to insert otherwise.
\<close>

fun insert_loop ::
  "bool \<Rightarrow> nat \<Rightarrow> nat \<Rightarrow> 'v \<Rightarrow> 'v rangemap \<Rightarrow> 'v rangemap \<Rightarrow> 'v rangemap \<times> (nat + nat \<times> nat)"
where
  "insert_loop merge start entry v [] m = (m, Inr (start, entry))"
| "insert_loop merge start entry v ((s, e, w) # it) m =
     (if start \<le> s then
        if entry < dec64 s \<and> s \<noteq> 0 then (m, Inr (start, entry))
        else if entry = dec64 s \<and> s \<noteq> 0 then
          if merge \<and> v = w then (sm_erase s m, Inr (start, e)) else (m, Inr (start, entry))
        else if entry < e then
          if merge \<and> v = w then (sm_erase s m, Inr (start, e))
          else (resize (inc64 entry) e s w m, Inr (start, entry))
        else insert_loop merge start entry v it (sm_erase s m)
      else if start \<le> e then
        if entry < e then
          if merge \<and> v = w then (m, Inl s)
          else (sm_assign s (dec64 start, w) (sm_insert (inc64 entry) (e, w) m), Inr (start, entry))
        else if merge \<and> v = w then insert_loop merge s entry v it (sm_erase s m)
        else insert_loop merge start entry v it (resize s (dec64 start) s w m)
      else if start = inc64 e then
        if merge \<and> v = w then insert_loop merge s entry v it (sm_erase s m)
        else insert_loop merge start entry v it m
      else insert_loop merge start entry v it m)"

definition do_insert ::
  "nat \<Rightarrow> nat \<Rightarrow> 'v \<Rightarrow> bool \<Rightarrow> 'v rangemap \<Rightarrow> rm_error + nat \<times> 'v rangemap"
where
  "do_insert start entry v merge m =
     (if start \<le> entry then
        Inr (case insert_loop merge start entry v (get_insert_it m start) m of
               (m', Inl k) \<Rightarrow> (k, m')
             | (m', Inr (s, e)) \<Rightarrow> (s, sm_insert s (e, v) m'))
      else Inl InvalidParams)"

definition rm_insert :: "'v rangemap \<Rightarrow> nat \<Rightarrow> nat \<Rightarrow> 'v \<Rightarrow> rm_error + nat \<times> 'v rangemap" where
  "rm_insert m startPos endPos v = do_insert startPos endPos v True m"

text \<open>\<open>HELPER()\<close> value-initialises the user value; \<open>v0\<close> stands for it.\<close>

definition erase_range :: "'v \<Rightarrow> 'v rangemap \<Rightarrow> nat \<Rightarrow> nat \<Rightarrow> rm_error + 'v rangemap" where
  "erase_range v0 m startPos endPos =
     sum_bind (do_insert startPos endPos v0 False m) (\<lambda>(k, m'). Inr (sm_erase k m'))"

text \<open>\<open>erase(iterator)\<close>; erasing \<open>end()\<close> is invalid. The result has the iterator that follows.\<close>

definition rm_erase :: "'v rangemap \<Rightarrow> nat option \<Rightarrow> rm_error + nat option \<times> 'v rangemap" where
  "rm_erase m pos =
     (case pos of
        None \<Rightarrow> Inl InvalidParams
      | Some k \<Rightarrow>
          Inr (case dropWhile (\<lambda>p. fst p \<le> k) m of [] \<Rightarrow> None | p # _ \<Rightarrow> Some (fst p), sm_erase k m))"

text \<open>
  \<open>operator==\<close> compares the two \<open>std::map\<close>s element by element; the mapped helpers compare their
  values only.
\<close>

definition helper_eq :: "nat \<times> 'v \<Rightarrow> nat \<times> 'v \<Rightarrow> bool" where
  "helper_eq h h' = (snd h = snd h')"

definition rm_equal :: "'v rangemap \<Rightarrow> 'v rangemap \<Rightarrow> bool" where
  "rm_equal m m' =
     (if length m \<noteq> length m' then False
      else list_all2 (\<lambda>p q. fst p = fst q \<and> helper_eq (snd p) (snd q)) m m')"

definition rs_insert :: "unit rangemap \<Rightarrow> nat \<Rightarrow> nat \<Rightarrow> rm_error + unit rangemap" where
  "rs_insert m startPos endPos = sum_bind (do_insert startPos endPos () True m) (\<lambda>(k, m'). Inr m')"

section \<open>What a range map denotes\<close>

fun rm_get :: "'v rangemap \<Rightarrow> nat \<Rightarrow> 'v option" where
  "rm_get [] k = None"
| "rm_get ((s, e, w) # m) k = (if s \<le> k \<and> k \<le> e then Some w else rm_get m k)"

fun ranges_from :: "nat \<Rightarrow> 'v rangemap \<Rightarrow> bool" where
  "ranges_from lo [] = True"
| "ranges_from lo ((s, e, w) # m) = (lo \<le> s \<and> s \<le> e \<and> ranges_from (e + 1) m)"

fun range_next :: "nat \<Rightarrow> 'v rangemap \<Rightarrow> nat" where
  "range_next lo [] = lo"
| "range_next lo ((s, e, w) # m) = range_next (e + 1) m"

text \<open>Two neighbours that touch and carry the same value would have to be one range.\<close>

definition joinable :: "nat \<times> nat \<times> 'v \<Rightarrow> nat \<times> nat \<times> 'v \<Rightarrow> bool" where
  "joinable p q \<longleftrightarrow> fst (snd p) + 1 = fst q \<and> snd (snd p) = snd (snd q)"

definition canonical :: "'v rangemap \<Rightarrow> bool" where
  "canonical m = successively (\<lambda>p q. \<not> joinable p q) m"

definition rm_inv :: "'v rangemap \<Rightarrow> bool" where
  "rm_inv m \<longleftrightarrow> ranges_from 0 m \<and> canonical m \<and> range_next 0 m \<le> 2 ^ 64"

definition override :: "(nat \<Rightarrow> 'v option) \<Rightarrow> nat \<Rightarrow> nat \<Rightarrow> 'v option \<Rightarrow> nat \<Rightarrow> 'v option" where
  "override L a b r = (\<lambda>k. if a \<le> k \<and> k \<le> b then r else L k)"

lemma ranges_from_append:
  "ranges_from lo (xs @ ys) \<longleftrightarrow> ranges_from lo xs \<and> ranges_from (range_next lo xs) ys"
  by (induction lo xs rule: ranges_from.induct) auto

lemma range_next_append: "range_next lo (xs @ ys) = range_next (range_next lo xs) ys"
  by (induction lo xs rule: range_next.induct) auto

lemma ranges_from_mono: "ranges_from lo m \<Longrightarrow> lo' \<le> lo \<Longrightarrow> ranges_from lo' m"
  by (cases m) auto

lemma ranges_from_ge: "ranges_from lo m \<Longrightarrow> (s, e, w) \<in> set m \<Longrightarrow> lo \<le> s \<and> s \<le> e"
  by (induction lo m rule: ranges_from.induct) fastforce+

lemma range_next_ge: "ranges_from lo m \<Longrightarrow> lo \<le> range_next lo m"
proof (induction lo m rule: ranges_from.induct)
  case (2 lo s e w m)
  then have "e + 1 \<le> range_next (e + 1) m" and "lo \<le> e" by auto
  then show ?case by simp
qed simp

lemma range_next_gt: "ranges_from lo m \<Longrightarrow> (s, e, w) \<in> set m \<Longrightarrow> e + 1 \<le> range_next lo m"
proof (induction lo m rule: ranges_from.induct)
  case (2 lo s' e' w' m)
  then show ?case using range_next_ge [of "e' + 1" m] by auto
qed simp

lemma ranges_from_sm_ok: "ranges_from lo m \<Longrightarrow> sm_ok m"
proof (induction lo m rule: ranges_from.induct)
  case (2 lo s e w m)
  then show ?case by (fastforce simp: sm_ok_Cons dest: ranges_from_ge)
qed simp

lemma rm_get_append:
  "rm_get (xs @ ys) k = (case rm_get xs k of None \<Rightarrow> rm_get ys k | Some w \<Rightarrow> Some w)"
  by (induction xs k rule: rm_get.induct) auto

lemma rm_get_below: "ranges_from lo m \<Longrightarrow> k < lo \<Longrightarrow> rm_get m k = None"
  by (induction lo m rule: ranges_from.induct) auto

lemma rm_get_above: "ranges_from lo m \<Longrightarrow> range_next lo m \<le> k \<Longrightarrow> rm_get m k = None"
proof (induction lo m rule: ranges_from.induct)
  case (2 lo s e w m)
  then show ?case using range_next_ge [of "e + 1" m] by auto
qed simp

lemma canonical_Nil [simp]: "canonical []"
  by (simp add: canonical_def)

lemma canonical_append:
  "canonical (xs @ ys) \<longleftrightarrow>
     canonical xs \<and> canonical ys \<and> (xs = [] \<or> ys = [] \<or> \<not> joinable (last xs) (hd ys))"
  by (auto simp: canonical_def successively_append_iff)

lemma canonical_Cons: "canonical (p # ys) \<longleftrightarrow> canonical ys \<and> (ys = [] \<or> \<not> joinable p (hd ys))"
  by (cases ys) (auto simp: canonical_def)

section \<open>The insertion loop\<close>

definition ins_post ::
  "bool \<Rightarrow> nat \<Rightarrow> nat \<Rightarrow> 'v \<Rightarrow> (nat \<Rightarrow> 'v option) \<Rightarrow> 'v rangemap \<times> (nat + nat \<times> nat) \<Rightarrow> bool"
where
  "ins_post mg start en v L r \<longleftrightarrow>
     (\<forall>k. snd r = Inl k \<longrightarrow> mg \<and> ranges_from 0 (fst r) \<and> canonical (fst r) \<and>
        range_next 0 (fst r) \<le> 2 ^ 64 \<and> rm_get (fst r) = override L start en (Some v) \<and>
        (\<exists>e. (k, e, v) \<in> set (fst r) \<and> k \<le> start \<and> en \<le> e)) \<and>
     (\<forall>st e. snd r = Inr (st, e) \<longrightarrow>
        (\<exists>b a. fst r = b @ a \<and> ranges_from 0 (b @ (st, e, v) # a) \<and> canonical b \<and> canonical a \<and>
           range_next 0 (b @ (st, e, v) # a) \<le> 2 ^ 64 \<and>
           (mg \<longrightarrow> canonical (b @ (st, e, v) # a)) \<and> (\<not> mg \<longrightarrow> st = start \<and> e = en) \<and>
           st \<le> start \<and> en \<le> e \<and>
           rm_get (b @ (st, e, v) # a) = override L start en (Some v)))"

lemma ins_post_Inl:
  assumes "mg" and "ranges_from 0 m" and "canonical m" and "range_next 0 m \<le> 2 ^ 64"
    and "rm_get m = override L start en (Some v)" and "(k, e, v) \<in> set m" and "k \<le> start" and "en \<le> e"
  shows "ins_post mg start en v L (m, Inl k)"
  using assms by (auto simp: ins_post_def)

lemma ins_post_Inr:
  assumes "ranges_from 0 (b @ (st, e, v) # a)" and "canonical b" and "canonical a"
    and "range_next 0 (b @ (st, e, v) # a) \<le> 2 ^ 64"
    and "mg \<Longrightarrow> canonical (b @ (st, e, v) # a)" and "\<not> mg \<Longrightarrow> st = start \<and> e = en"
    and "st \<le> start" and "en \<le> e"
    and "\<And>k. rm_get (b @ (st, e, v) # a) k = override L start en (Some v) k"
  shows "ins_post mg start en v L (b @ a, Inr (st, e))"
  using assms by (auto simp: ins_post_def)

lemma ins_post_cong:
  "ins_post mg start' en v L' r \<Longrightarrow> start' \<le> start \<Longrightarrow> (mg \<or> start' = start) \<Longrightarrow>
    override L' start' en (Some v) = override L start en (Some v) \<Longrightarrow> ins_post mg start en v L r"
  by (fastforce simp: ins_post_def)

lemma rm_get_mid:
  assumes "ranges_from 0 (b @ (s, e, w) # a)"
  shows "rm_get (b @ (s, e, w) # a) k =
    (if k < s then rm_get b k else if k \<le> e then Some w else rm_get a k)"
proof -
  have b: "ranges_from 0 b" and s: "range_next 0 b \<le> s" and se: "s \<le> e" and a: "ranges_from (e + 1) a"
    using assms by (simp_all add: ranges_from_append)
  consider "k < s" | "s \<le> k" "k \<le> e" | "e < k" by linarith
  then show ?thesis
  proof cases
    case 1
    have "rm_get a k = None" using 1 se by (intro rm_get_below [OF a]) auto
    then show ?thesis using 1 by (simp add: rm_get_append split: option.split)
  next
    case 2
    have "rm_get b k = None" using 2 s by (intro rm_get_above [OF b]) auto
    then show ?thesis using 2 by (simp add: rm_get_append)
  next
    case 3
    have "rm_get b k = None" using 3 s se by (intro rm_get_above [OF b]) auto
    then show ?thesis using 3 se by (simp add: rm_get_append)
  qed
qed

lemma rm_get_gap:
  assumes "ranges_from 0 (b @ a)" and "range_next 0 b \<le> x" and "ranges_from x a"
  shows "rm_get (b @ a) k = (if k < x then rm_get b k else rm_get a k)"
proof (cases "k < x")
  case True
  then have "rm_get a k = None" using assms(3) by (intro rm_get_below)
  then show ?thesis using True by (simp add: rm_get_append split: option.split)
next
  case False
  then have "rm_get b k = None"
    using assms(1,2) by (intro rm_get_above [of 0]) (simp_all add: ranges_from_append)
  then show ?thesis using False by (simp add: rm_get_append)
qed

lemma insert_loop_correct:
  assumes "ranges_from 0 (bef @ it)" and "canonical (bef @ it)" and "range_next 0 (bef @ it) \<le> 2 ^ 64"
    and "range_next 0 bef \<le> start" and "start \<le> en" and "en < 2 ^ 64"
    and "mg \<longrightarrow> bef = [] \<or> \<not> joinable (last bef) (start, start, v)"
  shows "ins_post mg start en v (rm_get (bef @ it)) (insert_loop mg start en v it (bef @ it))"
  using assms
proof (induction it arbitrary: bef start)
  case Nil
  have g: "ranges_from 0 (bef @ (start, en, v) # [])" using Nil by (simp add: ranges_from_append)
  have "ins_post mg start en v (rm_get bef) (bef @ [], Inr (start, en))"
  proof (rule ins_post_Inr [OF g])
    show "rm_get (bef @ [(start, en, v)]) k = override (rm_get bef) start en (Some v) k" for k
      using Nil by (auto simp: override_def rm_get_mid [OF g] rm_get_above [of 0 bef])
  qed (use Nil in \<open>auto simp: canonical_append canonical_Cons joinable_def range_next_append\<close>)
  then show ?case by simp
next
  case (Cons p it)
  obtain s e w where p: "p = (s, e, w)" by (cases p)
  have R: "ranges_from 0 (bef @ (s, e, w) # it)" using Cons.prems(1) p by simp
  have C: "canonical (bef @ (s, e, w) # it)" using Cons.prems(2) p by simp
  have ok: "sm_ok (bef @ (s, e, w) # it)" using R by (rule ranges_from_sm_ok)
  note erase = sm_erase_mid [OF ok] and assign = sm_assign_mid [OF ok]
  have bef: "ranges_from 0 bef" and lo: "range_next 0 bef \<le> s" and se: "s \<le> e"
    and it: "ranges_from (e + 1) it"
    using R by (simp_all add: ranges_from_append)
  have nx: "range_next (e + 1) it \<le> 2 ^ 64" using Cons.prems(3) by (simp add: p range_next_append)
  have e64: "e < 2 ^ 64" using range_next_ge [OF it] nx by simp
  have cb: "canonical bef" and ci: "canonical it"
    and cbs: "bef = [] \<or> \<not> joinable (last bef) (s, e, w)"
    and csi: "it = [] \<or> \<not> joinable (s, e, w) (hd it)"
    using C by (auto simp: canonical_append canonical_Cons)
  have hit: "it \<noteq> [] \<Longrightarrow> e + 1 \<le> fst (hd it)" using it by (cases it) auto
  have lbef: "bef \<noteq> [] \<Longrightarrow> fst (snd (last bef)) + 1 \<le> range_next 0 bef"
    using range_next_gt [OF bef, of "fst (last bef)" "fst (snd (last bef))" "snd (snd (last bef))"]
    by simp
  have get: "rm_get (bef @ p # it) k =
      (if k < s then rm_get bef k else if k \<le> e then Some w else rm_get it k)" for k
    unfolding p by (rule rm_get_mid [OF R])
  have dec: "s \<noteq> 0 \<Longrightarrow> dec64 s = s - 1" using e64 se by (simp add: dec64_pos)
  have bi: "ranges_from 0 (bef @ it)"
    using bef lo se it by (auto simp: ranges_from_append intro: ranges_from_mono)
  have ci_bi: "canonical (bef @ it)"
    using cb ci hit lbef lo se by (auto simp: canonical_append joinable_def)
  have nbi: "range_next 0 (bef @ it) \<le> 2 ^ 64"
    using nx range_next_ge [OF bef] lo e64 se by (cases it) (auto simp: range_next_append)
  have gbi: "rm_get (bef @ it) k = (if k \<le> e then rm_get bef k else rm_get it k)" for k
    using rm_get_gap [OF bi, of "e + 1" k] lo se it by (simp add: less_Suc_eq_le)
  have above: "rm_get it k = None" if "k < s" for k
    using that se by (intro rm_get_below [OF it]) auto
  note prems = Cons.prems
  consider (before) "start \<le> s" "en + 1 < s" | (touch) "start \<le> s" "en + 1 = s"
    | (overlap) "start \<le> s" "s \<le> en" "en < e" | (cover) "start \<le> s" "e \<le> en"
    | (inside) "s < start" "start \<le> e" "en < e" | (tail) "s < start" "start \<le> e" "e \<le> en"
    | (adjacent) "start = e + 1" | (after) "e + 1 < start" by linarith
  then show ?case
  proof cases
    case before
    then have "insert_loop mg start en v (p # it) (bef @ p # it) = (bef @ p # it, Inr (start, en))"
      using dec by (cases s) (auto simp: p)
    moreover have g: "ranges_from 0 (bef @ (start, en, v) # p # it)"
      using bef before prems(4,5) se it by (simp add: p ranges_from_append)
    moreover have "ins_post mg start en v (rm_get (bef @ p # it)) (bef @ p # it, Inr (start, en))"
    proof (rule ins_post_Inr [OF g])
      show "rm_get (bef @ (start, en, v) # p # it) k = override (rm_get (bef @ p # it)) start en (Some v) k"
        for k
        unfolding rm_get_mid [OF g] override_def get using before lo prems(4) rm_get_above [OF bef]
        by (auto simp: p get [unfolded p] above)
      show "mg \<Longrightarrow> canonical (bef @ (start, en, v) # p # it)"
        using prems(7) before C by (auto simp: canonical_append canonical_Cons joinable_def p)
    qed (use C p before nx in \<open>auto simp: canonical_append range_next_append\<close>)
    ultimately show ?thesis by simp
  next
    case cover
    have "insert_loop mg start en v (p # it) (bef @ p # it) = insert_loop mg start en v it (bef @ it)"
      using cover dec prems(5) se by (auto simp: p erase)
    moreover have "ins_post mg start en v (rm_get (bef @ it)) (insert_loop mg start en v it (bef @ it))"
      by (rule Cons.IH) (use prems bi ci_bi nbi in auto)
    then have "ins_post mg start en v (rm_get (bef @ p # it)) (insert_loop mg start en v it (bef @ it))"
    proof (rule ins_post_cong)
      show "override (rm_get (bef @ it)) start en (Some v) = override (rm_get (bef @ p # it)) start en (Some v)"
        using cover se by (auto simp: override_def fun_eq_iff gbi get)
    qed auto
    ultimately show ?thesis by simp
  next
    case after
    let ?b = "bef @ [p]"
    have "insert_loop mg start en v (p # it) (bef @ p # it) = insert_loop mg start en v it (?b @ it)"
      using after e64 se prems(5,6) by (simp add: p inc64_small)
    moreover have "ins_post mg start en v (rm_get (?b @ it)) (insert_loop mg start en v it (?b @ it))"
      by (rule Cons.IH) (use prems after in \<open>auto simp: p range_next_append joinable_def\<close>)
    ultimately show ?thesis by simp
  next
    case touch
    show ?thesis
    proof (cases "mg \<and> v = w")
      case True
      have g: "ranges_from 0 (bef @ (start, e, v) # it)"
        using bef touch prems(4,5) se it by (simp add: ranges_from_append)
      have "ins_post mg start en v (rm_get (bef @ p # it)) (bef @ it, Inr (start, e))"
      proof (rule ins_post_Inr [OF g])
        show "rm_get (bef @ (start, e, v) # it) k = override (rm_get (bef @ p # it)) start en (Some v) k"
          for k
          unfolding rm_get_mid [OF g] override_def get using touch True se by auto
      qed (use True touch prems cb ci csi nx se
          in \<open>auto simp: canonical_append canonical_Cons joinable_def range_next_append\<close>)
      then show ?thesis using touch dec True by (auto simp: p erase)
    next
      case False
      have g: "ranges_from 0 (bef @ (start, en, v) # p # it)"
        using bef touch prems(4,5) se it by (simp add: p ranges_from_append)
      have "ins_post mg start en v (rm_get (bef @ p # it)) (bef @ p # it, Inr (start, en))"
      proof (rule ins_post_Inr [OF g])
        show "rm_get (bef @ (start, en, v) # p # it) k =
            override (rm_get (bef @ p # it)) start en (Some v) k" for k
          unfolding rm_get_mid [OF g] override_def get using touch lo prems(4) rm_get_above [OF bef]
          by (auto simp: p get [unfolded p] above)
      qed (use False touch prems C nx
          in \<open>auto simp: p canonical_append canonical_Cons joinable_def range_next_append\<close>)
      then show ?thesis using touch dec False by (auto simp: p)
    qed
  next
    case overlap
    have loop: "insert_loop mg start en v (p # it) (bef @ p # it) =
        (if mg \<and> v = w then (bef @ it, Inr (start, e))
         else (resize (inc64 en) e s w (bef @ p # it), Inr (start, en)))"
      using overlap dec erase by (cases s) (auto simp: p)
    show ?thesis
    proof (cases "mg \<and> v = w")
      case True
      have g: "ranges_from 0 (bef @ (start, e, v) # it)"
        using bef overlap prems(4,5) se it by (simp add: ranges_from_append)
      have "ins_post mg start en v (rm_get (bef @ p # it)) (bef @ it, Inr (start, e))"
      proof (rule ins_post_Inr [OF g])
        show "rm_get (bef @ (start, e, v) # it) k = override (rm_get (bef @ p # it)) start en (Some v) k"
          for k
          unfolding rm_get_mid [OF g] override_def get using overlap True se by auto
      qed (use True overlap prems cb ci csi nx se
          in \<open>auto simp: canonical_append canonical_Cons joinable_def range_next_append\<close>)
      then show ?thesis using loop True by simp
    next
      case False
      let ?q = "(en + 1, e, w)"
      have g: "ranges_from 0 (bef @ (start, en, v) # ?q # it)"
        using bef overlap prems(4,5) it by (simp add: ranges_from_append)
      have "\<forall>x \<in> set bef. fst x < en + 1"
        using ok overlap by (auto simp: sm_ok_append)
      moreover have "\<forall>y \<in> set it. en + 1 < fst y" using it overlap by (fastforce dest: ranges_from_ge)
      ultimately have "resize (inc64 en) e s w (bef @ p # it) = bef @ ?q # it"
        using overlap e64 by (simp add: resize_def p erase inc64_small sm_insert_mid)
      moreover have "ins_post mg start en v (rm_get (bef @ p # it)) (bef @ ?q # it, Inr (start, en))"
      proof (rule ins_post_Inr [OF g])
        show "rm_get (bef @ (start, en, v) # ?q # it) k =
            override (rm_get (bef @ p # it)) start en (Some v) k" for k
          unfolding rm_get_mid [OF g] override_def get using overlap lo prems(4) rm_get_above [OF bef]
          by auto
      qed (use False overlap prems cb ci csi nx
          in \<open>auto simp: canonical_append canonical_Cons joinable_def range_next_append\<close>)
      ultimately show ?thesis using loop False by simp
    qed
  next
    case inside
    show ?thesis
    proof (cases "mg \<and> v = w")
      case True
      have "ins_post mg start en v (rm_get (bef @ p # it)) (bef @ p # it, Inl s)"
      proof (rule ins_post_Inl)
        show "rm_get (bef @ p # it) = override (rm_get (bef @ p # it)) start en (Some v)"
          using inside True by (auto simp: override_def fun_eq_iff get)
        show "(s, e, v) \<in> set (bef @ p # it)" using True p by simp
      qed (use True inside prems in auto)
      then show ?thesis using inside True by (simp add: p)
    next
      case False
      let ?b = "bef @ [(s, start - 1, w)]" and ?a = "(en + 1, e, w) # it"
      have g: "ranges_from 0 (?b @ (start, en, v) # ?a)"
        using bef lo inside prems(4,5) it by (simp add: ranges_from_append)
      have b: "\<forall>x \<in> set (bef @ [(s, e, w)]). fst x < en + 1"
        using ok inside prems(5) by (auto simp: sm_ok_append)
      have a: "\<forall>y \<in> set it. en + 1 < fst y" using it inside by (fastforce dest: ranges_from_ge)
      have "sm_insert (en + 1) (e, w) (bef @ (s, e, w) # it) = bef @ (s, e, w) # ?a"
        using sm_insert_mid [OF b a, of "(e, w)"] by simp
      moreover have "sm_ok (bef @ (s, e, w) # ?a)"
        using ok b a by (auto simp: sm_ok_append sm_ok_Cons)
      ultimately have "sm_assign s (dec64 start, w) (sm_insert (en + 1) (e, w) (bef @ (s, e, w) # it)) =
          ?b @ ?a"
        using inside prems(5,6) by (simp add: sm_assign_mid dec64_pos)
      moreover have "insert_loop mg start en v (p # it) (bef @ p # it) =
          (sm_assign s (dec64 start, w) (sm_insert (en + 1) (e, w) (bef @ (s, e, w) # it)), Inr (start, en))"
        using inside False e64 by (auto simp: p inc64_small)
      moreover have "ins_post mg start en v (rm_get (bef @ p # it)) (?b @ ?a, Inr (start, en))"
      proof (rule ins_post_Inr [OF g])
        have b': "ranges_from 0 (bef @ (s, start - 1, w) # [])"
          using bef lo inside by (simp add: ranges_from_append)
        show "rm_get (?b @ (start, en, v) # ?a) k = override (rm_get (bef @ p # it)) start en (Some v) k"
          for k
          unfolding rm_get_mid [OF g] override_def get rm_get_mid [OF b'] using inside prems(5) by auto
      qed (use False inside prems cb ci cbs csi nx
          in \<open>auto simp: canonical_append canonical_Cons joinable_def range_next_append\<close>)
      ultimately show ?thesis by simp
    qed
  next
    case tail
    show ?thesis
    proof (cases "mg \<and> v = w")
      case True
      have "ins_post mg s en v (rm_get (bef @ it)) (insert_loop mg s en v it (bef @ it))"
        by (rule Cons.IH) (use prems bi ci_bi nbi lo tail cbs True in \<open>auto simp: joinable_def\<close>)
      then have "ins_post mg start en v (rm_get (bef @ p # it)) (insert_loop mg s en v it (bef @ it))"
      proof (rule ins_post_cong)
        show "override (rm_get (bef @ it)) s en (Some v) = override (rm_get (bef @ p # it)) start en (Some v)"
          using tail True by (auto simp: override_def fun_eq_iff gbi get)
      qed (use tail True in auto)
      then show ?thesis using tail True by (simp add: p erase)
    next
      case False
      let ?b = "bef @ [(s, start - 1, w)]"
      have "\<forall>x \<in> set bef. fst x < s" and "\<forall>y \<in> set it. s < fst y"
        using ok by (auto simp: sm_ok_append sm_ok_Cons)
      then have "resize s (dec64 start) s w (bef @ p # it) = ?b @ it"
        using tail e64 by (simp add: resize_def p erase sm_insert_mid dec64_pos)
      then have loop: "insert_loop mg start en v (p # it) (bef @ p # it) = insert_loop mg start en v it (?b @ it)"
        using tail False by (auto simp: p)
      have R': "ranges_from 0 (?b @ it)"
        using bef lo tail it by (auto simp: ranges_from_append intro: ranges_from_mono)
      have get': "rm_get (?b @ it) k = (if k < s then rm_get bef k else if k < start then Some w else rm_get it k)"
        for k
        using rm_get_mid [of bef s "start - 1" w it k] R' tail by auto
      have "ins_post mg start en v (rm_get (?b @ it)) (insert_loop mg start en v it (?b @ it))"
      proof (rule Cons.IH [OF R'])
        show "canonical (?b @ it)"
          using cb ci cbs hit tail by (auto simp: canonical_append canonical_Cons joinable_def)
        show "range_next 0 (?b @ it) \<le> 2 ^ 64"
          using nx prems(5,6) tail by (cases it) (auto simp: range_next_append)
      qed (use prems tail False in \<open>auto simp: range_next_append joinable_def\<close>)
      then have "ins_post mg start en v (rm_get (bef @ p # it)) (insert_loop mg start en v it (?b @ it))"
      proof (rule ins_post_cong)
        show "override (rm_get (?b @ it)) start en (Some v) = override (rm_get (bef @ p # it)) start en (Some v)"
          unfolding override_def fun_eq_iff get' get using tail by auto
      qed auto
      then show ?thesis using loop by simp
    qed
  next
    case adjacent
    show ?thesis
    proof (cases "mg \<and> v = w")
      case True
      have "ins_post mg s en v (rm_get (bef @ it)) (insert_loop mg s en v it (bef @ it))"
        by (rule Cons.IH) (use prems bi ci_bi nbi lo adjacent se cbs True in \<open>auto simp: joinable_def\<close>)
      then have "ins_post mg start en v (rm_get (bef @ p # it)) (insert_loop mg s en v it (bef @ it))"
      proof (rule ins_post_cong)
        show "override (rm_get (bef @ it)) s en (Some v) = override (rm_get (bef @ p # it)) start en (Some v)"
          using adjacent se prems(5) True by (auto simp: override_def fun_eq_iff gbi get)
      qed (use adjacent se True in auto)
      then show ?thesis using adjacent se True prems(5,6) by (simp add: p erase inc64_small)
    next
      case False
      let ?b = "bef @ [p]"
      have "insert_loop mg start en v (p # it) (bef @ p # it) = insert_loop mg start en v it (?b @ it)"
        using adjacent False se prems(5,6) by (auto simp: p inc64_small)
      moreover have "ins_post mg start en v (rm_get (?b @ it)) (insert_loop mg start en v it (?b @ it))"
        by (rule Cons.IH) (use prems adjacent False in \<open>auto simp: p range_next_append joinable_def\<close>)
      ultimately show ?thesis by simp
    qed
  qed
qed

section \<open>Insertion, removal and lookup\<close>

lemma insert_point:
  assumes "ranges_from 0 (bef @ q # rest)" and "fst q < start"
  shows "range_next 0 bef \<le> start \<and> (bef = [] \<or> \<not> joinable (last bef) (start, start, v))"
proof -
  have b: "ranges_from 0 bef" and n: "range_next 0 bef \<le> fst q"
    using assms(1) by (cases q; simp add: ranges_from_append)+
  have "fst (snd (last bef)) + 1 \<le> range_next 0 bef" if "bef \<noteq> []"
    using range_next_gt [OF b, of "fst (last bef)" "fst (snd (last bef))" "snd (snd (last bef))"] that
    by simp
  then show ?thesis using n assms(2) by (auto simp: joinable_def)
qed

lemma get_insert_it_split:
  assumes "ranges_from 0 m"
  shows "\<exists>bef. m = bef @ get_insert_it m start \<and> range_next 0 bef \<le> start \<and>
    (bef = [] \<or> \<not> joinable (last bef) (start, start, v))"
proof -
  have at: ?thesis if "get_insert_it m start = drop n m" and "n < length m" and "fst (m ! n) < start" for n
    using that insert_point [of "take n m" "m ! n" "drop (Suc n) m" start v] assms
    by (intro exI [of _ "take n m"]) (auto simp: id_take_nth_drop [symmetric])
  have at0: ?thesis if "get_insert_it m start = m" using that by (intro exI [of _ "[]"]) simp
  have sorted: "fst (m ! i) < fst (m ! j)" if "i < j" "j < length m" for i j
    using ranges_from_sm_ok [OF assms] that by (auto simp: sm_ok_def sorted_wrt_iff_nth_less)
  consider "m = []" | "m \<noteq> []" "fst (last m) < start" | "m \<noteq> []" "start = fst (last m)"
    | "m \<noteq> []" "start < fst (last m)" by linarith
  then show ?thesis
  proof cases
    case 1
    then show ?thesis by (simp add: get_insert_it_def)
  next
    case 2
    then show ?thesis using at [of "length m - 1"] by (simp add: get_insert_it_def last_conv_nth)
  next
    case 3
    show ?thesis
    proof (cases "length m = 1")
      case True
      then show ?thesis using 3 at0 by (simp add: get_insert_it_def)
    next
      case False
      with 3 have l: "2 \<le> length m" by (cases m; cases "tl m") auto
      then have "get_insert_it m start = drop (length m - 2) m"
        using 3 by (auto simp: get_insert_it_def numeral_2_eq_2)
      moreover have "fst (m ! (length m - 2)) < start"
        using 3 l sorted [of "length m - 2" "length m - 1"] by (simp add: last_conv_nth)
      ultimately show ?thesis using l by (intro at) auto
    qed
  next
    case 4
    let ?n = "length (sm_before start m)"
    have it: "get_insert_it m start = drop (if ?n \<noteq> 0 then ?n - 1 else ?n) m"
      using 4 by (simp add: get_insert_it_def)
    show ?thesis
    proof (cases "?n = 0")
      case True
      then show ?thesis using it at0 by simp
    next
      case False
      have le: "?n \<le> length m" by (simp add: sm_before_def length_takeWhile_le)
      have "m ! (?n - 1) = sm_before start m ! (?n - 1)"
        unfolding sm_before_def by (rule takeWhile_nth [symmetric]) (use False in \<open>simp add: sm_before_def\<close>)
      then have "fst (m ! (?n - 1)) < start"
        using sm_before_less [of "m ! (?n - 1)" start m] False by simp
      moreover have "?n - 1 < length m" using False le by linarith
      ultimately show ?thesis using it False by (intro at [of "?n - 1"]) auto
    qed
  qed
qed

lemma override_idem: "override L a b r = L \<longleftrightarrow> (\<forall>k. a \<le> k \<and> k \<le> b \<longrightarrow> L k = r)"
  by (auto simp: override_def fun_eq_iff)

lemma rm_get_mem: "ranges_from lo m \<Longrightarrow> (s, e, w) \<in> set m \<Longrightarrow> s \<le> k \<Longrightarrow> k \<le> e \<Longrightarrow> rm_get m k = Some w"
proof (induction lo m rule: ranges_from.induct)
  case (2 lo s' e' w' m)
  then show ?case using ranges_from_ge [of "e' + 1" m s e w] by auto
qed simp

lemma sm_insert_gap:
  assumes "ranges_from 0 (b @ (st, e, v) # a)"
  shows "sm_insert st (e, v) (b @ a) = b @ (st, e, v) # a"
  using ranges_from_sm_ok [OF assms] by (intro sm_insert_mid) (auto simp: sm_ok_append sm_ok_Cons)

lemma do_insert_post:
  assumes "rm_inv m" and "start \<le> en" and "en < 2 ^ 64"
  shows "ins_post mg start en v (rm_get m) (insert_loop mg start en v (get_insert_it m start) m)"
proof -
  obtain bef where m: "m = bef @ get_insert_it m start" and "range_next 0 bef \<le> start"
    and "bef = [] \<or> \<not> joinable (last bef) (start, start, v)"
    using get_insert_it_split [of m start v] assms(1) by (auto simp: rm_inv_def)
  then show ?thesis
    using insert_loop_correct [of bef "get_insert_it m start" start en mg v] assms
    by (simp add: rm_inv_def flip: m)
qed

lemma do_insert_merge:
  assumes "rm_inv m" and "start \<le> en" and "en < 2 ^ 64"
  shows "\<exists>k e m'. do_insert start en v True m = Inr (k, m') \<and> rm_inv m' \<and>
    rm_get m' = override (rm_get m) start en (Some v) \<and> (k, e, v) \<in> set m' \<and> k \<le> start \<and> en \<le> e"
proof -
  obtain m' r where loop: "insert_loop True start en v (get_insert_it m start) m = (m', r)"
    by (cases "insert_loop True start en v (get_insert_it m start) m")
  have post: "ins_post True start en v (rm_get m) (m', r)" using do_insert_post [OF assms, of True v] loop by simp
  show ?thesis
  proof (cases r)
    case (Inl k)
    then show ?thesis using post loop assms by (auto simp: ins_post_def do_insert_def rm_inv_def)
  next
    case (Inr p)
    obtain st e where p: "p = (st, e)" by (cases p)
    obtain b a where m': "m' = b @ a" and g: "ranges_from 0 (b @ (st, e, v) # a)"
      and rest: "canonical (b @ (st, e, v) # a)" "range_next 0 (b @ (st, e, v) # a) \<le> 2 ^ 64"
      "st \<le> start" "en \<le> e" "rm_get (b @ (st, e, v) # a) = override (rm_get m) start en (Some v)"
      using post Inr p by (auto simp: ins_post_def)
    have "do_insert start en v True m = Inr (st, b @ (st, e, v) # a)"
      using loop Inr p m' assms(2) sm_insert_gap [OF g] by (simp add: do_insert_def)
    then show ?thesis using g rest by (intro exI [of _ st] exI [of _ e] exI) (auto simp: rm_inv_def)
  qed
qed

lemma erase_range_post:
  assumes "rm_inv m" and "start \<le> en" and "en < 2 ^ 64"
  shows "\<exists>m'. erase_range v0 m start en = Inr m' \<and> rm_inv m' \<and> rm_get m' = override (rm_get m) start en None"
proof -
  obtain m' r where loop: "insert_loop False start en v0 (get_insert_it m start) m = (m', r)"
    by (cases "insert_loop False start en v0 (get_insert_it m start) m")
  have post: "ins_post False start en v0 (rm_get m) (m', r)"
    using do_insert_post [OF assms, of False v0] loop by simp
  then obtain p where r: "r = Inr p" by (cases r) (auto simp: ins_post_def)
  obtain b a where m': "m' = b @ a" and p: "p = (start, en)" and g: "ranges_from 0 (b @ (start, en, v0) # a)"
    and b: "canonical b" and a: "canonical a" and nx: "range_next 0 (b @ (start, en, v0) # a) \<le> 2 ^ 64"
    and get: "rm_get (b @ (start, en, v0) # a) = override (rm_get m) start en (Some v0)"
    using post r by (cases p) (auto simp: ins_post_def)
  have ba: "ranges_from 0 (b @ a)" and rb: "ranges_from 0 b" and bs: "range_next 0 b \<le> start"
    and ra: "ranges_from (en + 1) a"
    using g assms(2) by (auto simp: ranges_from_append intro: ranges_from_mono)
  have "fst (snd (last b)) + 1 \<le> start" if "b \<noteq> []"
    using range_next_gt [OF rb, of "fst (last b)" "fst (snd (last b))" "snd (snd (last b))"] that bs by simp
  moreover have "en + 1 \<le> fst (hd a)" if "a \<noteq> []" using ra that by (cases a) auto
  ultimately have "canonical (b @ a)" using a b assms(2) by (auto simp: canonical_append joinable_def)
  moreover have "range_next 0 (b @ a) \<le> 2 ^ 64"
    using nx assms(3) bs assms(2) by (cases a) (auto simp: range_next_append)
  moreover have "rm_get (b @ a) k = override (rm_get m) start en None k" for k
  proof -
    have "rm_get (b @ a) k = (if k \<le> en then rm_get b k else rm_get a k)"
      using rm_get_gap [OF ba, of "en + 1" k] bs assms(2) ra by (simp add: less_Suc_eq_le)
    moreover have "rm_get b k = None" if "start \<le> k" using that bs by (intro rm_get_above [OF rb]) simp
    moreover note rm_get_mid [OF g, of k]
    ultimately show ?thesis using fun_cong [OF get, of k] assms(2) by (auto simp: override_def split: if_splits)
  qed
  moreover have "erase_range v0 m start en = Inr (b @ a)"
    using loop r p m' assms(2) sm_insert_gap [OF g] sm_erase_mid [OF ranges_from_sm_ok [OF g]]
    by (simp add: erase_range_def do_insert_def)
  ultimately show ?thesis using ba by (auto simp: rm_inv_def)
qed

lemma rm_get_None: "(\<And>q. q \<in> set m \<Longrightarrow> k < fst q \<or> fst (snd q) < k) \<Longrightarrow> rm_get m k = None"
  by (induction m k rule: rm_get.induct) (auto, force)

lemma find_range_iff:
  assumes "ranges_from 0 m"
  shows "find_range m k = Some (s, e, w) \<longleftrightarrow> (s, e, w) \<in> set m \<and> s \<le> k \<and> k \<le> e"
proof -
  define b a where "b = takeWhile (\<lambda>p. fst p \<le> k) m" and "a = dropWhile (\<lambda>p. fst p \<le> k) m"
  have m: "m = b @ a" by (simp add: a_def b_def)
  have bk: "fst q \<le> k" if "q \<in> set b" for q using that by (auto simp: b_def dest: set_takeWhileD)
  have ak: "k < fst q" if q: "q \<in> set a" for q
  proof -
    obtain h t where ha: "a = h # t" using q by (cases a) auto
    have "k < fst h" using ha hd_dropWhile [of "\<lambda>p. fst p \<le> k" m] by (simp add: a_def)
    moreover have "fst h \<le> fst q"
      using ranges_from_sm_ok [OF assms] q ha m by (auto simp: sm_ok_append sm_ok_Cons)
    ultimately show ?thesis by simp
  qed
  show ?thesis
  proof (cases b rule: rev_cases)
    case Nil
    then have "find_range m k = None" by (simp add: find_range_def b_def)
    then show ?thesis using m Nil ak by force
  next
    case (snoc c q)
    have "\<not> (s, e, w) \<in> set c" if "k \<le> e"
    proof
      assume "(s, e, w) \<in> set c"
      moreover have "ranges_from 0 (c @ q # a)" using assms m snoc by simp
      ultimately have "e + 1 \<le> fst q"
        using range_next_gt [of 0 c s e w] by (cases q) (auto simp: ranges_from_append)
      then show False using bk [of q] snoc that by simp
    qed
    moreover have "find_range m k = (if k \<le> fst (snd q) then Some q else None)"
    proof -
      have "m \<noteq> []" using m snoc by simp
      then show ?thesis unfolding find_range_def b_def [symmetric] using snoc by (simp add: Let_def)
    qed
    moreover have "(s, e, w) \<in> set m \<longleftrightarrow> (s, e, w) \<in> set c \<or> (s, e, w) = q \<or> (s, e, w) \<in> set a"
      using m snoc by auto
    moreover have "fst q \<le> k" using bk [of q] snoc by simp
    moreover have "(s, e, w) \<in> set a \<Longrightarrow> k < s" using ak by fastforce
    ultimately show ?thesis by (cases q) auto
  qed
qed

lemma find_range_rm_get:
  assumes "ranges_from 0 m"
  shows "map_option (snd \<circ> snd) (find_range m k) = rm_get m k"
proof (cases "find_range m k")
  case None
  then have "\<And>s e w. (s, e, w) \<in> set m \<Longrightarrow> k < s \<or> e < k"
    using find_range_iff [OF assms, of k] by (metis leI option.distinct(1))
  then show ?thesis using None rm_get_None [of m k] by fastforce
next
  case (Some q)
  then show ?thesis
    using find_range_iff [OF assms, of k "fst q" "fst (snd q)" "snd (snd q)"]
      rm_get_mem [OF assms, of "fst q" "fst (snd q)" "snd (snd q)" k] by simp
qed

lemma canonical_unique:
  assumes "ranges_from lo m" and "canonical m" and "ranges_from lo m'" and "canonical m'"
    and "rm_get m = rm_get m'"
  shows "m = m'"
  using assms
proof (induction m arbitrary: lo m')
  case Nil
  then show ?case by (cases m') (auto dest: fun_cong [of _ _ "fst (hd m')"])
next
  case (Cons p t)
  obtain s e w where p: "p = (s, e, w)" by (cases p)
  have t: "ranges_from (e + 1) t" "canonical t" "s \<le> e" "lo \<le> s" using Cons.prems(1,2) p by (auto simp: canonical_Cons)
  have g: "rm_get (p # t) s = Some w" using t p by simp
  then obtain s' e' w' t' where m': "m' = (s', e', w') # t'"
    using Cons.prems(5) by (cases m') auto
  have t': "ranges_from (e' + 1) t'" "canonical t'" "s' \<le> e'" "lo \<le> s'"
    using Cons.prems(3,4) m' by (auto simp: canonical_Cons)
  have G: "rm_get ((s, e, w) # t) k = rm_get ((s', e', w') # t') k" for k
    using fun_cong [OF Cons.prems(5), of k] unfolding p m' .
  have s: "s = s'"
    using rm_get_below [of s' m' s] rm_get_below [of s "p # t" s'] G [of s] G [of s'] t t' p m'
    by (cases s s' rule: linorder_cases) auto
  have w: "w = w'" using G [of s] t t' s by simp
  have ends: "\<not> e1 < e2" if "ranges_from (e1 + 1) t1" and "canonical ((s, e1, w) # t1)"
    and "s \<le> e1" and "\<And>k. rm_get ((s, e1, w) # t1) k = rm_get ((s, e2, w) # t2) k" for e1 e2 t1 t2
  proof
    assume "e1 < e2"
    then have "rm_get t1 (e1 + 1) = Some w" using that(3) that(4) [of "e1 + 1"] by simp
    then obtain q r where q: "t1 = q # r" by (cases t1) auto
    obtain a b c where abc: "q = (a, b, c)" by (cases q)
    have "a = e1 + 1"
      using that(1) q abc \<open>rm_get t1 (e1 + 1) = Some w\<close> rm_get_below [of "b + 1" r "e1 + 1"]
      by (auto split: if_splits)
    then show False using that(2) q abc \<open>rm_get t1 (e1 + 1) = Some w\<close> rm_get_below [of "b + 1" r "e1 + 1"] that(1)
      by (auto simp: canonical_Cons joinable_def split: if_splits)
  qed
  have e: "e = e'"
    using ends [of e t e' t'] ends [of e' t' e t] t t' s w p m' G Cons.prems(2,4)
    by (cases e e' rule: linorder_cases) auto
  have "rm_get t k = rm_get t' k" for k
    using G [of k] s e rm_get_below [OF t(1), of k] rm_get_below [OF t'(1), of k] t(3)
    by (cases "k \<le> e") auto
  then have "t = t'" using Cons.IH [OF t(1,2)] t'(1,2) e by blast
  then show ?case using p m' s e w by simp
qed

section \<open>Range sets as interval sets\<close>

definition covered :: "'v rangemap \<Rightarrow> nat set" where
  "covered m = {k. rm_get m k \<noteq> None}"

lemma covered_override:
  "rm_get m' = override (rm_get m) a b (Some v) \<Longrightarrow> covered m' = covered m \<union> {a..b}"
  "rm_get m' = override (rm_get m) a b None \<Longrightarrow> covered m' = covered m - {a..b}"
  by (auto simp: covered_def override_def)

interpretation rs: interval_set rm_inv covered "\<lambda>_. 2 ^ 64" rs_insert "erase_range ()"
proof unfold_locales
  fix m :: "unit rangemap" and a b :: nat
  assume m: "rm_inv m" "a \<le> b" "b < 2 ^ 64"
  obtain k e m' where "do_insert a b () True m = Inr (k, m')" "rm_inv m'"
    "rm_get m' = override (rm_get m) a b (Some ())"
    using do_insert_merge [OF m, of "()"] by blast
  then show "\<exists>m'. rs_insert m a b = Inr m' \<and> rm_inv m' \<and> covered m' = covered m \<union> {a..b} \<and> (2::nat) ^ 64 = 2 ^ 64"
    by (simp add: rs_insert_def covered_override)
  obtain m'' where "erase_range () m a b = Inr m''" "rm_inv m''"
    "rm_get m'' = override (rm_get m) a b None"
    using erase_range_post [OF m, of "()"] by blast
  then show "\<exists>m'. erase_range () m a b = Inr m' \<and> rm_inv m' \<and> covered m' = covered m - {a..b} \<and> (2::nat) ^ 64 = 2 ^ 64"
    by (simp add: covered_override)
qed

lemma rm_inv_Nil: "rm_inv []"
  by (simp add: rm_inv_def)

section \<open>Properties\<close>

text \<open>
  C24. \<open>CRangeMap::insert\<close> with a valid range: the map stays a list of disjoint, ordered, maximal
  ranges; afterwards exactly the keys of the range map to the new value and all others are as
  before; the iterator returned points to a range with the new value that covers at least the
  inserted keys. An invalid range is rejected.
\<close>

theorem rm_insert_correct:
  assumes "rm_inv m" and "en < 2 ^ 64"
  shows "if start \<le> en
    then \<exists>k e m'. rm_insert m start en v = Inr (k, m') \<and> rm_inv m' \<and>
      (\<forall>x. rm_get m' x = (if start \<le> x \<and> x \<le> en then Some v else rm_get m x)) \<and>
      (k, e, v) \<in> set m' \<and> k \<le> start \<and> en \<le> e
    else rm_insert m start en v = Inl InvalidParams"
proof (cases "start \<le> en")
  case True
  with do_insert_merge [OF assms(1) True assms(2), of v] show ?thesis
    by (auto simp: rm_insert_def override_def fun_eq_iff)
qed (simp add: rm_insert_def do_insert_def)

theorem rm_insert_correct_witness:
  "\<exists>k e m'. rm_insert [(2, 9, True), (12, 15, False)] 8 11 False = Inr (k, m') \<and>
    rm_get m' 8 = Some False \<and> rm_get m' 7 = Some True \<and> (k, e, False) \<in> set m' \<and> 11 \<le> e"
proof -
  have "rm_inv [(2, 9, True), (12, 15, False)]"
    by (simp add: rm_inv_def canonical_Cons joinable_def)
  from rm_insert_correct [OF this, of 11 8 False] show ?thesis by force
qed

text \<open>
  C25. \<open>CRangeMap::erase_range\<close> with a valid range: no key of the range is mapped afterwards, all
  others are as before, and the map stays a list of disjoint, ordered, maximal ranges, whatever
  value the default-constructed entry carries that is inserted on the way.
\<close>

theorem erase_range_correct:
  assumes "rm_inv m" and "en < 2 ^ 64"
  shows "if start \<le> en
    then \<exists>m'. erase_range v0 m start en = Inr m' \<and> rm_inv m' \<and>
      (\<forall>x. rm_get m' x = (if start \<le> x \<and> x \<le> en then None else rm_get m x))
    else erase_range v0 m start en = Inl InvalidParams"
proof (cases "start \<le> en")
  case True
  with erase_range_post [OF assms(1) True assms(2), of v0] show ?thesis
    by (auto simp: override_def fun_eq_iff)
qed (simp add: erase_range_def do_insert_def)

theorem erase_range_correct_witness:
  "\<exists>m'. erase_range True [(2, 9, True), (10, 15, False)] 8 11 = Inr m' \<and> rm_inv m' \<and>
    rm_get m' 8 = None \<and> rm_get m' 7 = Some True \<and> rm_get m' 12 = Some False"
proof -
  have "rm_inv [(2, 9, True), (10, 15, False)]"
    by (simp add: rm_inv_def canonical_Cons joinable_def)
  from erase_range_correct [OF this, of 11 8 True] show ?thesis by auto
qed

text \<open>
  \<open>CRangeMap::find_range\<close> agrees with the mapping: it points to the one stored range that
  contains the key, and returns \<open>end()\<close> exactly for keys that are not mapped.
\<close>

theorem find_range_correct:
  assumes "rm_inv m"
  shows "(find_range m k = Some (s, e, w) \<longleftrightarrow> (s, e, w) \<in> set m \<and> s \<le> k \<and> k \<le> e) \<and>
    rm_get m k = map_option (snd \<circ> snd) (find_range m k)"
  using assms find_range_iff [of m k s e w] find_range_rm_get [of m k] by (simp add: rm_inv_def)

theorem find_range_correct_witness:
  "find_range [(2, 9, True), (10, 15, False)] 10 = Some (10, 15, False)"
proof -
  have "rm_inv [(2, 9, True), (10, 15, False)]"
    by (simp add: rm_inv_def canonical_Cons joinable_def)
  from find_range_correct [OF this, of 10 10 15 False] show ?thesis by simp
qed

text \<open>
  \<open>CRangeSet\<close>: starting empty, after any sequence of \<open>insert\<close> and \<open>erase_range\<close> calls with valid
  ranges a key is in the set exactly when the last call that touched it was an insertion.
\<close>

theorem rangeset_sequence:
  assumes "\<forall>r \<in> set ops. op_within (2 ^ 64) r"
  shows "\<exists>m. run_ops rs_insert (erase_range ()) [] ops = Inr m \<and> rm_inv m \<and>
    (\<forall>x. find_range m x \<noteq> None \<longleftrightarrow> last_writer ops {} x)"
proof -
  obtain m where "run_ops rs_insert (erase_range ()) [] ops = Inr m" and m: "rm_inv m"
    and "\<forall>x. x \<in> covered m \<longleftrightarrow> last_writer ops (covered ([] :: unit rangemap)) x"
    using rs.run_last_writer [OF rm_inv_Nil assms] by blast
  moreover have "find_range m x \<noteq> None \<longleftrightarrow> x \<in> covered m" for x
    using find_range_rm_get [of m x] m by (auto simp: rm_inv_def covered_def)
  ultimately show ?thesis by (auto simp: covered_def)
qed

theorem rangeset_sequence_witness:
  "\<exists>m. run_ops rs_insert (erase_range ()) [] [Put 3 8, Take 5 6, Put 9 9] = Inr m \<and>
    find_range m 9 \<noteq> None \<and> find_range m 5 = None"
proof -
  have "\<forall>r \<in> set [Put 3 8, Take 5 6, Put 9 9]. op_within (2 ^ 64) r" by simp
  then obtain m where m: "run_ops rs_insert (erase_range ()) [] [Put 3 8, Take 5 6, Put 9 9] = Inr m"
    and l: "\<And>x. find_range m x \<noteq> None \<longleftrightarrow> last_writer [Put 3 8, Take 5 6, Put 9 9] {} x"
    using rangeset_sequence by blast
  show ?thesis using m l [of 9] l [of 5] by (simp add: last_writer_def del: not_None_eq)
qed

text \<open>
  \<open>operator==\<close> is documented to compare ranges and values, but the helpers it compares leave the end
  of a range out.
\<close>

lemma rm_equal_ignores_ends:
  "rm_equal [(0, 1, v)] [(0, 5, v)] \<and> rm_get [(0, 1, v)] 3 = None \<and> rm_get [(0, 5, v)] 3 = Some v"
  by (simp add: rm_equal_def helper_eq_def)

end
