(* ===== verification/Stream_Codec.thy ===== *)
theory Stream_Codec
  imports Amule_Prelude
begin

text \<open>
  The interface of codecs that keep a state on both ends of a connection: an encoder turns the next
  message into bytes and moves on, the decoder turns those bytes back. \<open>sync e d\<close> says that decoder
  state \<open>d\<close> is the one that belongs to encoder state \<open>e\<close>. What holds of one message holds of a whole
  conversation; this is proved once here.
\<close>

fun enc_stream :: "('e \<Rightarrow> 'a \<Rightarrow> 'f + 'e \<times> 'b) \<Rightarrow> 'e \<Rightarrow> 'a list \<Rightarrow> 'f + 'e \<times> 'b list" where
  "enc_stream enc e [] = Inr (e, [])"
| "enc_stream enc e (x # xs) =
     sum_bind (enc e x) (\<lambda>(e', b). sum_bind (enc_stream enc e' xs) (\<lambda>(e'', bs). Inr (e'', b # bs)))"

fun dec_stream :: "('d \<Rightarrow> 'b \<Rightarrow> 'f + 'd \<times> 'c) \<Rightarrow> 'd \<Rightarrow> 'b list \<Rightarrow> 'f + 'd \<times> 'c list" where
  "dec_stream dec d [] = Inr (d, [])"
| "dec_stream dec d (b # bs) =
     sum_bind (dec d b) (\<lambda>(d', x). sum_bind (dec_stream dec d' bs) (\<lambda>(d'', xs). Inr (d'', x # xs)))"

locale stream_codec =
  fixes sync :: "'e \<Rightarrow> 'd \<Rightarrow> bool"
    and sendable :: "'a \<Rightarrow> bool"
    and enc :: "'e \<Rightarrow> 'a \<Rightarrow> 'f + 'e \<times> 'b"
    and dec :: "'d \<Rightarrow> 'b \<Rightarrow> 'f + 'd \<times> 'c"
    and view :: "'a \<Rightarrow> 'c"
  assumes law: "sync e d \<Longrightarrow> sendable x \<Longrightarrow>
    \<exists>e' b d'. enc e x = Inr (e', b) \<and> dec d b = Inr (d', view x) \<and> sync e' d'"
begin

lemma stream:
  assumes "sync e d" and "\<forall>x \<in> set xs. sendable x"
  shows "\<exists>e' bs d'. enc_stream enc e xs = Inr (e', bs) \<and> dec_stream dec d bs = Inr (d', map view xs) \<and>
    sync e' d'"
  using assms
proof (induction xs arbitrary: e d)
  case Nil
  then show ?case by simp
next
  case (Cons x xs)
  obtain e1 b d1 where 1: "enc e x = Inr (e1, b)" "dec d b = Inr (d1, view x)" "sync e1 d1"
    using law [of e d x] Cons.prems by auto
  moreover obtain e2 bs d2 where "enc_stream enc e1 xs = Inr (e2, bs)"
    "dec_stream dec d1 bs = Inr (d2, map view xs)" "sync e2 d2"
    using Cons.IH [OF 1(3)] Cons.prems by auto
  ultimately show ?case by simp
qed

end

end
