(* ===== verification/RLE.thy ===== *)
theory RLE
  imports Stream_Codec
begin

text \<open>
  \<open>RLE_Data\<close> (\<open>src/src/RLE.cpp\<close>, \<open>src/src/RLE.h\<close>): the run-length encoder for the difference between
  subsequent states of a status bar, and its decoder. Buffers are byte lists; an access outside a
  buffer is the fault \<open>OutOfBounds\<close>. A null \<open>m_buff\<close> is the empty list. Lengths are naturals: the
  decoder's \<open>int j\<close> would need an input of more than 25 million bytes to overflow.
\<close>

section \<open>State\<close>

record rle_data =
  m_buff :: "uint8 list"
  m_len :: nat
  m_use_diff :: bool

definition rle_ok :: "rle_data \<Rightarrow> bool" where
  "rle_ok r \<longleftrightarrow> m_len r = length (m_buff r)"

definition rle_setup :: "nat \<Rightarrow> bool \<Rightarrow> uint8 list option \<Rightarrow> rle_data" where
  "rle_setup len use_diff content =
     \<lparr>m_buff =
        (if len \<noteq> 0 then case content of Some c \<Rightarrow> take len c | None \<Rightarrow> replicate len 0
         else []),
      m_len = len, m_use_diff = use_diff\<rparr>"

definition ResetEncoder :: "rle_data \<Rightarrow> rle_data" where
  "ResetEncoder r = r\<lparr>m_len := 0, m_buff := []\<rparr>"

definition Realloc :: "nat \<Rightarrow> rle_data \<Rightarrow> bool \<times> rle_data" where
  "Realloc sz r =
     (if sz = m_len r then (False, r)
      else if sz = 0 then (True, r\<lparr>m_buff := [], m_len := 0\<rparr>)
      else
        let buff =
          (if m_len r = 0 then replicate sz 0
           else if m_len r < sz then take (m_len r) (m_buff r) @ replicate (sz - m_len r) 0
           else take sz (m_buff r))
        in (True, r\<lparr>m_buff := buff, m_len := sz\<rparr>))"

section \<open>Decoding\<close>

text \<open>\<open>memset(decBuf + j, v, n)\<close> and \<open>decBuf[j] = v\<close>; \<open>None\<close> is the null pointer.\<close>

fun mem_fill :: "uint8 list option \<Rightarrow> nat \<Rightarrow> uint8 \<Rightarrow> nat \<Rightarrow> fault + uint8 list option" where
  "mem_fill None j v n = Inl OutOfBounds"
| "mem_fill (Some buf) j v n =
     (if j + n \<le> length buf then Inr (Some (take j buf @ replicate n v @ drop (j + n) buf))
      else Inl OutOfBounds)"

fun mem_put :: "uint8 list option \<Rightarrow> nat \<Rightarrow> uint8 \<Rightarrow> fault + uint8 list option" where
  "mem_put None j v = Inl OutOfBounds"
| "mem_put (Some buf) j v = (if j < length buf then Inr (Some (buf[j := v])) else Inl OutOfBounds)"

text \<open>One pass over the input from position \<open>j\<close> of the output on; \<open>len\<close> is \<open>m_len\<close>.\<close>

fun decode_pass ::
  "nat \<Rightarrow> uint8 list option \<Rightarrow> nat \<Rightarrow> uint8 list \<Rightarrow> fault + uint8 list option \<times> nat"
where
  "decode_pass len decBuf j [] = Inr (decBuf, j)"
| "decode_pass len decBuf j (b # rest) =
     (let single =
        sum_bind (if j < len then mem_put decBuf j b else Inr decBuf)
          (\<lambda>d. decode_pass len d (j + 1) rest)
      in case rest of
           b' # n # rest' \<Rightarrow>
             if b' = b then
               sum_bind
                 (if decBuf \<noteq> None \<and> j + unat n \<le> len then mem_fill decBuf j b (unat n) else Inr decBuf)
                 (\<lambda>d. decode_pass len d (j + unat n) rest')
             else single
         | _ \<Rightarrow> single)"

text \<open>The passes, until the size fits. \<open>rounds\<close> bounds them; two are enough.\<close>

fun decode_rounds ::
  "nat \<Rightarrow> rle_data \<Rightarrow> uint8 list option \<Rightarrow> uint8 list \<Rightarrow> fault + rle_data \<times> uint8 list option"
where
  "decode_rounds 0 r decBuf bs = Inl NoReturn"
| "decode_rounds (Suc rounds) r decBuf bs =
     sum_bind (decode_pass (m_len r) decBuf 0 bs) (\<lambda>(d, j).
       if j \<noteq> m_len r then
         let overrun = m_len r < j; r' = snd (Realloc j r)
         in if overrun then decode_rounds rounds r' (Some (replicate (m_len r') 0)) bs
            else Inr (r', d)
       else Inr (r, d))"

definition Decode :: "rle_data \<Rightarrow> uint8 list \<Rightarrow> fault + rle_data \<times> uint8 list" where
  "Decode r bs =
     (let decBuf = (if m_len r \<noteq> 0 then Some (replicate (m_len r) 0) else None)
      in sum_bind (decode_rounds 2 r decBuf bs) (\<lambda>(r', d).
           case d of
             None \<Rightarrow> Inr (r', m_buff r')
           | Some buf \<Rightarrow>
               if m_len r' \<le> length buf \<and> m_len r' \<le> length (m_buff r') then
                 let new = (if m_use_diff r' then map2 xor (m_buff r') (take (m_len r') buf)
                            else take (m_len r') buf)
                 in Inr (r'\<lparr>m_buff := new\<rparr>, new)
               else Inl OutOfBounds))"

section \<open>Encoding\<close>

text \<open>The inner loop: the length of the run of \<open>v\<close> (at most 255) and what follows it.\<close>

fun run_end :: "uint8 \<Rightarrow> nat \<Rightarrow> uint8 list \<Rightarrow> nat \<times> uint8 list" where
  "run_end v n [] = (n, [])"
| "run_end v n (x # xs) = (if v = x \<and> n < 255 then run_end v (n + 1) xs else (n, x # xs))"

fun enc_put :: "nat \<Rightarrow> uint8 list \<Rightarrow> uint8 list \<Rightarrow> fault + uint8 list" where
  "enc_put cap enc_buff [] = Inr enc_buff"
| "enc_put cap enc_buff (b # bs) =
     (if length enc_buff < cap then enc_put cap (enc_buff @ [b]) bs else Inl OutOfBounds)"

lemma run_end_length: "length (snd (run_end v n xs)) \<le> length xs"
  by (induction v n xs rule: run_end.induct) auto

function rle_loop :: "nat \<Rightarrow> uint8 list \<Rightarrow> uint8 list \<Rightarrow> fault + uint8 list" where
  "rle_loop cap enc_buff [] = Inr enc_buff"
| "rle_loop cap enc_buff (curr_val # xs) =
     (let (n, rest) = run_end curr_val 0 (curr_val # xs)
      in sum_bind
           (enc_put cap enc_buff (if 1 < n then [curr_val, curr_val, of_nat n] else [curr_val]))
           (\<lambda>e. rle_loop cap e rest))"
  by pat_completeness auto
termination
proof (relation "measure (\<lambda>(cap, e, xs). length xs)")
  fix cap :: nat and e xs x rest v and n :: nat
  assume "x = run_end v 0 (v # xs)" and "(n, rest) = x"
  then have "rest = snd (run_end v 1 xs)" by (simp del: snd_conv add: snd_def split: prod.splits) (metis prod.inject)
  then show "((cap, e', rest), (cap, e, v # xs)) \<in> measure (\<lambda>(cap, e, xs). length xs)" for e'
    using run_end_length [of v 1 xs] by simp
qed simp

text \<open>\<open>Encode\<close> of raw data: the new state, the encoded bytes and \<open>changed\<close>.\<close>

definition Encode :: "rle_data \<Rightarrow> uint8 list \<Rightarrow> fault + rle_data \<times> uint8 list \<times> bool" where
  "Encode r data =
     (let (resized, r1) = Realloc (length data) r
      in if m_len r1 \<le> 0 then Inr (r1, [], resized)
         else
           let buff = (if m_use_diff r1 then map2 xor (m_buff r1) data else data);
               changed = (if m_use_diff r1 then resized \<or> list_ex (\<lambda>b. b \<noteq> 0) buff else True)
           in sum_bind (rle_loop (m_len r1 * 3 div 2 + 1) [] buff) (\<lambda>enc_buff.
                Inr (r1\<lparr>m_buff := (if m_use_diff r1 then data else buff)\<rparr>, enc_buff, changed)))"

definition Encode16 :: "rle_data \<Rightarrow> uint16 list \<Rightarrow> fault + rle_data \<times> uint8 list \<times> bool" where
  "Encode16 r data =
     (if data = [] then Encode r []
      else Encode r (map (\<lambda>ui. if 0xff < ui then 0xff else ucast ui) data))"

definition byte_planes :: "uint64 list \<Rightarrow> uint8 list" where
  "byte_planes data = concat (map (\<lambda>j. map (\<lambda>u. ucast (drop_bit (8 * j) u)) data) [0..<8])"

definition Encode64 :: "rle_data \<Rightarrow> uint64 list \<Rightarrow> fault + rle_data \<times> uint8 list \<times> bool" where
  "Encode64 r data = (if data = [] then Encode r [] else Encode r (byte_planes data))"

definition from_planes :: "nat \<Rightarrow> uint8 list \<Rightarrow> nat \<Rightarrow> uint64" where
  "from_planes sz decoded i =
     fold (\<lambda>j u. or (push_bit 8 u) (ucast (decoded ! (i + j * sz)))) (rev [0..<8]) 0"

definition Decode64 :: "rle_data \<Rightarrow> uint8 list \<Rightarrow> fault + rle_data \<times> uint64 list" where
  "Decode64 r bs =
     sum_bind (Decode r bs) (\<lambda>(r', decoded).
       let sz = m_len r' div 8
       in Inr (r', map (from_planes sz decoded) [0..<sz]))"

text \<open>\<open>PartFileEncoderData::DecodeParts\<close>; \<open>bs\<close> is the data of the tag.\<close>

definition DecodeParts :: "rle_data \<Rightarrow> uint8 list \<Rightarrow> fault + rle_data \<times> uint16 list" where
  "DecodeParts r bs =
     sum_bind (Decode r bs) (\<lambda>(r', buf). Inr (r', map (\<lambda>i. ucast (buf ! i)) [0..<m_len r']))"

section \<open>What a byte stream stands for\<close>

fun expand :: "uint8 list \<Rightarrow> uint8 list" where
  "expand [] = []"
| "expand (b # rest) =
     (case rest of
        b' # n # rest' \<Rightarrow> if b' = b then replicate (unat n) b @ expand rest' else b # expand rest
      | _ \<Rightarrow> b # expand rest)"

definition run_start :: "uint8 \<Rightarrow> uint8 list \<Rightarrow> bool" where
  "run_start b rest \<longleftrightarrow> (\<exists>n r. rest = b # n # r)"

lemma expand_run: "expand (b # b # n # r) = replicate (unat n) b @ expand r"
  by simp

lemma expand_single: "\<not> run_start b rest \<Longrightarrow> expand (b # rest) = b # expand rest"
  by (auto simp: run_start_def split: list.split)

lemma decode_pass_run:
  "decode_pass len dec j (b # b # n # r) =
    sum_bind (if dec \<noteq> None \<and> j + unat n \<le> len then mem_fill dec j b (unat n) else Inr dec)
      (\<lambda>d. decode_pass len d (j + unat n) r)"
  by simp

lemma decode_pass_single:
  "\<not> run_start b rest \<Longrightarrow> decode_pass len dec j (b # rest) =
    sum_bind (if j < len then mem_put dec j b else Inr dec) (\<lambda>d. decode_pass len d (j + 1) rest)"
  by (subst decode_pass.simps(2)) (auto simp: run_start_def Let_def simp del: decode_pass.simps split: list.split)

lemma byte_stream_induct [case_names Nil run single]:
  assumes "P []" and "\<And>b n r. P r \<Longrightarrow> P (b # b # n # r)"
    and "\<And>b rest. \<not> run_start b rest \<Longrightarrow> P rest \<Longrightarrow> P (b # rest)"
  shows "P bs"
proof (induction bs rule: length_induct)
  case (1 bs)
  show ?case
  proof (cases bs)
    case (Cons b rest)
    show ?thesis
    proof (cases "run_start b rest")
      case True
      then obtain n r where "rest = b # n # r" by (auto simp: run_start_def)
      then show ?thesis using 1 Cons assms(2) [of r b n] by simp
    next
      case False
      then show ?thesis using 1 Cons assms(3) [of b rest] by simp
    qed
  qed (simp add: assms(1))
qed

text \<open>A pass with enough room writes the expansion; without, it counts its length.\<close>

lemma decode_pass_null:
  "decode_pass 0 None j bs = Inr (None, j + length (expand bs))"
  by (induction bs arbitrary: j rule: byte_stream_induct)
    (simp_all add: expand_single decode_pass_single decode_pass_run expand_run del: expand.simps(2) decode_pass.simps(2))

lemma decode_pass_count:
  "\<exists>d. decode_pass (length buf) (Some buf) j bs = Inr (Some d, j + length (expand bs)) \<and>
    length d = length buf"
proof (induction bs arbitrary: buf j rule: byte_stream_induct)
  case (run b n r)
  let ?buf = "take j buf @ replicate (unat n) b @ drop (j + unat n) buf"
  show ?case
    using run.IH [of buf "j + unat n"] run.IH [of ?buf "j + unat n"]
    by (auto simp: expand_run decode_pass_run simp del: expand.simps decode_pass.simps)
next
  case (single b rest)
  show ?case
    using single.IH [of buf "j + 1"] single.IH [of "buf[j := b]" "j + 1"]
    by (auto simp: expand_single [OF single(1)] decode_pass_single [OF single(1)]
      simp del: expand.simps decode_pass.simps)
qed simp

lemma decode_pass_fit:
  "j + length (expand bs) \<le> length buf \<Longrightarrow>
    decode_pass (length buf) (Some buf) j bs =
      Inr (Some (take j buf @ expand bs @ drop (j + length (expand bs)) buf), j + length (expand bs))"
proof (induction bs arbitrary: buf j rule: byte_stream_induct)
  case (run b n r)
  let ?buf = "take j buf @ replicate (unat n) b @ drop (j + unat n) buf"
  have l: "length ?buf = length buf" using run.prems by (simp add: expand_run del: expand.simps)
  show ?case
    using run.IH [of "j + unat n" ?buf] run.prems l
    by (simp add: expand_run decode_pass_run ac_simps del: expand.simps decode_pass.simps)
next
  case (single b rest)
  have "take (Suc j) (buf[j := b]) = take j buf @ [b]"
    using single.prems by (simp add: expand_single [OF single(1)] take_Suc_conv_app_nth del: expand.simps)
  then show ?case
    using single.IH [of "Suc j" "buf[j := b]"] single.prems
    by (simp add: expand_single [OF single(1)] decode_pass_single [OF single(1)]
      del: expand.simps decode_pass.simps)
qed simp

section \<open>The decoder on any input\<close>

definition fit :: "nat \<Rightarrow> uint8 list \<Rightarrow> uint8 list" where
  "fit n xs = take n xs @ replicate (n - length xs) 0"

lemma length_fit [simp]: "length (fit n xs) = n"
  by (simp add: fit_def)

lemma fit_same: "length xs = n \<Longrightarrow> fit n xs = xs"
  by (simp add: fit_def)

lemma Realloc_fit:
  assumes "rle_ok r"
  shows "Realloc n r = (n \<noteq> m_len r, r\<lparr>m_buff := fit n (m_buff r), m_len := n\<rparr>)"
  using assms by (auto simp: Realloc_def fit_def rle_ok_def Let_def)

definition combine :: "rle_data \<Rightarrow> uint8 list \<Rightarrow> rle_data" where
  "combine r xs =
     (let old = fit (length xs) (m_buff r)
      in r\<lparr>m_buff := (if m_use_diff r then map2 xor old xs else xs), m_len := length xs\<rparr>)"

lemma decode_rounds_expand:
  assumes "rle_ok r" and "dec = (if m_len r \<noteq> 0 then Some (replicate (m_len r) 0) else None)"
  shows "\<exists>d. decode_rounds 2 r dec bs =
      Inr (r\<lparr>m_buff := fit (length (expand bs)) (m_buff r), m_len := length (expand bs)\<rparr>, d) \<and>
    (case d of None \<Rightarrow> expand bs = [] | Some buf \<Rightarrow> take (length (expand bs)) buf = expand bs \<and>
       length (expand bs) \<le> length buf)"
proof -
  let ?n = "length (expand bs)"
  let ?r = "r\<lparr>m_buff := fit ?n (m_buff r), m_len := ?n\<rparr>"
  have two: "(2::nat) = Suc (Suc 0)" by simp
  have realloc: "snd (Realloc ?n r) = ?r" using Realloc_fit [OF assms(1)] by simp
  consider (over) "m_len r < ?n" | (same) "m_len r = ?n" | (under) "?n < m_len r" by linarith
  then show ?thesis
  proof cases
    case over
    obtain d where "decode_pass (m_len r) dec 0 bs = Inr (d, ?n)"
      using decode_pass_null [of 0 bs] decode_pass_count [of "replicate (m_len r) 0" 0 bs] assms(2)
      by (cases "m_len r = 0") auto
    moreover have "decode_pass ?n (Some (replicate ?n 0)) 0 bs = Inr (Some (expand bs), ?n)"
      using decode_pass_fit [of 0 bs "replicate ?n 0"] by simp
    ultimately show ?thesis using over realloc by (simp add: two Let_def)
  next
    case same
    have "decode_pass (m_len r) dec 0 bs = Inr (if ?n = 0 then None else Some (expand bs), ?n)"
      using decode_pass_null [of 0 bs] decode_pass_fit [of 0 bs "replicate (m_len r) 0"] assms(2) same
      by auto
    moreover have "?r = r" using assms(1) same by (simp add: rle_ok_def fit_same)
    ultimately show ?thesis using same by (simp add: two)
  next
    case under
    have "decode_pass (m_len r) dec 0 bs =
        Inr (Some (expand bs @ drop ?n (replicate (m_len r) 0)), ?n)"
      using decode_pass_fit [of 0 bs "replicate (m_len r) 0"] assms(2) under by auto
    then show ?thesis using under realloc by (simp add: two Let_def)
  qed
qed

lemma Decode_expand:
  assumes "rle_ok r"
  shows "Decode r bs = Inr (combine r (expand bs), m_buff (combine r (expand bs)))"
proof -
  obtain d where d: "decode_rounds 2 r (if m_len r \<noteq> 0 then Some (replicate (m_len r) 0) else None) bs =
      Inr (r\<lparr>m_buff := fit (length (expand bs)) (m_buff r), m_len := length (expand bs)\<rparr>, d)"
    and c: "case d of None \<Rightarrow> expand bs = [] | Some buf \<Rightarrow> take (length (expand bs)) buf = expand bs \<and>
       length (expand bs) \<le> length buf"
    using decode_rounds_expand [OF assms refl, of bs] by blast
  show ?thesis
    using d c unfolding Decode_def Let_def by (cases d) (simp_all add: combine_def fit_def Let_def)
qed

section \<open>The encoder\<close>

lemma run_end_props:
  "run_end v n xs = (m, rest) \<Longrightarrow> n \<le> 255 \<Longrightarrow>
    n \<le> m \<and> m \<le> 255 \<and> xs = replicate (m - n) v @ rest \<and> (m < 255 \<longrightarrow> rest = [] \<or> hd rest \<noteq> v)"
proof (induction v n xs arbitrary: m rest rule: run_end.induct)
  case (2 v n x xs)
  show ?case
  proof (cases "v = x \<and> n < 255")
    case True
    then have "n + 1 \<le> m \<and> m \<le> 255 \<and> xs = replicate (m - (n + 1)) v @ rest \<and>
        (m < 255 \<longrightarrow> rest = [] \<or> hd rest \<noteq> v)"
      using 2 by simp
    moreover from this have "replicate (m - n) v = v # replicate (m - (n + 1)) v"
      by (metis Suc_diff_Suc Suc_eq_plus1 Suc_le_lessD replicate_Suc)
    ultimately show ?thesis using True by simp
  qed (use 2 in auto)
qed simp

lemma enc_put_ok: "length e + length bs \<le> cap \<Longrightarrow> enc_put cap e bs = Inr (e @ bs)"
  by (induction cap e bs rule: enc_put.induct) auto

text \<open>The loop stays inside a buffer of one and a half times the input, and the decoder inverts it.\<close>

lemma rle_loop_expand:
  "2 * length e + 3 * length xs \<le> 2 * cap \<Longrightarrow>
    \<exists>bs. rle_loop cap e xs = Inr (e @ bs) \<and> expand bs = xs \<and> 2 * length bs \<le> 3 * length xs \<and>
      (xs = [] \<longleftrightarrow> bs = []) \<and> (xs \<noteq> [] \<longrightarrow> hd bs = hd xs)"
proof (induction "length xs" arbitrary: e xs rule: less_induct)
  case less
  show ?case
  proof (cases xs)
    case Nil
    then show ?thesis by simp
  next
    case (Cons v ys)
    obtain n rest where run: "run_end v 0 xs = (n, rest)" by (cases "run_end v 0 xs")
    have n: "n \<le> 255" "xs = replicate n v @ rest" "n < 255 \<longrightarrow> rest = [] \<or> hd rest \<noteq> v"
      using run_end_props [OF run] by auto
    have n1: "1 \<le> n" using run Cons run_end_props [of v 1 ys n rest] by simp
    then have len: "length rest < length xs" "length xs = n + length rest" using n by auto
    let ?out = "if 1 < n then [v, v, of_nat n] else [v]"
    have out: "2 * length ?out \<le> 3 * n" using n1 by auto
    have "2 * length (e @ ?out) + 3 * length rest \<le> 2 * cap" using out len less.prems by auto
    then obtain bs where bs: "rle_loop cap (e @ ?out) rest = Inr ((e @ ?out) @ bs)" "expand bs = rest"
      "2 * length bs \<le> 3 * length rest" "rest = [] \<longleftrightarrow> bs = []" "rest \<noteq> [] \<longrightarrow> hd bs = hd rest"
      using less.hyps [OF len(1)] by blast
    have "length e + length ?out \<le> cap" using out len less.prems by auto
    then have "rle_loop cap e xs = Inr (e @ ?out @ bs)"
      using Cons run bs(1) enc_put_ok [of e ?out cap] by (simp del: run_end.simps)
    moreover have "expand (?out @ bs) = xs"
    proof (cases "1 < n")
      case True
      have "unat (of_nat n :: uint8) = n" using n(1) by (simp add: unat_of_nat take_bit_eq_mod)
      then show ?thesis using True n(2) bs(2) by (simp add: expand_run del: expand.simps)
    next
      case False
      then have "n = 1" using n1 by simp
      moreover from this have "\<not> run_start v bs" using bs(4,5) n(3) by (auto simp: run_start_def)
      ultimately show ?thesis using n(2) bs(2) by (simp add: expand_single del: expand.simps)
    qed
    moreover have "2 * length (?out @ bs) \<le> 3 * length xs" using out bs(3) len by auto
    ultimately show ?thesis using Cons by (intro exI [of _ "?out @ bs"]) auto
  qed
qed

definition diff_to :: "rle_data \<Rightarrow> uint8 list \<Rightarrow> uint8 list" where
  "diff_to r data = (if m_use_diff r then map2 xor (fit (length data) (m_buff r)) data else data)"

definition holds :: "rle_data \<Rightarrow> uint8 list \<Rightarrow> rle_data" where
  "holds r data = r\<lparr>m_buff := data, m_len := length data\<rparr>"

lemma rle_ok_holds [simp]: "rle_ok (holds r data)"
  by (simp add: rle_ok_def holds_def)

lemma xor_twice: "length old = length data \<Longrightarrow> map2 xor old (map2 xor old data) = (data :: uint8 list)"
  by (induction old data rule: list_induct2) (auto simp flip: xor.assoc)

lemma xor_eq_zero: "xor a b = 0 \<longleftrightarrow> a = (b :: uint8)"
proof
  assume "xor a b = 0"
  then have "xor a (xor a b) = a" by simp
  then show "a = b" by (simp flip: xor.assoc)
qed simp

lemma xor_zero: "length old = length data \<Longrightarrow>
    list_ex (\<lambda>b. b \<noteq> 0) (map2 xor old data) \<longleftrightarrow> (data :: uint8 list) \<noteq> old"
  by (induction old data rule: list_induct2) (auto simp: xor_eq_zero)

lemma combine_diff: "combine r (diff_to r data) = holds r data"
  by (simp add: combine_def diff_to_def holds_def Let_def xor_twice)

lemma Encode_holds:
  assumes "rle_ok r"
  shows "\<exists>bs. Encode r data = Inr (holds r data, bs,
      if m_use_diff r then data \<noteq> m_buff r else data \<noteq> [] \<or> m_buff r \<noteq> []) \<and>
    expand bs = diff_to r data \<and> 2 * length bs \<le> 3 * length data"
proof (cases "data = []")
  case True
  then show ?thesis
    using assms by (auto simp: Encode_def Realloc_fit fit_def holds_def diff_to_def rle_ok_def)
next
  case False
  let ?n = "length data"
  have len: "length (diff_to r data) = ?n" by (simp add: diff_to_def)
  have "3 * ?n \<le> 2 * (?n * 3 div 2 + 1)" by presburger
  then obtain bs where bs: "rle_loop (?n * 3 div 2 + 1) [] (diff_to r data) = Inr bs"
    "expand bs = diff_to r data" "2 * length bs \<le> 3 * ?n"
    using rle_loop_expand [of "[]" "diff_to r data" "?n * 3 div 2 + 1"] len
    by (auto simp del: add_2_eq_Suc add_2_eq_Suc')
  have "?n \<noteq> m_len r \<or> list_ex (\<lambda>b. b \<noteq> 0) (map2 xor (fit ?n (m_buff r)) data) \<longleftrightarrow> data \<noteq> m_buff r"
    using assms by (cases "?n = m_len r") (auto simp: xor_zero rle_ok_def fit_same)
  then have "Encode r data = Inr (holds r data, bs,
      if m_use_diff r then data \<noteq> m_buff r else data \<noteq> [] \<or> m_buff r \<noteq> [])"
    using bs(1) False assms by (auto simp: Encode_def Realloc_fit holds_def diff_to_def Let_def)
  then show ?thesis using bs by blast
qed

text \<open>Encoder and decoder belong together when they hold the same state.\<close>

definition rle_sync :: "rle_data \<Rightarrow> rle_data \<Rightarrow> bool" where
  "rle_sync e d \<longleftrightarrow> rle_ok e \<and> d = e"

definition bytes_only ::
  "fault + rle_data \<times> uint8 list \<times> bool \<Rightarrow> fault + rle_data \<times> uint8 list"
where
  "bytes_only r = sum_bind r (\<lambda>(e, bs, changed). Inr (e, bs))"

lemma Encode_Decode:
  assumes "rle_ok r"
  shows "\<exists>bs. bytes_only (Encode r data) = Inr (holds r data, bs) \<and>
    Decode r bs = Inr (holds r data, data)"
  using Encode_holds [OF assms, of data] Decode_expand [OF assms] combine_diff [of r data]
  by (auto simp: bytes_only_def) (simp add: holds_def)

interpretation rle: stream_codec rle_sync "\<lambda>_. True" "\<lambda>e x. bytes_only (Encode e x)" Decode "\<lambda>x. x"
proof
  fix e d :: rle_data and x :: "uint8 list"
  assume "rle_sync e d"
  then have "rle_ok e" "d = e" by (simp_all add: rle_sync_def)
  then show "\<exists>e' b d'. bytes_only (Encode e x) = Inr (e', b) \<and> Decode d b = Inr (d', x) \<and> rle_sync e' d'"
    using Encode_Decode [of e x] by (auto simp: rle_sync_def)
qed

section \<open>Wider elements\<close>

lemma byte_step:
  fixes u :: uint64
  assumes "j < 8"
  shows "or (push_bit 8 (drop_bit (8 * Suc j) u)) (ucast (ucast (drop_bit (8 * j) u) :: uint8)) =
    drop_bit (8 * j) u"
  by (rule bit_word_eqI) (use assms in \<open>auto simp: bit_simps\<close>)

lemma fold_bytes:
  fixes u :: uint64
  assumes "n \<le> 8" and "\<And>j. j < n \<Longrightarrow> g j = ucast (drop_bit (8 * j) u)"
  shows "fold (\<lambda>j u. or (push_bit 8 u) (ucast (g j :: uint8))) (rev [0..<n]) (drop_bit (8 * n) u) = u"
  using assms
proof (induction n)
  case (Suc n)
  have "or (push_bit 8 (drop_bit (8 * Suc n) u)) (ucast (g n)) = drop_bit (8 * n) u"
    using Suc.prems byte_step [of n u] by simp
  then show ?case using Suc by simp
qed simp

lemma length_byte_planes: "length (byte_planes data) = 8 * length data"
  by (simp add: byte_planes_def length_concat comp_def numeral_nat)

lemma nth_blocks:
  "(\<And>k. length (g k) = m) \<Longrightarrow> j < n \<Longrightarrow> i < m \<Longrightarrow> concat (map g [0..<n]) ! (i + j * m) = g j ! i"
proof (induction n)
  case (Suc n)
  have len: "length (concat (map g [0..<n])) = n * m"
    using Suc.prems(1) by (simp add: length_concat comp_def sum_list_triv)
  show ?case
  proof (cases "j = n")
    case True
    then show ?thesis using len Suc.prems by (simp add: nth_append)
  next
    case False
    then have "j < n" using Suc.prems by simp
    then have "i + j * m < n * m"
      using Suc.prems(3) mult_le_mono1 [of "Suc j" n m] by simp
    then show ?thesis using Suc \<open>j < n\<close> len by (simp add: nth_append)
  qed
qed simp

lemma from_planes_byte_planes:
  assumes "i < length data"
  shows "from_planes (length data) (byte_planes data) i = data ! i"
proof -
  have "byte_planes data ! (i + j * length data) = ucast (drop_bit (8 * j) (data ! i))" if "j < 8" for j
    unfolding byte_planes_def using assms that by (subst nth_blocks) auto
  moreover have "drop_bit (8 * 8) (data ! i) = 0" by (rule bit_word_eqI) (simp add: bit_simps)
  ultimately show ?thesis
    using fold_bytes [of 8 "\<lambda>j. byte_planes data ! (i + j * length data)" "data ! i"]
    unfolding from_planes_def by simp
qed

definition clamp8 :: "uint16 \<Rightarrow> uint8" where
  "clamp8 ui = (if 0xff < ui then 0xff else ucast ui)"

lemma Encode16_Decode:
  assumes "rle_ok r"
  shows "\<exists>bs ch. Encode16 r data = Inr (holds r (map clamp8 data), bs, ch) \<and>
    (m_use_diff r \<longrightarrow> (ch \<longleftrightarrow> map clamp8 data \<noteq> m_buff r)) \<and>
    DecodeParts r bs = Inr (holds r (map clamp8 data), map (ucast \<circ> clamp8) data)"
proof -
  have e: "Encode16 r data = Encode r (map clamp8 data)" by (simp add: Encode16_def clamp8_def [abs_def])
  obtain bs where bs: "Encode r (map clamp8 data) = Inr (holds r (map clamp8 data), bs,
      if m_use_diff r then map clamp8 data \<noteq> m_buff r else map clamp8 data \<noteq> [] \<or> m_buff r \<noteq> [])"
    and x: "expand bs = diff_to r (map clamp8 data)"
    using Encode_holds [OF assms] by blast
  have d: "Decode r bs = Inr (holds r (map clamp8 data), map clamp8 data)"
    using Decode_expand [OF assms, of bs] by (simp add: x combine_diff) (simp add: holds_def)
  have "map (\<lambda>i. ucast (map clamp8 data ! i)) [0..<length data] = map (ucast \<circ> clamp8) data"
    by (auto intro: nth_equalityI)
  then have "DecodeParts r bs = Inr (holds r (map clamp8 data), map (ucast \<circ> clamp8) data)"
    using d by (simp add: DecodeParts_def) (simp add: holds_def)
  then show ?thesis using e bs by auto
qed

lemma Encode64_Decode:
  assumes "rle_ok r"
  shows "\<exists>bs ch. Encode64 r data = Inr (holds r (byte_planes data), bs, ch) \<and>
    (m_use_diff r \<longrightarrow> (ch \<longleftrightarrow> byte_planes data \<noteq> m_buff r)) \<and>
    Decode64 r bs = Inr (holds r (byte_planes data), data)"
proof -
  have "byte_planes [] = []" using length_byte_planes [of "[]"] by simp
  then have e: "Encode64 r data = Encode r (byte_planes data)" by (simp add: Encode64_def)
  obtain bs where bs: "Encode r (byte_planes data) = Inr (holds r (byte_planes data), bs,
      if m_use_diff r then byte_planes data \<noteq> m_buff r else byte_planes data \<noteq> [] \<or> m_buff r \<noteq> [])"
    and x: "expand bs = diff_to r (byte_planes data)"
    using Encode_holds [OF assms] by blast
  have d: "Decode r bs = Inr (holds r (byte_planes data), byte_planes data)"
    using Decode_expand [OF assms, of bs] by (simp add: x combine_diff) (simp add: holds_def)
  have n: "m_len (holds r (byte_planes data)) div 8 = length data"
    by (simp add: holds_def length_byte_planes)
  have "map (from_planes (length data) (byte_planes data)) [0..<length data] = data"
    by (auto intro: nth_equalityI simp: from_planes_byte_planes)
  then have "Decode64 r bs = Inr (holds r (byte_planes data), data)"
    using d n by (simp add: Decode64_def Let_def)
  then show ?thesis using e bs by auto
qed

lemma byte_planes_inj: "byte_planes xs = byte_planes ys \<longleftrightarrow> xs = ys"
proof
  assume eq: "byte_planes xs = byte_planes ys"
  then have len: "length xs = length ys"
    using length_byte_planes [of xs] length_byte_planes [of ys] by simp
  then show "xs = ys"
    using from_planes_byte_planes [of _ xs] from_planes_byte_planes [of _ ys] eq
    by (intro nth_equalityI) metis+
qed simp

interpretation rle16: stream_codec rle_sync "\<lambda>_. True" "\<lambda>e x. bytes_only (Encode16 e x)" DecodeParts
  "map (ucast \<circ> clamp8)"
proof
  fix e d :: rle_data and x :: "uint16 list"
  assume "rle_sync e d"
  then have "rle_ok e" "d = e" by (simp_all add: rle_sync_def)
  then show "\<exists>e' b d'. bytes_only (Encode16 e x) = Inr (e', b) \<and>
      DecodeParts d b = Inr (d', map (ucast \<circ> clamp8) x) \<and> rle_sync e' d'"
    using Encode16_Decode [of e x] by (auto simp: rle_sync_def bytes_only_def)
qed

interpretation rle64: stream_codec rle_sync "\<lambda>_. True" "\<lambda>e x. bytes_only (Encode64 e x)" Decode64 "\<lambda>x. x"
proof
  fix e d :: rle_data and x :: "uint64 list"
  assume "rle_sync e d"
  then have "rle_ok e" "d = e" by (simp_all add: rle_sync_def)
  then show "\<exists>e' b d'. bytes_only (Encode64 e x) = Inr (e', b) \<and> Decode64 d b = Inr (d', x) \<and> rle_sync e' d'"
    using Encode64_Decode [of e x] by (auto simp: rle_sync_def bytes_only_def)
qed

lemma rle_ok_setup: "rle_ok (rle_setup n d None)"
  by (simp add: rle_ok_def rle_setup_def)

section \<open>Properties\<close>

text \<open>
  C26. A connection that keeps one \<open>RLE_Data\<close> on each side, both created alike: whatever byte blocks
  (of any lengths, growing and shrinking) are encoded one after the other, no call leaves a buffer
  and the decoder returns exactly these blocks; with and without differential encoding.
\<close>

theorem rle_stream_roundtrip:
  "\<exists>e bs. enc_stream (\<lambda>e x. bytes_only (Encode e x)) (rle_setup n use_diff None) blocks = Inr (e, bs) \<and>
     dec_stream Decode (rle_setup n use_diff None) bs = Inr (e, blocks)"
  using rle.stream [of "rle_setup n use_diff None" "rle_setup n use_diff None" blocks]
  by (auto simp: rle_sync_def rle_ok_setup)

text \<open>
  The same for lists of \<open>uint64\<close> (gap lists and requested blocks), which travel as byte planes, on
  any state both sides share: every list arrives unchanged.
\<close>

theorem rle64_stream_roundtrip:
  assumes "rle_ok r"
  shows "\<exists>e bs. enc_stream (\<lambda>e x. bytes_only (Encode64 e x)) r vals = Inr (e, bs) \<and>
     dec_stream Decode64 r bs = Inr (e, vals)"
  using rle64.stream [of r r vals] assms by (auto simp: rle_sync_def)

theorem rle64_stream_roundtrip_witness:
  "\<exists>e bs. enc_stream (\<lambda>e x. bytes_only (Encode64 e x)) (rle_setup 3 True None) [[258, 7], [], [9]] =
      Inr (e, bs) \<and>
    dec_stream Decode64 (rle_setup 3 True None) bs = Inr (e, [[258, 7], [], [9]])"
  using rle64_stream_roundtrip [OF rle_ok_setup [of 3 True], of "[[258, 7], [], [9]]"] .

text \<open>
  C27. \<open>Encode\<close> on a consistent state never writes outside the buffer it allocates: the result has at
  most one and a half times as many bytes as the input. In differential mode \<open>changed\<close> tells exactly
  whether the data differ from what was encoded before, so a message that is not sent is not missed.
\<close>

theorem Encode_contract:
  assumes "rle_ok r"
  shows "\<exists>r' bs changed. Encode r data = Inr (r', bs, changed) \<and> 2 * length bs \<le> 3 * length data \<and>
    rle_ok r' \<and> m_buff r' = data \<and> m_use_diff r' = m_use_diff r \<and>
    (m_use_diff r \<longrightarrow> (changed \<longleftrightarrow> data \<noteq> m_buff r)) \<and>
    (\<not> m_use_diff r \<longrightarrow> (changed \<longleftrightarrow> data \<noteq> [] \<or> m_buff r \<noteq> []))"
proof -
  obtain bs where "Encode r data = Inr (holds r data, bs,
      if m_use_diff r then data \<noteq> m_buff r else data \<noteq> [] \<or> m_buff r \<noteq> [])"
    and "2 * length bs \<le> 3 * length data"
    using Encode_holds [OF assms, of data] by blast
  then show ?thesis
    by (cases "m_use_diff r") (auto simp: holds_def rle_ok_def)
qed

theorem Encode_contract_witness:
  "\<exists>r' bs. Encode (rle_setup 2 True None) [0, 0] = Inr (r', bs, False) \<and> length bs \<le> 3"
proof -
  obtain r' bs ch where "Encode (rle_setup 2 True None) [0, 0] = Inr (r', bs, ch)"
    and "2 * length bs \<le> 3 * length [0 :: uint8, 0]"
    and "m_use_diff (rle_setup 2 True None) \<longrightarrow>
      (ch \<longleftrightarrow> [0, 0] \<noteq> m_buff (rle_setup 2 True None))"
    using Encode_contract [OF rle_ok_setup [of 2 True], of "[0, 0]"] by blast
  then show ?thesis by (simp add: rle_setup_def numeral_2_eq_2)
qed

text \<open>
  \<open>Decode\<close> of arbitrary bytes, well-formed or not, on a consistent state: it ends after at most two
  passes without touching memory outside its buffers, and leaves a consistent state whose size is the
  length of what the bytes expand to.
\<close>

theorem Decode_total:
  assumes "rle_ok r"
  shows "\<exists>r' out. Decode r bs = Inr (r', out) \<and> rle_ok r' \<and> out = m_buff r' \<and>
    length out = length (expand bs) \<and> m_use_diff r' = m_use_diff r \<and>
    (\<forall>k < length out. out ! k =
      (if m_use_diff r then xor (if k < m_len r then m_buff r ! k else 0) (expand bs ! k)
       else expand bs ! k))"
proof -
  have "fit n xs ! k = (if k < length xs then xs ! k else 0)" if "k < n" for n k xs
    using that by (simp add: fit_def nth_append)
  then show ?thesis
    using Decode_expand [OF assms, of bs] assms by (auto simp: combine_def Let_def rle_ok_def)
qed

theorem Decode_total_witness:
  "\<exists>r'. Decode (rle_setup 1 True None) [7, 7] = Inr (r', [7, 7])"
proof -
  obtain r' out where 1: "Decode (rle_setup 1 True None) [7, 7] = Inr (r', out)" "length out = 2"
    and 2: "\<forall>k < length out. out ! k =
      (if m_use_diff (rle_setup 1 True None)
       then xor (if k < m_len (rle_setup 1 True None) then m_buff (rle_setup 1 True None) ! k else 0)
         (expand [7, 7] ! k)
       else expand [7, 7] ! k)"
    using Decode_total [OF rle_ok_setup [of 1 True], of "[7, 7]"] by auto
  have "out ! 0 = 7" "out ! 1 = 7"
    using 1(2) 2 [rule_format, of 0] 2 [rule_format, of 1] by (simp_all add: rle_setup_def)
  then have "out = [7, 7]" using 1(2) by (intro nth_equalityI) (auto simp: less_2_cases_iff)
  then show ?thesis using 1(1) by simp
qed

end
