(* ===== verification/EC_Number.thy ===== *)
theory EC_Number
  imports Amule_Prelude
begin

text \<open>
  How \<open>CECSocket\<close> (\<open>src/src/libs/ec/cpp/ECSocket.cpp\<close>) puts numbers on an external connection: big
  endian at their width, or, when \<open>EC_FLAG_UTF8_NUMBERS\<close> is set, in the variable-length UTF-8 scheme
  of up to six bytes. The bytes still to be read are a list; \<open>ReadBuffer\<close> fails when there are too
  few. The zlib layer below (\<open>EC_FLAG_ZLIB\<close>) transports these bytes and is not modelled.
\<close>

section \<open>UTF-8 numbers\<close>

record utf8_row =
  cmask :: uint32
  cval :: uint32
  shift :: nat
  lmask :: uint32
  lval :: uint32

definition utf8_table :: "utf8_row list" where
  "utf8_table =
    [\<lparr>cmask = 0x80, cval = 0x00, shift = 0 * 6, lmask = 0x7F, lval = 0\<rparr>,
     \<lparr>cmask = 0xE0, cval = 0xC0, shift = 1 * 6, lmask = 0x7FF, lval = 0x80\<rparr>,
     \<lparr>cmask = 0xF0, cval = 0xE0, shift = 2 * 6, lmask = 0xFFFF, lval = 0x800\<rparr>,
     \<lparr>cmask = 0xF8, cval = 0xF0, shift = 3 * 6, lmask = 0x1FFFFF, lval = 0x10000\<rparr>,
     \<lparr>cmask = 0xFC, cval = 0xF8, shift = 4 * 6, lmask = 0x3FFFFFF, lval = 0x200000\<rparr>,
     \<lparr>cmask = 0xFE, cval = 0xFC, shift = 5 * 6, lmask = 0x7FFFFFFF, lval = 0x4000000\<rparr>]"

text \<open>
  The loop over the table: \<open>s\<close> are the bytes from the current position on, \<open>l\<close> the value so far. A
  read behind the end of \<open>s\<close> is guarded by \<open>n\<close>, the number of bytes that may be read.
\<close>

fun mbtowc_loop ::
  "utf8_row list \<Rightarrow> nat \<Rightarrow> nat \<Rightarrow> uint32 \<Rightarrow> uint32 \<Rightarrow> uint8 list \<Rightarrow> (uint32 \<times> nat) option"
where
  "mbtowc_loop [] n nc c0 l s = None"
| "mbtowc_loop (t # ts) n nc c0 l s =
     (let nc = nc + 1
      in if and c0 (cmask t) = cval t then
           let l = and l (lmask t) in if l < lval t then None else Some (l, nc)
         else if n \<le> nc then None
         else
           let s = tl s; c = and (xor (ucast (hd s)) 0x80) 0xFF
           in if and c 0xC0 \<noteq> 0 then None
              else mbtowc_loop ts n nc c0 (or (push_bit 6 l) c) s)"

definition utf8_mbtowc :: "uint8 list \<Rightarrow> nat \<Rightarrow> (uint32 \<times> nat) option" where
  "utf8_mbtowc s n = mbtowc_loop utf8_table n 0 (ucast (hd s)) (ucast (hd s)) s"

fun wctomb_tail :: "nat \<Rightarrow> uint32 \<Rightarrow> uint8 list" where
  "wctomb_tail c l =
     (if 6 \<le> c then ucast (or 0x80 (and (drop_bit (c - 6) l) 0x3F)) # wctomb_tail (c - 6) l else [])"

fun wctomb_loop :: "utf8_row list \<Rightarrow> nat \<Rightarrow> uint32 \<Rightarrow> uint8 list option" where
  "wctomb_loop [] maxlen l = None"
| "wctomb_loop (t # ts) 0 l = None"
| "wctomb_loop (t # ts) (Suc maxlen) l =
     (if l \<le> lmask t then
        Some (ucast (or (cval t) (drop_bit (shift t) l)) # wctomb_tail (shift t) l)
      else wctomb_loop ts maxlen l)"

definition utf8_wctomb :: "uint32 \<Rightarrow> nat \<Rightarrow> uint8 list option" where
  "utf8_wctomb wc maxlen = wctomb_loop utf8_table maxlen wc"

fun mb_remain_loop :: "utf8_row list \<Rightarrow> nat \<Rightarrow> uint8 \<Rightarrow> nat" where
  "mb_remain_loop [] i c = i"
| "mb_remain_loop (t # ts) i c = (if and (ucast c) (cmask t) = cval t then i else mb_remain_loop ts (i + 1) c)"

definition utf8_mb_remain :: "uint8 \<Rightarrow> nat" where
  "utf8_mb_remain c = mb_remain_loop (take 5 utf8_table) 0 c"

section \<open>Numbers on the wire\<close>

type_synonym bytes = "uint8 list"

definition ReadBuffer :: "nat \<Rightarrow> bytes \<Rightarrow> (bytes \<times> bytes) option" where
  "ReadBuffer len buf = (if length buf < len then None else Some (take len buf, drop len buf))"

fun be_bytes :: "nat \<Rightarrow> uint32 \<Rightarrow> bytes" where
  "be_bytes 0 x = []"
| "be_bytes (Suc n) x = ucast (drop_bit (8 * n) x) # be_bytes n x"

definition of_be :: "bytes \<Rightarrow> uint32" where
  "of_be bs = fold (\<lambda>b x. or (push_bit 8 x) (ucast b)) bs 0"

text \<open>\<open>len\<close> is the size of the variable: 1, 2 or 4.\<close>

definition WriteNumber :: "bool \<Rightarrow> nat \<Rightarrow> uint32 \<Rightarrow> bytes option" where
  "WriteNumber utf8 len x =
     (if utf8 then if len \<in> {1, 2, 4} then utf8_wctomb (take_bit (8 * len) x) 6 else None
      else Some (be_bytes len x))"

definition ReadNumber :: "bool \<Rightarrow> nat \<Rightarrow> bytes \<Rightarrow> (uint32 \<times> bytes) option" where
  "ReadNumber utf8 len buf =
     (if utf8 then
        Option.bind (ReadBuffer 1 buf) (\<lambda>(mb0, buf).
          let remains = utf8_mb_remain (hd mb0)
          in Option.bind (if remains \<noteq> 0 then ReadBuffer remains buf else Some ([], buf)) (\<lambda>(mb1, buf).
               Option.bind (utf8_mbtowc (mb0 @ mb1) 6) (\<lambda>(wc, nc). Some (take_bit (8 * len) wc, buf))))
      else
        Option.bind (ReadBuffer len buf) (\<lambda>(bs, buf). Some (of_be bs, buf)))"

section \<open>The UTF-8 scheme is a bijection below 2^31\<close>

lemma masks: "(0x3F::uint32) = mask 6" "(0x7F::uint32) = mask 7" "(0x7FF::uint32) = mask 11" "(0xFFFF::uint32) = mask 16"
  "(0x1FFFFF::uint32) = mask 21" "(0x3FFFFFF::uint32) = mask 26" "(0x7FFFFFFF::uint32) = mask 31" "(0xFF :: uint32) = mask 8"
  "(0xC0::uint32) = push_bit 6 (mask 2)" "(0xE0::uint32) = push_bit 5 (mask 3)"
  "(0xF0::uint32) = push_bit 4 (mask 4)" "(0xF8::uint32) = push_bit 3 (mask 5)" "(0xFC::uint32) = push_bit 2 (mask 6)"
  "(0xFE::uint32) = push_bit 1 (mask 7)"
  by (simp_all add: mask_eq_exp_minus_1)

lemma bit_0x80: "bit (0x80 :: int) n \<longleftrightarrow> n = 7"
  using bit_exp_iff [where 'a = int, of 7 n] by auto

lemma high_bits:
  fixes l :: uint32
  assumes "l \<le> mask n" and "bit l m"
  shows "m < n"
proof -
  have "uint l \<le> mask (min LENGTH(32) n)" using assms(1) by (simp add: word_le_def uint_mask_eq)
  also have "\<dots> < 2 ^ n" by (simp add: mask_eq_exp_minus_1 less_le_trans [OF _ power_increasing, of _ 2 "min 32 n" n])
  finally have "and l (mask n) = l" by (simp add: mask_eq_iff)
  then show ?thesis using assms(2) by (metis bit_and_iff bit_mask_iff)
qed

lemma cont:
  fixes l :: uint32
  shows "and (xor (ucast (ucast (or 0x80 (and l 0x3F)) :: uint8)) 0x80) 0xFF = and l 0x3F"
    and "and (and l 0x3F) (0xC0 :: uint32) = 0"
  unfolding masks 
  by (rule bit_word_eqI, auto simp: bit_simps bit_0x80 simp del: bit_numeral_iff)+

lemma word_neqI: "bit a i \<noteq> bit b i \<Longrightarrow> a \<noteq> (b :: uint32)"
  by auto

lemma le_maskI: "(\<And>m. bit l m \<Longrightarrow> m < n) \<Longrightarrow> l \<le> mask n" for l :: uint32
proof -
  assume "\<And>m. bit l m \<Longrightarrow> m < n"
  then have "l = and l (mask n)" by (intro bit_word_eqI) (auto simp: bit_simps)
  then show "l \<le> mask n" by (metis word_and_le1)
qed

definition row_width :: "nat \<Rightarrow> nat" where
  "row_width k = (if k = 0 then 7 else 5 * k + 6)"

definition row_of :: "nat \<Rightarrow> utf8_row" where
  "row_of k =
     \<lparr>cmask = (if k = 0 then 0x80 else push_bit (6 - k) (mask (k + 2))),
      cval = (if k = 0 then 0 else push_bit (7 - k) (mask (k + 1))),
      shift = 6 * k, lmask = mask (row_width k),
      lval = (if k = 0 then 0 else mask (row_width (k - 1)) + 1)\<rparr>"

lemma utf8_table_rows: "utf8_table = map row_of [0..<6]"
  unfolding utf8_table_def row_of_def row_width_def by code_simp

lemma head:
  fixes d :: uint32
  assumes "d \<le> mask n" and "n \<le> 5"
  shows "ucast (ucast (or (push_bit (Suc n) (mask (7 - n))) d) :: uint8) = or (push_bit (Suc n) (mask (7 - n))) d"
    and "and (or (push_bit (Suc n) (mask (7 - n))) d) (push_bit n (mask (8 - n))) = push_bit (Suc n) (mask (7 - n))"
    and "and (or (push_bit (Suc n) (mask (7 - n))) d) 0x80 \<noteq> 0"
    and "n < m \<Longrightarrow> m \<le> 5 \<Longrightarrow> and (or (push_bit (Suc n) (mask (7 - n))) d) (push_bit m (mask (8 - m))) \<noteq> push_bit (Suc m) (mask (7 - m))"
proof -
  show "ucast (ucast (or (push_bit (Suc n) (mask (7 - n))) d) :: uint8) = or (push_bit (Suc n) (mask (7 - n))) d"
    using assms by (intro bit_word_eqI) (auto simp: bit_simps simp del: push_bit_Suc dest: high_bits)
  show "and (or (push_bit (Suc n) (mask (7 - n))) d) (push_bit n (mask (8 - n))) = push_bit (Suc n) (mask (7 - n))"
    using assms by (intro bit_word_eqI) (auto simp: bit_simps simp del: push_bit_Suc dest: high_bits)
  show "and (or (push_bit (Suc n) (mask (7 - n))) d) 0x80 \<noteq> 0"
    by (rule word_neqI [of _ 7]) (use assms in \<open>auto simp: bit_simps bit_0x80 simp del: push_bit_Suc bit_numeral_iff\<close>)
  show "and (or (push_bit (Suc n) (mask (7 - n))) d) (push_bit m (mask (8 - m))) \<noteq> push_bit (Suc m) (mask (7 - m))"
     if "n < m" "m \<le> 5"
    by (rule word_neqI [of _ m]) (use that assms in \<open>auto simp: bit_simps simp del: push_bit_Suc dest: high_bits\<close>)
qed

definition lead :: "nat \<Rightarrow> uint32 \<Rightarrow> uint32" where
  "lead k l = or (cval (row_of k)) (drop_bit (6 * k) l)"

lemma lead_row:
  assumes "l \<le> mask (row_width k)" and "k < 6"
  shows "ucast (ucast (lead k l) :: uint8) = lead k l"
    and "and (lead k l) (cmask (row_of k)) = cval (row_of k)"
    and "t < k \<Longrightarrow> and (lead k l) (cmask (row_of t)) \<noteq> cval (row_of t)"
proof -
  show "ucast (ucast (lead k l) :: uint8) = lead k l"
    and "and (lead k l) (cmask (row_of k)) = cval (row_of k)"
    and "t < k \<Longrightarrow> and (lead k l) (cmask (row_of t)) \<noteq> cval (row_of t)"
  proof -
    consider "k = 0" | "0 < k" by linarith
    then have all: "ucast (ucast (lead k l) :: uint8) = lead k l \<and>
        and (lead k l) (cmask (row_of k)) = cval (row_of k) \<and>
        (t < k \<longrightarrow> and (lead k l) (cmask (row_of t)) \<noteq> cval (row_of t))"
    proof cases
      case 1
      have "ucast (ucast l :: uint8) = l" and "and l 0x80 = 0"
        using assms(1) 1
        by (intro bit_word_eqI; auto simp: bit_simps bit_0x80 row_width_def simp del: bit_numeral_iff dest: high_bits)+
      then show ?thesis using 1 by (simp add: lead_def row_of_def)
    next
      case 2
      have d: "drop_bit (6 * k) l \<le> mask (6 - k)"
        using assms 2 by (intro le_maskI) (auto simp: bit_simps row_width_def dest: high_bits)
      have n: "7 - (6 - k) = k + 1" "8 - (6 - k) = k + 2" "Suc (6 - k) = 7 - k" using assms(2) by auto
      have lead: "lead k l = or (push_bit (7 - k) (mask (k + 1))) (drop_bit (6 * k) l)"
        using 2 by (simp add: lead_def row_of_def)
      note h = head [OF d, unfolded n, folded lead]
      have "and (lead k l) (cmask (row_of t)) \<noteq> cval (row_of t)" if "t < k"
      proof (cases "t = 0")
        case True
        then show ?thesis using h(3) 2 by (simp add: row_of_def)
      next
        case False
        have m: "7 - (6 - t) = t + 1" "8 - (6 - t) = t + 2" "Suc (6 - t) = 7 - t"
          using that assms(2) by auto
        show ?thesis using h(4) [of "6 - t", unfolded m] that False assms(2) by (simp add: row_of_def)
      qed
      then show ?thesis using h(1,2) 2 by (simp add: row_of_def)
    qed
    then show "ucast (ucast (lead k l) :: uint8) = lead k l"
      and "and (lead k l) (cmask (row_of k)) = cval (row_of k)"
      and "t < k \<Longrightarrow> and (lead k l) (cmask (row_of t)) \<noteq> cval (row_of t)" by blast+
  qed
qed

lemma wctomb_row:
  assumes "l \<le> mask (row_width k)" and "k < 6" and "k = 0 \<or> mask (row_width (k - 1)) < l"
  shows "utf8_wctomb l 6 = Some (ucast (lead k l) # wctomb_tail (6 * k) l)"
proof -
  have skip: "wctomb_loop (map row_of [t..<6]) (6 - t) l = wctomb_loop (map row_of [k..<6]) (6 - k) l" if "t \<le> k" for t
    using that
  proof (induction rule: inc_induct)
    case (step n)
    have "mask (row_width n) \<le> (mask (row_width (k - 1)) :: uint32)"
      using step.hyps by (intro le_maskI) (auto simp: row_width_def bit_simps split: if_splits)
    then have "\<not> l \<le> lmask (row_of n)" using step.hyps assms(3) by (simp add: row_of_def)
    then show ?case using step assms(2) by (simp add: upt_conv_Cons Suc_diff_Suc [symmetric] )
  qed simp
  show ?thesis using skip [of 0] assms(1,2)
    by (simp add: utf8_wctomb_def utf8_table_rows upt_conv_Cons Suc_diff_Suc [symmetric] row_of_def lead_def del: wctomb_tail.simps)
qed

lemma mbtowc_row:
  assumes "l \<le> mask (row_width k)" and "k < 6" and "k = 0 \<or> mask (row_width (k - 1)) < l"
    and "t \<le> k"
  shows "mbtowc_loop (map row_of [t..<6]) 6 t (lead k l) (or (push_bit (6 * t) (cval (row_of k))) (drop_bit (6 * (k - t)) l))
      (b # wctomb_tail (6 * (k - t)) l @ junk) = Some (l, Suc k)"
  using assms(4)
proof (induction arbitrary: b rule: inc_induct)
  case base
  have "and (or (push_bit (6 * k) (cval (row_of k))) l) (mask (row_width k)) = l"
    using assms(1) by (intro bit_word_eqI) (auto simp: row_of_def row_width_def bit_simps dest: high_bits split: if_splits)
  moreover have "\<not> l < lval (row_of k)" 
    using assms(3) inc_le [of "mask (row_width (k - 1))" l] by (auto simp: row_of_def)
  ultimately show ?case
    using assms(2) lead_row(2) [OF assms(1,2)] by (simp add: upt_conv_Cons Let_def) (simp add: row_of_def)
next
  case (step t)
  obtain j where j: "k - t = Suc j" "k - Suc t = j" using step by (metis Suc_diff_Suc)
  let ?b = "ucast (or 0x80 (and (drop_bit (6 * j) l) 0x3F)) :: uint8"
  have tail: "wctomb_tail (6 * Suc j) l = ?b # wctomb_tail (6 * j) l" by (subst wctomb_tail.simps) simp
  have acc: "or (push_bit 6 (or (push_bit (6 * t) (cval (row_of k))) (drop_bit (6 * Suc j) l))) (and (drop_bit (6 * j) l) 0x3F)
      = or (push_bit (6 * Suc t) (cval (row_of k))) (drop_bit (6 * j) l)"
    unfolding masks by (intro bit_word_eqI) (auto simp: bit_simps)
  show ?case
    using step.hyps assms(2) lead_row(3) [OF assms(1,2), of t] step.IH [of ?b] acc
    unfolding j tail by (simp add: upt_conv_Cons Let_def cont del: wctomb_tail.simps)
qed

lemma choose_row:
  fixes x :: uint32
  assumes "x \<le> mask 31"
  shows "\<exists>k < 6. x \<le> mask (row_width k) \<and> (k = 0 \<or> mask (row_width (k - 1)) < x)"
proof -
  have "x \<le> mask (row_width 5)" using assms by (simp add: row_width_def)
  then obtain k where k: "k \<le> 5" "x \<le> mask (row_width k)" "\<forall>i < k. \<not> x \<le> mask (row_width i)"
    using ex_least_nat_le [of "\<lambda>i. x \<le> mask (row_width i)" 5] by blast
  have "k = 0 \<or> \<not> x \<le> mask (row_width (k - 1))" using k(3) by (cases k) auto
  then have "k = 0 \<or> mask (row_width (k - 1)) < x" by (simp add: linorder_not_le)
  then show ?thesis using k(1,2) by (intro exI [of _ k]) auto
qed

lemma length_wctomb_tail: "length (wctomb_tail (6 * k) l) = k"
proof (induction k)
  case (Suc k)
  then show ?case by (subst wctomb_tail.simps) (simp del: wctomb_tail.simps)
qed simp

lemma mb_remain_lead:
  assumes "l \<le> mask (row_width k)" and "k < 6"
  shows "utf8_mb_remain (ucast (lead k l)) = k"
proof -
  have "mb_remain_loop (map row_of [t..<5]) t (ucast (lead k l)) = k" if "t \<le> k" for t
    using that
  proof (induction rule: inc_induct)
    case base
    then show ?case
      using assms(2) lead_row(1,2) [OF assms] by (cases "k = 5") (auto simp: upt_conv_Cons)
  next
    case (step t)
    then show ?case
      using assms(2) lead_row(1) [OF assms] lead_row(3) [OF assms, of t] by (simp add: upt_conv_Cons)
  qed
  from this [of 0] show ?thesis
    by (simp add: utf8_mb_remain_def utf8_table_rows take_map)
qed

lemma utf8_number:
  assumes "x \<le> mask 31"
  shows "\<exists>b bs. utf8_wctomb x 6 = Some (b # bs) \<and> utf8_mb_remain b = length bs \<and> length bs < 6 \<and>
    (\<forall>junk. utf8_mbtowc (b # bs @ junk) 6 = Some (x, Suc (length bs)))"
proof -
  obtain k where k: "k < 6" "x \<le> mask (row_width k)" "k = 0 \<or> mask (row_width (k - 1)) < x"
    using choose_row [OF assms] by blast
  let ?bs = "wctomb_tail (6 * k) x"
  have "utf8_mbtowc (ucast (lead k x) # ?bs @ junk) 6 = Some (x, Suc k)" for junk
    using mbtowc_row [OF k(2,1,3), of 0 "ucast (lead k x)" junk] lead_row(1) [OF k(2,1)]
    unfolding utf8_mbtowc_def utf8_table_rows by (simp add: lead_def del: wctomb_tail.simps)
  then show ?thesis
    using wctomb_row [OF k(2,1,3)] mb_remain_lead [OF k(2,1)] length_wctomb_tail [of k x] k(1) by auto
qed

lemma utf8_number_too_big: "\<not> x \<le> mask 31 \<Longrightarrow> utf8_wctomb x 6 = None"
proof -
  assume "\<not> x \<le> mask 31"
  moreover have "mask (row_width t) \<le> (mask 31 :: uint32)" if "t < 6" for t
    using that by (intro le_maskI) (auto simp: row_width_def bit_simps split: if_splits)
  ultimately have "\<not> x \<le> lmask (row_of t)" if "t < 6" for t
    using that by (fastforce simp: row_of_def)
  then show ?thesis
    by (simp add: utf8_wctomb_def utf8_table_rows upt_conv_Cons numeral_eq_Suc)
qed

lemma be_step:
  fixes x :: uint32
  shows "or (push_bit 8 (drop_bit (8 * Suc j) x)) (ucast (ucast (drop_bit (8 * j) x) :: uint8)) = drop_bit (8 * j) x"
  by (rule bit_word_eqI) (auto simp: bit_simps)

lemma of_be_bytes: "take_bit (8 * n) x = x \<Longrightarrow> of_be (be_bytes n x) = x"
proof -
  have "fold (\<lambda>b x. or (push_bit 8 x) (ucast b)) (be_bytes n x) (drop_bit (8 * n) x) = x"
  proof (induction n)
    case (Suc n)
    have "fold (\<lambda>b x. or (push_bit 8 x) (ucast b)) (be_bytes (Suc n) x) (drop_bit (8 * Suc n) x) =
      fold (\<lambda>b x. or (push_bit 8 x) (ucast b)) (be_bytes n x)
        (or (push_bit 8 (drop_bit (8 * Suc n) x)) (ucast (ucast (drop_bit (8 * n) x) :: uint8)))" by simp
    then show ?case using Suc unfolding be_step by simp
  qed simp
  moreover assume "take_bit (8 * n) x = x"
  then have "drop_bit (8 * n) x = 0" by (metis take_bit_eq_self_iff_drop_bit_eq_0)
  ultimately show ?thesis by (simp add: of_be_def)
qed

lemma length_be_bytes [simp]: "length (be_bytes n x) = n"
  by (induction n) auto

lemma number_roundtrip:
  assumes "len \<in> {1, 2, 4}" and "take_bit (8 * len) x = x"
  shows "WriteNumber utf8 len x = None \<longleftrightarrow> utf8 \<and> \<not> x \<le> mask 31"
    and "WriteNumber utf8 len x = Some bs \<Longrightarrow> ReadNumber utf8 len (bs @ rest) = Some (x, rest) \<and> bs \<noteq> []"
proof -
  show "WriteNumber utf8 len x = None \<longleftrightarrow> utf8 \<and> \<not> x \<le> mask 31"
    using assms utf8_number [of x] utf8_number_too_big [of x]
    by (cases "x \<le> mask 31") (auto simp: WriteNumber_def simp del: insert_iff)
  assume w: "WriteNumber utf8 len x = Some bs"
  show "ReadNumber utf8 len (bs @ rest) = Some (x, rest) \<and> bs \<noteq> []"
  proof (cases utf8)
    case True
    then have "utf8_wctomb x 6 = Some bs" using w assms by (simp add: WriteNumber_def)
    moreover from this have "x \<le> mask 31" using utf8_number_too_big by fastforce
    ultimately obtain b cs where bs: "bs = b # cs" and r: "utf8_mb_remain b = length cs"
      and m: "utf8_mbtowc (b # cs) 6 = Some (x, Suc (length cs))"
      using utf8_number [of x] by (metis append_Nil2 option.inject)
    then show ?thesis
      using True assms(2) by (cases "cs = []") (auto simp: ReadNumber_def ReadBuffer_def Let_def)
  next
    case False
    then show ?thesis
      using w assms of_be_bytes [OF assms(2)] length_be_bytes [of len x]
      by (cases bs) (auto simp: WriteNumber_def ReadNumber_def ReadBuffer_def)
  qed
qed

end
