(* ===== verification/EC_Tag.thy ===== *)
theory EC_Tag
  imports EC_Number
begin

text \<open>
  The tag trees of the external-connection protocol (\<open>src/src/libs/ec/cpp/ECTag.cpp\<close>, \<open>ECTag.h\<close>) and
  the packets made of them (\<open>ECPacket.cpp\<close>): construction, access, and the wire format of \<open>WriteTag\<close>
  and \<open>ReadFromSocket\<close>. \<open>m_dataLen\<close> is the length of \<open>m_tagData\<close>; a null pointer is the empty list.
  Access to data behind the end of \<open>m_tagData\<close> is the fault \<open>OutOfBounds\<close>. Strings are the UTF-8 bytes.
\<close>

section \<open>Tags\<close>

datatype ec_tag =
  ECTag (m_tagName: uint16) (m_dataType: uint8) (m_tagData: bytes) (m_tagList: "ec_tag list")

abbreviation EC_TAGTYPE_UNKNOWN :: uint8 where "EC_TAGTYPE_UNKNOWN \<equiv> 0"
abbreviation EC_TAGTYPE_CUSTOM :: uint8 where "EC_TAGTYPE_CUSTOM \<equiv> 1"
abbreviation EC_TAGTYPE_UINT8 :: uint8 where "EC_TAGTYPE_UINT8 \<equiv> 2"
abbreviation EC_TAGTYPE_UINT16 :: uint8 where "EC_TAGTYPE_UINT16 \<equiv> 3"
abbreviation EC_TAGTYPE_UINT32 :: uint8 where "EC_TAGTYPE_UINT32 \<equiv> 4"
abbreviation EC_TAGTYPE_UINT64 :: uint8 where "EC_TAGTYPE_UINT64 \<equiv> 5"
abbreviation EC_TAGTYPE_STRING :: uint8 where "EC_TAGTYPE_STRING \<equiv> 6"
abbreviation EC_TAGTYPE_IPV4 :: uint8 where "EC_TAGTYPE_IPV4 \<equiv> 8"
abbreviation EC_TAGTYPE_HASH16 :: uint8 where "EC_TAGTYPE_HASH16 \<equiv> 9"

definition null_tag :: ec_tag where
  "null_tag = ECTag 0 EC_TAGTYPE_UNKNOWN [] []"

definition custom_tag :: "uint16 \<Rightarrow> bytes \<Rightarrow> ec_tag" where
  "custom_tag name data = ECTag name EC_TAGTYPE_CUSTOM data []"

fun be_bytes64 :: "nat \<Rightarrow> uint64 \<Rightarrow> bytes" where
  "be_bytes64 0 x = []"
| "be_bytes64 (Suc n) x = ucast (drop_bit (8 * n) x) # be_bytes64 n x"

definition of_be64 :: "bytes \<Rightarrow> uint64" where
  "of_be64 bs = fold (\<lambda>b x. or (push_bit 8 x) (ucast b)) bs 0"

definition InitInt :: "uint16 \<Rightarrow> uint64 \<Rightarrow> ec_tag" where
  "InitInt name data =
     (let (m_dataType, m_dataLen) =
        (if data \<le> 0xFF then (EC_TAGTYPE_UINT8, 1)
         else if data \<le> 0xFFFF then (EC_TAGTYPE_UINT16, 2)
         else if data \<le> 0xFFFFFFFF then (EC_TAGTYPE_UINT32, 4)
         else (EC_TAGTYPE_UINT64, 8))
      in ECTag name m_dataType (be_bytes64 m_dataLen data) [])"

text \<open>\<open>ConstructStringTag\<close> copies up to the terminating zero byte and the zero byte.\<close>

definition ConstructStringTag :: "uint16 \<Rightarrow> bytes \<Rightarrow> ec_tag" where
  "ConstructStringTag name data =
     ECTag name EC_TAGTYPE_STRING (takeWhile (\<lambda>b. b \<noteq> 0) data @ [0]) []"

definition hash_tag :: "uint16 \<Rightarrow> bytes \<Rightarrow> ec_tag" where
  "hash_tag name hash = ECTag name EC_TAGTYPE_HASH16 (take 16 hash) []"

definition ipv4_tag :: "uint16 \<Rightarrow> bytes \<times> uint16 \<Rightarrow> ec_tag" where
  "ipv4_tag name p = ECTag name EC_TAGTYPE_IPV4 (take 4 (fst p) @ be_bytes 2 (ucast (snd p))) []"

definition AddTag :: "ec_tag \<Rightarrow> ec_tag \<Rightarrow> ec_tag" where
  "AddTag parent tag =
     ECTag (m_tagName parent) (m_dataType parent) (m_tagData parent) (m_tagList parent @ [tag])"

definition tag_eq :: "ec_tag \<Rightarrow> ec_tag \<Rightarrow> bool" where
  "tag_eq a b \<longleftrightarrow>
     m_dataType a = m_dataType b \<and> m_tagName a = m_tagName b \<and>
     length (m_tagData a) = length (m_tagData b) \<and>
     (m_tagData a = [] \<or> m_tagData a = m_tagData b) \<and> m_tagList a = m_tagList b"

section \<open>Access\<close>

definition GetTagByName :: "ec_tag \<Rightarrow> uint16 \<Rightarrow> ec_tag option" where
  "GetTagByName t name = find (\<lambda>c. m_tagName c = name) (m_tagList t)"

definition GetTagByNameSafe :: "ec_tag \<Rightarrow> uint16 \<Rightarrow> ec_tag" where
  "GetTagByNameSafe t name = (case GetTagByName t name of None \<Rightarrow> null_tag | Some c \<Rightarrow> c)"

definition GetFirstTagSafe :: "ec_tag \<Rightarrow> ec_tag" where
  "GetFirstTagSafe t = (case m_tagList t of [] \<Rightarrow> null_tag | c # _ \<Rightarrow> c)"

definition GetTagDataLen :: "ec_tag \<Rightarrow> uint16" where
  "GetTagDataLen t = of_nat (length (m_tagData t))"

definition peek :: "nat \<Rightarrow> bytes \<Rightarrow> fault + bytes" where
  "peek n data = (if n \<le> length data then Inr (take n data) else Inl OutOfBounds)"

definition GetInt :: "ec_tag \<Rightarrow> fault + uint64" where
  "GetInt t =
     (if m_tagData t = [] then Inr 0
      else if m_dataType t = EC_TAGTYPE_UINT8 then sum_bind (peek 1 (m_tagData t)) (\<lambda>bs. Inr (of_be64 bs))
      else if m_dataType t = EC_TAGTYPE_UINT16 then sum_bind (peek 2 (m_tagData t)) (\<lambda>bs. Inr (of_be64 bs))
      else if m_dataType t = EC_TAGTYPE_UINT32 then sum_bind (peek 4 (m_tagData t)) (\<lambda>bs. Inr (of_be64 bs))
      else if m_dataType t = EC_TAGTYPE_UINT64 then sum_bind (peek 8 (m_tagData t)) (\<lambda>bs. Inr (of_be64 bs))
      else Inr 0)"

definition GetStringDataSTL :: "ec_tag \<Rightarrow> fault + bytes" where
  "GetStringDataSTL t =
     (if m_dataType t \<noteq> EC_TAGTYPE_STRING then Inr []
      else if m_tagData t = [] then Inr []
      else if 0 \<in> set (m_tagData t) then Inr (takeWhile (\<lambda>b. b \<noteq> 0) (m_tagData t))
      else Inl OutOfBounds)"

text \<open>The hash of 16 zero bytes is the empty \<open>CMD4Hash\<close>.\<close>

definition GetMD4Data :: "ec_tag \<Rightarrow> fault + bytes" where
  "GetMD4Data t =
     (if m_dataType t \<noteq> EC_TAGTYPE_HASH16 \<or> m_tagData t = [] then Inr (replicate 16 0)
      else peek 16 (m_tagData t))"

definition GetIPv4Data :: "ec_tag \<Rightarrow> fault + bytes \<times> uint16" where
  "GetIPv4Data t =
     (if m_dataType t \<noteq> EC_TAGTYPE_IPV4 \<or> m_tagData t = [] then Inr (replicate 4 0, 0)
      else sum_bind (peek 6 (m_tagData t)) (\<lambda>bs. Inr (take 4 bs, ucast (of_be (drop 4 bs)))))"

text \<open>
  The overloads of \<open>AssignIfExist\<close> for the unsigned types: with a pointer (\<open>None\<close> is null) the value
  is returned, with a reference whether the tag exists. The second result is the target afterwards.
\<close>

definition AssignIfExist_ptr ::
  "ec_tag \<Rightarrow> uint16 \<Rightarrow> 'w::len word option \<Rightarrow> fault + 'w word \<times> 'w word option"
where
  "AssignIfExist_ptr t name target =
     (case GetTagByName t name of
        None \<Rightarrow> Inr (0, target)
      | Some c \<Rightarrow> sum_bind (GetInt c) (\<lambda>v.
          let ret = ucast v in Inr (ret, if target \<noteq> None then Some ret else None)))"

definition AssignIfExist_ref :: "ec_tag \<Rightarrow> uint16 \<Rightarrow> 'w::len word \<Rightarrow> fault + bool \<times> 'w word" where
  "AssignIfExist_ref t name target =
     (case GetTagByName t name of
        None \<Rightarrow> Inr (False, target)
      | Some c \<Rightarrow> sum_bind (GetInt c) (\<lambda>v. Inr (True, ucast v)))"

definition AssignIfExist_bool :: "ec_tag \<Rightarrow> uint16 \<Rightarrow> bool option \<Rightarrow> fault + bool \<times> bool option" where
  "AssignIfExist_bool t name target =
     (case GetTagByName t name of
        None \<Rightarrow> Inr (False, target)
      | Some c \<Rightarrow> sum_bind (GetInt c) (\<lambda>v.
          let ret = 0 < v in Inr (ret, if target \<noteq> None then Some ret else None)))"

section \<open>Wire format\<close>

text \<open>\<open>large\<close> is \<open>EC_FLAG_LARGE_TAG_COUNT\<close>, \<open>utf8\<close> is \<open>EC_FLAG_UTF8_NUMBERS\<close>.\<close>

definition writeCount :: "bool \<Rightarrow> nat \<Rightarrow> nat" where
  "writeCount large count = (if large then count else min count 0xFFFE)"

fun GetTagLen :: "bool \<Rightarrow> ec_tag \<Rightarrow> uint32" where
  "GetTagLen large (ECTag name type data children) =
     of_nat (length data) +
     sum_list (take (writeCount large (length children)) (map (\<lambda>c.
       GetTagLen large c + (2 + 1 + 4) +
       (if m_tagList c \<noteq> [] then 2 + (if large \<and> 0xFFFF \<le> length (m_tagList c) then 4 else 0) else 0))
       children))"

text \<open>Writing the parts one after the other; the first failure ends it.\<close>

fun write_all :: "bytes option list \<Rightarrow> bytes option" where
  "write_all [] = Some []"
| "write_all (w # ws) =
     Option.bind w (\<lambda>bs. Option.bind (write_all ws) (\<lambda>bs'. Some (bs @ bs')))"

definition write_count :: "bool \<Rightarrow> bool \<Rightarrow> nat \<Rightarrow> bytes option" where
  "write_count utf8 large count =
     (if large \<and> 0xFFFF \<le> count then
        write_all [WriteNumber utf8 2 0xFFFF, WriteNumber utf8 4 (of_nat count)]
      else WriteNumber utf8 2 (take_bit 16 (of_nat (writeCount large count))))"

fun WriteTag :: "bool \<Rightarrow> bool \<Rightarrow> ec_tag \<Rightarrow> bytes option" where
  "WriteTag utf8 large (ECTag name type data children) =
     write_all
       ([WriteNumber utf8 2 (ucast (or (push_bit 1 name) (if children = [] then 0 else 1))),
         WriteNumber utf8 1 (ucast type),
         WriteNumber utf8 4 (GetTagLen large (ECTag name type data children))] @
        (if children \<noteq> [] then
           write_count utf8 large (length children) #
           take (writeCount large (length children)) (map (WriteTag utf8 large) children)
         else []) @
        [Some data])"

definition WriteChildren :: "bool \<Rightarrow> bool \<Rightarrow> ec_tag list \<Rightarrow> bytes option" where
  "WriteChildren utf8 large children =
     write_all (write_count utf8 large (length children) #
       take (writeCount large (length children)) (map (WriteTag utf8 large) children))"

definition read_count :: "bool \<Rightarrow> bool \<Rightarrow> bytes \<Rightarrow> (nat \<times> bytes) option" where
  "read_count utf8 large buf =
     Option.bind (ReadNumber utf8 2 buf) (\<lambda>(count16, buf).
       if large \<and> count16 = 0xFFFF then
         Option.bind (ReadNumber utf8 4 buf) (\<lambda>(count32, buf). Some (unat count32, buf))
       else Some (unat count16, buf))"

text \<open>
  The readers; \<open>Inr None\<close> is a failed read. They call each other once per tag, so they are given fuel;
  \<open>Inl NoReturn\<close> says that it ran out. One unit per byte of the buffer and two more are enough.
\<close>

fun ReadFromSocket :: "nat \<Rightarrow> bool \<Rightarrow> bool \<Rightarrow> bytes \<Rightarrow> fault + (ec_tag \<times> bytes) option"
  and read_tags :: "nat \<Rightarrow> bool \<Rightarrow> bool \<Rightarrow> nat \<Rightarrow> bytes \<Rightarrow> fault + (ec_tag list \<times> bytes) option"
where
  "ReadFromSocket 0 utf8 large buf = Inl NoReturn"
| "ReadFromSocket (Suc fuel) utf8 large buf =
     (case ReadNumber utf8 2 buf of
        None \<Rightarrow> Inr None
      | Some (tmp_tagName, buf) \<Rightarrow>
     (case ReadNumber utf8 1 buf of
        None \<Rightarrow> Inr None
      | Some (dataType, buf) \<Rightarrow>
     (case ReadNumber utf8 4 buf of
        None \<Rightarrow> Inr None
      | Some (tmp_len, buf) \<Rightarrow>
     let name = drop_bit 1 (ucast tmp_tagName); type = ucast dataType;
         hasChildren = and tmp_tagName 1 \<noteq> 0
     in sum_bind
          (if hasChildren then
             (case read_count utf8 large buf of
                None \<Rightarrow> Inr None
              | Some (count, buf) \<Rightarrow> read_tags fuel utf8 large count buf)
           else Inr (Some ([], buf)))
          (\<lambda>r. case r of
             None \<Rightarrow> Inr None
           | Some (children, buf) \<Rightarrow>
               let childrenLen = GetTagLen large (ECTag name type [] children)
               in if tmp_len < childrenLen then Inr None
                  else
                    let dataLen = tmp_len - childrenLen
                    in if 0 < dataLen then
                         (case ReadBuffer (unat dataLen) buf of
                            None \<Rightarrow> Inr None
                          | Some (data, buf) \<Rightarrow> Inr (Some (ECTag name type data children, buf)))
                       else Inr (Some (ECTag name type [] children, buf))))))"
| "read_tags fuel utf8 large 0 buf = Inr (Some ([], buf))"
| "read_tags 0 utf8 large (Suc count) buf = Inl NoReturn"
| "read_tags (Suc fuel) utf8 large (Suc count) buf =
     sum_bind (ReadFromSocket fuel utf8 large buf) (\<lambda>r.
       case r of
         None \<Rightarrow> Inr None
       | Some (tag, buf) \<Rightarrow>
           sum_bind (read_tags fuel utf8 large count buf) (\<lambda>r.
             case r of
               None \<Rightarrow> Inr None
             | Some (tags, buf) \<Rightarrow> Inr (Some (tag # tags, buf))))"

definition ReadChildren :: "bool \<Rightarrow> bool \<Rightarrow> bytes \<Rightarrow> fault + (ec_tag list \<times> bytes) option" where
  "ReadChildren utf8 large buf =
     (case read_count utf8 large buf of
        None \<Rightarrow> Inr None
      | Some (count, buf) \<Rightarrow> read_tags (length buf + 2) utf8 large count buf)"

definition WritePacket :: "bool \<Rightarrow> bool \<Rightarrow> uint8 \<times> ec_tag list \<Rightarrow> bytes option" where
  "WritePacket utf8 large p =
     write_all [WriteNumber utf8 1 (ucast (fst p)), WriteChildren utf8 large (snd p)]"

definition ReadPacket :: "bool \<Rightarrow> bool \<Rightarrow> bytes \<Rightarrow> fault + ((uint8 \<times> ec_tag list) \<times> bytes) option" where
  "ReadPacket utf8 large buf =
     (case ReadNumber utf8 1 buf of
        None \<Rightarrow> Inr None
      | Some (opCode, buf) \<Rightarrow>
          sum_bind (ReadChildren utf8 large buf) (\<lambda>r.
            case r of
              None \<Rightarrow> Inr None
            | Some (tags, buf) \<Rightarrow> Inr (Some ((ucast opCode, tags), buf))))"

section \<open>Size of a tag\<close>

fun tag_size :: "bool \<Rightarrow> ec_tag \<Rightarrow> nat" where
  "tag_size large (ECTag name type data children) =
     length data +
     sum_list (map (\<lambda>c. tag_size large c + 7 +
       (if m_tagList c \<noteq> [] then 2 + (if large \<and> 0xFFFF \<le> length (m_tagList c) then 4 else 0) else 0))
       children)"

text \<open>What fits the format: 15-bit names, 32-bit sizes, and with plain counts at most 0xFFFE children.\<close>

fun wire_ok :: "bool \<Rightarrow> ec_tag \<Rightarrow> bool" where
  "wire_ok large (ECTag name type data children) \<longleftrightarrow>
     name < 0x8000 \<and> (large \<or> length children \<le> 0xFFFE) \<and>
     tag_size large (ECTag name type data children) < 2 ^ 32 \<and> list_all (wire_ok large) children"

lemma take_bit_32 [simp]: "take_bit 32 x = x" for x :: uint32
  by (rule bit_word_eqI) (simp add: bit_simps)

lemma take_bit_16: "take_bit 16 (ucast w :: uint32) = ucast w" for w :: uint16
  by (rule bit_word_eqI) (auto simp: bit_simps dest: bit_imp_le_length)

lemma take_bit_8: "take_bit 8 (ucast w :: uint32) = ucast w" for w :: uint8
  by (rule bit_word_eqI) (auto simp: bit_simps dest: bit_imp_le_length)

lemma of_nat_sum: "sum_list (map (of_nat \<circ> f) xs) = (of_nat (sum_list (map f xs)) :: uint32)"
  by (induction xs) auto

lemma GetTagLen_size: "wire_ok large t \<Longrightarrow> GetTagLen large t = of_nat (tag_size large t)"
proof (induction t)
  case (ECTag name type data children)
  have n: "take (writeCount large (length children)) (map f children) = map f children" for f :: "ec_tag \<Rightarrow> uint32"
    using ECTag.prems by (auto simp: writeCount_def)
  have "GetTagLen large c = of_nat (tag_size large c)" if "c \<in> set children" for c
    using ECTag that by (simp add: list_all_iff)
  then have "map (\<lambda>c. GetTagLen large c + (2 + 1 + 4) +
       (if m_tagList c \<noteq> [] then 2 + (if large \<and> 0xFFFF \<le> length (m_tagList c) then 4 else 0) else 0)) children
     = map (of_nat \<circ> (\<lambda>c. tag_size large c + 7 +
       (if m_tagList c \<noteq> [] then 2 + (if large \<and> 0xFFFF \<le> length (m_tagList c) then 4 else 0) else 0))) children"
    by (intro map_cong) auto
  then show ?case unfolding GetTagLen.simps tag_size.simps n by (simp add: of_nat_sum del: map_eq_conv)
qed

lemma length_children_size: "7 * length children \<le> tag_size large (ECTag name type data children)"
  by (induction children) auto

lemma write_all_append:
  "write_all (xs @ ys) = Option.bind (write_all xs) (\<lambda>bs. Option.bind (write_all ys) (\<lambda>bs'. Some (bs @ bs')))"
  by (induction xs) (auto simp: Option.bind_eq_Some_conv bind_assoc split: Option.bind_split)

lemma write_all_Cons: "write_all (w # ws) = Some bs \<longleftrightarrow> (\<exists>b bs'. w = Some b \<and> write_all ws = Some bs' \<and> bs = b @ bs')"
  by (auto simp: Option.bind_eq_Some_conv)

lemma read_back:
  assumes "WriteNumber utf8 len x = Some bs" and "len \<in> {1, 2, 4}" and "take_bit (8 * len) x = x"
  shows "ReadNumber utf8 len (bs @ rest) = Some (x, rest)"
  using number_roundtrip(2) [OF assms(2,3,1)] by simp

lemma name_flag:
  fixes name :: uint16
  assumes "name < 0x8000"
  shows "drop_bit 1 (ucast (ucast (or (push_bit 1 name) (of_bool b)) :: uint32)) = name"
    and "and (ucast (or (push_bit 1 name) (of_bool b)) :: uint32) 1 \<noteq> 0 \<longleftrightarrow> b"
proof -
  have "uint name < 2 ^ 15" using assms by (simp add: word_less_def)
  then have "and name (mask 15) = name" by (simp only: mask_eq_iff)
  then have high: "bit name m \<Longrightarrow> m < 15" for m by (metis bit_and_iff bit_mask_iff)
  show "drop_bit 1 (ucast (ucast (or (push_bit 1 name) (of_bool b)) :: uint32)) = name"
    by (rule bit_word_eqI) (auto simp: bit_simps simp del: push_bit_Suc dest: high)
  show "and (ucast (or (push_bit 1 name) (of_bool b)) :: uint32) 1 \<noteq> 0 \<longleftrightarrow> b"
  proof -
    have "and x 1 \<noteq> 0 \<longleftrightarrow> bit x 0" for x :: uint32
      by (simp add: and_one_eq bit_0 odd_iff_mod_2_eq_one)
    then show ?thesis by (simp add: bit_simps del: bit_0 push_bit_Suc)
  qed
qed

lemma read_count_back:
  assumes "write_count utf8 large n = Some bs" and "large \<or> n \<le> 0xFFFE" and "n < 2 ^ 32"
  shows "read_count utf8 large (bs @ rest) = Some (n, rest)"
proof (cases "large \<and> 0xFFFF \<le> n")
  case True
  then obtain b b' where b: "WriteNumber utf8 2 0xFFFF = Some b" "WriteNumber utf8 4 (of_nat n) = Some b'" "bs = b @ b'"
    using assms(1) by (auto simp: write_count_def Option.bind_eq_Some_conv)
  have "ReadNumber utf8 2 (b @ b' @ rest) = Some (0xFFFF, b' @ rest)" 
    using read_back [OF b(1)] by simp
  moreover have "ReadNumber utf8 4 (b' @ rest) = Some (of_nat n, rest)"
    using read_back [OF b(2)] by simp
  moreover have "unat (of_nat n :: uint32) = n" using assms(3) by (simp add: unat_of_nat take_bit_eq_mod)
  ultimately show ?thesis using True b(3) by (simp add: read_count_def)
next
  case False
  have n: "n < 0xFFFF" using False assms(2) by auto
  then have "writeCount large n = n" by (simp add: writeCount_def)
  then have w: "WriteNumber utf8 2 (take_bit 16 (of_nat n)) = Some bs" using False assms(1) by (auto simp: write_count_def split: if_splits)
  have "unat (take_bit 16 (of_nat n) :: uint32) = n"
  proof -
    have "take_bit 16 (of_nat n :: uint32) = of_nat (take_bit 16 n)" by (simp add: take_bit_of_nat)
    then show ?thesis using n by (simp add: take_bit_nat_eq_self unat_of_nat)
  qed
  moreover from this have "take_bit 16 (of_nat n) \<noteq> (0xFFFF :: uint32)" using n by auto
  ultimately show ?thesis using read_back [OF w] by (simp add: read_count_def)
qed

section \<open>The readers end\<close>

lemma ReadBuffer_length: "ReadBuffer n buf = Some (x, buf') \<Longrightarrow> length buf = n + length buf'"
  by (auto simp: ReadBuffer_def split: if_splits)

lemma ReadNumber_length: "ReadNumber utf8 len buf = Some (x, buf') \<Longrightarrow> 0 < len \<Longrightarrow> length buf' < length buf"
  by (auto simp: ReadNumber_def Let_def Option.bind_eq_Some_conv dest!: ReadBuffer_length split: if_splits)

lemma read_count_length: "read_count utf8 large buf = Some (n, buf') \<Longrightarrow> length buf' < length buf"
  by (fastforce simp: read_count_def Option.bind_eq_Some_conv dest: ReadNumber_length split: if_splits)

lemma readers_progress:
  "ReadFromSocket fuel utf8 large buf = Inr (Some (t, buf')) \<Longrightarrow> length buf' + 3 \<le> length buf"
  "read_tags fuel utf8 large count buf = Inr (Some (ts, buf')) \<Longrightarrow> length buf' \<le> length buf"
proof (induction fuel utf8 large buf and fuel utf8 large count buf arbitrary: t buf' and ts buf'
    rule: ReadFromSocket_read_tags.induct)
  case (2 fuel utf8 large buf)
  obtain tmp b1 where 1: "ReadNumber utf8 2 buf = Some (tmp, b1)" using 2(2) by (auto split: option.splits)
  obtain ty b2 where ty: "ReadNumber utf8 1 b1 = Some (ty, b2)" using 2(2) 1 by (auto split: option.splits)
  obtain len b3 where 3: "ReadNumber utf8 4 b2 = Some (len, b3)" using 2(2) 1 ty by (auto split: option.splits)
  define children where "children = (if and tmp 1 \<noteq> 0 then
             (case read_count utf8 large b3 of
                None \<Rightarrow> Inr None
              | Some (count, buf) \<Rightarrow> read_tags fuel utf8 large count buf)
           else Inr (Some ([], b3)))"
  obtain cs b4 where 4: "children = Inr (Some (cs, b4))"
    using 2(2) 1 ty 3 by (auto simp: Let_def sum_bind_Inr children_def [symmetric] split: option.splits)
  have "length b4 \<le> length b3"
    using 4 2(1) [OF 1 refl ty refl 3 refl refl refl refl] read_count_length [of utf8 large b3]
    by (fastforce simp: children_def split: if_splits option.splits)
  moreover have "length b3 + 3 \<le> length buf"
    using ReadNumber_length [OF 1] ReadNumber_length [OF ty] ReadNumber_length [OF 3] by simp
  moreover have "length buf' \<le> length b4"
    using 2(2) 1 ty 3 4 by (auto simp: Let_def children_def [symmetric] dest!: ReadBuffer_length split: option.splits if_splits)
  ultimately show ?case by simp
next
  case (5 fuel utf8 large count buf)
  obtain tag b1 where 1: "ReadFromSocket fuel utf8 large buf = Inr (Some (tag, b1))"
    using 5(3) by (auto simp: sum_bind_Inr split: option.splits)
  obtain tags b2 where 2: "read_tags fuel utf8 large count b1 = Inr (Some (tags, b2))" "b2 = buf'"
    using 5(3) 1 by (auto simp: sum_bind_Inr split: option.splits)
  show ?case using 5(1) [OF 1] 5(2) [OF 2(1)] 2(2) by simp
qed simp_all

lemma readers_enough_fuel:
  "length buf + 1 \<le> fuel \<Longrightarrow> \<exists>r. ReadFromSocket fuel utf8 large buf = Inr r"
  "length buf + 2 \<le> fuel \<Longrightarrow> \<exists>r. read_tags fuel utf8 large count buf = Inr r"
proof (induction fuel utf8 large buf and fuel utf8 large count buf rule: ReadFromSocket_read_tags.induct)
  case (2 fuel utf8 large buf)
  show ?case
  proof (cases "ReadNumber utf8 2 buf")
    case (Some p1)
    obtain tmp b1 where p1: "p1 = (tmp, b1)" by (cases p1)
    show ?thesis
    proof (cases "ReadNumber utf8 1 b1")
      case (Some p2)
      obtain ty b2 where p2: "p2 = (ty, b2)" by (cases p2)
      show ?thesis
      proof (cases "ReadNumber utf8 4 b2")
        case (Some p3)
        obtain len b3 where p3: "p3 = (len, b3)" by (cases p3)
        have len: "length b3 + 3 \<le> length buf"
          using ReadNumber_length [of utf8 2 buf tmp b1] ReadNumber_length [of utf8 1 b1 ty b2]
            ReadNumber_length [of utf8 4 b2 len b3] \<open>ReadNumber utf8 2 buf = Some p1\<close>
            \<open>ReadNumber utf8 1 b1 = Some p2\<close> Some p1 p2 p3 by simp
        have "\<exists>r. (if and tmp 1 \<noteq> 0 then
             (case read_count utf8 large b3 of
                None \<Rightarrow> Inr None
              | Some (count, buf) \<Rightarrow> read_tags fuel utf8 large count buf)
           else Inr (Some ([], b3))) = Inr r"
        proof (cases "and tmp 1 \<noteq> 0 \<and> read_count utf8 large b3 \<noteq> None")
          case True
          then obtain n b4 where n: "read_count utf8 large b3 = Some (n, b4)" by auto
          have "length b4 + 2 \<le> fuel" using read_count_length [OF n] len 2(2) by simp
          from 2(1) [OF \<open>ReadNumber utf8 2 buf = Some p1\<close> p1 [symmetric] \<open>ReadNumber utf8 1 b1 = Some p2\<close> p2 [symmetric]
              Some p3 [symmetric] refl refl refl conjunct1 [OF True] n refl this]
          show ?thesis using True n by simp
        qed (auto split: option.split)
        then show ?thesis
          using \<open>ReadNumber utf8 2 buf = Some p1\<close> \<open>ReadNumber utf8 1 b1 = Some p2\<close> Some p1 p2 p3
          by (auto simp: Let_def split: option.splits simp del: not_None_eq)
      qed (use \<open>ReadNumber utf8 2 buf = Some p1\<close> Some p1 p2 in simp)
    qed (use Some p1 in simp)
  qed simp
next
  case (5 fuel utf8 large count buf)
  obtain r where r: "ReadFromSocket fuel utf8 large buf = Inr r" using 5(1) 5(3) by auto
  show ?case
  proof (cases r)
    case (Some p)
    obtain t b1 where p: "p = (t, b1)" by (cases p)
    have "length b1 + 3 \<le> length buf" using readers_progress(1) r Some p by blast
    then obtain r' where "read_tags fuel utf8 large count b1 = Inr r'"
      using 5(2) [of b1] 5(3) by auto
    then show ?thesis using r Some p by (auto split: option.splits)
  qed (use r in simp)
qed simp_all

section \<open>Round trip\<close>

lemma WriteTag_parts:
  assumes "wire_ok large (ECTag name type data children)"
    and "WriteTag utf8 large (ECTag name type data children) = Some bs"
  shows "\<exists>b1 b2 b3 b4. bs = b1 @ b2 @ b3 @ b4 @ data \<and>
    WriteNumber utf8 2 (ucast (or (push_bit 1 name) (of_bool (children \<noteq> [])))) = Some b1 \<and>
    WriteNumber utf8 1 (ucast type) = Some b2 \<and>
    WriteNumber utf8 4 (GetTagLen large (ECTag name type data children)) = Some b3 \<and>
    (if children = [] then b4 = [] else
       \<exists>c cs. b4 = c @ cs \<and> write_count utf8 large (length children) = Some c \<and>
         write_all (map (WriteTag utf8 large) children) = Some cs)"
proof -
  have n: "take (writeCount large (length children)) (map (WriteTag utf8 large) children) = map (WriteTag utf8 large) children"
    using assms(1) by (auto simp: writeCount_def)
  have b: "(if children = [] then 0 else 1) = (of_bool (children \<noteq> []) :: uint16)" by simp
  show ?thesis
  proof (cases "children = []")
    case True
    then show ?thesis
      using assms(2) unfolding WriteTag.simps n b
      by (auto simp: Option.bind_eq_Some_conv simp del: push_bit_Suc GetTagLen.simps)
  next
    case False
    then show ?thesis
      using assms(2) unfolding WriteTag.simps n b
      by (auto simp: Option.bind_eq_Some_conv write_all_append simp del: push_bit_Suc GetTagLen.simps)
  qed
qed

definition reads_back :: "fault + ('a \<times> bytes) option \<Rightarrow> 'a \<Rightarrow> bytes \<Rightarrow> bool" where
  "reads_back r x rest \<longleftrightarrow> r = Inl NoReturn \<or> r = Inr (Some (x, rest))"

lemma read_tags_back:
  assumes "\<And>c bs rest fuel. c \<in> set children \<Longrightarrow> WriteTag utf8 large c = Some bs \<Longrightarrow>
      reads_back (ReadFromSocket fuel utf8 large (bs @ rest)) c rest"
    and "write_all (map (WriteTag utf8 large) children) = Some bs"
  shows "reads_back (read_tags fuel utf8 large (length children) (bs @ rest)) children rest"
  using assms
proof (induction children arbitrary: bs fuel)
  case (Cons c cs)
  obtain b b' where b: "WriteTag utf8 large c = Some b" "write_all (map (WriteTag utf8 large) cs) = Some b'" "bs = b @ b'"
    using Cons.prems(2) by (auto simp: Option.bind_eq_Some_conv)
  show ?case
  proof (cases fuel)
    case (Suc f)
    have 1: "reads_back (ReadFromSocket f utf8 large (b @ b' @ rest)) c (b' @ rest)"
      using Cons.prems(1) b(1) by simp
    have 2: "reads_back (read_tags f utf8 large (length cs) (b' @ rest)) cs rest"
      using Cons.IH [OF Cons.prems(1) b(2)] by simp
    show ?thesis using 1 2 Suc b(3) by (auto simp: reads_back_def)
  qed (simp add: reads_back_def)
qed (simp add: reads_back_def)

lemma ReadFromSocket_back:
  "wire_ok large t \<Longrightarrow> WriteTag utf8 large t = Some bs \<Longrightarrow>
    reads_back (ReadFromSocket fuel utf8 large (bs @ rest)) t rest"
proof (induction t arbitrary: bs rest fuel)
  case (ECTag name type data children)
  let ?t = "ECTag name type data children"
  let ?S = "tag_size large (ECTag name type [] children)"
  obtain b1 b2 b3 b4 where bs: "bs = b1 @ b2 @ b3 @ b4 @ data"
    and w1: "WriteNumber utf8 2 (ucast (or (push_bit 1 name) (of_bool (children \<noteq> [])))) = Some b1"
    and w2: "WriteNumber utf8 1 (ucast type) = Some b2"
    and w3: "WriteNumber utf8 4 (GetTagLen large ?t) = Some b3"
    and w4: "if children = [] then b4 = [] else
       \<exists>c cs. b4 = c @ cs \<and> write_count utf8 large (length children) = Some c \<and>
         write_all (map (WriteTag utf8 large) children) = Some cs"
    using WriteTag_parts [OF ECTag.prems] by blast
  show ?case
  proof (cases fuel)
    case (Suc f)
    have r1: "ReadNumber utf8 2 (b1 @ x) = Some (ucast (or (push_bit 1 name) (of_bool (children \<noteq> []))), x)" for x
      by (rule read_back [OF w1]) (simp, rule bit_word_eqI, auto simp: bit_simps simp del: push_bit_Suc)
    have r2: "ReadNumber utf8 1 (b2 @ x) = Some (ucast type, x)" for x
      by (rule read_back [OF w2]) (simp, rule bit_word_eqI, auto simp: bit_simps dest: bit_imp_le_length)
    have r3: "ReadNumber utf8 4 (b3 @ x) = Some (GetTagLen large ?t, x)" for x
      by (rule read_back [OF w3]) simp_all
    have name: "name < 0x8000" and size: "tag_size large ?t < 2 ^ 32" and ch: "\<forall>c \<in> set children. wire_ok large c"
      and cnt: "large \<or> length children \<le> 0xFFFE"
      using ECTag.prems(1) by (simp_all add: list_all_iff)
    have children: "reads_back
        (if children \<noteq> [] then
             (case read_count utf8 large (b4 @ data @ rest) of
                None \<Rightarrow> Inr None
              | Some (count, buf) \<Rightarrow> read_tags f utf8 large count buf)
           else Inr (Some ([], b4 @ data @ rest))) children (data @ rest)"
    proof (cases "children = []")
      case True
      then show ?thesis using w4 by (simp add: reads_back_def)
    next
      case False
      obtain c cs where c: "b4 = c @ cs" "write_count utf8 large (length children) = Some c"
        "write_all (map (WriteTag utf8 large) children) = Some cs" using w4 False by auto
      have "length children < 2 ^ 32"
        using length_children_size [of children large name type data] size by linarith
      then have "read_count utf8 large (c @ x) = Some (length children, x)" for x
        by (intro read_count_back [OF c(2) cnt])
      moreover have "reads_back (read_tags f utf8 large (length children) (cs @ data @ rest)) children (data @ rest)"
        by (rule read_tags_back [OF _ c(3)]) (use ECTag.IH ch in auto)
      ultimately show ?thesis using False c(1) by simp
    qed
    have ok': "wire_ok large (ECTag name type [] children)" using ECTag.prems(1) by simp
    have S: "tag_size large ?t = length data + ?S" by simp
    have len: "GetTagLen large ?t = of_nat (length data) + of_nat ?S" "GetTagLen large (ECTag name type [] children) = of_nat ?S"
      using GetTagLen_size [OF ECTag.prems(1)] GetTagLen_size [OF ok'] S by (simp_all del: tag_size.simps)
    have le: "\<not> of_nat (length data) + of_nat ?S < (of_nat ?S :: uint32)"
    proof -
      have "unat (of_nat (length data) + of_nat ?S :: uint32) = length data + ?S"
        using size S by (simp add: unat_of_nat take_bit_eq_mod del: tag_size.simps flip: of_nat_add)
      moreover have "unat (of_nat ?S :: uint32) = ?S"
        using size S by (simp add: unat_of_nat take_bit_eq_mod del: tag_size.simps)
      ultimately show ?thesis by (simp add: word_less_nat_alt del: tag_size.simps)
    qed
    have dl: "unat (of_nat (length data) :: uint32) = length data"
      using size S by (simp add: unat_of_nat take_bit_eq_mod del: tag_size.simps)
    have rb: "ReadBuffer (length data) (data @ rest) = Some (data, rest)" by (simp add: ReadBuffer_def)
    note flags = name_flag [OF name, of "children \<noteq> []"]
    have ty: "ucast (ucast type :: uint32) = type" by (rule bit_word_eqI) (simp add: bit_simps)
    have read: "ReadFromSocket fuel utf8 large (bs @ rest) =
        sum_bind (if children \<noteq> [] then
             (case read_count utf8 large (b4 @ data @ rest) of
                None \<Rightarrow> Inr None
              | Some (count, buf) \<Rightarrow> read_tags f utf8 large count buf)
           else Inr (Some ([], b4 @ data @ rest)))
          (\<lambda>r. case r of
             None \<Rightarrow> Inr None
           | Some (cs, buf) \<Rightarrow>
               let childrenLen = GetTagLen large (ECTag name type [] cs)
               in if GetTagLen large ?t < childrenLen then Inr None
                  else
                    let dataLen = GetTagLen large ?t - childrenLen
                    in if 0 < dataLen then
                         (case ReadBuffer (unat dataLen) buf of
                            None \<Rightarrow> Inr None
                          | Some (d, buf) \<Rightarrow> Inr (Some (ECTag name type d cs, buf)))
                       else Inr (Some (ECTag name type [] cs, buf)))"
      unfolding Suc bs append.assoc ReadFromSocket.simps(2) r1 option.case prod.case r2 r3 Let_def flags ty ..
    have zero: "0 < (of_nat (length data) :: uint32) \<longleftrightarrow> data \<noteq> []"
      using dl by (auto simp: word_less_nat_alt simp del: unat_of_nat)
    show ?thesis
      using children [unfolded reads_back_def]
    proof (elim disjE)
      assume "(if children \<noteq> [] then
             (case read_count utf8 large (b4 @ data @ rest) of
                None \<Rightarrow> Inr None
              | Some (count, buf) \<Rightarrow> read_tags f utf8 large count buf)
           else Inr (Some ([], b4 @ data @ rest))) = Inr (Some (children, data @ rest))"
      then show ?thesis
        using le zero dl rb len unfolding read reads_back_def
        by (cases "data = []") (simp_all add: Let_def del: GetTagLen.simps unat_of_nat)
    qed (simp add: read reads_back_def)
  qed (simp add: reads_back_def)
qed

section \<open>Writing succeeds\<close>

definition child_cost :: "bool \<Rightarrow> ec_tag \<Rightarrow> nat" where
  "child_cost large c = tag_size large c + 7 +
     (if m_tagList c \<noteq> [] then 2 + (if large \<and> 0xFFFF \<le> length (m_tagList c) then 4 else 0) else 0)"

lemma tag_size_cost: "tag_size large (ECTag name type data children) = length data + sum_list (map (child_cost large) children)"
  by (simp add: child_cost_def [abs_def])

lemma WriteNumber_Some: "len \<in> {1, 2, 4} \<Longrightarrow> take_bit (8 * len) x = x \<Longrightarrow> \<not> utf8 \<or> x \<le> mask 31 \<Longrightarrow>
   \<exists>bs. WriteNumber utf8 len x = Some bs \<and> (\<not> utf8 \<longrightarrow> length bs = len)"
  using number_roundtrip(1) [of len x utf8] by (auto simp: WriteNumber_def)

lemma ucast_le_mask31: "ucast (w :: 'a::len word) \<le> (mask 31 :: uint32)" if "LENGTH('a) \<le> 16"
  by (rule le_maskI) (use that in \<open>auto simp: bit_simps dest: bit_imp_le_length\<close>)

lemma write_all_Some:
  assumes "\<forall>x \<in> set xs. \<exists>bs. f x = Some bs \<and> (P \<longrightarrow> length bs = g x)"
  shows "\<exists>bs. write_all (map f xs) = Some bs \<and> (P \<longrightarrow> length bs = sum_list (map g xs))"
  using assms by (induction xs) auto

lemma of_nat_le_mask31: "n < 2 ^ 31 \<Longrightarrow> of_nat n \<le> (mask 31 :: uint32)"
  by (simp add: word_le_nat_alt unat_of_nat take_bit_eq_mod mask_eq_exp_minus_1)

lemma write_count_Some:
  assumes "n < 2 ^ 31" and "large \<or> n \<le> 0xFFFE"
  shows "\<exists>bs. write_count utf8 large n = Some bs \<and> (\<not> utf8 \<longrightarrow> length bs = 2 + (if large \<and> 0xFFFF \<le> n then 4 else 0))"
proof (cases "large \<and> 0xFFFF \<le> n")
  case True
  obtain b where "WriteNumber utf8 2 0xFFFF = Some b" "\<not> utf8 \<longrightarrow> length b = 2"
    using WriteNumber_Some [of 2 "0xFFFF" utf8] by (auto simp: mask_eq_exp_minus_1)
  moreover obtain b' where "WriteNumber utf8 4 (of_nat n) = Some b'" "\<not> utf8 \<longrightarrow> length b' = 4"
    using WriteNumber_Some [of 4 "of_nat n" utf8] of_nat_le_mask31 [OF assms(1)] by auto
  ultimately show ?thesis using True by (simp add: write_count_def)
next
  case False
  have "take_bit 16 x \<le> mask 31" for x :: uint32
    by (rule le_maskI) (simp add: bit_simps)
  then obtain b where "WriteNumber utf8 2 (take_bit 16 (of_nat (writeCount large n))) = Some b" "\<not> utf8 \<longrightarrow> length b = 2"
    using WriteNumber_Some [of 2 "take_bit 16 (of_nat (writeCount large n))" utf8] by auto
  then show ?thesis using False by (auto simp: write_count_def)
qed

lemma WriteTag_Some:
  "wire_ok large t \<Longrightarrow> tag_size large t < 2 ^ 31 \<Longrightarrow>
    \<exists>bs. WriteTag utf8 large t = Some bs \<and> (\<not> utf8 \<longrightarrow> length bs = child_cost large t)"
proof (induction t)
  case (ECTag name type data children)
  let ?t = "ECTag name type data children"
  have n: "take (writeCount large (length children)) (map (WriteTag utf8 large) children) = map (WriteTag utf8 large) children"
    using ECTag.prems(1) by (auto simp: writeCount_def)
  have b: "(if children = [] then 0 else 1) = (of_bool (children \<noteq> []) :: uint16)" by simp
  obtain b1 where b1: "WriteNumber utf8 2 (ucast (or (push_bit 1 name) (of_bool (children \<noteq> [])))) = Some b1" "\<not> utf8 \<longrightarrow> length b1 = 2"
    using WriteNumber_Some [of 2 "ucast (or (push_bit 1 name) (of_bool (children \<noteq> [])))" utf8]
     ucast_le_mask31 [of "or (push_bit 1 name) (of_bool (children \<noteq> []))"]
    by (auto simp: take_bit_16 simp del: push_bit_Suc)
  obtain b2 where b2: "WriteNumber utf8 1 (ucast type) = Some b2" "\<not> utf8 \<longrightarrow> length b2 = 1"
    using WriteNumber_Some [of 1 "ucast type" utf8] ucast_le_mask31 [of type] by (auto simp: take_bit_8)
  have "GetTagLen large ?t \<le> mask 31"
    unfolding GetTagLen_size [OF ECTag.prems(1)] by (rule of_nat_le_mask31 [OF ECTag.prems(2)])
  then obtain b3 where b3: "WriteNumber utf8 4 (GetTagLen large ?t) = Some b3" "\<not> utf8 \<longrightarrow> length b3 = 4"
    using WriteNumber_Some [of 4 "GetTagLen large ?t" utf8] by (auto simp del: GetTagLen.simps)
  have sub: "wire_ok large c \<and> tag_size large c < 2 ^ 31" if "c \<in> set children" for c
  proof -
    have "child_cost large c \<le> sum_list (map (child_cost large) children)"
      using that by (simp add: member_le_sum_list)
    then show ?thesis using ECTag.prems that unfolding tag_size_cost by (auto simp: list_all_iff child_cost_def)
  qed
  obtain cs where cs: "write_all (map (WriteTag utf8 large) children) = Some cs"
    "\<not> utf8 \<longrightarrow> length cs = sum_list (map (child_cost large) children)"
    using write_all_Some [of children "WriteTag utf8 large" "\<not> utf8" "child_cost large"] ECTag.IH sub by blast
  have "length children < 2 ^ 31" using length_children_size [of children large name type data] ECTag.prems(2) by linarith
  then obtain c where c: "write_count utf8 large (length children) = Some c"
      "\<not> utf8 \<longrightarrow> length c = 2 + (if large \<and> 0xFFFF \<le> length children then 4 else 0)"
    using write_count_Some [of "length children" large utf8] ECTag.prems(1) by auto
  show ?case unfolding WriteTag.simps n b
    using b1 b2 b3 cs c
    by (auto simp: write_all_append child_cost_def tag_size_cost simp del: tag_size.simps push_bit_Suc GetTagLen.simps)
qed

section \<open>Integer and string tags\<close>

lemma length_be_bytes64 [simp]: "length (be_bytes64 n x) = n"
  by (induction n) auto

lemma of_be_bytes64: "take_bit (8 * n) x = x \<Longrightarrow> of_be64 (be_bytes64 n x) = x"
proof -
  have step: "or (push_bit 8 (drop_bit (8 * Suc j) x)) (ucast (ucast (drop_bit (8 * j) x) :: uint8)) = drop_bit (8 * j) x" for j
    by (rule bit_word_eqI) (auto simp: bit_simps)
  have "fold (\<lambda>b x. or (push_bit 8 x) (ucast b)) (be_bytes64 n x) (drop_bit (8 * n) x) = x"
  proof (induction n)
    case (Suc n)
    have "fold (\<lambda>b x. or (push_bit 8 x) (ucast b)) (be_bytes64 (Suc n) x) (drop_bit (8 * Suc n) x) =
      fold (\<lambda>b x. or (push_bit 8 x) (ucast b)) (be_bytes64 n x)
        (or (push_bit 8 (drop_bit (8 * Suc n) x)) (ucast (ucast (drop_bit (8 * n) x) :: uint8)))" by simp
    then show ?case using Suc unfolding step by simp
  qed simp
  moreover assume "take_bit (8 * n) x = x"
  then have "drop_bit (8 * n) x = 0" by (metis take_bit_eq_self_iff_drop_bit_eq_0)
  ultimately show ?thesis by (simp add: of_be64_def)
qed

lemma take_bit_self: "x \<le> mask n \<Longrightarrow> take_bit n x = x" for x :: uint64
proof -
  assume le: "x \<le> mask n"
  have "uint x \<le> mask (min LENGTH(64) n)" using le by (simp add: word_le_def uint_mask_eq)
  also have "\<dots> < 2 ^ n"
    by (simp add: mask_eq_exp_minus_1 less_le_trans [OF _ power_increasing, of _ 2 "min 64 n" n])
  finally show "take_bit n x = x" by (simp add: mask_eq_iff take_bit_eq_mask)
qed

lemma GetInt_InitInt: "GetInt (InitInt name x) = Inr x"
proof -
  have w: "take_bit 8 x = x" if "x \<le> 0xFF" using take_bit_self [of x 8] that by (simp add: mask_eq_exp_minus_1)
  have w2: "take_bit 16 x = x" if "x \<le> 0xFFFF" using take_bit_self [of x 16] that by (simp add: mask_eq_exp_minus_1)
  have w4: "take_bit 32 x = x" if "x \<le> 0xFFFFFFFF" using take_bit_self [of x 32] that by (simp add: mask_eq_exp_minus_1)
  have w8: "take_bit 64 x = x" by (rule bit_word_eqI) (simp add: bit_simps)
  have ne: "be_bytes64 n x \<noteq> []" if "0 < n" for n
    using that by (metis length_be_bytes64 length_greater_0_conv)
  consider "x \<le> 0xFF" | "\<not> x \<le> 0xFF" "x \<le> 0xFFFF" | "\<not> x \<le> 0xFFFF" "x \<le> 0xFFFFFFFF" "\<not> x \<le> 0xFF"
    | "\<not> x \<le> 0xFFFFFFFF" "\<not> x \<le> 0xFFFF" "\<not> x \<le> 0xFF"
    by (metis linorder_linear order_trans word_numeral_alt)
  then show ?thesis
  proof cases
    case 1
    then show ?thesis using of_be_bytes64 [of 1 x] w ne [of 1] by (simp add: GetInt_def InitInt_def peek_def del: be_bytes64.simps)
  next
    case 2
    then show ?thesis using of_be_bytes64 [of 2 x] w2 ne [of 2] by (simp add: GetInt_def InitInt_def peek_def)
  next
    case 3
    then show ?thesis using of_be_bytes64 [of 4 x] w4 ne [of 4] by (simp add: GetInt_def InitInt_def peek_def)
  next
    case 4
    then show ?thesis using of_be_bytes64 [of 8 x] w8 ne [of 8] by (simp add: GetInt_def InitInt_def peek_def)
  qed
qed

section \<open>Properties\<close>

lemma sum_bind_Inr_id: "x = Inr y \<Longrightarrow> sum_bind x f = f y"
  by simp

text \<open>
  C19. A tag tree that fits the wire format, written with \<open>WriteTag\<close> and read with \<open>ReadFromSocket\<close>
  under the same flags, in front of any further bytes: the reader returns the same tree and leaves
  exactly the further bytes; fuel of one unit per byte is enough.
\<close>

theorem ec_tag_roundtrip:
  assumes "wire_ok large t" and "WriteTag utf8 large t = Some bs" and "length (bs @ rest) + 1 \<le> fuel"
  shows "ReadFromSocket fuel utf8 large (bs @ rest) = Inr (Some (t, rest))"
  using ReadFromSocket_back [OF assms(1,2), of fuel rest] readers_enough_fuel(1) [OF assms(3), of utf8 large]
  by (auto simp: reads_back_def)

theorem ec_tag_roundtrip_witness:
  "\<exists>bs. WriteTag False True (AddTag (InitInt 5 300) (custom_tag 6 [1, 2])) = Some bs \<and>
     ReadFromSocket 99 False True (bs @ [7]) = Inr (Some (AddTag (InitInt 5 300) (custom_tag 6 [1, 2]), [7]))"
proof -
  let ?t = "AddTag (InitInt 5 300) (custom_tag 6 [1, 2])"
  have t: "?t = ECTag 5 3 (be_bytes64 2 300) [ECTag 6 1 [1, 2] []]"
    by (simp add: AddTag_def InitInt_def custom_tag_def)
  have ok: "wire_ok True ?t" unfolding t by simp
  have "tag_size True ?t < 2 ^ 31" unfolding t by simp
  then obtain bs where bs: "WriteTag False True ?t = Some bs" "length bs = child_cost True ?t"
    using WriteTag_Some [OF ok, of False] by auto
  then have "length (bs @ [7]) + 1 \<le> 99" unfolding t by (simp add: child_cost_def)
  from ec_tag_roundtrip [OF ok bs(1) this] bs(1) show ?thesis by blast
qed

text \<open>
  \<open>WriteTag\<close> on a tree that fits the format and is smaller than 2^31 bytes succeeds under all
  flags; with fixed-width numbers it writes exactly the bytes that \<open>GetTagLen\<close> announces, plus the
  header of the tag and its children count.
\<close>

theorem ec_tag_length:
  assumes "wire_ok large t" and "tag_size large t < 2 ^ 31"
  shows "\<exists>bs. WriteTag utf8 large t = Some bs \<and>
    (\<not> utf8 \<longrightarrow> length bs = unat (GetTagLen large t) + 7 +
       (if m_tagList t \<noteq> [] then 2 + (if large \<and> 0xFFFF \<le> length (m_tagList t) then 4 else 0) else 0))"
proof -
  have "unat (GetTagLen large t) = tag_size large t"
    using GetTagLen_size [OF assms(1)] assms(2) by (simp add: unat_of_nat take_bit_eq_mod)
  then show ?thesis using WriteTag_Some [OF assms, of utf8] by (simp add: child_cost_def)
qed

theorem ec_tag_length_witness:
  "\<exists>bs. WriteTag False False (custom_tag 6 [1, 2]) = Some bs \<and> length bs = 9"
proof -
  have ok: "wire_ok False (custom_tag 6 [1, 2])" "tag_size False (custom_tag 6 [1, 2]) < 2 ^ 31"
    by (simp_all add: custom_tag_def)
  from ec_tag_length [OF ok, of False] show ?thesis by (auto simp: custom_tag_def)
qed

lemma write_all_2: "write_all [a, b] = Some bs \<longleftrightarrow> (\<exists>x y. a = Some x \<and> b = Some y \<and> bs = x @ y)"
  by (auto simp: Option.bind_eq_Some_conv)

text \<open>
  C20. A packet written with \<open>WritePacket\<close>, whose tags fit the wire format (\<open>wire_ok\<close>: names below 0x8000, sizes below
  \<open>2 ^ 32\<close>), is read back by \<open>ReadPacket\<close> under the same flags, with its opcode and its tags, whatever follows it in the
  buffer. With large counts these are all tags, without only the first 0xFFFE: the rest is not written.
\<close>

theorem ec_packet_roundtrip:
  assumes "\<forall>t \<in> set tags. wire_ok large t" and "length tags < 2 ^ 32"
    and "WritePacket utf8 large (opcode, tags) = Some bs"
  shows "ReadPacket utf8 large (bs @ rest) = Inr (Some ((opcode, if large then tags else take 0xFFFE tags), rest))"
proof -
  let ?n = "writeCount large (length tags)"
  let ?tags = "take ?n tags"
  obtain b1 b2 where bs: "WriteNumber utf8 1 (ucast opcode) = Some b1" "WriteChildren utf8 large tags = Some b2" "bs = b1 @ b2"
    using assms(3) by (auto simp: WritePacket_def write_all_2 simp del: write_all.simps)
  have n: "large \<or> ?n \<le> 0xFFFE" "?n < 2 ^ 32" "length ?tags = ?n" using assms(2) by (auto simp: writeCount_def)
  have "write_count utf8 large (length tags) = write_count utf8 large ?n" by (simp add: write_count_def writeCount_def)
  then obtain c cs where c: "write_count utf8 large ?n = Some c"
    "write_all (map (WriteTag utf8 large) ?tags) = Some cs" "b2 = c @ cs"
    using bs(2) by (auto simp: WriteChildren_def Option.bind_eq_Some_conv take_map)
  have "read_count utf8 large (c @ cs @ rest) = Some (?n, cs @ rest)"
    by (rule read_count_back [OF c(1) n(1,2)])
  moreover have "reads_back (read_tags (length (cs @ rest) + 2) utf8 large (length ?tags) (cs @ rest)) ?tags rest"
    by (rule read_tags_back [OF _ c(2)]) (use assms(1) ReadFromSocket_back set_take_subset [of ?n tags] in blast)
  then have "read_tags (length (cs @ rest) + 2) utf8 large ?n (cs @ rest) = Inr (Some (?tags, rest))"
    using readers_enough_fuel(2) [of "cs @ rest" "length (cs @ rest) + 2" utf8 large ?n] unfolding n(3)
    by (auto simp: reads_back_def)
  moreover have "ReadNumber utf8 1 (b1 @ b2 @ rest) = Some (ucast opcode, b2 @ rest)"
    by (rule read_back [OF bs(1)]) (simp_all add: take_bit_8)
  moreover have "ucast (ucast opcode :: uint32) = opcode" by (rule bit_word_eqI) (simp add: bit_simps)
  moreover have "?tags = (if large then tags else take 0xFFFE tags)" by (simp add: writeCount_def min_def)
  ultimately show ?thesis using bs(3) c(3) by (simp add: ReadPacket_def ReadChildren_def)
qed

theorem ec_packet_roundtrip_witness:
  "\<exists>bs. WritePacket True False (2, [custom_tag 6 []]) = Some bs \<and>
    ReadPacket True False bs = Inr (Some ((2, [custom_tag 6 []]), []))"
proof -
  have ok: "\<forall>t \<in> set [custom_tag 6 []]. wire_ok False t" by (simp add: custom_tag_def)
  obtain a where "WriteNumber True 1 (ucast (2 :: uint8)) = Some a"
    using WriteNumber_Some [of 1 "ucast (2 :: uint8)" True] ucast_le_mask31 [of "2 :: uint8"] by (auto simp: take_bit_8)
  moreover obtain b where "write_count True False 1 = Some b"
    using write_count_Some [of 1 False True] by auto
  moreover obtain c where "WriteTag True False (custom_tag 6 []) = Some c"
    using WriteTag_Some [of False "custom_tag 6 []" True] by (auto simp: custom_tag_def)
  ultimately have "WritePacket True False (2, [custom_tag 6 []]) = Some (a @ b @ c)"
    by (simp add: WritePacket_def WriteChildren_def writeCount_def del: WriteTag.simps)
  from this ec_packet_roundtrip [OF ok _ this, of "[]"] show ?thesis by auto
qed

text \<open>
  The packet reader ends on every input: whatever bytes a peer sends, under all flags, it returns a
  packet or fails; the nesting of tags is bounded by the bytes they take, so the fuel is never used up.
\<close>

theorem ReadPacket_total:
  "\<exists>r. ReadPacket utf8 large buf = Inr r"
proof -
  have "\<exists>r. ReadChildren utf8 large b = Inr r" for b
    using readers_enough_fuel(2) by (fastforce simp: ReadChildren_def split: option.split)
  then obtain r where "\<And>b. ReadChildren utf8 large b = Inr (r b)" by metis
  then show ?thesis by (auto simp: ReadPacket_def split: option.split)
qed

text \<open>
  \<open>InitInt\<close> stores every \<open>uint64\<close> in the fewest of 1, 2, 4 or 8 bytes that hold it, and \<open>GetInt\<close> of
  the tag returns it; a child found by name gives it back through every \<open>AssignIfExist\<close> overload that
  is wide enough.
\<close>

theorem ec_int_roundtrip:
  "GetInt (InitInt name x) = Inr x \<and>
   length (m_tagData (InitInt name x)) = (if x \<le> 0xFF then 1 else if x \<le> 0xFFFF then 2 else if x \<le> 0xFFFFFFFF then 4 else 8) \<and>
   AssignIfExist_ref (AddTag null_tag (InitInt name x)) name (y :: uint64) = Inr (True, x) \<and>
   AssignIfExist_ptr (AddTag null_tag (InitInt name x)) name (Some (z :: uint32)) = Inr (ucast x, Some (ucast x)) \<and>
   AssignIfExist_bool (AddTag null_tag (InitInt name x)) name None = Inr (x \<noteq> 0, None)"
proof -
  have n: "m_tagName (InitInt name x) = name" by (simp add: InitInt_def)
  have u: "ucast x = x" by (rule bit_word_eqI) (simp add: bit_simps)
  have find: "GetTagByName (AddTag null_tag (InitInt name x)) name = Some (InitInt name x)"
    using n by (simp add: GetTagByName_def AddTag_def null_tag_def)
  have len: "length (m_tagData (InitInt name x)) =
      (if x \<le> 0xFF then 1 else if x \<le> 0xFFFF then 2 else if x \<le> 0xFFFFFFFF then 4 else 8)"
    by (simp add: InitInt_def)
  show ?thesis
    using len u find GetInt_InitInt [of name x]
    by (simp add: AssignIfExist_ref_def AssignIfExist_ptr_def AssignIfExist_bool_def word_gt_0 Let_def)
qed

section \<open>Where the code trusts its peer\<close>

text \<open>A tag that says it is a \<open>uint32\<close> but carries one byte: \<open>GetInt\<close> reads behind its data.\<close>

lemma GetInt_short_data: "GetInt (ECTag name EC_TAGTYPE_UINT32 [1] []) = Inl OutOfBounds"
  by (simp add: GetInt_def peek_def)

lemma GetStringDataSTL_unterminated: "GetStringDataSTL (ECTag name EC_TAGTYPE_STRING [65] []) = Inl OutOfBounds"
  by (simp add: GetStringDataSTL_def)

text \<open>The declared length of data of 65536 bytes is 0.\<close>

lemma GetTagDataLen_wraps: "length (m_tagData t) = 65536 \<Longrightarrow> GetTagDataLen t = 0"
  by (simp add: GetTagDataLen_def word_of_nat_eq_0_iff)

text \<open>
  Without large counts the reader accepts a literal count of 65535, but takes the children for one tag
  shorter than they are.
\<close>

lemma GetTagLen_65535:
  "GetTagLen False (ECTag name type [] (replicate 65535 (custom_tag 0 []))) + 7 =
   GetTagLen True (ECTag name type [] (replicate 65535 (custom_tag 0 [])))"
proof -
  have "GetTagLen large (ECTag name type [] (replicate n (custom_tag 0 []))) = of_nat (writeCount large n) * 7" for large n
    by (simp add: custom_tag_def sum_list_replicate writeCount_def)
  from this [of False 65535] this [of True 65535] show ?thesis by (simp only:) (simp add: writeCount_def)
qed

end
