(* ===== verification/Part_Status.thy ===== *)
theory Part_Status
  imports GapList RLE EC_Tag "HOL-Library.List_Lexorder"
begin

text \<open>
  The status of a download on its way from the daemon to the remote GUI: \<open>CPartFile_Encoder\<close> and
  \<open>CKnownFile_Encoder\<close> (\<open>src/src/ExternalConn.cpp\<close>) put the availability of the parts, the gap list, the
  requested blocks and the source names into EC tags, sending only what changed;
  \<open>CKnownFilesRem::ProcessItemUpdatePartfile\<close> (\<open>src/src/amule-remote-gui.cpp\<close>) rebuilds them. Strings
  are their UTF-8 bytes. The order of \<open>std::map\<close> over names is that of the code points, which is that of
  the bytes.
\<close>

abbreviation EC_TAG_PARTFILE_PART_STATUS :: uint16 where "EC_TAG_PARTFILE_PART_STATUS \<equiv> 0x0312"
abbreviation EC_TAG_PARTFILE_GAP_STATUS :: uint16 where "EC_TAG_PARTFILE_GAP_STATUS \<equiv> 0x0313"
abbreviation EC_TAG_PARTFILE_REQ_STATUS :: uint16 where "EC_TAG_PARTFILE_REQ_STATUS \<equiv> 0x0314"
abbreviation EC_TAG_PARTFILE_SOURCE_NAMES :: uint16 where "EC_TAG_PARTFILE_SOURCE_NAMES \<equiv> 0x0315"
abbreviation EC_TAG_PARTFILE_SOURCE_NAMES_COUNTS :: uint16 where
  "EC_TAG_PARTFILE_SOURCE_NAMES_COUNTS \<equiv> 0x031C"

section \<open>The daemon\<close>

text \<open>\<open>SourcenameItemMap\<close>: from the id of a source name to the name and its count.\<close>

type_synonym sourcename_map = "(nat, bytes \<times> int) stdmap"

record part_encoder =
  m_enc_data :: rle_data
  m_gap_status :: rle_data
  m_req_status :: rle_data
  m_sourcenameItemMap :: sourcename_map
  m_sourcenameID :: nat

text \<open>
  What the encoder reads of the file. A source is whether it is requested for this file, and its name.
\<close>

record part_view =
  v_frequency :: "uint16 list"
  v_gaplist :: gaplist
  v_requested :: "(uint64 \<times> uint64) list"
  v_sources :: "(bool \<times> bytes) list"

definition new_encoder :: part_encoder where
  "new_encoder =
     \<lparr>m_enc_data = rle_setup 0 True None, m_gap_status = rle_setup 0 True None,
      m_req_status = rle_setup 0 True None, m_sourcenameItemMap = [], m_sourcenameID = 0\<rparr>"

definition ResetEncoders :: "part_encoder \<Rightarrow> part_encoder" where
  "ResetEncoders e =
     e\<lparr>m_enc_data := ResetEncoder (m_enc_data e), m_gap_status := ResetEncoder (m_gap_status e),
       m_req_status := ResetEncoder (m_req_status e)\<rparr>"

definition Encode_known :: "part_encoder \<Rightarrow> uint16 list \<Rightarrow> ec_tag \<Rightarrow> fault + part_encoder \<times> ec_tag" where
  "Encode_known e freq parent =
     (if freq \<noteq> [] then
        sum_bind (Encode16 (m_enc_data e) freq) (\<lambda>(r, part_enc_data, changed).
          Inr (e\<lparr>m_enc_data := r\<rparr>,
               if changed then AddTag parent (custom_tag EC_TAG_PARTFILE_PART_STATUS part_enc_data)
               else parent))
      else Inr (e, parent))"

definition gap_words :: "gaplist \<Rightarrow> uint64 list" where
  "gap_words g = concat (map (\<lambda>(gapend, gapstart). [of_nat gapstart, of_nat gapend]) (m_gaplist g))"

definition req_words :: "(uint64 \<times> uint64) list \<Rightarrow> uint64 list" where
  "req_words blocks = concat (map (\<lambda>(StartOffset, EndOffset). [StartOffset, EndOffset]) blocks)"

definition count_name :: "bool \<times> bytes \<Rightarrow> (bytes, int) stdmap \<Rightarrow> (bytes, int) stdmap" where
  "count_name src nameMap =
     (let (requested, name) = src
      in if \<not> requested \<or> length name = 0 then nameMap
         else case map_of nameMap name of
                None \<Rightarrow> sm_insert name 1 nameMap
              | Some n \<Rightarrow> sm_assign name (n + 1) nameMap)"

definition count_tag :: "nat \<Rightarrow> int \<Rightarrow> ec_tag" where
  "count_tag i n =
     AddTag (InitInt EC_TAG_PARTFILE_SOURCE_NAMES (of_nat i))
       (InitInt EC_TAG_PARTFILE_SOURCE_NAMES_COUNTS (of_int n))"

text \<open>
  The loop over the names sent before: the entries that stay, the names that are left, the tags.
\<close>

fun known_names ::
  "sourcename_map \<Rightarrow> (bytes, int) stdmap \<Rightarrow> sourcename_map \<times> (bytes, int) stdmap \<times> ec_tag list"
where
  "known_names [] nameMap = ([], nameMap, [])"
| "known_names ((i, name, count) # items) nameMap =
     (case map_of nameMap name of
        None \<Rightarrow>
          (let (items', left, tags) = known_names items nameMap
           in (items', left, count_tag i 0 # tags))
      | Some n \<Rightarrow>
          (let (items', left, tags) = known_names items (sm_erase name nameMap)
           in ((i, name, n) # items', left, if count \<noteq> n then count_tag i n # tags else tags)))"

fun new_names ::
  "(bytes, int) stdmap \<Rightarrow> nat \<Rightarrow> sourcename_map \<Rightarrow> nat \<times> sourcename_map \<times> ec_tag list"
where
  "new_names [] lastID items = (lastID, items, [])"
| "new_names ((name, n) # left) lastID items =
     (let i = lastID + 1;
          tag = AddTag (AddTag (InitInt EC_TAG_PARTFILE_SOURCE_NAMES (of_nat i))
                  (ConstructStringTag EC_TAG_PARTFILE_SOURCE_NAMES name))
                  (InitInt EC_TAG_PARTFILE_SOURCE_NAMES_COUNTS (of_int n));
          (lastID', items', tags) = new_names left i (sm_put i (name, n) items)
      in (lastID', items', tag # tags))"

definition Encode_names :: "part_encoder \<Rightarrow> (bool \<times> bytes) list \<Rightarrow> ec_tag \<Rightarrow> part_encoder \<times> ec_tag" where
  "Encode_names e sources parent =
     (let nameMap = fold count_name sources [];
          (items, left, tags) = known_names (m_sourcenameItemMap e) nameMap;
          (lastID, items', tags') = new_names left (m_sourcenameID e) items;
          sourceNames = ECTag EC_TAG_PARTFILE_SOURCE_NAMES EC_TAGTYPE_CUSTOM [] (tags @ tags')
      in (e\<lparr>m_sourcenameItemMap := items', m_sourcenameID := lastID\<rparr>,
          if m_tagList sourceNames \<noteq> [] then AddTag parent sourceNames else parent))"

definition Encode_part :: "part_encoder \<Rightarrow> part_view \<Rightarrow> ec_tag \<Rightarrow> fault + part_encoder \<times> ec_tag" where
  "Encode_part e v parent =
     sum_bind (Encode_known e (v_frequency v) parent) (\<lambda>(e, parent).
     sum_bind (Encode64 (m_gap_status e) (gap_words (v_gaplist v))) (\<lambda>(r, gap_enc_data, changed).
       let e = e\<lparr>m_gap_status := r\<rparr>;
           parent = (if changed then AddTag parent (custom_tag EC_TAG_PARTFILE_GAP_STATUS gap_enc_data)
                     else parent)
       in sum_bind (Encode64 (m_req_status e) (req_words (v_requested v))) (\<lambda>(r, req_enc_data, changed).
            let e = e\<lparr>m_req_status := r\<rparr>;
                parent = (if changed then AddTag parent (custom_tag EC_TAG_PARTFILE_REQ_STATUS req_enc_data)
                          else parent)
            in Inr (Encode_names e (v_sources v) parent))))"

section \<open>The remote GUI\<close>

record part_client =
  c_filesize :: nat
  c_gaplist :: gaplist
  c_SrcpartFrequency :: "uint16 list"
  c_requestedblocks :: "(uint64 \<times> uint64) list"
  c_sourcenames :: sourcename_map
  c_part_status :: rle_data
  c_gap_status :: rle_data
  c_req_status :: rle_data

text \<open>\<open>GetTagData\<close> and \<open>GetTagDataLen\<close> of a tag, as the decoders use them.\<close>

definition tag_bytes :: "ec_tag \<Rightarrow> bytes" where
  "tag_bytes t = take (unat (GetTagDataLen t)) (m_tagData t)"

fun pairs :: "'a list \<Rightarrow> ('a \<times> 'a) list" where
  "pairs (a # b # xs) = (a, b) # pairs xs"
| "pairs _ = []"

fun refill :: "(uint64 \<times> uint64) list \<Rightarrow> gaplist \<Rightarrow> fault + gaplist" where
  "refill [] g = Inr g"
| "refill ((s, e) # gaps) g = sum_bind (AddGap g (unat s) (unat e)) (refill gaps)"

definition rebuild :: "nat \<Rightarrow> uint64 list \<Rightarrow> fault + gaplist" where
  "rebuild filesize gaps = sum_bind (Init filesize False) (refill (pairs gaps))"

definition process_gaps :: "ec_tag option \<Rightarrow> part_client \<Rightarrow> fault + part_client" where
  "process_gaps gaptag c =
     (case gaptag of
        None \<Rightarrow> Inr c
      | Some t \<Rightarrow>
          sum_bind (Decode64 (c_gap_status c) (tag_bytes t)) (\<lambda>(r, gaps).
          sum_bind (rebuild (c_filesize c) gaps) (\<lambda>g.
            Inr (c\<lparr>c_gap_status := r, c_gaplist := g\<rparr>))))"

definition process_parts :: "ec_tag option \<Rightarrow> part_client \<Rightarrow> fault + part_client" where
  "process_parts parttag c =
     (case parttag of
        None \<Rightarrow> Inr c
      | Some t \<Rightarrow>
          sum_bind (DecodeParts (c_part_status c) (tag_bytes t)) (\<lambda>(r, freq).
            Inr (c\<lparr>c_part_status := r, c_SrcpartFrequency := freq\<rparr>)))"

definition process_reqs :: "ec_tag option \<Rightarrow> part_client \<Rightarrow> fault + part_client" where
  "process_reqs reqtag c =
     (case reqtag of
        None \<Rightarrow> Inr c
      | Some t \<Rightarrow>
          sum_bind (Decode64 (c_req_status c) (tag_bytes t)) (\<lambda>(r, reqs).
            Inr (c\<lparr>c_req_status := r, c_requestedblocks := pairs reqs\<rparr>)))"

definition process_name :: "ec_tag \<Rightarrow> sourcename_map \<Rightarrow> fault + sourcename_map" where
  "process_name it m =
     sum_bind (GetInt it) (\<lambda>k.
     sum_bind (GetInt (GetTagByNameSafe it EC_TAG_PARTFILE_SOURCE_NAMES_COUNTS)) (\<lambda>n.
       let key = unat (ucast k :: uint32); count = sint (ucast n :: uint32)
       in if count = 0 then Inr (sm_erase key m)
          else
            let old = (case map_of m key of None \<Rightarrow> [] | Some (name, _) \<Rightarrow> name)
            in (case GetTagByName it EC_TAG_PARTFILE_SOURCE_NAMES of
                  None \<Rightarrow> Inr (sm_put key (old, count) m)
                | Some t \<Rightarrow> sum_bind (GetStringDataSTL t) (\<lambda>name. Inr (sm_put key (name, count) m)))))"

fun process_names :: "ec_tag list \<Rightarrow> sourcename_map \<Rightarrow> fault + sourcename_map" where
  "process_names [] m = Inr m"
| "process_names (it # its) m = sum_bind (process_name it m) (process_names its)"

definition ProcessItemUpdatePartfile :: "part_client \<Rightarrow> ec_tag \<Rightarrow> fault + part_client" where
  "ProcessItemUpdatePartfile c tag =
     sum_bind (process_gaps (GetTagByName tag EC_TAG_PARTFILE_GAP_STATUS) c) (\<lambda>c.
     sum_bind (process_parts (GetTagByName tag EC_TAG_PARTFILE_PART_STATUS) c) (\<lambda>c.
     sum_bind (process_reqs (GetTagByName tag EC_TAG_PARTFILE_REQ_STATUS) c) (\<lambda>c.
       case GetTagByName tag EC_TAG_PARTFILE_SOURCE_NAMES of
         None \<Rightarrow> Inr c
       | Some t \<Rightarrow> sum_bind (process_names (m_tagList t) (c_sourcenames c)) (\<lambda>m.
           Inr (c\<lparr>c_sourcenames := m\<rparr>)))))"

section \<open>Lists of pairs\<close>

lemma pairs_req_words: "pairs (req_words xs) = xs"
  by (induction xs) (auto simp: req_words_def)

lemma pairs_gap_words: "pairs (gap_words g) = map (\<lambda>(e, s). (of_nat s, of_nat e)) (m_gaplist g)"
proof -
  have "pairs (concat (map (\<lambda>(e, s). [of_nat s, of_nat e]) m)) = map (\<lambda>(e, s). (of_nat s, of_nat e)) m" for m :: gapmap
    by (induction m) auto
  then show ?thesis by (simp add: gap_words_def)
qed

lemma length_gap_words: "length (gap_words g) = 2 * length (m_gaplist g)"
  by (induction "m_gaplist g" arbitrary: g) (simp_all add: gap_words_def length_concat comp_def split_def sum_list_triv)

lemma length_req_words: "length (req_words xs) = 2 * length xs"
  by (simp add: req_words_def length_concat comp_def split_def sum_list_triv)

section \<open>The rebuilt gap list\<close>

lemma refill_ok:
  assumes "gaplist_inv g" and "\<forall>(s, e) \<in> set gaps. s \<le> e \<and> unat e < m_filesize g"
  shows "\<exists>g'. refill gaps g = Inr g' \<and> gaplist_inv g' \<and> m_filesize g' = m_filesize g \<and>
    missing g' = missing g \<union> (\<Union>(s, e) \<in> set gaps. {unat s..unat e})"
  using assms
proof (induction gaps arbitrary: g)
  case (Cons p gaps)
  obtain s e where p: "p = (s, e)" by (cases p)
  obtain g1 where g1: "AddGap g (unat s) (unat e) = Inr g1" "gaplist_inv g1"
    "missing g1 = missing g \<union> {unat s..unat e}" "m_filesize g1 = m_filesize g"
    using AddGap_range [of g "unat s" "unat e"] Cons.prems p by (auto simp: word_le_nat_alt)
  from Cons.IH [OF g1(2)] g1 Cons.prems p show ?case by auto
qed simp

lemma rebuild_missing:
  assumes "gaplist_inv g" and "m_filesize g = n"
  shows "\<exists>g'. rebuild n (gap_words g) = Inr g' \<and> gaplist_inv g' \<and> m_filesize g' = n \<and> missing g' = missing g"
proof -
  have n: "0 < n" "n \<le> MAX_FILE_SIZE" using assms by (auto simp: gaplist_inv_def layout_ok_def)
  obtain g0 where g0: "Init n False = Inr g0" "gaplist_inv g0" "missing g0 = {}" "m_filesize g0 = n"
    using Init_ok [OF n, of False] by auto
  have n64: "n < 2 ^ 64" using n(2) by (simp add: MAX_FILE_SIZE_def)
  have bounds: "s \<le> e \<and> e < n" if "(e, s) \<in> set (m_gaplist g)" for e s
  proof -
    have "gaps_from 0 (m_gaplist g)" "missing g \<subseteq> {..<n}" using assms(1,2) by (simp_all add: gaplist_inv_def)
    then show ?thesis
      using gaps_from_ge [of 0 "m_gaplist g" e s] covered_end [of 0 "m_gaplist g" e s] that
      by (auto simp: missing_def)
  qed
  have conv: "unat (of_nat e :: uint64) = e" if "e < n" for e
    using that n64 by (simp add: unat_of_nat take_bit_eq_mod)
  have word: "unat (of_nat s :: uint64) = s \<and> unat (of_nat e :: uint64) = e \<and> s \<le> e \<and> e < n"
    if "(e, s) \<in> set (m_gaplist g)" for e s
    using bounds [OF that] conv [of e] conv [of s] by simp
  have "\<forall>(s, e) \<in> set (pairs (gap_words g)). s \<le> e \<and> unat e < m_filesize g0"
    unfolding pairs_gap_words g0(4) word_le_nat_alt by (auto dest: word simp del: unat_of_nat)
  from refill_ok [OF g0(2) this] obtain g' where g': "refill (pairs (gap_words g)) g0 = Inr g'"
    "gaplist_inv g'" "m_filesize g' = n"
    and m: "missing g' = (\<Union>(s, e) \<in> set (pairs (gap_words g)). {unat s..unat e})"
    using g0(3,4) by auto
  have "(\<Union>(s, e) \<in> set (pairs (gap_words g)). {unat s..unat e}) =
      (\<Union>p \<in> set (m_gaplist g). {unat (of_nat (snd p) :: uint64)..unat (of_nat (fst p) :: uint64)})"
    unfolding pairs_gap_words by (simp add: split_def)
  also have "\<dots> = (\<Union>p \<in> set (m_gaplist g). {snd p..fst p})"
  proof (rule SUP_cong [OF refl])
    fix p assume p: "p \<in> set (m_gaplist g)"
    show "{unat (of_nat (snd p) :: uint64)..unat (of_nat (fst p) :: uint64)} = {snd p..fst p}"
      using word [of "fst p" "snd p"] p by (simp del: unat_of_nat)
  qed
  finally have "missing g' = missing g" unfolding m by (simp add: missing_def covered_def split_def)
  then show ?thesis using g0(1) g' by (simp add: rebuild_def)
qed

section \<open>Source names\<close>

definition valid_names :: "(bool \<times> bytes) list \<Rightarrow> bytes list" where
  "valid_names sources = map snd (filter (\<lambda>(requested, name). requested \<and> name \<noteq> []) sources)"

definition name_counts :: "(bool \<times> bytes) list \<Rightarrow> (bytes \<times> int) set" where
  "name_counts sources = (\<lambda>n. (n, int (count_list (valid_names sources) n))) ` set (valid_names sources)"

lemma count_names:
  "sm_ok (fold count_name sources []) \<and>
   (\<forall>n. map_of (fold count_name sources []) n =
     (if count_list (valid_names sources) n = 0 then None else Some (int (count_list (valid_names sources) n))))"
proof (induction sources rule: rev_induct)
  case (snoc p sources)
  obtain q name where p: "p = (q, name)" by (cases p)
  define m where "m = fold count_name sources []"
  define vs where "vs = valid_names sources"
  have ok: "sm_ok m" and get: "\<And>n. map_of m n = (if count_list vs n = 0 then None else Some (int (count_list vs n)))"
    using snoc by (auto simp: m_def vs_def)
  have vs: "valid_names (sources @ [p]) = (if q \<and> name \<noteq> [] then vs @ [name] else vs)"
    by (simp add: valid_names_def vs_def p)
  have step: "fold count_name (sources @ [p]) [] =
      (if \<not> q \<or> name = [] then m
       else if map_of m name = None then sm_insert name 1 m
       else sm_assign name (the (map_of m name) + 1) m)"
    by (auto simp: p count_name_def m_def split: option.split)
  show ?case
    unfolding step vs using ok get
    by (auto simp: map_of_sm_insert sm_ok_sm_insert map_of_sm_assign sm_ok_sm_assign split: if_splits)
qed (simp add: valid_names_def)

lemma set_count_names: "set (fold count_name sources []) = name_counts sources"
proof -
  have "(n, c) \<in> set (fold count_name sources []) \<longleftrightarrow> (n, c) \<in> name_counts sources" for n c
    using count_names [of sources]
    by (auto simp: sm_ok_mem name_counts_def image_iff count_list_0_iff)
  then show ?thesis by auto
qed

definition name_map_ok :: "nat \<Rightarrow> sourcename_map \<Rightarrow> bool" where
  "name_map_ok lastID m \<longleftrightarrow> sm_ok m \<and> (\<forall>p \<in> set m. fst p \<le> lastID)"

lemma small_id: "i < 2 ^ 31 \<Longrightarrow> unat (ucast (of_nat i :: uint64) :: uint32) = i"
  by (simp add: unsigned_ucast_eq unsigned_take_bit_eq unat_of_nat take_bit_eq_mod)

lemma small_count: "0 \<le> n \<Longrightarrow> n < 2 ^ 31 \<Longrightarrow> sint (ucast (of_int n :: uint64) :: uint32) = n"
proof -
  assume n: "0 \<le> n" "n < 2 ^ 31"
  have "(ucast (of_int n :: uint64) :: uint32) = of_int n"
    using n by (simp add: unsigned_of_int take_bit_int_eq_self)
  then show ?thesis using n by (simp add: signed_of_int signed_take_bit_int_eq_self)
qed

lemma process_count_tag:
  assumes "i < 2 ^ 31" and "0 \<le> n" and "n < 2 ^ 31"
  shows "process_name (count_tag i n) m = Inr (if n = 0 then sm_erase i m
    else sm_put i (case map_of m i of None \<Rightarrow> [] | Some (name, _) \<Rightarrow> name, n) m)"
proof -
  have "GetTagByName (count_tag i n) EC_TAG_PARTFILE_SOURCE_NAMES = None"
    and "GetTagByNameSafe (count_tag i n) EC_TAG_PARTFILE_SOURCE_NAMES_COUNTS =
      InitInt EC_TAG_PARTFILE_SOURCE_NAMES_COUNTS (of_int n)"
    by (simp_all add: count_tag_def GetTagByName_def GetTagByNameSafe_def AddTag_def InitInt_def)
  moreover have "GetInt (count_tag i n) = Inr (of_nat i)"
    using GetInt_InitInt [of EC_TAG_PARTFILE_SOURCE_NAMES "of_nat i"]
    by (simp add: count_tag_def AddTag_def GetInt_def InitInt_def split: if_splits)
  ultimately show ?thesis
    using small_id [OF assms(1)] small_count [OF assms(2,3)]
    by (simp add: process_name_def GetInt_InitInt Let_def)
qed

lemma known_names_process:
  assumes "known_names items nm = (items', left, tags)" and "sm_ok (done @ items)" and "sm_ok nm"
    and "\<forall>p \<in> set items. fst p < 2 ^ 31" and "\<forall>(name, n) \<in> set nm. 0 < n \<and> n < 2 ^ 31"
  shows "process_names tags (done @ items) = Inr (done @ items') \<and> sm_ok (done @ items') \<and>
    fst ` set items' \<subseteq> fst ` set items \<and> set (map snd items') \<union> set left = set nm \<and> sm_ok left"
  using assms
proof (induction items nm arbitrary: items' left tags "done" rule: known_names.induct)
  case (2 i name count items nm)
  have i: "i < 2 ^ 31" using 2(6) by simp
  show ?case
  proof (cases "map_of nm name")
    case None
    obtain tags1 where k: "known_names items nm = (items', left, tags1)" "tags = count_tag i 0 # tags1"
      using 2(3) None by (auto split: prod.splits)
    have "sm_erase i (done @ (i, name, count) # items) = done @ items" using 2(4) by (rule sm_erase_mid)
    moreover have "sm_ok (done @ items)" using 2(4) by (auto simp: sm_ok_append sm_ok_Cons)
    ultimately show ?thesis
      using 2(1) [OF None k(1), of "done"] 2(5-7) k(2) process_count_tag [OF i, of 0 "done @ (i, name, count) # items"]
      by auto
  next
    case (Some n)
    obtain items1 tags1 where k: "known_names items (sm_erase name nm) = (items1, left, tags1)"
      "items' = (i, name, n) # items1" "tags = (if count \<noteq> n then count_tag i n # tags1 else tags1)"
      using 2(3) Some by (auto split: prod.splits)
    have mem: "(name, n) \<in> set nm" using Some by (rule map_of_SomeD)
    then have n: "0 < n" "n < 2 ^ 31" using 2(7) by auto
    let ?m = "done @ (i, name, count) # items" and ?m' = "(done @ [(i, name, n)]) @ items"
    have ok': "sm_ok ?m'" using 2(4) by (auto simp: sm_ok_append sm_ok_Cons)
    have "map_of ?m i = Some (name, count)" using sm_ok_mem [OF 2(4), of i "(name, count)"] by simp
    then have step: "process_name (count_tag i n) ?m = Inr ?m'"
      using process_count_tag [OF i, of n ?m] n sm_put_mid [OF 2(4), of "(name, n)"] by simp
    have sub: "set (sm_erase name nm) = set nm - {(name, n)}"
      using 2(5) mem by (auto simp: sm_erase_def sm_ok_mem)
    have "process_names tags1 ?m' = Inr ((done @ [(i, name, n)]) @ items1) \<and> sm_ok ((done @ [(i, name, n)]) @ items1) \<and>
        fst ` set items1 \<subseteq> fst ` set items \<and> set (map snd items1) \<union> set left = set (sm_erase name nm) \<and> sm_ok left"
      by (rule 2(2) [OF Some k(1) ok'])
        (use 2(5-7) sub in \<open>auto simp: sm_ok_sm_erase\<close>)
    then show ?thesis using k(2,3) step sub mem by auto
  qed
qed simp

lemma process_new_name:
  assumes "i < 2 ^ 31" and "0 < n" and "n < 2 ^ 31" and "0 \<notin> set name"
  shows "process_name (AddTag (AddTag (InitInt EC_TAG_PARTFILE_SOURCE_NAMES (of_nat i))
      (ConstructStringTag EC_TAG_PARTFILE_SOURCE_NAMES name))
      (InitInt EC_TAG_PARTFILE_SOURCE_NAMES_COUNTS (of_int n))) m = Inr (sm_put i (name, n) m)"
proof -
  let ?t = "AddTag (AddTag (InitInt EC_TAG_PARTFILE_SOURCE_NAMES (of_nat i))
      (ConstructStringTag EC_TAG_PARTFILE_SOURCE_NAMES name))
      (InitInt EC_TAG_PARTFILE_SOURCE_NAMES_COUNTS (of_int n))"
  have "GetTagByName ?t EC_TAG_PARTFILE_SOURCE_NAMES = Some (ConstructStringTag EC_TAG_PARTFILE_SOURCE_NAMES name)"
    and "GetTagByNameSafe ?t EC_TAG_PARTFILE_SOURCE_NAMES_COUNTS = InitInt EC_TAG_PARTFILE_SOURCE_NAMES_COUNTS (of_int n)"
    by (simp_all add: GetTagByName_def GetTagByNameSafe_def AddTag_def InitInt_def ConstructStringTag_def)
  moreover have "GetInt ?t = Inr (of_nat i)"
    using GetInt_InitInt [of EC_TAG_PARTFILE_SOURCE_NAMES "of_nat i"]
    by (simp add: AddTag_def GetInt_def InitInt_def split: if_splits)
  moreover have "takeWhile (\<lambda>b. b \<noteq> 0) name = name"
    using assms(4) by (auto simp: takeWhile_eq_all_conv)
  then have "GetStringDataSTL (ConstructStringTag EC_TAG_PARTFILE_SOURCE_NAMES name) = Inr name"
    using assms(4) by (simp add: GetStringDataSTL_def ConstructStringTag_def takeWhile_append)
  ultimately show ?thesis
    using small_id [OF assms(1)] small_count [of n] assms(2,3)
    by (simp add: process_name_def GetInt_InitInt Let_def)
qed

lemma new_names_process:
  assumes "new_names left lastID items = (lastID', items', tags)" and "name_map_ok lastID items"
    and "lastID + length left < 2 ^ 31" and "\<forall>(name, n) \<in> set left. 0 < n \<and> n < 2 ^ 31 \<and> 0 \<notin> set name"
  shows "process_names tags items = Inr items' \<and> name_map_ok lastID' items' \<and>
    lastID' = lastID + length left \<and> set (map snd items') = set (map snd items) \<union> set left"
  using assms
proof (induction left lastID items arbitrary: lastID' items' tags rule: new_names.induct)
  case (2 name n left lastID items)
  let ?items = "sm_put (lastID + 1) (name, n) items"
  have put: "?items = items @ [(lastID + 1, name, n)]"
    by (rule sm_put_last) (use 2(3) in \<open>auto simp: name_map_ok_def\<close>)
  have ok: "name_map_ok (lastID + 1) ?items"
    unfolding put using 2(3) by (fastforce simp: name_map_ok_def sm_ok_append sm_ok_Cons)
  obtain tags1 where k: "new_names left (lastID + 1) ?items = (lastID', items', tags1)"
    and tags: "tags = AddTag (AddTag (InitInt EC_TAG_PARTFILE_SOURCE_NAMES (of_nat (lastID + 1)))
      (ConstructStringTag EC_TAG_PARTFILE_SOURCE_NAMES name))
      (InitInt EC_TAG_PARTFILE_SOURCE_NAMES_COUNTS (of_int n)) # tags1"
    using 2(2) by (auto simp: Let_def split: prod.splits)
  have "process_names tags1 ?items = Inr items' \<and> name_map_ok lastID' items' \<and>
      lastID' = lastID + 1 + length left \<and> set (map snd items') = set (map snd ?items) \<union> set left"
    by (rule 2(1) [OF refl refl k ok]) (use 2(4,5) in auto)
  moreover have "process_names tags items = process_names tags1 ?items"
    unfolding tags using process_new_name [of "lastID + 1" n name items] 2(4,5) by simp
  ultimately show ?case unfolding put by auto
qed simp

section \<open>One poll\<close>

definition shows_gaps :: "rle_data \<Rightarrow> part_client \<Rightarrow> bool" where
  "shows_gaps r c \<longleftrightarrow> (\<exists>ws. m_buff r = byte_planes ws \<and> rebuild (c_filesize c) ws = Inr (c_gaplist c))"

definition shows_reqs :: "rle_data \<Rightarrow> part_client \<Rightarrow> bool" where
  "shows_reqs r c \<longleftrightarrow> (\<exists>ws. m_buff r = byte_planes ws \<and> c_requestedblocks c = pairs ws)"

definition shows_parts :: "rle_data \<Rightarrow> part_client \<Rightarrow> bool" where
  "shows_parts r c \<longleftrightarrow> c_SrcpartFrequency c = map ucast (m_buff r)"

definition diff_ok :: "rle_data \<Rightarrow> bool" where
  "diff_ok r \<longleftrightarrow> rle_ok r \<and> m_use_diff r"

lemma holds_same: "rle_ok r \<Longrightarrow> holds r (m_buff r) = r"
  by (simp add: holds_def rle_ok_def)

lemma diff_ok_holds [simp]: "diff_ok r \<Longrightarrow> diff_ok (holds r data)"
  by (simp add: diff_ok_def) (simp add: holds_def)

lemma tag_bytes_custom: "length bs < 65536 \<Longrightarrow> tag_bytes (custom_tag name bs) = bs"
  by (simp add: tag_bytes_def GetTagDataLen_def custom_tag_def unat_of_nat take_bit_eq_mod)

lemma Encode64_sent:
  assumes "diff_ok r" and "length ws \<le> 5461"
  shows "\<exists>bs. Encode64 r ws = Inr (holds r (byte_planes ws), bs, byte_planes ws \<noteq> m_buff r) \<and>
    tag_bytes (custom_tag name bs) = bs \<and> Decode64 r bs = Inr (holds r (byte_planes ws), ws)"
proof -
  have r: "rle_ok r" "m_use_diff r" using assms(1) by (simp_all add: diff_ok_def)
  obtain bs ch where bs: "Encode64 r ws = Inr (holds r (byte_planes ws), bs, ch)" "ch \<longleftrightarrow> byte_planes ws \<noteq> m_buff r"
    and d: "Decode64 r bs = Inr (holds r (byte_planes ws), ws)"
    using Encode64_Decode [OF r(1), of ws] r(2) by blast
  have "Encode64 r ws = Encode r (byte_planes ws)"
    using length_byte_planes [of "[]"] by (simp add: Encode64_def)
  then have "2 * length bs \<le> 3 * (8 * length ws)"
    using Encode_holds [OF r(1), of "byte_planes ws"] bs(1) by (auto simp: length_byte_planes)
  then have "length bs < 65536" using assms(2) by simp
  then show ?thesis using bs d tag_bytes_custom by blast
qed

lemma process_gaps_sent:
  assumes "diff_ok r" and "length ws \<le> 5461" and "c_gap_status c = r"
    and "rebuild (c_filesize c) ws = Inr g" and "shows_gaps r c \<or> byte_planes ws \<noteq> m_buff r"
  shows "\<exists>bs. Encode64 r ws = Inr (holds r (byte_planes ws), bs, byte_planes ws \<noteq> m_buff r) \<and>
    process_gaps (if byte_planes ws \<noteq> m_buff r then Some (custom_tag name bs) else None) c =
      Inr (c\<lparr>c_gap_status := holds r (byte_planes ws), c_gaplist := g\<rparr>)"
proof -
  obtain bs where bs: "Encode64 r ws = Inr (holds r (byte_planes ws), bs, byte_planes ws \<noteq> m_buff r)"
    "tag_bytes (custom_tag name bs) = bs" "Decode64 r bs = Inr (holds r (byte_planes ws), ws)"
    using Encode64_sent [OF assms(1,2)] by blast
  show ?thesis
  proof (cases "byte_planes ws = m_buff r")
    case True
    then have "rebuild (c_filesize c) ws = Inr (c_gaplist c)"
      using assms(5) by (auto simp: shows_gaps_def byte_planes_inj)
    then show ?thesis
      using bs True assms(1,3,4) holds_same [of r] by (simp add: process_gaps_def diff_ok_def)
  next
    case False
    then show ?thesis using bs assms(3,4) by (simp add: process_gaps_def)
  qed
qed

lemma process_reqs_sent:
  assumes "diff_ok r" and "length ws \<le> 5461" and "c_req_status c = r"
    and "shows_reqs r c \<or> byte_planes ws \<noteq> m_buff r"
  shows "\<exists>bs. Encode64 r ws = Inr (holds r (byte_planes ws), bs, byte_planes ws \<noteq> m_buff r) \<and>
    process_reqs (if byte_planes ws \<noteq> m_buff r then Some (custom_tag name bs) else None) c =
      Inr (c\<lparr>c_req_status := holds r (byte_planes ws), c_requestedblocks := pairs ws\<rparr>)"
proof -
  obtain bs where bs: "Encode64 r ws = Inr (holds r (byte_planes ws), bs, byte_planes ws \<noteq> m_buff r)"
    "tag_bytes (custom_tag name bs) = bs" "Decode64 r bs = Inr (holds r (byte_planes ws), ws)"
    using Encode64_sent [OF assms(1,2)] by blast
  show ?thesis
  proof (cases "byte_planes ws = m_buff r")
    case True
    then have "c_requestedblocks c = pairs ws"
      using assms(4) by (auto simp: shows_reqs_def byte_planes_inj)
    then show ?thesis
      using bs True assms(1,3) holds_same [of r] by (simp add: process_reqs_def diff_ok_def)
  next
    case False
    then show ?thesis using bs assms(3) by (simp add: process_reqs_def)
  qed
qed

lemma process_parts_sent:
  assumes "diff_ok r" and "length freq \<le> 43690" and "c_part_status c = r"
    and "shows_parts r c \<or> map clamp8 freq \<noteq> m_buff r"
  shows "\<exists>bs. Encode16 r freq = Inr (holds r (map clamp8 freq), bs, map clamp8 freq \<noteq> m_buff r) \<and>
    process_parts (if map clamp8 freq \<noteq> m_buff r then Some (custom_tag name bs) else None) c =
      Inr (c\<lparr>c_part_status := holds r (map clamp8 freq), c_SrcpartFrequency := map (ucast \<circ> clamp8) freq\<rparr>)"
proof -
  have r: "rle_ok r" "m_use_diff r" using assms(1) by (simp_all add: diff_ok_def)
  obtain bs ch where bs: "Encode16 r freq = Inr (holds r (map clamp8 freq), bs, ch)" "ch \<longleftrightarrow> map clamp8 freq \<noteq> m_buff r"
    and d: "DecodeParts r bs = Inr (holds r (map clamp8 freq), map (ucast \<circ> clamp8) freq)"
    using Encode16_Decode [OF r(1), of freq] r(2) by blast
  have "Encode16 r freq = Encode r (map clamp8 freq)" by (simp add: Encode16_def clamp8_def [abs_def])
  then have "2 * length bs \<le> 3 * length freq"
    using Encode_holds [OF r(1), of "map clamp8 freq"] bs(1) by auto
  then have "length bs < 65536" using assms(2) by simp
  then have t: "tag_bytes (custom_tag name bs) = bs" by (rule tag_bytes_custom)
  show ?thesis
  proof (cases "map clamp8 freq = m_buff r")
    case True
    then have "c_SrcpartFrequency c = map (ucast \<circ> clamp8) freq"
      using assms(4) by (metis shows_parts_def map_map)
    then show ?thesis
      using bs True assms(3) holds_same [OF r(1)] by (simp add: process_parts_def)
  next
    case False
    then show ?thesis using bs d t assms(3) by (simp add: process_parts_def)
  qed
qed

definition part_sync :: "part_encoder \<Rightarrow> part_client \<Rightarrow> bool" where
  "part_sync e c \<longleftrightarrow>
     diff_ok (m_enc_data e) \<and> diff_ok (m_gap_status e) \<and> diff_ok (m_req_status e) \<and>
     c_part_status c = m_enc_data e \<and> c_gap_status c = m_gap_status e \<and> c_req_status c = m_req_status e \<and>
     c_sourcenames c = m_sourcenameItemMap e \<and> name_map_ok (m_sourcenameID e) (m_sourcenameItemMap e)"

text \<open>
  What the client shows is what was last encoded; where nothing was encoded yet it is enough that the
  next poll has something to send.
\<close>

definition up_to_date :: "part_encoder \<Rightarrow> part_client \<Rightarrow> bool" where
  "up_to_date e c \<longleftrightarrow> shows_parts (m_enc_data e) c \<and> shows_gaps (m_gap_status e) c \<and> shows_reqs (m_req_status e) c"

definition will_show :: "part_encoder \<Rightarrow> part_client \<Rightarrow> part_view \<Rightarrow> bool" where
  "will_show e c v \<longleftrightarrow>
     (shows_parts (m_enc_data e) c \<or> map clamp8 (v_frequency v) \<noteq> m_buff (m_enc_data e)) \<and>
     (shows_gaps (m_gap_status e) c \<or> byte_planes (gap_words (v_gaplist v)) \<noteq> m_buff (m_gap_status e)) \<and>
     (shows_reqs (m_req_status e) c \<or> byte_planes (req_words (v_requested v)) \<noteq> m_buff (m_req_status e))"

definition view_ok :: "nat \<Rightarrow> part_view \<Rightarrow> bool" where
  "view_ok filesize v \<longleftrightarrow>
     gaplist_inv (v_gaplist v) \<and> m_filesize (v_gaplist v) = filesize \<and> length (m_gaplist (v_gaplist v)) \<le> 2730 \<and>
     v_frequency v \<noteq> [] \<and> length (v_frequency v) \<le> 43690 \<and> length (v_requested v) \<le> 2730 \<and>
     (\<forall>(q, name) \<in> set (v_sources v). 0 \<notin> set name)"

definition client_shows :: "part_client \<Rightarrow> part_view \<Rightarrow> bool" where
  "client_shows c v \<longleftrightarrow>
     missing (c_gaplist c) = missing (v_gaplist v) \<and>
     c_SrcpartFrequency c = map (ucast \<circ> clamp8) (v_frequency v) \<and>
     c_requestedblocks c = v_requested v \<and>
     set (map snd (c_sourcenames c)) = name_counts (v_sources v)"

lemma GetTagByName_AddTag:
  "GetTagByName (AddTag p t) n =
     (case GetTagByName p n of Some c \<Rightarrow> Some c | None \<Rightarrow> if m_tagName t = n then Some t else None)"
proof -
  have "find P (xs @ [t]) = (case find P xs of Some c \<Rightarrow> Some c | None \<Rightarrow> if P t then Some t else None)" for P xs
    by (induction xs) auto
  then show ?thesis by (simp add: GetTagByName_def AddTag_def)
qed

lemma length_valid_names: "length (valid_names sources) \<le> length sources"
  by (simp add: valid_names_def)

lemma Encode_names_process:
  assumes "name_map_ok (m_sourcenameID e) (m_sourcenameItemMap e)"
    and "m_sourcenameID e + length sources < 2 ^ 31" and "\<forall>(q, name) \<in> set sources. 0 \<notin> set name"
  shows "\<exists>items lastID tags. Encode_names e sources parent =
      (e\<lparr>m_sourcenameItemMap := items, m_sourcenameID := lastID\<rparr>,
       if tags \<noteq> [] then AddTag parent (ECTag EC_TAG_PARTFILE_SOURCE_NAMES EC_TAGTYPE_CUSTOM [] tags) else parent) \<and>
    process_names tags (m_sourcenameItemMap e) = Inr items \<and> name_map_ok lastID items \<and>
    lastID \<le> m_sourcenameID e + length sources \<and> set (map snd items) = name_counts sources"
proof -
  let ?nm = "fold count_name sources []" and ?m = "m_sourcenameItemMap e"
  obtain items left tags where k: "known_names ?m ?nm = (items, left, tags)" by (cases "known_names ?m ?nm") auto
  obtain lastID items' tags' where n: "new_names left (m_sourcenameID e) items = (lastID, items', tags')"
    by (cases "new_names left (m_sourcenameID e) items") auto
  have nm: "set ?nm = name_counts sources" by (rule set_count_names)
  have vals: "0 < c \<and> c < 2 ^ 31 \<and> 0 \<notin> set name" if mem: "(name, c) \<in> set ?nm" for name c
  proof -
    have "name \<in> set (valid_names sources)" "c = int (count_list (valid_names sources) name)"
      using mem unfolding nm name_counts_def by auto
    moreover have "count_list (valid_names sources) name \<le> length sources"
      using count_le_length [of "valid_names sources" name] length_valid_names [of sources] by linarith
    moreover have "count_list (valid_names sources) name \<noteq> 0" using calculation(1) by (simp add: count_list_0_iff)
    moreover have "0 \<notin> set name" using calculation(1) assms(3) by (auto simp: valid_names_def)
    ultimately show ?thesis using assms(2) by simp
  qed
  have ok: "sm_ok ?m" "\<forall>p \<in> set ?m. fst p \<le> m_sourcenameID e" using assms(1) by (simp_all add: name_map_ok_def)
  have 1: "process_names tags ?m = Inr items" "sm_ok items" "fst ` set items \<subseteq> fst ` set ?m"
    "set (map snd items) \<union> set left = set ?nm" "sm_ok left"
  proof -
    have "\<forall>p \<in> set ?m. fst p < 2 ^ 31" using ok(2) assms(2) by fastforce
    moreover have "\<forall>(name, n) \<in> set ?nm. 0 < n \<and> n < 2 ^ 31" using vals by blast
    ultimately have "process_names tags ([] @ ?m) = Inr ([] @ items) \<and> sm_ok ([] @ items) \<and>
        fst ` set items \<subseteq> fst ` set ?m \<and> set (map snd items) \<union> set left = set ?nm \<and> sm_ok left"
      using ok(1) count_names [of sources] by (intro known_names_process [OF k]) simp_all
    then show "process_names tags ?m = Inr items" "sm_ok items" "fst ` set items \<subseteq> fst ` set ?m"
      "set (map snd items) \<union> set left = set ?nm" "sm_ok left" by simp_all
  qed
  have "length left = card (set left)"
    using sm_ok_distinct [OF 1(5)] by (simp add: distinct_card distinct_map)
  also have "\<dots> \<le> card (name_counts sources)" using 1(4) nm by (intro card_mono) (auto simp: name_counts_def)
  also have "\<dots> \<le> card (set (valid_names sources))" unfolding name_counts_def by (rule card_image_le) simp
  also have "\<dots> \<le> length sources"
    using card_length [of "valid_names sources"] length_valid_names [of sources] by linarith
  finally have len: "length left \<le> length sources" .
  have 2: "process_names tags' items = Inr items' \<and> name_map_ok lastID items' \<and>
      lastID = m_sourcenameID e + length left \<and> set (map snd items') = set (map snd items) \<union> set left"
  proof (rule new_names_process [OF n])
    show "name_map_ok (m_sourcenameID e) items" using 1(2,3) ok(2) by (force simp: name_map_ok_def)
    show "m_sourcenameID e + length left < 2 ^ 31" using len assms(2) by simp
    show "\<forall>(name, n) \<in> set left. 0 < n \<and> n < 2 ^ 31 \<and> 0 \<notin> set name" using 1(4) vals by blast
  qed
  have append: "process_names (xs @ ys) m = sum_bind (process_names xs m) (process_names ys)" for xs ys m
  proof (induction xs arbitrary: m)
    case (Cons x xs)
    then show ?case by (cases "process_name x m") simp_all
  qed simp
  have "process_names (tags @ tags') ?m = Inr items'" using 1(1) 2 by (simp add: append)
  moreover have "Encode_names e sources parent =
      (e\<lparr>m_sourcenameItemMap := items', m_sourcenameID := lastID\<rparr>,
       if tags @ tags' \<noteq> [] then AddTag parent (ECTag EC_TAG_PARTFILE_SOURCE_NAMES EC_TAGTYPE_CUSTOM [] (tags @ tags')) else parent)"
    using k n by (simp add: Encode_names_def Let_def)
  moreover have "set (map snd items') = name_counts sources" using 2 1(4) nm by simp
  ultimately show ?thesis using 2 len
    by (intro exI [of _ items'] exI [of _ lastID] exI [of _ "tags @ tags'"]) auto
qed

text \<open>One poll: the daemon encodes into a fresh tag, the remote GUI processes it.\<close>

definition poll :: "part_encoder \<Rightarrow> part_client \<Rightarrow> part_view \<Rightarrow> fault + part_encoder \<times> part_client" where
  "poll e c v =
     sum_bind (Encode_part e v null_tag) (\<lambda>(e', tag).
     sum_bind (ProcessItemUpdatePartfile c tag) (\<lambda>c'. Inr (e', c')))"

fun polls :: "part_encoder \<Rightarrow> part_client \<Rightarrow> part_view list \<Rightarrow> fault + part_encoder \<times> part_client" where
  "polls e c [] = Inr (e, c)"
| "polls e c (v # vs) = sum_bind (poll e c v) (\<lambda>(e', c'). polls e' c' vs)"

lemma Encode_part_eq:
  assumes "v_frequency v \<noteq> []" and "Encode16 (m_enc_data e) (v_frequency v) = Inr (rp, pb, pc)"
    and "Encode64 (m_gap_status e) (gap_words (v_gaplist v)) = Inr (rg, gb, gc)"
    and "Encode64 (m_req_status e) (req_words (v_requested v)) = Inr (rq, qb, qc)"
    and "p1 = (if pc then AddTag parent (custom_tag EC_TAG_PARTFILE_PART_STATUS pb) else parent)"
    and "p2 = (if gc then AddTag p1 (custom_tag EC_TAG_PARTFILE_GAP_STATUS gb) else p1)"
    and "p3 = (if qc then AddTag p2 (custom_tag EC_TAG_PARTFILE_REQ_STATUS qb) else p2)"
  shows "Encode_part e v parent =
    Inr (Encode_names (e\<lparr>m_enc_data := rp, m_gap_status := rg, m_req_status := rq\<rparr>) (v_sources v) p3)"
  unfolding assms(5-7) using assms(1-4) by (simp add: Encode_part_def Encode_known_def Let_def)

lemma poll_step:
  assumes sync: "part_sync e c" and v: "view_ok (c_filesize c) v" and sends: "will_show e c v"
    and ids: "m_sourcenameID e + length (v_sources v) < 2 ^ 31"
  shows "\<exists>e' c'. poll e c v = Inr (e', c') \<and> part_sync e' c' \<and> up_to_date e' c' \<and> client_shows c' v \<and>
    c_filesize c' = c_filesize c \<and> m_sourcenameID e' \<le> m_sourcenameID e + length (v_sources v)"
proof -
  let ?g = "gap_words (v_gaplist v)" and ?q = "req_words (v_requested v)" and ?f = "v_frequency v"
  let ?rp = "m_enc_data e" and ?rg = "m_gap_status e" and ?rq = "m_req_status e"
  let ?rp' = "holds ?rp (map clamp8 ?f)" and ?rg' = "holds ?rg (byte_planes ?g)" and ?rq' = "holds ?rq (byte_planes ?q)"
  let ?pc = "map clamp8 ?f \<noteq> m_buff ?rp" and ?gc = "byte_planes ?g \<noteq> m_buff ?rg" and ?qc = "byte_planes ?q \<noteq> m_buff ?rq"
  have vv: "gaplist_inv (v_gaplist v)" "m_filesize (v_gaplist v) = c_filesize c" "length ?g \<le> 5461"
    "length ?q \<le> 5461" "?f \<noteq> []" "length ?f \<le> 43690" "\<forall>(q, name) \<in> set (v_sources v). 0 \<notin> set name"
    using v by (simp_all add: view_ok_def length_gap_words length_req_words)
  have sy: "diff_ok ?rp" "diff_ok ?rg" "diff_ok ?rq" "c_part_status c = ?rp" "c_gap_status c = ?rg"
    "c_req_status c = ?rq" "c_sourcenames c = m_sourcenameItemMap e"
    "name_map_ok (m_sourcenameID e) (m_sourcenameItemMap e)"
    using sync by (simp_all add: part_sync_def)
  obtain g where g: "rebuild (c_filesize c) ?g = Inr g" "missing g = missing (v_gaplist v)"
    using rebuild_missing [OF vv(1,2)] by blast
  let ?c1 = "c\<lparr>c_gap_status := ?rg', c_gaplist := g\<rparr>"
  let ?c2 = "?c1\<lparr>c_part_status := ?rp', c_SrcpartFrequency := map (ucast \<circ> clamp8) ?f\<rparr>"
  let ?c3 = "?c2\<lparr>c_req_status := ?rq', c_requestedblocks := pairs ?q\<rparr>"
  have sg: "shows_gaps ?rg c \<or> ?gc" and sp: "shows_parts ?rp ?c1 \<or> ?pc" and sq: "shows_reqs ?rq ?c2 \<or> ?qc"
    using sends by (simp_all add: will_show_def shows_parts_def shows_reqs_def)
  obtain gb where gb: "Encode64 ?rg ?g = Inr (?rg', gb, ?gc)"
    "process_gaps (if ?gc then Some (custom_tag EC_TAG_PARTFILE_GAP_STATUS gb) else None) c = Inr ?c1"
    using process_gaps_sent [OF sy(2) vv(3) sy(5) g(1) sg] by blast
  obtain pb where pb: "Encode16 ?rp ?f = Inr (?rp', pb, ?pc)"
    "process_parts (if ?pc then Some (custom_tag EC_TAG_PARTFILE_PART_STATUS pb) else None) ?c1 = Inr ?c2"
    using process_parts_sent [OF sy(1) vv(6) _ sp] sy(4) by auto
  obtain qb where qb: "Encode64 ?rq ?q = Inr (?rq', qb, ?qc)"
    "process_reqs (if ?qc then Some (custom_tag EC_TAG_PARTFILE_REQ_STATUS qb) else None) ?c2 = Inr ?c3"
    using process_reqs_sent [OF sy(3) vv(4) _ sq] sy(6) by auto
  let ?e3 = "e\<lparr>m_enc_data := ?rp', m_gap_status := ?rg', m_req_status := ?rq'\<rparr>"
  define p1 where "p1 = (if ?pc then AddTag null_tag (custom_tag EC_TAG_PARTFILE_PART_STATUS pb) else null_tag)"
  define p2 where "p2 = (if ?gc then AddTag p1 (custom_tag EC_TAG_PARTFILE_GAP_STATUS gb) else p1)"
  define p3 where "p3 = (if ?qc then AddTag p2 (custom_tag EC_TAG_PARTFILE_REQ_STATUS qb) else p2)"
  obtain items lastID tags where names: "Encode_names ?e3 (v_sources v) p3 =
      (?e3\<lparr>m_sourcenameItemMap := items, m_sourcenameID := lastID\<rparr>,
       if tags \<noteq> [] then AddTag p3 (ECTag EC_TAG_PARTFILE_SOURCE_NAMES EC_TAGTYPE_CUSTOM [] tags) else p3)"
    "process_names tags (m_sourcenameItemMap e) = Inr items" "name_map_ok lastID items"
    "lastID \<le> m_sourcenameID e + length (v_sources v)" "set (map snd items) = name_counts (v_sources v)"
    using Encode_names_process [of ?e3 "v_sources v" p3] sy(8) ids vv(7) by auto
  let ?e4 = "?e3\<lparr>m_sourcenameItemMap := items, m_sourcenameID := lastID\<rparr>"
  define p4 where "p4 = (if tags \<noteq> [] then AddTag p3 (ECTag EC_TAG_PARTFILE_SOURCE_NAMES EC_TAGTYPE_CUSTOM [] tags) else p3)"
  have enc: "Encode_part e v null_tag = Inr (?e4, p4)"
    using Encode_part_eq [OF vv(5) pb(1) gb(1) qb(1) p1_def p2_def p3_def] names(1) by (simp add: p4_def)
  have tags: "GetTagByName p4 EC_TAG_PARTFILE_GAP_STATUS = (if ?gc then Some (custom_tag EC_TAG_PARTFILE_GAP_STATUS gb) else None)"
    "GetTagByName p4 EC_TAG_PARTFILE_PART_STATUS = (if ?pc then Some (custom_tag EC_TAG_PARTFILE_PART_STATUS pb) else None)"
    "GetTagByName p4 EC_TAG_PARTFILE_REQ_STATUS = (if ?qc then Some (custom_tag EC_TAG_PARTFILE_REQ_STATUS qb) else None)"
    "GetTagByName p4 EC_TAG_PARTFILE_SOURCE_NAMES =
      (if tags \<noteq> [] then Some (ECTag EC_TAG_PARTFILE_SOURCE_NAMES EC_TAGTYPE_CUSTOM [] tags) else None)"
  proof -
    have null: "GetTagByName null_tag n = None" for n by (simp add: GetTagByName_def null_tag_def)
    have name: "m_tagName (custom_tag n bs) = n" for n bs by (simp add: custom_tag_def)
    show "GetTagByName p4 EC_TAG_PARTFILE_GAP_STATUS = (if ?gc then Some (custom_tag EC_TAG_PARTFILE_GAP_STATUS gb) else None)"
      "GetTagByName p4 EC_TAG_PARTFILE_PART_STATUS = (if ?pc then Some (custom_tag EC_TAG_PARTFILE_PART_STATUS pb) else None)"
      "GetTagByName p4 EC_TAG_PARTFILE_REQ_STATUS = (if ?qc then Some (custom_tag EC_TAG_PARTFILE_REQ_STATUS qb) else None)"
      "GetTagByName p4 EC_TAG_PARTFILE_SOURCE_NAMES =
        (if tags \<noteq> [] then Some (ECTag EC_TAG_PARTFILE_SOURCE_NAMES EC_TAGTYPE_CUSTOM [] tags) else None)"
      by (simp_all add: p4_def p3_def p2_def p1_def GetTagByName_AddTag null name)
  qed
  let ?c4 = "?c3\<lparr>c_sourcenames := items\<rparr>"
  have same: "items = m_sourcenameItemMap e" if "tags = []" using names(2) that by simp
  have "ProcessItemUpdatePartfile c p4 = Inr ?c4"
    unfolding ProcessItemUpdatePartfile_def tags gb(2) pb(2) qb(2) sum_bind.simps
    using names(2) same sy(7) by (cases "tags = []") simp_all
  then have "poll e c v = Inr (?e4, ?c4)" using enc by (simp add: poll_def)
  moreover have "part_sync ?e4 ?c4" using sy names(3) by (simp add: part_sync_def)
  moreover have "up_to_date ?e4 ?c4"
  proof -
    have "m_buff (holds r x) = x" for r x by (simp add: holds_def)
    then show ?thesis using g(1) by (auto simp: up_to_date_def shows_gaps_def shows_reqs_def shows_parts_def byte_planes_inj)
  qed
  moreover have "client_shows ?c4 v" using g(2) names(5) by (simp add: client_shows_def pairs_req_words)
  ultimately show ?thesis using names(4) by (intro exI [of _ ?e4] exI [of _ ?c4]) simp
qed

lemma up_to_date_will_show: "up_to_date e c \<Longrightarrow> will_show e c v"
  by (simp add: up_to_date_def will_show_def)

lemma polls_show:
  assumes "part_sync e c" and "\<forall>v \<in> set vs. view_ok (c_filesize c) v" and "vs \<noteq> []" and "will_show e c (hd vs)"
    and "m_sourcenameID e + sum_list (map (length \<circ> v_sources) vs) < 2 ^ 31"
  shows "\<exists>e' c'. polls e c vs = Inr (e', c') \<and> client_shows c' (last vs)"
  using assms
proof (induction vs arbitrary: e c)
  case (Cons v vs)
  obtain e1 c1 where 1: "poll e c v = Inr (e1, c1)" "part_sync e1 c1" "up_to_date e1 c1" "client_shows c1 v"
    "c_filesize c1 = c_filesize c" "m_sourcenameID e1 \<le> m_sourcenameID e + length (v_sources v)"
    using poll_step [of e c v] Cons.prems by auto
  show ?case
  proof (cases "vs = []")
    case True
    then show ?thesis using 1 by simp
  next
    case False
    have "\<exists>e' c'. polls e1 c1 vs = Inr (e', c') \<and> client_shows c' (last vs)"
      by (rule Cons.IH [OF 1(2)]) (use Cons.prems 1 False up_to_date_will_show in auto)
    then show ?thesis using 1(1) False by simp
  qed
qed simp

section \<open>Properties\<close>

text \<open>A file the remote GUI has just been told of: \<open>Init(size, true)\<close>, no status yet.\<close>

definition new_client :: "nat \<Rightarrow> gaplist \<Rightarrow> part_client" where
  "new_client filesize g =
     \<lparr>c_filesize = filesize, c_gaplist = g, c_SrcpartFrequency = [], c_requestedblocks = [], c_sourcenames = [],
      c_part_status = rle_setup 0 True None, c_gap_status = rle_setup 0 True None,
      c_req_status = rle_setup 0 True None\<rparr>"

lemma new_sync: "part_sync new_encoder (new_client n g)"
  by (simp add: part_sync_def new_encoder_def new_client_def diff_ok_def rle_ok_setup name_map_ok_def)
    (simp add: rle_setup_def)

lemma byte_planes_empty [simp]: "byte_planes [] = []"
  using length_byte_planes [of "[]"] by simp

lemma byte_planes_Nil: "byte_planes xs = [] \<longleftrightarrow> xs = []"
  using length_byte_planes [of xs] by (metis length_0_conv mult_eq_0_iff zero_neq_numeral)

lemma gap_words_Nil: "gap_words g = [] \<longleftrightarrow> m_gaplist g = []"
  using length_gap_words [of g] by (metis length_0_conv mult_eq_0_iff zero_neq_numeral)

text \<open>
  C18. A whole session: daemon and remote GUI start fresh for a file, with something still missing, and
  the daemon encodes one view of the file after the other, of which only the changed parts travel. No
  step of encoding, transport or decoding fails, and after the last poll the remote GUI shows the last
  view: the same missing bytes, the availability of the parts (clamped to 255), the requested blocks,
  and exactly the names under which sources offer the file with their counts. At most 2730 gaps and
  2730 requested blocks keep the tag data below 64 KiB. Where nothing is missing at the first poll the remote GUI shows
  every byte as missing instead (\<open>complete_file_not_sent\<close>).
\<close>

theorem session_shows_last_view:
  assumes "Init n True = Inr g0" and "vs \<noteq> []" and "m_gaplist (v_gaplist (hd vs)) \<noteq> []"
    and "\<forall>v \<in> set vs. view_ok n v" and "sum_list (map (length \<circ> v_sources) vs) < 2 ^ 31"
  shows "\<exists>e c. polls new_encoder (new_client n g0) vs = Inr (e, c) \<and>
    missing (c_gaplist c) = missing (v_gaplist (last vs)) \<and>
    c_SrcpartFrequency c = map (\<lambda>k. if 0xff < k then 0xff else k) (v_frequency (last vs)) \<and>
    c_requestedblocks c = v_requested (last vs) \<and>
    set (map snd (c_sourcenames c)) = name_counts (v_sources (last vs))"
proof -
  have sends: "will_show new_encoder (new_client n g0) (hd vs)"
    using assms(3)
    by (auto simp: will_show_def new_encoder_def new_client_def rle_setup_def shows_parts_def shows_reqs_def
        byte_planes_Nil gap_words_Nil intro!: exI [of _ "[]"])
  have clamp: "(ucast \<circ> clamp8) = (\<lambda>k :: uint16. if 0xff < k then 0xff else k)"
  proof
    fix k :: uint16
    have "(ucast (ucast k :: uint8) :: uint16) = k" if "k \<le> 0xff"
    proof -
      have "uint k < 2 ^ 8" using that by (simp add: word_le_def)
      then have "and k (mask 8) = k" by (simp only: mask_eq_iff)
      moreover have "ucast (ucast k :: uint8) = and k (mask 8)" by (rule bit_word_eqI) (auto simp: bit_simps)
      ultimately show ?thesis by simp
    qed
    then show "(ucast \<circ> clamp8) k = (if 0xff < k then 0xff else k)"
      by (auto simp: clamp8_def linorder_not_less)
  qed
  have "\<exists>e c. polls new_encoder (new_client n g0) vs = Inr (e, c) \<and> client_shows c (last vs)"
    by (rule polls_show [OF new_sync _ assms(2) sends])
      (use assms(4,5) in \<open>auto simp: new_client_def new_encoder_def\<close>)
  then show ?thesis by (auto simp: client_shows_def clamp)
qed

theorem session_shows_last_view_witness:
  "\<exists>g e c. Init 100 True = Inr g \<and>
    polls new_encoder (new_client 100 g)
      [\<lparr>v_frequency = [3], v_gaplist = g, v_requested = [(0, 9)], v_sources = [(True, [97]), (False, [98])]\<rparr>] = Inr (e, c) \<and>
    missing (c_gaplist c) = {..<100} \<and> set (map snd (c_sourcenames c)) = {([97], 1)}"
proof -
  obtain g where g: "Init 100 True = Inr g" "gaplist_inv g" "missing g = {..<100}" "m_filesize g = 100"
    using Init_ok [of 100 True] by (auto simp: MAX_FILE_SIZE_def)
  have "dec64 100 = 99" using dec64_pos [of 100] by simp
  moreover have "mark_parts incomplete 0 0 [incomplete] = Inr [incomplete]"
    by (simp add: mark_parts.simps [of _ 0] mark_parts.simps [of _ "Suc 0"])
  ultimately have l: "m_gaplist g = [(99, 0)]"
    using g(1) by (auto simp: Init_def Let_def AddGap_def ArgCheck_def u16_def u32_def PARTSIZE_def sm_lower_bound_def)
  let ?v = "\<lparr>v_frequency = [3], v_gaplist = g, v_requested = [(0, 9)], v_sources = [(True, [97]), (False, [98])]\<rparr>"
  have "\<exists>e c. polls new_encoder (new_client 100 g) [?v] = Inr (e, c) \<and>
    missing (c_gaplist c) = missing (v_gaplist (last [?v])) \<and>
    c_SrcpartFrequency c = map (\<lambda>k. if 0xff < k then 0xff else k) (v_frequency (last [?v])) \<and>
    c_requestedblocks c = v_requested (last [?v]) \<and>
    set (map snd (c_sourcenames c)) = name_counts (v_sources (last [?v]))"
    by (intro session_shows_last_view [OF g(1)]) (use g l in \<open>auto simp: view_ok_def\<close>)
  then show ?thesis using g by (fastforce simp: name_counts_def valid_names_def)
qed

text \<open>
  A fresh encoder takes an empty gap list for unchanged: a download with nothing missing at the first
  poll gets no gap tag, and the remote GUI keeps the list of \<open>Init(size, true)\<close>, all bytes missing.
\<close>

lemma complete_file_not_sent:
  assumes "m_gaplist (v_gaplist v) = []" and "v_frequency v \<noteq> []"
  shows "\<exists>e t. Encode_part new_encoder v null_tag = Inr (e, t) \<and> GetTagByName t EC_TAG_PARTFILE_GAP_STATUS = None \<and>
    process_gaps (GetTagByName t EC_TAG_PARTFILE_GAP_STATUS) (new_client n g) = Inr (new_client n g)"
proof -
  have ok: "rle_ok (m_enc_data new_encoder)" "rle_ok (m_gap_status new_encoder)" "rle_ok (m_req_status new_encoder)"
    by (simp_all add: new_encoder_def rle_ok_setup)
  obtain rp pb pc where p: "Encode16 (m_enc_data new_encoder) (v_frequency v) = Inr (rp, pb, pc)"
    using Encode16_Decode [OF ok(1)] by blast
  have "gap_words (v_gaplist v) = []" using assms(1) by (simp add: gap_words_Nil)
  then have "\<exists>rg gb. Encode64 (m_gap_status new_encoder) (gap_words (v_gaplist v)) = Inr (rg, gb, False)"
    by (simp add: Encode64_def Encode_def Realloc_def new_encoder_def rle_setup_def)
  then obtain rg gb where g: "Encode64 (m_gap_status new_encoder) (gap_words (v_gaplist v)) = Inr (rg, gb, False)" by blast
  obtain rq qb qc where q: "Encode64 (m_req_status new_encoder) (req_words (v_requested v)) = Inr (rq, qb, qc)"
    using Encode64_Decode [OF ok(3)] by blast
  define p1 where "p1 = (if pc then AddTag null_tag (custom_tag EC_TAG_PARTFILE_PART_STATUS pb) else null_tag)"
  define p2 where "p2 = (if False then AddTag p1 (custom_tag EC_TAG_PARTFILE_GAP_STATUS gb) else p1)"
  define p3 where "p3 = (if qc then AddTag p2 (custom_tag EC_TAG_PARTFILE_REQ_STATUS qb) else p2)"
  let ?e = "new_encoder\<lparr>m_enc_data := rp, m_gap_status := rg, m_req_status := rq\<rparr>"
  have "Encode_part new_encoder v null_tag = Inr (Encode_names ?e (v_sources v) p3)"
    by (rule Encode_part_eq [OF assms(2) p g q p1_def p2_def p3_def])
  moreover have "\<exists>e' tags. Encode_names ?e (v_sources v) p3 =
      (e', if tags \<noteq> [] then AddTag p3 (ECTag EC_TAG_PARTFILE_SOURCE_NAMES EC_TAGTYPE_CUSTOM [] tags) else p3)"
    by (simp add: Encode_names_def Let_def split_def) blast
  then obtain e' tags where "Encode_names ?e (v_sources v) p3 =
      (e', if tags \<noteq> [] then AddTag p3 (ECTag EC_TAG_PARTFILE_SOURCE_NAMES EC_TAGTYPE_CUSTOM [] tags) else p3)"
    by blast
  moreover have "GetTagByName p3 EC_TAG_PARTFILE_GAP_STATUS = None"
  proof -
    have "GetTagByName null_tag k = None" for k by (simp add: GetTagByName_def null_tag_def)
    then show ?thesis by (simp add: p3_def p2_def p1_def GetTagByName_AddTag custom_tag_def)
  qed
  ultimately show ?thesis by (simp add: GetTagByName_AddTag process_gaps_def)
qed

end
