(* ===== verification/MemFile.thy ===== *)
theory MemFile
  imports Amule_Prelude
begin

text \<open>
  \<open>CMemFile\<close> (\<open>src/src/MemFile.cpp\<close>): a file in memory, and the basic operations every
  \<open>CFileDataIO\<close> builds on (\<open>src/src/SafeFile.cpp\<close>: \<open>Eof\<close>, \<open>Read\<close>, \<open>Write\<close>, \<open>Seek\<close>). An operation takes the
  file to a result and the file afterwards; an exception is the left result. \<open>m_fresh\<close> is what the memory
  that \<open>realloc\<close> returns holds at each index; the code promises nothing about these bytes.
\<close>

section \<open>State\<close>

datatype io_error =
    EOFException | IOFailureException | CInvalidParamsEx | CInvalidStateEx | CInvalidPacket | BadTag
  | MemoryFault

record memfile =
  m_buffer :: "uint8 list"
  m_fileSize :: nat
  m_growthRate :: nat
  m_position :: nat
  m_delete :: bool
  m_readonly :: bool
  m_fresh :: "nat \<Rightarrow> uint8"

abbreviation m_BufferSize :: "memfile \<Rightarrow> nat" where
  "m_BufferSize f \<equiv> length (m_buffer f)"

type_synonym 'a io = "memfile \<Rightarrow> (io_error + 'a) \<times> memfile"

definition io_return :: "'a \<Rightarrow> 'a io" where
  "io_return x = (\<lambda>f. (Inr x, f))"

definition io_throw :: "io_error \<Rightarrow> 'a io" where
  "io_throw e = (\<lambda>f. (Inl e, f))"

definition io_bind :: "'a io \<Rightarrow> ('a \<Rightarrow> 'b io) \<Rightarrow> 'b io" where
  "io_bind m k = (\<lambda>f. case m f of (Inl e, f') \<Rightarrow> (Inl e, f') | (Inr x, f') \<Rightarrow> k x f')"

definition io_seq :: "unit io \<Rightarrow> 'b io \<Rightarrow> 'b io" where
  "io_seq m k = io_bind m (\<lambda>_. k)"

section \<open>Operations\<close>

definition new_memfile :: "nat \<Rightarrow> (nat \<Rightarrow> uint8) \<Rightarrow> memfile" where
  "new_memfile growthRate fresh =
     \<lparr>m_buffer = [], m_fileSize = 0, m_growthRate = growthRate, m_position = 0, m_delete = True,
      m_readonly = False, m_fresh = fresh\<rparr>"

definition attach_memfile :: "uint8 list \<Rightarrow> bool \<Rightarrow> memfile" where
  "attach_memfile buffer readonly =
     \<lparr>m_buffer = buffer, m_fileSize = length buffer, m_growthRate = 0, m_position = 0, m_delete = False,
      m_readonly = readonly, m_fresh = (\<lambda>_. 0)\<rparr>"

definition enlargeBuffer :: "nat \<Rightarrow> unit io" where
  "enlargeBuffer sz f =
     (if sz < m_BufferSize f then (Inl CInvalidParamsEx, f)
      else if \<not> m_delete f then (Inl CInvalidStateEx, f)
      else if m_readonly f then (Inl CInvalidStateEx, f)
      else
        let newsize =
          (if m_growthRate f \<noteq> 0 then (sz + m_growthRate f - 1) div m_growthRate f * m_growthRate f else sz)
        in (Inr (),
            f\<lparr>m_buffer := take newsize (m_buffer f) @ map (m_fresh f) [m_BufferSize f..<newsize]\<rparr>))"

definition SetLength :: "nat \<Rightarrow> unit io" where
  "SetLength newLen f =
     (if m_readonly f then (Inl CInvalidStateEx, f)
      else
        io_seq (if m_BufferSize f < newLen then enlargeBuffer newLen else io_return ())
          (\<lambda>f. (Inr (), f\<lparr>m_position := (if newLen < m_position f then newLen else m_position f),
                         m_fileSize := newLen\<rparr>)) f)"

text \<open>The bytes that land in the caller's buffer; their number is the result of \<open>doRead\<close>.\<close>

definition doRead :: "nat \<Rightarrow> uint8 list io" where
  "doRead count f =
     (if m_fileSize f < m_position f then (Inr [], f)
      else
        let count = (if m_fileSize f < m_position f + count then m_fileSize f - m_position f else count)
        in if count = 0 then (Inr [], f)
           else if m_BufferSize f < m_position f + count then (Inl MemoryFault, f)
           else (Inr (take count (drop (m_position f) (m_buffer f))), f\<lparr>m_position := m_position f + count\<rparr>))"

definition doWrite :: "uint8 list \<Rightarrow> nat io" where
  "doWrite data f =
     (if m_readonly f then (Inl CInvalidStateEx, f)
      else
        io_seq
          (if m_BufferSize f < m_position f + length data then enlargeBuffer (m_position f + length data)
           else io_return ())
          (\<lambda>f. if m_BufferSize f < m_position f + length data then (Inl CInvalidStateEx, f)
               else
                 let f' = f\<lparr>m_buffer := take (m_position f) (m_buffer f) @ data @
                                        drop (m_position f + length data) (m_buffer f),
                           m_position := m_position f + length data\<rparr>
                 in (Inr (length data),
                     if m_fileSize f' < m_position f' then f'\<lparr>m_fileSize := m_position f'\<rparr> else f')) f)"

definition doSeek :: "int \<Rightarrow> int io" where
  "doSeek offset f =
     (if offset < 0 then (Inl CInvalidParamsEx, f) else (Inr offset, f\<lparr>m_position := nat offset\<rparr>))"

definition ResetData :: "unit io" where
  "ResetData f =
     (if m_readonly f then (Inr (), f)
      else (Inr (), f\<lparr>m_buffer := replicate (m_BufferSize f) 0, m_fileSize := 0, m_position := 0\<rparr>))"

definition Eof :: "memfile \<Rightarrow> bool" where
  "Eof f = (m_fileSize f \<le> m_position f)"

definition ReadIO :: "nat \<Rightarrow> uint8 list io" where
  "ReadIO count f =
     (case doRead count f of
        (Inl e, f') \<Rightarrow> (Inl e, f')
      | (Inr bs, f') \<Rightarrow>
          if length bs = count then (Inr bs, f')
          else if Eof f' then (Inl EOFException, f') else (Inl IOFailureException, f'))"

definition WriteIO :: "uint8 list \<Rightarrow> unit io" where
  "WriteIO data =
     io_bind (doWrite data) (\<lambda>n. if n \<noteq> length data then io_throw IOFailureException else io_return ())"

datatype seek_mode = FromStart | FromCurrent | FromEnd

definition SeekIO :: "int \<Rightarrow> seek_mode \<Rightarrow> nat io" where
  "SeekIO offset mode f =
     (let newpos = (case mode of FromStart \<Rightarrow> offset | FromCurrent \<Rightarrow> int (m_position f) + offset
                    | FromEnd \<Rightarrow> int (m_fileSize f) + offset)
      in if newpos < 0 then (Inl CInvalidParamsEx, f)
         else io_bind (doSeek newpos)
           (\<lambda>result. if result < 0 \<or> result \<noteq> newpos then io_throw CInvalidStateEx
                     else io_return (nat result)) f)"

section \<open>Contents\<close>

definition contents :: "memfile \<Rightarrow> uint8 list" where
  "contents f = take (m_fileSize f) (m_buffer f)"

definition mem_ok :: "memfile \<Rightarrow> bool" where
  "mem_ok f \<longleftrightarrow> m_fileSize f \<le> m_BufferSize f"

definition growable :: "memfile \<Rightarrow> bool" where
  "growable f \<longleftrightarrow> mem_ok f \<and> m_delete f \<and> \<not> m_readonly f"

lemma length_contents: "mem_ok f \<Longrightarrow> length (contents f) = m_fileSize f"
  by (simp add: contents_def mem_ok_def)

lemma growth_enough: "0 < g \<Longrightarrow> n \<le> (n + g - 1) div g * (g :: nat)"
proof -
  assume g: "0 < g"
  have "n + g - 1 = (n + g - 1) div g * g + (n + g - 1) mod g" by simp
  moreover have "(n + g - 1) mod g \<le> g - 1" using g by (simp add: less_Suc_eq_le [symmetric] mod_less_divisor Suc_diff_1)
  ultimately show ?thesis using g by linarith
qed

lemma enlargeBuffer_ok:
  assumes "growable f" and "m_BufferSize f \<le> n"
  shows "\<exists>junk. enlargeBuffer n f = (Inr (), f\<lparr>m_buffer := m_buffer f @ junk\<rparr>) \<and> n \<le> m_BufferSize f + length junk"
proof -
  let ?s = "if m_growthRate f \<noteq> 0 then (n + m_growthRate f - 1) div m_growthRate f * m_growthRate f else n"
  have "n \<le> ?s" using growth_enough [of "m_growthRate f" n] by simp
  then show ?thesis
    using assms by (intro exI [of _ "map (m_fresh f) [m_BufferSize f..<?s]"])
      (auto simp: enlargeBuffer_def growable_def Let_def)
qed

text \<open>Writing at a position inside the file replaces, and at its end extends.\<close>

lemma doWrite_ok:
  assumes "growable f" and "m_position f \<le> m_fileSize f"
  shows "\<exists>f'. doWrite data f = (Inr (length data), f') \<and> growable f' \<and>
    m_position f' = m_position f + length data \<and>
    contents f' = take (m_position f) (contents f) @ data @ drop (m_position f + length data) (contents f)"
proof -
  let ?e = "if m_BufferSize f < m_position f + length data then enlargeBuffer (m_position f + length data)
           else io_return ()"
  obtain junk where e: "?e f = (Inr (), f\<lparr>m_buffer := m_buffer f @ junk\<rparr>)"
    and l: "m_position f + length data \<le> m_BufferSize f + length junk"
  proof (cases "m_BufferSize f < m_position f + length data")
    case True
    then show ?thesis using that enlargeBuffer_ok [OF assms(1), of "m_position f + length data"] by auto
  next
    case False
    then show ?thesis using that [of "[]"] by (simp add: io_return_def)
  qed
  let ?f = "f\<lparr>m_buffer := m_buffer f @ junk\<rparr>"
  let ?g = "?f\<lparr>m_buffer := take (m_position f) (m_buffer f @ junk) @ data @ drop (m_position f + length data) (m_buffer f @ junk),
    m_position := m_position f + length data\<rparr>"
  let ?h = "if m_fileSize f < m_position f + length data then ?g\<lparr>m_fileSize := m_position f + length data\<rparr> else ?g"
  have pos: "m_position f \<le> m_BufferSize f" "m_fileSize f \<le> m_BufferSize f" using assms by (auto simp: growable_def mem_ok_def)
  have "doWrite data f = (Inr (length data), ?h)"
    using assms(1) e l unfolding doWrite_def io_seq_def io_bind_def by (simp add: growable_def Let_def)
  moreover have "growable ?h" using assms(1) pos l by (auto simp: growable_def mem_ok_def)
  moreover have "m_position ?h = m_position f + length data" by simp
  moreover have "contents ?h = take (m_position f) (contents f) @ data @ drop (m_position f + length data) (contents f)"
  proof -
    define b where "b = m_buffer f @ junk"
    have c: "contents f = take (m_fileSize f) b" using pos by (simp add: contents_def b_def)
    have lb: "m_position f \<le> length b" "m_position f + length data \<le> length b" using pos l by (auto simp: b_def)
    show ?thesis
    proof (cases "m_fileSize f < m_position f + length data")
      case True
      have "contents ?h = take (m_position f) b @ data" using True lb by (simp add: contents_def b_def [symmetric])
      then show ?thesis using True assms(2) by (simp add: c min_def)
    next
      case False
      have "contents ?h = take (m_position f) b @ data @ take (m_fileSize f - (m_position f + length data)) (drop (m_position f + length data) b)"
        using False lb by (simp add: contents_def b_def [symmetric])
      then show ?thesis using False assms(2) by (simp add: c min_def drop_take)
    qed
  qed
  ultimately show ?thesis by blast
qed

lemma ReadIO_ok:
  assumes "mem_ok f" and "contents f = pre @ bs @ rest" and "m_position f = length pre"
  shows "ReadIO (length bs) f = (Inr bs, f\<lparr>m_position := length pre + length bs\<rparr>)"
proof -
  have sz: "m_fileSize f = length pre + length bs + length rest"
    using length_contents [OF assms(1)] assms(2) by simp
  have "take (length bs) (drop (length pre) (m_buffer f)) = take (length bs) (drop (length pre) (contents f))"
    using sz by (simp add: contents_def drop_take min_def)
  then have "take (length bs) (drop (length pre) (m_buffer f)) = bs" using assms(2) by simp
  then have "doRead (length bs) f = (Inr bs, f\<lparr>m_position := length pre + length bs\<rparr>)"
    using assms(1,3) sz by (auto simp: doRead_def Let_def mem_ok_def)
  then show ?thesis by (simp add: ReadIO_def)
qed

lemma ReadIO_eof:
  assumes "mem_ok f" and "m_fileSize f < m_position f + n" and "0 < n"
  shows "\<exists>f'. ReadIO n f = (Inl EOFException, f') \<and> contents f' = contents f \<and> m_fileSize f' \<le> m_position f'"
proof (cases "m_position f < m_fileSize f")
  case True
  then show ?thesis
    using assms by (auto simp: ReadIO_def doRead_def Let_def Eof_def mem_ok_def contents_def)
next
  case False
  then show ?thesis using assms by (auto simp: ReadIO_def doRead_def Let_def Eof_def)
qed

lemma WriteIO_ok:
  assumes "growable f" and "m_position f \<le> m_fileSize f"
  shows "\<exists>f'. WriteIO data f = (Inr (), f') \<and> growable f' \<and> m_position f' = m_position f + length data \<and>
    contents f' = take (m_position f) (contents f) @ data @ drop (m_position f + length data) (contents f)"
proof -
  obtain f' where f': "doWrite data f = (Inr (length data), f')" "growable f'"
    "m_position f' = m_position f + length data"
    "contents f' = take (m_position f) (contents f) @ data @ drop (m_position f + length data) (contents f)"
    using doWrite_ok [OF assms, of data] by blast
  then have "WriteIO data f = (Inr (), f')" by (simp add: WriteIO_def io_bind_def io_return_def)
  then show ?thesis using f' by blast
qed

section \<open>Properties\<close>

text \<open>
  C28. A memory file is a byte array with a position: \<open>Write\<close> anywhere inside or at the end of the file
  replaces exactly the written bytes and extends the file as needed, whatever the growth rate, without
  leaving the buffer; seeking back and reading returns what was written.
\<close>

theorem memfile_write_read:
  assumes "growable f" and "m_position f \<le> m_fileSize f"
  shows "\<exists>f1 f2 f3. WriteIO data f = (Inr (), f1) \<and>
    contents f1 = take (m_position f) (contents f) @ data @ drop (m_position f + length data) (contents f) \<and>
    m_position f1 = m_position f + length data \<and> growable f1 \<and>
    SeekIO (int (m_position f)) FromStart f1 = (Inr (m_position f), f2) \<and>
    ReadIO (length data) f2 = (Inr data, f3) \<and> contents f3 = contents f1"
proof -
  obtain f1 where f1: "WriteIO data f = (Inr (), f1)" "growable f1" "m_position f1 = m_position f + length data"
    "contents f1 = take (m_position f) (contents f) @ data @ drop (m_position f + length data) (contents f)"
    using WriteIO_ok [OF assms, of data] by blast
  let ?f2 = "f1\<lparr>m_position := m_position f\<rparr>"
  have "SeekIO (int (m_position f)) FromStart f1 = (Inr (m_position f), ?f2)"
    by (simp add: SeekIO_def doSeek_def io_bind_def io_return_def)
  moreover have "ReadIO (length data) ?f2 = (Inr data, ?f2\<lparr>m_position := m_position f + length data\<rparr>)"
  proof -
    have l: "length (take (m_position f) (contents f)) = m_position f"
      using assms length_contents [of f] by (simp add: growable_def)
    have "contents ?f2 = take (m_position f) (contents f) @ data @ drop (m_position f + length data) (contents f)"
      using f1(4) by (simp add: contents_def)
    then show ?thesis
      using ReadIO_ok [of ?f2 "take (m_position f) (contents f)" data] f1(2) l by (simp add: growable_def mem_ok_def)
  qed
  ultimately show ?thesis using f1 by (auto simp: contents_def)
qed

theorem memfile_write_read_witness:
  "\<exists>f1 f2 f3. WriteIO [1, 2, 3] (new_memfile 2 (\<lambda>_. 9)) = (Inr (), f1) \<and> contents f1 = [1, 2, 3] \<and>
    SeekIO 0 FromStart f1 = (Inr 0, f2) \<and> ReadIO 3 f2 = (Inr [1, 2, 3], f3)"
proof -
  have "growable (new_memfile 2 (\<lambda>_. 9))" "m_position (new_memfile 2 (\<lambda>_. 9)) \<le> m_fileSize (new_memfile 2 (\<lambda>_. 9))"
    by (simp_all add: growable_def mem_ok_def new_memfile_def)
  from memfile_write_read [OF this, of "[1, 2, 3]"] show ?thesis
    by (auto simp: new_memfile_def contents_def numeral_3_eq_3)
qed

text \<open>
  \<open>Read\<close> succeeds exactly if the bytes are there (or none are asked for), and then returns them and
  moves the position; otherwise it throws \<open>CEOFException\<close>. It never changes the contents and never
  touches memory behind the buffer.
\<close>

theorem memfile_read_spec:
  assumes "mem_ok f"
  shows "(if n = 0 \<or> m_position f + n \<le> m_fileSize f
     then ReadIO n f = (Inr (take n (drop (m_position f) (contents f))),
                        f\<lparr>m_position := m_position f + n\<rparr>)
     else \<exists>f'. ReadIO n f = (Inl EOFException, f') \<and> contents f' = contents f)"
proof (cases "n = 0 \<or> m_position f + n \<le> m_fileSize f")
  case True
  show ?thesis
  proof (cases "n = 0")
    case True
    then show ?thesis by (simp add: ReadIO_def doRead_def)
  next
    case False
    let ?c = "contents f"
    have "?c = take (m_position f) ?c @ take n (drop (m_position f) ?c) @ drop n (drop (m_position f) ?c)"
      by (simp del: drop_drop)
    moreover have "length (take (m_position f) ?c) = m_position f" "length (take n (drop (m_position f) ?c)) = n"
      using True False length_contents [OF assms] by auto
    ultimately have "ReadIO n f = (Inr (take n (drop (m_position f) ?c)), f\<lparr>m_position := m_position f + n\<rparr>)"
      using ReadIO_ok [OF assms, of "take (m_position f) ?c" "take n (drop (m_position f) ?c)" "drop n (drop (m_position f) ?c)"]
      by metis
    then show ?thesis using True by simp
  qed
next
  case False
  then show ?thesis using ReadIO_eof [OF assms, of n] by auto
qed

theorem memfile_read_spec_witness:
  "\<exists>f'. ReadIO 3 (attach_memfile [1, 2] True) = (Inl EOFException, f') \<and> contents f' = [1, 2]"
proof -
  have "mem_ok (attach_memfile [1, 2] True)" by (simp add: mem_ok_def attach_memfile_def)
  from memfile_read_spec [OF this, of 3] show ?thesis by (simp add: attach_memfile_def contents_def)
qed

text \<open>
  The documentation of \<open>CFileDataIO::Read\<close> promises that a read past the end leaves the position where it
  was; it moves to the end of the file.
\<close>

lemma failed_read_moves_position:
  "\<exists>f'. ReadIO 3 (attach_memfile [1, 2] True) = (Inl EOFException, f') \<and> m_position f' = 2"
  by (simp add: ReadIO_def doRead_def attach_memfile_def Eof_def)

end
