(* ===== verification/UInt128.thy ===== *)
theory UInt128
  imports Amule_Prelude
begin

text \<open>
  \<open>Kademlia::CUInt128\<close> (\<open>src/src/kademlia/utils/UInt128.cpp\<close>, \<open>.h\<close>): the 128-bit keys and node
  identifiers of Kademlia, four 32-bit words of which index 0 is the least significant. \<open>val128\<close> reads
  the four words as one 128-bit word; the operations of the class are shown to be the operations of that
  word. The results of \<open>rand()\<close> are a parameter. The \<open>int64_t\<close> accumulators are integers: they stay
  strictly between \<open>- 2 ^ 34\<close> and \<open>2 ^ 63\<close>, so they never overflow.
\<close>

section \<open>Data\<close>

datatype CUInt128 = CUInt128 (u32_0: uint32) (u32_1: uint32) (u32_2: uint32) (u32_3: uint32)

definition u32_data :: "CUInt128 \<Rightarrow> nat \<Rightarrow> uint32" where
  "u32_data x i = (if i = 0 then u32_0 x else if i = 1 then u32_1 x else if i = 2 then u32_2 x else u32_3 x)"

definition set_u32 :: "nat \<Rightarrow> uint32 \<Rightarrow> CUInt128 \<Rightarrow> CUInt128" where
  "set_u32 i w x =
     CUInt128 (if i = 0 then w else u32_0 x) (if i = 1 then w else u32_1 x)
       (if i = 2 then w else u32_2 x) (if i = 3 then w else u32_3 x)"

definition val128 :: "CUInt128 \<Rightarrow> 128 word" where
  "val128 x = push_bit 96 (ucast (u32_3 x)) OR push_bit 64 (ucast (u32_2 x)) OR
     push_bit 32 (ucast (u32_1 x)) OR ucast (u32_0 x)"

section \<open>Construction, bits and chunks\<close>

definition fill128 :: "bool \<Rightarrow> CUInt128" where
  "fill128 fill = (let w = (if fill then -1 else 0) in CUInt128 w w w w)"

definition SetValue32 :: "uint32 \<Rightarrow> CUInt128" where
  "SetValue32 v = CUInt128 v 0 0 0"

definition GetBitNumber :: "CUInt128 \<Rightarrow> nat \<Rightarrow> uint32" where
  "GetBitNumber x b = (if b \<le> 127 then drop_bit ((127 - b) mod 32) (u32_data x ((127 - b) div 32)) AND 1 else 0)"

definition SetBitNumber :: "nat \<Rightarrow> nat \<Rightarrow> CUInt128 \<Rightarrow> CUInt128" where
  "SetBitNumber b v x =
     (if \<not> b \<le> 127 then x
      else let i = (127 - b) div 32; m = push_bit ((127 - b) mod 32) 1
        in if v \<noteq> 0 then set_u32 i (u32_data x i OR m) x
           else set_u32 i (u32_data x i AND NOT m) x)"

definition Get32BitChunk :: "CUInt128 \<Rightarrow> nat \<Rightarrow> uint32" where
  "Get32BitChunk x i = (if i < 4 then u32_data x (3 - i) else 0)"

definition Set32BitChunk :: "nat \<Rightarrow> uint32 \<Rightarrow> CUInt128 \<Rightarrow> CUInt128" where
  "Set32BitChunk i w x = (if i < 4 then set_u32 (3 - i) w x else x)"

text \<open>
  The constructor that keeps a prefix. \<open>junk\<close> is the object before its constructor ran; \<open>rnd i\<close> is the
  result of \<open>rand()\<close> used for bit or chunk \<open>i\<close>.
\<close>

definition prefix128 :: "CUInt128 \<Rightarrow> (nat \<Rightarrow> nat) \<Rightarrow> CUInt128 \<Rightarrow> nat \<Rightarrow> CUInt128" where
  "prefix128 junk rnd value numBits =
     (let numULONGs = numBits div 32;
          x = fold (\<lambda>i. Set32BitChunk i (Get32BitChunk value i)) [0..<numULONGs] junk;
          x = fold (\<lambda>i. SetBitNumber i (unat (GetBitNumber value i))) [numULONGs * 32..<numBits] x;
          numULONGs = (numBits + 31) div 32;
          x = fold (\<lambda>i. SetBitNumber i (rnd i mod 2)) [numBits..<numULONGs * 32] x
      in fold (\<lambda>i. Set32BitChunk i (of_nat (rnd i))) [numULONGs..<4] x)"

section \<open>Bytes and text\<close>

definition be32 :: "uint8 list \<Rightarrow> uint32" where
  "be32 b = push_bit 24 (ucast (b ! 0)) OR push_bit 16 (ucast (b ! 1)) OR push_bit 8 (ucast (b ! 2)) OR ucast (b ! 3)"

definition be32_bytes :: "uint32 \<Rightarrow> uint8 list" where
  "be32_bytes w = [ucast (drop_bit 24 w), ucast (drop_bit 16 w), ucast (drop_bit 8 w), ucast w]"

definition SetValueBE :: "uint8 list \<Rightarrow> CUInt128" where
  "SetValueBE b = CUInt128 (be32 (drop 12 b)) (be32 (drop 8 b)) (be32 (drop 4 b)) (be32 b)"

definition ToByteArray :: "CUInt128 \<Rightarrow> uint8 list" where
  "ToByteArray x = be32_bytes (u32_3 x) @ be32_bytes (u32_2 x) @ be32_bytes (u32_1 x) @ be32_bytes (u32_0 x)"

definition StoreCryptValue :: "CUInt128 \<Rightarrow> uint8 list" where
  "StoreCryptValue x = rev (be32_bytes (u32_3 x)) @ rev (be32_bytes (u32_2 x)) @
     rev (be32_bytes (u32_1 x)) @ rev (be32_bytes (u32_0 x))"

definition hex_digit :: "nat \<Rightarrow> char" where
  "hex_digit d = ''0123456789ABCDEF'' ! d"

definition format_08X :: "uint32 \<Rightarrow> string" where
  "format_08X w = map (\<lambda>i. hex_digit (unat (drop_bit (4 * i) w AND 0xF))) [7, 6, 5, 4, 3, 2, 1, 0]"

definition ToHexString :: "CUInt128 \<Rightarrow> string" where
  "ToHexString x = fold (\<lambda>i str. str @ format_08X (u32_data x i)) [3, 2, 1, 0] ''''"

definition ToBinaryString :: "bool \<Rightarrow> CUInt128 \<Rightarrow> string" where
  "ToBinaryString trim x =
     (let str = snd (fold (\<lambda>i (trim, str).
            let b = GetBitNumber x i
            in if \<not> trim \<or> b \<noteq> 0 then (False, str @ (if b \<noteq> 0 then ''1'' else ''0'')) else (trim, str))
          [0..<128] (trim, ''''))
      in if length str = 0 then ''0'' else str)"

section \<open>Arithmetic and comparison\<close>

definition IsZero :: "CUInt128 \<Rightarrow> bool" where
  "IsZero x \<longleftrightarrow> u32_0 x OR u32_1 x OR u32_2 x OR u32_3 x = 0"

definition CompareTo :: "CUInt128 \<Rightarrow> CUInt128 \<Rightarrow> int" where
  "CompareTo x y =
     (if u32_3 x < u32_3 y then -1 else if u32_3 x > u32_3 y then 1
      else if u32_2 x < u32_2 y then -1 else if u32_2 x > u32_2 y then 1
      else if u32_1 x < u32_1 y then -1 else if u32_1 x > u32_1 y then 1
      else if u32_0 x < u32_0 y then -1 else if u32_0 x > u32_0 y then 1
      else 0)"

definition CompareTo32 :: "CUInt128 \<Rightarrow> uint32 \<Rightarrow> int" where
  "CompareTo32 x v =
     (if u32_2 x > 0 \<or> u32_3 x > 0 \<or> u32_1 x > 0 \<or> u32_0 x > v then 1
      else if u32_0 x < v then -1 else 0)"

text \<open>One round of the carry loops: add \<open>d\<close> to the accumulator, store its low word, shift it.\<close>

definition carry_round :: "nat \<Rightarrow> int \<Rightarrow> int \<times> CUInt128 \<Rightarrow> int \<times> CUInt128" where
  "carry_round i d s = (let sum = fst s + d in (sum div 2 ^ 32, set_u32 i (word_of_int sum) (snd s)))"

definition Add :: "CUInt128 \<Rightarrow> CUInt128 \<Rightarrow> CUInt128" where
  "Add x value =
     (if IsZero value then x
      else snd (fold (\<lambda>i s. carry_round i (uint (u32_data (snd s) i) + uint (u32_data value i)) s) [0, 1, 2, 3] (0, x)))"

definition Add32 :: "CUInt128 \<Rightarrow> uint32 \<Rightarrow> CUInt128" where
  "Add32 x v = (if v \<noteq> 0 then Add x (SetValue32 v) else x)"

definition Subtract :: "CUInt128 \<Rightarrow> CUInt128 \<Rightarrow> CUInt128" where
  "Subtract x value =
     (if IsZero value then x
      else snd (fold (\<lambda>i s. carry_round i (uint (u32_data (snd s) i) - uint (u32_data value i)) s) [0, 1, 2, 3] (0, x)))"

definition Subtract32 :: "CUInt128 \<Rightarrow> uint32 \<Rightarrow> CUInt128" where
  "Subtract32 x v = (if v \<noteq> 0 then Subtract x (SetValue32 v) else x)"

definition ShiftLeft :: "CUInt128 \<Rightarrow> nat \<Rightarrow> CUInt128" where
  "ShiftLeft x bits =
     (if bits = 0 \<or> IsZero x then x
      else if 127 < bits then SetValue32 0
      else
        let indexShift = bits div 32
        in snd (fold (\<lambda>k s. carry_round (k + indexShift) (uint (u32_data x k) * 2 ^ (bits mod 32)) s)
             [0..<4 - indexShift] (0, CUInt128 0 0 0 0)))"

definition XOR128 :: "CUInt128 \<Rightarrow> CUInt128 \<Rightarrow> CUInt128" where
  "XOR128 x y = CUInt128 (u32_0 x XOR u32_0 y) (u32_1 x XOR u32_1 y) (u32_2 x XOR u32_2 y) (u32_3 x XOR u32_3 y)"

definition XOR32 :: "CUInt128 \<Rightarrow> uint32 \<Rightarrow> CUInt128" where
  "XOR32 x v = (if v \<noteq> 0 then XOR128 x (SetValue32 v) else x)"

text \<open>The operators with the 32-bit number on the left.\<close>

definition add_32_left :: "uint32 \<Rightarrow> CUInt128 \<Rightarrow> CUInt128" where
  "add_32_left v y = Add32 y v"

definition sub_32_left :: "uint32 \<Rightarrow> CUInt128 \<Rightarrow> CUInt128" where
  "sub_32_left v y = Subtract (SetValue32 v) y"

definition less_32_left :: "uint32 \<Rightarrow> CUInt128 \<Rightarrow> bool" where
  "less_32_left v y \<longleftrightarrow> CompareTo32 y v > 0"

definition int128 :: "CUInt128 \<Rightarrow> int" where
  "int128 x = uint (u32_0 x) + 2 ^ 32 * uint (u32_1 x) + 2 ^ 64 * uint (u32_2 x) + 2 ^ 96 * uint (u32_3 x)"

lemma bit32: "bit (w :: uint32) n \<Longrightarrow> n < 32"
  using bit_imp_le_length by fastforce

lemma bit_val128_raw: "bit (val128 x) n \<longleftrightarrow> n < 128 \<and>
   (96 \<le> n \<and> bit (u32_3 x) (n - 96) \<or> 64 \<le> n \<and> bit (u32_2 x) (n - 64) \<or>
    32 \<le> n \<and> bit (u32_1 x) (n - 32) \<or> bit (u32_0 x) n)"
  by (auto simp: val128_def bit_or_iff bit_push_bit_iff bit_ucast_iff)

lemma bit_val128:
  "bit (val128 x) n \<longleftrightarrow> n < 128 \<and> bit (u32_data x (n div 32)) (n mod 32)"
proof (cases "n < 128")
  case True
  define q m where "q = n div 32" and "m = n mod 32"
  have n: "n = 32 * q + m" and m: "m < 32" by (simp_all add: q_def m_def)
  have no: "\<not> bit (w :: uint32) (k + m)" if "32 \<le> k" for w k using bit32 [of w "k + m"] that by auto
  have "q < 4" using True n by simp
  then consider "q = 0" | "q = 1" | "q = 2" | "q = 3" by linarith
  then show ?thesis unfolding q_def [symmetric] m_def [symmetric] bit_val128_raw
    by cases (use m in \<open>simp_all add: n u32_data_def no\<close>)
qed (simp add: bit_val128_raw)

lemma or_is_add: "(\<And>n. bit a n \<Longrightarrow> \<not> bit b n) \<Longrightarrow> a OR b = a + (b :: 128 word)"
  by (rule disjunctive_add [symmetric]) auto

lemma val128_int: "val128 x = word_of_int (int128 x)"
proof -
  let ?a = "ucast (u32_0 x) :: 128 word" and ?b = "ucast (u32_1 x) :: 128 word"
    and ?c = "ucast (u32_2 x) :: 128 word" and ?d = "ucast (u32_3 x) :: 128 word"
  have bits: "bit ?a n \<Longrightarrow> n < 32" "bit ?b n \<Longrightarrow> n < 32" "bit ?c n \<Longrightarrow> n < 32" for n
    using bit32 by (auto simp: bit_ucast_iff)
  have 1: "push_bit 32 ?b OR ?a = push_bit 32 ?b + ?a"
    by (rule or_is_add) (auto simp: bit_push_bit_iff dest: bits)
  have 2: "push_bit 64 ?c OR (push_bit 32 ?b OR ?a) = push_bit 64 ?c + (push_bit 32 ?b OR ?a)"
    by (rule or_is_add) (auto simp: bit_push_bit_iff bit_or_iff dest!: bits)
  have 3: "push_bit 96 ?d OR (push_bit 64 ?c OR (push_bit 32 ?b OR ?a)) =
      push_bit 96 ?d + (push_bit 64 ?c OR (push_bit 32 ?b OR ?a))"
    by (rule or_is_add) (auto simp: bit_push_bit_iff bit_or_iff dest!: bits)
  have "val128 x = push_bit 96 ?d + (push_bit 64 ?c + (push_bit 32 ?b + ?a))"
    by (simp only: val128_def or.assoc 3) (simp only: 2, simp only: 1)
  also have "\<dots> = word_of_int (int128 x)"
    by (simp add: int128_def push_bit_eq_mult algebra_simps)
  finally show ?thesis .
qed

lemma int128_range: "0 \<le> int128 x" "int128 x < 2 ^ 128"
  using uint_lt2p [of "u32_0 x"] uint_lt2p [of "u32_1 x"] uint_lt2p [of "u32_2 x"] uint_lt2p [of "u32_3 x"]
  by (simp_all add: int128_def)

lemma uint_val128: "uint (val128 x) = int128 x"
  using int128_range [of x] by (simp add: val128_int uint_word_of_int)

lemma int128_zero: "int128 x = 0 \<longleftrightarrow> u32_0 x = 0 \<and> u32_1 x = 0 \<and> u32_2 x = 0 \<and> u32_3 x = 0"
proof -
  have nn: "0 \<le> uint (u32_0 x)" "0 \<le> uint (u32_1 x)" "0 \<le> uint (u32_2 x)" "0 \<le> uint (u32_3 x)" by simp_all
  have "int128 x = 0 \<longleftrightarrow> uint (u32_0 x) = 0 \<and> uint (u32_1 x) = 0 \<and> uint (u32_2 x) = 0 \<and> uint (u32_3 x) = 0"
    using nn unfolding int128_def by (simp; linarith)
  then show ?thesis by (simp add: uint_0_iff)
qed

lemma or_zero: "a OR b = 0 \<longleftrightarrow> a = 0 \<and> b = 0" for a b :: "'a::len word"
  by (auto simp: bit_eq_iff bit_or_iff)

lemma IsZero_int: "IsZero x \<longleftrightarrow> int128 x = 0"
  by (auto simp: IsZero_def int128_zero or_zero)

lemma split32: "x = x mod 2 ^ 32 + 2 ^ 32 * (x div 2 ^ 32)" for x :: int
  by simp

lemma CUInt128_eqI: "int128 x = int128 y \<Longrightarrow> x = y"
proof -
  assume e: "int128 x = int128 y"
  have "u32_data x i = u32_data y i" if "i < 4" for i
  proof (rule bit_word_eqI)
    fix n assume "n < LENGTH(32)"
    then have d: "(32 * i + n) div 32 = i" "(32 * i + n) mod 32 = n" "32 * i + n < 128" using that by auto
    show "bit (u32_data x i) n = bit (u32_data y i) n"
      using bit_val128 [of x "32 * i + n"] bit_val128 [of y "32 * i + n"] d e by (simp add: val128_int)
  qed
  from this [of 0] this [of 1] this [of 2] this [of 3] show ?thesis
    by (cases x, cases y) (simp add: u32_data_def)
qed

text \<open>Four carry rounds add up.\<close>

lemma four_words:
  fixes a b c d :: int
  assumes "0 \<le> a" "a \<le> 2 ^ 32 - 1" "0 \<le> b" "b \<le> 2 ^ 32 - 1" "0 \<le> c" "c \<le> 2 ^ 32 - 1" "0 \<le> d" "d \<le> 2 ^ 32 - 1"
  shows "0 \<le> a + 2 ^ 32 * b + 2 ^ 64 * c + 2 ^ 96 * d" and "a + 2 ^ 32 * b + 2 ^ 64 * c + 2 ^ 96 * d < 2 ^ 128"
  using assms by simp_all

lemma carry_sum:
  fixes s0 s1 s2 s3 :: int
  shows "s0 mod 2 ^ 32 + 2 ^ 32 * ((s0 div 2 ^ 32 + s1) mod 2 ^ 32)
     + 2 ^ 64 * (((s0 div 2 ^ 32 + s1) div 2 ^ 32 + s2) mod 2 ^ 32)
     + 2 ^ 96 * ((((s0 div 2 ^ 32 + s1) div 2 ^ 32 + s2) div 2 ^ 32 + s3) mod 2 ^ 32)
   = (s0 + 2 ^ 32 * s1 + 2 ^ 64 * s2 + 2 ^ 96 * s3) mod 2 ^ 128" (is "?l = ?t mod _")
proof -
  let ?c = "(((s0 div 2 ^ 32 + s1) div 2 ^ 32 + s2) div 2 ^ 32 + s3) div 2 ^ 32"
  define q0 q1 q2 q3 where q: "q0 = s0 div 2 ^ 32" "q1 = (q0 + s1) div 2 ^ 32" "q2 = (q1 + s2) div 2 ^ 32" "q3 = (q2 + s3) div 2 ^ 32"
  have "s0 = s0 mod 2 ^ 32 + 2 ^ 32 * q0" "q0 + s1 = (q0 + s1) mod 2 ^ 32 + 2 ^ 32 * q1"
    "q1 + s2 = (q1 + s2) mod 2 ^ 32 + 2 ^ 32 * q2" "q2 + s3 = (q2 + s3) mod 2 ^ 32 + 2 ^ 32 * q3"
    by (simp_all add: q)
  then have "?t = s0 mod 2 ^ 32 + 2 ^ 32 * ((q0 + s1) mod 2 ^ 32) + 2 ^ 64 * ((q1 + s2) mod 2 ^ 32) +
      2 ^ 96 * ((q2 + s3) mod 2 ^ 32) + 2 ^ 128 * q3"
    unfolding power_numeral by (simp; linarith)
  then have "?t = ?l + 2 ^ 128 * ?c" unfolding q .
  moreover have "0 \<le> ?l" "?l < 2 ^ 128"
  proof -
    have m: "0 \<le> x mod 2 ^ 32" "x mod 2 ^ 32 \<le> 2 ^ 32 - 1" for x :: int by simp_all
    show "0 \<le> ?l" "?l < 2 ^ 128" by (rule four_words; rule m)+
  qed
  ultimately show ?thesis by (simp del: power_numeral)
qed

lemma carry_rounds:
  "int128 (snd (carry_round 3 d3 (carry_round 2 d2 (carry_round 1 d1 (carry_round 0 d0 (0, x)))))) =
   (d0 + 2 ^ 32 * d1 + 2 ^ 64 * d2 + 2 ^ 96 * d3) mod 2 ^ 128"
  unfolding carry_sum [symmetric]
  by (simp add: carry_round_def set_u32_def Let_def int128_def uint_word_of_int del: of_int_add)

lemma u32_data_carry_round: "j \<noteq> i \<Longrightarrow> i < 4 \<Longrightarrow> j < 4 \<Longrightarrow> u32_data (snd (carry_round i d s)) j = u32_data (snd s) j"
  by (simp add: carry_round_def Let_def u32_data_def set_u32_def)

lemma int128_chunks: "int128 x = uint (u32_data x 0) + 2 ^ 32 * uint (u32_data x 1) + 2 ^ 64 * uint (u32_data x 2) + 2 ^ 96 * uint (u32_data x 3)"
  by (simp add: int128_def u32_data_def)

lemma int128_Add: "int128 (Add x y) = (int128 x + int128 y) mod 2 ^ 128"
proof (cases "IsZero y")
  case True
  then show ?thesis using int128_range [of x] by (simp add: Add_def IsZero_int)
next
  case False
  then have "int128 (Add x y) = (uint (u32_data x 0) + uint (u32_data y 0) + 2 ^ 32 * (uint (u32_data x 1) + uint (u32_data y 1)) +
     2 ^ 64 * (uint (u32_data x 2) + uint (u32_data y 2)) + 2 ^ 96 * (uint (u32_data x 3) + uint (u32_data y 3))) mod 2 ^ 128"
    by (simp add: Add_def carry_rounds u32_data_carry_round del: power_numeral One_nat_def)
  also have "\<dots> = (int128 x + int128 y) mod 2 ^ 128"
    unfolding int128_chunks by (simp add: algebra_simps)
  finally show ?thesis .
qed

lemma int128_Subtract: "int128 (Subtract x y) = (int128 x - int128 y) mod 2 ^ 128"
proof (cases "IsZero y")
  case True
  then show ?thesis using int128_range [of x] by (simp add: Subtract_def IsZero_int)
next
  case False
  then have "int128 (Subtract x y) = (uint (u32_data x 0) - uint (u32_data y 0) + 2 ^ 32 * (uint (u32_data x 1) - uint (u32_data y 1)) +
     2 ^ 64 * (uint (u32_data x 2) - uint (u32_data y 2)) + 2 ^ 96 * (uint (u32_data x 3) - uint (u32_data y 3))) mod 2 ^ 128"
    by (simp add: Subtract_def carry_rounds u32_data_carry_round del: power_numeral One_nat_def)
  also have "\<dots> = (int128 x - int128 y) mod 2 ^ 128"
    unfolding int128_chunks by (simp add: algebra_simps)
  finally show ?thesis .
qed


lemma val128_Add: "val128 (Add x y) = val128 x + val128 y"
  by (rule word_uint_eq_iff [THEN iffD2]) (simp add: uint_val128 int128_Add uint_word_ariths)

lemma val128_Subtract: "val128 (Subtract x y) = val128 x - val128 y"
  by (rule word_uint_eq_iff [THEN iffD2]) (simp add: uint_val128 int128_Subtract uint_word_ariths)

lemma val128_XOR: "val128 (XOR128 x y) = val128 x XOR val128 y"
  by (rule bit_word_eqI) (auto simp: bit_val128 bit_xor_iff XOR128_def u32_data_def)

lemma SetValue32_int: "int128 (SetValue32 v) = uint v"
  by (simp add: int128_def SetValue32_def)

lemma val128_SetValue32: "val128 (SetValue32 v) = ucast v"
  by (simp add: val128_int SetValue32_int)

lemma ShiftLeft_int:
  assumes "bits \<le> 127"
  shows "int128 (ShiftLeft x bits) = (int128 x * 2 ^ bits) mod 2 ^ 128"
proof (cases "bits = 0 \<or> IsZero x")
  case True
  then show ?thesis using int128_range [of x] by (auto simp: ShiftLeft_def IsZero_int)
next
  case False
  define p where "p = (2 :: int) ^ (bits mod 32)"
  define t where "t = (\<lambda>i. uint (u32_data x i) * p)"
  define z where "z = CUInt128 0 0 0 0"
  have t_cong: "(\<lambda>k s. carry_round (k + q) (uint (u32_data x k) * p) s) = (\<lambda>k s. carry_round (k + q) (t k) s)" for q
    by (simp add: t_def)
  have 0: "carry_round 0 0 (0, z) = (0, z)" "carry_round 1 0 (0, z) = (0, z)" "carry_round 2 0 (0, z) = (0, z)"
    by (simp_all add: carry_round_def z_def set_u32_def)
  have S: "ShiftLeft x bits = snd (fold (\<lambda>k s. carry_round (k + bits div 32) (t k) s) [0..<4 - bits div 32] (0, z))"
    using assms False by (simp add: ShiftLeft_def Let_def z_def [symmetric] p_def [symmetric] t_cong)
  have I: "int128 x * p = t 0 + 2 ^ 32 * t 1 + 2 ^ 64 * t 2 + 2 ^ 96 * t 3"
    by (simp only: int128_chunks t_def) (simp add: algebra_simps)
  have P: "(2 :: int) ^ bits = 2 ^ (32 * (bits div 32)) * p"
    unfolding p_def power_add [symmetric] by simp
  have "bits div 32 < 4" using assms by simp
  then consider "bits div 32 = 0" | "bits div 32 = 1" | "bits div 32 = 2" | "bits div 32 = 3" by linarith
  then show ?thesis
  proof cases
    case 1
    have u: "[0..<4] = [0, 1, 2, 3 :: nat]" by (simp add: upt_rec)
    have "ShiftLeft x bits = snd (carry_round 3 (t 3) (carry_round 2 (t 2) (carry_round 1 (t 1) (carry_round 0 (t 0) (0, z)))))"
      unfolding S 1 by (simp add: u del: One_nat_def)
    moreover have "int128 x * 2 ^ bits = t 0 + 2 ^ 32 * t 1 + 2 ^ 64 * t 2 + 2 ^ 96 * t 3"
      using I by (simp add: P 1)
    ultimately show ?thesis by (simp only: carry_rounds)
  next
    case 2
    have u: "[0..<4 - 1] = [0, 1, 2 :: nat]" by (simp add: upt_rec)
    have "ShiftLeft x bits = snd (carry_round 3 (t 2) (carry_round 2 (t 1) (carry_round 1 (t 0) (carry_round 0 0 (0, z)))))"
      unfolding S 2 u by (simp add: 0 del: One_nat_def)
    then have "int128 (ShiftLeft x bits) = (2 ^ 32 * t 0 + 2 ^ 64 * t 1 + 2 ^ 96 * t 2) mod 2 ^ 128"
      by (simp only: carry_rounds) simp
    moreover have "int128 x * 2 ^ bits = 2 ^ 32 * t 0 + 2 ^ 64 * t 1 + 2 ^ 96 * t 2 + 2 ^ 128 * t 3"
      using I by (simp add: P 2 algebra_simps)
    ultimately show ?thesis by (simp del: power_numeral)
  next
    case 3
    have u: "[0..<4 - 2] = [0, 1 :: nat]" by (simp add: upt_rec)
    have "ShiftLeft x bits = snd (carry_round 3 (t 1) (carry_round 2 (t 0) (carry_round 1 0 (carry_round 0 0 (0, z)))))"
      unfolding S 3 u by (simp only: 0) (simp add: numeral_2_eq_2 numeral_3_eq_3)
    then have "int128 (ShiftLeft x bits) = (2 ^ 64 * t 0 + 2 ^ 96 * t 1) mod 2 ^ 128"
      by (simp only: carry_rounds) simp
    moreover have "int128 x * 2 ^ bits = 2 ^ 64 * t 0 + 2 ^ 96 * t 1 + 2 ^ 128 * (t 2 + 2 ^ 32 * t 3)"
      using I by (simp add: P 3 algebra_simps)
    ultimately show ?thesis by (simp del: power_numeral)
  next
    case 4
    have u: "[0..<4 - 3] = [0 :: nat]" by (simp add: upt_rec)
    have "ShiftLeft x bits = snd (carry_round 3 (t 0) (carry_round 2 0 (carry_round 1 0 (carry_round 0 0 (0, z)))))"
      unfolding S 4 u by (simp only: 0) simp
    then have "int128 (ShiftLeft x bits) = (2 ^ 96 * t 0) mod 2 ^ 128"
      by (simp only: carry_rounds) simp
    moreover have "int128 x * 2 ^ bits = 2 ^ 96 * t 0 + 2 ^ 128 * (t 1 + 2 ^ 32 * t 2 + 2 ^ 64 * t 3)"
      using I by (simp add: P 4 algebra_simps)
    ultimately show ?thesis by (simp del: power_numeral)
  qed
qed

lemma val128_ShiftLeft: "val128 (ShiftLeft x bits) = push_bit bits (val128 x)"
proof (cases "bits \<le> 127")
  case True
  have "val128 (ShiftLeft x bits) = word_of_int (int128 x * 2 ^ bits)"
    unfolding val128_int ShiftLeft_int [OF True]
    by (rule word_uint_eq_iff [THEN iffD2]) (simp add: uint_word_of_int del: of_int_mult)
  also have "\<dots> = push_bit bits (val128 x)" by (simp add: val128_int push_bit_eq_mult)
  finally show ?thesis .
next
  case False
  have z: "push_bit bits (val128 x) = 0" using False by (intro bit_word_eqI) (simp add: bit_push_bit_iff)
  show ?thesis
  proof (cases "IsZero x")
    case True
    then show ?thesis using False by (simp add: ShiftLeft_def val128_int IsZero_int)
  next
    case F: False
    then show ?thesis using False z by (simp add: ShiftLeft_def val128_SetValue32)
  qed
qed

definition lex128 :: "CUInt128 \<Rightarrow> CUInt128 \<Rightarrow> bool" where
  "lex128 u v \<longleftrightarrow> u32_3 u < u32_3 v \<or> u32_3 u = u32_3 v \<and>
      (u32_2 u < u32_2 v \<or> u32_2 u = u32_2 v \<and>
       (u32_1 u < u32_1 v \<or> u32_1 u = u32_1 v \<and> u32_0 u < u32_0 v))"

lemma lex128_int: "lex128 u v \<Longrightarrow> int128 u < int128 v"
proof -
  have b: "0 \<le> uint (w :: uint32)" "uint w \<le> 2 ^ 32 - 1" for w using uint_lt2p [of w] by simp_all
  assume "lex128 u v"
  then show ?thesis
    using b [of "u32_0 u"] b [of "u32_1 u"] b [of "u32_2 u"] b [of "u32_0 v"] b [of "u32_1 v"] b [of "u32_2 v"]
    unfolding int128_def power_numeral lex128_def word_less_def by (elim disjE conjE; simp; linarith)
qed

lemma lex128_cases: "lex128 u v \<or> lex128 v u \<or> u = v"
  by (cases u; cases v) (auto simp: lex128_def)

lemma CompareTo_lex: "CompareTo x y = (if lex128 x y then -1 else if lex128 y x then 1 else 0)"
  by (rule linorder_cases [of "u32_3 x" "u32_3 y"]; rule linorder_cases [of "u32_2 x" "u32_2 y"];
      rule linorder_cases [of "u32_1 x" "u32_1 y"]; rule linorder_cases [of "u32_0 x" "u32_0 y"];
      simp add: CompareTo_def lex128_def order.asym)

lemma CompareTo_int: "CompareTo x y = (if int128 x < int128 y then -1 else if int128 x > int128 y then 1 else 0)"
  using lex128_cases [of x y] lex128_int [of x y] lex128_int [of y x] by (auto simp: CompareTo_lex)

lemma CompareTo_val: "CompareTo x y = (if val128 x < val128 y then -1 else if val128 x > val128 y then 1 else 0)"
  by (simp add: CompareTo_int word_less_def uint_val128)

lemma CompareTo32_val: "CompareTo32 x v = (if val128 x < ucast v then -1 else if val128 x > ucast v then 1 else 0)"
proof -
  have "CompareTo32 x v = CompareTo x (SetValue32 v)"
    by (auto simp: CompareTo32_def CompareTo_def SetValue32_def word_gt_0)
  then show ?thesis by (simp only: CompareTo_val val128_SetValue32)
qed

section \<open>Bits\<close>

definition level :: "CUInt128 \<Rightarrow> nat \<Rightarrow> bool" where
  "level x b \<longleftrightarrow> b < 128 \<and> bit (val128 x) (127 - b)"

lemma level_index:
  assumes "b < 128"
  shows "(127 - b) div 32 = 3 - b div 32" and "(127 - b) mod 32 = 31 - b mod (32 :: nat)"
proof -
  define r where "r = 31 - b mod 32"
  have "b = 32 * (b div 32) + b mod 32" "b mod 32 \<le> 31" by simp_all
  then have "127 - b = 32 * (3 - b div 32) + r" using assms unfolding r_def by linarith
  moreover have "r < 32" by (simp add: r_def)
  ultimately show "(127 - b) div 32 = 3 - b div 32" "(127 - b) mod 32 = 31 - b mod 32"
    by (simp_all add: r_def [symmetric])
qed

lemma level_chunk: "level x b \<longleftrightarrow> b < 128 \<and> bit (u32_data x (3 - b div 32)) (31 - b mod 32)"
  using level_index [of b] by (auto simp: level_def bit_val128)

lemma level_eqI:
  assumes "\<And>b. level x b = level y b"
  shows "x = y"
proof -
  have "bit (val128 x) n = bit (val128 y) n" if n: "n < 128" for n
  proof -
    have "127 - (127 - n) = n" "127 - n < 128" using n by linarith+
    then show ?thesis using assms [of "127 - n"] by (simp add: level_def)
  qed
  then have "val128 x = val128 y" by (intro bit_word_eqI) simp
  then have "int128 x = int128 y" using uint_val128 by metis
  then show ?thesis by (rule CUInt128_eqI)
qed

lemma GetBitNumber_level: "GetBitNumber x b = of_bool (level x b)"
proof -
  have "drop_bit k w AND 1 = of_bool (bit w k)" for k and w :: uint32
    by (simp add: and_one_eq bit_iff_odd_drop_bit odd_iff_mod_2_eq_one)
  then show ?thesis by (simp add: GetBitNumber_def level_def bit_val128 less_Suc_eq_le)
qed

lemma u32_data_set: "i < 4 \<Longrightarrow> j < 4 \<Longrightarrow> u32_data (set_u32 i w x) j = (if j = i then w else u32_data x j)"
  by (auto simp: u32_data_def set_u32_def)

lemma same_level:
  assumes "b < 128" and "c < (128 :: nat)" and "3 - c div 32 = 3 - b div 32" and "31 - c mod 32 = 31 - b mod 32"
  shows "c = b"
proof -
  have "c div 32 \<le> 3" "b div 32 \<le> 3" using assms(1,2) by simp_all
  moreover have "c mod 32 \<le> 31" "b mod 32 \<le> 31" by simp_all
  ultimately have "c div 32 = b div 32" "c mod 32 = b mod 32" using assms(3,4) by linarith+
  then show ?thesis by (metis mult_div_mod_eq)
qed

lemma level_SetBitNumber: "level (SetBitNumber b v x) c \<longleftrightarrow> (if c = b \<and> b < 128 then v \<noteq> 0 else level x c)"
proof (cases "b < 128 \<and> c < 128")
  case True
  define i k where "i = 3 - b div 32" and "k = 31 - b mod 32"
  have ik: "(127 - b) div 32 = i" "(127 - b) mod 32 = k" "i < 4" "k < 32"
    unfolding i_def k_def using True level_index [of b] by (blast, blast, linarith, linarith)
  have S: "SetBitNumber b v x = set_u32 i (if v \<noteq> 0 then u32_data x i OR push_bit k 1 else u32_data x i AND NOT (push_bit k 1)) x"
    using True ik by (simp add: SetBitNumber_def Let_def)
  have "level (SetBitNumber b v x) c \<longleftrightarrow>
    bit (if 3 - c div 32 = i then (if v \<noteq> 0 then u32_data x i OR push_bit k 1 else u32_data x i AND NOT (push_bit k 1))
         else u32_data x (3 - c div 32)) (31 - c mod 32)"
    using True ik by (simp add: level_chunk S u32_data_set)
  also have "\<dots> \<longleftrightarrow> (if 3 - c div 32 = i \<and> 31 - c mod 32 = k then v \<noteq> 0 else level x c)"
    using True ik(4) by (auto simp: level_chunk bit_or_iff bit_and_iff bit_not_iff bit_exp_iff)
  also have "3 - c div 32 = i \<and> 31 - c mod 32 = k \<longleftrightarrow> c = b"
    using True same_level [of b c] by (auto simp: i_def k_def)
  finally show ?thesis using True by simp
next
  case False
  then show ?thesis by (auto simp: level_chunk SetBitNumber_def)
qed

lemma level_Set32BitChunk:
  "level (Set32BitChunk i w x) c \<longleftrightarrow> (if c div 32 = i \<and> c < 128 then bit w (31 - c mod 32) else level x c)"
proof (cases "i < 4 \<and> c < 128")
  case True
  then have "c div 32 < 4" by (simp add: div_less_iff_less_mult)
  then have "3 - c div 32 = 3 - i \<longleftrightarrow> c div 32 = i" using True by linarith
  then show ?thesis using True by (auto simp: level_chunk Set32BitChunk_def u32_data_def set_u32_def)
next
  case False
  then show ?thesis by (auto simp: level_chunk Set32BitChunk_def)
qed

lemma level_fold_SetBitNumber:
  "a \<le> b \<Longrightarrow> level (fold (\<lambda>i. SetBitNumber i (f i)) [a..<b] x) c \<longleftrightarrow> (if a \<le> c \<and> c < b \<and> c < 128 then f c \<noteq> 0 else level x c)"
  by (induction b) (auto simp: level_SetBitNumber le_Suc_eq)

lemma level_fold_Set32BitChunk:
  "a \<le> b \<Longrightarrow> level (fold (\<lambda>i. Set32BitChunk i (f i)) [a..<b] x) c \<longleftrightarrow>
     (if a \<le> c div 32 \<and> c div 32 < b \<and> c < 128 then bit (f (c div 32)) (31 - c mod 32) else level x c)"
  by (induction b) (auto simp: level_Set32BitChunk le_Suc_eq)

lemma level_prefix128:
  "level (prefix128 junk rnd v n) c \<longleftrightarrow> c < 128 \<and>
     (if c < n then level v c
      else if c < 32 * ((n + 31) div 32) then odd (rnd c)
      else bit (of_nat (rnd (c div 32)) :: uint32) (31 - c mod 32))"
proof -
  define q r where "q = n div 32" and "r = (n + 31) div 32"
  have q: "q * 32 \<le> n" "c div 32 < q \<Longrightarrow> c < n" "c < q * 32 \<longleftrightarrow> c div 32 < q" by (auto simp: q_def div_less_iff_less_mult)
  have r: "n \<le> r * 32" "c < r * 32 \<longleftrightarrow> c div 32 < r" by (auto simp: r_def div_less_iff_less_mult)
  define x1 where "x1 = fold (\<lambda>i. Set32BitChunk i (Get32BitChunk v i)) [0..<q] junk"
  define x2 where "x2 = fold (\<lambda>i. SetBitNumber i (unat (GetBitNumber v i))) [q * 32..<n] x1"
  define x3 where "x3 = fold (\<lambda>i. SetBitNumber i (rnd i mod 2)) [n..<r * 32] x2"
  have P: "prefix128 junk rnd v n = fold (\<lambda>i. Set32BitChunk i (of_nat (rnd i))) [r..<4] x3"
    by (simp add: prefix128_def Let_def x1_def x2_def x3_def q_def r_def)
  have L1: "level x1 c \<longleftrightarrow> level v c" if "c < q * 32"
  proof (cases "c < 128")
    case True
    then have "c div 32 < 4" by (simp add: div_less_iff_less_mult)
    then show ?thesis using that q(3) True by (simp add: x1_def level_fold_Set32BitChunk level_chunk [of v] Get32BitChunk_def)
  qed (simp add: level_def)
  have L2: "level x2 c \<longleftrightarrow> level v c" if "c < n"
  proof (cases "c < 128")
    case True
    then show ?thesis
      using that L1 by (auto simp: x2_def level_fold_SetBitNumber [OF q(1)] GetBitNumber_level)
  qed (simp add: level_def)
  have L3: "level x3 c \<longleftrightarrow> (if c < n then level v c else odd (rnd c))" if "c < r * 32" "c < 128"
    using that L2 by (auto simp: x3_def level_fold_SetBitNumber [OF r(1)] odd_iff_mod_2_eq_one)
  show ?thesis
  proof (cases "c < 128")
    case c: True
    show ?thesis
    proof (cases "c div 32 < r")
      case True
      have "level (prefix128 junk rnd v n) c = level x3 c"
      proof (cases "r \<le> 4")
        case 4: True
        show ?thesis using True by (simp add: P level_fold_Set32BitChunk [OF 4])
      qed (simp add: P)
      then show ?thesis using True L3 c r by (simp add: r_def mult.commute)
    next
      case False
      have "c div 32 < 4" using c by (simp add: div_less_iff_less_mult)
      then have "r \<le> 4" using False by simp
      then show ?thesis using False c r \<open>c div 32 < 4\<close> by (auto simp: P level_fold_Set32BitChunk r_def mult.commute)
    qed
  qed (simp add: level_def)
qed


section \<open>Bytes and text\<close>

definition digits_value :: "nat \<Rightarrow> ('a \<Rightarrow> nat) \<Rightarrow> 'a list \<Rightarrow> nat" where
  "digits_value base d = foldl (\<lambda>acc x. base * acc + d x) 0"

lemma foldl_digits: "foldl (\<lambda>acc x. base * acc + d x) a xs = base ^ length xs * a + digits_value base d xs" for a :: nat
proof (induction xs rule: rev_induct)
  case (snoc x xs)
  then show ?case by (simp add: digits_value_def algebra_simps)
qed (simp add: digits_value_def)

lemma digits_value_append: "digits_value base d (xs @ ys) = base ^ length ys * digits_value base d xs + digits_value base d ys"
proof -
  have "digits_value base d (xs @ ys) = foldl (\<lambda>acc x. base * acc + d x) (digits_value base d xs) ys"
    by (simp add: digits_value_def)
  then show ?thesis by (simp only: foldl_digits)
qed

lemma digits_value_Cons: "digits_value base d (x # xs) = base ^ length xs * d x + digits_value base d xs"
  using digits_value_append [of base d "[x]" xs] by (simp add: digits_value_def)

lemma digits_value_map: "digits_value base d (map f xs) = digits_value base (d \<circ> f) xs"
  by (simp add: digits_value_def foldl_map)

lemma digits_value_cong: "(\<And>x. x \<in> set xs \<Longrightarrow> d x = e x) \<Longrightarrow> digits_value base d xs = digits_value base e xs"
  unfolding digits_value_def by (rule foldl_cong) simp_all

text \<open>The digits of a number, most significant first, have the number as their value.\<close>

lemma digits_value_of: "digits_value base (\<lambda>i. u div base ^ i mod base) (rev [0..<k]) = u mod base ^ k"
proof (induction k)
  case (Suc k)
  have "u mod base ^ Suc k = base ^ k * (u div base ^ k mod base) + u mod base ^ k"
    using mod_mult2_eq [of u "base ^ k" base] by (simp add: mult.commute)
  then show ?case using Suc by (simp add: digits_value_Cons)
qed (simp add: digits_value_def)

lemma unat_val128: "unat (val128 x) = unat (u32_0 x) + 2 ^ 32 * unat (u32_1 x) + 2 ^ 64 * unat (u32_2 x) + 2 ^ 96 * unat (u32_3 x)"
proof -
  have "int (unat (val128 x)) = int (unat (u32_0 x) + 2 ^ 32 * unat (u32_1 x) + 2 ^ 64 * unat (u32_2 x) + 2 ^ 96 * unat (u32_3 x))"
    using uint_val128 [of x] by (simp add: int128_def)
  then show ?thesis by (simp only: of_nat_eq_iff)
qed

lemma unat32: "unat (w :: uint32) mod 2 ^ 32 = unat w"
  using unsigned_less [of w, where 'a = nat] by simp

lemma unat_drop: "unat (drop_bit n w) = unat w div 2 ^ n" for w :: uint32
  using unat32 [of w] by (simp add: unsigned_drop_bit_eq) (simp add: drop_bit_eq_div take_bit_eq_mod)

lemma unat_digit: "unat (drop_bit (n * i) w AND mask n) = unat w div (2 ^ n) ^ i mod 2 ^ n" for w :: uint32
proof -
  have "unat (drop_bit (n * i) w AND mask n) = take_bit n (unat (drop_bit (n * i) w))"
    by (simp add: unsigned_take_bit_eq flip: take_bit_eq_mask)
  then show ?thesis by (simp add: unat_drop take_bit_eq_mod power_mult)
qed

lemma unat_byte: "unat (ucast (drop_bit (8 * i) w) :: uint8) = unat w div 256 ^ i mod 256" for w :: uint32
proof -
  have "unat (ucast (drop_bit (8 * i) w) :: uint8) = take_bit 8 (unat (drop_bit (8 * i) w))"
    by (simp add: unsigned_ucast_eq)
  then show ?thesis by (simp add: unat_drop take_bit_eq_mod power_mult)
qed

lemma be32_bytes_value: "digits_value 256 unat (be32_bytes w) = unat w"
proof -
  have "be32_bytes w = map (\<lambda>i. ucast (drop_bit (8 * i) w)) (rev [0..<4])"
    by (simp add: be32_bytes_def upt_rec)
  then have "digits_value 256 unat (be32_bytes w) = digits_value 256 (\<lambda>i. unat w div 256 ^ i mod 256) (rev [0..<4])"
    by (simp only: digits_value_map comp_def unat_byte)
  then show ?thesis using unat32 [of w] by (simp only: digits_value_of) simp
qed

lemma length_be32_bytes [simp]: "length (be32_bytes w) = 4"
  by (simp add: be32_bytes_def)

lemma ToByteArray_value: "digits_value 256 unat (ToByteArray x) = unat (val128 x)"
  by (simp add: ToByteArray_def digits_value_append be32_bytes_value unat_val128)

lemma be32_be32_bytes: "be32 (be32_bytes w @ r) = w"
proof (rule bit_word_eqI)
  fix n assume n: "n < LENGTH(32)"
  show "bit (be32 (be32_bytes w @ r)) n = bit w n"
    using n by (cases "n < 8"; cases "n < 16"; cases "n < 24")
      (auto simp: be32_def be32_bytes_def bit_or_iff bit_push_bit_iff bit_ucast_iff bit_drop_bit_eq)
qed

lemma SetValueBE_ToByteArray: "SetValueBE (ToByteArray x) = x"
  using be32_be32_bytes [of _ "[]"]
  by (simp add: SetValueBE_def ToByteArray_def be32_be32_bytes)

lemma bit8: "bit (b :: uint8) n \<Longrightarrow> n < 8"
  using bit_imp_le_length by fastforce

lemma be32_bytes_be32: "be32_bytes (be32 (a # b # c # d # r)) = [a, b, c, d]"
  by (auto simp: be32_bytes_def be32_def bit_eq_iff bit_or_iff bit_push_bit_iff bit_ucast_iff bit_drop_bit_eq dest: bit8)

lemma ToByteArray_SetValueBE: "length b = 16 \<Longrightarrow> ToByteArray (SetValueBE b) = b"
  by (auto simp: SetValueBE_def ToByteArray_def be32_bytes_be32 length_Suc_conv numeral_eq_Suc)

definition hex_value :: "char \<Rightarrow> nat" where
  "hex_value c = (if of_char c < (58 :: nat) then of_char c - 48 else of_char c - 55)"

lemma hex_value_digit: "d < 16 \<Longrightarrow> hex_value (hex_digit d) = d"
proof -
  have "list_all (\<lambda>d. hex_value (hex_digit d) = d) [0..<16]" by code_simp
  then show "d < 16 \<Longrightarrow> hex_value (hex_digit d) = d" by (simp add: list_all_iff)
qed

lemma format_08X_value: "digits_value 16 hex_value (format_08X w) = unat w"
proof -
  have m: "(0xF :: uint32) = mask 4" by (simp add: mask_eq_exp_minus_1)
  have "format_08X w = map (\<lambda>i. hex_digit (unat (drop_bit (4 * i) w AND 0xF))) (rev [0..<8])"
    by (simp add: format_08X_def upt_rec)
  then have "digits_value 16 hex_value (format_08X w) = digits_value 16 (\<lambda>i. unat w div 16 ^ i mod 16) (rev [0..<8])"
    by (simp add: digits_value_map comp_def m unat_digit hex_value_digit)
  then show ?thesis using unat32 [of w] by (simp only: digits_value_of) simp
qed

lemma length_format_08X [simp]: "length (format_08X w) = 8"
  by (simp add: format_08X_def)

lemma ToHexString_eq: "ToHexString x = format_08X (u32_3 x) @ format_08X (u32_2 x) @ format_08X (u32_1 x) @ format_08X (u32_0 x)"
  by (simp add: ToHexString_def u32_data_def)

lemma ToHexString_value: "digits_value 16 hex_value (ToHexString x) = unat (val128 x)"
  by (simp add: ToHexString_eq digits_value_append format_08X_value unat_val128)

definition bin_value :: "char \<Rightarrow> nat" where
  "bin_value c = of_char c - 48"

abbreviation bin_digit :: "bool \<Rightarrow> char" where
  "bin_digit b \<equiv> (if b then CHR ''1'' else CHR ''0'')"

lemma binary_step:
  "snd (fold (\<lambda>i (trim, str).
       let b = GetBitNumber x i in if \<not> trim \<or> b \<noteq> 0 then (False, str @ (if b \<noteq> 0 then ''1'' else ''0'')) else (trim, str))
     is (t, s)) =
   s @ map (\<lambda>i. bin_digit (level x i)) (if t then dropWhile (\<lambda>i. \<not> level x i) is else is)"
  by (induction "is" arbitrary: t s) (auto simp: GetBitNumber_level Let_def)

lemma ToBinaryString_eq:
  "ToBinaryString trim x =
    (let s = map (\<lambda>i. bin_digit (level x i)) (if trim then dropWhile (\<lambda>i. \<not> level x i) [0..<128] else [0..<128])
     in if s = [] then ''0'' else s)"
  unfolding ToBinaryString_def binary_step by (simp add: Let_def)

lemma bits_value: "digits_value 2 (\<lambda>i. of_bool (level x i)) [0..<128] = unat (val128 x)"
proof -
  have l: "level x i = bit (val128 x) (127 - i)" if "i < 128" for i using that by (simp add: level_def)
  have "digits_value 2 (\<lambda>i. of_bool (level x i)) [0..<128] = digits_value 2 (\<lambda>i. of_bool (bit (val128 x) (127 - i))) [0..<128]"
    by (rule digits_value_cong) (simp add: l)
  also have "\<dots> = digits_value 2 (\<lambda>i. unat (val128 x) div 2 ^ (127 - i) mod 2) [0..<128]"
  proof -
    have "of_bool (bit w k) = unat w div 2 ^ k mod 2" for k and w :: "128 word"
    proof -
      have "bit (unat w) k = bit w k" by (auto simp: bit_unsigned_iff dest: bit_imp_le_length)
      then have "bit w k = odd (unat w div 2 ^ k)" by (simp only: bit_iff_odd [of "unat w"])
      then show ?thesis by (simp only: mod_2_eq_odd)
    qed
    then show ?thesis by simp
  qed
  also have "\<dots> = digits_value 2 (\<lambda>i. unat (val128 x) div 2 ^ i mod 2) (map (\<lambda>i. 127 - i) [0..<128])"
    by (simp only: digits_value_map comp_def)
  also have "map (\<lambda>i. 127 - i) [0..<128] = rev [0..<128]"
    by (rule nth_equalityI) (simp_all add: rev_nth)
  finally show ?thesis using unsigned_less [of "val128 x", where 'a = nat] by (simp only: digits_value_of) simp
qed

lemma digits_value_zeros: "(\<forall>x \<in> set xs. d x = 0) \<Longrightarrow> digits_value base d (xs @ ys) = digits_value base d ys"
  by (induction xs) (simp_all add: digits_value_Cons)

lemma ToBinaryString_value: "digits_value 2 bin_value (ToBinaryString trim x) = unat (val128 x)"
proof -
  have v: "bin_value (bin_digit b) = of_bool b" for b by (simp add: bin_value_def)
  have "digits_value 2 (\<lambda>i. of_bool (level x i)) [0..<128] =
     digits_value 2 (\<lambda>i. of_bool (level x i)) (takeWhile (\<lambda>i. \<not> level x i) [0..<128] @ dropWhile (\<lambda>i. \<not> level x i) [0..<128])"
    by (simp only: takeWhile_dropWhile_id)
  also have "\<dots> = digits_value 2 (\<lambda>i. of_bool (level x i)) (dropWhile (\<lambda>i. \<not> level x i) [0..<128])"
    by (rule digits_value_zeros) (auto dest: set_takeWhileD)
  finally have d: "digits_value 2 (\<lambda>i. of_bool (level x i)) (dropWhile (\<lambda>i. \<not> level x i) [0..<128]) = unat (val128 x)"
    by (simp only: bits_value)
  define l where "l = (if trim then dropWhile (\<lambda>i. \<not> level x i) [0..<128] else [0..<128])"
  have l: "digits_value 2 (\<lambda>i. of_bool (level x i)) l = unat (val128 x)"
    using d bits_value [of x] by (cases trim) (simp_all add: l_def)
  have "digits_value 2 bin_value (map (\<lambda>i. bin_digit (level x i)) l) = unat (val128 x)"
    unfolding l [symmetric] by (simp only: digits_value_map comp_def v)
  moreover have "l = [] \<Longrightarrow> unat (val128 x) = 0" using l by (simp add: digits_value_def)
  ultimately show ?thesis
    unfolding ToBinaryString_eq l_def [symmetric] Let_def by (auto simp: digits_value_def bin_value_def)
qed


section \<open>The order\<close>

instantiation CUInt128 :: linorder
begin

definition less_eq_CUInt128 :: "CUInt128 \<Rightarrow> CUInt128 \<Rightarrow> bool" where
  "less_eq_CUInt128 x y \<longleftrightarrow> CompareTo x y \<le> 0"

definition less_CUInt128 :: "CUInt128 \<Rightarrow> CUInt128 \<Rightarrow> bool" where
  "less_CUInt128 x y \<longleftrightarrow> CompareTo x y < 0"

instance
  by standard (auto simp: less_eq_CUInt128_def less_CUInt128_def CompareTo_int intro: CUInt128_eqI split: if_splits)

end

lemma val128_inject: "val128 x = val128 y \<longleftrightarrow> x = y"
  using uint_val128 CUInt128_eqI by metis

section \<open>Properties\<close>

text \<open>
  C40. The class is 128-bit unsigned arithmetic: sums and differences wrap at \<open>2 ^ 128\<close> (the carries and
  borrows between the four words are right for every operand), shifting left by any amount (also by 128
  and more) and exclusive or are those of the 128-bit word, with 128-bit or 32-bit right operands.
\<close>

theorem uint128_arithmetic:
  "val128 (Add x y) = val128 x + val128 y \<and> val128 (Subtract x y) = val128 x - val128 y \<and>
   val128 (XOR128 x y) = val128 x XOR val128 y \<and> val128 (ShiftLeft x n) = push_bit n (val128 x) \<and>
   val128 (Add32 x v) = val128 x + ucast v \<and> val128 (Subtract32 x v) = val128 x - ucast v \<and>
   val128 (XOR32 x v) = val128 x XOR ucast v \<and>
   val128 (add_32_left v x) = ucast v + val128 x \<and> val128 (sub_32_left v x) = ucast v - val128 x"
  by (simp add: val128_Add val128_Subtract val128_XOR val128_ShiftLeft val128_SetValue32
      Add32_def Subtract32_def XOR32_def add_32_left_def sub_32_left_def)

text \<open>
  Comparison is the order of the 128-bit numbers: \<open>CompareTo\<close> is negative, zero or positive as the
  first number is less than, equal to or greater than the second, for 128-bit and for 32-bit second
  operands; equality of the numbers is equality of the four words.
\<close>

theorem uint128_order:
  "CompareTo x y = sgn (uint (val128 x) - uint (val128 y)) \<and>
   CompareTo32 x v = sgn (uint (val128 x) - uint v) \<and>
   (CompareTo x y = 0 \<longleftrightarrow> x = y) \<and> (x < y \<longleftrightarrow> val128 x < val128 y) \<and> (x \<le> y \<longleftrightarrow> val128 x \<le> val128 y)"
proof -
  have "uint (ucast v :: 128 word) = uint v"
    using uint_val128 [of "SetValue32 v"] by (simp add: val128_SetValue32 SetValue32_int)
  then have 1: "CompareTo32 x v = sgn (uint (val128 x) - uint v)"
    by (simp add: CompareTo32_val word_less_def)
  have 2: "CompareTo x y = sgn (uint (val128 x) - uint (val128 y))"
    by (simp add: CompareTo_val word_less_def)
  have 3: "CompareTo x y = 0 \<longleftrightarrow> x = y"
    using val128_inject [of x y]
    by (cases "val128 x" "val128 y" rule: linorder_cases) (auto simp: CompareTo_val)
  have 4: "x < y \<longleftrightarrow> val128 x < val128 y" "x \<le> y \<longleftrightarrow> val128 x \<le> val128 y"
    by (auto simp: less_CUInt128_def less_eq_CUInt128_def 2 word_less_def word_le_def sgn_if)
  from 1 2 3 4 show ?thesis by blast
qed

text \<open>
  Wire and text forms. \<open>ToByteArray\<close> writes the 16 bytes of the number most significant first, and
  \<open>SetValueBE\<close> of them is the number again; \<open>ToHexString\<close> writes its 32 hexadecimal digits and
  \<open>ToBinaryString\<close> its binary digits, all 128 of them or, trimmed, without leading zeros.
\<close>

theorem uint128_bytes_and_text:
  "SetValueBE (ToByteArray x) = x \<and> length (ToByteArray x) = 16 \<and>
   digits_value 256 unat (ToByteArray x) = unat (val128 x) \<and>
   length (ToHexString x) = 32 \<and> digits_value 16 hex_value (ToHexString x) = unat (val128 x) \<and>
   length (ToBinaryString False x) = 128 \<and> digits_value 2 bin_value (ToBinaryString trim x) = unat (val128 x)"
proof -
  have "length (ToBinaryString False x) = 128"
    by (simp add: ToBinaryString_eq Let_def)
  moreover have "length (ToByteArray x) = 16" by (simp add: ToByteArray_def)
  moreover have "length (ToHexString x) = 32" by (simp add: ToHexString_eq)
  ultimately show ?thesis
    by (simp only: SetValueBE_ToByteArray ToByteArray_value ToHexString_value ToBinaryString_value simp_thms)
qed

text \<open>
  The constructor that keeps a prefix: bits are counted from the most significant one, the first
  \<open>numBits\<close> bits are those of the given number, the rest of a started 32-bit chunk is one random bit each,
  whole chunks after it one random number each, and nothing depends on the uninitialised memory.
\<close>

theorem uint128_prefix:
  "GetBitNumber (prefix128 junk rnd value numBits) b =
     (if \<not> b < 128 then 0
      else if b < numBits then GetBitNumber value b
      else if b < 32 * ((numBits + 31) div 32) then of_bool (odd (rnd b))
      else of_bool (bit (of_nat (rnd (b div 32)) :: uint32) (31 - b mod 32)))"
  by (simp add: GetBitNumber_level level_prefix128)

text \<open>
  \<open>rand()\<close> is at most \<open>RAND_MAX\<close>, which is \<open>2 ^ 31 - 1\<close> where it is largest: the first bit of every
  padded chunk is 0, although the comment promises random bits.
\<close>

lemma padding_not_random:
  assumes "\<And>i. rnd i < 2 ^ 31" and "numBits \<le> 32 * k" and "k < 4"
  shows "GetBitNumber (prefix128 junk rnd value numBits) (32 * k) = 0"
proof -
  have "\<not> bit (of_nat (rnd k) :: uint32) 31"
  proof -
    have "\<not> bit (rnd k) 31" using assms(1) [of k] by (simp add: bit_iff_odd)
    then show ?thesis by (simp add: bit_of_nat_iff)
  qed
  moreover have "\<not> 32 * k < 32 * ((numBits + 31) div 32)" using assms(2) by (simp add: not_less less_mult_imp_div_less)
  ultimately show ?thesis using assms(2,3) by (simp add: uint128_prefix)
qed

end
