(* ===== verification/Safe_File.thy ===== *)
theory Safe_File
  imports MemFile UInt128
begin

text \<open>
  The typed readers and writers of \<open>CFileDataIO\<close> (\<open>src/src/SafeFile.cpp\<close>): integers, 128-bit numbers,
  hashes, floats, short binary objects and strings. \<open>puts m bs\<close> says that \<open>m\<close> writes \<open>bs\<close> at the
  position of a growable file, \<open>gets m bs x\<close> that \<open>m\<close> reads \<open>x\<close> wherever the file has \<open>bs\<close>, and
  \<open>eof_on m bs\<close> that \<open>m\<close> throws \<open>CEOFException\<close> wherever the file ends inside \<open>bs\<close>. The locale
  \<open>field_codec\<close> is the contract of a writer with its reader; every type of field interprets it, and its
  lemmas carry over to lists of fields.

  The character conversions of wxWidgets are parameters (\<open>string_env\<close>): \<open>utf8_enc\<close> and \<open>latin1_enc\<close> give
  the buffer a \<open>wxString\<close> converts to (\<open>None\<close> for a null buffer), \<open>utf8_dec\<close> and \<open>latin1_dec\<close> the string
  that bytes convert to. A \<open>wxString\<close> is the list of its code points, a \<open>float\<close> its 32 bits.
\<close>

section \<open>Integers, hashes and binary objects\<close>

definition of_le :: "uint8 list \<Rightarrow> 'a::len word" where
  "of_le bs = of_nat (horner_sum unat 256 bs)"

definition le_bytes :: "nat \<Rightarrow> 'a::len word \<Rightarrow> uint8 list" where
  "le_bytes n w = map (\<lambda>i. ucast (drop_bit (8 * i) w)) [0..<n]"

definition io_map :: "('a \<Rightarrow> 'b) \<Rightarrow> 'a io \<Rightarrow> 'b io" where
  "io_map g m = io_bind m (\<lambda>x. io_return (g x))"

definition ReadUInt8 :: "uint8 io" where
  "ReadUInt8 = io_map of_le (ReadIO 1)"

definition ReadUInt16 :: "uint16 io" where
  "ReadUInt16 = io_map of_le (ReadIO 2)"

definition ReadUInt32 :: "uint32 io" where
  "ReadUInt32 = io_map of_le (ReadIO 4)"

definition ReadUInt64 :: "uint64 io" where
  "ReadUInt64 = io_map of_le (ReadIO 8)"

primrec io_for :: "nat list \<Rightarrow> (nat \<Rightarrow> 'a \<Rightarrow> 'a io) \<Rightarrow> 'a \<Rightarrow> 'a io" where
  "io_for [] body x = io_return x"
| "io_for (i # is) body x = io_bind (body i x) (io_for is body)"

definition ReadUInt128 :: "CUInt128 io" where
  "ReadUInt128 = io_for [0, 1, 2, 3] (\<lambda>i v. io_map (\<lambda>w. Set32BitChunk i w v) ReadUInt32) (fill128 False)"

definition MD4HASH_LENGTH :: nat where
  "MD4HASH_LENGTH = 16"

definition ReadHash :: "uint8 list io" where
  "ReadHash = ReadIO MD4HASH_LENGTH"

definition ReadFloat :: "uint32 io" where
  "ReadFloat = io_map of_le (ReadIO 4)"

definition ReadBsob :: "uint8 list io" where
  "ReadBsob = io_bind ReadUInt8 (\<lambda>n. ReadIO (unat n))"

definition WriteUInt8 :: "uint8 \<Rightarrow> unit io" where
  "WriteUInt8 v = WriteIO (le_bytes 1 v)"

definition WriteUInt16 :: "uint16 \<Rightarrow> unit io" where
  "WriteUInt16 v = WriteIO (le_bytes 2 v)"

definition WriteUInt32 :: "uint32 \<Rightarrow> unit io" where
  "WriteUInt32 v = WriteIO (le_bytes 4 v)"

definition WriteUInt64 :: "uint64 \<Rightarrow> unit io" where
  "WriteUInt64 v = WriteIO (le_bytes 8 v)"

primrec io_foreach :: "'a list \<Rightarrow> ('a \<Rightarrow> unit io) \<Rightarrow> unit io" where
  "io_foreach [] body = io_return ()"
| "io_foreach (x # xs) body = io_seq (body x) (io_foreach xs body)"

definition WriteUInt128 :: "CUInt128 \<Rightarrow> unit io" where
  "WriteUInt128 v = io_foreach [0, 1, 2, 3] (\<lambda>i. WriteUInt32 (Get32BitChunk v i))"

definition WriteHash :: "uint8 list \<Rightarrow> unit io" where
  "WriteHash h = WriteIO (take MD4HASH_LENGTH h)"

definition WriteFloat :: "uint32 \<Rightarrow> unit io" where
  "WriteFloat v = WriteIO (le_bytes 4 v)"

definition WriteBsob :: "uint8 list \<Rightarrow> uint8 \<Rightarrow> unit io" where
  "WriteBsob val n = io_seq (WriteUInt8 n) (WriteIO (take (unat n) val))"

section \<open>Strings\<close>

type_synonym wx_string = "nat list"

record string_env =
  utf8_enc :: "wx_string \<Rightarrow> uint8 list option"
  utf8_dec :: "uint8 list \<Rightarrow> wx_string"
  latin1_enc :: "wx_string \<Rightarrow> uint8 list option"
  latin1_dec :: "uint8 list \<Rightarrow> wx_string"

datatype EUtf8Str = utf8strNone | utf8strOptBOM | utf8strRaw

definition BOMHeader :: "uint8 list" where
  "BOMHeader = [0xEF, 0xBB, 0xBF]"

definition CHECK_BOM :: "uint8 list \<Rightarrow> bool" where
  "CHECK_BOM x \<longleftrightarrow> 3 \<le> length x \<and> x ! 0 = 0xEF \<and> x ! 1 = 0xBB \<and> x ! 2 = 0xBF"

text \<open>The bytes of a C string: up to its first null byte.\<close>

definition cstr :: "uint8 list \<Rightarrow> uint8 list" where
  "cstr bs = takeWhile (\<lambda>b. b \<noteq> 0) bs"

definition decode_string :: "string_env \<Rightarrow> bool \<Rightarrow> uint8 list \<Rightarrow> wx_string" where
  "decode_string env bOptUTF8 val =
     (if CHECK_BOM val then utf8_dec env (cstr (drop 3 val))
      else if bOptUTF8 then
        (let str = utf8_dec env (cstr val) in if str = [] then latin1_dec env val else str)
      else latin1_dec env val)"

definition ReadOnlyString :: "string_env \<Rightarrow> bool \<Rightarrow> nat \<Rightarrow> wx_string io" where
  "ReadOnlyString env bOptUTF8 raw_len = io_map (decode_string env bOptUTF8) (ReadIO (u16 raw_len))"

text \<open>\<open>GetLength() - GetPosition()\<close>, computed on \<open>uint64\<close>: it wraps behind the end of the file.\<close>

definition remaining :: "memfile \<Rightarrow> nat" where
  "remaining f =
     (if m_position f \<le> m_fileSize f then m_fileSize f - m_position f
      else 2 ^ 64 + m_fileSize f - m_position f)"

definition ReadString :: "string_env \<Rightarrow> bool \<Rightarrow> nat \<Rightarrow> bool \<Rightarrow> wx_string io" where
  "ReadString env bOptUTF8 SizeLen SafeRead =
     io_bind
       (if SizeLen = 2 then io_map unat ReadUInt16
        else if SizeLen = 4 then io_map unat ReadUInt32
        else io_throw CInvalidParamsEx)
       (\<lambda>readLen f.
          let readLen = (if SafeRead then u32 (min readLen (remaining f)) else readLen)
          in ReadOnlyString env bOptUTF8 readLen f)"

definition WriteStringCore :: "uint8 list option \<Rightarrow> EUtf8Str \<Rightarrow> nat \<Rightarrow> unit io" where
  "WriteStringCore s eEncode SizeLen =
     (let sLength = (case s of None \<Rightarrow> 0 | Some bs \<Rightarrow> u32 (length (cstr bs)));
          real_length = (if eEncode = utf8strOptBOM then u32 (sLength + 3) else sLength);
          oversized = (SizeLen = 2 \<and> 0xFFFF < real_length);
          real_length' = (if oversized then 0xFFFF else real_length);
          sLength' = (if oversized then (if eEncode = utf8strOptBOM then real_length' - 3 else real_length')
                      else sLength)
      in io_seq
           (if SizeLen = 0 then io_return ()
            else if SizeLen = 2 then WriteUInt16 (of_nat real_length')
            else if SizeLen = 4 then WriteUInt32 (of_nat real_length')
            else io_throw CInvalidParamsEx)
           (io_seq (if eEncode = utf8strOptBOM then WriteIO BOMHeader else io_return ())
             (if sLength' \<noteq> 0 then WriteIO (take sLength' (cstr (the s))) else io_return ())))"

definition WriteString :: "string_env \<Rightarrow> wx_string \<Rightarrow> EUtf8Str \<Rightarrow> nat \<Rightarrow> unit io" where
  "WriteString env str eEncode SizeLen =
     (if eEncode \<noteq> utf8strNone \<and> utf8_enc env str \<noteq> None
      then WriteStringCore (utf8_enc env str) eEncode SizeLen
      else WriteStringCore (latin1_enc env str) utf8strNone SizeLen)"

text \<open>\<open>GetRawSize\<close> (\<open>StringFunctions.h\<close>); outside Windows \<open>unicode2char\<close> converts to UTF-8 too.\<close>

definition GetRawSize :: "string_env \<Rightarrow> wx_string \<Rightarrow> EUtf8Str \<Rightarrow> nat" where
  "GetRawSize env rstr eEncode =
     (case utf8_enc env rstr of
        None \<Rightarrow> 0
      | Some s \<Rightarrow> (if eEncode = utf8strOptBOM then 3 else 0) + length (cstr s))"

section \<open>What writers and readers do\<close>

definition wrote :: "memfile \<Rightarrow> uint8 list \<Rightarrow> memfile \<Rightarrow> bool" where
  "wrote f bs f' \<longleftrightarrow> growable f' \<and> m_position f' = m_position f + length bs \<and>
     contents f' = take (m_position f) (contents f) @ bs @ drop (m_position f + length bs) (contents f)"

definition puts :: "unit io \<Rightarrow> uint8 list \<Rightarrow> bool" where
  "puts m bs \<longleftrightarrow> (\<forall>f. growable f \<and> m_position f \<le> m_fileSize f \<longrightarrow> (\<exists>f'. m f = (Inr (), f') \<and> wrote f bs f'))"

definition gets :: "'a io \<Rightarrow> uint8 list \<Rightarrow> 'a \<Rightarrow> bool" where
  "gets m bs x \<longleftrightarrow> (\<forall>f pre rest. mem_ok f \<and> contents f = pre @ bs @ rest \<and> m_position f = length pre \<longrightarrow>
     m f = (Inr x, f\<lparr>m_position := length pre + length bs\<rparr>))"

definition eof_on :: "'a io \<Rightarrow> uint8 list \<Rightarrow> bool" where
  "eof_on m bs \<longleftrightarrow> (\<forall>f pre n. mem_ok f \<and> n < length bs \<and> contents f = pre @ take n bs \<and> m_position f = length pre \<longrightarrow>
     (\<exists>f'. m f = (Inl EOFException, f') \<and> contents f' = contents f))"

named_theorems puts_intros \<open>what a writer writes\<close>
named_theorems gets_intros \<open>what a reader reads\<close>
named_theorems eof_intros \<open>readers of truncated data\<close>

lemma wrote_pos: "wrote f bs f' \<Longrightarrow> m_position f \<le> m_fileSize f \<Longrightarrow> growable f \<Longrightarrow> m_position f' \<le> m_fileSize f'"
proof -
  assume w: "wrote f bs f'" and p: "m_position f \<le> m_fileSize f" and g: "growable f"
  have "m_fileSize f' = length (contents f')" using w length_contents [of f'] by (simp add: wrote_def growable_def)
  also have "m_position f' \<le> \<dots>" using w p g length_contents [of f] by (simp add: wrote_def growable_def)
  finally show ?thesis .
qed

lemma wrote_trans:
  assumes "wrote f a f'" and "wrote f' b f''" and "m_position f \<le> m_fileSize f" and "growable f"
  shows "wrote f (a @ b) f''"
proof -
  have l: "length (take (m_position f) (contents f)) = m_position f"
    using assms length_contents [of f] by (simp add: growable_def)
  show ?thesis
    using assms(1,2) l by (simp add: wrote_def add.assoc) (simp add: add.commute add.left_commute)
qed

lemma putsD: "puts m bs \<Longrightarrow> growable f \<Longrightarrow> m_position f \<le> m_fileSize f \<Longrightarrow> \<exists>f'. m f = (Inr (), f') \<and> wrote f bs f'"
  by (simp add: puts_def)

lemma puts_return [puts_intros]: "puts (io_return ()) []"
  by (simp add: puts_def io_return_def wrote_def)

lemma puts_seq [puts_intros]:
  assumes "puts m a" and "puts k b"
  shows "puts (io_seq m k) (a @ b)"
  unfolding puts_def
proof (intro allI impI, elim conjE)
  fix f assume f: "growable f" "m_position f \<le> m_fileSize f"
  obtain f' where f': "m f = (Inr (), f')" "wrote f a f'" using putsD [OF assms(1) f] by blast
  have "growable f'" using f' by (simp add: wrote_def)
  then obtain f'' where "k f' = (Inr (), f'')" "wrote f' b f''"
    using putsD [OF assms(2)] wrote_pos [OF f'(2) f(2,1)] by blast
  then show "\<exists>f'. io_seq m k f = (Inr (), f') \<and> wrote f (a @ b) f'"
    using f' f wrote_trans [OF f'(2) _ f(2,1)] by (auto simp: io_seq_def io_bind_def)
qed

lemma puts_WriteIO [puts_intros]: "puts (WriteIO bs) bs"
  using WriteIO_ok by (fastforce simp: puts_def wrote_def)

lemma puts_cong: "puts m a \<Longrightarrow> a = b \<Longrightarrow> puts m b"
  by simp

lemma puts_foreach [puts_intros]:
  "(\<And>x. x \<in> set xs \<Longrightarrow> puts (body x) (bytes x)) \<Longrightarrow> puts (io_foreach xs body) (concat (map bytes xs))"
  by (induction xs) (simp_all add: puts_return puts_seq)

lemma getsD: "gets m bs x \<Longrightarrow> mem_ok f \<Longrightarrow> contents f = pre @ bs @ rest \<Longrightarrow> m_position f = length pre \<Longrightarrow>
    m f = (Inr x, f\<lparr>m_position := length pre + length bs\<rparr>)"
  by (simp add: gets_def)

lemma gets_return [gets_intros]: "gets (io_return x) [] x"
  by (simp add: gets_def io_return_def)

lemma gets_bind [gets_intros]:
  assumes "gets m a x" and "gets (k x) b y"
  shows "gets (io_bind m k) (a @ b) y"
  unfolding gets_def
proof (intro allI impI, elim conjE)
  fix f pre rest
  assume f: "mem_ok f" "contents f = pre @ (a @ b) @ rest" "m_position f = length pre"
  let ?f = "f\<lparr>m_position := length pre + length a\<rparr>"
  have "m f = (Inr x, ?f)" using getsD [OF assms(1), of f pre "b @ rest"] f by simp
  moreover have "k x ?f = (Inr y, ?f\<lparr>m_position := length (pre @ a) + length b\<rparr>)"
    using f by (intro getsD [OF assms(2), of _ "pre @ a" rest]) (simp_all add: mem_ok_def contents_def)
  ultimately show "io_bind m k f = (Inr y, f\<lparr>m_position := length pre + length (a @ b)\<rparr>)"
    by (simp add: io_bind_def add.assoc)
qed

lemma gets_map [gets_intros]: "gets m bs x \<Longrightarrow> gets (io_map g m) bs (g x)"
  using gets_bind [of m bs x "\<lambda>x. io_return (g x)" "[]"] by (simp add: io_map_def gets_return)

lemma gets_ReadIO [gets_intros]: "gets (ReadIO (length bs)) bs bs"
  by (simp add: gets_def ReadIO_ok)

lemma gets_cong: "gets m a x \<Longrightarrow> a = b \<Longrightarrow> x = y \<Longrightarrow> gets m b y"
  by simp

lemma eof_map [eof_intros]: "eof_on m bs \<Longrightarrow> eof_on (io_map g m) bs"
  by (fastforce simp: eof_on_def io_map_def io_bind_def)

lemma eof_Nil [eof_intros]: "eof_on m []"
  by (simp add: eof_on_def)

lemma eof_ReadIO [eof_intros]: "eof_on (ReadIO (length bs)) bs"
  unfolding eof_on_def
proof (intro allI impI, elim conjE)
  fix f pre n
  assume f: "mem_ok f" "n < length bs" "contents f = pre @ take n bs" "m_position f = length pre"
  then have "m_fileSize f = length pre + n" using length_contents [of f] by simp
  then show "\<exists>f'. ReadIO (length bs) f = (Inl EOFException, f') \<and> contents f' = contents f"
    using ReadIO_eof [OF f(1), of "length bs"] f(2,4) by fastforce
qed

lemma eof_bind [eof_intros]:
  assumes "gets m a x" and "eof_on m a" and "eof_on (k x) b"
  shows "eof_on (io_bind m k) (a @ b)"
  unfolding eof_on_def
proof (intro allI impI, elim conjE)
  fix f pre n
  assume f: "mem_ok f" "n < length (a @ b)" "contents f = pre @ take n (a @ b)" "m_position f = length pre"
  show "\<exists>f'. io_bind m k f = (Inl EOFException, f') \<and> contents f' = contents f"
  proof (cases "n < length a")
    case True
    then obtain f' where "m f = (Inl EOFException, f')" "contents f' = contents f"
      using assms(2) f unfolding eof_on_def by force
    then show ?thesis by (simp add: io_bind_def)
  next
    case False
    let ?f = "f\<lparr>m_position := length pre + length a\<rparr>"
    have "m f = (Inr x, ?f)" using False f by (intro getsD [OF assms(1), of f pre "take (n - length a) b"]) auto
    moreover have "\<exists>f'. k x ?f = (Inl EOFException, f') \<and> contents f' = contents ?f"
      using assms(3) False f unfolding eof_on_def
      by (elim allE [of _ ?f] allE [of _ "pre @ a"] allE [of _ "n - length a"])
        (auto simp: mem_ok_def contents_def)
    ultimately show ?thesis by (auto simp: io_bind_def contents_def)
  qed
qed

section \<open>The contract of a writer with its reader\<close>

locale field_codec =
  fixes put :: "'a \<Rightarrow> unit io" and get :: "'a io" and bytes :: "'a \<Rightarrow> uint8 list" and ok :: "'a \<Rightarrow> bool"
  assumes put_bytes: "ok x \<Longrightarrow> puts (put x) (bytes x)"
    and get_bytes: "ok x \<Longrightarrow> gets get (bytes x) x"
    and get_eof: "ok x \<Longrightarrow> eof_on get (bytes x)"
begin

primrec get_n :: "nat \<Rightarrow> 'a list io" where
  "get_n 0 = io_return []"
| "get_n (Suc n) = io_bind get (\<lambda>x. io_map (Cons x) (get_n n))"

lemma put_list: "list_all ok xs \<Longrightarrow> puts (io_foreach xs put) (concat (map bytes xs))"
  by (rule puts_foreach) (simp add: list_all_iff put_bytes)

lemma get_list: "list_all ok xs \<Longrightarrow> gets (get_n (length xs)) (concat (map bytes xs)) xs"
proof (induction xs)
  case (Cons x xs)
  then show ?case by (auto intro!: gets_bind get_bytes gets_map)
qed (simp add: gets_return)

lemma eof_list: "list_all ok xs \<Longrightarrow> eof_on (get_n (length xs)) (concat (map bytes xs))"
proof (induction xs)
  case (Cons x xs)
  then show ?case by (auto intro!: eof_bind get_bytes get_eof eof_map)
qed (simp add: eof_Nil)

text \<open>Write, seek back, read.\<close>

lemma write_seek_read:
  assumes "ok x" and "growable f" and "m_position f \<le> m_fileSize f"
  shows "\<exists>f1 f2. put x f = (Inr (), f1) \<and> wrote f (bytes x) f1 \<and>
    get (f1\<lparr>m_position := m_position f\<rparr>) = (Inr x, f2) \<and> contents f2 = contents f1 \<and> m_position f2 = m_position f1"
proof -
  obtain f1 where f1: "put x f = (Inr (), f1)" "wrote f (bytes x) f1"
    using putsD [OF put_bytes assms(2,3)] assms(1) by blast
  let ?f = "f1\<lparr>m_position := m_position f\<rparr>"
  have l: "length (take (m_position f) (contents f)) = m_position f"
    using assms(2,3) length_contents [of f] by (simp add: growable_def)
  have "get ?f = (Inr x, ?f\<lparr>m_position := length (take (m_position f) (contents f)) + length (bytes x)\<rparr>)"
    using f1(2) l by (intro getsD [OF get_bytes [OF assms(1)], of _ _ "drop (m_position f + length (bytes x)) (contents f)"])
      (simp_all add: wrote_def growable_def mem_ok_def contents_def)
  then show ?thesis using f1 l by (auto simp: wrote_def contents_def)
qed

end

section \<open>Integers\<close>

lemma horner_digits: "horner_sum f base (map g [0..<n]) = digits_value base (\<lambda>i. f (g i)) (rev [0..<n])"
proof (induction n)
  case (Suc n)
  then show ?case by (simp add: horner_sum_append digits_value_Cons)
qed (simp add: digits_value_def)

lemma horner_sum_digits:
  "horner_sum unat 256 (le_bytes n w) = unat w mod 256 ^ n" for w :: "'a::len word"
proof -
  have "unat (ucast (drop_bit (8 * i) w) :: uint8) = unat w div 256 ^ i mod 256" for i
  proof -
    have "unat (ucast (drop_bit (8 * i) w) :: uint8) = take_bit 8 (unat (drop_bit (8 * i) w))"
      by (simp add: unsigned_ucast_eq)
    also have "unat (drop_bit (8 * i) w) = drop_bit (8 * i) (take_bit LENGTH('a) (unat w))"
      by (simp add: unsigned_drop_bit_eq)
    also have "take_bit LENGTH('a) (unat w) = unat w"
      using unsigned_less [of w, where 'a = nat] by (simp add: take_bit_nat_eq_self)
    finally show ?thesis by (simp add: drop_bit_eq_div take_bit_eq_mod power_mult)
  qed
  then have "horner_sum unat 256 (le_bytes n w) = digits_value 256 (\<lambda>i. unat w div 256 ^ i mod 256) (rev [0..<n])"
    by (simp only: le_bytes_def horner_digits)
  then show ?thesis by (simp only: digits_value_of)
qed

lemma length_le_bytes [simp]: "length (le_bytes n w) = n"
  by (simp add: le_bytes_def)

lemma of_le_bytes: "LENGTH('a) \<le> 8 * n \<Longrightarrow> of_le (le_bytes n w) = w" for w :: "'a::len word"
proof -
  assume n: "LENGTH('a) \<le> 8 * n"
  have "unat w < 2 ^ LENGTH('a)" using unsigned_less [of w, where 'a = nat] by simp
  also have "\<dots> \<le> 2 ^ (8 * n)" using n by (simp add: power_increasing)
  also have "\<dots> = 256 ^ n" by (simp add: power_mult)
  finally show ?thesis by (simp add: of_le_def horner_sum_digits)
qed


lemma gets_le: "LENGTH('a) \<le> 8 * n \<Longrightarrow> gets (io_map of_le (ReadIO n)) (le_bytes n w) w" for w :: "'a::len word"
  using gets_map [OF gets_ReadIO [of "le_bytes n w"], of "of_le :: _ \<Rightarrow> 'a word"] by (simp add: of_le_bytes)

lemma eof_le: "eof_on (io_map of_le (ReadIO n)) (le_bytes n w)"
  using eof_map [OF eof_ReadIO [of "le_bytes n w"]] by simp

interpretation u8: field_codec WriteUInt8 ReadUInt8 "le_bytes 1" "\<lambda>_. True"
  by unfold_locales (simp_all add: WriteUInt8_def ReadUInt8_def puts_WriteIO gets_le eof_le)

interpretation u16: field_codec WriteUInt16 ReadUInt16 "le_bytes 2" "\<lambda>_. True"
  by unfold_locales (simp_all add: WriteUInt16_def ReadUInt16_def puts_WriteIO gets_le eof_le)

interpretation u32: field_codec WriteUInt32 ReadUInt32 "le_bytes 4" "\<lambda>_. True"
  by unfold_locales (simp_all add: WriteUInt32_def ReadUInt32_def puts_WriteIO gets_le eof_le)

interpretation u64: field_codec WriteUInt64 ReadUInt64 "le_bytes 8" "\<lambda>_. True"
  by unfold_locales (simp_all add: WriteUInt64_def ReadUInt64_def puts_WriteIO gets_le eof_le)

interpretation float: field_codec WriteFloat ReadFloat "le_bytes 4" "\<lambda>_. True"
  by unfold_locales (simp_all add: WriteFloat_def ReadFloat_def puts_WriteIO gets_le eof_le)

lemmas int_puts [puts_intros] = u8.put_bytes [OF TrueI] u16.put_bytes [OF TrueI] u32.put_bytes [OF TrueI]
  u64.put_bytes [OF TrueI] float.put_bytes [OF TrueI]
lemmas int_gets [gets_intros] = u8.get_bytes [OF TrueI] u16.get_bytes [OF TrueI] u32.get_bytes [OF TrueI]
  u64.get_bytes [OF TrueI] float.get_bytes [OF TrueI]
lemmas int_eof [eof_intros] = u8.get_eof [OF TrueI] u16.get_eof [OF TrueI] u32.get_eof [OF TrueI]
  u64.get_eof [OF TrueI] float.get_eof [OF TrueI]

section \<open>128-bit numbers, hashes and binary objects\<close>

definition u128_bytes :: "CUInt128 \<Rightarrow> uint8 list" where
  "u128_bytes v = le_bytes 4 (Get32BitChunk v 0) @ le_bytes 4 (Get32BitChunk v 1) @
     le_bytes 4 (Get32BitChunk v 2) @ le_bytes 4 (Get32BitChunk v 3)"

lemma set_chunks:
  "Set32BitChunk 3 (Get32BitChunk v 3) (Set32BitChunk 2 (Get32BitChunk v 2)
     (Set32BitChunk 1 (Get32BitChunk v 1) (Set32BitChunk 0 (Get32BitChunk v 0) x))) = v"
  by (cases v) (simp add: Set32BitChunk_def Get32BitChunk_def set_u32_def u32_data_def)

lemma gets_chunks:
  "gets (io_for is (\<lambda>i v. io_map (\<lambda>w. Set32BitChunk i w v) ReadUInt32) x)
     (concat (map (\<lambda>i. le_bytes 4 (g i)) is)) (fold (\<lambda>i. Set32BitChunk i (g i)) is x)"
  by (induction "is" arbitrary: x) (auto intro!: gets_return gets_bind gets_map int_gets)

lemma eof_chunks:
  "eof_on (io_for is (\<lambda>i v. io_map (\<lambda>w. Set32BitChunk i w v) ReadUInt32) x)
     (concat (map (\<lambda>i. le_bytes 4 (g i)) is))" for g :: "nat \<Rightarrow> uint32"
  by (induction "is" arbitrary: x) (auto intro!: eof_Nil eof_bind eof_map int_eof gets_map int_gets)

interpretation u128: field_codec WriteUInt128 ReadUInt128 u128_bytes "\<lambda>_. True"
proof
  fix v
  have b: "u128_bytes v = concat (map (\<lambda>i. le_bytes 4 (Get32BitChunk v i)) [0, 1, 2, 3])"
    by (simp add: u128_bytes_def)
  show "puts (WriteUInt128 v) (u128_bytes v)"
    unfolding b WriteUInt128_def by (intro puts_foreach int_puts)
  show "gets ReadUInt128 (u128_bytes v) v"
    using gets_chunks [of "[0, 1, 2, 3]" "fill128 False" "Get32BitChunk v"] set_chunks [of v "fill128 False"]
    unfolding b ReadUInt128_def by simp
  show "eof_on ReadUInt128 (u128_bytes v)"
    unfolding b ReadUInt128_def by (rule eof_chunks)
qed

definition hash_ok :: "uint8 list \<Rightarrow> bool" where
  "hash_ok h \<longleftrightarrow> length h = MD4HASH_LENGTH"

interpretation hash: field_codec WriteHash ReadHash "\<lambda>h. h" hash_ok
proof
  fix h assume "hash_ok h"
  then have l: "MD4HASH_LENGTH = length h" by (simp add: hash_ok_def)
  show "puts (WriteHash h) h" by (simp add: WriteHash_def l puts_WriteIO)
  show "gets ReadHash h h" "eof_on ReadHash h" by (simp_all add: ReadHash_def l gets_ReadIO eof_ReadIO)
qed

definition bsob_bytes :: "uint8 list \<Rightarrow> uint8 list" where
  "bsob_bytes v = le_bytes 1 (of_nat (length v) :: uint8) @ v"

interpretation bsob: field_codec "\<lambda>v. WriteBsob v (of_nat (length v))" ReadBsob bsob_bytes "\<lambda>v. length v \<le> 255"
proof
  fix v :: "uint8 list" assume "length v \<le> 255"
  then have l: "unat (of_nat (length v) :: uint8) = length v" by (simp add: unat_of_nat take_bit_eq_mod)
  show "puts (WriteBsob v (of_nat (length v))) (bsob_bytes v)"
    unfolding WriteBsob_def bsob_bytes_def by (intro puts_seq int_puts) (simp add: l puts_WriteIO)
  show "gets ReadBsob (bsob_bytes v) v"
    unfolding ReadBsob_def bsob_bytes_def by (rule gets_bind, rule int_gets) (simp add: l gets_ReadIO)
  show "eof_on ReadBsob (bsob_bytes v)"
    unfolding ReadBsob_def bsob_bytes_def by (rule eof_bind, rule int_gets, rule int_eof) (simp add: l eof_ReadIO)
qed


section \<open>Strings\<close>

text \<open>
  What the code relies on: a conversion that succeeds gives no null byte (the string has no null
  character) and converts back. For the encoding that a string is written with, and the way it is read:
\<close>

definition utf8_ok :: "string_env \<Rightarrow> wx_string \<Rightarrow> bool" where
  "utf8_ok env s \<longleftrightarrow>
     (case utf8_enc env s of None \<Rightarrow> False | Some b \<Rightarrow> utf8_dec env b = s \<and> 0 \<notin> set b \<and> (s = [] \<longleftrightarrow> b = []))"

definition latin1_ok :: "string_env \<Rightarrow> wx_string \<Rightarrow> bool" where
  "latin1_ok env s \<longleftrightarrow>
     (case latin1_enc env s of None \<Rightarrow> False | Some b \<Rightarrow> latin1_dec env b = s \<and> 0 \<notin> set b \<and> (s = [] \<longleftrightarrow> b = []))"

definition text_bytes :: "string_env \<Rightarrow> EUtf8Str \<Rightarrow> wx_string \<Rightarrow> uint8 list" where
  "text_bytes env enc s =
     (if enc = utf8strOptBOM then BOMHeader @ the (utf8_enc env s)
      else if enc = utf8strRaw then the (utf8_enc env s) else the (latin1_enc env s))"

text \<open>
  A string that is written with \<open>enc\<close> and read with \<open>bOptUTF8\<close>: UTF-8 with a byte order mark reads either
  way; without one the reader has to expect UTF-8, and what is written must not look like a byte order
  mark.
\<close>

definition string_ok :: "string_env \<Rightarrow> EUtf8Str \<Rightarrow> bool \<Rightarrow> wx_string \<Rightarrow> bool" where
  "string_ok env enc bOptUTF8 s \<longleftrightarrow>
     (case enc of
        utf8strOptBOM \<Rightarrow> utf8_ok env s
      | utf8strRaw \<Rightarrow> utf8_ok env s \<and> bOptUTF8 \<and> \<not> CHECK_BOM (text_bytes env enc s) \<and> (s = [] \<longrightarrow> latin1_dec env [] = [])
      | utf8strNone \<Rightarrow> latin1_ok env s \<and> \<not> bOptUTF8 \<and> \<not> CHECK_BOM (text_bytes env enc s)) \<and>
     length (text_bytes env enc s) \<le> 0xFFFF"

lemma cstr_id: "0 \<notin> set b \<Longrightarrow> cstr b = b"
  by (auto simp: cstr_def takeWhile_eq_all_conv)

lemma decode_text: "string_ok env enc bOptUTF8 s \<Longrightarrow> decode_string env bOptUTF8 (text_bytes env enc s) = s"
  by (cases enc)
    (auto simp: string_ok_def decode_string_def utf8_ok_def latin1_ok_def text_bytes_def cstr_id Let_def
      BOMHeader_def CHECK_BOM_def split: option.splits)

lemma gets_ReadOnlyString:
  assumes "string_ok env enc bOptUTF8 s"
  shows "gets (ReadOnlyString env bOptUTF8 (length (text_bytes env enc s))) (text_bytes env enc s) s"
proof -
  have "u16 (length (text_bytes env enc s)) = length (text_bytes env enc s)"
    using assms by (simp add: string_ok_def u16_small)
  then show ?thesis
    using gets_map [OF gets_ReadIO [of "text_bytes env enc s"], of "decode_string env bOptUTF8"]
    by (simp add: ReadOnlyString_def decode_text [OF assms])
qed

lemma eof_ReadOnlyString:
  assumes "length bs \<le> 0xFFFF"
  shows "eof_on (ReadOnlyString env bOptUTF8 (length bs)) bs"
  using assms by (simp add: ReadOnlyString_def u16_small eof_map eof_ReadIO)

definition string_bytes :: "string_env \<Rightarrow> EUtf8Str \<Rightarrow> wx_string \<Rightarrow> uint8 list" where
  "string_bytes env enc s = le_bytes 2 (of_nat (length (text_bytes env enc s)) :: uint16) @ text_bytes env enc s"

lemma puts_string_core:
  assumes "string_ok env enc bOptUTF8 s"
  shows "puts (WriteString env s enc 2) (string_bytes env enc s)"
    and "puts (WriteString env s enc 0) (text_bytes env enc s)"
proof -
  let ?enc = "if enc = utf8strNone then latin1_enc env s else utf8_enc env s"
  obtain b where b: "?enc = Some b" "0 \<notin> set b"
    using assms by (cases enc) (auto simp: string_ok_def utf8_ok_def latin1_ok_def split: option.splits)
  have tb: "text_bytes env enc s = (if enc = utf8strOptBOM then BOMHeader else []) @ b"
    using b by (cases enc) (simp_all add: text_bytes_def)
  have l: "length (text_bytes env enc s) \<le> 0xFFFF" using assms by (simp add: string_ok_def)
  have W: "WriteString env s enc n = WriteStringCore (Some b) enc n" for n
    using b by (cases enc) (simp_all add: WriteString_def)
  define L where "L = length (text_bytes env enc s)"
  define T where "T = io_seq (if enc = utf8strOptBOM then WriteIO BOMHeader else io_return ())
      (if length b \<noteq> 0 then WriteIO b else io_return ())"
  have tail: "puts T (text_bytes env enc s)"
    unfolding tb T_def by (rule puts_seq) (auto simp: puts_WriteIO puts_return)
  have L: "L = (if enc = utf8strOptBOM then length b + 3 else length b)" "L \<le> 0xFFFF"
    using l tb by (auto simp: L_def BOMHeader_def)
  then have sizes: "u32 (length b) = length b" "u32 L = L" "u32 3 = 3" by (auto simp: u32_small split: if_splits)
  have core: "WriteString env s enc n =
      io_seq (if n = 0 then io_return () else if n = 2 then WriteUInt16 (of_nat L)
              else if n = 4 then WriteUInt32 (of_nat L) else io_throw CInvalidParamsEx) T" for n
    using L sizes unfolding W WriteStringCore_def T_def
    by (cases "enc = utf8strOptBOM") (simp_all add: cstr_id [OF b(2)] Let_def)
  show "puts (WriteString env s enc 2) (string_bytes env enc s)"
    unfolding string_bytes_def L_def [symmetric] using puts_seq [OF int_puts(2) tail] by (simp add: core)
  show "puts (WriteString env s enc 0) (text_bytes env enc s)"
    using puts_seq [OF puts_return tail] by (simp add: core)
qed

lemma unat_len16: "n \<le> 0xFFFF \<Longrightarrow> unat (of_nat n :: uint16) = n"
  by (simp add: unat_of_nat take_bit_eq_mod)

lemma gets_ReadString:
  assumes "string_ok env enc bOptUTF8 s"
  shows "gets (ReadString env bOptUTF8 2 False) (string_bytes env enc s) s"
    and "eof_on (ReadString env bOptUTF8 2 False) (string_bytes env enc s)"
proof -
  have l: "length (text_bytes env enc s) \<le> 0xFFFF" using assms by (simp add: string_ok_def)
  have R: "ReadString env bOptUTF8 2 False = io_bind (io_map unat ReadUInt16) (ReadOnlyString env bOptUTF8)"
    by (simp add: ReadString_def)
  show "gets (ReadString env bOptUTF8 2 False) (string_bytes env enc s) s"
    unfolding R string_bytes_def
    by (rule gets_bind, rule gets_map, rule int_gets) (simp add: unat_len16 [OF l] gets_ReadOnlyString [OF assms])
  show "eof_on (ReadString env bOptUTF8 2 False) (string_bytes env enc s)"
    unfolding R string_bytes_def
    by (rule eof_bind, rule gets_map, rule int_gets, rule eof_map, rule int_eof)
      (simp add: unat_len16 [OF l] eof_ReadOnlyString l)
qed

interpretation string: field_codec "\<lambda>s. WriteString env s enc 2" "ReadString env opt 2 False"
    "string_bytes env enc" "string_ok env enc opt" for env enc opt
  by unfold_locales (simp_all add: puts_string_core gets_ReadString)

section \<open>Properties\<close>

text \<open>
  C29. Strings survive the trip if they fit it (\<open>string_ok\<close>: the encoding holds the string, without zero bytes and in at most
  0xFFFF bytes; without a byte order mark the reader expects the encoding of the writer, and the bytes do not begin like such
  a mark). In each encoding (UTF-8 with or without a byte order mark, Latin-1), such a string written at any place of a file and read back there is the same string, and the reader stops
  where the writer did; a file that ends inside the string raises \<open>CEOFException\<close>.
\<close>

theorem string_write_read:
  assumes "string_ok env enc opt s" and "growable f" and "m_position f \<le> m_fileSize f"
  shows "(\<exists>f1 f2. WriteString env s enc 2 f = (Inr (), f1) \<and>
      contents f1 = take (m_position f) (contents f) @ string_bytes env enc s @
        drop (m_position f + length (string_bytes env enc s)) (contents f) \<and>
      ReadString env opt 2 False (f1\<lparr>m_position := m_position f\<rparr>) = (Inr s, f2) \<and>
      contents f2 = contents f1 \<and> m_position f2 = m_position f1) \<and>
    eof_on (ReadString env opt 2 False) (string_bytes env enc s)"
  using string.write_seek_read [OF assms] string.get_eof [OF assms(1)] by (auto simp: wrote_def)

definition ascii_env :: string_env where
  "ascii_env =
     \<lparr>utf8_enc = (\<lambda>s. if \<forall>c \<in> set s. 0 < c \<and> c < 128 then Some (map of_nat s) else None),
      utf8_dec = map unat,
      latin1_enc = (\<lambda>s. if \<forall>c \<in> set s. 0 < c \<and> c < 256 then Some (map of_nat s) else None),
      latin1_dec = map unat\<rparr>"

theorem string_write_read_witness:
  "string_ok ascii_env utf8strOptBOM False [97, 98] \<and>
   (\<exists>f1 f2. WriteString ascii_env [97, 98] utf8strOptBOM 2 (new_memfile 0 (\<lambda>_. 0)) = (Inr (), f1) \<and>
      contents f1 = [5, 0, 0xEF, 0xBB, 0xBF, 97, 98] \<and>
      ReadString ascii_env False 2 False (f1\<lparr>m_position := 0\<rparr>) = (Inr [97, 98], f2))"
proof -
  have ok: "string_ok ascii_env utf8strOptBOM False [97, 98]"
    by (simp add: string_ok_def utf8_ok_def ascii_env_def text_bytes_def BOMHeader_def)
  have g: "growable (new_memfile 0 (\<lambda>_. 0))" "m_position (new_memfile 0 (\<lambda>_. 0)) \<le> m_fileSize (new_memfile 0 (\<lambda>_. 0))"
    by (simp_all add: growable_def mem_ok_def new_memfile_def)
  have b: "string_bytes ascii_env utf8strOptBOM [97, 98] = [5, 0, 0xEF, 0xBB, 0xBF, 97, 98]"
    by (simp add: string_bytes_def text_bytes_def ascii_env_def BOMHeader_def le_bytes_def upt_rec)
  show ?thesis
    using ok string_write_read [OF ok g] by (simp add: b new_memfile_def contents_def) blast
qed

text \<open>
  Whatever the string and its encoding, the 16-bit length field that \<open>WriteString\<close> writes is the number
  of bytes that follow it, at most \<open>0xFFFF\<close>: an oversized string is cut, so the fields after it are
  still found (for every string of less than \<open>2 ^ 32 - 3\<close> bytes).
\<close>

theorem string_length_field:
  assumes "\<And>b. utf8_enc env s = Some b \<Longrightarrow> length b < 2 ^ 32 - 3" and "\<And>b. latin1_enc env s = Some b \<Longrightarrow> length b < 2 ^ 32 - 3"
  shows "\<exists>data. puts (WriteString env s enc 2) (le_bytes 2 (of_nat (length data) :: uint16) @ data) \<and> length data \<le> 0xFFFF"
proof -
  have core: "\<exists>data. puts (WriteStringCore t e 2) (le_bytes 2 (of_nat (length data) :: uint16) @ data) \<and> length data \<le> 0xFFFF"
    if t: "\<And>b. t = Some b \<Longrightarrow> length b < 2 ^ 32 - 3" for t e
  proof -
    define c where "c = (case t of None \<Rightarrow> [] | Some b \<Rightarrow> cstr b)"
    have lc: "length c < 2 ^ 32 - 3"
      using t by (auto simp: c_def cstr_def split: option.split intro: le_less_trans [OF length_takeWhile_le])
    define h where "h = (if e = utf8strOptBOM then BOMHeader else [])"
    define k where "k = min (length c) (0xFFFF - length h)"
    have h: "length h = (if e = utf8strOptBOM then 3 else 0)" by (simp add: h_def BOMHeader_def)
    have s: "(case t of None \<Rightarrow> 0 | Some bs \<Rightarrow> u32 (length (cstr bs))) = length c"
      using lc by (auto simp: c_def u32_small split: option.splits)
    have kc: "length (take k c) = k" by (simp add: k_def)
    have small: "u32 (length c) = length c" "u32 (length c + 3) = length c + 3" "u32 3 = 3"
      using lc by (simp_all add: u32_small)
    have c: "c \<noteq> [] \<Longrightarrow> cstr (the t) = c" by (cases t) (simp_all add: c_def)
    have eq: "WriteStringCore t e 2 = io_seq (WriteUInt16 (of_nat (length h + k)))
        (io_seq (if e = utf8strOptBOM then WriteIO BOMHeader else io_return ())
          (if k \<noteq> 0 then WriteIO (take k c) else io_return ()))"
    proof (cases "length h + length c \<le> 0xFFFF")
      case True
      then have "k = length c" by (simp add: k_def)
      then show ?thesis using True c h
        by (cases "e = utf8strOptBOM"; cases "c = []")
          (simp_all add: WriteStringCore_def s small Let_def add.commute [of 3])
    next
      case False
      then have k: "k = 0xFFFF - length h" "c \<noteq> []" using h by (auto simp: k_def split: if_splits)
      show ?thesis using False c h k
        by (cases "e = utf8strOptBOM") (simp_all add: WriteStringCore_def s small Let_def)
    qed
    have "puts (WriteStringCore t e 2) (le_bytes 2 (of_nat (length h + k) :: uint16) @ h @ take k c)"
      unfolding eq by (intro puts_seq int_puts) (auto simp: h_def k_def puts_WriteIO puts_return)
    moreover have "length (h @ take k c) = length h + k" using kc by simp
    moreover have "length h + k \<le> 0xFFFF" using h by (simp add: k_def)
    ultimately show ?thesis by metis
  qed
  show ?thesis unfolding WriteString_def using core assms by (cases "enc \<noteq> utf8strNone \<and> utf8_enc env s \<noteq> None") auto
qed

theorem string_length_field_witness:
  "\<exists>data. puts (WriteString ascii_env [97] utf8strRaw 2) (le_bytes 2 (of_nat (length data) :: uint16) @ data) \<and>
    length data \<le> 0xFFFF"
  by (rule string_length_field) (auto simp: ascii_env_def)

text \<open>
  A 128-bit number is written as the bytes that \<open>StoreCryptValue\<close> produces (four little-endian words,
  most significant first), not as the big-endian bytes of \<open>ToByteArray\<close>, and any sequence of numbers
  written one after the other is read back in the same order.
\<close>

theorem uint128_wire:
  "puts (WriteUInt128 v) (StoreCryptValue v) \<and> gets ReadUInt128 (StoreCryptValue v) v \<and>
   gets (u128.get_n (length vs)) (concat (map StoreCryptValue vs)) vs"
proof -
  have "u128_bytes = StoreCryptValue"
    by (rule ext) (simp add: u128_bytes_def StoreCryptValue_def le_bytes_def be32_bytes_def Get32BitChunk_def u32_data_def upt_rec)
  then show ?thesis
    using u128.put_bytes [of v] u128.get_bytes [of v] u128.get_list [of vs] by (simp add: list_all_iff)
qed

text \<open>
  \<open>ReadOnlyString\<close> takes the length as 16 bits: a string whose 32-bit length field is 65536 or more is
  read with the low bits of the length, and the rest of its bytes is left in the stream.
\<close>

lemma long_length_truncated:
  "gets (ReadString env opt 4 False) (le_bytes 4 (0x10000 :: uint32)) (decode_string env opt [])"
proof -
  have "gets (ReadOnlyString env opt (unat (0x10000 :: uint32))) [] (decode_string env opt [])"
    using gets_map [OF gets_ReadIO [of "[]"], of "decode_string env opt"] by (simp add: ReadOnlyString_def u16_def)
  then have "gets (io_bind (io_map unat ReadUInt32) (ReadOnlyString env opt)) (le_bytes 4 (0x10000 :: uint32) @ []) (decode_string env opt [])"
    by (rule gets_bind [OF gets_map [OF u32.get_bytes [OF TrueI]]])
  then show ?thesis by (simp add: ReadString_def)
qed

end
