(* ===== verification/Ed2k_Tag.thy ===== *)
theory Ed2k_Tag
  imports Safe_File
begin

text \<open>
  eD2k tags: \<open>CTag\<close> and its subclasses (\<open>src/src/Tag.cpp\<close>, \<open>Tag.h\<close>) and the tag readers and writers of
  \<open>CFileDataIO\<close> (\<open>src/src/SafeFile.cpp\<close>). The union of \<open>CTag\<close> is a datatype whose constructor is the
  member that was last stored; reading or releasing another member than the type field promises is the
  left result \<open>MemoryFault\<close>. \<open>m_nSize\<close> is the length of the stored data.
\<close>

section \<open>Tags\<close>

datatype tag_value =
    VInt uint64
  | VStr wx_string
  | VFloat uint32
  | VHash "uint8 list"
  | VData "uint8 list"

record CTag =
  m_uType :: uint8
  m_uName :: uint8
  m_Name :: wx_string
  m_val :: tag_value

abbreviation TAGTYPE_HASH16 :: uint8 where "TAGTYPE_HASH16 \<equiv> 0x01"
abbreviation TAGTYPE_STRING :: uint8 where "TAGTYPE_STRING \<equiv> 0x02"
abbreviation TAGTYPE_UINT32 :: uint8 where "TAGTYPE_UINT32 \<equiv> 0x03"
abbreviation TAGTYPE_FLOAT32 :: uint8 where "TAGTYPE_FLOAT32 \<equiv> 0x04"
abbreviation TAGTYPE_BOOL :: uint8 where "TAGTYPE_BOOL \<equiv> 0x05"
abbreviation TAGTYPE_BOOLARRAY :: uint8 where "TAGTYPE_BOOLARRAY \<equiv> 0x06"
abbreviation TAGTYPE_BLOB :: uint8 where "TAGTYPE_BLOB \<equiv> 0x07"
abbreviation TAGTYPE_UINT16 :: uint8 where "TAGTYPE_UINT16 \<equiv> 0x08"
abbreviation TAGTYPE_UINT8 :: uint8 where "TAGTYPE_UINT8 \<equiv> 0x09"
abbreviation TAGTYPE_BSOB :: uint8 where "TAGTYPE_BSOB \<equiv> 0x0A"
abbreviation TAGTYPE_UINT64 :: uint8 where "TAGTYPE_UINT64 \<equiv> 0x0B"
abbreviation TAGTYPE_STR1 :: uint8 where "TAGTYPE_STR1 \<equiv> 0x11"
abbreviation TAGTYPE_STR16 :: uint8 where "TAGTYPE_STR16 \<equiv> 0x20"

definition IsStr :: "CTag \<Rightarrow> bool" where "IsStr t \<longleftrightarrow> m_uType t = TAGTYPE_STRING"

definition IsInt :: "CTag \<Rightarrow> bool" where
  "IsInt t \<longleftrightarrow> m_uType t = TAGTYPE_UINT64 \<or> m_uType t = TAGTYPE_UINT32 \<or> m_uType t = TAGTYPE_UINT16 \<or>
     m_uType t = TAGTYPE_UINT8"

definition IsFloat :: "CTag \<Rightarrow> bool" where "IsFloat t \<longleftrightarrow> m_uType t = TAGTYPE_FLOAT32"

definition IsHash :: "CTag \<Rightarrow> bool" where "IsHash t \<longleftrightarrow> m_uType t = TAGTYPE_HASH16"

definition IsBlob :: "CTag \<Rightarrow> bool" where "IsBlob t \<longleftrightarrow> m_uType t = TAGTYPE_BLOB"

definition IsBsob :: "CTag \<Rightarrow> bool" where "IsBsob t \<longleftrightarrow> m_uType t = TAGTYPE_BSOB"

lemmas is_defs = IsStr_def IsInt_def IsFloat_def IsHash_def IsBlob_def IsBsob_def

text \<open>Construction.\<close>

definition CTag_name :: "wx_string \<Rightarrow> CTag" where
  "CTag_name name = \<lparr>m_uType = 0, m_uName = 0, m_Name = name, m_val = VInt 0\<rparr>"

definition CTag_id :: "uint8 \<Rightarrow> CTag" where
  "CTag_id name = \<lparr>m_uType = 0, m_uName = name, m_Name = [], m_val = VInt 0\<rparr>"

definition IntSized_Init :: "uint64 \<Rightarrow> nat \<Rightarrow> CTag \<Rightarrow> io_error + CTag" where
  "IntSized_Init val bitsize t =
     (if bitsize = 64 then Inr (t\<lparr>m_val := VInt val, m_uType := TAGTYPE_UINT64\<rparr>)
      else if bitsize = 32 then Inr (t\<lparr>m_val := VInt val, m_uType := TAGTYPE_UINT32\<rparr>)
      else if bitsize = 16 then Inr (t\<lparr>m_val := VInt val, m_uType := TAGTYPE_UINT16\<rparr>)
      else if bitsize = 8 then Inr (t\<lparr>m_val := VInt val, m_uType := TAGTYPE_UINT8\<rparr>)
      else Inl BadTag)"

definition VarInt_SizedInit :: "uint64 \<Rightarrow> nat \<Rightarrow> CTag \<Rightarrow> io_error + CTag" where
  "VarInt_SizedInit val forced_bits t =
     (if forced_bits \<noteq> 0 then IntSized_Init val forced_bits t
      else
        Inr (t\<lparr>m_val := VInt val,
               m_uType := (if val \<le> 0xFF then TAGTYPE_UINT8 else if val \<le> 0xFFFF then TAGTYPE_UINT16
                           else if val \<le> 0xFFFFFFFF then TAGTYPE_UINT32 else TAGTYPE_UINT64)\<rparr>))"

definition CTagInt :: "uint8 \<Rightarrow> wx_string \<Rightarrow> uint64 \<Rightarrow> CTag" where
  "CTagInt ty name val = (CTag_name name)\<lparr>m_val := VInt val, m_uType := ty\<rparr>"

definition CTagFloat :: "wx_string \<Rightarrow> uint32 \<Rightarrow> CTag" where
  "CTagFloat name val = (CTag_name name)\<lparr>m_val := VFloat val, m_uType := TAGTYPE_FLOAT32\<rparr>"

definition CTagString :: "wx_string \<Rightarrow> wx_string \<Rightarrow> CTag" where
  "CTagString name val = (CTag_name name)\<lparr>m_val := VStr val, m_uType := TAGTYPE_STRING\<rparr>"

definition CTagHash :: "wx_string \<Rightarrow> uint8 list \<Rightarrow> CTag" where
  "CTagHash name val = (CTag_name name)\<lparr>m_val := VHash val, m_uType := TAGTYPE_HASH16\<rparr>"

definition CTagBsob :: "wx_string \<Rightarrow> uint8 list \<Rightarrow> uint8 \<Rightarrow> CTag" where
  "CTagBsob name val n = (CTag_name name)\<lparr>m_uType := TAGTYPE_BSOB, m_val := VData (take (unat n) val)\<rparr>"

definition CTagBlob :: "wx_string \<Rightarrow> uint8 list \<Rightarrow> uint8 \<Rightarrow> CTag" where
  "CTagBlob name val n = (CTag_name name)\<lparr>m_uType := TAGTYPE_BLOB, m_val := VData (take (unat n) val)\<rparr>"

text \<open>Access.\<close>

definition GetInt :: "CTag \<Rightarrow> io_error + uint64" where
  "GetInt t = (if \<not> IsInt t then Inl CInvalidPacket
               else case m_val t of VInt v \<Rightarrow> Inr v | _ \<Rightarrow> Inl MemoryFault)"

definition GetStr :: "CTag \<Rightarrow> io_error + wx_string" where
  "GetStr t = (if \<not> IsStr t then Inl CInvalidPacket
               else case m_val t of VStr v \<Rightarrow> Inr v | _ \<Rightarrow> Inl MemoryFault)"

definition GetFloat :: "CTag \<Rightarrow> io_error + uint32" where
  "GetFloat t = (if \<not> IsFloat t then Inl CInvalidPacket
                 else case m_val t of VFloat v \<Rightarrow> Inr v | _ \<Rightarrow> Inl MemoryFault)"

definition GetHash :: "CTag \<Rightarrow> io_error + uint8 list" where
  "GetHash t = (if \<not> IsHash t then Inl CInvalidPacket
                else case m_val t of VHash v \<Rightarrow> Inr v | _ \<Rightarrow> Inl MemoryFault)"

definition GetBlob :: "CTag \<Rightarrow> io_error + uint8 list" where
  "GetBlob t = (if \<not> IsBlob t then Inl CInvalidPacket
                else case m_val t of VData v \<Rightarrow> Inr v | _ \<Rightarrow> Inl MemoryFault)"

definition GetBsob :: "CTag \<Rightarrow> io_error + uint8 list" where
  "GetBsob t = (if \<not> IsBsob t then Inl CInvalidPacket
                else case m_val t of VData v \<Rightarrow> Inr v | _ \<Rightarrow> Inl MemoryFault)"

lemmas get_defs = GetInt_def GetStr_def GetFloat_def GetHash_def GetBlob_def GetBsob_def

text \<open>The copy of the union, and what the destructor releases: the member that the type names.\<close>

definition copy_value :: "CTag \<Rightarrow> io_error + tag_value" where
  "copy_value t =
     (if IsStr t then sum_bind (GetStr t) (Inr \<circ> VStr)
      else if IsInt t then sum_bind (GetInt t) (Inr \<circ> VInt)
      else if IsFloat t then sum_bind (GetFloat t) (Inr \<circ> VFloat)
      else if IsHash t then sum_bind (GetHash t) (Inr \<circ> VHash)
      else if IsBlob t then sum_bind (GetBlob t) (Inr \<circ> VData)
      else if IsBsob t then sum_bind (GetBsob t) (Inr \<circ> VData)
      else Inr (VInt 0))"

definition copy_tag :: "CTag \<Rightarrow> io_error + CTag" where
  "copy_tag r = sum_bind (copy_value r)
     (\<lambda>v. Inr \<lparr>m_uType = m_uType r, m_uName = m_uName r, m_Name = m_Name r, m_val = v\<rparr>)"

definition release_tag :: "CTag \<Rightarrow> io_error + unit" where
  "release_tag t =
     (if IsStr t then (case m_val t of VStr _ \<Rightarrow> Inr () | _ \<Rightarrow> Inl MemoryFault)
      else if IsHash t then (case m_val t of VHash _ \<Rightarrow> Inr () | _ \<Rightarrow> Inl MemoryFault)
      else if IsBlob t \<or> IsBsob t then (case m_val t of VData _ \<Rightarrow> Inr () | _ \<Rightarrow> Inl MemoryFault)
      else Inr ())"

definition assign_tag :: "CTag \<Rightarrow> CTag \<Rightarrow> io_error + CTag" where
  "assign_tag this rhs =
     sum_bind (release_tag this) (\<lambda>_. sum_bind (copy_value rhs)
       (\<lambda>v. Inr \<lparr>m_uType = m_uType rhs, m_uName = m_uName rhs, m_Name = m_Name rhs, m_val = v\<rparr>))"

section \<open>Tags of Kademlia and of the old eD2K format\<close>

definition io_lift :: "io_error + 'a \<Rightarrow> 'a io" where
  "io_lift r = (\<lambda>f. (r, f))"

definition ReadTag :: "string_env \<Rightarrow> bool \<Rightarrow> CTag io" where
  "ReadTag env bOptACP =
     io_bind ReadUInt8 (\<lambda>ty. io_bind (ReadString env False 2 False) (\<lambda>name.
       if ty = TAGTYPE_HASH16 then io_map (CTagHash name) ReadHash
       else if ty = TAGTYPE_STRING then io_map (CTagString name) (ReadString env bOptACP 2 False)
       else if ty = TAGTYPE_UINT64 then io_map (CTagInt TAGTYPE_UINT64 name) ReadUInt64
       else if ty = TAGTYPE_UINT32 then io_map (\<lambda>v. CTagInt TAGTYPE_UINT32 name (ucast v)) ReadUInt32
       else if ty = TAGTYPE_UINT16 then io_map (\<lambda>v. CTagInt TAGTYPE_UINT16 name (ucast v)) ReadUInt16
       else if ty = TAGTYPE_UINT8 then io_map (\<lambda>v. CTagInt TAGTYPE_UINT8 name (ucast v)) ReadUInt8
       else if ty = TAGTYPE_FLOAT32 then io_map (CTagFloat name) ReadFloat
       else if ty = TAGTYPE_BSOB then io_map (\<lambda>b. CTagBsob name b (of_nat (length b))) ReadBsob
       else io_throw BadTag))"

primrec ReadTagPtrList_loop :: "string_env \<Rightarrow> bool \<Rightarrow> nat \<Rightarrow> CTag list io" where
  "ReadTagPtrList_loop env bOptACP 0 = io_return []"
| "ReadTagPtrList_loop env bOptACP (Suc n) =
     io_bind (ReadTag env bOptACP) (\<lambda>tag. io_map (Cons tag) (ReadTagPtrList_loop env bOptACP n))"

definition ReadTagPtrList :: "string_env \<Rightarrow> bool \<Rightarrow> CTag list io" where
  "ReadTagPtrList env bOptACP =
     io_bind ReadUInt8 (\<lambda>count. ReadTagPtrList_loop env bOptACP (unat count))"

definition WriteTag_value :: "string_env \<Rightarrow> CTag \<Rightarrow> unit io" where
  "WriteTag_value env tag =
     (if m_uType tag = TAGTYPE_HASH16 then io_bind (io_lift (GetHash tag)) WriteHash
      else if m_uType tag = TAGTYPE_STRING then io_bind (io_lift (GetStr tag)) (\<lambda>s. WriteString env s utf8strRaw 2)
      else if m_uType tag = TAGTYPE_UINT64 then io_bind (io_lift (GetInt tag)) WriteUInt64
      else if m_uType tag = TAGTYPE_UINT32 then io_bind (io_lift (GetInt tag)) (\<lambda>v. WriteUInt32 (ucast v))
      else if m_uType tag = TAGTYPE_FLOAT32 then io_bind (io_lift (GetFloat tag)) WriteFloat
      else if m_uType tag = TAGTYPE_BSOB then
        io_bind (io_lift (GetBsob tag)) (\<lambda>b. WriteBsob b (of_nat (length b)))
      else if m_uType tag = TAGTYPE_UINT16 then io_bind (io_lift (GetInt tag)) (\<lambda>v. WriteUInt16 (ucast v))
      else if m_uType tag = TAGTYPE_UINT8 then io_bind (io_lift (GetInt tag)) (\<lambda>v. WriteUInt8 (ucast v))
      else if m_uType tag = TAGTYPE_BLOB then
        io_bind (io_lift (GetBlob tag)) (\<lambda>b. io_seq (WriteUInt32 (of_nat (length b))) (WriteIO b))
      else io_return ())"

definition WriteTag :: "string_env \<Rightarrow> CTag \<Rightarrow> unit io" where
  "WriteTag env tag =
     io_seq (WriteUInt8 (m_uType tag))
       (io_seq (if m_Name tag \<noteq> [] then WriteString env (m_Name tag) utf8strNone 2
                else io_seq (WriteUInt16 1) (WriteUInt8 (m_uName tag)))
         (WriteTag_value env tag))"

definition WriteTagPtrList :: "string_env \<Rightarrow> CTag list \<Rightarrow> unit io" where
  "WriteTagPtrList env tagList =
     io_seq (WriteUInt8 (of_nat (length tagList))) (io_foreach tagList (WriteTag env))"

definition GetIntTagValue :: "string_env \<Rightarrow> uint64 io" where
  "GetIntTagValue env =
     io_bind ReadUInt8 (\<lambda>ty. io_bind (ReadString env False 2 False) (\<lambda>_.
       if ty = TAGTYPE_UINT64 then ReadUInt64
       else if ty = TAGTYPE_UINT32 then io_map ucast ReadUInt32
       else if ty = TAGTYPE_UINT16 then io_map ucast ReadUInt16
       else if ty = TAGTYPE_UINT8 then io_map ucast ReadUInt8
       else io_throw BadTag))"

definition WriteTagToFile :: "string_env \<Rightarrow> CTag \<Rightarrow> bool \<Rightarrow> bool io" where
  "WriteTagToFile env tag restrictive =
     (if \<not> restrictive \<or> IsStr tag \<or> IsInt tag \<or> IsFloat tag \<or> IsBlob tag
      then io_bind (WriteTag env tag) (\<lambda>_. io_return True)
      else io_return False)"

section \<open>Tags of the new eD2K format\<close>

definition ReadNewTag_value :: "string_env \<Rightarrow> bool \<Rightarrow> uint8 \<Rightarrow> (uint8 \<times> tag_value) io" where
  "ReadNewTag_value env bOptUTF8 ty =
     (if ty = TAGTYPE_STRING then io_map (\<lambda>s. (ty, VStr s)) (ReadString env bOptUTF8 2 False)
      else if ty = TAGTYPE_UINT32 then io_map (\<lambda>v. (ty, VInt (ucast v))) ReadUInt32
      else if ty = TAGTYPE_UINT64 then io_map (\<lambda>v. (ty, VInt v)) ReadUInt64
      else if ty = TAGTYPE_UINT16 then io_map (\<lambda>v. (TAGTYPE_UINT32, VInt (ucast v))) ReadUInt16
      else if ty = TAGTYPE_UINT8 then io_map (\<lambda>v. (TAGTYPE_UINT32, VInt (ucast v))) ReadUInt8
      else if ty = TAGTYPE_FLOAT32 then io_map (\<lambda>b. (ty, VFloat (of_le b))) (ReadIO 4)
      else if ty = TAGTYPE_HASH16 then io_map (\<lambda>h. (ty, VHash h)) ReadHash
      else if ty = TAGTYPE_BOOL then io_map (\<lambda>_. (ty, VInt 0)) ReadUInt8
      else if ty = TAGTYPE_BOOLARRAY then
        io_bind ReadUInt16 (\<lambda>len. io_map (\<lambda>_. (ty, VInt 0)) (SeekIO (int (unat len div 8 + 1)) FromCurrent))
      else if ty = TAGTYPE_BLOB then
        io_bind ReadUInt32 (\<lambda>n f.
          if remaining f < unat n then (Inl CInvalidPacket, f)
          else io_map (\<lambda>b. (ty, VData b)) (ReadIO (unat n)) f)
      else if TAGTYPE_STR1 \<le> ty \<and> ty \<le> TAGTYPE_STR16 then
        io_map (\<lambda>s. (TAGTYPE_STRING, VStr s)) (ReadOnlyString env bOptUTF8 (unat (ty - TAGTYPE_STR1 + 1)))
      else io_throw CInvalidPacket)"

definition ReadNewTag_name :: "string_env \<Rightarrow> (uint8 \<times> uint8 \<times> wx_string) io" where
  "ReadNewTag_name env =
     io_bind ReadUInt8 (\<lambda>ty.
       if ty AND 0x80 \<noteq> 0 then io_map (\<lambda>n. (ty AND 0x7F, n, [])) ReadUInt8
       else io_bind ReadUInt16 (\<lambda>len.
         if len = 1 then io_map (\<lambda>n. (ty, n, [])) ReadUInt8
         else io_map (\<lambda>s. (ty, 0, s)) (ReadOnlyString env False (unat len))))"

definition ReadNewTag :: "string_env \<Rightarrow> bool \<Rightarrow> CTag io" where
  "ReadNewTag env bOptUTF8 =
     io_bind (ReadNewTag_name env) (\<lambda>(ty, n, s).
       io_map (\<lambda>(ty', v). \<lparr>m_uType = ty', m_uName = n, m_Name = s, m_val = v\<rparr>)
         (ReadNewTag_value env bOptUTF8 ty))"

definition new_type :: "string_env \<Rightarrow> EUtf8Str \<Rightarrow> CTag \<Rightarrow> io_error + uint8" where
  "new_type env eStrEncode t =
     (if IsInt t then
        (case m_val t of
           VInt v \<Rightarrow> Inr (if v \<le> 0xFF then TAGTYPE_UINT8 else if v \<le> 0xFFFF then TAGTYPE_UINT16
                      else if v \<le> 0xFFFFFFFF then TAGTYPE_UINT32 else TAGTYPE_UINT64)
         | _ \<Rightarrow> Inl MemoryFault)
      else if IsStr t then
        (case m_val t of
           VStr s \<Rightarrow>
             let uStrValLen = u16 (GetRawSize env s eStrEncode)
             in Inr (if 1 \<le> uStrValLen \<and> uStrValLen \<le> 16 then TAGTYPE_STR1 + of_nat uStrValLen - 1
                     else TAGTYPE_STRING)
         | _ \<Rightarrow> Inl MemoryFault)
      else Inr (m_uType t))"

definition WriteNewEd2kTag_value :: "string_env \<Rightarrow> EUtf8Str \<Rightarrow> uint8 \<Rightarrow> tag_value \<Rightarrow> bool io" where
  "WriteNewEd2kTag_value env eStrEncode uType v =
     (let ok = (\<lambda>m. io_bind m (\<lambda>_. io_return True)) in
      if uType = TAGTYPE_STRING then (case v of VStr s \<Rightarrow> ok (WriteString env s eStrEncode 2) | _ \<Rightarrow> io_throw MemoryFault)
      else if uType = TAGTYPE_UINT64 then (case v of VInt i \<Rightarrow> ok (WriteUInt64 i) | _ \<Rightarrow> io_throw MemoryFault)
      else if uType = TAGTYPE_UINT32 then (case v of VInt i \<Rightarrow> ok (WriteUInt32 (ucast i)) | _ \<Rightarrow> io_throw MemoryFault)
      else if uType = TAGTYPE_UINT16 then (case v of VInt i \<Rightarrow> ok (WriteUInt16 (ucast i)) | _ \<Rightarrow> io_throw MemoryFault)
      else if uType = TAGTYPE_UINT8 then (case v of VInt i \<Rightarrow> ok (WriteUInt8 (ucast i)) | _ \<Rightarrow> io_throw MemoryFault)
      else if uType = TAGTYPE_FLOAT32 then (case v of VFloat x \<Rightarrow> ok (WriteIO (le_bytes 4 x)) | _ \<Rightarrow> io_throw MemoryFault)
      else if uType = TAGTYPE_HASH16 then (case v of VHash h \<Rightarrow> ok (WriteHash h) | _ \<Rightarrow> io_throw MemoryFault)
      else if uType = TAGTYPE_BLOB then
        (case v of VData b \<Rightarrow> ok (io_seq (WriteUInt32 (of_nat (length b))) (WriteIO b)) | _ \<Rightarrow> io_throw MemoryFault)
      else if TAGTYPE_STR1 \<le> uType \<and> uType \<le> TAGTYPE_STR16 then
        (case v of VStr s \<Rightarrow> ok (WriteString env s eStrEncode 0) | _ \<Rightarrow> io_throw MemoryFault)
      else io_return False)"

definition WriteNewEd2kTag :: "string_env \<Rightarrow> CTag \<Rightarrow> EUtf8Str \<Rightarrow> bool io" where
  "WriteNewEd2kTag env t eStrEncode =
     io_bind (io_lift (new_type env eStrEncode t)) (\<lambda>uType.
       io_seq (if m_Name t \<noteq> [] then io_seq (WriteUInt8 uType) (WriteString env (m_Name t) utf8strNone 2)
               else io_seq (WriteUInt8 (uType OR 0x80)) (WriteUInt8 (m_uName t)))
         (WriteNewEd2kTag_value env eStrEncode uType (m_val t)))"

section \<open>The union\<close>

text \<open>The stored member is the one that the type names.\<close>

definition tag_wf :: "CTag \<Rightarrow> bool" where
  "tag_wf t \<longleftrightarrow>
     (IsStr t \<longrightarrow> (\<exists>s. m_val t = VStr s)) \<and> (IsInt t \<longrightarrow> (\<exists>v. m_val t = VInt v)) \<and>
     (IsFloat t \<longrightarrow> (\<exists>v. m_val t = VFloat v)) \<and> (IsHash t \<longrightarrow> (\<exists>h. m_val t = VHash h)) \<and>
     (IsBlob t \<or> IsBsob t \<longrightarrow> (\<exists>b. m_val t = VData b))"

lemma copy_value_ok: "tag_wf t \<Longrightarrow> \<exists>v. copy_value t = Inr v \<and>
   (IsStr t \<or> IsInt t \<or> IsFloat t \<or> IsHash t \<or> IsBlob t \<or> IsBsob t \<longrightarrow> v = m_val t)"
  by (cases "m_val t") (simp_all add: tag_wf_def copy_value_def get_defs)

lemma release_ok: "tag_wf t \<Longrightarrow> release_tag t = Inr ()"
  by (cases "m_val t") (simp_all add: tag_wf_def release_tag_def)

lemma tag_wf_copy:
  assumes "tag_wf r" and "copy_value r = Inr v"
  shows "tag_wf \<lparr>m_uType = m_uType r, m_uName = n, m_Name = s, m_val = v\<rparr>"
  using copy_value_ok [OF assms(1)] assms by (auto simp: tag_wf_def is_defs)

definition result_all :: "('a \<Rightarrow> bool) \<Rightarrow> 'e + 'a \<Rightarrow> bool" where
  "result_all P r = (case r of Inl _ \<Rightarrow> True | Inr x \<Rightarrow> P x)"

definition always :: "('a \<Rightarrow> bool) \<Rightarrow> 'a io \<Rightarrow> bool" where
  "always P m \<longleftrightarrow> (\<forall>f. result_all P (fst (m f)))"

lemma always_map: "always (\<lambda>x. P (g x)) m \<Longrightarrow> always P (io_map g m)"
  unfolding always_def
proof
  fix f assume "\<forall>f. result_all (\<lambda>x. P (g x)) (fst (m f))"
  then have "result_all (\<lambda>x. P (g x)) (fst (m f))" ..
  then show "result_all P (fst (io_map g m f))"
    by (cases "m f") (auto simp: io_map_def io_bind_def result_all_def io_return_def split: sum.splits)
qed

lemma always_bind: "(\<And>x. always P (k x)) \<Longrightarrow> always P (io_bind m k)"
  unfolding always_def
proof
  fix f assume k: "\<And>x. \<forall>f. result_all P (fst (k x f))"
  obtain r f' where m: "m f = (r, f')" by (cases "m f")
  show "result_all P (fst (io_bind m k f))"
    by (cases r) (use k in \<open>simp_all add: m io_bind_def result_all_def\<close>)
qed

lemma always_throw: "always P (io_throw e)"
  by (simp add: always_def io_throw_def result_all_def)

lemma always_True: "(\<And>x. P x) \<Longrightarrow> always P m"
  by (simp add: always_def result_all_def split: sum.split)

lemma always_if: "(b \<Longrightarrow> always P m) \<Longrightarrow> (\<not> b \<Longrightarrow> always P k) \<Longrightarrow> always P (if b then m else k)"
  by simp

lemma tag_wf_ctors:
  "tag_wf (CTagHash name h)" "tag_wf (CTagString name s)" "tag_wf (CTagFloat name x)" "tag_wf (CTagBsob name b n)"
  "tag_wf (CTagBlob name b n)" "ty \<in> {TAGTYPE_UINT64, TAGTYPE_UINT32, TAGTYPE_UINT16, TAGTYPE_UINT8} \<Longrightarrow> tag_wf (CTagInt ty name v)"
  "tag_wf (CTag_name name)" "tag_wf (CTag_id n)"
  by (auto simp: tag_wf_def is_defs CTagHash_def CTagString_def CTagFloat_def CTagBsob_def CTagBlob_def CTagInt_def CTag_name_def CTag_id_def)

lemma ReadTag_wf: "always tag_wf (ReadTag env opt)"
  unfolding ReadTag_def
  by (intro always_bind always_if always_map always_throw) (auto intro!: always_True tag_wf_ctors)

lemma ReadNewTag_value_wf:
  "always (\<lambda>x. tag_wf \<lparr>m_uType = fst x, m_uName = n, m_Name = s, m_val = snd x\<rparr>) (ReadNewTag_value env opt ty)"
proof -
  have wf: "tag_wf \<lparr>m_uType = TAGTYPE_STRING, m_uName = n, m_Name = s, m_val = VStr x\<rparr>"
    "tag_wf \<lparr>m_uType = TAGTYPE_UINT32, m_uName = n, m_Name = s, m_val = VInt v\<rparr>"
    "tag_wf \<lparr>m_uType = TAGTYPE_UINT64, m_uName = n, m_Name = s, m_val = VInt v\<rparr>"
    "tag_wf \<lparr>m_uType = TAGTYPE_FLOAT32, m_uName = n, m_Name = s, m_val = VFloat w\<rparr>"
    "tag_wf \<lparr>m_uType = TAGTYPE_HASH16, m_uName = n, m_Name = s, m_val = VHash h\<rparr>"
    "tag_wf \<lparr>m_uType = TAGTYPE_BOOL, m_uName = n, m_Name = s, m_val = VInt v\<rparr>"
    "tag_wf \<lparr>m_uType = TAGTYPE_BOOLARRAY, m_uName = n, m_Name = s, m_val = VInt v\<rparr>"
    "tag_wf \<lparr>m_uType = TAGTYPE_BLOB, m_uName = n, m_Name = s, m_val = VData h\<rparr>" for x v w h
    by (simp_all add: tag_wf_def is_defs)
  have am: "(\<And>x. tag_wf \<lparr>m_uType = fst (g x), m_uName = n, m_Name = s, m_val = snd (g x)\<rparr>) \<Longrightarrow>
      always (\<lambda>x. tag_wf \<lparr>m_uType = fst x, m_uName = n, m_Name = s, m_val = snd x\<rparr>) (io_map g m)"
    for g :: "'x \<Rightarrow> uint8 \<times> tag_value" and m by (rule always_map [OF always_True])
  have blob: "always (\<lambda>x. tag_wf \<lparr>m_uType = fst x, m_uName = n, m_Name = s, m_val = snd x\<rparr>)
     (\<lambda>f. if b f then (Inl CInvalidPacket, f) else io_map (\<lambda>b. (TAGTYPE_BLOB, VData b)) m f)" for b m
    using always_map [OF always_True, of "\<lambda>x. tag_wf \<lparr>m_uType = fst x, m_uName = n, m_Name = s, m_val = snd x\<rparr>" "\<lambda>b. (TAGTYPE_BLOB, VData b)" m]
    by (simp add: always_def result_all_def wf)
  show ?thesis
    unfolding ReadNewTag_value_def
    by (intro always_if always_throw) (auto intro!: always_bind blob am simp: wf)
qed

lemma ReadNewTag_wf: "always tag_wf (ReadNewTag env opt)"
  unfolding ReadNewTag_def split_beta
  by (intro always_bind always_map ReadNewTag_value_wf)

lemma SizedInit_wf: "result_all tag_wf (VarInt_SizedInit v bits t)" "result_all tag_wf (IntSized_Init v bits t)"
  by (auto simp: VarInt_SizedInit_def IntSized_Init_def result_all_def tag_wf_def is_defs)

section \<open>Round trips\<close>

lemma io_bind_lift [simp]: "io_bind (io_lift (Inr x)) k = k x"
  by (simp add: io_bind_def io_lift_def fun_eq_iff)

lemma ucast_fit:
  "unat v < 2 ^ 32 \<Longrightarrow> ucast (ucast v :: uint32) = v"
  "unat v < 2 ^ 16 \<Longrightarrow> ucast (ucast v :: uint16) = v"
  "unat v < 2 ^ 8 \<Longrightarrow> ucast (ucast v :: uint8) = v" for v :: uint64
  by (simp_all add: word_unat_eq_iff unsigned_ucast_eq unsigned_take_bit_eq take_bit_nat_eq_self)

definition name_bytes :: "string_env \<Rightarrow> CTag \<Rightarrow> uint8 list" where
  "name_bytes env t =
     (if m_Name t \<noteq> [] then string_bytes env utf8strNone (m_Name t)
      else le_bytes 2 (1 :: uint16) @ le_bytes 1 (m_uName t))"

definition kad_value_bytes :: "string_env \<Rightarrow> CTag \<Rightarrow> uint8 list" where
  "kad_value_bytes env t =
     (case m_val t of
        VInt v \<Rightarrow>
          if m_uType t = TAGTYPE_UINT64 then le_bytes 8 v
          else if m_uType t = TAGTYPE_UINT32 then le_bytes 4 (ucast v :: uint32)
          else if m_uType t = TAGTYPE_UINT16 then le_bytes 2 (ucast v :: uint16)
          else le_bytes 1 (ucast v :: uint8)
      | VStr s \<Rightarrow> string_bytes env utf8strRaw s
      | VFloat x \<Rightarrow> le_bytes 4 x
      | VHash h \<Rightarrow> h
      | VData b \<Rightarrow> bsob_bytes b)"

definition kad_bytes :: "string_env \<Rightarrow> CTag \<Rightarrow> uint8 list" where
  "kad_bytes env t = le_bytes 1 (m_uType t) @ name_bytes env t @ kad_value_bytes env t"

text \<open>
  A tag that \<open>WriteTag\<close> can write and \<open>ReadTag\<close> read: its value fits the type, its strings convert. A
  numeric name comes back as the one character that its byte converts to.
\<close>

definition kad_ok :: "string_env \<Rightarrow> CTag \<Rightarrow> bool" where
  "kad_ok env t \<longleftrightarrow>
     (m_Name t \<noteq> [] \<longrightarrow> string_ok env utf8strNone False (m_Name t)) \<and>
     (case m_val t of
        VInt v \<Rightarrow>
          m_uType t = TAGTYPE_UINT64 \<or> m_uType t = TAGTYPE_UINT32 \<and> unat v < 2 ^ 32 \<or>
          m_uType t = TAGTYPE_UINT16 \<and> unat v < 2 ^ 16 \<or> m_uType t = TAGTYPE_UINT8 \<and> unat v < 2 ^ 8
      | VStr s \<Rightarrow> m_uType t = TAGTYPE_STRING \<and> string_ok env utf8strRaw True s
      | VFloat x \<Rightarrow> m_uType t = TAGTYPE_FLOAT32
      | VHash h \<Rightarrow> m_uType t = TAGTYPE_HASH16 \<and> hash_ok h
      | VData b \<Rightarrow> m_uType t = TAGTYPE_BSOB \<and> length b \<le> 255)"

definition kad_view :: "string_env \<Rightarrow> CTag \<Rightarrow> CTag" where
  "kad_view env t =
     t\<lparr>m_Name := (if m_Name t \<noteq> [] then m_Name t else latin1_dec env [m_uName t]), m_uName := 0\<rparr>"

lemma kad_value:
  assumes "kad_ok env t"
  shows "puts (WriteTag_value env t) (kad_value_bytes env t)"
  using assms
  by (cases "m_val t")
    (auto simp: kad_ok_def WriteTag_value_def kad_value_bytes_def get_defs is_defs
      simp del: One_nat_def intro: int_puts hash.put_bytes bsob.put_bytes string.put_bytes)

lemma kad_name:
  assumes "kad_ok env t"
  shows "gets (ReadString env False 2 False) (name_bytes env t) (m_Name (kad_view env t))"
    and "eof_on (ReadString env False 2 False) (name_bytes env t)"
    and "puts (if m_Name t \<noteq> [] then WriteString env (m_Name t) utf8strNone 2
                else io_seq (WriteUInt16 1) (WriteUInt8 (m_uName t))) (name_bytes env t)"
proof -
  have R: "ReadString env opt 2 False = io_bind (io_map unat ReadUInt16) (ReadOnlyString env opt)" for opt
    by (simp add: ReadString_def)
  have 1: "le_bytes 1 (n :: uint8) = [n]" "decode_string env False [n] = latin1_dec env [n]" for n
    by (simp_all add: le_bytes_def decode_string_def CHECK_BOM_def)
  have g: "gets (ReadOnlyString env False (unat (1 :: uint16))) [m_uName t] (latin1_dec env [m_uName t])"
    using gets_map [OF gets_ReadIO [of "[m_uName t]"], of "decode_string env False"]
    by (simp add: ReadOnlyString_def 1 u16_def)
  have e: "eof_on (ReadOnlyString env False (unat (1 :: uint16))) [m_uName t]"
    using eof_ReadOnlyString [of "[m_uName t]"] by simp
  show "gets (ReadString env False 2 False) (name_bytes env t) (m_Name (kad_view env t))"
    using assms gets_bind [where k = "ReadOnlyString env False", OF gets_map [OF u16.get_bytes [OF TrueI, of 1], of unat] g]
    by (auto simp: name_bytes_def kad_view_def kad_ok_def 1 R [of False, symmetric] simp del: One_nat_def intro: string.get_bytes)
  show "eof_on (ReadString env False 2 False) (name_bytes env t)"
    using assms eof_bind [where k = "ReadOnlyString env False", OF gets_map [OF u16.get_bytes [OF TrueI, of 1], of unat] eof_map [OF u16.get_eof [OF TrueI, of 1]] e]
    by (auto simp: name_bytes_def kad_ok_def 1 R [of False, symmetric] simp del: One_nat_def intro: string.get_eof)
  show "puts (if m_Name t \<noteq> [] then WriteString env (m_Name t) utf8strNone 2
                else io_seq (WriteUInt16 1) (WriteUInt8 (m_uName t))) (name_bytes env t)"
    using assms by (auto simp: name_bytes_def kad_ok_def simp del: One_nat_def intro: string.put_bytes puts_seq int_puts)
qed

lemma kad_put: "kad_ok env t \<Longrightarrow> puts (WriteTag env t) (kad_bytes env t)"
  unfolding WriteTag_def kad_bytes_def by (intro puts_seq int_puts kad_name kad_value)

lemma kad_get:
  assumes "kad_ok env t"
  shows "gets (ReadTag env True) (kad_bytes env t) (kad_view env t)" and "eof_on (ReadTag env True) (kad_bytes env t)"
proof -
  let ?n = "m_Name (kad_view env t)"
  let ?R = "\<lambda>ty name.
       if ty = TAGTYPE_HASH16 then io_map (CTagHash name) ReadHash
       else if ty = TAGTYPE_STRING then io_map (CTagString name) (ReadString env True 2 False)
       else if ty = TAGTYPE_UINT64 then io_map (CTagInt TAGTYPE_UINT64 name) ReadUInt64
       else if ty = TAGTYPE_UINT32 then io_map (\<lambda>v. CTagInt TAGTYPE_UINT32 name (ucast v)) ReadUInt32
       else if ty = TAGTYPE_UINT16 then io_map (\<lambda>v. CTagInt TAGTYPE_UINT16 name (ucast v)) ReadUInt16
       else if ty = TAGTYPE_UINT8 then io_map (\<lambda>v. CTagInt TAGTYPE_UINT8 name (ucast v)) ReadUInt8
       else if ty = TAGTYPE_FLOAT32 then io_map (CTagFloat name) ReadFloat
       else if ty = TAGTYPE_BSOB then io_map (\<lambda>b. CTagBsob name b (of_nat (length b))) ReadBsob
       else io_throw BadTag"
  have view: "kad_view env t = \<lparr>m_uType = m_uType t, m_uName = 0, m_Name = ?n, m_val = m_val t\<rparr>"
    by (simp add: kad_view_def)
  have g: "gets (?R (m_uType t) ?n) (kad_value_bytes env t) (kad_view env t)"
    using assms
  proof (cases "m_val t")
    case (VInt v)
    have I: "CTagInt ty ?n v = \<lparr>m_uType = ty, m_uName = 0, m_Name = ?n, m_val = VInt v\<rparr>" for ty
      by (simp add: CTagInt_def CTag_name_def)
    consider "m_uType t = TAGTYPE_UINT64" | "m_uType t = TAGTYPE_UINT32" "unat v < 2 ^ 32"
      | "m_uType t = TAGTYPE_UINT16" "unat v < 2 ^ 16" | "m_uType t = TAGTYPE_UINT8" "unat v < 2 ^ 8"
      using assms VInt by (auto simp: kad_ok_def)
    then show ?thesis
    proof cases
      case 1
      then show ?thesis using gets_map [OF u64.get_bytes [OF TrueI, of v], of "CTagInt TAGTYPE_UINT64 ?n"] view VInt
        by (simp add: kad_value_bytes_def I)
    next
      case 2
      then show ?thesis
        using gets_map [OF u32.get_bytes [OF TrueI, of "ucast v"], of "\<lambda>v. CTagInt TAGTYPE_UINT32 ?n (ucast v)"] view VInt
        by (simp add: kad_value_bytes_def ucast_fit I)
    next
      case 3
      then show ?thesis
        using gets_map [OF u16.get_bytes [OF TrueI, of "ucast v"], of "\<lambda>v. CTagInt TAGTYPE_UINT16 ?n (ucast v)"] view VInt
        by (simp add: kad_value_bytes_def ucast_fit I)
    next
      case 4
      then show ?thesis
        using gets_map [OF u8.get_bytes [OF TrueI, of "ucast v"], of "\<lambda>v. CTagInt TAGTYPE_UINT8 ?n (ucast v)"] view VInt
        by (simp add: kad_value_bytes_def ucast_fit I del: One_nat_def)
    qed
  next
    case (VStr s)
    then show ?thesis using assms gets_map [OF string.get_bytes [of env utf8strRaw True s], of "CTagString ?n"] view
      by (simp add: kad_ok_def kad_value_bytes_def CTagString_def CTag_name_def)
  next
    case (VFloat x)
    then show ?thesis using assms gets_map [OF float.get_bytes [of x], of "CTagFloat ?n"] view
      by (simp add: kad_ok_def kad_value_bytes_def CTagFloat_def CTag_name_def)
  next
    case (VHash h)
    then show ?thesis using assms gets_map [OF hash.get_bytes [of h], of "CTagHash ?n"] view
      by (simp add: kad_ok_def kad_value_bytes_def CTagHash_def CTag_name_def)
  next
    case (VData b)
    then show ?thesis using assms gets_map [OF bsob.get_bytes [of b], of "\<lambda>b. CTagBsob ?n b (of_nat (length b))"] view
      by (simp add: kad_ok_def kad_value_bytes_def CTagBsob_def CTag_name_def unat_of_nat take_bit_eq_mod)
  qed
  have e: "eof_on (?R (m_uType t) ?n) (kad_value_bytes env t)"
    using assms
    by (cases "m_val t") (auto simp: kad_ok_def kad_value_bytes_def simp del: One_nat_def intro!: eof_map int_eof string.get_eof hash.get_eof bsob.get_eof)
  show "gets (ReadTag env True) (kad_bytes env t) (kad_view env t)"
    unfolding ReadTag_def kad_bytes_def
    by (rule gets_bind, rule int_gets, rule gets_bind, rule kad_name(1) [OF assms], rule g)
  show "eof_on (ReadTag env True) (kad_bytes env t)"
    unfolding ReadTag_def kad_bytes_def
    by (rule eof_bind, rule int_gets, rule int_eof, rule eof_bind, rule kad_name(1) [OF assms], rule kad_name(2) [OF assms], rule e)
qed

interpretation kad: field_codec "WriteTag env" "ReadTag env True" "kad_bytes env" "\<lambda>t. kad_ok env t \<and> kad_view env t = t" for env
  by unfold_locales (auto simp: kad_put kad_get(2) dest: kad_get(1))

lemma ReadTag_loop: "ReadTagPtrList_loop env True n = kad.get_n env n"
  by (induction n) simp_all

text \<open>Writers that return whether they wrote.\<close>

definition puts_val :: "'a io \<Rightarrow> uint8 list \<Rightarrow> 'a \<Rightarrow> bool" where
  "puts_val m bs r \<longleftrightarrow>
     (\<forall>f. growable f \<and> m_position f \<le> m_fileSize f \<longrightarrow> (\<exists>f'. m f = (Inr r, f') \<and> wrote f bs f'))"

lemma puts_val_return: "puts m bs \<Longrightarrow> puts_val (io_bind m (\<lambda>_. io_return r)) bs r"
  by (fastforce simp: puts_val_def puts_def io_bind_def io_return_def)

lemma puts_val_seq:
  assumes "puts m a" and "puts_val k b r"
  shows "puts_val (io_seq m k) (a @ b) r"
  unfolding puts_val_def
proof (intro allI impI, elim conjE)
  fix f assume f: "growable f" "m_position f \<le> m_fileSize f"
  obtain f' where f': "m f = (Inr (), f')" "wrote f a f'" using putsD [OF assms(1) f] by blast
  have "growable f'" using f' by (simp add: wrote_def)
  then obtain f'' where "k f' = (Inr r, f'')" "wrote f' b f''"
    using assms(2) wrote_pos [OF f'(2) f(2,1)] unfolding puts_val_def by blast
  then show "\<exists>f'. io_seq m k f = (Inr r, f') \<and> wrote f (a @ b) f'"
    using f' f wrote_trans [OF f'(2) _ f(2,1)] by (auto simp: io_seq_def io_bind_def)
qed

definition new_ok :: "string_env \<Rightarrow> EUtf8Str \<Rightarrow> bool \<Rightarrow> CTag \<Rightarrow> bool" where
  "new_ok env enc opt t \<longleftrightarrow>
     (m_Name t \<noteq> [] \<longrightarrow> string_ok env utf8strNone False (m_Name t)) \<and>
     (case m_val t of
        VInt v \<Rightarrow> IsInt t
      | VStr s \<Rightarrow> IsStr t \<and> string_ok env enc opt s \<and> GetRawSize env s enc = length (text_bytes env enc s)
      | VFloat x \<Rightarrow> IsFloat t
      | VHash h \<Rightarrow> IsHash t \<and> hash_ok h
      | VData b \<Rightarrow> IsBlob t \<and> length b < 2 ^ 32)"

definition wire_type :: "string_env \<Rightarrow> EUtf8Str \<Rightarrow> CTag \<Rightarrow> uint8" where
  "wire_type env enc t = (case new_type env enc t of Inr ty \<Rightarrow> ty | Inl _ \<Rightarrow> 0)"

definition new_value_bytes :: "string_env \<Rightarrow> EUtf8Str \<Rightarrow> CTag \<Rightarrow> uint8 list" where
  "new_value_bytes env enc t =
     (case m_val t of
        VInt v \<Rightarrow>
          if v \<le> 0xFF then le_bytes 1 (ucast v :: uint8)
          else if v \<le> 0xFFFF then le_bytes 2 (ucast v :: uint16)
          else if v \<le> 0xFFFFFFFF then le_bytes 4 (ucast v :: uint32)
          else le_bytes 8 v
      | VStr s \<Rightarrow>
          if text_bytes env enc s \<noteq> [] \<and> length (text_bytes env enc s) \<le> 16 then text_bytes env enc s
          else string_bytes env enc s
      | VFloat x \<Rightarrow> le_bytes 4 x
      | VHash h \<Rightarrow> h
      | VData b \<Rightarrow> le_bytes 4 (of_nat (length b) :: uint32) @ b)"

definition new_name_bytes :: "string_env \<Rightarrow> EUtf8Str \<Rightarrow> CTag \<Rightarrow> uint8 list" where
  "new_name_bytes env enc t =
     (if m_Name t \<noteq> [] then le_bytes 1 (wire_type env enc t) @ string_bytes env utf8strNone (m_Name t)
      else le_bytes 1 (wire_type env enc t OR 0x80) @ le_bytes 1 (m_uName t))"

definition new_bytes :: "string_env \<Rightarrow> EUtf8Str \<Rightarrow> CTag \<Rightarrow> uint8 list" where
  "new_bytes env enc t = new_name_bytes env enc t @ new_value_bytes env enc t"

text \<open>
  What the reader makes of a tag: integers have one of two types, and a name of a single byte has become
  a numeric name.
\<close>

definition new_view :: "string_env \<Rightarrow> CTag \<Rightarrow> CTag" where
  "new_view env t =
     (let b = text_bytes env utf8strNone (m_Name t) in
      \<lparr>m_uType = (case m_val t of VInt v \<Rightarrow> if v \<le> 0xFFFFFFFF then TAGTYPE_UINT32 else TAGTYPE_UINT64 | _ \<Rightarrow> m_uType t),
       m_uName = (if m_Name t = [] then m_uName t else if length b = 1 then hd b else 0),
       m_Name = (if m_Name t = [] \<or> length b = 1 then [] else m_Name t),
       m_val = m_val t\<rparr>)"

lemma new_type_ok:
  assumes "new_ok env enc opt t"
  shows "new_type env enc t = Inr (wire_type env enc t)"
  using assms by (cases "m_val t") (simp_all add: new_ok_def wire_type_def new_type_def is_defs Let_def)

lemma wire_str:
  assumes "new_ok env enc opt t" and "m_val t = VStr s"
  shows "wire_type env enc t =
    (if text_bytes env enc s \<noteq> [] \<and> length (text_bytes env enc s) \<le> 16
     then TAGTYPE_STR1 + of_nat (length (text_bytes env enc s)) - 1 else TAGTYPE_STRING)"
proof -
  have "length (text_bytes env enc s) \<le> 0xFFFF" using assms by (simp add: new_ok_def string_ok_def)
  then have "u16 (GetRawSize env s enc) = length (text_bytes env enc s)" using assms by (simp add: new_ok_def u16_small)
  then show ?thesis
    using assms by (simp add: new_ok_def wire_type_def new_type_def is_defs Let_def Suc_le_eq)
qed

lemma str_types:
  assumes "n \<noteq> 0" "n \<le> 16"
  shows "TAGTYPE_STR1 \<le> TAGTYPE_STR1 + of_nat n - 1" "TAGTYPE_STR1 + of_nat n - 1 \<le> TAGTYPE_STR16"
    "unat (TAGTYPE_STR1 + of_nat n - 1 - TAGTYPE_STR1 + 1) = n"
proof -
  have "list_all (\<lambda>n. TAGTYPE_STR1 \<le> TAGTYPE_STR1 + of_nat n - 1 \<and> TAGTYPE_STR1 + of_nat n - 1 \<le> TAGTYPE_STR16 \<and>
      unat (TAGTYPE_STR1 + of_nat n - 1 - TAGTYPE_STR1 + 1) = n) [1..<17]"
    by code_simp
  then show "TAGTYPE_STR1 \<le> TAGTYPE_STR1 + of_nat n - 1" "TAGTYPE_STR1 + of_nat n - 1 \<le> TAGTYPE_STR16"
    "unat (TAGTYPE_STR1 + of_nat n - 1 - TAGTYPE_STR1 + 1) = n"
    using assms by (auto simp: list_all_iff)
qed

lemma wire_small:
  assumes "new_ok env enc opt t"
  shows "wire_type env enc t \<le> 0x20"
proof (cases "m_val t")
  case (VInt v)
  then show ?thesis using assms by (simp add: new_ok_def wire_type_def new_type_def)
next
  case (VStr s)
  then show ?thesis using wire_str [OF assms VStr] str_types(2) [of "length (text_bytes env enc s)"] by auto
qed (use assms in \<open>auto simp: new_ok_def wire_type_def new_type_def is_defs\<close>)

lemma top_bit:
  assumes "(ty :: uint8) \<le> 0x20"
  shows "ty AND 0x80 = 0" and "(ty OR 0x80) AND 0x80 \<noteq> 0" and "(ty OR 0x80) AND 0x7F = ty"
proof -
  have l: "list_all (\<lambda>n. (of_nat n :: uint8) AND 0x80 = 0 \<and> (of_nat n OR (0x80 :: uint8)) AND 0x80 \<noteq> 0 \<and>
      (of_nat n OR (0x80 :: uint8)) AND 0x7F = of_nat n) [0..<33]"
    by code_simp
  have "unat ty < 33" using assms by (simp add: word_le_nat_alt)
  then have "(of_nat (unat ty) :: uint8) AND 0x80 = 0" "(of_nat (unat ty) OR (0x80 :: uint8)) AND 0x80 \<noteq> 0"
    "(of_nat (unat ty) OR (0x80 :: uint8)) AND 0x7F = of_nat (unat ty)"
    using l unfolding list_all_iff by (metis atLeastLessThan_iff atLeast_upt le0 set_upt)+
  then show "ty AND 0x80 = 0" "(ty OR 0x80) AND 0x80 \<noteq> 0" "(ty OR 0x80) AND 0x7F = ty" by simp_all
qed

lemma new_name_get:
  assumes "new_ok env enc opt t"
  shows "gets (ReadNewTag_name env) (new_name_bytes env enc t)
      (wire_type env enc t, m_uName (new_view env t), m_Name (new_view env t))"
    and "eof_on (ReadNewTag_name env) (new_name_bytes env enc t)"
proof -
  let ?w = "wire_type env enc t"
  note tb = top_bit [OF wire_small [OF assms]]
  let ?k = "\<lambda>ty. if ty AND 0x80 \<noteq> 0 then io_map (\<lambda>n. (ty AND 0x7F, n, [])) ReadUInt8
       else io_bind ReadUInt16 (\<lambda>len.
         if len = 1 then io_map (\<lambda>n. (ty, n, [])) ReadUInt8
         else io_map (\<lambda>s. (ty, 0, s)) (ReadOnlyString env False (unat len)))"
  have "gets (ReadNewTag_name env) (new_name_bytes env enc t) (?w, m_uName (new_view env t), m_Name (new_view env t)) \<and>
    eof_on (ReadNewTag_name env) (new_name_bytes env enc t)"
  proof (cases "m_Name t = []")
    case True
    have g: "gets (?k (?w OR 0x80)) (le_bytes 1 (m_uName t)) (?w, m_uName t, [])"
      using gets_map [OF u8.get_bytes [OF TrueI, of "m_uName t"], of "\<lambda>n. (?w, n, [])"] tb by simp
    have e: "eof_on (?k (?w OR 0x80)) (le_bytes 1 (m_uName t))"
      using eof_map [OF u8.get_eof [OF TrueI, of "m_uName t"], of "\<lambda>n. (?w, n, [])"] tb by simp
    show ?thesis
      using gets_bind [where k = ?k, OF u8.get_bytes [OF TrueI] g] eof_bind [where k = ?k, OF u8.get_bytes [OF TrueI] u8.get_eof [OF TrueI] e] True
      by (simp add: ReadNewTag_name_def new_name_bytes_def new_view_def Let_def)
  next
    case False
    then have ok: "string_ok env utf8strNone False (m_Name t)" using assms by (simp add: new_ok_def)
    let ?b = "text_bytes env utf8strNone (m_Name t)"
    have l: "length ?b \<le> 0xFFFF" using ok by (simp add: string_ok_def)
    let ?k' = "\<lambda>len. if len = 1 then io_map (\<lambda>n. (?w, n, [])) ReadUInt8
         else io_map (\<lambda>s. (?w, 0, s)) (ReadOnlyString env False (unat len))"
    let ?len = "of_nat (length ?b) :: uint16"
    have len: "?len = 1 \<longleftrightarrow> length ?b = 1" "unat ?len = length ?b"
      using unat_len16 [OF l] by (auto simp: word_unat_eq_iff)
    have "gets (?k' ?len) ?b (?w, m_uName (new_view env t), m_Name (new_view env t)) \<and> eof_on (?k' ?len) ?b"
    proof (cases "length ?b = 1")
      case True
      then obtain c where c: "?b = [c]" by (auto simp: length_Suc_conv)
      have "le_bytes 1 c = [c]" by (simp add: le_bytes_def)
      then show ?thesis
        using False True c len gets_map [OF u8.get_bytes [OF TrueI, of c], of "\<lambda>n. (?w, n, [])"]
          eof_map [OF u8.get_eof [OF TrueI, of c], of "\<lambda>n. (?w, n, [])"]
        by (simp add: new_view_def Let_def)
    next
      case F: False
      then show ?thesis
        using False len gets_map [OF gets_ReadOnlyString [OF ok], of "\<lambda>s. (?w, 0, s)"]
          eof_map [OF eof_ReadOnlyString [OF l, of env False], of "\<lambda>s. (?w, 0, s)"]
        by (simp add: new_view_def Let_def)
    qed
    then have "gets (?k ?w) (string_bytes env utf8strNone (m_Name t)) (?w, m_uName (new_view env t), m_Name (new_view env t)) \<and>
      eof_on (?k ?w) (string_bytes env utf8strNone (m_Name t))"
      unfolding string_bytes_def
      using gets_bind [where k = ?k', OF u16.get_bytes [OF TrueI]] eof_bind [where k = ?k', OF u16.get_bytes [OF TrueI] u16.get_eof [OF TrueI]] tb(1)
      by simp
    then show ?thesis
      using gets_bind [where k = ?k, OF u8.get_bytes [OF TrueI]] eof_bind [where k = ?k, OF u8.get_bytes [OF TrueI] u8.get_eof [OF TrueI]] False
      by (simp add: ReadNewTag_name_def new_name_bytes_def)
  qed
  then show "gets (ReadNewTag_name env) (new_name_bytes env enc t) (?w, m_uName (new_view env t), m_Name (new_view env t))"
    "eof_on (ReadNewTag_name env) (new_name_bytes env enc t)" by simp_all
qed

lemma wire_int:
  assumes "new_ok env enc opt t" and "m_val t = VInt v"
  shows "wire_type env enc t = (if v \<le> 0xFF then TAGTYPE_UINT8 else if v \<le> 0xFFFF then TAGTYPE_UINT16
      else if v \<le> 0xFFFFFFFF then TAGTYPE_UINT32 else TAGTYPE_UINT64)"
  using assms by (simp add: new_ok_def wire_type_def new_type_def)

lemma str_type_neq:
  assumes "n \<noteq> 0" "n \<le> 16" and "ty \<le> 0x10"
  shows "TAGTYPE_STR1 + of_nat n - 1 \<noteq> ty"
proof
  assume "TAGTYPE_STR1 + of_nat n - 1 = ty"
  then have "TAGTYPE_STR1 \<le> ty" using str_types(1) [OF assms(1,2)] by simp
  then have "TAGTYPE_STR1 \<le> (0x10 :: uint8)" using assms(3) by (rule order_trans)
  then show False by simp
qed

lemma new_value_put:
  assumes "new_ok env enc opt t"
  shows "puts_val (WriteNewEd2kTag_value env enc (wire_type env enc t) (m_val t)) (new_value_bytes env enc t) True"
proof (cases "m_val t")
  case (VInt v)
  then show ?thesis
    using wire_int [OF assms VInt]
    by (simp add: WriteNewEd2kTag_value_def new_value_bytes_def puts_val_return int_puts del: One_nat_def)
next
  case (VStr s)
  then have ok: "string_ok env enc opt s" using assms by (simp add: new_ok_def)
  show ?thesis
  proof (cases "text_bytes env enc s \<noteq> [] \<and> length (text_bytes env enc s) \<le> 16")
    case True
    then have n: "length (text_bytes env enc s) \<noteq> 0" "length (text_bytes env enc s) \<le> 16" by auto
    show ?thesis
      using wire_str [OF assms VStr] True VStr str_types [OF n] str_type_neq [OF n]
      by (simp add: WriteNewEd2kTag_value_def new_value_bytes_def puts_val_return puts_string_core(2) [OF ok])
  next
    case False
    then show ?thesis
      using wire_str [OF assms VStr] VStr
      by (auto simp: WriteNewEd2kTag_value_def new_value_bytes_def puts_val_return puts_string_core(1) [OF ok])
  qed
qed (use assms in \<open>auto simp: new_ok_def wire_type_def new_type_def is_defs WriteNewEd2kTag_value_def new_value_bytes_def
      intro!: puts_val_return puts_seq int_puts puts_WriteIO hash.put_bytes\<close>)

lemma new_put:
  assumes "new_ok env enc opt t"
  shows "puts_val (WriteNewEd2kTag env t enc) (new_bytes env enc t) True"
  unfolding WriteNewEd2kTag_def new_bytes_def new_type_ok [OF assms] io_bind_lift
  using assms
  by (intro puts_val_seq new_value_put [OF assms])
    (auto simp: new_name_bytes_def new_ok_def simp del: One_nat_def intro!: puts_seq int_puts string.put_bytes)

lemma le_numerals:
  "v \<le> 0xFF \<Longrightarrow> unat v < 2 ^ 8" "v \<le> 0xFFFF \<Longrightarrow> unat v < 2 ^ 16" "v \<le> 0xFFFFFFFF \<Longrightarrow> unat v < 2 ^ 32" for v :: uint64
  by (simp_all add: word_le_nat_alt)

lemma le_more: "v \<le> 0xFF \<Longrightarrow> v \<le> (0xFFFFFFFF :: uint64)" "v \<le> 0xFFFF \<Longrightarrow> v \<le> (0xFFFFFFFF :: uint64)"
  by (simp_all add: word_le_nat_alt)

lemma gets_blob:
  assumes "length b < 2 ^ 32"
  shows "gets (io_bind ReadUInt32 (\<lambda>n f. if remaining f < unat n then (Inl CInvalidPacket, f)
          else io_map (\<lambda>b. (ty, VData b)) (ReadIO (unat n)) f))
      (le_bytes 4 (of_nat (length b) :: uint32) @ b) (ty, VData b)"
proof (rule gets_bind, rule u32.get_bytes [OF TrueI])
  have n: "unat (of_nat (length b) :: uint32) = length b" using assms by (simp add: unat_of_nat take_bit_eq_mod)
  show "gets (\<lambda>f. if remaining f < unat (of_nat (length b) :: uint32) then (Inl CInvalidPacket, f)
          else io_map (\<lambda>b. (ty, VData b)) (ReadIO (unat (of_nat (length b) :: uint32))) f) b (ty, VData b)"
    unfolding n gets_def
  proof (intro allI impI, elim conjE)
    fix f pre rest assume f: "mem_ok f" "contents f = pre @ b @ rest" "m_position f = length pre"
    then have "\<not> remaining f < length b" using length_contents [of f] by (simp add: remaining_def)
    then show "(if remaining f < length b then (Inl CInvalidPacket, f) else io_map (\<lambda>b. (ty, VData b)) (ReadIO (length b)) f)
        = (Inr (ty, VData b), f\<lparr>m_position := length pre + length b\<rparr>)"
      using getsD [OF gets_map [OF gets_ReadIO] f] by simp
  qed
qed

lemma new_value_get:
  assumes "new_ok env enc opt t"
  shows "gets (ReadNewTag_value env opt (wire_type env enc t)) (new_value_bytes env enc t) (m_uType (new_view env t), m_val t)"
proof (cases "m_val t")
  case (VInt v)
  show ?thesis
    using wire_int [OF assms VInt] VInt le_numerals [of v] le_more [of v] ucast_fit [of v]
      gets_map [OF u8.get_bytes [OF TrueI, of "ucast v"], of "\<lambda>v. (TAGTYPE_UINT32, VInt (ucast v))"]
      gets_map [OF u16.get_bytes [OF TrueI, of "ucast v"], of "\<lambda>v. (TAGTYPE_UINT32, VInt (ucast v))"]
      gets_map [OF u32.get_bytes [OF TrueI, of "ucast v"], of "\<lambda>v. (TAGTYPE_UINT32, VInt (ucast v))"]
      gets_map [OF u64.get_bytes [OF TrueI, of v], of "\<lambda>v. (TAGTYPE_UINT64, VInt v)"]
    by (auto simp: ReadNewTag_value_def new_value_bytes_def new_view_def Let_def simp del: One_nat_def)
next
  case (VStr s)
  then have ok: "string_ok env enc opt s" and ty: "m_uType t = TAGTYPE_STRING" using assms by (simp_all add: new_ok_def is_defs)
  show ?thesis
  proof (cases "text_bytes env enc s \<noteq> [] \<and> length (text_bytes env enc s) \<le> 16")
    case True
    then have n: "length (text_bytes env enc s) \<noteq> 0" "length (text_bytes env enc s) \<le> 16" by auto
    show ?thesis
      using wire_str [OF assms VStr] True VStr str_types [OF n] str_type_neq [OF n] ty
        gets_map [OF gets_ReadOnlyString [OF ok], of "\<lambda>s. (TAGTYPE_STRING, VStr s)"]
      by (simp add: ReadNewTag_value_def new_value_bytes_def new_view_def Let_def)
  next
    case False
    then have "wire_type env enc t = TAGTYPE_STRING" "new_value_bytes env enc t = string_bytes env enc s"
      using wire_str [OF assms VStr] VStr by (auto simp: new_value_bytes_def)
    moreover have "m_uType (new_view env t) = TAGTYPE_STRING" using VStr ty by (simp add: new_view_def Let_def)
    ultimately show ?thesis
      using VStr gets_map [OF gets_ReadString(1) [OF ok], of "\<lambda>s. (TAGTYPE_STRING, VStr s)"]
      by (simp add: ReadNewTag_value_def)
  qed
next
  case (VFloat x)
  then show ?thesis
    using assms gets_map [OF gets_ReadIO [of "le_bytes 4 x"], of "\<lambda>b. (TAGTYPE_FLOAT32, VFloat (of_le b))"]
    by (simp add: new_ok_def wire_type_def new_type_def is_defs ReadNewTag_value_def new_value_bytes_def new_view_def Let_def of_le_bytes)
next
  case (VHash h)
  then show ?thesis
    using assms gets_map [OF hash.get_bytes [of h], of "\<lambda>h. (TAGTYPE_HASH16, VHash h)"]
    by (simp add: new_ok_def wire_type_def new_type_def is_defs ReadNewTag_value_def new_value_bytes_def new_view_def Let_def)
next
  case (VData b)
  then show ?thesis
    using assms gets_blob [of b TAGTYPE_BLOB]
    by (simp add: new_ok_def wire_type_def new_type_def is_defs ReadNewTag_value_def new_value_bytes_def new_view_def Let_def)
qed

lemma new_value_eof:
  assumes "new_ok env enc opt t" and "\<not> IsBlob t"
  shows "eof_on (ReadNewTag_value env opt (wire_type env enc t)) (new_value_bytes env enc t)"
proof (cases "m_val t")
  case (VInt v)
  show ?thesis
    using wire_int [OF assms(1) VInt] VInt
    by (simp add: ReadNewTag_value_def new_value_bytes_def eof_map int_eof del: One_nat_def)
next
  case (VStr s)
  then have ok: "string_ok env enc opt s" using assms by (simp add: new_ok_def)
  then have l: "length (text_bytes env enc s) \<le> 0xFFFF" by (simp add: string_ok_def)
  show ?thesis
  proof (cases "text_bytes env enc s \<noteq> [] \<and> length (text_bytes env enc s) \<le> 16")
    case True
    then have n: "length (text_bytes env enc s) \<noteq> 0" "length (text_bytes env enc s) \<le> 16" by auto
    show ?thesis
      using wire_str [OF assms(1) VStr] True VStr str_types [OF n] str_type_neq [OF n] eof_ReadOnlyString [OF l]
      by (simp add: ReadNewTag_value_def new_value_bytes_def eof_map)
  next
    case False
    then have "wire_type env enc t = TAGTYPE_STRING" "new_value_bytes env enc t = string_bytes env enc s"
      using wire_str [OF assms(1) VStr] VStr by (auto simp: new_value_bytes_def)
    then show ?thesis by (simp add: ReadNewTag_value_def eof_map gets_ReadString(2) [OF ok])
  qed
next
  case (VFloat x)
  then show ?thesis
    using assms eof_ReadIO [of "le_bytes 4 x"]
    by (simp add: new_ok_def wire_type_def new_type_def is_defs ReadNewTag_value_def new_value_bytes_def eof_map)
next
  case (VHash h)
  then show ?thesis
    using assms
    by (simp add: new_ok_def wire_type_def new_type_def is_defs ReadNewTag_value_def new_value_bytes_def eof_map hash.get_eof)
qed (use assms in \<open>simp add: new_ok_def\<close>)

lemma new_get:
  assumes "new_ok env enc opt t"
  shows "gets (ReadNewTag env opt) (new_bytes env enc t) (new_view env t)"
    and "\<not> IsBlob t \<Longrightarrow> eof_on (ReadNewTag env opt) (new_bytes env enc t)"
proof -
  let ?v = "new_view env t"
  define F where "F n s = (\<lambda>(ty', v). \<lparr>m_uType = ty', m_uName = n, m_Name = s, m_val = v\<rparr>)" for n s
  have F: "F (m_uName ?v) (m_Name ?v) (m_uType ?v, m_val t) = ?v"
  proof -
    have "m_val ?v = m_val t" by (simp add: new_view_def Let_def)
    then show ?thesis unfolding F_def by (metis (mono_tags, lifting) CTag.surjective old.unit.exhaust prod.case)
  qed
  have R: "ReadNewTag env opt = io_bind (ReadNewTag_name env) (\<lambda>(ty, n, s). io_map (F n s) (ReadNewTag_value env opt ty))"
    by (simp add: ReadNewTag_def F_def)
  have "gets (io_map (F (m_uName ?v) (m_Name ?v)) (ReadNewTag_value env opt (wire_type env enc t))) (new_value_bytes env enc t) ?v"
    using gets_map [OF new_value_get [OF assms], of "F (m_uName ?v) (m_Name ?v)"] unfolding F .
  then show "gets (ReadNewTag env opt) (new_bytes env enc t) ?v"
    unfolding R new_bytes_def by (intro gets_bind [OF new_name_get(1) [OF assms]]) simp
  assume "\<not> IsBlob t"
  then have "eof_on (io_map (F (m_uName ?v) (m_Name ?v)) (ReadNewTag_value env opt (wire_type env enc t))) (new_value_bytes env enc t)"
    using eof_map [OF new_value_eof [OF assms]] by simp
  then show "eof_on (ReadNewTag env opt) (new_bytes env enc t)"
    unfolding R new_bytes_def by (intro eof_bind [OF new_name_get [OF assms]]) simp
qed

section \<open>Properties\<close>

text \<open>
  C30. The union of a tag is never read or released as a member that was not stored: every tag that a
  reader returns, that a constructor builds or that copying or assigning yields stores the member its
  type names, and copying, assigning (over a tag of any other type) and destroying such tags succeeds and
  copies the value.
\<close>

theorem tag_union_safe:
  assumes "tag_wf t" and "tag_wf r"
  shows "always tag_wf (ReadTag env opt) \<and> always tag_wf (ReadNewTag env opt) \<and>
    result_all tag_wf (VarInt_SizedInit v bits t) \<and> release_tag t = Inr () \<and>
    (\<exists>c. copy_tag r = Inr c \<and> assign_tag t r = Inr c \<and> tag_wf c \<and> m_uType c = m_uType r \<and>
      m_uName c = m_uName r \<and> m_Name c = m_Name r \<and>
      (IsStr r \<or> IsInt r \<or> IsFloat r \<or> IsHash r \<or> IsBlob r \<or> IsBsob r \<longrightarrow> c = r))"
proof -
  obtain w where w: "copy_value r = Inr w"
    "IsStr r \<or> IsInt r \<or> IsFloat r \<or> IsHash r \<or> IsBlob r \<or> IsBsob r \<longrightarrow> w = m_val r"
    using copy_value_ok [OF assms(2)] by blast
  let ?c = "\<lparr>m_uType = m_uType r, m_uName = m_uName r, m_Name = m_Name r, m_val = w\<rparr>"
  have "copy_tag r = Inr ?c" "assign_tag t r = Inr ?c"
    by (simp_all add: copy_tag_def assign_tag_def w release_ok [OF assms(1)])
  moreover have "tag_wf ?c" by (rule tag_wf_copy [OF assms(2) w(1)])
  moreover have "(IsStr r \<or> IsInt r \<or> IsFloat r \<or> IsHash r \<or> IsBlob r \<or> IsBsob r \<longrightarrow> ?c = r)"
    using w(2) by simp
  ultimately show ?thesis using ReadTag_wf ReadNewTag_wf SizedInit_wf(1) release_ok [OF assms(1)] by auto
qed

theorem tag_union_safe_witness:
  "\<exists>c. copy_tag (CTagString [1] [97]) = Inr c \<and> assign_tag (CTagInt TAGTYPE_UINT32 [2] 5) (CTagString [1] [97]) = Inr c \<and>
     c = CTagString [1] [97]"
proof -
  have wf: "tag_wf (CTagInt TAGTYPE_UINT32 [2] 5)" "tag_wf (CTagString [1] [97])" by (simp_all add: tag_wf_ctors)
  have "IsStr (CTagString [1] [97])" by (simp add: IsStr_def CTagString_def)
  then show ?thesis using tag_union_safe [OF wf] by blast
qed

text \<open>
  C31. A tag list survives \<open>WriteTagPtrList\<close> and \<open>ReadTagPtrList\<close>: up to 255 tags of the types that both
  sides know (\<open>kad_ok\<close>: hashes, strings, integers, floats and BSOBs of at most 255 bytes, with strings and names that fit
  their field; a BLOB is written but not read, see \<open>blob_not_readable\<close>) come back in order (a numeric name as the string of its byte), wherever in the file they are.
\<close>

theorem kad_tag_list_roundtrip:
  assumes "length ts \<le> 255" and "list_all (kad_ok env) ts" and "growable f" and "m_position f \<le> m_fileSize f"
  shows "\<exists>f1 f2. WriteTagPtrList env ts f = (Inr (), f1) \<and>
    ReadTagPtrList env True (f1\<lparr>m_position := m_position f\<rparr>) = (Inr (map (kad_view env) ts), f2) \<and>
    m_position f2 = m_position f1 \<and> contents f2 = contents f1"
proof -
  let ?bs = "le_bytes 1 (of_nat (length ts) :: uint8) @ concat (map (kad_bytes env) ts)"
  have n: "unat (of_nat (length ts) :: uint8) = length ts" using assms(1) by (simp add: unat_of_nat take_bit_eq_mod)
  have "puts (WriteTagPtrList env ts) ?bs"
    unfolding WriteTagPtrList_def using assms(2) by (intro puts_seq int_puts puts_foreach kad_put) (simp add: list_all_iff)
  then obtain f1 where f1: "WriteTagPtrList env ts f = (Inr (), f1)" "wrote f ?bs f1"
    using putsD assms(3,4) by blast
  have loop: "gets (ReadTagPtrList_loop env True (length ts)) (concat (map (kad_bytes env) ts)) (map (kad_view env) ts)"
    using assms(2) by (induction ts) (auto intro!: gets_return gets_bind gets_map kad_get(1))
  have g: "gets (ReadTagPtrList env True) ?bs (map (kad_view env) ts)"
    unfolding ReadTagPtrList_def by (rule gets_bind [where k = "\<lambda>count :: uint8. ReadTagPtrList_loop env True (unat count)", OF u8.get_bytes [OF TrueI]])
      (simp add: n loop)
  have l: "length (take (m_position f) (contents f)) = m_position f"
    using assms(3,4) length_contents [of f] by (simp add: growable_def)
  let ?f = "f1\<lparr>m_position := m_position f\<rparr>"
  have "ReadTagPtrList env True ?f = (Inr (map (kad_view env) ts),
      ?f\<lparr>m_position := length (take (m_position f) (contents f)) + length ?bs\<rparr>)"
    using f1(2) l by (intro getsD [OF g, of _ _ "drop (m_position f + length ?bs) (contents f)"])
      (simp_all add: wrote_def growable_def mem_ok_def contents_def)
  then show ?thesis using f1 l by (auto simp: wrote_def contents_def)
qed

theorem kad_tag_list_roundtrip_witness:
  "\<exists>f1 f2. WriteTagPtrList ascii_env [CTagInt TAGTYPE_UINT16 [70] 515, CTagString [1] [97, 98]] (new_memfile 0 (\<lambda>_. 0)) = (Inr (), f1) \<and>
    ReadTagPtrList ascii_env True (f1\<lparr>m_position := 0\<rparr>) = (Inr [CTagInt TAGTYPE_UINT16 [70] 515, CTagString [1] [97, 98]], f2)"
proof -
  let ?ts = "[CTagInt TAGTYPE_UINT16 [70] 515, CTagString [1] [97, 98]]"
  have "list_all (kad_ok ascii_env) ?ts"
    by (simp add: kad_ok_def CTagInt_def CTagString_def CTag_name_def string_ok_def latin1_ok_def utf8_ok_def
        text_bytes_def ascii_env_def CHECK_BOM_def)
  moreover have "growable (new_memfile 0 (\<lambda>_. 0))" "m_position (new_memfile 0 (\<lambda>_. 0)) \<le> m_fileSize (new_memfile 0 (\<lambda>_. 0))"
    by (simp_all add: growable_def mem_ok_def new_memfile_def)
  moreover have "map (kad_view ascii_env) ?ts = ?ts" by (simp add: kad_view_def CTagInt_def CTagString_def CTag_name_def)
  ultimately show ?thesis using kad_tag_list_roundtrip [of ?ts ascii_env "new_memfile 0 (\<lambda>_. 0)"] by (simp add: new_memfile_def) blast
qed

text \<open>
  C32. A tag in the new eD2K format survives \<open>WriteNewEd2kTag\<close> and the reading constructor if its strings fit (\<open>new_ok\<close>: the name
  in Latin-1, the value in the encoding that the reader expects, of the length that \<open>GetRawSize\<close> gives, at most 0xFFFF bytes;
  \<open>latin1_short_string\<close> and \<open>long_string_wraps\<close> show what happens otherwise): integers are
  written in as few bytes as hold them, short strings with their length in the type, names as a number
  or a string; the reader returns the tag (integers in one of two types, a one-byte name as a number).
\<close>

theorem new_tag_roundtrip:
  assumes "new_ok env enc opt t" and "growable f" and "m_position f \<le> m_fileSize f"
  shows "\<exists>f1 f2. WriteNewEd2kTag env t enc f = (Inr True, f1) \<and>
    ReadNewTag env opt (f1\<lparr>m_position := m_position f\<rparr>) = (Inr (new_view env t), f2) \<and>
    m_position f2 = m_position f1 \<and> contents f2 = contents f1"
proof -
  let ?bs = "new_bytes env enc t"
  obtain f1 where f1: "WriteNewEd2kTag env t enc f = (Inr True, f1)" "wrote f ?bs f1"
    using new_put [OF assms(1)] assms(2,3) unfolding puts_val_def by blast
  have l: "length (take (m_position f) (contents f)) = m_position f"
    using assms(2,3) length_contents [of f] by (simp add: growable_def)
  let ?f = "f1\<lparr>m_position := m_position f\<rparr>"
  have "ReadNewTag env opt ?f = (Inr (new_view env t), ?f\<lparr>m_position := length (take (m_position f) (contents f)) + length ?bs\<rparr>)"
    using f1(2) l by (intro getsD [OF new_get(1) [OF assms(1)], of _ _ "drop (m_position f + length ?bs) (contents f)"])
      (simp_all add: wrote_def growable_def mem_ok_def contents_def)
  then show ?thesis using f1 l by (auto simp: wrote_def contents_def)
qed

theorem new_tag_roundtrip_witness:
  "\<exists>f1 f2. WriteNewEd2kTag ascii_env (CTagString [102, 110] [97, 98]) utf8strRaw (new_memfile 0 (\<lambda>_. 0)) = (Inr True, f1) \<and>
    ReadNewTag ascii_env True (f1\<lparr>m_position := 0\<rparr>) = (Inr (CTagString [102, 110] [97, 98]), f2)"
proof -
  let ?t = "CTagString [102, 110] [97, 98]"
  have "new_ok ascii_env utf8strRaw True ?t"
    by (simp add: new_ok_def is_defs CTagString_def CTag_name_def string_ok_def latin1_ok_def utf8_ok_def
        text_bytes_def ascii_env_def CHECK_BOM_def GetRawSize_def cstr_def)
  moreover have "growable (new_memfile 0 (\<lambda>_. 0))" "m_position (new_memfile 0 (\<lambda>_. 0)) \<le> m_fileSize (new_memfile 0 (\<lambda>_. 0))"
    by (simp_all add: growable_def mem_ok_def new_memfile_def)
  moreover have "new_view ascii_env ?t = ?t"
    by (simp add: new_view_def CTagString_def CTag_name_def text_bytes_def ascii_env_def)
  ultimately show ?thesis using new_tag_roundtrip [of ascii_env utf8strRaw True ?t "new_memfile 0 (\<lambda>_. 0)"] by (simp add: new_memfile_def) blast
qed

text \<open>
  A packet that ends inside a tag is never taken for a tag: at every cut the readers throw
  \<open>CEOFException\<close>, in both formats.
\<close>

theorem truncated_tag_rejected:
  "(kad_ok env t \<longrightarrow> n < length (kad_bytes env t) \<longrightarrow>
     fst (ReadTag env True (attach_memfile (take n (kad_bytes env t)) True)) = Inl EOFException) \<and>
   (new_ok env enc opt t \<longrightarrow> \<not> IsBlob t \<longrightarrow> n < length (new_bytes env enc t) \<longrightarrow>
     fst (ReadNewTag env opt (attach_memfile (take n (new_bytes env enc t)) True)) = Inl EOFException)"
proof -
  have E: "fst (m (attach_memfile (take n bs) True)) = Inl EOFException" if "eof_on m bs" "n < length bs" for m :: "'z io" and bs
  proof -
    have "mem_ok (attach_memfile (take n bs) True)" "contents (attach_memfile (take n bs) True) = [] @ take n bs"
      "m_position (attach_memfile (take n bs) True) = length ([] :: uint8 list)"
      using that(2) by (simp_all add: mem_ok_def attach_memfile_def contents_def min_def)
    then show ?thesis using that unfolding eof_on_def by fastforce
  qed
  show ?thesis using E kad_get(2) new_get(2) by blast
qed

theorem truncated_tag_rejected_witness:
  "fst (ReadTag ascii_env True (attach_memfile (take 5 (kad_bytes ascii_env (CTagString [70] [97, 98]))) True)) = Inl EOFException"
proof -
  let ?t = "CTagString [70] [97, 98]"
  have "kad_ok ascii_env ?t"
    by (simp add: kad_ok_def CTagString_def CTag_name_def string_ok_def latin1_ok_def utf8_ok_def
        text_bytes_def ascii_env_def CHECK_BOM_def)
  moreover have "5 < length (kad_bytes ascii_env ?t)"
    by (simp add: kad_bytes_def name_bytes_def kad_value_bytes_def CTagString_def CTag_name_def string_bytes_def text_bytes_def ascii_env_def)
  ultimately show ?thesis using truncated_tag_rejected [of ascii_env ?t 5 utf8strRaw True] by blast
qed

text \<open>\<open>WriteTag\<close> writes blobs, \<open>ReadTag\<close> does not know their type.\<close>

lemma blob_not_readable:
  "puts (WriteTag ascii_env (CTagBlob [70] [1, 2] 2)) [7, 1, 0, 70, 2, 0, 0, 0, 1, 2] \<and>
   fst (ReadTag ascii_env True (attach_memfile [7, 1, 0, 70, 2, 0, 0, 0, 1, 2] True)) = Inl BadTag"
proof
  let ?t = "CTagBlob [70] [1, 2] 2"
  have ok: "string_ok ascii_env utf8strNone False [70]"
    by (simp add: string_ok_def latin1_ok_def text_bytes_def ascii_env_def CHECK_BOM_def)
  have sb: "string_bytes ascii_env utf8strNone [70] = [1, 0, 70]"
    by (simp add: string_bytes_def text_bytes_def ascii_env_def le_bytes_def upt_rec)
  have b: "le_bytes 1 (7 :: uint8) = [7]" "le_bytes 4 (2 :: uint32) = [2, 0, 0, 0]"
    by (simp_all add: le_bytes_def upt_rec)
  have "puts (WriteTag ascii_env ?t) (le_bytes 1 (7 :: uint8) @ string_bytes ascii_env utf8strNone [70] @
      le_bytes 4 (2 :: uint32) @ [1, 2])"
  proof -
    have "WriteTag ascii_env ?t = io_seq (WriteUInt8 7) (io_seq (WriteString ascii_env [70] utf8strNone 2)
        (io_seq (WriteUInt32 2) (WriteIO [1, 2])))"
      by (simp add: WriteTag_def WriteTag_value_def CTagBlob_def CTag_name_def get_defs is_defs)
    then show ?thesis by (simp only:) (intro puts_seq int_puts string.put_bytes [OF ok] puts_WriteIO)
  qed
  then show "puts (WriteTag ascii_env ?t) [7, 1, 0, 70, 2, 0, 0, 0, 1, 2]" by (simp add: sb b del: One_nat_def)
  let ?f = "attach_memfile [7, 1, 0, 70, 2, 0, 0, 0, 1, 2] True"
  have 1: "ReadUInt8 ?f = (Inr 7, ?f\<lparr>m_position := 1\<rparr>)"
    using getsD [OF u8.get_bytes [OF TrueI, of 7], of ?f "[]" "[1, 0, 70, 2, 0, 0, 0, 1, 2]"]
    by (simp add: attach_memfile_def contents_def mem_ok_def b del: One_nat_def)
  have 2: "ReadString ascii_env False 2 False (?f\<lparr>m_position := 1\<rparr>) = (Inr [70], ?f\<lparr>m_position := 4\<rparr>)"
    using getsD [OF string.get_bytes [OF ok], of "?f\<lparr>m_position := 1\<rparr>" "[7]" "[2, 0, 0, 0, 1, 2]"]
    by (simp add: attach_memfile_def contents_def mem_ok_def sb)
  show "fst (ReadTag ascii_env True ?f) = Inl BadTag"
    by (simp add: ReadTag_def io_bind_def 1 2 io_throw_def del: One_nat_def)
qed

text \<open>
  \<open>GetRawSize\<close> counts the UTF-8 bytes also where \<open>WriteString\<close> then writes Latin-1: such a tag announces
  more bytes than it has, and the reader runs into the next tag.
\<close>

lemma latin1_short_string:
  assumes "utf8_enc env [0xE9] = Some [0xC3, 0xA9]" and "latin1_enc env [0xE9] = Some [0xE9]"
  shows "new_type env utf8strNone (CTagString name [0xE9]) = Inr (TAGTYPE_STR1 + 1) \<and>
    puts (WriteString env [0xE9] utf8strNone 0) [0xE9]"
proof
  show "new_type env utf8strNone (CTagString name [0xE9]) = Inr (TAGTYPE_STR1 + 1)"
    by (simp add: new_type_def is_defs CTagString_def CTag_name_def GetRawSize_def assms cstr_def u16_def)
  have "WriteString env [0xE9] utf8strNone 0 = io_seq (io_return ()) (io_seq (io_return ()) (WriteIO [0xE9]))"
    by (simp add: WriteString_def WriteStringCore_def assms cstr_def u32_def Let_def)
  then show "puts (WriteString env [0xE9] utf8strNone 0) [0xE9]"
    using puts_seq [OF puts_return puts_seq [OF puts_return puts_WriteIO [of "[0xE9]"]]] by simp
qed

text \<open>
  The size of a string is kept in 16 bits while its type is chosen: a string of 65537 bytes is written as
  one of a single byte, followed by all of its bytes.
\<close>

lemma long_string_wraps:
  assumes "utf8_enc env s = Some b" and "cstr b = b" and "length b = 65537"
  shows "new_type env utf8strRaw (CTagString name s) = Inr TAGTYPE_STR1"
  using assms by (simp add: new_type_def is_defs CTagString_def CTag_name_def GetRawSize_def u16_def)

end
