(* ===== verification/Kad_Contact.thy ===== *)
theory Kad_Contact
  imports UInt128 Safe_File "HOL-Library.Signed_Division"
begin

text \<open>
  Contacts of the Kademlia network: \<open>CContact\<close> (\<open>src/src/kademlia/routing/Contact.cpp\<close>, \<open>.h\<close>), its key
  \<open>CKadUDPKey\<close> (\<open>src/src/kademlia/utils/KadUDPKey.h\<close>) and the test for private addresses
  (\<open>src/src/NetworkFunctions.cpp\<close>). Times are integers; \<open>now\<close> is the result of \<open>time(NULL)\<close>.
\<close>

section \<open>Keys\<close>

record CKadUDPKey =
  m_key :: uint32
  m_key_ip :: uint32

definition GetKeyValue :: "CKadUDPKey \<Rightarrow> uint32 \<Rightarrow> uint32" where
  "GetKeyValue k myIP = (if myIP = m_key_ip k then m_key k else 0)"

definition key_eq :: "CKadUDPKey \<Rightarrow> CKadUDPKey \<Rightarrow> bool" where
  "key_eq k1 k2 \<longleftrightarrow> GetKeyValue k1 (m_key_ip k1) = GetKeyValue k2 (m_key_ip k2)"

definition key_IsEmpty :: "CKadUDPKey \<Rightarrow> bool" where
  "key_IsEmpty k \<longleftrightarrow> m_key k = 0 \<or> m_key_ip k = 0"

definition StoreToFile :: "CKadUDPKey \<Rightarrow> unit io" where
  "StoreToFile k = io_seq (WriteUInt32 (m_key k)) (WriteUInt32 (m_key_ip k))"

definition ReadFromFile :: "CKadUDPKey io" where
  "ReadFromFile = io_bind ReadUInt32 (\<lambda>k. io_map (\<lambda>ip. \<lparr>m_key = k, m_key_ip = ip\<rparr>) ReadUInt32)"

interpretation udpkey: field_codec StoreToFile ReadFromFile "\<lambda>k. le_bytes 4 (m_key k) @ le_bytes 4 (m_key_ip k)" "\<lambda>_. True"
proof
  fix k :: CKadUDPKey
  let ?k = "\<lambda>k. io_map (\<lambda>ip. \<lparr>m_key = k, m_key_ip = ip\<rparr>) ReadUInt32"
  have g: "gets (?k (m_key k)) (le_bytes 4 (m_key_ip k)) k"
    using gets_map [OF u32.get_bytes [OF TrueI, of "m_key_ip k"], of "\<lambda>ip. \<lparr>m_key = m_key k, m_key_ip = ip\<rparr>"]
    by (cases k) simp
  show "puts (StoreToFile k) (le_bytes 4 (m_key k) @ le_bytes 4 (m_key_ip k))"
    unfolding StoreToFile_def by (intro puts_seq int_puts)
  show "gets ReadFromFile (le_bytes 4 (m_key k) @ le_bytes 4 (m_key_ip k)) k"
    unfolding ReadFromFile_def by (rule gets_bind [where k = ?k, OF u32.get_bytes [OF TrueI] g])
  show "eof_on ReadFromFile (le_bytes 4 (m_key k) @ le_bytes 4 (m_key_ip k))"
    unfolding ReadFromFile_def
    by (rule eof_bind [where k = ?k, OF u32.get_bytes [OF TrueI] u32.get_eof [OF TrueI]]) (intro eof_map u32.get_eof TrueI)
qed

section \<open>Private addresses\<close>

definition swap32 :: "uint32 \<Rightarrow> uint32" where
  "swap32 w = push_bit 24 (w AND 0x000000FF) OR push_bit 8 (w AND 0x0000FF00) OR
     (drop_bit 8 (w AND 0x00FF0000) OR drop_bit 24 (w AND 0xFF000000))"

definition lan_ranges :: "(uint32 \<times> uint32) list" where
  "lan_ranges = [(0x0000000a, 0x000000ff), (0x000010ac, 0x0000f0ff), (0x0000a8c0, 0x0000ffff)]"

definition IsLanIP :: "uint32 \<Rightarrow> bool" where
  "IsLanIP ip \<longleftrightarrow> list_ex (\<lambda>(addr, mask). (ip XOR addr) AND mask = 0) lan_ranges"

definition reserved_ranges :: "(uint32 \<times> uint32) list" where
  "reserved_ranges = [(0x00000000, 0x000000ff), (0x00000027, 0x000000ff), (0x0000007f, 0x000000ff), (0x00000080, 0x0000ffff),
     (0x0000fea9, 0x0000ffff), (0x0000ffbf, 0x0000ffff), (0x000000c0, 0x00ffffff), (0x000200c0, 0x00ffffff),
     (0x006358c0, 0x00ffffff), (0x000012c6, 0x0000feff), (0x00ffffdf, 0x00ffffff), (0x000000e0, 0x000000f0),
     (0x000000f0, 0x000000f0)]"

definition IsGoodIP :: "uint32 \<Rightarrow> bool \<Rightarrow> bool" where
  "IsGoodIP ip filterLAN \<longleftrightarrow>
     \<not> list_ex (\<lambda>(addr, mask). (ip XOR addr) AND mask = 0) reserved_ranges \<and> \<not> (filterLAN \<and> IsLanIP ip)"

definition IsGoodIPPort :: "uint32 \<Rightarrow> uint16 \<Rightarrow> bool" where
  "IsGoodIPPort ip port \<longleftrightarrow> IsGoodIP ip True \<and> port \<noteq> 0"

section \<open>Contacts\<close>

record CContact =
  m_clientID :: CUInt128
  m_distance :: CUInt128
  m_ip :: uint32
  m_tcpPort :: uint16
  m_udpPort :: uint16
  m_type :: nat
  m_lastTypeSet :: int
  m_expires :: int
  m_created :: int
  m_inUse :: nat
  m_version :: nat
  m_ipVerified :: bool
  m_receivedHelloPacket :: bool
  m_udpKey :: CKadUDPKey

abbreviation MIN2S :: "int \<Rightarrow> int" where "MIN2S m \<equiv> m * 60"
abbreviation HR2S :: "int \<Rightarrow> int" where "HR2S h \<equiv> MIN2S (h * 60)"

definition new_contact ::
  "CUInt128 \<Rightarrow> uint32 \<Rightarrow> uint16 \<Rightarrow> uint16 \<Rightarrow> nat \<Rightarrow> CKadUDPKey \<Rightarrow> bool \<Rightarrow> CUInt128 \<Rightarrow> int \<Rightarrow> CContact" where
  "new_contact clientID ip udpPort tcpPort version key ipVerified target now =
     \<lparr>m_clientID = clientID, m_distance = XOR128 target clientID, m_ip = ip, m_tcpPort = tcpPort,
      m_udpPort = udpPort, m_type = 3, m_lastTypeSet = now, m_expires = 0, m_created = now, m_inUse = 0,
      m_version = version, m_ipVerified = ipVerified, m_receivedHelloPacket = False, m_udpKey = key\<rparr>"

definition CheckingType :: "int \<Rightarrow> CContact \<Rightarrow> CContact" where
  "CheckingType now c =
     (if now - m_lastTypeSet c < 10 \<or> m_type c = 4 then c
      else c\<lparr>m_lastTypeSet := now, m_expires := now + MIN2S 2, m_type := m_type c + 1\<rparr>)"

definition UpdateType :: "int \<Rightarrow> CContact \<Rightarrow> CContact" where
  "UpdateType now c =
     (let hours = (word_of_int ((now - m_created c) sdiv HR2S 1) :: uint32)
      in if hours = 0 then c\<lparr>m_type := 2, m_expires := now + HR2S 1\<rparr>
         else if hours = 1 then c\<lparr>m_type := 1, m_expires := now + MIN2S 90\<rparr>
         else c\<lparr>m_type := 0, m_expires := now + HR2S 2\<rparr>)"

definition GetLastSeen :: "CContact \<Rightarrow> int" where
  "GetLastSeen c =
     (if m_expires c \<noteq> 0 then
        (if m_type c = 2 then m_expires c - HR2S 1
         else if m_type c = 1 then m_expires c - MIN2S 90
         else if m_type c = 0 then m_expires c - HR2S 2
         else 0)
      else 0)"

definition SetIPVerified :: "bool \<Rightarrow> CContact \<Rightarrow> CContact" where
  "SetIPVerified v c = c\<lparr>m_ipVerified := v\<rparr>"

definition SetIPAddress :: "uint32 \<Rightarrow> CContact \<Rightarrow> CContact" where
  "SetIPAddress ip c = (if m_ip c \<noteq> ip then (SetIPVerified False c)\<lparr>m_ip := ip\<rparr> else c)"

definition SetClientID :: "CUInt128 \<Rightarrow> CUInt128 \<Rightarrow> CContact \<Rightarrow> CContact" where
  "SetClientID kadID clientID c = c\<lparr>m_clientID := clientID, m_distance := XOR128 kadID clientID\<rparr>"

definition IncUse :: "CContact \<Rightarrow> CContact" where
  "IncUse c = c\<lparr>m_inUse := m_inUse c + 1\<rparr>"

definition DecUse :: "CContact \<Rightarrow> CContact" where
  "DecUse c = (if m_inUse c \<noteq> 0 then c\<lparr>m_inUse := m_inUse c - 1\<rparr> else c)"

definition InUse :: "CContact \<Rightarrow> bool" where
  "InUse c \<longleftrightarrow> m_inUse c > 0"

text \<open>Whether an address is private depends only on its \<open>/24\<close> network.\<close>

lemma address_masks:
  "(0xFF :: uint32) = mask 8" "(0xFF00 :: uint32) = push_bit 8 (mask 8)" "(0x00ffffff :: uint32) = mask 24"
  "(0xFFFFFF00 :: uint32) = push_bit 8 (mask 24)" "(0x00FF0000 :: uint32) = push_bit 16 (mask 8)"
  "(0xFF000000 :: uint32) = push_bit 24 (mask 8)"
  by (simp_all add: mask_eq_exp_minus_1 push_bit_eq_mult)

lemma bit_swap32: "n < 24 \<Longrightarrow> bit (swap32 w) n \<longleftrightarrow>
    (if n < 8 then bit w (n + 24) else if n < 16 then bit w (n + 8) else bit w (n - 8))"
  unfolding swap32_def address_masks
  by (auto simp: bit_or_iff bit_and_iff bit_push_bit_iff bit_drop_bit_eq bit_mask_iff add.commute)

lemma swap32_mask:
  fixes a b m :: uint32
  assumes "m AND 0x00ffffff = m" and "a AND 0xFFFFFF00 = b AND 0xFFFFFF00"
  shows "swap32 a AND m = swap32 b AND m"
proof (rule bit_word_eqI)
  fix n assume n: "n < LENGTH(32)"
  have hi: "bit a j = bit b j" if "8 \<le> j" "j < 32" for j
  proof -
    have "bit (a AND 0xFFFFFF00) j = bit (b AND 0xFFFFFF00) j" by (simp only: assms(2))
    moreover have "j - 8 < 24" using that by linarith
    ultimately show ?thesis using that by (simp add: address_masks bit_and_iff bit_push_bit_iff bit_mask_iff)
  qed
  have m: "bit m n \<Longrightarrow> n < 24"
  proof -
    assume "bit m n"
    then have "bit (m AND 0x00ffffff) n" by (simp only: assms(1))
    then show "n < 24" by (simp add: address_masks bit_and_iff bit_mask_iff)
  qed
  show "bit (swap32 a AND m) n = bit (swap32 b AND m) n"
  proof (cases "bit m n")
    case True
    then show ?thesis using m hi by (auto simp: bit_and_iff bit_swap32)
  qed (simp add: bit_and_iff)
qed

lemma IsLanIP_subnet:
  assumes "a AND 0xFFFFFF00 = b AND 0xFFFFFF00"
  shows "IsLanIP (swap32 a) \<longleftrightarrow> IsLanIP (swap32 b)"
proof -
  have "(swap32 a XOR addr) AND m = (swap32 b XOR addr) AND m" if "m AND 0x00ffffff = m" for addr m
    using swap32_mask [OF that assms] by (simp add: bit.conj_xor_distrib2)
  then show ?thesis by (simp add: IsLanIP_def lan_ranges_def)
qed

lemma contact_updates [simp]:
  "m_clientID (UpdateType now c) = m_clientID c" "m_distance (UpdateType now c) = m_distance c"
  "m_ip (UpdateType now c) = m_ip c" "m_clientID (CheckingType now c) = m_clientID c"
  "m_distance (CheckingType now c) = m_distance c" "m_ip (CheckingType now c) = m_ip c"
  "m_clientID (SetIPAddress ip c) = m_clientID c" "m_distance (SetIPAddress ip c) = m_distance c"
  "m_ip (SetIPAddress ip c) = ip" "m_clientID (SetIPVerified v c) = m_clientID c"
  "m_distance (SetIPVerified v c) = m_distance c" "m_ip (SetIPVerified v c) = m_ip c"
  "m_clientID (IncUse c) = m_clientID c" "m_distance (IncUse c) = m_distance c" "m_ip (IncUse c) = m_ip c"
  "m_clientID (DecUse c) = m_clientID c" "m_distance (DecUse c) = m_distance c" "m_ip (DecUse c) = m_ip c"
  by (simp_all add: UpdateType_def CheckingType_def SetIPAddress_def SetIPVerified_def IncUse_def DecUse_def Let_def)

end
