(* ===== verification/Routing_Bin.thy ===== *)
theory Routing_Bin
  imports Kad_Contact "HOL-Library.Multiset"
begin

text \<open>
  The buckets of the Kademlia routing table: \<open>CRoutingBin\<close> (\<open>src/src/kademlia/routing/RoutingBin.cpp\<close>,
  \<open>.h\<close>). A \<open>CContact *\<close> is a number, the contacts live in \<open>heap\<close>; \<open>deleted\<close> lists the contacts that were
  freed and \<open>next_ref\<close> is the number the next allocation gets. The two static maps count the contacts per
  address and per \<open>/24\<close> network over all bins; they are what protects the table against one attacker with
  many identities. A bin is the list of its entries, its most recently seen contact last.
\<close>

section \<open>State\<close>

record kad =
  heap :: "nat \<Rightarrow> CContact"
  s_globalContactIPs :: "uint32 \<rightharpoonup> uint32"
  s_globalContactSubnets :: "uint32 \<rightharpoonup> uint32"
  deleted :: "nat list"
  next_ref :: nat

type_synonym bin = "nat list"

definition K :: nat where "K = 10"

definition MAX_CONTACTS_SUBNET :: uint32 where "MAX_CONTACTS_SUBNET = 10"

definition MAX_CONTACTS_IP :: uint32 where "MAX_CONTACTS_IP = 1"

definition subnet :: "uint32 \<Rightarrow> uint32" where
  "subnet ip = ip AND 0xFFFFFF00"

definition tracked :: "(uint32 \<rightharpoonup> uint32) \<Rightarrow> uint32 \<Rightarrow> uint32" where
  "tracked m k = (case m k of None \<Rightarrow> 0 | Some n \<Rightarrow> n)"

definition update_contact :: "nat \<Rightarrow> (CContact \<Rightarrow> CContact) \<Rightarrow> kad \<Rightarrow> kad" where
  "update_contact r f s = s\<lparr>heap := (heap s)(r := f (heap s r))\<rparr>"

definition delete_contact :: "nat \<Rightarrow> kad \<Rightarrow> kad" where
  "delete_contact r s = s\<lparr>deleted := r # deleted s\<rparr>"

section \<open>Tracking of addresses\<close>

definition CheckGlobalIPLimits :: "uint32 \<Rightarrow> kad \<Rightarrow> bool" where
  "CheckGlobalIPLimits ip s =
     (if MAX_CONTACTS_IP \<le> tracked (s_globalContactIPs s) ip then False
      else if MAX_CONTACTS_SUBNET \<le> tracked (s_globalContactSubnets s) (subnet ip) \<and> \<not> IsLanIP (swap32 ip)
      then False else True)"

definition adjust_count :: "uint32 \<Rightarrow> bool \<Rightarrow> (uint32 \<rightharpoonup> uint32) \<Rightarrow> (uint32 \<rightharpoonup> uint32)" where
  "adjust_count k increase m =
     (let n = (if increase then tracked m k + 1 else tracked m k - 1)
      in if n \<noteq> 0 then m(k \<mapsto> n) else m(k := None))"

definition AdjustGlobalTracking :: "uint32 \<Rightarrow> bool \<Rightarrow> kad \<Rightarrow> kad" where
  "AdjustGlobalTracking ip increase s =
     s\<lparr>s_globalContactIPs := adjust_count ip increase (s_globalContactIPs s),
       s_globalContactSubnets := adjust_count (subnet ip) increase (s_globalContactSubnets s)\<rparr>"

section \<open>Bins\<close>

definition dispose_bin :: "bool \<Rightarrow> bin \<Rightarrow> kad \<Rightarrow> kad" where
  "dispose_bin dontDelete b s =
     fold (\<lambda>r s. let s = AdjustGlobalTracking (m_ip (heap s r)) False s
                 in if dontDelete then s else delete_contact r s) b s"

text \<open>The loop of \<open>AddContact\<close>: \<open>None\<close> if an entry has the same identifier, else how many share the network.\<close>

fun scan_entries :: "(nat \<Rightarrow> CContact) \<Rightarrow> CContact \<Rightarrow> bin \<Rightarrow> nat \<Rightarrow> nat option" where
  "scan_entries h c [] sameSubnets = Some sameSubnets"
| "scan_entries h c (r # rs) sameSubnets =
     (if m_clientID c = m_clientID (h r) then None
      else scan_entries h c rs
        (if subnet (m_ip c) = subnet (m_ip (h r)) then sameSubnets + 1 else sameSubnets))"

definition AddContact :: "nat \<Rightarrow> bin \<Rightarrow> kad \<Rightarrow> bool \<times> bin \<times> kad" where
  "AddContact r b s =
     (let c = heap s r in
      case scan_entries (heap s) c b 0 of
        None \<Rightarrow> (False, b, s)
      | Some sameSubnets \<Rightarrow>
          if \<not> CheckGlobalIPLimits (m_ip c) s then (False, b, s)
          else if 2 \<le> sameSubnets \<and> \<not> IsLanIP (swap32 (m_ip c)) then (False, b, s)
          else if length b < K then (True, b @ [r], AdjustGlobalTracking (m_ip c) True s)
          else (False, b, s))"

definition GetContact :: "(nat \<Rightarrow> CContact) \<Rightarrow> CUInt128 \<Rightarrow> bin \<Rightarrow> nat option" where
  "GetContact h clientID b = find (\<lambda>r. m_clientID (h r) = clientID) b"

definition GetContact_ip :: "(nat \<Rightarrow> CContact) \<Rightarrow> uint32 \<Rightarrow> uint16 \<Rightarrow> bool \<Rightarrow> bin \<Rightarrow> nat option" where
  "GetContact_ip h ip port tcpPort b =
     find (\<lambda>r. m_ip (h r) = ip \<and>
       ((\<not> tcpPort \<and> port = m_udpPort (h r)) \<or> (tcpPort \<and> port = m_tcpPort (h r)) \<or> port = 0)) b"

definition GetOldest :: "bin \<Rightarrow> nat option" where
  "GetOldest b = (case b of [] \<Rightarrow> None | r # rs \<Rightarrow> Some r)"

definition RemoveContact :: "nat \<Rightarrow> bool \<Rightarrow> bin \<Rightarrow> kad \<Rightarrow> bin \<times> kad" where
  "RemoveContact r noTrackingAdjust b s =
     (removeAll r b, if noTrackingAdjust then s else AdjustGlobalTracking (m_ip (heap s r)) False s)"

definition PushToBottom :: "nat \<Rightarrow> bin \<Rightarrow> bin" where
  "PushToBottom r b = removeAll r b @ [r]"

definition SetAlive :: "int \<Rightarrow> nat \<Rightarrow> bin \<Rightarrow> kad \<Rightarrow> bin \<times> kad" where
  "SetAlive now r b s =
     (case GetContact (heap s) (m_clientID (heap s r)) b of
        None \<Rightarrow> (b, s)
      | Some r' \<Rightarrow> (PushToBottom r' b, update_contact r' (UpdateType now) s))"

definition SetTCPPort :: "int \<Rightarrow> uint32 \<Rightarrow> uint16 \<Rightarrow> uint16 \<Rightarrow> bin \<Rightarrow> kad \<Rightarrow> bin \<times> kad" where
  "SetTCPPort now ip port tcpPort b s =
     (case find (\<lambda>r. ip = m_ip (heap s r) \<and> port = m_udpPort (heap s r)) b of
        None \<Rightarrow> (b, s)
      | Some r \<Rightarrow>
          (PushToBottom r b, update_contact r (\<lambda>c. UpdateType now (c\<lparr>m_tcpPort := tcpPort\<rparr>)) s))"

definition GetNumContacts :: "(nat \<Rightarrow> CContact) \<Rightarrow> nat \<Rightarrow> bin \<Rightarrow> nat \<times> nat \<Rightarrow> nat \<times> nat" where
  "GetNumContacts h minVersion b ns =
     fold (\<lambda>r (n, f). if minVersion \<le> m_version (h r) then (n + 1, f) else (n, f + 1)) b ns"

type_synonym ContactMap = "(CUInt128, nat) stdmap"

text \<open>The trimming loop, largest distance first.\<close>

function trim_results :: "nat \<Rightarrow> bool \<Rightarrow> ContactMap \<Rightarrow> kad \<Rightarrow> ContactMap \<times> kad" where
  "trim_results maxRequired inUse result s =
     (if maxRequired < length result then
        trim_results maxRequired inUse (butlast result)
          (if inUse then update_contact (snd (last result)) DecUse s else s)
      else (result, s))"
  by pat_completeness auto

termination
  by (relation "measure (\<lambda>(_, _, result, _). length result)") auto

declare trim_results.simps [simp del]

definition GetClosestTo ::
  "nat \<Rightarrow> CUInt128 \<Rightarrow> nat \<Rightarrow> bool \<Rightarrow> bool \<Rightarrow> bin \<Rightarrow> ContactMap \<Rightarrow> kad \<Rightarrow> ContactMap \<times> kad" where
  "GetClosestTo maxType target maxRequired emptyFirst inUse b result s =
     (let result = (if emptyFirst then [] else result) in
      if b = [] then (result, s)
      else
        (let (result, s) =
           fold (\<lambda>r (result, s).
             if m_type (heap s r) \<le> maxType \<and> m_ipVerified (heap s r) then
               (sm_put (XOR128 (m_clientID (heap s r)) target) r result,
                if inUse then update_contact r IncUse s else s)
             else (result, s)) b (result, s)
         in trim_results maxRequired inUse result s))"

definition ChangeContactIPAddress :: "nat \<Rightarrow> uint32 \<Rightarrow> bin \<Rightarrow> kad \<Rightarrow> bool \<times> kad" where
  "ChangeContactIPAddress r newIP b s =
     (let c = heap s r in
      if m_ip c = newIP then (True, s)
      else if MAX_CONTACTS_IP \<le> tracked (s_globalContactIPs s) newIP then (False, s)
      else if subnet (m_ip c) \<noteq> subnet newIP \<and>
        MAX_CONTACTS_SUBNET \<le> tracked (s_globalContactSubnets s) (subnet newIP) \<and> \<not> IsLanIP (swap32 newIP)
      then (False, s)
      else if subnet (m_ip c) \<noteq> subnet newIP \<and>
        2 \<le> length (filter (\<lambda>r'. subnet newIP = subnet (m_ip (heap s r'))) b) \<and> \<not> IsLanIP (swap32 newIP)
      then (False, s)
      else
        (let s = AdjustGlobalTracking (m_ip c) False s;
             s = update_contact r (SetIPAddress newIP) s
         in (True, AdjustGlobalTracking newIP True s)))"

definition GetRandomContact :: "(nat \<Rightarrow> CContact) \<Rightarrow> nat \<Rightarrow> nat \<Rightarrow> nat \<Rightarrow> bin \<Rightarrow> nat option" where
  "GetRandomContact h random maxType minKadVersion b =
     (if b = [] then None
      else
        let start = random mod length b;
            fits = (\<lambda>r. m_type (h r) \<le> maxType \<and> minKadVersion \<le> m_version (h r))
        in case find fits (drop start b) of
             Some r \<Rightarrow> Some r
           | None \<Rightarrow> (case filter fits (take start b) of [] \<Rightarrow> None | rs \<Rightarrow> Some (last rs)))"

definition SetAllContactsVerified :: "bin \<Rightarrow> kad \<Rightarrow> kad" where
  "SetAllContactsVerified b s = fold (\<lambda>r. update_contact r (SetIPVerified True)) b s"

definition HasOnlyLANNodes :: "(nat \<Rightarrow> CContact) \<Rightarrow> bin \<Rightarrow> bool" where
  "HasOnlyLANNodes h b \<longleftrightarrow> list_all (\<lambda>r. IsLanIP (swap32 (m_ip (h r)))) b"

section \<open>The tracking invariant\<close>

abbreviation ip_of :: "kad \<Rightarrow> nat \<Rightarrow> uint32" where
  "ip_of s r \<equiv> m_ip (heap s r)"

definition by_ip :: "kad \<Rightarrow> nat set \<Rightarrow> uint32 \<Rightarrow> nat set" where
  "by_ip s E ip = {r \<in> E. ip_of s r = ip}"

definition by_net :: "kad \<Rightarrow> nat set \<Rightarrow> uint32 \<Rightarrow> nat set" where
  "by_net s E n = {r \<in> E. subnet (ip_of s r) = n}"

text \<open>\<open>E\<close> are the contacts in all bins: the maps count them, and the limits hold.\<close>

definition track_ok :: "kad \<Rightarrow> nat set \<Rightarrow> bool" where
  "track_ok s E \<longleftrightarrow>
     (\<forall>ip. unat (tracked (s_globalContactIPs s) ip) = card (by_ip s E ip)) \<and>
     (\<forall>n. unat (tracked (s_globalContactSubnets s) n) = card (by_net s E n))"

definition limits_ok :: "kad \<Rightarrow> nat set \<Rightarrow> bool" where
  "limits_ok s E \<longleftrightarrow>
     (\<forall>ip. card (by_ip s E ip) \<le> 1) \<and>
     (\<forall>ip. \<not> IsLanIP (swap32 ip) \<longrightarrow> card (by_net s E (subnet ip)) \<le> 10)"

definition kad_inv :: "kad \<Rightarrow> nat set \<Rightarrow> bool" where
  "kad_inv s E \<longleftrightarrow> finite E \<and> track_ok s E \<and> limits_ok s E"

lemma by_insert:
  "by_ip s (insert r E) ip = (if ip_of s r = ip then insert r (by_ip s E ip) else by_ip s E ip)"
  "by_net s (insert r E) n = (if subnet (ip_of s r) = n then insert r (by_net s E n) else by_net s E n)"
  by (auto simp: by_ip_def by_net_def)

lemma by_remove:
  "by_ip s (E - {r}) ip = by_ip s E ip - {r}" "by_net s (E - {r}) n = by_net s E n - {r}"
  by (auto simp: by_ip_def by_net_def)

lemma finite_by [simp]: "finite E \<Longrightarrow> finite (by_ip s E ip)" "finite E \<Longrightarrow> finite (by_net s E n)"
  by (simp_all add: by_ip_def by_net_def)

lemma by_mono: "E \<subseteq> F \<Longrightarrow> by_ip s E ip \<subseteq> by_ip s F ip" "E \<subseteq> F \<Longrightarrow> by_net s E n \<subseteq> by_net s F n"
  by (auto simp: by_ip_def by_net_def)

lemma limits_mono: "limits_ok s F \<Longrightarrow> E \<subseteq> F \<Longrightarrow> finite F \<Longrightarrow> limits_ok s E"
  unfolding limits_ok_def by (meson card_mono by_mono finite_by le_trans)

text \<open>An address is counted once, so a network has at most 256 contacts and no counter overflows.\<close>

lemma subnet_card:
  assumes "finite E" and "\<forall>ip. card (by_ip s E ip) \<le> 1"
  shows "card (by_net s E n) \<le> 256"
proof -
  have inj: "inj_on (ip_of s) (by_net s E n)"
  proof (rule inj_onI)
    fix x y assume xy: "x \<in> by_net s E n" "y \<in> by_net s E n" "ip_of s x = ip_of s y"
    then have "{x, y} \<subseteq> by_ip s E (ip_of s x)" by (auto simp: by_ip_def by_net_def)
    then have "card {x, y} \<le> card (by_ip s E (ip_of s x))" by (rule card_mono [OF finite_by(1) [OF assms(1)]])
    also have "\<dots> \<le> 1" using assms(2) by blast
    finally have "card {x, y} \<le> 1" .
    then show "x = y" by (cases "x = y") simp_all
  qed
  have "ip_of s ` by_net s E n \<subseteq> range (\<lambda>b :: uint8. n OR ucast b)"
  proof
    fix ip assume "ip \<in> ip_of s ` by_net s E n"
    then have n: "ip AND 0xFFFFFF00 = n" by (auto simp: by_net_def subnet_def)
    have "ip = n OR ucast (ucast ip :: uint8)"
      unfolding n [symmetric]
    proof (rule bit_word_eqI)
      fix k assume k: "k < LENGTH(32)"
      have "bit (0xFFFFFF00 :: uint32) k \<longleftrightarrow> 8 \<le> k"
      proof -
        have "bit (push_bit 8 (mask 24) :: uint32) k \<longleftrightarrow> 8 \<le> k \<and> k - 8 < 24"
          using k by (simp only: bit_push_bit_iff bit_mask_iff) auto
        also have "\<dots> \<longleftrightarrow> 8 \<le> k" using k by auto
        finally show ?thesis by (simp only: address_masks(4))
      qed
      then show "bit ip k = bit (ip AND 0xFFFFFF00 OR ucast (ucast ip :: uint8)) k"
        using k by (auto simp: bit_or_iff bit_and_iff bit_ucast_iff)
    qed
    then show "ip \<in> range (\<lambda>b :: uint8. n OR ucast b)" by blast
  qed
  then have "card (ip_of s ` by_net s E n) \<le> card (range (\<lambda>b :: uint8. n OR ucast b))"
    by (intro card_mono) simp_all
  also have "\<dots> \<le> card (UNIV :: uint8 set)" by (rule card_image_le) simp
  finally show ?thesis by (simp add: card_image [OF inj] card_word)
qed

lemma tracked_adjust:
  "tracked (adjust_count k inc m) k' =
     (if k' = k then (if inc then tracked m k + 1 else tracked m k - 1) else tracked m k')"
  by (auto simp: tracked_def adjust_count_def Let_def)

lemma unat_inc: "unat w < 2 ^ 32 - 1 \<Longrightarrow> unat (w + 1) = unat w + 1" for w :: uint32
  by (simp add: unat_word_ariths)

lemma unat_dec: "w \<noteq> 0 \<Longrightarrow> unat (w - 1) = unat w - 1" for w :: uint32
  by (metis unat_minus_one)

lemma kad_inv_add:
  assumes inv: "kad_inv s E" and r: "r \<notin> E" and ip: "card (by_ip s E (ip_of s r)) = 0"
    and net: "IsLanIP (swap32 (ip_of s r)) \<or> card (by_net s E (subnet (ip_of s r))) < 10"
  shows "kad_inv (AdjustGlobalTracking (ip_of s r) True s) (insert r E)"
proof -
  let ?s = "AdjustGlobalTracking (ip_of s r) True s"
  have fin: "finite E" and t: "track_ok s E" and l: "limits_ok s E" using inv by (simp_all add: kad_inv_def)
  have h: "heap ?s = heap s" by (simp add: AdjustGlobalTracking_def)
  have byeq: "by_ip ?s F = by_ip s F" "by_net ?s F = by_net s F" for F by (simp_all add: by_ip_def by_net_def h fun_eq_iff)
  have notin: "r \<notin> by_ip s E k" "r \<notin> by_net s E k" for k using r by (auto simp: by_ip_def by_net_def)
  have small: "unat (tracked (s_globalContactSubnets s) n) < 2 ^ 32 - 1" for n
    using subnet_card [OF fin, of s n] t l by (simp add: track_ok_def limits_ok_def)
  have "track_ok ?s (insert r E)"
    unfolding track_ok_def byeq
    using t notin fin ip small
    by (auto simp: track_ok_def by_insert AdjustGlobalTracking_def tracked_adjust unat_inc)
  moreover have "limits_ok ?s (insert r E)"
    unfolding limits_ok_def byeq
  proof (intro conjI allI impI)
    fix k show "card (by_ip s (insert r E) k) \<le> 1"
      using l ip notin fin unfolding limits_ok_def by_insert by (cases "ip_of s r = k") simp_all
  next
    fix k assume k: "\<not> IsLanIP (swap32 k)"
    show "card (by_net s (insert r E) (subnet k)) \<le> 10"
    proof (cases "subnet (ip_of s r) = subnet k")
      case True
      then have "\<not> IsLanIP (swap32 (ip_of s r))" using k IsLanIP_subnet [of "ip_of s r" k] by (simp add: subnet_def)
      then show ?thesis using True net notin fin by (auto simp: by_insert)
    next
      case False
      then show ?thesis using l k by (simp add: by_insert limits_ok_def)
    qed
  qed
  ultimately show ?thesis using fin by (simp add: kad_inv_def)
qed

lemma kad_inv_remove:
  assumes inv: "kad_inv s E" and r: "r \<in> E"
  shows "kad_inv (AdjustGlobalTracking (ip_of s r) False s) (E - {r})"
proof -
  let ?s = "AdjustGlobalTracking (ip_of s r) False s"
  have fin: "finite E" and t: "track_ok s E" and l: "limits_ok s E" using inv by (simp_all add: kad_inv_def)
  have h: "heap ?s = heap s" by (simp add: AdjustGlobalTracking_def)
  have byeq: "by_ip ?s F = by_ip s F" "by_net ?s F = by_net s F" for F by (simp_all add: by_ip_def by_net_def h fun_eq_iff)
  have isin: "r \<in> by_ip s E k \<longleftrightarrow> k = ip_of s r" "r \<in> by_net s E k \<longleftrightarrow> k = subnet (ip_of s r)" for k
    using r by (auto simp: by_ip_def by_net_def)
  have pos: "tracked (s_globalContactIPs s) (ip_of s r) \<noteq> 0" "tracked (s_globalContactSubnets s) (subnet (ip_of s r)) \<noteq> 0"
    using t isin fin unfolding track_ok_def by (metis card_0_eq empty_iff finite_by unat_0)+
  have "track_ok ?s (E - {r})"
    unfolding track_ok_def byeq by_remove
    using t isin fin pos
    by (auto simp: track_ok_def AdjustGlobalTracking_def tracked_adjust unat_dec)
  moreover have "limits_ok ?s (E - {r})"
    using limits_mono [OF l, of "E - {r}"] fin unfolding limits_ok_def byeq by auto
  ultimately show ?thesis using fin by (simp add: kad_inv_def)
qed

section \<open>Bins keep the invariant\<close>

definition net_count :: "kad \<Rightarrow> bin \<Rightarrow> uint32 \<Rightarrow> nat" where
  "net_count s b n = length (filter (\<lambda>r. subnet (ip_of s r) = n) b)"

definition bin_ok :: "kad \<Rightarrow> bin \<Rightarrow> bool" where
  "bin_ok s b \<longleftrightarrow> distinct (map (\<lambda>r. m_clientID (heap s r)) b) \<and> length b \<le> K \<and>
     (\<forall>ip. \<not> IsLanIP (swap32 ip) \<longrightarrow> net_count s b (subnet ip) \<le> 2)"

lemma bin_ok_distinct: "bin_ok s b \<Longrightarrow> distinct b"
  by (auto simp: bin_ok_def distinct_map)

lemma bin_ok_Nil [simp]: "bin_ok s []"
  by (simp add: bin_ok_def net_count_def)

lemma scan_entries_eq:
  "scan_entries h c b n =
     (if m_clientID c \<in> (\<lambda>r. m_clientID (h r)) ` set b then None
      else Some (n + length (filter (\<lambda>r. subnet (m_ip (h r)) = subnet (m_ip c)) b)))"
proof (induction b arbitrary: n)
  case (Cons r b)
  then show ?case by (auto simp: eq_commute)
qed simp

lemma CheckGlobalIPLimits_iff:
  assumes "kad_inv s E"
  shows "CheckGlobalIPLimits ip s \<longleftrightarrow>
    card (by_ip s E ip) = 0 \<and> (IsLanIP (swap32 ip) \<or> card (by_net s E (subnet ip)) < 10)"
proof -
  have t: "unat (tracked (s_globalContactIPs s) ip) = card (by_ip s E ip)"
    "unat (tracked (s_globalContactSubnets s) (subnet ip)) = card (by_net s E (subnet ip))"
    using assms by (simp_all add: kad_inv_def track_ok_def)
  show ?thesis
    unfolding CheckGlobalIPLimits_def MAX_CONTACTS_IP_def MAX_CONTACTS_SUBNET_def word_le_nat_alt t by auto
qed

lemma heap_AdjustGlobalTracking [simp]:
  "heap (AdjustGlobalTracking ip inc s) = heap s" "deleted (AdjustGlobalTracking ip inc s) = deleted s"
  "next_ref (AdjustGlobalTracking ip inc s) = next_ref s"
  by (simp_all add: AdjustGlobalTracking_def)

lemma AddContact_fail: "AddContact r b s = (False, b', s') \<Longrightarrow> b' = b \<and> s' = s"
  by (auto simp: AddContact_def Let_def split: option.splits if_splits)

lemma AddContact_ok:
  assumes inv: "kad_inv s E" and r: "r \<notin> E" and b: "bin_ok s b" "set b \<subseteq> E"
    and add: "AddContact r b s = (True, b', s')"
  shows "b' = b @ [r]" and "s' = AdjustGlobalTracking (ip_of s r) True s" and "kad_inv s' (insert r E)" and "bin_ok s' b'"
proof -
  from add have new: "m_clientID (heap s r) \<notin> (\<lambda>r. m_clientID (heap s r)) ` set b"
    and lim: "CheckGlobalIPLimits (ip_of s r) s"
    and net: "\<not> 2 \<le> net_count s b (subnet (ip_of s r)) \<or> IsLanIP (swap32 (ip_of s r))"
    and len: "length b < K" and b': "b' = b @ [r]" and s': "s' = AdjustGlobalTracking (ip_of s r) True s"
    by (auto simp: AddContact_def Let_def scan_entries_eq net_count_def split: if_splits)
  from b' s' show "b' = b @ [r]" "s' = AdjustGlobalTracking (ip_of s r) True s" by auto
  show "kad_inv s' (insert r E)"
    unfolding s' using lim CheckGlobalIPLimits_iff [OF inv] by (intro kad_inv_add [OF inv r]) auto
  have "net_count s b' (subnet ip) \<le> 2" if ip: "\<not> IsLanIP (swap32 ip)" for ip
  proof (cases "subnet (ip_of s r) = subnet ip")
    case True
    then have "\<not> IsLanIP (swap32 (ip_of s r))" using ip IsLanIP_subnet [of "ip_of s r" ip] by (simp add: subnet_def)
    then show ?thesis using True net by (simp add: b' net_count_def)
  next
    case False
    then show ?thesis using ip b(1) by (simp add: b' net_count_def bin_ok_def)
  qed
  then show "bin_ok s' b'"
    using b(1) new len unfolding bin_ok_def net_count_def s' by (auto simp: b' image_iff)
qed

text \<open>A contact that fits is taken.\<close>

lemma AddContact_fits:
  assumes inv: "kad_inv s E" and r: "r \<notin> E" and E: "limits_ok s (insert r E)"
    and b: "bin_ok s (b @ [r])" "set b \<subseteq> E"
  shows "\<exists>s'. AddContact r b s = (True, b @ [r], s')"
proof -
  have fin: "finite E" using inv by (simp add: kad_inv_def)
  have notin: "r \<notin> by_ip s E k" "r \<notin> by_net s E k" for k using r by (auto simp: by_ip_def by_net_def)
  have "card (by_ip s (insert r E) (ip_of s r)) \<le> 1" using E by (simp add: limits_ok_def)
  then have 1: "card (by_ip s E (ip_of s r)) = 0" using notin fin by (simp add: by_insert)
  have 2: "IsLanIP (swap32 (ip_of s r)) \<or> card (by_net s E (subnet (ip_of s r))) < 10"
  proof -
    have "\<not> IsLanIP (swap32 (ip_of s r)) \<longrightarrow> card (by_net s (insert r E) (subnet (ip_of s r))) \<le> 10"
      using E by (simp add: limits_ok_def)
    then show ?thesis using notin fin by (auto simp: by_insert)
  qed
  have lim: "CheckGlobalIPLimits (ip_of s r) s" using 1 2 CheckGlobalIPLimits_iff [OF inv] by simp
  have "\<not> IsLanIP (swap32 (ip_of s r)) \<longrightarrow> net_count s (b @ [r]) (subnet (ip_of s r)) \<le> 2"
    using b(1) by (simp add: bin_ok_def)
  then have net: "IsLanIP (swap32 (ip_of s r)) \<or> net_count s b (subnet (ip_of s r)) < 2" by (auto simp: net_count_def)
  have "m_clientID (heap s r) \<notin> (\<lambda>r. m_clientID (heap s r)) ` set b" "length b < K"
    using b(1) by (auto simp: bin_ok_def)
  then show ?thesis using lim net by (auto simp: AddContact_def Let_def scan_entries_eq net_count_def)
qed

lemma dispose_bin_True:
  assumes "kad_inv s E" and "distinct b" and "set b \<subseteq> E"
  shows "kad_inv (dispose_bin True b s) (E - set b) \<and> heap (dispose_bin True b s) = heap s \<and>
    deleted (dispose_bin True b s) = deleted s \<and> next_ref (dispose_bin True b s) = next_ref s"
  using assms
proof (induction b arbitrary: s E)
  case (Cons r b)
  let ?s = "AdjustGlobalTracking (ip_of s r) False s"
  have "kad_inv ?s (E - {r})" using Cons.prems by (intro kad_inv_remove) auto
  then have "kad_inv (dispose_bin True b ?s) (E - {r} - set b) \<and> heap (dispose_bin True b ?s) = heap ?s \<and>
    deleted (dispose_bin True b ?s) = deleted ?s \<and> next_ref (dispose_bin True b ?s) = next_ref ?s"
    using Cons.prems by (intro Cons.IH) auto
  moreover have "dispose_bin True (r # b) s = dispose_bin True b ?s" by (simp add: dispose_bin_def)
  moreover have "E - {r} - set b = E - set (r # b)" by auto
  ultimately show ?case by simp
qed (simp add: dispose_bin_def)

lemma bin_ok_cong:
  assumes "\<And>r. r \<in> set b \<Longrightarrow> m_clientID (heap s' r) = m_clientID (heap s r) \<and> ip_of s' r = ip_of s r"
  shows "bin_ok s' b = bin_ok s b"
proof -
  have "map (\<lambda>r. m_clientID (heap s' r)) b = map (\<lambda>r. m_clientID (heap s r)) b" using assms by simp
  moreover have "net_count s' b n = net_count s b n" for n
    unfolding net_count_def by (intro arg_cong [of _ _ length] filter_cong) (use assms in auto)
  ultimately show ?thesis unfolding bin_ok_def by (simp only:)
qed

lemma by_cong:
  assumes "\<And>r. r \<in> E \<Longrightarrow> ip_of s' r = ip_of s r"
  shows "by_ip s' E ip = by_ip s E ip" "by_net s' E n = by_net s E n"
  using assms by (auto simp: by_ip_def by_net_def)

lemma kad_inv_cong:
  assumes "\<And>r. r \<in> E \<Longrightarrow> ip_of s' r = ip_of s r"
    and "s_globalContactIPs s' = s_globalContactIPs s" "s_globalContactSubnets s' = s_globalContactSubnets s"
  shows "kad_inv s' E = kad_inv s E"
  using assms by (simp add: kad_inv_def track_ok_def limits_ok_def by_cong [OF assms(1)])

lemma filter_bin_ok: "bin_ok s b \<Longrightarrow> bin_ok s (filter P b)"
proof -
  assume b: "bin_ok s b"
  have 1: "net_count s (filter P b) n \<le> net_count s b n" for n
  proof -
    have "filter (\<lambda>r. subnet (ip_of s r) = n) (filter P b) = filter P (filter (\<lambda>r. subnet (ip_of s r) = n) b)"
      by (simp add: conj_commute)
    then show ?thesis unfolding net_count_def by (metis length_filter_le)
  qed
  moreover have "length (filter P b) \<le> K" using b length_filter_le [of P b] unfolding bin_ok_def by linarith
  ultimately show ?thesis using b unfolding bin_ok_def by (meson distinct_map_filter le_trans)
qed

section \<open>What an operation may change\<close>

text \<open>\<open>X\<close> are the contacts an operation may write: identifiers, distances and the allocator stay as they are.\<close>

definition frame :: "nat set \<Rightarrow> kad \<Rightarrow> kad \<Rightarrow> bool" where
  "frame X s s' \<longleftrightarrow> (\<forall>q. m_clientID (heap s' q) = m_clientID (heap s q) \<and> m_distance (heap s' q) = m_distance (heap s q)) \<and>
     (\<forall>q. q \<notin> X \<longrightarrow> heap s' q = heap s q) \<and> deleted s' = deleted s \<and> next_ref s' = next_ref s"

lemma frame_refl [simp, intro]: "frame X s s"
  by (simp add: frame_def)

lemma frame_trans [trans]: "frame X s t \<Longrightarrow> frame X t u \<Longrightarrow> frame X s u"
  by (simp add: frame_def)

lemma frame_mono: "frame X s t \<Longrightarrow> X \<subseteq> Y \<Longrightarrow> frame Y s t"
  by (auto simp: frame_def)

lemma frame_tracking [simp]: "frame X s (AdjustGlobalTracking ip inc s)"
  by (simp add: frame_def)

lemma frame_update:
  "(\<And>c. m_clientID (f c) = m_clientID c) \<Longrightarrow> (\<And>c. m_distance (f c) = m_distance c) \<Longrightarrow> r \<in> X \<Longrightarrow>
   frame X s (update_contact r f s)"
  by (auto simp: frame_def update_contact_def)

text \<open>The invariants of the tracking and of a bin, seen from a bin and its entries within all entries \<open>E\<close>.\<close>

definition bin_inv :: "kad \<Rightarrow> nat set \<Rightarrow> bin \<Rightarrow> bool" where
  "bin_inv s E b \<longleftrightarrow> kad_inv s E \<and> set b \<subseteq> E \<and> bin_ok s b"

lemma update_contact_simps [simp]:
  "heap (update_contact r f s) = (heap s)(r := f (heap s r))"
  "s_globalContactIPs (update_contact r f s) = s_globalContactIPs s"
  "s_globalContactSubnets (update_contact r f s) = s_globalContactSubnets s"
  "deleted (update_contact r f s) = deleted s" "next_ref (update_contact r f s) = next_ref s"
  by (simp_all add: update_contact_def)

lemma bin_inv_update:
  assumes "\<And>c. m_clientID (f c) = m_clientID c" and "\<And>c. m_ip (f c) = m_ip c" and "bin_inv s E b"
  shows "bin_inv (update_contact r f s) E b"
proof -
  have "kad_inv (update_contact r f s) E = kad_inv s E"
    by (rule kad_inv_cong) (simp_all add: assms)
  moreover have "bin_ok (update_contact r f s) b = bin_ok s b"
    by (rule bin_ok_cong) (simp add: assms)
  ultimately show ?thesis using assms(3) by (simp add: bin_inv_def)
qed

lemma bin_ok_perm:
  assumes "mset b' = mset b"
  shows "bin_ok s b' = bin_ok s b"
proof -
  have "distinct (map (\<lambda>r. m_clientID (heap s r)) b') = distinct (map (\<lambda>r. m_clientID (heap s r)) b)"
    using assms by (metis mset_eq_imp_distinct_iff mset_map)
  moreover have "length b' = length b" using assms by (rule mset_eq_length)
  moreover have "net_count s b' n = net_count s b n" for n
    unfolding net_count_def by (rule mset_eq_length) (simp add: assms)
  ultimately show ?thesis unfolding bin_ok_def by (simp only:)
qed

lemma mset_PushToBottom: "distinct b \<Longrightarrow> r \<in> set b \<Longrightarrow> mset (PushToBottom r b) = mset b"
  by (simp add: PushToBottom_def flip: distinct_remove1_removeAll)

lemma set_PushToBottom: "r \<in> set b \<Longrightarrow> set (PushToBottom r b) = set b"
  by (auto simp: PushToBottom_def)

lemma bin_inv_PushToBottom: "bin_inv s E b \<Longrightarrow> r \<in> set b \<Longrightarrow> bin_inv s E (PushToBottom r b)"
  using bin_ok_distinct [of s b] by (simp add: bin_inv_def set_PushToBottom bin_ok_perm [OF mset_PushToBottom])

lemma UpdateType_simps [simp]:
  "m_clientID (UpdateType now c) = m_clientID c" "m_distance (UpdateType now c) = m_distance c"
  "m_ip (UpdateType now c) = m_ip c" "m_inUse (UpdateType now c) = m_inUse c"
  "m_ipVerified (UpdateType now c) = m_ipVerified c"
  by (simp_all add: UpdateType_def Let_def)

text \<open>The entries with the identifier of \<open>r\<close>.\<close>

definition same_id :: "kad \<Rightarrow> nat \<Rightarrow> bin \<Rightarrow> nat set" where
  "same_id s r b = {q \<in> set b. m_clientID (heap s q) = m_clientID (heap s r)}"

lemma SetAlive_inv:
  assumes inv: "bin_inv s E b" and step: "SetAlive now r b s = (b', s')"
  shows "bin_inv s' E b'" and "mset b' = mset b" and "frame (same_id s r b) s s'"
proof -
  have d: "distinct b" using inv by (auto simp: bin_inv_def intro: bin_ok_distinct)
  have "bin_inv s' E b' \<and> mset b' = mset b \<and> frame (same_id s r b) s s'"
  proof (cases "GetContact (heap s) (m_clientID (heap s r)) b")
    case None
    then show ?thesis using step inv by (simp add: SetAlive_def)
  next
    case (Some q)
    then have q: "q \<in> set b" "q \<in> same_id s r b" by (auto simp: GetContact_def find_Some_iff same_id_def)
    have eq: "b' = PushToBottom q b" "s' = update_contact q (UpdateType now) s"
      using step Some by (simp_all add: SetAlive_def)
    have "bin_inv s' E (PushToBottom q b)"
      unfolding eq(2) using bin_inv_PushToBottom [OF inv q(1)] by (rule bin_inv_update [rotated 2]) simp_all
    moreover have "frame (same_id s r b) s s'"
      unfolding eq(2) using q by (intro frame_update) simp_all
    ultimately show ?thesis using eq(1) mset_PushToBottom [OF d q(1)] by simp
  qed
  then show "bin_inv s' E b'" "mset b' = mset b" "frame (same_id s r b) s s'" by blast+
qed

lemma ChangeContactIPAddress_inv:
  assumes inv: "bin_inv s E b" and r: "r \<in> set b" and step: "ChangeContactIPAddress r ip b s = (ok, s')"
  shows "bin_inv s' E b" and "frame {r} s s'"
proof -
  have k: "kad_inv s E" and sub: "set b \<subseteq> E" and ok: "bin_ok s b" using inv by (simp_all add: bin_inv_def)
  have fin: "finite E" and rE: "r \<in> E" using k sub r by (auto simp: kad_inv_def)
  have "bin_inv s' E b \<and> frame {r} s s'"
  proof (cases "s' = s")
    case False
    let ?far = "subnet (ip_of s r) \<noteq> subnet ip"
    from step False have new: "ip_of s r \<noteq> ip" and free: "\<not> MAX_CONTACTS_IP \<le> tracked (s_globalContactIPs s) ip"
      and net: "?far \<longrightarrow> \<not> MAX_CONTACTS_SUBNET \<le> tracked (s_globalContactSubnets s) (subnet ip) \<or> IsLanIP (swap32 ip)"
      and cnt: "?far \<longrightarrow> \<not> 2 \<le> length (filter (\<lambda>q. subnet ip = subnet (ip_of s q)) b) \<or> IsLanIP (swap32 ip)"
      and s': "s' = AdjustGlobalTracking ip True (update_contact r (SetIPAddress ip) (AdjustGlobalTracking (ip_of s r) False s))"
      by (auto simp: ChangeContactIPAddress_def Let_def split: if_splits)
    define s1 where "s1 = AdjustGlobalTracking (ip_of s r) False s"
    define s2 where "s2 = update_contact r (SetIPAddress ip) s1"
    have ip2: "ip_of s2 q = (if q = r then ip else ip_of s q)" for q
      using new by (simp add: s2_def s1_def SetIPAddress_def SetIPVerified_def)
    have "kad_inv s1 (E - {r})" unfolding s1_def using k rE by (rule kad_inv_remove)
    moreover have "kad_inv s2 (E - {r}) = kad_inv s1 (E - {r})"
      by (rule kad_inv_cong) (simp_all add: s2_def)
    ultimately have k2: "kad_inv s2 (E - {r})" by simp
    have by2: "by_ip s2 (E - {r}) j = by_ip s E j - {r}" "by_net s2 (E - {r}) n = by_net s E n - {r}" for j n
      by (auto simp: by_ip_def by_net_def ip2)
    have tr: "unat (tracked (s_globalContactIPs s) ip) = card (by_ip s E ip)"
      "unat (tracked (s_globalContactSubnets s) (subnet ip)) = card (by_net s E (subnet ip))"
      using k by (simp_all add: kad_inv_def track_ok_def)
    have "card (by_ip s E ip) = 0" using free unfolding MAX_CONTACTS_IP_def word_le_nat_alt tr by simp
    then have c1: "card (by_ip s2 (E - {r}) ip) = 0" using fin by (simp add: by2)
    have c2: "IsLanIP (swap32 ip) \<or> card (by_net s2 (E - {r}) (subnet ip)) < 10"
    proof (cases ?far)
      case True
      then have "card (by_net s E (subnet ip)) < 10 \<or> IsLanIP (swap32 ip)"
        using net unfolding MAX_CONTACTS_SUBNET_def word_le_nat_alt tr by auto
      then show ?thesis unfolding by2 using fin by (meson card_Diff1_le finite_by(2) le_less_trans)
    next
      case False
      then have "r \<in> by_net s E (subnet ip)" using rE by (simp add: by_net_def)
      moreover have "IsLanIP (swap32 ip) \<or> card (by_net s E (subnet ip)) \<le> 10"
        using k by (auto simp: kad_inv_def limits_ok_def)
      ultimately show ?thesis unfolding by2 using fin by (auto simp: card_gt_0_iff)
    qed
    have "kad_inv (AdjustGlobalTracking (ip_of s2 r) True s2) (insert r (E - {r}))"
      using k2 by (rule kad_inv_add) (use c1 c2 ip2 in auto)
    then have ks: "kad_inv s' E" using rE ip2 by (simp add: s' s2_def s1_def insert_absorb)
    have ips: "ip_of s' q = (if q = r then ip else ip_of s q)" for q
      using ip2 by (simp add: s' s2_def s1_def)
    have ids: "m_clientID (heap s' q) = m_clientID (heap s q)" for q
      by (simp add: s' contact_updates)
    have "net_count s' b (subnet j) \<le> 2" if j: "\<not> IsLanIP (swap32 j)" for j
    proof (cases "?far \<and> subnet ip = subnet j")
      case True
      then have "\<not> IsLanIP (swap32 ip)" using j IsLanIP_subnet [of ip j] by (simp add: subnet_def)
      then have few: "length (filter (\<lambda>q. subnet ip = subnet (ip_of s q)) b) < 2" using True cnt by auto
      have d: "distinct b" using ok by (rule bin_ok_distinct)
      have "net_count s' b (subnet j) = card {q \<in> set b. subnet (ip_of s' q) = subnet j}"
        unfolding net_count_def using d distinct_card [of "filter (\<lambda>q. subnet (ip_of s' q) = subnet j) b"]
        by (simp del: set_filter add: set_filter)
      also have "\<dots> \<le> card (insert r {q \<in> set b. subnet ip = subnet (ip_of s q)})"
        using True by (intro card_mono) (auto simp: ips split: if_splits)
      also have "\<dots> \<le> Suc (card {q \<in> set b. subnet ip = subnet (ip_of s q)})" by (simp add: card_insert_le_m1 card_insert_if)
      also have "card {q \<in> set b. subnet ip = subnet (ip_of s q)} = length (filter (\<lambda>q. subnet ip = subnet (ip_of s q)) b)"
        using d distinct_card [of "filter (\<lambda>q. subnet ip = subnet (ip_of s q)) b"] by simp
      finally show ?thesis using few by simp
    next
      case False
      have "filter (\<lambda>q. subnet (ip_of s' q) = subnet j) b = filter (\<lambda>q. q \<in> set (filter (\<lambda>q. subnet (ip_of s' q) = subnet j) b)) (filter (\<lambda>q. subnet (ip_of s q) = subnet j) b)"
        using False by (auto simp: ips intro!: filter_cong)
      then have "net_count s' b (subnet j) \<le> net_count s b (subnet j)"
        unfolding net_count_def by (metis length_filter_le)
      then show ?thesis using ok j unfolding bin_ok_def by (meson le_trans)
    qed
    then have "bin_ok s' b" using ok unfolding bin_ok_def by (simp only: ids simp_thms) blast
    moreover have "frame {r} s s'"
      using r by (simp add: frame_def s' contact_updates)
    ultimately show ?thesis using ks sub by (simp add: bin_inv_def)
  qed (use inv in simp)
  then show "bin_inv s' E b" "frame {r} s s'" by blast+
qed

end
