(* ===== verification/Routing_Zone.thy ===== *)
theory Routing_Zone
  imports Routing_Bin
begin

text \<open>
  The Kademlia routing table: \<open>CRoutingZone\<close> (\<open>src/src/kademlia/routing/RoutingZone.cpp\<close>, \<open>.h\<close>), a
  binary tree over the bits of the XOR distance to the own identifier, with a bin in every leaf. Timers
  and the files of the table are not part of the model; the messages that \<open>OnSmallTimer\<close> sends are its
  result. The build option \<open>ENABLE_KAD_NODE_PROTECTION\<close> is off, as it is by default.
\<close>

section \<open>The tree\<close>

datatype CRoutingZone =
    Leaf (m_level: nat) (m_zoneIndex: CUInt128) bin
  | Node (m_level: nat) (m_zoneIndex: CUInt128) CRoutingZone CRoutingZone

definition KBASE :: nat where "KBASE = 4"

definition KK :: uint32 where "KK = 5"

definition new_zone :: "nat \<Rightarrow> CUInt128 \<Rightarrow> CRoutingZone" where
  "new_zone lvl zone_index = Leaf lvl zone_index []"

definition root_zone :: CRoutingZone where
  "root_zone = new_zone 0 (SetValue32 0)"

definition GenSubZone :: "nat \<Rightarrow> CUInt128 \<Rightarrow> uint32 \<Rightarrow> CRoutingZone" where
  "GenSubZone lvl zone_index side = new_zone (lvl + 1) (Add32 (ShiftLeft zone_index 1) side)"

fun IsLeaf :: "CRoutingZone \<Rightarrow> bool" where
  "IsLeaf (Leaf _ _ _) = True"
| "IsLeaf (Node _ _ _ _) = False"

definition CanSplit :: "nat \<Rightarrow> CUInt128 \<Rightarrow> bin \<Rightarrow> bool" where
  "CanSplit lvl zone_index b =
     (if 127 \<le> lvl then False
      else (CompareTo32 zone_index KK < 0 \<or> lvl < KBASE) \<and> length b = K)"

text \<open>The side of a contact: bit \<open>m_level\<close> of its distance, as an index of \<open>m_subZones\<close>.\<close>

definition side :: "kad \<Rightarrow> nat \<Rightarrow> nat \<Rightarrow> bool" where
  "side s r lvl \<longleftrightarrow> GetBitNumber (m_distance (heap s r)) lvl \<noteq> 0"

fun zone_entries :: "CRoutingZone \<Rightarrow> bin" where
  "zone_entries (Leaf _ _ b) = b"
| "zone_entries (Node _ _ z0 z1) = zone_entries z0 @ zone_entries z1"

section \<open>Splitting and merging\<close>

definition split_entry :: "nat \<Rightarrow> nat \<Rightarrow> (bin \<times> bin) \<times> kad \<Rightarrow> (bin \<times> bin) \<times> kad" where
  "split_entry lvl r st =
     (let (bins, s) = st; (b0, b1) = bins in
      if side s r lvl
      then (let (ok, b1', s') = AddContact r b1 s in ((b0, b1'), if ok then s' else delete_contact r s'))
      else (let (ok, b0', s') = AddContact r b0 s in ((b0', b1), if ok then s' else delete_contact r s')))"

fun set_bin :: "bin \<Rightarrow> CRoutingZone \<Rightarrow> CRoutingZone" where
  "set_bin b (Leaf l i _) = Leaf l i b"
| "set_bin b (Node l i z0 z1) = Node l i z0 z1"

definition Split :: "nat \<Rightarrow> CUInt128 \<Rightarrow> bin \<Rightarrow> kad \<Rightarrow> CRoutingZone \<times> CRoutingZone \<times> kad" where
  "Split lvl zone_index b s =
     (let s = dispose_bin True b s;
          ((b0, b1), s) = fold (split_entry lvl) b (([], []), s)
      in (set_bin b0 (GenSubZone lvl zone_index 0), set_bin b1 (GenSubZone lvl zone_index 1), s))"

definition merge_entry :: "nat \<Rightarrow> bin \<times> kad \<Rightarrow> bin \<times> kad" where
  "merge_entry r bs = snd (AddContact r (fst bs) (snd bs))"

fun zone_GetNumContacts :: "CRoutingZone \<Rightarrow> nat" where
  "zone_GetNumContacts (Leaf _ _ b) = length b"
| "zone_GetNumContacts (Node _ _ z0 z1) = zone_GetNumContacts z0 + zone_GetNumContacts z1"

fun Consolidate :: "CRoutingZone \<Rightarrow> kad \<Rightarrow> nat \<times> CRoutingZone \<times> kad" where
  "Consolidate (Leaf l i b) s = (0, Leaf l i b, s)"
| "Consolidate (Node l i z0 z1) s =
     (let (n0, z0, s) = (if \<not> IsLeaf z0 then Consolidate z0 s else (0, z0, s));
          (n1, z1, s) = (if \<not> IsLeaf z1 then Consolidate z1 s else (0, z1, s))
      in case (z0, z1) of
           (Leaf _ _ list0, Leaf _ _ list1) \<Rightarrow>
             if length list0 + length list1 < K div 2 then
               (let s = dispose_bin True list0 s;
                    s = dispose_bin True list1 s;
                    (b, s) = fold merge_entry list0 ([], s);
                    (b, s) = fold merge_entry list1 (b, s)
                in (n0 + n1 + 1, Leaf l i b, s))
             else (n0 + n1, Node l i z0 z1, s)
         | _ \<Rightarrow> (n0 + n1, Node l i z0 z1, s))"

section \<open>Adding a contact\<close>

text \<open>What happens to a known contact: \<open>r\<close> is the new one, \<open>old\<close> the one in the bin.\<close>

definition update_known ::
  "uint32 \<Rightarrow> int \<Rightarrow> nat \<Rightarrow> nat \<Rightarrow> bool \<Rightarrow> bool \<Rightarrow> bin \<Rightarrow> kad \<Rightarrow> bool \<times> bool \<times> bin \<times> kad" where
  "update_known myIP now r old update outIpVerified b s =
     (let c = heap s r; u = heap s old in
      if \<not> update then (update, outIpVerified, b, s)
      else if GetKeyValue (m_udpKey u) myIP \<noteq> 0 \<and> GetKeyValue (m_udpKey u) myIP \<noteq> GetKeyValue (m_udpKey c) myIP
      then (False, outIpVerified, b, s)
      else if 1 \<le> m_version u \<and> m_version u < 6 \<and> m_receivedHelloPacket u then
        (if m_ip u = m_ip c \<and> m_tcpPort u = m_tcpPort c \<and> m_version u = m_version c \<and> m_udpPort u = m_udpPort c
         then (let (b, s) = SetAlive now old b s in (update, m_ipVerified u, b, s))
         else (False, outIpVerified, b, s))
      else
        (let (allowed, s) = ChangeContactIPAddress old (m_ip c) b s in
         if allowed \<and> m_version u \<le> m_version c then
           (let s = update_contact old (\<lambda>u. u\<lparr>m_udpPort := m_udpPort c, m_tcpPort := m_tcpPort c,
                      m_version := m_version c, m_udpKey := m_udpKey c\<rparr>) s;
                s = (if \<not> m_ipVerified (heap s old)
                     then update_contact old (SetIPVerified (m_ipVerified c)) s else s);
                verified = m_ipVerified (heap s old);
                (b, s) = SetAlive now old b s;
                s = (if m_receivedHelloPacket c
                     then update_contact old (\<lambda>u. u\<lparr>m_receivedHelloPacket := True\<rparr>) s else s)
            in (update, verified, b, s))
         else (False, outIpVerified, b, s)))"

fun zone_measure :: "CRoutingZone \<Rightarrow> nat" where
  "zone_measure (Leaf l _ _) = 128 - l"
| "zone_measure (Node _ _ z0 z1) = zone_measure z0 + zone_measure z1 + 1"

function zone_Add ::
  "uint32 \<Rightarrow> int \<Rightarrow> nat \<Rightarrow> bool \<Rightarrow> bool \<Rightarrow> CRoutingZone \<Rightarrow> kad \<Rightarrow> bool \<times> bool \<times> bool \<times> CRoutingZone \<times> kad" where
  "zone_Add myIP now r update outIpVerified (Node l i z0 z1) s =
     (if side s r l
      then (let (ret, up, v, z1', s') = zone_Add myIP now r update outIpVerified z1 s
            in (ret, up, v, Node l i z0 z1', s'))
      else (let (ret, up, v, z0', s') = zone_Add myIP now r update outIpVerified z0 s
            in (ret, up, v, Node l i z0' z1, s')))"
| "zone_Add myIP now r update outIpVerified (Leaf l i b) s =
     (case GetContact (heap s) (m_clientID (heap s r)) b of
        Some old \<Rightarrow>
          (let (up, v, b', s') = update_known myIP now r old update outIpVerified b s
           in (False, up, v, Leaf l i b', s'))
      | None \<Rightarrow>
          if K - length b \<noteq> 0 then
            (let (ret, b', s') = AddContact r b s in (ret, False, outIpVerified, Leaf l i b', s'))
          else if CanSplit l i b then
            (case Split l i b s of (z0, z1, s) \<Rightarrow>
              if side s r l
              then (let (ret, up, v, z1', s') = zone_Add myIP now r update outIpVerified z1 s
                    in (ret, up, v, Node l i z0 z1', s'))
              else (let (ret, up, v, z0', s') = zone_Add myIP now r update outIpVerified z0 s
                    in (ret, up, v, Node l i z0' z1, s')))
          else (False, False, outIpVerified, Leaf l i b, s))"
  by pat_completeness auto

termination
  by (relation "measure (\<lambda>(_, _, _, _, _, z, _). zone_measure z)") (auto simp: CanSplit_def Split_def GenSubZone_def new_zone_def split: if_splits prod.splits)

declare zone_Add.simps [simp del]

definition AddUnfiltered ::
  "CUInt128 \<Rightarrow> uint32 \<Rightarrow> int \<Rightarrow> CUInt128 \<Rightarrow> uint32 \<Rightarrow> uint16 \<Rightarrow> uint16 \<Rightarrow> nat \<Rightarrow> CKadUDPKey \<Rightarrow> bool \<Rightarrow> bool \<Rightarrow> bool \<Rightarrow>
   CRoutingZone \<Rightarrow> kad \<Rightarrow> bool \<times> bool \<times> CRoutingZone \<times> kad" where
  "AddUnfiltered me myIP now ident ip port tport version key ipVerified update fromHello z s =
     (if ident = me then (False, ipVerified, z, s)
      else
        (let c = new_contact ident ip port tport version key ipVerified me now;
             c = (if fromHello then c\<lparr>m_receivedHelloPacket := True\<rparr> else c);
             r = next_ref s;
             s = s\<lparr>heap := (heap s)(r := c), next_ref := r + 1\<rparr>;
             (ret, up, v, z, s) = zone_Add myIP now r update ipVerified z s
         in if ret then (True, v, z, s) else (up, v, z, delete_contact r s)))"

text \<open>\<open>filtered\<close> is the answer of the IP filter.\<close>

definition Add_filtered ::
  "CUInt128 \<Rightarrow> uint32 \<Rightarrow> int \<Rightarrow> (uint32 \<Rightarrow> bool) \<Rightarrow> CUInt128 \<Rightarrow> uint32 \<Rightarrow> uint16 \<Rightarrow> uint16 \<Rightarrow> nat \<Rightarrow> CKadUDPKey \<Rightarrow>
   bool \<Rightarrow> bool \<Rightarrow> bool \<Rightarrow> CRoutingZone \<Rightarrow> kad \<Rightarrow> bool \<times> bool \<times> CRoutingZone \<times> kad" where
  "Add_filtered me myIP now filtered ident ip port tport version key ipVerified update fromHello z s =
     (if IsGoodIPPort (swap32 ip) port \<and> \<not> filtered (swap32 ip) \<and> \<not> (port = 53 \<and> version \<le> 5)
      then AddUnfiltered me myIP now ident ip port tport version key ipVerified update fromHello z s
      else (False, ipVerified, z, s))"

section \<open>Known contacts\<close>

lemma update_known_inv:
  assumes inv: "bin_inv s E b" and old: "old \<in> set b"
    and step: "update_known myIP now r old update v b s = (up, v', b', s')"
  shows "bin_inv s' E b' \<and> mset b' = mset b \<and> frame (same_id s old b) s s'"
proof -
  let ?X = "same_id s old b"
  have X: "old \<in> ?X" using old by (simp add: same_id_def)
  have Xeq: "frame ?X s t \<Longrightarrow> same_id t old b = ?X" for t by (auto simp: same_id_def frame_def)
  let ?c = "heap s r" and ?u = "heap s old"
  consider (same) "b' = b" "s' = s"
    | (alive) "SetAlive now old b s = (b', s')"
    | (moved) ok where "ChangeContactIPAddress old (m_ip ?c) b s = (ok, s')" "b' = b"
    | (full) s1 s2 s3 where "ChangeContactIPAddress old (m_ip ?c) b s = (True, s1)"
        "s2 = update_contact old (\<lambda>u. u\<lparr>m_udpPort := m_udpPort ?c, m_tcpPort := m_tcpPort ?c,
                 m_version := m_version ?c, m_udpKey := m_udpKey ?c\<rparr>) s1 \<or>
         s2 = update_contact old (SetIPVerified (m_ipVerified ?c)) (update_contact old (\<lambda>u. u\<lparr>m_udpPort := m_udpPort ?c, m_tcpPort := m_tcpPort ?c,
                 m_version := m_version ?c, m_udpKey := m_udpKey ?c\<rparr>) s1)"
        "SetAlive now old b s2 = (b', s3)"
        "s' = s3 \<or> s' = update_contact old (\<lambda>u. u\<lparr>m_receivedHelloPacket := True\<rparr>) s3"
  proof -
    note cases = that
    obtain ok s1 where ch: "ChangeContactIPAddress old (m_ip ?c) b s = (ok, s1)" by fastforce
    define s2 where "s2 = update_contact old (\<lambda>u. u\<lparr>m_udpPort := m_udpPort ?c, m_tcpPort := m_tcpPort ?c,
                      m_version := m_version ?c, m_udpKey := m_udpKey ?c\<rparr>) s1"
    define s3 where "s3 = (if \<not> m_ipVerified (heap s2 old) then update_contact old (SetIPVerified (m_ipVerified ?c)) s2 else s2)"
    obtain b4 s4 where al: "SetAlive now old b s3 = (b4, s4)" by fastforce
    obtain b5 s5 where al0: "SetAlive now old b s = (b5, s5)" by fastforce
    have 1: thesis if "s' = s" "b' = b" using that cases(1) by blast
    have 2: thesis if "s' = s5" "b' = b5" using that al0 cases(2) by blast
    have 3: thesis if "s' = s1" "b' = b" using that ch cases(3) by blast
    have 4: thesis if "ok" "b' = b4" "s' = s4 \<or> s' = update_contact old (\<lambda>u. u\<lparr>m_receivedHelloPacket := True\<rparr>) s4"
      using cases(4) [of s1 s3 s4] that ch al by (auto simp: s3_def s2_def)
    show ?thesis
      using step
      unfolding update_known_def Let_def ch prod.case s2_def [symmetric] s3_def [symmetric] al al0
      by (auto split: if_split_asm intro: 1 2 3 4)
  qed
  then show ?thesis
  proof cases
    case same
    then show ?thesis using inv by simp
  next
    case alive
    then show ?thesis using SetAlive_inv [OF inv] by blast
  next
    case moved
    then show ?thesis using ChangeContactIPAddress_inv [OF inv old] X frame_mono [of "{old}" s s' ?X] by auto
  next
    case full
    have 1: "bin_inv s1 E b" "frame ?X s s1"
      using ChangeContactIPAddress_inv [OF inv old full(1)] X frame_mono [of "{old}" s s1 ?X] by auto
    have 2: "bin_inv s2 E b \<and> frame ?X s1 s2"
      using full(2) X 1(1)
      by (elim disjE) (auto intro!: bin_inv_update frame_update frame_trans [OF frame_update frame_update])
    have 3: "bin_inv s3 E b'" "mset b' = mset b" "frame ?X s2 s3"
      using SetAlive_inv [OF conjunct1 [OF 2] full(3)] Xeq [OF frame_trans [OF 1(2) conjunct2 [OF 2]]] by simp_all
    have 4: "bin_inv s' E b' \<and> frame ?X s3 s'"
      using full(4) X 3(1) by (elim disjE) (auto intro!: bin_inv_update frame_update)
    show ?thesis using 1 2 3 4 by (meson frame_trans)
  qed
qed

section \<open>The invariant of the tree\<close>

definition sub_index :: "CUInt128 \<Rightarrow> uint32 \<Rightarrow> CUInt128" where
  "sub_index zone_index b = Add32 (ShiftLeft zone_index 1) b"

fun zone_ok :: "kad \<Rightarrow> CRoutingZone \<Rightarrow> bool" where
  "zone_ok s (Leaf l i b) \<longleftrightarrow> l \<le> 127 \<and> bin_ok s b"
| "zone_ok s (Node l i z0 z1) \<longleftrightarrow>
     m_level z0 = l + 1 \<and> m_level z1 = l + 1 \<and> m_zoneIndex z0 = sub_index i 0 \<and> m_zoneIndex z1 = sub_index i 1 \<and>
     (\<forall>r \<in> set (zone_entries z0). \<not> side s r l) \<and> (\<forall>r \<in> set (zone_entries z1). side s r l) \<and>
     zone_ok s z0 \<and> zone_ok s z1"

definition tree_inv :: "kad \<Rightarrow> nat set \<Rightarrow> CRoutingZone \<Rightarrow> bool" where
  "tree_inv s E z \<longleftrightarrow> kad_inv s E \<and> set (zone_entries z) \<subseteq> E \<and> distinct (zone_entries z) \<and> zone_ok s z"

lemma zone_ok_level: "zone_ok s z \<Longrightarrow> m_level z \<le> 127"
proof (induction z)
  case (Node l i z0 z1)
  then show ?case by simp
qed simp

lemma side_frame: "frame X s s' \<Longrightarrow> side s' r l = side s r l"
  by (simp add: side_def frame_def)

lemma zone_ok_frame:
  assumes "frame X s s'" and "\<And>r. r \<in> set (zone_entries z) \<Longrightarrow> ip_of s' r = ip_of s r"
  shows "zone_ok s' z = zone_ok s z"
  using assms(2)
proof (induction z)
  case (Leaf l i b)
  then have "bin_ok s' b = bin_ok s b" using assms(1) by (intro bin_ok_cong) (simp add: frame_def)
  then show ?case by simp
next
  case (Node l i z0 z1)
  then show ?case by (auto simp: side_frame [OF assms(1)])
qed

lemma bin_ok_append: "bin_ok s (b @ c) \<Longrightarrow> bin_ok s b"
  unfolding bin_ok_def net_count_def by (auto intro: add_leD1)

lemma limits_heap: "heap s' = heap s \<Longrightarrow> limits_ok s' E = limits_ok s E"
  by (simp add: limits_ok_def by_ip_def by_net_def)

lemma bin_ok_heap: "heap s' = heap s \<Longrightarrow> bin_ok s' b = bin_ok s b"
  by (rule bin_ok_cong) simp

lemma side_heap: "heap s' = heap s \<Longrightarrow> side s' r l = side s r l"
  by (simp add: side_def)

lemma frame_heap: "heap s' = heap s \<Longrightarrow> deleted s' = deleted s \<Longrightarrow> next_ref s' = next_ref s \<Longrightarrow> frame X s s'"
  by (simp add: frame_def)

text \<open>Splitting takes every contact to its side, and none is refused.\<close>

lemma split_fold:
  assumes "bin_ok s (ds @ rs)" and "limits_ok s E" and "finite E" and "set (ds @ rs) \<subseteq> E"
    and "kad_inv s (E - set rs)"
  shows "\<exists>s'. fold (split_entry l) rs ((filter (\<lambda>r. \<not> side s r l) ds, filter (\<lambda>r. side s r l) ds), s) =
      ((filter (\<lambda>r. \<not> side s r l) (ds @ rs), filter (\<lambda>r. side s r l) (ds @ rs)), s') \<and>
    kad_inv s' E \<and> heap s' = heap s \<and> deleted s' = deleted s \<and> next_ref s' = next_ref s"
  using assms
proof (induction rs arbitrary: ds s)
  case Nil
  then show ?case by simp
next
  case (Cons r rs)
  let ?b = "filter (\<lambda>q. side s q l = side s r l) ds"
  let ?s = "AdjustGlobalTracking (ip_of s r) True s"
  have d: "distinct (ds @ r # rs)" using Cons.prems(1) by (rule bin_ok_distinct)
  have "bin_ok s (filter (\<lambda>q. side s q l = side s r l) (ds @ [r]))"
    using Cons.prems(1) bin_ok_append [of s "ds @ [r]" rs] by (intro filter_bin_ok) simp
  then have ok: "bin_ok s (?b @ [r])" by simp
  have "limits_ok s (insert r (E - set (r # rs)))"
    using Cons.prems by (intro limits_mono [OF Cons.prems(2)]) auto
  moreover have new: "r \<notin> E - set (r # rs)" and sub: "set ?b \<subseteq> E - set (r # rs)" using Cons.prems(4) d by auto
  ultimately obtain s' where add: "AddContact r ?b s = (True, ?b @ [r], s')"
    using AddContact_fits [OF Cons.prems(5) new _ ok sub] by blast
  note s' = AddContact_ok(2,3) [OF Cons.prems(5) new bin_ok_append [OF ok] sub add]
  have step: "split_entry l r ((filter (\<lambda>r. \<not> side s r l) ds, filter (\<lambda>r. side s r l) ds), s) =
      ((filter (\<lambda>r. \<not> side s r l) (ds @ [r]), filter (\<lambda>r. side s r l) (ds @ [r])), ?s)"
    using add s'(1) by (cases "side s r l") (simp_all add: split_entry_def Let_def)
  have "insert r (E - set (r # rs)) = E - set rs" using Cons.prems(4) d by auto
  then have k: "kad_inv ?s (E - set rs)" using s' by simp
  have h: "heap ?s = heap s" by simp
  have "\<exists>s'. fold (split_entry l) rs ((filter (\<lambda>r. \<not> side ?s r l) (ds @ [r]), filter (\<lambda>r. side ?s r l) (ds @ [r])), ?s) =
      ((filter (\<lambda>r. \<not> side ?s r l) ((ds @ [r]) @ rs), filter (\<lambda>r. side ?s r l) ((ds @ [r]) @ rs)), s') \<and>
    kad_inv s' E \<and> heap s' = heap ?s \<and> deleted s' = deleted ?s \<and> next_ref s' = next_ref ?s"
    using Cons.prems k by (intro Cons.IH) (simp_all add: limits_heap [OF h] bin_ok_heap [OF h])
  then show ?case by (simp add: step side_heap [OF h])
qed

lemma Split_eq:
  assumes inv: "bin_inv s E b"
  shows "\<exists>s'. Split l i b s =
      (Leaf (l + 1) (sub_index i 0) (filter (\<lambda>r. \<not> side s r l) b),
       Leaf (l + 1) (sub_index i 1) (filter (\<lambda>r. side s r l) b), s') \<and>
    kad_inv s' E \<and> heap s' = heap s \<and> deleted s' = deleted s \<and> next_ref s' = next_ref s"
proof -
  have k: "kad_inv s E" and sub: "set b \<subseteq> E" and ok: "bin_ok s b" using inv by (simp_all add: bin_inv_def)
  let ?s = "dispose_bin True b s"
  have 1: "kad_inv ?s (E - set b)" and h: "heap ?s = heap s" and r: "deleted ?s = deleted s" "next_ref ?s = next_ref s"
    using dispose_bin_True [OF k bin_ok_distinct [OF ok] sub] by simp_all
  have "\<exists>s'. fold (split_entry l) b ((filter (\<lambda>r. \<not> side ?s r l) [], filter (\<lambda>r. side ?s r l) []), ?s) =
      ((filter (\<lambda>r. \<not> side ?s r l) ([] @ b), filter (\<lambda>r. side ?s r l) ([] @ b)), s') \<and>
    kad_inv s' E \<and> heap s' = heap ?s \<and> deleted s' = deleted ?s \<and> next_ref s' = next_ref ?s"
    using 1 k ok sub by (intro split_fold) (simp_all add: limits_heap [OF h] bin_ok_heap [OF h] kad_inv_def)
  then show ?thesis
    by (auto simp: Split_def Let_def GenSubZone_def new_zone_def sub_index_def h r side_heap [OF h])
qed

lemma Split_inv:
  assumes inv: "bin_inv s E b" and l: "l < 127" and step: "Split l i b s = (z0, z1, s')"
  shows "tree_inv s' E (Node l i z0 z1)" and "heap s' = heap s" and "deleted s' = deleted s" and "next_ref s' = next_ref s"
    and "set (zone_entries (Node l i z0 z1)) = set b"
proof -
  from Split_eq [OF inv, of l i] step
  have z: "z0 = Leaf (l + 1) (sub_index i 0) (filter (\<lambda>r. \<not> side s r l) b)"
      "z1 = Leaf (l + 1) (sub_index i 1) (filter (\<lambda>r. side s r l) b)" and k: "kad_inv s' E"
    and h: "heap s' = heap s" "deleted s' = deleted s" "next_ref s' = next_ref s"
    by auto
  from h show "heap s' = heap s" "deleted s' = deleted s" "next_ref s' = next_ref s" by auto
  show "set (zone_entries (Node l i z0 z1)) = set b" by (auto simp: z)
  have ok: "bin_ok s b" "set b \<subseteq> E" using inv by (simp_all add: bin_inv_def)
  show "tree_inv s' E (Node l i z0 z1)"
    using k l ok(2) bin_ok_distinct [OF ok(1)] filter_bin_ok [OF ok(1)]
    by (auto simp: tree_inv_def z bin_ok_heap [OF h(1)] side_heap [OF h(1)])
qed

section \<open>Adding keeps the invariant\<close>

lemma tree_inv_Leaf: "tree_inv s E (Leaf l i b) \<longleftrightarrow> bin_inv s E b \<and> l \<le> 127"
  by (auto simp: tree_inv_def bin_inv_def intro: bin_ok_distinct)

lemma zone_Add_split:
  assumes "GetContact (heap s) (m_clientID (heap s r)) b = None" and "\<not> K - length b \<noteq> 0" and "CanSplit l i b"
    and "Split l i b s = (z0, z1, t)"
  shows "zone_Add myIP now r update v (Leaf l i b) s = zone_Add myIP now r update v (Node l i z0 z1) t"
  unfolding zone_Add.simps assms(1,4) using assms(2,3) by simp

text \<open>One side of a node changes; the other is not touched by its frame.\<close>

lemma tree_inv_child:
  assumes inv: "tree_inv s E (Node l i z0 z1)"
    and new: "tree_inv s' E' z1'" and sub: "E \<subseteq> E'" and fr: "frame (set (zone_entries z1)) s s'"
    and set: "set (zone_entries z1') = set (zone_entries z1) \<union> R"
    and R: "\<And>r. r \<in> R \<Longrightarrow> side s r l \<and> r \<notin> E"
    and root: "m_level z1' = m_level z1" "m_zoneIndex z1' = m_zoneIndex z1"
  shows "tree_inv s' E' (Node l i z0 z1')"
proof -
  have d: "set (zone_entries z0) \<inter> set (zone_entries z1) = {}" and e: "set (zone_entries z0) \<subseteq> E" "set (zone_entries z1) \<subseteq> E"
    using inv by (auto simp: tree_inv_def)
  have "zone_ok s' z0 = zone_ok s z0"
    by (rule zone_ok_frame [OF fr]) (use d fr in \<open>auto simp: frame_def\<close>)
  then show ?thesis
    using inv new sub d e root R by (auto simp: tree_inv_def set side_frame [OF fr] dest: R)
qed

lemma tree_inv_child0:
  assumes inv: "tree_inv s E (Node l i z0 z1)"
    and new: "tree_inv s' E' z0'" and sub: "E \<subseteq> E'" and fr: "frame (set (zone_entries z0)) s s'"
    and set: "set (zone_entries z0') = set (zone_entries z0) \<union> R"
    and R: "\<And>r. r \<in> R \<Longrightarrow> \<not> side s r l \<and> r \<notin> E"
    and root: "m_level z0' = m_level z0" "m_zoneIndex z0' = m_zoneIndex z0"
  shows "tree_inv s' E' (Node l i z0' z1)"
proof -
  have d: "set (zone_entries z0) \<inter> set (zone_entries z1) = {}" and e: "set (zone_entries z0) \<subseteq> E" "set (zone_entries z1) \<subseteq> E"
    using inv by (auto simp: tree_inv_def)
  have "zone_ok s' z1 = zone_ok s z1"
    by (rule zone_ok_frame [OF fr]) (use d fr in \<open>auto simp: frame_def\<close>)
  then show ?thesis
    using inv new sub d e root R by (auto simp: tree_inv_def set side_frame [OF fr] dest: R)
qed

lemma tree_inv_children:
  "tree_inv s E (Node l i z0 z1) \<Longrightarrow> tree_inv s E z0 \<and> tree_inv s E z1"
  by (auto simp: tree_inv_def)

definition added :: "bool \<Rightarrow> nat \<Rightarrow> nat set" where
  "added ret r = (if ret then {r} else {})"

lemma added_iff [simp]: "q \<in> added ret r \<longleftrightarrow> ret \<and> q = r"
  by (simp add: added_def)

text \<open>What \<open>zone_Add\<close> promises: the invariant, the set of entries, and what it leaves alone.\<close>

definition add_post :: "kad \<Rightarrow> nat set \<Rightarrow> CRoutingZone \<Rightarrow> nat \<Rightarrow> bool \<Rightarrow> CRoutingZone \<Rightarrow> kad \<Rightarrow> bool" where
  "add_post s E z r ret z' s' \<longleftrightarrow>
     tree_inv s' (E \<union> added ret r) z' \<and> set (zone_entries z') = set (zone_entries z) \<union> added ret r \<and>
     frame (same_id s r (zone_entries z)) s s' \<and> m_level z' = m_level z \<and> m_zoneIndex z' = m_zoneIndex z"

lemma add_post_frame: "add_post s E z r ret z' s' \<Longrightarrow> frame (set (zone_entries z)) s s'"
  unfolding add_post_def by (auto simp: same_id_def intro: frame_mono)

lemma same_id_mono: "set b \<subseteq> set c \<Longrightarrow> same_id s r b \<subseteq> same_id s r c"
  by (auto simp: same_id_def)

lemma add_post_child:
  assumes inv: "tree_inv s E (Node l i z0 z1)" and r: "r \<notin> E" "side s r l" and post: "add_post s E z1 r ret z1' s'"
  shows "add_post s E (Node l i z0 z1) r ret (Node l i z0 z1') s'"
proof -
  have "tree_inv s' (E \<union> added ret r) (Node l i z0 z1')"
    using post r add_post_frame [OF post]
    by (intro tree_inv_child [OF inv, where R = "added ret r"]) (auto simp: add_post_def)
  then show ?thesis using post by (auto simp: add_post_def intro: frame_mono [OF _ same_id_mono])
qed

lemma add_post_child0:
  assumes inv: "tree_inv s E (Node l i z0 z1)" and r: "r \<notin> E" "\<not> side s r l" and post: "add_post s E z0 r ret z0' s'"
  shows "add_post s E (Node l i z0 z1) r ret (Node l i z0' z1) s'"
proof -
  have "tree_inv s' (E \<union> added ret r) (Node l i z0' z1)"
    using post r add_post_frame [OF post]
    by (intro tree_inv_child0 [OF inv, where R = "added ret r"]) (auto simp: add_post_def)
  then show ?thesis using post by (auto simp: add_post_def intro: frame_mono [OF _ same_id_mono])
qed

lemma AddContact_post:
  assumes inv: "bin_inv s E b" and r: "r \<notin> E" and l: "l \<le> 127" and step: "AddContact r b s = (ret, b', s')"
  shows "add_post s E (Leaf l i b) r ret (Leaf l i b') s'"
proof (cases ret)
  case False
  then show ?thesis using step inv l AddContact_fail [of r b s b' s']
    by (simp add: add_post_def added_def tree_inv_Leaf)
next
  case True
  then have add: "AddContact r b s = (True, b', s')" using step by simp
  have k: "kad_inv s E" "bin_ok s b" "set b \<subseteq> E" using inv by (simp_all add: bin_inv_def)
  note ok = AddContact_ok [OF k(1) r k(2,3) add]
  show ?thesis using ok k(3) l True by (auto simp: add_post_def added_def tree_inv_Leaf bin_inv_def)
qed

lemma zone_Add_post:
  assumes "tree_inv s E z" and "r \<notin> E" and "zone_Add myIP now r update v z s = (ret, up, v', z', s')"
  shows "add_post s E z r ret z' s'"
  using assms
proof (induction myIP now r update v z s arbitrary: ret up v' z' s' rule: zone_Add.induct)
  case (1 myIP now r update v l i z0 z1 s)
  note inv = 1(3)
  show ?case
  proof (cases "side s r l")
    case True
    then obtain z1' where z: "zone_Add myIP now r update v z1 s = (ret, up, v', z1', s')" "z' = Node l i z0 z1'"
      using 1(5) by (auto simp: zone_Add.simps split: prod.splits)
    have "add_post s E z1 r ret z1' s'" using 1(1) [OF True _ 1(4) z(1)] tree_inv_children [OF inv] by blast
    then show ?thesis using add_post_child [OF inv 1(4) True] z by simp
  next
    case False
    then obtain z0' where z: "zone_Add myIP now r update v z0 s = (ret, up, v', z0', s')" "z' = Node l i z0' z1"
      using 1(5) by (auto simp: zone_Add.simps split: prod.splits)
    have "add_post s E z0 r ret z0' s'" using 1(2) [OF False _ 1(4) z(1)] tree_inv_children [OF inv] by blast
    then show ?thesis using add_post_child0 [OF inv 1(4) False] z by simp
  qed
next
  case (2 myIP now r update v l i b s)
  have inv: "bin_inv s E b" and l: "l \<le> 127" using 2(3) by (simp_all add: tree_inv_Leaf)
  show ?case
  proof (cases "GetContact (heap s) (m_clientID (heap s r)) b")
    case (Some old)
    then have old: "old \<in> set b" and same: "same_id s old b = same_id s r b" by (auto simp: GetContact_def find_Some_iff same_id_def)
    obtain b' where z: "update_known myIP now r old update v b s = (up, v', b', s')" "z' = Leaf l i b'" "\<not> ret"
      using 2(5) by (auto simp: zone_Add.simps Some split: prod.splits)
    have "bin_inv s' E b' \<and> mset b' = mset b \<and> frame (same_id s old b) s s'" by (rule update_known_inv [OF inv old z(1)])
    then show ?thesis using z l mset_eq_setD same by (auto simp: add_post_def added_def tree_inv_Leaf)
  next
    case None
    note new = None
    show ?thesis
    proof (cases "K - length b \<noteq> 0")
      case True
      then obtain b' where "AddContact r b s = (ret, b', s')" "z' = Leaf l i b'"
        using 2(5) by (auto simp: zone_Add.simps None split: prod.splits)
      then show ?thesis using AddContact_post [OF inv 2(4) l] by simp
    next
      case full: False
      show ?thesis
      proof (cases "CanSplit l i b")
        case False
        then show ?thesis using 2(3,5) new full by (simp add: zone_Add.simps add_post_def added_def)
      next
        case can: True
        then have l': "l < 127" by (simp add: CanSplit_def split: if_splits)
        obtain z0 z1 t where sp: "Split l i b s = (z0, z1, t)" by (cases "Split l i b s")
        note S = Split_inv [OF inv l' sp]
        have fr: "frame X s t" for X using S(2,3,4) by (rule frame_heap)
        have post: "add_post t E (Node l i z0 z1) r ret z' s' \<Longrightarrow> add_post s E (Leaf l i b) r ret z' s'"
          using S(5) frame_trans [OF fr] unfolding add_post_def same_id_def S(5) S(2)
          by simp
        show ?thesis
        proof (cases "side t r l")
          case True
          then obtain z1' where z: "zone_Add myIP now r update v z1 t = (ret, up, v', z1', s')" "z' = Node l i z0 z1'"
            using 2(5) by (auto simp: zone_Add_split [OF new full can sp] zone_Add.simps(1) split: prod.splits)
          have "add_post t E z1 r ret z1' s'"
            using 2(1) [OF new _ can sp [symmetric] refl True _ 2(4) z(1)] full tree_inv_children [OF S(1)] by blast
          then show ?thesis using post add_post_child [OF S(1) 2(4) True] z by simp
        next
          case False
          then obtain z0' where z: "zone_Add myIP now r update v z0 t = (ret, up, v', z0', s')" "z' = Node l i z0' z1"
            using 2(5) by (auto simp: zone_Add_split [OF new full can sp] zone_Add.simps(1) split: prod.splits)
          have "add_post t E z0 r ret z0' s'"
            using 2(2) [OF new _ can sp [symmetric] refl False _ 2(4) z(1)] full tree_inv_children [OF S(1)] by blast
          then show ?thesis using post add_post_child0 [OF S(1) 2(4) False] z by simp
        qed
      qed
    qed
  qed
qed

end
