(* ===== verification/Routing_Table.thy ===== *)
theory Routing_Table
  imports Routing_Zone
begin

text \<open>
  The routing table as a whole: the queries and the periodic work of \<open>CRoutingZone\<close>
  (\<open>src/src/kademlia/routing/RoutingZone.cpp\<close>), the table's own invariant, and the transitions of a table
  that starts empty.
\<close>

section \<open>Queries\<close>

fun zone_GetContact :: "CUInt128 \<Rightarrow> (nat \<Rightarrow> CContact) \<Rightarrow> CUInt128 \<Rightarrow> CRoutingZone \<Rightarrow> nat option" where
  "zone_GetContact me h clientID (Leaf _ _ b) = GetContact h clientID b"
| "zone_GetContact me h clientID (Node l _ z0 z1) =
     (if GetBitNumber (XOR128 me clientID) l \<noteq> 0 then zone_GetContact me h clientID z1
      else zone_GetContact me h clientID z0)"

fun zone_GetContact_ip :: "(nat \<Rightarrow> CContact) \<Rightarrow> uint32 \<Rightarrow> uint16 \<Rightarrow> bool \<Rightarrow> CRoutingZone \<Rightarrow> nat option" where
  "zone_GetContact_ip h ip port tcpPort (Leaf _ _ b) = GetContact_ip h ip port tcpPort b"
| "zone_GetContact_ip h ip port tcpPort (Node _ _ z0 z1) =
     (case zone_GetContact_ip h ip port tcpPort z0 of
        Some r \<Rightarrow> Some r
      | None \<Rightarrow> zone_GetContact_ip h ip port tcpPort z1)"

text \<open>
  Every zone draws at most one random number in a call; \<open>random\<close> gives it by the zone's level and index.
\<close>

fun zone_GetRandomContact ::
  "(nat \<Rightarrow> CContact) \<Rightarrow> (nat \<Rightarrow> CUInt128 \<Rightarrow> uint16) \<Rightarrow> nat \<Rightarrow> nat \<Rightarrow> CRoutingZone \<Rightarrow> nat option" where
  "zone_GetRandomContact h random maxType minKadVersion (Leaf l i b) =
     GetRandomContact h (unat (random l i)) maxType minKadVersion b"
| "zone_GetRandomContact h random maxType minKadVersion (Node l i z0 z1) =
     (let first = zone_GetRandomContact h random maxType minKadVersion (if random l i AND 1 = 0 then z0 else z1);
          other = zone_GetRandomContact h random maxType minKadVersion (if random l i AND 1 = 0 then z1 else z0)
      in case first of Some r \<Rightarrow> Some r | None \<Rightarrow> other)"

fun zone_GetClosestTo ::
  "nat \<Rightarrow> CUInt128 \<Rightarrow> CUInt128 \<Rightarrow> nat \<Rightarrow> bool \<Rightarrow> bool \<Rightarrow> CRoutingZone \<Rightarrow> ContactMap \<Rightarrow> kad \<Rightarrow> ContactMap \<times> kad" where
  "zone_GetClosestTo maxType target distance maxRequired emptyFirst inUse (Leaf _ _ b) result s =
     GetClosestTo maxType target maxRequired emptyFirst inUse b result s"
| "zone_GetClosestTo maxType target distance maxRequired emptyFirst inUse (Node l _ z0 z1) result s =
     (let closer = GetBitNumber distance l \<noteq> 0;
          (result, s) = zone_GetClosestTo maxType target distance maxRequired emptyFirst inUse
            (if closer then z1 else z0) result s
      in if length result < maxRequired
         then zone_GetClosestTo maxType target distance maxRequired False inUse (if closer then z0 else z1) result s
         else (result, s))"

definition GetEntries :: "bin \<Rightarrow> bool \<Rightarrow> bin \<Rightarrow> bin" where
  "GetEntries b emptyFirst result = (if emptyFirst then [] else result) @ b"

fun GetAllEntries :: "CRoutingZone \<Rightarrow> bool \<Rightarrow> bin \<Rightarrow> bin" where
  "GetAllEntries (Leaf _ _ b) emptyFirst result = GetEntries b emptyFirst result"
| "GetAllEntries (Node _ _ z0 z1) emptyFirst result = GetAllEntries z1 False (GetAllEntries z0 emptyFirst result)"

fun RandomBin :: "(nat \<Rightarrow> CUInt128 \<Rightarrow> nat) \<Rightarrow> CRoutingZone \<Rightarrow> bool \<Rightarrow> bin \<Rightarrow> bin" where
  "RandomBin random (Leaf _ _ b) emptyFirst result = GetEntries b emptyFirst result"
| "RandomBin random (Node l i z0 z1) emptyFirst result =
     RandomBin random (if odd (random l i) then z1 else z0) emptyFirst result"

fun TopDepth :: "(nat \<Rightarrow> CUInt128 \<Rightarrow> nat) \<Rightarrow> CRoutingZone \<Rightarrow> int \<Rightarrow> bool \<Rightarrow> bin \<Rightarrow> bin" where
  "TopDepth random (Leaf _ _ b) depth emptyFirst result = GetEntries b emptyFirst result"
| "TopDepth random (Node l i z0 z1) depth emptyFirst result =
     (if depth \<le> 0 then RandomBin random (Node l i z0 z1) emptyFirst result
      else TopDepth random z1 (depth - 1) False (TopDepth random z0 (depth - 1) emptyFirst result))"

definition LOG_BASE_EXPONENT :: int where "LOG_BASE_EXPONENT = 5"

text \<open>The loop copies until \<open>count = maxRequired\<close>, which is tested after a contact was copied.\<close>

fun bootstrap_loop :: "nat \<Rightarrow> bin \<Rightarrow> nat \<Rightarrow> bin \<Rightarrow> nat \<times> bin" where
  "bootstrap_loop maxRequired [] n results = (n, results)"
| "bootstrap_loop maxRequired (r # rs) n results =
     (if n + 1 = maxRequired then (n + 1, results @ [r])
      else bootstrap_loop maxRequired rs (n + 1) (results @ [r]))"

definition GetBootstrapContacts :: "(nat \<Rightarrow> CUInt128 \<Rightarrow> nat) \<Rightarrow> CRoutingZone \<Rightarrow> nat \<Rightarrow> nat \<times> bin" where
  "GetBootstrapContacts random z maxRequired =
     bootstrap_loop maxRequired (TopDepth random z LOG_BASE_EXPONENT True []) 0 []"

fun GetMaxDepth :: "CRoutingZone \<Rightarrow> nat" where
  "GetMaxDepth (Leaf _ _ _) = 0"
| "GetMaxDepth (Node _ _ z0 z1) = 1 + max (GetMaxDepth z0) (GetMaxDepth z1)"

fun zone_GetNumContacts_min :: "(nat \<Rightarrow> CContact) \<Rightarrow> nat \<Rightarrow> CRoutingZone \<Rightarrow> nat \<times> nat \<Rightarrow> nat \<times> nat" where
  "zone_GetNumContacts_min h minVersion (Leaf _ _ b) ns = GetNumContacts h minVersion b ns"
| "zone_GetNumContacts_min h minVersion (Node _ _ z0 z1) ns =
     zone_GetNumContacts_min h minVersion z1 (zone_GetNumContacts_min h minVersion z0 ns)"

definition IsAcceptableContact :: "CUInt128 \<Rightarrow> kad \<Rightarrow> CRoutingZone \<Rightarrow> CContact \<Rightarrow> bool" where
  "IsAcceptableContact me s z toCheck =
     (if m_version toCheck \<le> 1 then False
      else case zone_GetContact me (heap s) (m_clientID toCheck) z of
        Some d \<Rightarrow>
          \<not> (m_ipVerified (heap s d) \<and> m_ip (heap s d) \<noteq> m_ip toCheck \<or> m_udpPort (heap s d) \<noteq> m_udpPort toCheck)
      | None \<Rightarrow> CheckGlobalIPLimits (m_ip toCheck) s)"

fun zone_HasOnlyLANNodes :: "(nat \<Rightarrow> CContact) \<Rightarrow> CRoutingZone \<Rightarrow> bool" where
  "zone_HasOnlyLANNodes h (Leaf _ _ b) = HasOnlyLANNodes h b"
| "zone_HasOnlyLANNodes h (Node _ _ z0 z1) \<longleftrightarrow> zone_HasOnlyLANNodes h z0 \<and> zone_HasOnlyLANNodes h z1"

section \<open>Changes\<close>

definition VerifyContact :: "CUInt128 \<Rightarrow> CUInt128 \<Rightarrow> uint32 \<Rightarrow> CRoutingZone \<Rightarrow> kad \<Rightarrow> bool \<times> kad" where
  "VerifyContact me clientID ip z s =
     (case zone_GetContact me (heap s) clientID z of
        None \<Rightarrow> (False, s)
      | Some r \<Rightarrow>
          if ip \<noteq> m_ip (heap s r) then (False, s)
          else (True, if m_ipVerified (heap s r) then s else update_contact r (SetIPVerified True) s))"

fun zone_SetAllContactsVerified :: "CRoutingZone \<Rightarrow> kad \<Rightarrow> kad" where
  "zone_SetAllContactsVerified (Leaf _ _ b) s = SetAllContactsVerified b s"
| "zone_SetAllContactsVerified (Node _ _ z0 z1) s = zone_SetAllContactsVerified z1 (zone_SetAllContactsVerified z0 s)"

text \<open>One round of the loop that removes dead entries.\<close>

definition sweep_entry :: "int \<Rightarrow> nat \<Rightarrow> bin \<times> kad \<Rightarrow> bin \<times> kad" where
  "sweep_entry now r bs =
     (let (b, s) = bs; c = heap s r in
      if m_type c = 4 \<and> m_expires c > 0 \<and> m_expires c \<le> now then
        (if \<not> InUse c
         then (let (b, s) = RemoveContact r False b s in (b, delete_contact r s))
         else (b, s))
      else if m_expires c = 0 then (b, update_contact r (\<lambda>c. c\<lparr>m_expires := now\<rparr>) s)
      else (b, s))"

text \<open>
  The hello that \<open>SendMyDetails\<close> gets: address, port, version, key and, where it is given, the identifier;
  the flag tells whether the two firewall statistics are counted.
\<close>

datatype hello_req = HelloReq uint32 uint16 nat CKadUDPKey "CUInt128 option" bool

definition hello_to :: "CContact \<Rightarrow> hello_req option" where
  "hello_to c =
     (if 6 \<le> m_version c then
        Some (HelloReq (m_ip c) (m_udpPort c) (m_version c) (m_udpKey c) (Some (m_clientID c)) (8 \<le> m_version c))
      else if 2 \<le> m_version c then
        Some (HelloReq (m_ip c) (m_udpPort c) (m_version c) \<lparr>m_key = 0, m_key_ip = 0\<rparr> None False)
      else None)"

definition OnSmallTimer :: "int \<Rightarrow> bin \<Rightarrow> kad \<Rightarrow> hello_req option \<times> bin \<times> kad" where
  "OnSmallTimer now b s =
     (let (b, s) = fold (sweep_entry now) b (b, s) in
      case GetOldest b of
        None \<Rightarrow> (None, b, s)
      | Some r \<Rightarrow>
          if now \<le> m_expires (heap s r) \<or> m_type (heap s r) = 4 then (None, PushToBottom r b, s)
          else (let s = update_contact r (CheckingType now) s in (hello_to (heap s r), b, s)))"

text \<open>The event queue calls \<open>OnSmallTimer\<close> of one leaf; \<open>path\<close> leads to it.\<close>

fun zone_OnSmallTimer :: "int \<Rightarrow> bool list \<Rightarrow> CRoutingZone \<Rightarrow> kad \<Rightarrow> hello_req option \<times> CRoutingZone \<times> kad" where
  "zone_OnSmallTimer now path (Leaf l i b) s =
     (let (m, b, s) = OnSmallTimer now b s in (m, Leaf l i b, s))"
| "zone_OnSmallTimer now [] (Node l i z0 z1) s = (None, Node l i z0 z1, s)"
| "zone_OnSmallTimer now (p # path) (Node l i z0 z1) s =
     (if p then (let (m, z1, s) = zone_OnSmallTimer now path z1 s in (m, Node l i z0 z1, s))
      else (let (m, z0, s) = zone_OnSmallTimer now path z0 s in (m, Node l i z0 z1, s)))"

definition RandomLookup :: "CUInt128 \<Rightarrow> CUInt128 \<Rightarrow> (nat \<Rightarrow> nat) \<Rightarrow> nat \<Rightarrow> CUInt128 \<Rightarrow> CUInt128" where
  "RandomLookup me junk rnd lvl zone_index =
     XOR128 (prefix128 junk rnd (ShiftLeft zone_index (128 - lvl)) lvl) me"

text \<open>\<open>K * 0.8\<close> is 8.\<close>

definition OnBigTimer :: "CUInt128 \<Rightarrow> CUInt128 \<Rightarrow> (nat \<Rightarrow> nat) \<Rightarrow> CRoutingZone \<Rightarrow> CUInt128 option" where
  "OnBigTimer me junk rnd z =
     (case z of
        Leaf l i b \<Rightarrow>
          if CompareTo32 i KK < 0 \<or> l < KBASE \<or> 8 \<le> K - length b then Some (RandomLookup me junk rnd l i) else None
      | Node _ _ _ _ \<Rightarrow> None)"

end
