(* ===== verification/Routing_Inv.thy ===== *)
theory Routing_Inv
  imports Routing_Table
begin

text \<open>
  The invariant of the routing table (\<open>src/src/kademlia/routing/RoutingZone.cpp\<close>) through everything that
  changes it: adding and updating contacts, splitting, merging, the periodic sweep. It gives the limits on
  contacts per address and network, exact tracking counters, and that the table never holds a freed contact.
\<close>

section \<open>Losing contacts keeps the invariant\<close>

text \<open>An operation that leaves identifiers, distances, addresses and use counts of all contacts alone.\<close>

definition calm :: "kad \<Rightarrow> kad \<Rightarrow> bool" where
  "calm s s' \<longleftrightarrow> (\<forall>q. m_clientID (heap s' q) = m_clientID (heap s q) \<and> m_distance (heap s' q) = m_distance (heap s q) \<and>
     ip_of s' q = ip_of s q \<and> m_inUse (heap s' q) = m_inUse (heap s q)) \<and> next_ref s' = next_ref s"

lemma calm_refl [simp, intro]: "calm s s"
  by (simp add: calm_def)

lemma calm_trans [trans]: "calm s t \<Longrightarrow> calm t u \<Longrightarrow> calm s u"
  by (simp add: calm_def)

lemma calm_heap: "heap s' = heap s \<Longrightarrow> next_ref s' = next_ref s \<Longrightarrow> calm s s'"
  by (simp add: calm_def)

lemma side_calm: "calm s s' \<Longrightarrow> side s' r l = side s r l"
  by (simp add: calm_def side_def)

lemma zone_ok_calm:
  assumes "calm s s'"
  shows "zone_ok s' z = zone_ok s z"
proof (induction z)
  case (Leaf l i b)
  have "bin_ok s' b = bin_ok s b" using assms by (intro bin_ok_cong) (simp add: calm_def)
  then show ?case by simp
qed (simp add: side_calm [OF assms])

definition shrunk :: "nat set \<Rightarrow> CRoutingZone \<Rightarrow> CRoutingZone \<Rightarrow> nat set" where
  "shrunk E z z' = E - (set (zone_entries z) - set (zone_entries z'))"

definition shrink_post :: "kad \<Rightarrow> nat set \<Rightarrow> CRoutingZone \<Rightarrow> CRoutingZone \<Rightarrow> kad \<Rightarrow> bool" where
  "shrink_post s E z z' s' \<longleftrightarrow>
     tree_inv s' (shrunk E z z') z' \<and> set (zone_entries z') \<subseteq> set (zone_entries z) \<and> calm s s' \<and>
     m_level z' = m_level z \<and> m_zoneIndex z' = m_zoneIndex z"

lemma shrink_refl: "tree_inv s E z \<Longrightarrow> shrink_post s E z z s"
  by (simp add: shrink_post_def shrunk_def)

lemma shrink_trans:
  assumes "shrink_post s E z z1 s1" and "shrink_post s1 (shrunk E z z1) z1 z2 s2"
  shows "shrink_post s E z z2 s2"
proof -
  have "shrunk (shrunk E z z1) z1 z2 = shrunk E z z2" using assms by (auto simp: shrink_post_def shrunk_def)
  then show ?thesis using assms calm_trans by (auto simp: shrink_post_def)
qed

lemma shrink_child:
  assumes inv: "tree_inv s E (Node l i z0 z1)" and post: "shrink_post s E z1 z1' s'"
  shows "shrink_post s E (Node l i z0 z1) (Node l i z0 z1') s'"
proof -
  have d: "set (zone_entries z0) \<inter> set (zone_entries z1) = {}" using inv by (auto simp: tree_inv_def)
  have c: "calm s s'" and sub: "set (zone_entries z1') \<subseteq> set (zone_entries z1)" using post by (simp_all add: shrink_post_def)
  have e: "shrunk E (Node l i z0 z1) (Node l i z0 z1') = shrunk E z1 z1'" using d by (auto simp: shrunk_def)
  have "set (zone_entries z0) \<subseteq> shrunk E z1 z1'" using d inv by (auto simp: shrunk_def tree_inv_def)
  then have "tree_inv s' (shrunk E z1 z1') (Node l i z0 z1')"
    using post inv d sub unfolding tree_inv_def shrink_post_def
    by (auto simp: zone_ok_calm [OF c] side_calm [OF c])
  then show ?thesis using sub c by (auto simp: shrink_post_def e)
qed

lemma shrink_child0:
  assumes inv: "tree_inv s E (Node l i z0 z1)" and post: "shrink_post s E z0 z0' s'"
  shows "shrink_post s E (Node l i z0 z1) (Node l i z0' z1) s'"
proof -
  have d: "set (zone_entries z0) \<inter> set (zone_entries z1) = {}" using inv by (auto simp: tree_inv_def)
  have c: "calm s s'" and sub: "set (zone_entries z0') \<subseteq> set (zone_entries z0)" using post by (simp_all add: shrink_post_def)
  have e: "shrunk E (Node l i z0 z1) (Node l i z0' z1) = shrunk E z0 z0'" using d by (auto simp: shrunk_def)
  have "set (zone_entries z1) \<subseteq> shrunk E z0 z0'" using d inv by (auto simp: shrunk_def tree_inv_def)
  then have "tree_inv s' (shrunk E z0 z0') (Node l i z0' z1)"
    using post inv d sub unfolding tree_inv_def shrink_post_def
    by (auto simp: zone_ok_calm [OF c] side_calm [OF c])
  then show ?thesis using sub c by (auto simp: shrink_post_def e)
qed

section \<open>Merging\<close>

lemma merge_fold:
  assumes "kad_inv s (F \<union> set b)" and "bin_ok s b" and "distinct (b @ xs)" and "set xs \<inter> F = {}"
    and "fold merge_entry xs (b, s) = (b', s')"
  shows "kad_inv s' (F \<union> set b') \<and> bin_ok s' b' \<and> set b' \<subseteq> set b \<union> set xs \<and> distinct b' \<and>
    heap s' = heap s \<and> deleted s' = deleted s \<and> next_ref s' = next_ref s"
  using assms
proof (induction xs arbitrary: b s)
  case Nil
  then show ?case by simp
next
  case (Cons r xs)
  obtain ret b1 s1 where add: "AddContact r b s = (ret, b1, s1)" by (cases "AddContact r b s")
  have r: "r \<notin> F \<union> set b" using Cons.prems(3,4) by auto
  have step: "fold merge_entry xs (b1, s1) = (b', s')" using Cons.prems(5) by (simp add: merge_entry_def [of r] add)
  show ?case
  proof (cases ret)
    case True
    have add': "AddContact r b s = (True, b1, s1)" using add True by simp
    note ok = AddContact_ok [OF Cons.prems(1) r Cons.prems(2) Un_upper2 add']
    have "kad_inv s' (F \<union> set b') \<and> bin_ok s' b' \<and> set b' \<subseteq> set b1 \<union> set xs \<and> distinct b' \<and>
      heap s' = heap s1 \<and> deleted s' = deleted s1 \<and> next_ref s' = next_ref s1"
      using Cons.prems(3,4) ok step by (intro Cons.IH) auto
    then show ?thesis using ok by auto
  next
    case False
    then have "b1 = b" "s1 = s" using AddContact_fail [of r b s b1 s1] add by simp_all
    then have "kad_inv s' (F \<union> set b') \<and> bin_ok s' b' \<and> set b' \<subseteq> set b \<union> set xs \<and> distinct b' \<and>
      heap s' = heap s \<and> deleted s' = deleted s \<and> next_ref s' = next_ref s"
      using Cons.prems(1-4) step by (intro Cons.IH) auto
    then show ?thesis by auto
  qed
qed

text \<open>The merge of two leaves, as \<open>Consolidate\<close> does it.\<close>

definition merge_leaves :: "nat \<Rightarrow> CUInt128 \<Rightarrow> bin \<Rightarrow> bin \<Rightarrow> kad \<Rightarrow> CRoutingZone \<times> kad" where
  "merge_leaves l i b0 b1 s =
     (let (b, s) = fold merge_entry (b0 @ b1) ([], dispose_bin True b1 (dispose_bin True b0 s)) in (Leaf l i b, s))"

lemma dispose_both:
  assumes "kad_inv s E" and "set b0 \<union> set b1 \<subseteq> E" and "distinct (b0 @ b1)"
    and "t = dispose_bin True b1 (dispose_bin True b0 s)"
  shows "kad_inv t (E - (set b0 \<union> set b1))" and "heap t = heap s" and "deleted t = deleted s" and "next_ref t = next_ref s"
proof -
  have 0: "kad_inv (dispose_bin True b0 s) (E - set b0) \<and> heap (dispose_bin True b0 s) = heap s \<and>
    deleted (dispose_bin True b0 s) = deleted s \<and> next_ref (dispose_bin True b0 s) = next_ref s"
    using assms by (intro dispose_bin_True) auto
  then have 1: "kad_inv t (E - set b0 - set b1) \<and> heap t = heap (dispose_bin True b0 s) \<and>
    deleted t = deleted (dispose_bin True b0 s) \<and> next_ref t = next_ref (dispose_bin True b0 s)"
    unfolding assms(4) using assms by (intro dispose_bin_True) auto
  have "E - set b0 - set b1 = E - (set b0 \<union> set b1)" by auto
  with 0 1 show "kad_inv t (E - (set b0 \<union> set b1))" "heap t = heap s" "deleted t = deleted s" "next_ref t = next_ref s"
    by simp_all
qed

lemma merge_leaves_post:
  assumes inv: "tree_inv s E (Node l i (Leaf l0 i0 b0) (Leaf l1 i1 b1))" and l: "l \<le> 127"
    and step: "merge_leaves l i b0 b1 s = (z', s')"
  shows "shrink_post s E (Node l i (Leaf l0 i0 b0) (Leaf l1 i1 b1)) z' s'"
    and "deleted s' = deleted s" and "heap s' = heap s"
proof -
  let ?t = "dispose_bin True b1 (dispose_bin True b0 s)"
  have k: "kad_inv s E" "set b0 \<union> set b1 \<subseteq> E" and d: "distinct (b0 @ b1)" using inv by (auto simp: tree_inv_def)
  note D = dispose_both [OF k d refl]
  obtain b where m: "fold merge_entry (b0 @ b1) ([], ?t) = (b, s')" "z' = Leaf l i b"
    using step unfolding merge_leaves_def by (cases "fold merge_entry (b0 @ b1) ([], ?t)") simp
  have M: "kad_inv s' (E - (set b0 \<union> set b1) \<union> set b) \<and> bin_ok s' b \<and> set b \<subseteq> set [] \<union> set (b0 @ b1) \<and> distinct b \<and>
    heap s' = heap ?t \<and> deleted s' = deleted ?t \<and> next_ref s' = next_ref ?t"
    using D(1) d by (intro merge_fold [OF _ _ _ _ m(1)]) auto
  have "E - (set b0 \<union> set b1) \<union> set b = shrunk E (Node l i (Leaf l0 i0 b0) (Leaf l1 i1 b1)) z'"
    using M k(2) by (auto simp: shrunk_def m(2))
  then have "tree_inv s' (shrunk E (Node l i (Leaf l0 i0 b0) (Leaf l1 i1 b1)) z') z'"
    using M l by (auto simp: tree_inv_def m(2))
  moreover have "calm s s'" using M D by (intro calm_heap) simp_all
  ultimately show "shrink_post s E (Node l i (Leaf l0 i0 b0) (Leaf l1 i1 b1)) z' s'"
    using M by (auto simp: shrink_post_def m(2))
  show "deleted s' = deleted s" "heap s' = heap s" using M D by simp_all
qed

lemma Consolidate_Node:
  "Consolidate (Node l i z0 z1) s =
     (let (n0, z0, s) = Consolidate z0 s; (n1, z1, s) = Consolidate z1 s in
      case (z0, z1) of
        (Leaf _ _ b0, Leaf _ _ b1) \<Rightarrow>
          if length b0 + length b1 < K div 2 then (let (z, s) = merge_leaves l i b0 b1 s in (n0 + n1 + 1, z, s))
          else (n0 + n1, Node l i z0 z1, s)
      | _ \<Rightarrow> (n0 + n1, Node l i z0 z1, s))"
proof -
  have "(if \<not> IsLeaf z then Consolidate z t else (0, z, t)) = Consolidate z t" for z t by (cases z) auto
  then show ?thesis
    by (simp add: merge_leaves_def Let_def split: prod.splits CRoutingZone.splits)
qed

lemma Consolidate_post:
  assumes "tree_inv s E z" and "Consolidate z s = (n, z', s')"
  shows "shrink_post s E z z' s' \<and> deleted s' = deleted s \<and> heap s' = heap s"
  using assms
proof (induction z arbitrary: s E n z' s')
  case (Leaf l i b)
  then show ?case by (auto intro: shrink_refl)
next
  case (Node l i z0 z1)
  obtain n0 y0 t0 where c0: "Consolidate z0 s = (n0, y0, t0)" by (cases "Consolidate z0 s")
  obtain n1 y1 t1 where c1: "Consolidate z1 t0 = (n1, y1, t1)" by (cases "Consolidate z1 t0")
  have p0: "shrink_post s E z0 y0 t0 \<and> deleted t0 = deleted s \<and> heap t0 = heap s"
    using tree_inv_children [OF Node.prems(1)] c0 by (intro Node.IH(1)) auto
  have q0: "shrink_post s E (Node l i z0 z1) (Node l i y0 z1) t0" using p0 by (intro shrink_child0 [OF Node.prems(1)]) simp
  let ?E = "shrunk E (Node l i z0 z1) (Node l i y0 z1)"
  have i1: "tree_inv t0 ?E (Node l i y0 z1)" using q0 by (simp add: shrink_post_def)
  have p1: "shrink_post t0 ?E z1 y1 t1 \<and> deleted t1 = deleted t0 \<and> heap t1 = heap t0"
    using tree_inv_children [OF i1] c1 by (intro Node.IH(2)) auto
  have q1: "shrink_post s E (Node l i z0 z1) (Node l i y0 y1) t1"
    by (rule shrink_trans [OF q0 shrink_child [OF i1 conjunct1 [OF p1]]])
  have same: "z' = Node l i y0 y1 \<and> s' = t1 \<Longrightarrow> ?case" using q1 p0 p1 by simp
  show ?case
  proof (cases "\<exists>l0 i0 b0 l1 i1 b1. y0 = Leaf l0 i0 b0 \<and> y1 = Leaf l1 i1 b1 \<and> length b0 + length b1 < K div 2")
    case False
    then show ?thesis using Node.prems(2) same
      by (auto simp: Consolidate_Node c0 c1 simp del: Consolidate.simps split: CRoutingZone.splits if_splits)
  next
    case True
    then obtain l0 i0 b0 l1 i1 b1 where y: "y0 = Leaf l0 i0 b0" "y1 = Leaf l1 i1 b1" "length b0 + length b1 < K div 2" by blast
    then have m: "merge_leaves l i b0 b1 t1 = (z', s')" using Node.prems(2)
      by (auto simp: Consolidate_Node c0 c1 simp del: Consolidate.simps split: prod.splits)
    have i2: "tree_inv t1 (shrunk E (Node l i z0 z1) (Node l i y0 y1)) (Node l i y0 y1)" using q1 by (simp add: shrink_post_def)
    have "l \<le> 127" using zone_ok_level [of s z0] Node.prems(1) by (simp add: tree_inv_def)
    note M = merge_leaves_post [OF i2 [unfolded y(1,2)] this m]
    show ?thesis using shrink_trans [OF q1 [unfolded y(1,2)] M(1)] M(2,3) p0 p1 by simp
  qed
qed

section \<open>The periodic work\<close>

definition sweep_post :: "int \<Rightarrow> kad \<Rightarrow> nat set \<Rightarrow> bin \<Rightarrow> bin \<Rightarrow> kad \<Rightarrow> bool" where
  "sweep_post now s E b b' s' \<longleftrightarrow>
     bin_inv s' (E - (set b - set b')) b' \<and> set b' \<subseteq> set b \<and> calm s s' \<and>
     (\<exists>ds. deleted s' = ds @ deleted s \<and> distinct ds \<and> set ds = set b - set b' \<and>
       (\<forall>r \<in> set ds. m_inUse (heap s r) = 0))"

lemma sweep_refl: "bin_inv s E b \<Longrightarrow> sweep_post now s E b b s"
  by (simp add: sweep_post_def)

lemma sweep_trans:
  assumes "sweep_post now s E b b1 s1" and "sweep_post now s1 (E - (set b - set b1)) b1 b2 s2"
  shows "sweep_post now s E b b2 s2"
proof -
  from assms obtain ds es where d: "deleted s1 = ds @ deleted s" "distinct ds" "set ds = set b - set b1" "\<forall>r \<in> set ds. m_inUse (heap s r) = 0"
    and e: "deleted s2 = es @ deleted s1" "distinct es" "set es = set b1 - set b2" "\<forall>r \<in> set es. m_inUse (heap s1 r) = 0"
    unfolding sweep_post_def by blast
  have sub: "set b2 \<subseteq> set b1" "set b1 \<subseteq> set b" and c: "calm s s1" "calm s1 s2" using assms by (simp_all add: sweep_post_def)
  have "E - (set b - set b1) - (set b1 - set b2) = E - (set b - set b2)" using sub by auto
  moreover have "deleted s2 = (es @ ds) @ deleted s \<and> distinct (es @ ds) \<and> set (es @ ds) = set b - set b2 \<and>
      (\<forall>r \<in> set (es @ ds). m_inUse (heap s r) = 0)"
    using d e sub c(1) by (auto simp: calm_def)
  ultimately show ?thesis using assms sub calm_trans [OF c] unfolding sweep_post_def by auto
qed

lemma bin_inv_calm:
  assumes "calm s s'" and "s_globalContactIPs s' = s_globalContactIPs s" and "s_globalContactSubnets s' = s_globalContactSubnets s"
  shows "bin_inv s' E b = bin_inv s E b"
proof -
  have "bin_ok s' b = bin_ok s b" using assms(1) by (intro bin_ok_cong) (simp add: calm_def)
  moreover have "kad_inv s' E = kad_inv s E" using assms by (intro kad_inv_cong) (simp_all add: calm_def)
  ultimately show ?thesis by (simp add: bin_inv_def)
qed

text \<open>A write to one contact that keeps what the invariants speak of.\<close>

definition quiet :: "(CContact \<Rightarrow> CContact) \<Rightarrow> bool" where
  "quiet f \<longleftrightarrow> (\<forall>c. m_clientID (f c) = m_clientID c \<and> m_distance (f c) = m_distance c \<and> m_ip (f c) = m_ip c \<and> m_inUse (f c) = m_inUse c)"

lemma quiet_simps [simp]:
  "quiet (UpdateType now)" "quiet (CheckingType now)" "quiet (SetIPVerified v)" "quiet (\<lambda>c. c\<lparr>m_expires := t\<rparr>)"
  by (simp_all add: quiet_def) (simp_all add: CheckingType_def SetIPVerified_def)

lemma calm_update: "quiet f \<Longrightarrow> calm s (update_contact r f s)"
  by (simp add: calm_def quiet_def)

lemma sweep_update: "bin_inv s E b \<Longrightarrow> quiet f \<Longrightarrow> sweep_post now s E b b (update_contact r f s)"
proof -
  assume inv: "bin_inv s E b" and f: "quiet f"
  have c: "calm s (update_contact r f s)" using f by (rule calm_update)
  have "bin_inv (update_contact r f s) E b = bin_inv s E b" by (rule bin_inv_calm [OF c]) simp_all
  then show ?thesis using inv c by (simp add: sweep_post_def)
qed

lemma sweep_entry_post:
  assumes inv: "bin_inv s E b" and r: "r \<in> set b" and step: "sweep_entry now r (b, s) = (b', s')"
  shows "sweep_post now s E b b' s'" and "set b - {r} \<subseteq> set b'"
proof -
  let ?c = "heap s r"
  have d: "distinct b" using inv by (auto simp: bin_inv_def intro: bin_ok_distinct)
  consider (dead) "m_inUse ?c = 0" "b' = removeAll r b" "s' = delete_contact r (AdjustGlobalTracking (ip_of s r) False s)"
    | (keep) "b' = b" "s' = s" | (fresh) "b' = b" "s' = update_contact r (\<lambda>c. c\<lparr>m_expires := now\<rparr>) s"
  proof -
    have "(b', s') = (removeAll r b, delete_contact r (AdjustGlobalTracking (ip_of s r) False s)) \<and> m_inUse ?c = 0 \<or>
        (b', s') = (b, s) \<or> (b', s') = (b, update_contact r (\<lambda>c. c\<lparr>m_expires := now\<rparr>) s)"
      unfolding step [symmetric] sweep_entry_def Let_def RemoveContact_def InUse_def prod.case by auto
    then show thesis using that by blast
  qed
  then have "sweep_post now s E b b' s' \<and> set b - {r} \<subseteq> set b'"
  proof cases
    case dead
    have k: "kad_inv s E" "set b \<subseteq> E" "bin_ok s b" using inv by (simp_all add: bin_inv_def)
    have "kad_inv (AdjustGlobalTracking (ip_of s r) False s) (E - {r})" using k r by (intro kad_inv_remove) auto
    moreover have "kad_inv s' (E - {r}) = kad_inv (AdjustGlobalTracking (ip_of s r) False s) (E - {r})"
      by (rule kad_inv_cong) (simp_all add: dead delete_contact_def)
    moreover have "bin_ok s' b' = bin_ok s b'" by (rule bin_ok_cong) (simp add: dead delete_contact_def)
    moreover have "bin_ok s b'" unfolding dead removeAll_filter_not_eq by (rule filter_bin_ok [OF k(3)])
    moreover have "E - (set b - set b') = E - {r}" using r by (auto simp: dead)
    moreover have "calm s s'" by (simp add: calm_def dead delete_contact_def)
    moreover have "deleted s' = [r] @ deleted s \<and> distinct [r] \<and> set [r] = set b - set b' \<and> (\<forall>q \<in> set [r]. m_inUse (heap s q) = 0)"
      using r dead by (auto simp: delete_contact_def)
    ultimately show ?thesis using k(2) unfolding sweep_post_def bin_inv_def by (auto simp: dead(2))
  next
    case keep
    then show ?thesis using sweep_refl [OF inv] by auto
  next
    case fresh
    then show ?thesis using sweep_update [OF inv] by auto
  qed
  then show "sweep_post now s E b b' s'" "set b - {r} \<subseteq> set b'" by blast+
qed

lemma sweep_fold:
  assumes "bin_inv s E b" and "set rs \<subseteq> set b" and "distinct rs" and "fold (sweep_entry now) rs (b, s) = (b', s')"
  shows "sweep_post now s E b b' s'"
  using assms
proof (induction rs arbitrary: b s E)
  case Nil
  then show ?case using sweep_refl by simp
next
  case (Cons r rs)
  obtain b1 s1 where e: "sweep_entry now r (b, s) = (b1, s1)" by (cases "sweep_entry now r (b, s)")
  have 1: "sweep_post now s E b b1 s1" "set b - {r} \<subseteq> set b1"
    using sweep_entry_post [OF Cons.prems(1) _ e] Cons.prems(2) by auto
  have "sweep_post now s1 (E - (set b - set b1)) b1 b' s'"
    using Cons.prems 1 e by (intro Cons.IH) (auto simp: sweep_post_def)
  then show ?case by (rule sweep_trans [OF 1(1)])
qed

lemma OnSmallTimer_post:
  assumes inv: "bin_inv s E b" and step: "OnSmallTimer now b s = (m, b', s')"
  shows "sweep_post now s E b b' s'"
proof -
  obtain b1 s1 where f: "fold (sweep_entry now) b (b, s) = (b1, s1)" by (cases "fold (sweep_entry now) b (b, s)")
  have p: "sweep_post now s E b b1 s1"
    using inv by (intro sweep_fold [OF inv _ _ f]) (auto simp: bin_inv_def intro: bin_ok_distinct)
  then have i1: "bin_inv s1 (E - (set b - set b1)) b1" by (simp add: sweep_post_def)
  show ?thesis
  proof (cases b1)
    case Nil
    then show ?thesis using step p f by (simp add: OnSmallTimer_def GetOldest_def)
  next
    case (Cons r rs)
    then have r: "r \<in> set b1" by simp
    from step f Cons have "(b' = PushToBottom r b1 \<and> s' = s1) \<or> (b' = b1 \<and> s' = update_contact r (CheckingType now) s1)"
      by (auto simp: OnSmallTimer_def GetOldest_def Let_def split: if_splits)
    then show ?thesis
    proof
      assume e: "b' = PushToBottom r b1 \<and> s' = s1"
      have "sweep_post now s1 (E - (set b - set b1)) b1 (PushToBottom r b1) s1"
        using bin_inv_PushToBottom [OF i1 r] by (simp add: sweep_post_def set_PushToBottom [OF r])
      then show ?thesis using sweep_trans [OF p] e by simp
    next
      assume e: "b' = b1 \<and> s' = update_contact r (CheckingType now) s1"
      have "sweep_post now s1 (E - (set b - set b1)) b1 b1 (update_contact r (CheckingType now) s1)"
        using i1 by (rule sweep_update) simp
      then show ?thesis using sweep_trans [OF p] e by simp
    qed
  qed
qed

definition timer_post :: "kad \<Rightarrow> nat set \<Rightarrow> CRoutingZone \<Rightarrow> CRoutingZone \<Rightarrow> kad \<Rightarrow> bool" where
  "timer_post s E z z' s' \<longleftrightarrow> shrink_post s E z z' s' \<and>
     (\<exists>ds. deleted s' = ds @ deleted s \<and> distinct ds \<and> set ds = set (zone_entries z) - set (zone_entries z') \<and>
       (\<forall>r \<in> set ds. m_inUse (heap s r) = 0))"

lemma zone_OnSmallTimer_post:
  assumes "tree_inv s E z" and "zone_OnSmallTimer now path z s = (m, z', s')"
  shows "timer_post s E z z' s'"
  using assms
proof (induction now path z s arbitrary: m z' s' rule: zone_OnSmallTimer.induct)
  case (1 now path l i b s)
  then obtain b' where o: "OnSmallTimer now b s = (m, b', s')" "z' = Leaf l i b'" by (auto split: prod.splits)
  have inv: "bin_inv s E b" "l \<le> 127" using 1(1) by (simp_all add: tree_inv_Leaf)
  have "sweep_post now s E b b' s'" by (rule OnSmallTimer_post [OF inv(1) o(1)])
  then show ?case unfolding timer_post_def shrink_post_def sweep_post_def
    by (auto simp: o(2) shrunk_def tree_inv_Leaf inv)
next
  case (2 now l i z0 z1 s)
  then show ?case using shrink_refl by (auto simp: timer_post_def)
next
  case (3 now p path l i z0 z1 s)
  note inv = 3(3)
  have d: "set (zone_entries z0) \<inter> set (zone_entries z1) = {}" using inv by (auto simp: tree_inv_def)
  show ?case
  proof (cases p)
    case True
    then obtain y where o: "zone_OnSmallTimer now path z1 s = (m, y, s')" "z' = Node l i z0 y" using 3(4) by (auto split: prod.splits)
    have p: "timer_post s E z1 y s'" using 3(1) [OF True _ o(1)] tree_inv_children [OF inv] by blast
    have "set (zone_entries z1) - set (zone_entries y) = set (zone_entries (Node l i z0 z1)) - set (zone_entries z')"
      using d by (auto simp: o(2))
    then show ?thesis using p shrink_child [OF inv, of y s'] unfolding timer_post_def o(2) by simp
  next
    case False
    then obtain y where o: "zone_OnSmallTimer now path z0 s = (m, y, s')" "z' = Node l i y z1" using 3(4) by (auto split: prod.splits)
    have p: "timer_post s E z0 y s'" using 3(2) [OF False _ o(1)] tree_inv_children [OF inv] by blast
    have "set (zone_entries z0) - set (zone_entries y) = set (zone_entries (Node l i z0 z1)) - set (zone_entries z')"
      using d by (auto simp: o(2))
    then show ?thesis using p shrink_child0 [OF inv, of y s'] unfolding timer_post_def o(2) by simp
  qed
qed

section \<open>The table\<close>

definition table_ok :: "CUInt128 \<Rightarrow> CRoutingZone \<Rightarrow> kad \<Rightarrow> bool" where
  "table_ok me z s \<longleftrightarrow>
     tree_inv s (set (zone_entries z)) z \<and> m_level z = 0 \<and> m_zoneIndex z = SetValue32 0 \<and>
     (\<forall>r \<in> set (zone_entries z). r < next_ref s \<and> r \<notin> set (deleted s) \<and>
        m_distance (heap s r) = XOR128 me (m_clientID (heap s r))) \<and>
     distinct (deleted s) \<and> (\<forall>r \<in> set (deleted s). r < next_ref s)"

text \<open>Writes that no invariant sees.\<close>

definition still :: "kad \<Rightarrow> kad \<Rightarrow> bool" where
  "still s s' \<longleftrightarrow> (\<forall>q. m_clientID (heap s' q) = m_clientID (heap s q) \<and> m_distance (heap s' q) = m_distance (heap s q) \<and>
     ip_of s' q = ip_of s q) \<and> next_ref s' = next_ref s \<and> deleted s' = deleted s \<and>
     s_globalContactIPs s' = s_globalContactIPs s \<and> s_globalContactSubnets s' = s_globalContactSubnets s"

lemma still_refl [simp, intro]: "still s s"
  by (simp add: still_def)

lemma still_trans [trans]: "still s t \<Longrightarrow> still t u \<Longrightarrow> still s u"
  by (simp add: still_def)

lemma still_update:
  "(\<And>c. m_clientID (f c) = m_clientID c) \<Longrightarrow> (\<And>c. m_distance (f c) = m_distance c) \<Longrightarrow> (\<And>c. m_ip (f c) = m_ip c) \<Longrightarrow>
   still s (update_contact r f s)"
  by (simp add: still_def)

lemma still_fold: "(\<And>x s. still s (f x s)) \<Longrightarrow> still s (fold f xs s)"
  by (induction xs arbitrary: s) (auto intro: still_trans)

lemma zone_ok_cong:
  assumes "\<And>r. r \<in> set (zone_entries z) \<Longrightarrow>
    m_clientID (heap s' r) = m_clientID (heap s r) \<and> m_distance (heap s' r) = m_distance (heap s r) \<and> ip_of s' r = ip_of s r"
  shows "zone_ok s' z = zone_ok s z"
  using assms
proof (induction z)
  case (Leaf l i b)
  then have "bin_ok s' b = bin_ok s b" by (intro bin_ok_cong) simp
  then show ?case by simp
next
  case (Node l i z0 z1)
  then show ?case by (auto simp: side_def)
qed

lemma tree_inv_cong:
  assumes "\<And>r. r \<in> E \<Longrightarrow>
    m_clientID (heap s' r) = m_clientID (heap s r) \<and> m_distance (heap s' r) = m_distance (heap s r) \<and> ip_of s' r = ip_of s r"
    and "s_globalContactIPs s' = s_globalContactIPs s" and "s_globalContactSubnets s' = s_globalContactSubnets s"
  shows "tree_inv s' E z = tree_inv s E z"
proof -
  have "kad_inv s' E = kad_inv s E" using assms by (intro kad_inv_cong) auto
  moreover have "set (zone_entries z) \<subseteq> E \<Longrightarrow> zone_ok s' z = zone_ok s z" using assms(1) by (intro zone_ok_cong) auto
  ultimately show ?thesis unfolding tree_inv_def by (simp cong: conj_cong)
qed

lemma table_ok_still:
  assumes "table_ok me z s" and "still s s'"
  shows "table_ok me z s'"
proof -
  have "tree_inv s' (set (zone_entries z)) z = tree_inv s (set (zone_entries z)) z"
    using assms(2) by (intro tree_inv_cong) (auto simp: still_def)
  then show ?thesis using assms unfolding table_ok_def still_def by simp
qed

lemma shrunk_self: "set (zone_entries z') \<subseteq> set (zone_entries z) \<Longrightarrow> shrunk (set (zone_entries z)) z z' = set (zone_entries z')"
  by (auto simp: shrunk_def)

lemma table_ok_Consolidate:
  assumes "table_ok me z s" and "Consolidate z s = (n, z', s')"
  shows "table_ok me z' s'"
proof -
  have p: "shrink_post s (set (zone_entries z)) z z' s' \<and> deleted s' = deleted s \<and> heap s' = heap s"
    using assms by (intro Consolidate_post) (auto simp: table_ok_def)
  then have "next_ref s' = next_ref s" by (simp add: shrink_post_def calm_def)
  then show ?thesis using p assms(1) unfolding table_ok_def shrink_post_def
    by (auto simp: shrunk_self)
qed

lemma timer_facts:
  assumes "table_ok me z s" and "zone_OnSmallTimer now path z s = (m, z', s')"
  obtains ds where "shrink_post s (set (zone_entries z)) z z' s'" "deleted s' = ds @ deleted s" "distinct ds"
    "set ds = set (zone_entries z) - set (zone_entries z')" "\<And>r. r \<in> set ds \<Longrightarrow> m_inUse (heap s r) = 0"
proof -
  have "timer_post s (set (zone_entries z)) z z' s'"
    using assms by (intro zone_OnSmallTimer_post) (auto simp: table_ok_def)
  then show thesis using that unfolding timer_post_def by blast
qed

lemma table_ok_OnSmallTimer:
  assumes ok: "table_ok me z s" and step: "zone_OnSmallTimer now path z s = (m, z', s')"
  shows "table_ok me z' s'"
proof -
  from timer_facts [OF ok step] obtain ds where p: "shrink_post s (set (zone_entries z)) z z' s'"
    and d: "deleted s' = ds @ deleted s" "distinct ds" "set ds = set (zone_entries z) - set (zone_entries z')" by metis
  have sub: "set (zone_entries z') \<subseteq> set (zone_entries z)" and c: "calm s s'" using p by (simp_all add: shrink_post_def)
  have "tree_inv s' (set (zone_entries z')) z'" using p shrunk_self [OF sub] by (simp add: shrink_post_def)
  moreover have "distinct (deleted s')" using ok d by (auto simp: table_ok_def)
  moreover have "r < next_ref s' \<and> r \<notin> set (deleted s') \<and> m_distance (heap s' r) = XOR128 me (m_clientID (heap s' r))"
    if "r \<in> set (zone_entries z')" for r
    using that sub ok c d by (auto simp: table_ok_def calm_def)
  moreover have "r < next_ref s'" if "r \<in> set (deleted s')" for r
    using that ok c d by (auto simp: table_ok_def calm_def)
  moreover have "m_level z' = 0 \<and> m_zoneIndex z' = SetValue32 0" using ok p by (simp add: table_ok_def shrink_post_def)
  ultimately show ?thesis unfolding table_ok_def by blast
qed

section \<open>A new contact\<close>

text \<open>The state in which \<open>AddUnfiltered\<close> has allocated its contact.\<close>

definition alloc :: "CContact \<Rightarrow> kad \<Rightarrow> kad" where
  "alloc c s = s\<lparr>heap := (heap s)(next_ref s := c), next_ref := next_ref s + 1\<rparr>"

lemma alloc_simps [simp]:
  "heap (alloc c s) = (heap s)(next_ref s := c)" "next_ref (alloc c s) = next_ref s + 1"
  "deleted (alloc c s) = deleted s" "s_globalContactIPs (alloc c s) = s_globalContactIPs s"
  "s_globalContactSubnets (alloc c s) = s_globalContactSubnets s"
  by (simp_all add: alloc_def)

lemma table_ok_fresh: "table_ok me z s \<Longrightarrow> next_ref s \<notin> set (zone_entries z) \<and> next_ref s \<notin> set (deleted s)"
  by (auto simp: table_ok_def)

lemma zone_Add_table:
  assumes ok: "table_ok me z s" and c: "m_distance c = XOR128 me (m_clientID c)"
    and step: "zone_Add myIP now (next_ref s) update v z (alloc c s) = (ret, up, v', z', s')"
  shows "add_post (alloc c s) (set (zone_entries z)) z (next_ref s) ret z' s'"
proof -
  have "tree_inv (alloc c s) (set (zone_entries z)) z = tree_inv s (set (zone_entries z)) z"
    using table_ok_fresh [OF ok] by (intro tree_inv_cong) auto
  then show ?thesis
    using ok table_ok_fresh [OF ok] step by (intro zone_Add_post) (auto simp: table_ok_def)
qed

definition made_contact :: "CUInt128 \<Rightarrow> int \<Rightarrow> CUInt128 \<Rightarrow> uint32 \<Rightarrow> uint16 \<Rightarrow> uint16 \<Rightarrow> nat \<Rightarrow> CKadUDPKey \<Rightarrow> bool \<Rightarrow> bool \<Rightarrow> CContact" where
  "made_contact me now ident ip port tport version key ipVerified fromHello =
     (let c = new_contact ident ip port tport version key ipVerified me now
      in if fromHello then c\<lparr>m_receivedHelloPacket := True\<rparr> else c)"

lemma made_contact_simps [simp]:
  "m_distance (made_contact me now ident ip port tport version key ipVerified fromHello) = XOR128 me ident"
  "m_clientID (made_contact me now ident ip port tport version key ipVerified fromHello) = ident"
  by (simp_all add: made_contact_def new_contact_def Let_def)

lemma AddUnfiltered_cases:
  assumes "AddUnfiltered me myIP now ident ip port tport version key ipVerified update fromHello z s = (ret, v, z', s')"
  obtains (own) "ident = me" "\<not> ret" "z' = z" "s' = s"
    | (new) s1 up where "ident \<noteq> me" "ret"
        "zone_Add myIP now (next_ref s) update ipVerified z
          (alloc (made_contact me now ident ip port tport version key ipVerified fromHello) s) = (True, up, v, z', s1)" "s' = s1"
    | (old) s1 up where "ident \<noteq> me" "ret = up"
        "zone_Add myIP now (next_ref s) update ipVerified z
          (alloc (made_contact me now ident ip port tport version key ipVerified fromHello) s) = (False, up, v, z', s1)"
        "s' = delete_contact (next_ref s) s1"
proof (cases "ident = me")
  case True
  then show thesis using assms own by (simp add: AddUnfiltered_def)
next
  case False
  obtain r up v2 z2 s2 where a: "zone_Add myIP now (next_ref s) update ipVerified z
      (alloc (made_contact me now ident ip port tport version key ipVerified fromHello) s) = (r, up, v2, z2, s2)"
    by (cases "zone_Add myIP now (next_ref s) update ipVerified z
      (alloc (made_contact me now ident ip port tport version key ipVerified fromHello) s)")
  have "(ret, v, z', s') = (if r then (True, v2, z2, s2) else (up, v2, z2, delete_contact (next_ref s) s2))"
    using assms a False by (simp add: AddUnfiltered_def Let_def alloc_def made_contact_def)
  then show thesis using new old False a by (cases r) auto
qed

lemma table_ok_AddUnfiltered:
  assumes ok: "table_ok me z s"
    and step: "AddUnfiltered me myIP now ident ip port tport version key ipVerified update fromHello z s = (ret, v, z', s')"
  shows "table_ok me z' s'"
  using step
proof (cases rule: AddUnfiltered_cases)
  case own
  then show ?thesis using ok by simp
next
  case (new s1 up)
  let ?c = "made_contact me now ident ip port tport version key ipVerified fromHello"
  have p: "add_post (alloc ?c s) (set (zone_entries z)) z (next_ref s) True z' s1"
    by (rule zone_Add_table [OF ok _ new(3)]) simp
  have fr: "frame (set (zone_entries z)) (alloc ?c s) s1" using p by (rule add_post_frame)
  have dist: "m_distance (heap s' r) = XOR128 me (m_clientID (heap s' r))" if "r \<in> set (zone_entries z')" for r
    using that p fr ok new(4) by (auto simp: add_post_def frame_def table_ok_def)
  have "set (zone_entries z') = set (zone_entries z) \<union> {next_ref s}" using p by (simp add: add_post_def added_def)
  then show ?thesis using p fr ok new(4) dist table_ok_fresh [OF ok]
    unfolding table_ok_def by (auto simp: add_post_def frame_def added_def)
next
  case (old s1 up)
  let ?c = "made_contact me now ident ip port tport version key ipVerified fromHello"
  have p: "add_post (alloc ?c s) (set (zone_entries z)) z (next_ref s) False z' s1"
    by (rule zone_Add_table [OF ok _ old(3)]) simp
  have fr: "frame (set (zone_entries z)) (alloc ?c s) s1" and e: "set (zone_entries z') = set (zone_entries z)"
    using p add_post_frame [OF p] by (simp_all add: add_post_def added_def)
  have t: "tree_inv s' (set (zone_entries z)) z' = tree_inv s1 (set (zone_entries z)) z'"
    by (rule tree_inv_cong) (simp_all add: old delete_contact_def)
  have dist: "m_distance (heap s' r) = XOR128 me (m_clientID (heap s' r))" if "r \<in> set (zone_entries z')" for r
    using that p fr ok e old(4) by (auto simp: frame_def table_ok_def delete_contact_def)
  show ?thesis using p fr ok old(4) dist t e table_ok_fresh [OF ok]
    unfolding table_ok_def by (auto simp: add_post_def frame_def added_def delete_contact_def)
qed

section \<open>Transitions\<close>

text \<open>
  \<open>CSearch\<close> takes contacts with \<open>GetClosestTo\<close> and lets each go with \<open>DecUse\<close>; the other transitions are
  the messages and timers that change the table.
\<close>

inductive kad_step :: "CUInt128 \<Rightarrow> CRoutingZone \<times> kad \<Rightarrow> CRoutingZone \<times> kad \<Rightarrow> bool" for me where
  add: "AddUnfiltered me myIP now ident ip port tport version key ipVerified update fromHello z s = (ret, v, z', s') \<Longrightarrow>
    kad_step me (z, s) (z', s')"
| merge: "Consolidate z s = (n, z', s') \<Longrightarrow> kad_step me (z, s) (z', s')"
| timer: "zone_OnSmallTimer now path z s = (m, z', s') \<Longrightarrow> kad_step me (z, s) (z', s')"
| verify: "VerifyContact me ident ip z s = (ok, s') \<Longrightarrow> kad_step me (z, s) (z, s')"
| verify_all: "kad_step me (z, s) (z, zone_SetAllContactsVerified z s)"
| closest: "zone_GetClosestTo maxType target (XOR128 me target) maxRequired True inUse z [] s = (result, s') \<Longrightarrow>
    kad_step me (z, s) (z, s')"
| release: "kad_step me (z, s) (z, update_contact r DecUse s)"

definition start :: "kad \<Rightarrow> bool" where
  "start s \<longleftrightarrow> s_globalContactIPs s = Map.empty \<and> s_globalContactSubnets s = Map.empty \<and> deleted s = [] \<and> next_ref s = 0"

inductive kad_reach :: "CUInt128 \<Rightarrow> CRoutingZone \<times> kad \<Rightarrow> bool" for me where
  start: "start s \<Longrightarrow> kad_reach me (root_zone, s)"
| step: "kad_reach me x \<Longrightarrow> kad_step me x y \<Longrightarrow> kad_reach me y"

lemma still_trim: "trim_results n u res s = (res', s') \<Longrightarrow> still s s'"
proof (induction n u res s arbitrary: res' s' rule: trim_results.induct)
  case (1 n u res s)
  let ?s = "if u then update_contact (snd (last res)) DecUse s else s"
  have d: "still s ?s" by (simp add: still_update)
  show ?case
  proof (cases "n < length res")
    case True
    then have "trim_results n u (butlast res) ?s = (res', s')" using 1(2) trim_results.simps [of n u res s] by simp
    then show ?thesis using 1(1) [OF True] still_trans [OF d] by blast
  next
    case False
    then show ?thesis using 1(2) trim_results.simps [of n u res s] by simp
  qed
qed

lemma still_fold_pair:
  "(\<And>x r s. still s (snd (f x (r, s)))) \<Longrightarrow> still s (snd (fold f xs (r, s)))"
proof (induction xs arbitrary: r s)
  case (Cons x xs)
  then show ?case by (metis fold_Cons o_apply prod.collapse still_trans)
qed simp

lemma still_bin_closest:
  assumes "GetClosestTo maxType target n emptyFirst inUse b result s = (res, s')"
  shows "still s s'"
proof (cases "b = []")
  case True
  then show ?thesis using assms by (simp add: GetClosestTo_def Let_def)
next
  case False
  define f where "f r x = (case x of (result, s) \<Rightarrow>
      if m_type (heap s r) \<le> maxType \<and> m_ipVerified (heap s r) then
        (sm_put (XOR128 (m_clientID (heap s r)) target) r result, if inUse then update_contact r IncUse s else s)
      else (result, s))" for r and x :: "ContactMap \<times> kad"
  obtain r1 s1 where f: "fold f b ((if emptyFirst then [] else result), s) = (r1, s1)" by fastforce
  have "still s (snd (f x (r, s)))" for x r s by (auto simp: f_def intro!: still_update)
  then have "still s (snd (fold f b ((if emptyFirst then [] else result), s)))" by (rule still_fold_pair)
  then have "still s s1" by (simp add: f)
  moreover have "trim_results n inUse r1 s1 = (res, s')"
    using assms False f unfolding GetClosestTo_def f_def [abs_def] by (simp add: Let_def)
  ultimately show ?thesis using still_trim still_trans by blast
qed

lemma still_closest:
  "zone_GetClosestTo maxType target distance n emptyFirst inUse z result s = (res, s') \<Longrightarrow> still s s'"
proof (induction z arbitrary: emptyFirst result s res s')
  case (Leaf l i b)
  then show ?case by (auto intro: still_bin_closest)
next
  case (Node l i z0 z1)
  let ?c = "GetBitNumber distance l \<noteq> 0"
  obtain r1 s1 where 1: "zone_GetClosestTo maxType target distance n emptyFirst inUse (if ?c then z1 else z0) result s = (r1, s1)"
    by fastforce
  then have "still s s1" using Node.IH by (cases ?c) auto
  moreover have "still s1 s'"
  proof (cases "length r1 < n")
    case True
    then have "zone_GetClosestTo maxType target distance n False inUse (if ?c then z0 else z1) r1 s1 = (res, s')"
      using Node.prems 1 by (simp add: Let_def)
    then show ?thesis using Node.IH by (cases ?c) auto
  next
    case False
    then show ?thesis using Node.prems 1 by (simp add: Let_def)
  qed
  ultimately show ?case by (rule still_trans)
qed

lemma still_verify_all: "still s (zone_SetAllContactsVerified z s)"
proof (induction z arbitrary: s)
  case (Leaf l i b)
  show ?case by (auto simp: SetAllContactsVerified_def intro!: still_fold still_update)
next
  case (Node l i z0 z1)
  then show ?case using still_trans by simp blast
qed

lemma still_verify: "VerifyContact me ident ip z s = (ok, s') \<Longrightarrow> still s s'"
  by (auto simp: VerifyContact_def intro!: still_update split: option.splits if_splits)

lemma table_ok_start:
  assumes "start s"
  shows "table_ok me root_zone s"
proof -
  have "kad_inv s {}" using assms
    by (auto simp: kad_inv_def track_ok_def limits_ok_def by_ip_def by_net_def start_def tracked_def)
  then show ?thesis using assms
    by (simp add: table_ok_def root_zone_def new_zone_def tree_inv_def start_def)
qed

lemma table_ok_step: "kad_step me x y \<Longrightarrow> table_ok me (fst x) (snd x) \<Longrightarrow> table_ok me (fst y) (snd y)"
proof (induction rule: kad_step.induct)
  case add
  then show ?case using table_ok_AddUnfiltered by auto
next
  case merge
  then show ?case using table_ok_Consolidate by auto
next
  case timer
  then show ?case using table_ok_OnSmallTimer by auto
next
  case verify
  then show ?case using table_ok_still still_verify by auto
next
  case verify_all
  then show ?case using table_ok_still still_verify_all by auto
next
  case closest
  then show ?case using table_ok_still still_closest by auto
next
  case (release z s r)
  have "still s (update_contact r DecUse s)" by (rule still_update) simp_all
  then show ?case using release table_ok_still by auto
qed

lemma reach_table_ok: "kad_reach me x \<Longrightarrow> table_ok me (fst x) (snd x)"
proof (induction rule: kad_reach.induct)
  case (start s)
  then show ?case by (simp add: table_ok_start)
next
  case (step x y)
  then show ?case by (blast intro: table_ok_step)
qed

end
