(* ===== verification/Routing_Props.thy ===== *)
theory Routing_Props
  imports Routing_Inv
begin

text \<open>
  The properties of the routing table (\<open>src/src/kademlia/routing/RoutingZone.cpp\<close>, \<open>RoutingBin.cpp\<close>): its
  limits, the life of its contacts, and what a message can do to it.
\<close>

section \<open>Identifiers\<close>

fun zone_bins :: "CRoutingZone \<Rightarrow> bin list" where
  "zone_bins (Leaf _ _ b) = [b]"
| "zone_bins (Node _ _ z0 z1) = zone_bins z0 @ zone_bins z1"

definition placed :: "CUInt128 \<Rightarrow> kad \<Rightarrow> bin \<Rightarrow> bool" where
  "placed me s b \<longleftrightarrow> (\<forall>r \<in> set b. m_distance (heap s r) = XOR128 me (m_clientID (heap s r)))"

lemma table_placed: "table_ok me z s \<Longrightarrow> placed me s (zone_entries z) \<and> zone_ok s z \<and> distinct (zone_entries z)"
  by (auto simp: table_ok_def placed_def tree_inv_def)

lemma placed_side:
  "placed me s b \<Longrightarrow> r \<in> set b \<Longrightarrow> side s r l \<longleftrightarrow> GetBitNumber (XOR128 me (m_clientID (heap s r))) l \<noteq> 0"
  by (simp add: placed_def side_def)

lemma distinct_ids:
  "zone_ok s z \<Longrightarrow> placed me s (zone_entries z) \<Longrightarrow> distinct (map (\<lambda>r. m_clientID (heap s r)) (zone_entries z))"
proof (induction z)
  case (Leaf l i b)
  then show ?case by (simp add: bin_ok_def)
next
  case (Node l i z0 z1)
  have p: "placed me s (zone_entries z0)" "placed me s (zone_entries z1)" using Node.prems(2) by (auto simp: placed_def)
  have "m_clientID (heap s r) \<noteq> m_clientID (heap s q)" if "r \<in> set (zone_entries z0)" "q \<in> set (zone_entries z1)" for r q
  proof
    assume "m_clientID (heap s r) = m_clientID (heap s q)"
    then have "side s r l = side s q l" using placed_side [OF p(1) that(1)] placed_side [OF p(2) that(2)] by simp
    then show False using that Node.prems(1) by simp
  qed
  then show ?case using Node p by auto
qed

lemma zone_GetContact_iff:
  "zone_ok s z \<Longrightarrow> placed me s (zone_entries z) \<Longrightarrow>
   zone_GetContact me (heap s) ident z = Some r \<longleftrightarrow> r \<in> set (zone_entries z) \<and> m_clientID (heap s r) = ident"
proof (induction z)
  case (Leaf l i b)
  have inj: "inj_on (\<lambda>r. m_clientID (heap s r)) (set b)" using Leaf by (simp add: bin_ok_def distinct_map)
  show ?case
  proof (cases "find (\<lambda>r. m_clientID (heap s r) = ident) b")
    case None
    then have "\<forall>q \<in> set b. m_clientID (heap s q) \<noteq> ident" by (auto simp: find_None_iff)
    then show ?thesis using None by (auto simp: GetContact_def)
  next
    case (Some q)
    then have "q \<in> set b" "m_clientID (heap s q) = ident" by (auto simp: find_Some_iff)
    then show ?thesis using Some inj by (auto simp: GetContact_def dest: inj_onD)
  qed
next
  case (Node l i z0 z1)
  have p: "placed me s (zone_entries z0)" "placed me s (zone_entries z1)" using Node.prems(2) by (auto simp: placed_def)
  have "r \<in> set (zone_entries z0) \<Longrightarrow> m_clientID (heap s r) = ident \<Longrightarrow> GetBitNumber (XOR128 me ident) l = 0"
    using placed_side [OF p(1), of r l] Node.prems(1) by auto
  moreover have "r \<in> set (zone_entries z1) \<Longrightarrow> m_clientID (heap s r) = ident \<Longrightarrow> GetBitNumber (XOR128 me ident) l \<noteq> 0"
    using placed_side [OF p(2), of r l] Node.prems(1) by auto
  ultimately show ?case using Node p by auto
qed

section \<open>Known and unknown contacts\<close>

lemma GetContact_old:
  assumes "bin_ok s b" and "old \<in> set b" and "m_clientID (heap s old) = ident"
  shows "GetContact (heap s) ident b = Some old"
proof -
  have inj: "inj_on (\<lambda>r. m_clientID (heap s r)) (set b)" using assms by (simp add: bin_ok_def distinct_map)
  obtain q where q: "find (\<lambda>r. m_clientID (heap s r) = ident) b = Some q"
    using assms by (cases "find (\<lambda>r. m_clientID (heap s r) = ident) b") (auto simp: find_None_iff)
  then have "q \<in> set b" "m_clientID (heap s q) = ident" by (auto simp: find_Some_iff)
  then show ?thesis using q inj assms by (auto simp: GetContact_def dest: inj_onD)
qed

lemma zone_Add_known:
  assumes "zone_ok s z" and "old \<in> set (zone_entries z)" and "m_clientID (heap s old) = m_clientID (heap s r)"
    and "m_distance (heap s old) = m_distance (heap s r)" and "zone_Add myIP now r update v z s = (ret, up, v', z', s')"
  shows "\<not> ret \<and> (\<exists>b b'. old \<in> set b \<and> bin_ok s b \<and> update_known myIP now r old update v b s = (up, v', b', s') \<and> (b' = b \<longrightarrow> z' = z))"
  using assms
proof (induction z arbitrary: z')
  case (Leaf l i b)
  then have g: "GetContact (heap s) (m_clientID (heap s r)) b = Some old" by (intro GetContact_old) auto
  show ?case using Leaf by (auto simp: zone_Add.simps g split: prod.splits)
next
  case (Node l i z0 z1)
  have sd: "side s old l = side s r l" using Node.prems(4) by (simp add: side_def)
  show ?case
  proof (cases "side s r l")
    case True
    then obtain y where z: "zone_Add myIP now r update v z1 s = (ret, up, v', y, s')" "z' = Node l i z0 y"
      using Node.prems(5) by (auto simp: zone_Add.simps split: prod.splits)
    have "old \<in> set (zone_entries z1)" using True sd Node.prems(1,2) by auto
    then show ?thesis using Node.IH(2) [OF _ _ Node.prems(3,4) z(1)] Node.prems(1) z(2) by auto
  next
    case False
    then obtain y where z: "zone_Add myIP now r update v z0 s = (ret, up, v', y, s')" "z' = Node l i y z1"
      using Node.prems(5) by (auto simp: zone_Add.simps split: prod.splits)
    have "old \<in> set (zone_entries z0)" using False sd Node.prems(1,2) by auto
    then show ?thesis using Node.IH(1) [OF _ _ Node.prems(3,4) z(1)] Node.prems(1) z(2) by auto
  qed
qed

lemma zone_Add_unknown:
  assumes "tree_inv s E z" and "\<And>q. q \<in> set (zone_entries z) \<Longrightarrow> m_clientID (heap s q) \<noteq> m_clientID (heap s r)"
    and "zone_Add myIP now r update v z s = (ret, up, v', z', s')"
  shows "\<not> up"
  using assms
proof (induction myIP now r update v z s arbitrary: ret up v' z' s' rule: zone_Add.induct)
  case (1 myIP now r update v l i z0 z1 s)
  show ?case
  proof (cases "side s r l")
    case True
    then obtain y where z: "zone_Add myIP now r update v z1 s = (ret, up, v', y, s')"
      using 1(5) by (auto simp: zone_Add.simps split: prod.splits)
    show ?thesis using 1(1) [OF True _ _ z] tree_inv_children [OF 1(3)] 1(4) by auto
  next
    case False
    then obtain y where z: "zone_Add myIP now r update v z0 s = (ret, up, v', y, s')"
      using 1(5) by (auto simp: zone_Add.simps split: prod.splits)
    show ?thesis using 1(2) [OF False _ _ z] tree_inv_children [OF 1(3)] 1(4) by auto
  qed
next
  case (2 myIP now r update v l i b s)
  have new: "GetContact (heap s) (m_clientID (heap s r)) b = None" using 2(4) by (simp add: GetContact_def find_None_iff)
  have inv: "bin_inv s E b" using 2(3) by (simp add: tree_inv_Leaf)
  show ?case
  proof (cases "\<not> K - length b \<noteq> 0 \<and> CanSplit l i b")
    case False
    then show ?thesis using 2(5) by (auto simp: zone_Add.simps(2) new split: prod.splits if_splits)
  next
    case True
    then have full: "\<not> K - length b \<noteq> 0" and can: "CanSplit l i b" by auto
    then have l': "l < 127" by (simp add: CanSplit_def split: if_splits)
    obtain z0 z1 t where sp: "Split l i b s = (z0, z1, t)" by (cases "Split l i b s")
    note S = Split_inv [OF inv l' sp]
    have none: "m_clientID (heap t q) \<noteq> m_clientID (heap t r)" if "q \<in> set (zone_entries (Node l i z0 z1))" for q
      using that 2(4) [of q] S(2,5) by auto
    have step: "zone_Add myIP now r update v (Node l i z0 z1) t = (ret, up, v', z', s')"
      using 2(5) zone_Add_split [OF new full can sp] by simp
    show ?thesis
    proof (cases "side t r l")
      case True
      then obtain y where z: "zone_Add myIP now r update v z1 t = (ret, up, v', y, s')"
        using step by (auto simp: zone_Add.simps(1) split: prod.splits)
      show ?thesis using 2(1) [OF new full can sp [symmetric] refl True _ _ z] tree_inv_children [OF S(1)] none by auto
    next
      case False
      then obtain y where z: "zone_Add myIP now r update v z0 t = (ret, up, v', y, s')"
        using step by (auto simp: zone_Add.simps(1) split: prod.splits)
      show ?thesis using 2(2) [OF new full can sp [symmetric] refl False _ _ z] tree_inv_children [OF S(1)] none by auto
    qed
  qed
qed

section \<open>Properties of the table\<close>

lemma card_filter: "distinct b \<Longrightarrow> card {r \<in> set b. P r} = length (filter P b)"
  by (metis distinct_card distinct_filter set_filter)

lemma by_length:
  "distinct b \<Longrightarrow> card (by_ip s (set b) ip) = length (filter (\<lambda>r. m_ip (heap s r) = ip) b)"
  "distinct b \<Longrightarrow> card (by_net s (set b) n) = length (filter (\<lambda>r. subnet (m_ip (heap s r)) = n) b)"
  by (simp_all add: by_ip_def by_net_def card_filter)

lemma zone_bins_ok: "zone_ok s z \<Longrightarrow> b \<in> set (zone_bins z) \<Longrightarrow> bin_ok s b"
  by (induction z) auto

lemma zone_depth: "zone_ok s z \<Longrightarrow> m_level z + GetMaxDepth z \<le> 127"
  by (induction z) auto

text \<open>
  C13. The limits that protect the table hold in every state it can reach from the empty one, by any messages,
  splits, merges, sweeps, searches and verifications: the identifiers in it are distinct, an address has at
  most one contact, a public \<open>/24\<close> network at most ten in the table and two in a bin, a bin has at most
  \<open>K\<close>, the tree is at most 127 deep, and the two global counters are exactly the numbers of contacts per
  address and per network.
\<close>

theorem kad_limits:
  assumes "kad_reach me (z, s)"
  shows "distinct (map (\<lambda>r. m_clientID (heap s r)) (zone_entries z)) \<and>
    (\<forall>ip. unat (tracked (s_globalContactIPs s) ip) = length (filter (\<lambda>r. m_ip (heap s r) = ip) (zone_entries z)) \<and>
       length (filter (\<lambda>r. m_ip (heap s r) = ip) (zone_entries z)) \<le> 1) \<and>
    (\<forall>n. unat (tracked (s_globalContactSubnets s) n) = length (filter (\<lambda>r. subnet (m_ip (heap s r)) = n) (zone_entries z))) \<and>
    (\<forall>ip. \<not> IsLanIP (swap32 ip) \<longrightarrow> length (filter (\<lambda>r. subnet (m_ip (heap s r)) = subnet ip) (zone_entries z)) \<le> 10) \<and>
    (\<forall>b \<in> set (zone_bins z). length b \<le> K \<and>
       (\<forall>ip. \<not> IsLanIP (swap32 ip) \<longrightarrow> length (filter (\<lambda>r. subnet (m_ip (heap s r)) = subnet ip) b) \<le> 2)) \<and>
    GetMaxDepth z \<le> 127"
proof -
  have ok: "table_ok me z s" using reach_table_ok [OF assms] by simp
  note P = table_placed [OF ok]
  have k: "kad_inv s (set (zone_entries z))" using ok by (simp add: table_ok_def tree_inv_def)
  have d: "distinct (zone_entries z)" using P by simp
  note L = by_length [OF d, of s, symmetric]
  have 1: "distinct (map (\<lambda>r. m_clientID (heap s r)) (zone_entries z))" using P by (intro distinct_ids) auto
  have 2: "length b \<le> K \<and> (\<forall>ip. \<not> IsLanIP (swap32 ip) \<longrightarrow> length (filter (\<lambda>r. subnet (m_ip (heap s r)) = subnet ip) b) \<le> 2)"
    if "b \<in> set (zone_bins z)" for b
    using zone_bins_ok [OF _ that, of s] P by (simp add: bin_ok_def net_count_def)
  have 3: "GetMaxDepth z \<le> 127" using zone_depth [of s z] P by simp
  show ?thesis
    using 1 2 3 k unfolding L kad_inv_def track_ok_def limits_ok_def by blast
qed

text \<open>
  C16. No contact is used after it was freed. In a reachable state and after one more transition no freed
  contact is in the table, none is freed twice, and a contact of the table that a search holds
  (\<open>m_inUse > 0\<close>) is not freed by the transition.
\<close>

theorem kad_no_use_after_free:
  assumes "kad_reach me (z, s)" and "kad_step me (z, s) (z', s')"
  shows "set (zone_entries z') \<inter> set (deleted s') = {} \<and> distinct (deleted s') \<and>
    (\<forall>r \<in> set (zone_entries z). m_inUse (heap s r) > 0 \<longrightarrow> r \<notin> set (deleted s'))"
proof -
  have ok: "table_ok me z s" using reach_table_ok [OF assms(1)] by simp
  have "table_ok me z' s'" using reach_table_ok [OF kad_reach.step [OF assms]] by simp
  then have 1: "set (zone_entries z') \<inter> set (deleted s') = {} \<and> distinct (deleted s')" by (auto simp: table_ok_def)
  have out: "r \<notin> set (deleted s)" if "r \<in> set (zone_entries z)" for r using ok that by (simp add: table_ok_def)
  have "r \<notin> set (deleted s')" if r: "r \<in> set (zone_entries z)" "m_inUse (heap s r) > 0" for r
    using assms(2)
  proof (cases rule: kad_step.cases)
    case (add myIP now ident ip port tport version key ipVerified update fromHello ret v)
    have fresh: "r \<noteq> next_ref s" using r table_ok_fresh [OF ok] by auto
    from add show ?thesis
    proof (cases rule: AddUnfiltered_cases)
      case own
      then show ?thesis using out r by simp
    next
      case (new s1 up)
      have "add_post (alloc (made_contact me now ident ip port tport version key ipVerified fromHello) s)
        (set (zone_entries z)) z (next_ref s) True z' s1" by (rule zone_Add_table [OF ok _ new(3)]) simp
      then show ?thesis using new(4) out r by (simp add: add_post_def frame_def)
    next
      case (old s1 up)
      have "add_post (alloc (made_contact me now ident ip port tport version key ipVerified fromHello) s)
        (set (zone_entries z)) z (next_ref s) False z' s1" by (rule zone_Add_table [OF ok _ old(3)]) simp
      then show ?thesis using old(4) out r fresh by (simp add: add_post_def frame_def delete_contact_def)
    qed
  next
    case (merge n)
    have "deleted s' = deleted s" using Consolidate_post [OF _ merge] ok by (auto simp: table_ok_def)
    then show ?thesis using out r by simp
  next
    case (timer now path m)
    from timer_facts [OF ok timer] obtain ds where "deleted s' = ds @ deleted s" "\<And>q. q \<in> set ds \<Longrightarrow> m_inUse (heap s q) = 0"
      by metis
    then show ?thesis using out r by auto
  next
    case (verify ident ip okay)
    then show ?thesis using still_verify [OF verify(2)] out r by (simp add: still_def)
  next
    case verify_all
    then show ?thesis using still_verify_all [of s z] out r by (simp add: still_def)
  next
    case (closest maxType target maxRequired inUse result)
    then show ?thesis using still_closest [OF closest(2)] out r by (simp add: still_def)
  next
    case (release q)
    then show ?thesis using out r by simp
  qed
  with 1 show ?thesis by blast
qed

text \<open>
  C17. What a message about a contact does to a reachable table. The contacts that were in it stay, the only
  one that can come is the new one, and only one with the message's identifier can be written; a message
  that is accepted leaves a contact that \<open>GetContact\<close> finds; a message about the own identifier does nothing.
\<close>

theorem kad_add:
  assumes "kad_reach me (z, s)"
    and "AddUnfiltered me myIP now ident ip port tport version key ipVerified update fromHello z s = (ret, v, z', s')"
  shows "(set (zone_entries z') = set (zone_entries z) \<or>
      ret \<and> set (zone_entries z') = insert (next_ref s) (set (zone_entries z)) \<and> next_ref s \<notin> set (zone_entries z) \<and>
      m_clientID (heap s' (next_ref s)) = ident) \<and>
    (\<forall>q \<in> set (zone_entries z). m_clientID (heap s q) \<noteq> ident \<longrightarrow> heap s' q = heap s q) \<and>
    (ret \<longrightarrow> zone_GetContact me (heap s') ident z' \<noteq> None) \<and>
    (ident = me \<longrightarrow> \<not> ret \<and> z' = z \<and> s' = s)"
proof -
  have ok: "table_ok me z s" using reach_table_ok [OF assms(1)] by simp
  have "table_ok me z' s'" using table_ok_AddUnfiltered [OF ok assms(2)] .
  note P' = table_placed [OF this]
  have found: "zone_GetContact me (heap s') ident z' \<noteq> None" if "r \<in> set (zone_entries z')" "m_clientID (heap s' r) = ident" for r
    using zone_GetContact_iff [of s' z' me ident r] P' that by auto
  let ?t = "alloc (made_contact me now ident ip port tport version key ipVerified fromHello) s"
  have others: "heap s1 q = heap s q"
    if "add_post ?t (set (zone_entries z)) z (next_ref s) b z' s1" "q \<in> set (zone_entries z)" "m_clientID (heap s q) \<noteq> ident" for b s1 q
  proof -
    have n: "q \<noteq> next_ref s" using that(2) table_ok_fresh [OF ok] by auto
    then have "q \<notin> same_id ?t (next_ref s) (zone_entries z)" using that(3) by (simp add: same_id_def)
    then show ?thesis using that(1) n by (simp add: add_post_def frame_def)
  qed
  from assms(2) show ?thesis
  proof (cases rule: AddUnfiltered_cases)
    case own
    then show ?thesis by simp
  next
    case (new s1 up)
    have p: "add_post ?t (set (zone_entries z)) z (next_ref s) True z' s1" by (rule zone_Add_table [OF ok _ new(3)]) simp
    then have "m_clientID (heap s' (next_ref s)) = ident" "next_ref s \<in> set (zone_entries z')"
      by (auto simp: new(4) add_post_def frame_def added_def)
    then show ?thesis using p new others [OF p] found table_ok_fresh [OF ok] by (auto simp: add_post_def added_def)
  next
    case (old s1 up)
    have p: "add_post ?t (set (zone_entries z)) z (next_ref s) False z' s1" by (rule zone_Add_table [OF ok _ old(3)]) simp
    then have e: "set (zone_entries z') = set (zone_entries z)" by (simp add: add_post_def added_def)
    have "zone_GetContact me (heap s') ident z' \<noteq> None" if ret
    proof -
      have t: "tree_inv ?t (set (zone_entries z)) z" using ok table_ok_fresh [OF ok]
        by (subst tree_inv_cong [of _ _ s]) (auto simp: table_ok_def)
      have "\<exists>q \<in> set (zone_entries z). m_clientID (heap ?t q) = m_clientID (heap ?t (next_ref s))"
      proof (rule ccontr)
        assume "\<not> ?thesis"
        then have "\<not> up" by (intro zone_Add_unknown [OF t _ old(3)]) auto
        then show False using that old(2) by simp
      qed
      then obtain q where q: "q \<in> set (zone_entries z)" "m_clientID (heap ?t q) = m_clientID (heap ?t (next_ref s))" by blast
      then have "m_clientID (heap s' q) = ident" using p
        by (simp add: old(4) delete_contact_def add_post_def frame_def)
      then show ?thesis using found q e by blast
    qed
    then show ?thesis using p old others [OF p] e by (auto simp: delete_contact_def)
  qed
qed

lemma SetAlive_old:
  assumes "bin_ok s b" and "old \<in> set b" and "\<And>q. m_clientID (heap t q) = m_clientID (heap s q)"
  shows "SetAlive now old b t = (PushToBottom old b, update_contact old (UpdateType now) t)"
proof -
  have "GetContact (heap t) (m_clientID (heap t old)) b = Some old"
    using GetContact_old [OF assms(1,2) refl] assms(3) by (simp add: GetContact_def)
  then show ?thesis by (simp add: SetAlive_def)
qed

lemma ChangeContactIPAddress_result:
  assumes "ChangeContactIPAddress r ip b s = (ok, t)"
  shows "m_clientID (heap t q) = m_clientID (heap s q)" and "q \<noteq> r \<Longrightarrow> heap t q = heap s q"
    and "ok \<Longrightarrow> m_ip (heap t r) = ip" and "m_version (heap t r) = m_version (heap s r)"
    and "heap t r = heap s r \<or> ok \<and> heap t r = SetIPAddress ip (heap s r)"
proof -
  consider "t = s" "ok \<longrightarrow> m_ip (heap s r) = ip"
    | "ok" "heap t = (heap s)(r := SetIPAddress ip (heap s r))"
    using assms by (auto simp: ChangeContactIPAddress_def Let_def split: if_splits)
  then show "m_clientID (heap t q) = m_clientID (heap s q)" "q \<noteq> r \<Longrightarrow> heap t q = heap s q"
    "ok \<Longrightarrow> m_ip (heap t r) = ip" "m_version (heap t r) = m_version (heap s r)"
    "heap t r = heap s r \<or> ok \<and> heap t r = SetIPAddress ip (heap s r)"
    by (cases; auto simp: SetIPAddress_def SetIPVerified_def)+
qed

lemma UpdateType_more [simp]:
  "m_tcpPort (UpdateType now c) = m_tcpPort c" "m_udpPort (UpdateType now c) = m_udpPort c"
  "m_version (UpdateType now c) = m_version c" "m_udpKey (UpdateType now c) = m_udpKey c"
  by (simp_all add: UpdateType_def Let_def)

text \<open>What the message's address, ports, version and key are in a contact.\<close>

definition claims :: "CContact \<Rightarrow> uint32 \<times> uint16 \<times> uint16 \<times> nat" where
  "claims c = (m_ip c, m_udpPort c, m_tcpPort c, m_version c)"

definition protected_key :: "uint32 \<Rightarrow> CContact \<Rightarrow> CContact \<Rightarrow> bool" where
  "protected_key myIP u c \<longleftrightarrow>
     GetKeyValue (m_udpKey u) myIP \<noteq> 0 \<and> GetKeyValue (m_udpKey u) myIP \<noteq> GetKeyValue (m_udpKey c) myIP"

definition legacy :: "CContact \<Rightarrow> bool" where
  "legacy u \<longleftrightarrow> 1 \<le> m_version u \<and> m_version u < 6 \<and> m_receivedHelloPacket u"

lemma update_known_denied:
  assumes "\<not> update \<or> protected_key myIP (heap s old) (heap s r)"
  shows "update_known myIP now r old update v b s = (False, v, b, s)"
  using assms by (auto simp: update_known_def protected_key_def Let_def)

lemma update_known_legacy:
  assumes "update" and "\<not> protected_key myIP (heap s old) (heap s r)" and "legacy (heap s old)"
    and "bin_ok s b" and "old \<in> set b"
  shows "update_known myIP now r old update v b s =
    (if claims (heap s old) = claims (heap s r)
     then (True, m_ipVerified (heap s old), PushToBottom old b, update_contact old (UpdateType now) s)
     else (False, v, b, s))"
  using assms(1-3) SetAlive_old [OF assms(4,5) refl]
  by (auto simp: update_known_def Let_def protected_key_def legacy_def claims_def)

lemma update_known_full:
  assumes "update" and "\<not> protected_key myIP (heap s old) (heap s r)" and "\<not> legacy (heap s old)"
    and "bin_ok s b" and "old \<in> set b" and "r \<noteq> old"
    and step: "update_known myIP now r old update v b s = (up, v', b', s')"
  shows "m_version (heap s old) \<le> m_version (heap s' old)" and "up \<Longrightarrow> claims (heap s' old) = claims (heap s r)"
    and "up \<Longrightarrow> m_udpKey (heap s' old) = m_udpKey (heap s r)"
    and "\<not> up \<Longrightarrow> heap s' old = heap s old \<or>
      m_version (heap s r) < m_version (heap s old) \<and> heap s' old = SetIPAddress (m_ip (heap s r)) (heap s old)"
proof -
  let ?c = "heap s r"
  obtain ok s1 where ch: "ChangeContactIPAddress old (m_ip ?c) b s = (ok, s1)" by fastforce
  note C = ChangeContactIPAddress_result [OF ch]
  define s2 where "s2 = update_contact old (\<lambda>u. u\<lparr>m_udpPort := m_udpPort ?c, m_tcpPort := m_tcpPort ?c,
                      m_version := m_version ?c, m_udpKey := m_udpKey ?c\<rparr>) s1"
  define s3 where "s3 = (if \<not> m_ipVerified (heap s2 old) then update_contact old (SetIPVerified (m_ipVerified ?c)) s2 else s2)"
  have ids: "m_clientID (heap s3 q) = m_clientID (heap s q)" for q
    using C(1) by (simp add: s3_def s2_def)
  have K: "claims (heap s3 old) = (m_ip (heap s1 old), m_udpPort ?c, m_tcpPort ?c, m_version ?c)" "m_udpKey (heap s3 old) = m_udpKey ?c"
    by (simp_all add: s3_def s2_def claims_def SetIPVerified_def)
  have e: "(up, v', b', s') = (if ok \<and> m_version (heap s old) \<le> m_version ?c
     then (True, m_ipVerified (heap s3 old), PushToBottom old b,
       if m_receivedHelloPacket ?c
       then update_contact old (\<lambda>u. u\<lparr>m_receivedHelloPacket := True\<rparr>) (update_contact old (UpdateType now) s3)
       else update_contact old (UpdateType now) s3)
     else (False, v, b, s1))"
  proof -
    have na: "\<not> (GetKeyValue (m_udpKey (heap s old)) myIP \<noteq> 0 \<and> GetKeyValue (m_udpKey (heap s old)) myIP \<noteq> GetKeyValue (m_udpKey ?c) myIP)"
      and nb: "\<not> (1 \<le> m_version (heap s old) \<and> m_version (heap s old) < 6 \<and> m_receivedHelloPacket (heap s old))"
      using assms(2,3) by (auto simp: protected_key_def legacy_def)
    have nc: "(\<not> update) = False" and nd: "update = True" using assms(1) by simp_all
    show ?thesis
      unfolding step [symmetric] update_known_def Let_def ch prod.case s2_def [symmetric] s3_def [symmetric]
        SetAlive_old [OF assms(4,5) ids] if_not_P [OF na] if_not_P [OF nb] nc if_False C(4)
      by (simp add: nd)
  qed
  have R: "claims (heap s' old) = claims (heap s3 old) \<and> m_udpKey (heap s' old) = m_udpKey (heap s3 old)"
    if "ok" "m_version (heap s old) \<le> m_version ?c"
  proof -
    have "s' = (if m_receivedHelloPacket ?c
       then update_contact old (\<lambda>u. u\<lparr>m_receivedHelloPacket := True\<rparr>) (update_contact old (UpdateType now) s3)
       else update_contact old (UpdateType now) s3)" using e that by simp
    then show ?thesis by (simp add: claims_def)
  qed
  show "m_version (heap s old) \<le> m_version (heap s' old)"
    using e R K C(4) by (cases "ok \<and> m_version (heap s old) \<le> m_version ?c") (auto simp: claims_def)
  show "up \<Longrightarrow> claims (heap s' old) = claims (heap s r)" "up \<Longrightarrow> m_udpKey (heap s' old) = m_udpKey (heap s r)"
    using e R K C(3) by (auto simp: claims_def split: if_splits)
  show "heap s' old = heap s old \<or> m_version ?c < m_version (heap s old) \<and> heap s' old = SetIPAddress (m_ip ?c) (heap s old)" if "\<not> up"
  proof -
    have "s' = s1" "\<not> (ok \<and> m_version (heap s old) \<le> m_version ?c)" using e that by (auto split: if_splits)
    then show ?thesis using C(5) by auto
  qed
qed

text \<open>
  C15. What a message can do to a contact that is already in a reachable table. Without the right to update, or when the
  contact has a key for the own address and the message does not carry it, the message is denied and the table and the
  contact stay as they are; a Kad2 contact of a version before 6 that has said hello keeps its address, ports, version and
  key; an accepted message leaves the contact with the address, ports and version it claims; no message lowers a
  contact's version. A message that is denied changes nothing in the contact, with one exception: if it claims a lower
  version and passes the key check, the contact gets its address, not verified (\<open>lower_version_moves_address\<close> is such a run).
\<close>

theorem kad_known_contact:
  assumes "kad_reach me (z, s)" and "old \<in> set (zone_entries z)" and "m_clientID (heap s old) = ident"
    and "AddUnfiltered me myIP now ident ip port tport version key ipVerified update fromHello z s = (ret, v, z', s')"
  shows "(\<not> update \<or> GetKeyValue (m_udpKey (heap s old)) myIP \<noteq> 0 \<and> GetKeyValue (m_udpKey (heap s old)) myIP \<noteq> GetKeyValue key myIP \<longrightarrow>
      \<not> ret \<and> z' = z \<and> heap s' old = heap s old) \<and>
    (1 \<le> m_version (heap s old) \<and> m_version (heap s old) < 6 \<and> m_receivedHelloPacket (heap s old) \<longrightarrow>
      (m_ip (heap s' old), m_udpPort (heap s' old), m_tcpPort (heap s' old), m_version (heap s' old), m_udpKey (heap s' old)) =
      (m_ip (heap s old), m_udpPort (heap s old), m_tcpPort (heap s old), m_version (heap s old), m_udpKey (heap s old))) \<and>
    (ret \<longrightarrow> (m_ip (heap s' old), m_udpPort (heap s' old), m_tcpPort (heap s' old), m_version (heap s' old)) = (ip, port, tport, version)) \<and>
    m_version (heap s old) \<le> m_version (heap s' old) \<and>
    (\<not> ret \<longrightarrow> heap s' old = heap s old \<or> version < m_version (heap s old) \<and> heap s' old = SetIPAddress ip (heap s old))"
proof -
  have ok: "table_ok me z s" using reach_table_ok [OF assms(1)] by simp
  define c where "c = made_contact me now ident ip port tport version key ipVerified fromHello"
  have cl: "claims c = (ip, port, tport, version)" "m_udpKey c = key"
    by (simp_all add: c_def made_contact_def new_contact_def claims_def Let_def)
  let ?t = "alloc c s"
  let ?r = "next_ref s"
  have ne: "?r \<noteq> old" using assms(2) table_ok_fresh [OF ok] by auto
  then have old: "heap ?t old = heap s old" and r: "heap ?t ?r = c" by simp_all
  show ?thesis
  proof (cases "ident = me")
    case True
    then have "\<not> ret \<and> z' = z \<and> s' = s" using assms(4) by (simp add: AddUnfiltered_def)
    then show ?thesis by simp
  next
    case False
    obtain ret1 up v1 z1 s1 where a: "zone_Add myIP now ?r update ipVerified z ?t = (ret1, up, v1, z1, s1)"
      by (cases "zone_Add myIP now ?r update ipVerified z ?t")
    have t: "zone_ok ?t z" using ok table_ok_fresh [OF ok]
      by (subst zone_ok_cong [of _ _ s]) (auto simp: table_ok_def tree_inv_def)
    have dist: "m_clientID (heap ?t old) = m_clientID (heap ?t ?r)" "m_distance (heap ?t old) = m_distance (heap ?t ?r)"
      using assms(2,3) ok ne by (simp_all add: c_def table_ok_def)
    obtain b b1 where nr: "\<not> ret1" and b: "old \<in> set b" "bin_ok ?t b"
      and u: "update_known myIP now ?r old update ipVerified b ?t = (up, v1, b1, s1)" and zb: "b1 = b \<longrightarrow> z1 = z"
      using zone_Add_known [OF t assms(2) dist a] by blast
    have res: "ret = up" "z' = z1" "heap s' = heap s1"
      using assms(4) a nr False by (auto simp: AddUnfiltered_def Let_def alloc_def c_def made_contact_def delete_contact_def)
    consider (denied) "\<not> update \<or> protected_key myIP (heap s old) c"
      | (leg) "update" "\<not> protected_key myIP (heap s old) c" "legacy (heap s old)"
      | (full) "update" "\<not> protected_key myIP (heap s old) c" "\<not> legacy (heap s old)" by blast
    then show ?thesis
    proof cases
      case denied
      then have "(up, v1, b1, s1) = (False, ipVerified, b, ?t)"
        using u update_known_denied [of update myIP ?t old ?r now ipVerified b] old r by simp
      then show ?thesis using res zb old by auto
    next
      case leg
      have "(up, v1, b1, s1) = (if claims (heap s old) = claims c
          then (True, m_ipVerified (heap s old), PushToBottom old b, update_contact old (UpdateType now) ?t)
          else (False, ipVerified, b, ?t))"
        using u update_known_legacy [of update myIP ?t old ?r b now ipVerified] leg b old r by simp
      then show ?thesis using res leg cl old by (auto simp: protected_key_def claims_def split: if_splits)
    next
      case full
      note F = update_known_full [OF full(1) _ _ b(2,1) ne u]
      have "\<not> protected_key myIP (heap ?t old) (heap ?t ?r)" "\<not> legacy (heap ?t old)" using full old r by simp_all
      note F = F [OF this]
      show ?thesis using F full res cl old r by (auto simp: protected_key_def legacy_def claims_def)
    qed
  qed
qed

section \<open>A concrete table\<close>

definition wit_id :: CUInt128 where "wit_id = SetValue32 5"

definition wit_key :: CKadUDPKey where "wit_key = \<lparr>m_key = 77, m_key_ip = 9\<rparr>"

definition wit_start :: kad where
  "wit_start = \<lparr>heap = (\<lambda>_. new_contact (SetValue32 0) 0 0 0 0 wit_key False (SetValue32 0) 0),
     s_globalContactIPs = Map.empty, s_globalContactSubnets = Map.empty, deleted = [], next_ref = 0\<rparr>"

definition wit_add :: "bool \<Rightarrow> nat \<Rightarrow> uint32 \<Rightarrow> CKadUDPKey \<Rightarrow> CRoutingZone \<Rightarrow> kad \<Rightarrow> bool \<times> bool \<times> CRoutingZone \<times> kad" where
  "wit_add update version ip key z s =
     AddUnfiltered (SetValue32 0) 9 1000 wit_id ip 4672 4662 version key True update False z s"

definition wit_z :: CRoutingZone where "wit_z = fst (snd (snd (wit_add False 8 0x01020304 wit_key root_zone wit_start)))"

definition wit_s :: kad where "wit_s = snd (snd (snd (wit_add False 8 0x01020304 wit_key root_zone wit_start)))"

lemma wit_reach: "kad_reach (SetValue32 0) (wit_z, wit_s)"
proof -
  have "start wit_start" by (simp add: start_def wit_start_def)
  then have r: "kad_reach (SetValue32 0) (root_zone, wit_start)" by (rule kad_reach.start)
  obtain ret v z s where a: "wit_add False 8 0x01020304 wit_key root_zone wit_start = (ret, v, z, s)"
    by (cases "wit_add False 8 0x01020304 wit_key root_zone wit_start")
  then have "kad_step (SetValue32 0) (root_zone, wit_start) (z, s)"
    unfolding wit_add_def by (rule kad_step.add)
  with r have "kad_reach (SetValue32 0) (z, s)" by (rule kad_reach.step)
  then show ?thesis by (simp add: wit_z_def wit_s_def a)
qed

lemma wit_zone: "wit_z = Leaf 0 (SetValue32 0) [0]"
  by code_simp

lemma wit_contact: "m_clientID (heap wit_s 0) = wit_id \<and> m_ip (heap wit_s 0) = 0x01020304 \<and> m_version (heap wit_s 0) = 8 \<and>
   m_udpKey (heap wit_s 0) = wit_key \<and> next_ref wit_s = 1 \<and> m_inUse (heap wit_s 0) = 0 \<and> deleted wit_s = []"
  by code_simp

theorem kad_limits_witness:
  "zone_entries wit_z = [0] \<and> unat (tracked (s_globalContactIPs wit_s) 0x01020304) = 1 \<and> GetMaxDepth wit_z \<le> 127"
proof -
  note P = kad_limits [OF wit_reach]
  have "zone_entries wit_z = [0]" by (simp add: wit_zone)
  moreover have "unat (tracked (s_globalContactIPs wit_s) 0x01020304) = 1"
    using P wit_contact by (simp add: wit_zone)
  ultimately show ?thesis using P by blast
qed

theorem kad_no_use_after_free_witness:
  "0 \<notin> set (deleted wit_s) \<and>
   (\<exists>m z' s'. zone_OnSmallTimer 2000 [] wit_z wit_s = (m, z', s') \<and> set (zone_entries z') \<inter> set (deleted s') = {})"
proof -
  obtain m z' s' where t: "zone_OnSmallTimer 2000 [] wit_z wit_s = (m, z', s')"
    by (cases "zone_OnSmallTimer 2000 [] wit_z wit_s")
  have "set (zone_entries z') \<inter> set (deleted s') = {}"
    using kad_no_use_after_free [OF wit_reach kad_step.timer [OF t]] by blast
  then show ?thesis using t wit_contact by simp
qed

theorem kad_add_witness:
  "\<exists>v z' s'. wit_add True 8 0x01020304 wit_key wit_z wit_s = (True, v, z', s') \<and>
     zone_GetContact (SetValue32 0) (heap s') wit_id z' \<noteq> None"
proof -
  obtain ret v z' s' where a: "wit_add True 8 0x01020304 wit_key wit_z wit_s = (ret, v, z', s')"
    by (cases "wit_add True 8 0x01020304 wit_key wit_z wit_s")
  have "fst (wit_add True 8 0x01020304 wit_key wit_z wit_s)" by code_simp
  then have ret by (simp add: a)
  then show ?thesis using kad_add [OF wit_reach a [unfolded wit_add_def]] a by auto
qed

theorem kad_known_contact_witness:
  "\<exists>v s'. wit_add True 8 0x05060708 \<lparr>m_key = 78, m_key_ip = 9\<rparr> wit_z wit_s = (False, v, wit_z, s') \<and>
     m_ip (heap s' 0) = 0x01020304"
proof -
  obtain ret v z' s' where a: "wit_add True 8 0x05060708 \<lparr>m_key = 78, m_key_ip = 9\<rparr> wit_z wit_s = (ret, v, z', s')"
    by (cases "wit_add True 8 0x05060708 \<lparr>m_key = 78, m_key_ip = 9\<rparr> wit_z wit_s")
  have "GetKeyValue (m_udpKey (heap wit_s 0)) 9 \<noteq> 0 \<and> GetKeyValue (m_udpKey (heap wit_s 0)) 9 \<noteq> GetKeyValue \<lparr>m_key = 78, m_key_ip = 9\<rparr> 9"
    using wit_contact by (simp add: wit_key_def GetKeyValue_def)
  then have "\<not> ret \<and> z' = wit_z \<and> heap s' 0 = heap wit_s 0"
    using kad_known_contact [OF wit_reach _ _ a [unfolded wit_add_def], of 0] wit_contact by (simp add: wit_zone)
  then show ?thesis using a wit_contact by simp
qed

text \<open>
  The comment says that a Kad1 answer must not overwrite a Kad2 contact. Its address is overwritten all the
  same: \<open>ChangeContactIPAddress\<close> runs before the versions are compared. Here a message of version 1 that
  carries no key moves a contact of version 8 that has none, although it is denied.
\<close>

lemma lower_version_moves_address:
  "let none = \<lparr>m_key = 0, m_key_ip = 0\<rparr>;
       (_, _, z, s) = wit_add False 8 0x01020304 none root_zone wit_start;
       (ret, _, z', s') = wit_add True 1 0x05060708 none z s
   in \<not> ret \<and> zone_entries z' = [0] \<and> m_ip (heap s' 0) = 0x05060708 \<and> m_version (heap s' 0) = 8 \<and> \<not> m_ipVerified (heap s' 0)"
  by code_simp

end
