(* ===== verification/Routing_Closest.thy ===== *)
theory Routing_Closest
  imports Routing_Props
begin

text \<open>
  Searching the routing table (\<open>GetClosestTo\<close> of \<open>src/src/kademlia/routing/RoutingBin.cpp\<close> and
  \<open>RoutingZone.cpp\<close>): the walk through the tree against the specification that sorts all contacts; the
  refreshing lookups of \<open>OnBigTimer\<close>; and what \<open>Consolidate\<close> merges.
\<close>

section \<open>Results in order\<close>

definition eligible :: "nat \<Rightarrow> kad \<Rightarrow> nat \<Rightarrow> bool" where
  "eligible maxType s r \<longleftrightarrow> m_type (heap s r) \<le> maxType \<and> m_ipVerified (heap s r)"

definition distance_to :: "CUInt128 \<Rightarrow> kad \<Rightarrow> nat \<Rightarrow> CUInt128" where
  "distance_to target s r = XOR128 (m_clientID (heap s r)) target"

text \<open>The eligible contacts of a list with their distances, closest first.\<close>

definition ranked :: "nat \<Rightarrow> CUInt128 \<Rightarrow> kad \<Rightarrow> bin \<Rightarrow> ContactMap" where
  "ranked maxType target s b = sort_key fst (map (\<lambda>r. (distance_to target s r, r)) (filter (eligible maxType s) b))"

lemma sm_ok_sorted: "sm_ok m \<longleftrightarrow> sorted (map fst m) \<and> distinct (map fst m)"
  by (simp add: sm_ok_def strict_sorted_iff)

lemma sm_ok_unique:
  assumes "sm_ok a" and "sm_ok b" and "set a = set b"
  shows "a = b"
proof -
  have "inj_on fst (set a \<union> set b)" using sm_ok_distinct [OF assms(1)] assms(3) by (simp add: distinct_map)
  moreover have "distinct a" "distinct b" using assms(1,2) by (auto simp: sm_ok_sorted distinct_map)
  ultimately show ?thesis
    using map_sorted_distinct_set_unique [of fst a b] assms by (simp add: sm_ok_sorted)
qed

lemma sm_ok_sort: "distinct (map fst ps) \<Longrightarrow> sm_ok (sort_key fst ps)"
  by (simp add: sm_ok_sorted distinct_map)

lemma set_sm_put_new: "sm_ok m \<Longrightarrow> k \<notin> fst ` set m \<Longrightarrow> set (sm_put k v m) = insert (k, v) (set m)"
proof -
  assume ok: "sm_ok m" and k: "k \<notin> fst ` set m"
  have "(j, w) \<in> set (sm_put k v m) \<longleftrightarrow> (j, w) \<in> insert (k, v) (set m)" for j w
    using k unfolding sm_ok_mem [OF sm_ok_sm_put [OF ok]] map_of_sm_put [OF ok]
    by (cases "j = k") (auto simp: sm_ok_mem [OF ok, symmetric] image_iff)
  then show ?thesis by auto
qed

text \<open>Putting new keys into a sorted map keeps it sorted.\<close>

lemma fold_sm_put:
  assumes "sm_ok m" and "distinct (map fst (m @ ps))"
  shows "sm_ok (fold (\<lambda>p. sm_put (fst p) (snd p)) ps m) \<and> set (fold (\<lambda>p. sm_put (fst p) (snd p)) ps m) = set m \<union> set ps"
  using assms
proof (induction ps arbitrary: m)
  case (Cons p ps)
  have put: "set (sm_put (fst p) (snd p) m) = insert p (set m)"
    using Cons.prems set_sm_put_new [of m "fst p" "snd p"] by auto
  have ok: "sm_ok (sm_put (fst p) (snd p) m)" using Cons.prems(1) by (rule sm_ok_sm_put)
  have "distinct (map fst (sm_put (fst p) (snd p) m @ ps))"
    using Cons.prems sm_ok_distinct [OF ok] by (auto simp: put)
  then show ?case using Cons.IH [OF ok] put by auto
qed simp

lemma sm_ok_ranked:
  assumes "distinct (map (distance_to target s) b)"
  shows "sm_ok (ranked maxType target s b)"
proof -
  have "distinct (map (distance_to target s) (filter (eligible maxType s) b))" using assms by (rule distinct_map_filter)
  then show ?thesis unfolding ranked_def by (intro sm_ok_sort) (simp add: o_def)
qed

lemma set_ranked: "set (ranked maxType target s b) = (\<lambda>r. (distance_to target s r, r)) ` {r \<in> set b. eligible maxType s r}"
  by (simp add: ranked_def)

lemma length_ranked: "length (ranked maxType target s b) = length (filter (eligible maxType s) b)"
  by (simp add: ranked_def)

text \<open>A list whose first part is closer than its second is ranked part by part.\<close>

lemma ranked_append:
  assumes "distinct (map (distance_to target s) (b @ c))"
    and "\<And>r q. r \<in> set b \<Longrightarrow> q \<in> set c \<Longrightarrow> distance_to target s r < distance_to target s q"
  shows "ranked maxType target s (b @ c) = ranked maxType target s b @ ranked maxType target s c"
proof (rule sm_ok_unique)
  show "sm_ok (ranked maxType target s (b @ c))" using assms(1) by (rule sm_ok_ranked)
  show "sm_ok (ranked maxType target s b @ ranked maxType target s c)"
    using assms sm_ok_ranked [of target s b maxType] sm_ok_ranked [of target s c maxType]
    by (auto simp: sm_ok_append set_ranked)
qed (auto simp: set_ranked)

lemma ranked_swap:
  "distinct (map (distance_to target s) (b @ c)) \<Longrightarrow> ranked maxType target s (b @ c) = ranked maxType target s (c @ b)"
proof (rule sm_ok_unique)
  assume d: "distinct (map (distance_to target s) (b @ c))"
  then show "sm_ok (ranked maxType target s (b @ c))" by (rule sm_ok_ranked)
  have "distinct (map (distance_to target s) (c @ b))" using d by auto
  then show "sm_ok (ranked maxType target s (c @ b))" by (rule sm_ok_ranked)
qed (auto simp: set_ranked)

lemma ranked_frame:
  assumes "\<And>r. m_clientID (heap t r) = m_clientID (heap s r) \<and> m_type (heap t r) = m_type (heap s r) \<and> m_ipVerified (heap t r) = m_ipVerified (heap s r)"
  shows "ranked maxType target t b = ranked maxType target s b"
  unfolding ranked_def eligible_def distance_to_def by (simp add: assms)

section \<open>Searching a bin\<close>

text \<open>The use counts: \<open>R\<close> are the contacts handed out.\<close>

definition used :: "bool \<Rightarrow> nat set \<Rightarrow> kad \<Rightarrow> nat \<Rightarrow> CContact" where
  "used inUse R s r = (if inUse \<and> r \<in> R then IncUse (heap s r) else heap s r)"

lemma trim_results_eq:
  assumes "distinct (map snd res)"
  shows "fst (trim_results n u res s) = take n res \<and>
    heap (snd (trim_results n u res s)) = (\<lambda>r. if u \<and> r \<in> snd ` set (drop n res) then DecUse (heap s r) else heap s r)"
  using assms
proof (induction n u res s rule: trim_results.induct)
  case (1 n u res s)
  show ?case
  proof (cases "n < length res")
    case True
    let ?s = "if u then update_contact (snd (last res)) DecUse s else s"
    obtain xs x where res: "res = xs @ [x]" using True by (cases res rule: rev_cases) auto
    have n: "n \<le> length xs" using True res by simp
    have new: "snd x \<notin> snd ` set xs" using 1(2) by (auto simp: res)
    have IH: "fst (trim_results n u xs ?s) = take n xs \<and>
      heap (snd (trim_results n u xs ?s)) = (\<lambda>r. if u \<and> r \<in> snd ` set (drop n xs) then DecUse (heap ?s r) else heap ?s r)"
      using 1(1) [OF True] 1(2) by (simp add: res)
    have e: "trim_results n u res s = trim_results n u xs ?s"
      using trim_results.simps [of n u res s] True by (simp add: res)
    have "snd x \<notin> snd ` set (drop n xs)" using new by (auto dest: in_set_dropD)
    then have "(\<lambda>r. if u \<and> r \<in> snd ` set (drop n xs) then DecUse (heap ?s r) else heap ?s r) =
      (\<lambda>r. if u \<and> r \<in> snd ` set (drop n res) then DecUse (heap s r) else heap s r)"
      using n by (auto simp: res fun_eq_iff)
    then show ?thesis using IH n unfolding e by (simp add: res)
  next
    case False
    then show ?thesis using trim_results.simps [of n u res s] by simp
  qed
qed

definition rank_step :: "nat \<Rightarrow> CUInt128 \<Rightarrow> bool \<Rightarrow> nat \<Rightarrow> ContactMap \<times> kad \<Rightarrow> ContactMap \<times> kad" where
  "rank_step maxType target inUse r x =
     (case x of (result, s) \<Rightarrow>
        if m_type (heap s r) \<le> maxType \<and> m_ipVerified (heap s r) then
          (sm_put (XOR128 (m_clientID (heap s r)) target) r result, if inUse then update_contact r IncUse s else s)
        else (result, s))"

lemma GetClosestTo_eq:
  "GetClosestTo maxType target n emptyFirst inUse b m s =
     (if b = [] then ((if emptyFirst then [] else m), s)
      else (let (res, s) = fold (rank_step maxType target inUse) b ((if emptyFirst then [] else m), s) in trim_results n inUse res s))"
  by (simp add: GetClosestTo_def rank_step_def [abs_def] Let_def)

lemma IncUse_simps [simp]: "m_type (IncUse c) = m_type c" "m_ipVerified (IncUse c) = m_ipVerified c" "DecUse (IncUse c) = c"
  by (simp_all add: IncUse_def DecUse_def)

lemma rank_fold:
  assumes "distinct b"
  shows "fst (fold (rank_step maxType target inUse) b (m, s)) =
      fold (\<lambda>p. sm_put (fst p) (snd p)) (map (\<lambda>r. (distance_to target s r, r)) (filter (eligible maxType s) b)) m \<and>
    heap (snd (fold (rank_step maxType target inUse) b (m, s))) = used inUse {r \<in> set b. eligible maxType s r} s"
  using assms
proof (induction b arbitrary: m s)
  case Nil
  then show ?case by (simp add: used_def fun_eq_iff)
next
  case (Cons r b)
  let ?s = "if eligible maxType s r \<and> inUse then update_contact r IncUse s else s"
  let ?m = "if eligible maxType s r then sm_put (distance_to target s r) r m else m"
  have step: "rank_step maxType target inUse r (m, s) = (?m, ?s)"
    by (simp add: rank_step_def eligible_def distance_to_def)
  have same: "eligible maxType ?s q = eligible maxType s q" "distance_to target ?s q = distance_to target s q" for q
    by (simp_all add: eligible_def distance_to_def)
  note IH = Cons.IH [of ?m ?s]
  have "used inUse {q \<in> set b. eligible maxType s q} ?s = used inUse {q \<in> set (r # b). eligible maxType s q} s"
    using Cons.prems by (auto simp: used_def fun_eq_iff)
  then show ?case using IH Cons.prems unfolding same by (simp add: step)
qed

lemma bin_closest:
  assumes "distinct b" and "distinct (map (distance_to target s) b)" and "sm_ok m" and "distinct (map snd m)" and "length m \<le> n"
    and "emptyFirst \<longrightarrow> m = []" and "snd ` set m \<inter> set b = {}"
    and "\<And>k r. k \<in> fst ` set m \<Longrightarrow> r \<in> set b \<Longrightarrow> k < distance_to target s r"
  shows "fst (GetClosestTo maxType target n emptyFirst inUse b m s) = take n (m @ ranked maxType target s b) \<and>
    heap (snd (GetClosestTo maxType target n emptyFirst inUse b m s)) =
      used inUse (snd ` set (take (n - length m) (ranked maxType target s b))) s"
proof (cases "b = []")
  case True
  then show ?thesis using assms(5,6) by (auto simp: GetClosestTo_eq ranked_def used_def fun_eq_iff)
next
  case False
  let ?ps = "map (\<lambda>r. (distance_to target s r, r)) (filter (eligible maxType s) b)"
  let ?R = "ranked maxType target s b"
  obtain res t where f: "fold (rank_step maxType target inUse) b (m, s) = (res, t)" by fastforce
  have res: "res = fold (\<lambda>p. sm_put (fst p) (snd p)) ?ps m" and heap: "heap t = used inUse {r \<in> set b. eligible maxType s r} s"
    using rank_fold [OF assms(1), of maxType target inUse m s] by (simp_all add: f)
  have dk: "distinct (map fst (m @ ?ps))"
    using sm_ok_distinct [OF assms(3)] assms(8) distinct_map_filter [OF assms(2), of "eligible maxType s"]
    by (fastforce simp: o_def)
  have R: "sm_ok ?R" using assms(2) by (rule sm_ok_ranked)
  have "res = m @ ?R"
  proof (rule sm_ok_unique)
    show "sm_ok res" using fold_sm_put [OF assms(3) dk] by (simp add: res)
    show "set res = set (m @ ?R)" using fold_sm_put [OF assms(3) dk] by (auto simp: res set_ranked)
    show "sm_ok (m @ ?R)" using assms(3,8) R by (auto simp: sm_ok_append set_ranked)
  qed
  moreover have "GetClosestTo maxType target n emptyFirst inUse b m s = trim_results n inUse res t"
    using False f assms(6) by (auto simp: GetClosestTo_eq)
  moreover have snds: "distinct (map snd (m @ ?R))"
  proof -
    have "mset (map snd ?R) = mset (filter (eligible maxType s) b)" by (simp add: ranked_def image_mset.compositionality o_def)
    then have "distinct (map snd ?R) \<and> set (map snd ?R) = set (filter (eligible maxType s) b)"
      using assms(1) mset_eq_imp_distinct_iff mset_eq_setD by (metis distinct_filter)
    then show ?thesis using assms(4,7) by auto
  qed
  ultimately have T: "fst (GetClosestTo maxType target n emptyFirst inUse b m s) = take n (m @ ?R) \<and>
    heap (snd (GetClosestTo maxType target n emptyFirst inUse b m s)) =
      (\<lambda>r. if inUse \<and> r \<in> snd ` set (drop n (m @ ?R)) then DecUse (heap t r) else heap t r)"
    using trim_results_eq [of res n inUse t] by simp
  have d: "drop n (m @ ?R) = drop (n - length m) ?R" using assms(5) by simp
  have all: "snd ` set ?R = {r \<in> set b. eligible maxType s r}" by (auto simp: set_ranked image_iff)
  have split: "snd ` set ?R = snd ` set (take k ?R) \<union> snd ` set (drop k ?R)" for k
    by (metis append_take_drop_id image_Un set_append)
  have disj: "snd ` set (take k ?R) \<inter> snd ` set (drop k ?R) = {}" for k
  proof -
    have "distinct (map snd (take k ?R @ drop k ?R))" using snds by simp
    then show ?thesis unfolding map_append distinct_append by simp
  qed
  have "(\<lambda>r. if inUse \<and> r \<in> snd ` set (drop n (m @ ?R)) then DecUse (heap t r) else heap t r) =
      used inUse (snd ` set (take (n - length m) ?R)) s"
    unfolding heap d all [symmetric] used_def
    using split [of "n - length m"] disj [of "n - length m"] by (auto simp: fun_eq_iff)
  then show ?thesis using T by simp
qed

section \<open>Searching the tree\<close>

lemma level_XOR: "level (XOR128 x y) b \<longleftrightarrow> level x b \<noteq> level y b"
  by (auto simp: level_def val128_XOR bit_xor_iff)

lemma word_less_bits:
  fixes x y :: "128 word"
  assumes "k < 128" and "\<And>j. k < j \<Longrightarrow> j < 128 \<Longrightarrow> bit x j = bit y j" and "\<not> bit x k" and "bit y k"
  shows "x < y"
proof -
  have "drop_bit (Suc k) (uint x) = drop_bit (Suc k) (uint y)"
  proof (rule bit_eqI)
    fix n
    show "bit (drop_bit (Suc k) (uint x)) n = bit (drop_bit (Suc k) (uint y)) n"
    proof (cases "Suc k + n < 128")
      case True
      then show ?thesis using assms(2) [of "Suc k + n"] by (simp add: bit_drop_bit_eq bit_uint_iff)
    next
      case False
      then show ?thesis by (simp add: bit_drop_bit_eq bit_uint_iff)
    qed
  qed
  then have hi: "uint x div 2 ^ Suc k = uint y div 2 ^ Suc k" by (simp only: drop_bit_eq_div)
  have "\<not> bit (uint x) k" "bit (uint y) k" using assms(1,3,4) by (simp_all add: bit_uint_iff)
  then have "uint x div 2 ^ k mod 2 = 0" "uint y div 2 ^ k mod 2 = 1"
    unfolding bit_iff_odd by presburger+
  moreover have "uint x div 2 ^ Suc k = uint x div 2 ^ k div 2" "uint y div 2 ^ Suc k = uint y div 2 ^ k div 2"
    by (simp_all only: power_Suc2 zdiv_zmult2_eq zero_le_numeral zero_le_power)
  ultimately have "uint x div 2 ^ k < uint y div 2 ^ k" using hi
    by (metis add.right_neutral div_mult_mod_eq less_add_one)
  then have "uint x < uint y" by (metis div_le_dividend linorder_not_less zdiv_mono1 zero_less_numeral zero_less_power)
  then show ?thesis by (simp add: word_less_def)
qed

lemma level_less:
  assumes "\<And>b. b < l \<Longrightarrow> level x b = level y b" and "\<not> level x l" and "level y l"
  shows "x < y"
proof -
  have l: "l < 128" using assms(3) by (simp add: level_def)
  have "val128 x < val128 y"
  proof (rule word_less_bits [of "127 - l"])
    fix j :: nat assume "127 - l < j" "j < 128"
    then have "127 - j < l" "127 - (127 - j) = j" by linarith+
    then show "bit (val128 x) j = bit (val128 y) j" using assms(1) [of "127 - j"] \<open>127 - j < l\<close> l by (simp add: level_def)
  qed (use assms(2,3) l in \<open>simp_all add: level_def\<close>)
  then show ?thesis using CompareTo_val [of x y] by (simp add: less_CUInt128_def)
qed

lemma XOR128_cancel: "XOR128 x t = XOR128 y t \<longleftrightarrow> x = y"
proof
  assume "XOR128 x t = XOR128 y t"
  then have "level (XOR128 x t) b = level (XOR128 y t) b" for b by simp
  then show "x = y" unfolding level_XOR by (intro level_eqI) blast
qed simp

lemma distinct_distances:
  "distinct (map (\<lambda>r. m_clientID (heap s r)) b) \<Longrightarrow> distinct (map (distance_to target s) b)"
  by (simp add: distinct_map inj_on_def distance_to_def XOR128_cancel)

text \<open>All contacts of a zone agree on the bits above its level.\<close>

definition agreeing :: "kad \<Rightarrow> nat \<Rightarrow> bin \<Rightarrow> bool" where
  "agreeing s l b \<longleftrightarrow> (\<forall>r \<in> set b. \<forall>q \<in> set b. \<forall>i < l. level (m_distance (heap s r)) i = level (m_distance (heap s q)) i)"

lemma agreeing_append: "agreeing s l (b @ c) \<Longrightarrow> agreeing s l b \<and> agreeing s l c"
  unfolding agreeing_def set_append by blast

lemma agreeing_Suc:
  assumes "agreeing s l b" and "\<And>r. r \<in> set b \<Longrightarrow> level (m_distance (heap s r)) l = d"
  shows "agreeing s (l + 1) b"
  unfolding agreeing_def
proof (intro ballI allI impI)
  fix r q i assume rq: "r \<in> set b" "q \<in> set b" and "i < l + 1"
  then consider "i < l" | "i = l" by linarith
  then show "level (m_distance (heap s r)) i = level (m_distance (heap s q)) i"
  proof cases
    case 1
    then show ?thesis using assms(1) rq unfolding agreeing_def by blast
  next
    case 2
    then show ?thesis using assms(2) rq by simp
  qed
qed

lemma side_level: "side s r l \<longleftrightarrow> level (m_distance (heap s r)) l"
  by (simp add: side_def GetBitNumber_level)

lemma level_distance_to:
  "m_distance (heap s r) = XOR128 me (m_clientID (heap s r)) \<Longrightarrow>
   level (distance_to target s r) i \<longleftrightarrow> level (m_distance (heap s r)) i \<noteq> level (XOR128 me target) i"
  by (auto simp: distance_to_def level_XOR)

lemma nearer_side:
  assumes "agreeing s l (b @ c)" and "placed me s (b @ c)" and "r \<in> set b" and "q \<in> set c"
    and "side s r l = level (XOR128 me target) l" and "side s q l \<noteq> level (XOR128 me target) l"
  shows "distance_to target s r < distance_to target s q"
proof -
  have d: "m_distance (heap s r) = XOR128 me (m_clientID (heap s r))" "m_distance (heap s q) = XOR128 me (m_clientID (heap s q))"
    using assms(2,3,4) by (simp_all add: placed_def)
  note L = level_distance_to [OF d(1), of target] level_distance_to [OF d(2), of target]
  show ?thesis
  proof (rule level_less [of l])
    fix i assume "i < l"
    then have "level (m_distance (heap s r)) i = level (m_distance (heap s q)) i" using assms(1,3,4) by (auto simp: agreeing_def)
    then show "level (distance_to target s r) i = level (distance_to target s q) i" by (simp add: L)
  qed (use assms(5,6) in \<open>simp_all add: L side_level\<close>)
qed

definition closest_spec :: "nat \<Rightarrow> CUInt128 \<Rightarrow> nat \<Rightarrow> bool \<Rightarrow> bin \<Rightarrow> ContactMap \<Rightarrow> kad \<Rightarrow> ContactMap \<times> kad \<Rightarrow> bool" where
  "closest_spec maxType target n inUse b m s out \<longleftrightarrow>
     fst out = take n (m @ ranked maxType target s b) \<and>
     heap (snd out) = used inUse (snd ` set (take (n - length m) (ranked maxType target s b))) s"

definition closest_pre :: "CUInt128 \<Rightarrow> nat \<Rightarrow> bool \<Rightarrow> bin \<Rightarrow> ContactMap \<Rightarrow> kad \<Rightarrow> bool" where
  "closest_pre target n emptyFirst b m s \<longleftrightarrow>
     distinct b \<and> distinct (map (distance_to target s) b) \<and> sm_ok m \<and> distinct (map snd m) \<and> length m \<le> n \<and>
     (emptyFirst \<longrightarrow> m = []) \<and> snd ` set m \<inter> set b = {} \<and> (\<forall>k \<in> fst ` set m. \<forall>r \<in> set b. k < distance_to target s r)"

lemma used_facts [simp]:
  "m_clientID (used u R s r) = m_clientID (heap s r)" "m_distance (used u R s r) = m_distance (heap s r)"
  "m_ip (used u R s r) = m_ip (heap s r)" "m_type (used u R s r) = m_type (heap s r)"
  "m_ipVerified (used u R s r) = m_ipVerified (heap s r)"
  by (simp_all add: used_def)

text \<open>A search of the nearer part and then, if that is not enough, of the farther part.\<close>

lemma closest_parts:
  assumes pre: "closest_pre target n emptyFirst (b @ c) m s"
    and near: "\<And>r q. r \<in> set b \<Longrightarrow> q \<in> set c \<Longrightarrow> distance_to target s r < distance_to target s q"
    and 1: "closest_spec maxType target n inUse b m s (res, t)"
    and 2: "length res < n \<Longrightarrow> closest_spec maxType target n inUse c res t out"
    and 3: "\<not> length res < n \<Longrightarrow> out = (res, t)"
  shows "closest_spec maxType target n inUse (b @ c) m s out"
proof -
  let ?b = "ranked maxType target s b" and ?c = "ranked maxType target s c"
  have d: "distinct (map (distance_to target s) (b @ c))" and len: "length m \<le> n" using pre by (simp_all add: closest_pre_def)
  have bc: "ranked maxType target s (b @ c) = ?b @ ?c" by (rule ranked_append [OF d near])
  have res: "res = take n (m @ ?b)" and t: "heap t = used inUse (snd ` set (take (n - length m) ?b)) s"
    using 1 by (simp_all add: closest_spec_def)
  show ?thesis
  proof (cases "length res < n")
    case True
    then have r: "res = m @ ?b" "length m + length ?b < n" using res by auto
    have ct: "ranked maxType target t c = ?c" by (rule ranked_frame) (simp add: t)
    have out: "fst out = take n (m @ ?b @ ?c)" "heap (snd out) = used inUse (snd ` set (take (n - length m - length ?b) ?c)) t"
      using 2 [OF True] r by (simp_all add: closest_spec_def ct)
    have bset: "set b \<inter> set c = {}" using pre by (simp add: closest_pre_def)
    have "snd ` set ?b \<subseteq> set b" "snd ` set (take (n - length m - length ?b) ?c) \<subseteq> set c"
      by (auto simp: set_ranked dest!: in_set_takeD)
    then have "used inUse (snd ` set (take (n - length m - length ?b) ?c)) t =
      used inUse (snd ` set ?b \<union> snd ` set (take (n - length m - length ?b) ?c)) s"
      using bset r(2) by (auto simp: used_def t fun_eq_iff)
    moreover have "take (n - length m) (?b @ ?c) = ?b @ take (n - length m - length ?b) ?c" using r(2) by simp
    ultimately show ?thesis using out by (simp add: closest_spec_def bc image_Un)
  next
    case False
    then have "n \<le> length m + length ?b" using res by (simp add: not_less min_def split: if_splits)
    then show ?thesis using 3 [OF False] res t by (simp add: closest_spec_def bc)
  qed
qed

lemma ranked_spec_swap:
  "distinct (map (distance_to target s) (b @ c)) \<Longrightarrow>
   closest_spec maxType target n inUse (b @ c) m s out = closest_spec maxType target n inUse (c @ b) m s out"
  by (simp add: closest_spec_def ranked_swap [of target s b c])

lemma tree_closest:
  assumes "zone_ok s z" and "placed me s (zone_entries z)" and "agreeing s (m_level z) (zone_entries z)"
    and "closest_pre target n emptyFirst (zone_entries z) m s"
  shows "closest_spec maxType target n inUse (zone_entries z) m s
    (zone_GetClosestTo maxType target (XOR128 me target) n emptyFirst inUse z m s)"
  using assms
proof (induction z arbitrary: m s emptyFirst)
  case (Leaf l i b)
  have "fst (GetClosestTo maxType target n emptyFirst inUse b m s) = take n (m @ ranked maxType target s b) \<and>
    heap (snd (GetClosestTo maxType target n emptyFirst inUse b m s)) =
      used inUse (snd ` set (take (n - length m) (ranked maxType target s b))) s"
    using Leaf(4) unfolding closest_pre_def zone_entries.simps by (intro bin_closest) blast+
  then show ?case unfolding closest_spec_def by simp
next
  case (Node l i z0 z1)
  let ?d = "level (XOR128 me target) l"
  define c f where "c = (if ?d then z1 else z0)" and "f = (if ?d then z0 else z1)"
  let ?c = "zone_entries c" and ?f = "zone_entries f"
  have bit: "(GetBitNumber (XOR128 me target) l \<noteq> 0) = ?d" by (simp add: GetBitNumber_level)
  have sub: "zone_ok s c" "zone_ok s f" "m_level c = l + 1" "m_level f = l + 1" using Node.prems(1) by (auto simp: c_def f_def)
  have sides: "\<And>r. r \<in> set ?c \<Longrightarrow> side s r l = ?d" "\<And>q. q \<in> set ?f \<Longrightarrow> side s q l \<noteq> ?d"
    using Node.prems(1) by (cases ?d; simp add: c_def f_def)+
  have sets: "set (?c @ ?f) = set (zone_entries (Node l i z0 z1))" by (cases ?d) (auto simp: c_def f_def)
  have pl: "placed me s (?c @ ?f)" using Node.prems(2) sets by (simp add: placed_def)
  have ag: "agreeing s l (?c @ ?f)" using Node.prems(3) unfolding agreeing_def sets CRoutingZone.sel .
  have agc: "agreeing s (l + 1) ?c"
    using agreeing_append [OF ag] sides(1) by (intro agreeing_Suc [of s l _ "?d"]) (simp_all add: side_level)
  have agf: "agreeing s (l + 1) ?f"
    using agreeing_append [OF ag] sides(2) by (intro agreeing_Suc [of s l _ "\<not> ?d"]) (simp_all add: side_level)
  have pre: "closest_pre target n emptyFirst (?c @ ?f) m s"
    using Node.prems(4) unfolding closest_pre_def sets by (cases ?d) (auto simp: c_def f_def)
  have near: "distance_to target s r < distance_to target s q" if "r \<in> set ?c" "q \<in> set ?f" for r q
    using nearer_side [OF ag pl that] sides that by blast
  have IH: "closest_spec maxType target n inUse (zone_entries y) m' s'
      (zone_GetClosestTo maxType target (XOR128 me target) n e inUse y m' s')"
    if "y = c \<or> y = f" "zone_ok s' y" "placed me s' (zone_entries y)" "agreeing s' (l + 1) (zone_entries y)"
      "m_level y = l + 1" "closest_pre target n e (zone_entries y) m' s'" for y m' s' e
    using that Node.IH by (auto simp: c_def f_def split: if_splits)
  obtain res t where g: "zone_GetClosestTo maxType target (XOR128 me target) n emptyFirst inUse c m s = (res, t)" by fastforce
  have 1: "closest_spec maxType target n inUse ?c m s (res, t)"
    unfolding g [symmetric] using pl pre sub agc
    by (intro IH) (auto simp: placed_def closest_pre_def)
  then have t: "heap t = used inUse (snd ` set (take (n - length m) (ranked maxType target s ?c))) s" and res: "res = take n (m @ ranked maxType target s ?c)"
    by (simp_all add: closest_spec_def)
  have dt: "distance_to target t = distance_to target s" by (simp add: distance_to_def t fun_eq_iff)
  have 2: "closest_spec maxType target n inUse ?f res t (zone_GetClosestTo maxType target (XOR128 me target) n False inUse f res t)"
  proof (rule IH)
    show "zone_ok t f" using sub(2) by (subst zone_ok_cong [of _ _ s]) (simp_all add: t)
    show "placed me t ?f" using pl by (simp add: placed_def t)
    show "agreeing t (l + 1) ?f" using agf unfolding agreeing_def t used_facts .
    have okc: "sm_ok (m @ ranked maxType target s ?c)"
      using pre sm_ok_ranked [of target s ?c maxType] by (auto simp: sm_ok_append set_ranked closest_pre_def)
    have keys: "set res \<subseteq> set m \<union> set (ranked maxType target s ?c)" using res by (auto dest: in_set_takeD)
    have "sm_ok res" unfolding res using okc by (metis append_take_drop_id sm_ok_append)
    moreover have "distinct (map snd res)"
    proof -
      have i: "inj_on snd (set (ranked maxType target s ?c))" by (auto simp: inj_on_def set_ranked)
      have "distinct (ranked maxType target s ?c)" using okc by (auto simp: sm_ok_append sm_ok_sorted distinct_map)
      then have "distinct (map snd (ranked maxType target s ?c))" using i by (simp add: distinct_map)
      moreover have "snd ` set m \<inter> snd ` set (ranked maxType target s ?c) = {}" using pre by (auto simp: closest_pre_def set_ranked)
      ultimately have "distinct (map snd (m @ ranked maxType target s ?c))" using pre by (simp add: closest_pre_def)
      then show ?thesis unfolding res by (simp only: take_map [symmetric] distinct_take)
    qed
    moreover have "snd ` set res \<inter> set ?f = {}" using pre keys by (fastforce simp: closest_pre_def set_ranked)
    moreover have "\<forall>k \<in> fst ` set res. \<forall>r \<in> set ?f. k < distance_to target t r"
      using pre keys near by (fastforce simp: closest_pre_def set_ranked dt)
    moreover have "length res \<le> n" by (simp add: res)
    ultimately show "closest_pre target n False ?f res t"
      using pre unfolding closest_pre_def dt by simp
  qed (use sub in simp_all)
  have "zone_GetClosestTo maxType target (XOR128 me target) n emptyFirst inUse (Node l i z0 z1) m s =
      (if length res < n then zone_GetClosestTo maxType target (XOR128 me target) n False inUse f res t else (res, t))"
    using g by (simp add: bit c_def f_def Let_def)
  then have "closest_spec maxType target n inUse (?c @ ?f) m s
      (zone_GetClosestTo maxType target (XOR128 me target) n emptyFirst inUse (Node l i z0 z1) m s)"
    using 2 by (intro closest_parts [OF pre near 1]) simp_all
  moreover have "distinct (map (distance_to target s) (?c @ ?f))" using pre by (simp add: closest_pre_def)
  ultimately show ?case using ranked_spec_swap [of target s ?c ?f] by (cases ?d) (simp_all add: c_def f_def)
qed

text \<open>
  C14. \<open>GetClosestTo\<close> on a reachable table gives the \<open>maxRequired\<close> closest contacts to the target among all
  contacts of the table with a verified address and a type of at most \<open>maxType\<close>, in the order of their
  distance, although it looks only into the zones it needs; with \<open>inUse\<close> exactly the contacts it gives
  have their use count increased.
\<close>

theorem kad_closest:
  assumes "kad_reach me (z, s)"
    and "zone_GetClosestTo maxType target (XOR128 me target) maxRequired True inUse z [] s = (result, s')"
  shows "result = take maxRequired (sort_key fst (map (\<lambda>r. (XOR128 (m_clientID (heap s r)) target, r))
      (filter (\<lambda>r. m_type (heap s r) \<le> maxType \<and> m_ipVerified (heap s r)) (zone_entries z)))) \<and>
    sorted_wrt (<) (map fst result) \<and>
    (\<forall>r. heap s' r = (if inUse \<and> r \<in> snd ` set result then IncUse (heap s r) else heap s r))"
proof -
  have ok: "table_ok me z s" using reach_table_ok [OF assms(1)] by simp
  note P = table_placed [OF ok]
  have l: "m_level z = 0" using ok by (simp add: table_ok_def)
  have d: "distinct (map (distance_to target s) (zone_entries z))" using P by (intro distinct_distances distinct_ids) auto
  have "closest_spec maxType target maxRequired inUse (zone_entries z) [] s (result, s')"
    unfolding assms(2) [symmetric] using P d
    by (intro tree_closest) (simp_all add: agreeing_def l closest_pre_def sm_ok_def)
  then have r: "result = take maxRequired (ranked maxType target s (zone_entries z))" and h: "heap s' = used inUse (snd ` set result) s"
    by (simp_all add: closest_spec_def)
  have "sm_ok (ranked maxType target s (zone_entries z))" using d by (rule sm_ok_ranked)
  then have "sorted_wrt (<) (map fst result)" unfolding r by (metis append_take_drop_id sm_ok_append sm_ok_def)
  then show ?thesis using r h by (simp add: ranked_def eligible_def [abs_def] distance_to_def used_def)
qed

theorem kad_closest_witness:
  "\<exists>s'. zone_GetClosestTo 3 wit_id (XOR128 (SetValue32 0) wit_id) 20 True True wit_z [] wit_s = ([(SetValue32 0, 0)], s') \<and>
     m_inUse (heap s' 0) = 1"
proof -
  obtain result s' where g: "zone_GetClosestTo 3 wit_id (XOR128 (SetValue32 0) wit_id) 20 True True wit_z [] wit_s = (result, s')"
    by fastforce
  note P = kad_closest [OF wit_reach g]
  have "m_type (heap wit_s 0) \<le> 3 \<and> m_ipVerified (heap wit_s 0)" by code_simp
  moreover have "XOR128 wit_id wit_id = SetValue32 0" by code_simp
  ultimately have "result = [(SetValue32 0, 0)]" using P wit_contact by (simp add: wit_zone)
  then show ?thesis using P g wit_contact by (simp add: IncUse_def)
qed

section \<open>Refreshing lookups\<close>

fun zone_leaves :: "CRoutingZone \<Rightarrow> CRoutingZone list" where
  "zone_leaves (Leaf l i b) = [Leaf l i b]"
| "zone_leaves (Node _ _ z0 z1) = zone_leaves z0 @ zone_leaves z1"

text \<open>The leaf in which a contact with an identifier is looked for.\<close>

fun leaf_of :: "CUInt128 \<Rightarrow> CUInt128 \<Rightarrow> CRoutingZone \<Rightarrow> CRoutingZone" where
  "leaf_of me ident (Leaf l i b) = Leaf l i b"
| "leaf_of me ident (Node l i z0 z1) = leaf_of me ident (if GetBitNumber (XOR128 me ident) l \<noteq> 0 then z1 else z0)"

definition index_bit :: "nat \<Rightarrow> CUInt128 \<Rightarrow> nat \<Rightarrow> bool" where
  "index_bit l i j = bit (val128 i) (l - 1 - j)"

lemma index_bit_sub:
  assumes "l < 127" and "j \<le> l"
  shows "index_bit (l + 1) (sub_index i (of_bool c)) j \<longleftrightarrow> (if j = l then c else index_bit l i j)"
proof -
  have "val128 (sub_index i (of_bool c)) = push_bit 1 (val128 i) + of_bool c"
    by (cases c) (simp_all add: sub_index_def Add32_def val128_Add val128_ShiftLeft val128_SetValue32)
  also have "\<dots> = push_bit 1 (val128 i) OR of_bool c"
  proof (rule or_is_add [symmetric])
    fix n assume "bit (push_bit 1 (val128 i)) n"
    then have "1 \<le> n" unfolding bit_push_bit_iff by blast
    then show "\<not> bit (of_bool c :: 128 word) n" by (cases c) (simp_all add: bit_1_iff)
  qed
  finally have v: "val128 (sub_index i (of_bool c)) = push_bit 1 (val128 i) OR of_bool c" .
  show ?thesis
  proof (cases "j = l")
    case True
    have "\<not> bit (push_bit 1 (val128 i)) 0" unfolding bit_push_bit_iff by simp
    then show ?thesis using True unfolding index_bit_def v bit_or_iff by (cases c) simp_all
  next
    case False
    then have "l - j \<noteq> 0" "l - j < 128" "l - j - 1 = l - 1 - j" using assms by linarith+
    moreover have "bit (push_bit 1 (val128 i)) (l - j) = bit (val128 i) (l - j - 1)"
      using calculation(1,2) unfolding bit_push_bit_iff by auto
    moreover have "\<not> bit (of_bool c :: 128 word) (l - j)" using calculation(1) by (cases c) (simp_all add: bit_1_iff)
    ultimately show ?thesis using False unfolding index_bit_def v bit_or_iff by simp
  qed
qed

lemma leaf_of_index:
  assumes "zone_ok s z" and "Leaf l i b \<in> set (zone_leaves z)"
  shows "m_level z \<le> l \<and> (\<forall>j < m_level z. index_bit l i j = index_bit (m_level z) (m_zoneIndex z) j) \<and>
    ((\<forall>j < l. level (XOR128 me ident) j = index_bit l i j) \<longrightarrow> leaf_of me ident z = Leaf l i b)"
  using assms
proof (induction z)
  case (Leaf l' i' b')
  then show ?case by simp
next
  case (Node k ix z0 z1)
  have k: "k < 127" using zone_ok_level [of s z0] Node.prems(1) by simp
  have sub: "m_level z0 = k + 1" "m_level z1 = k + 1" "m_zoneIndex z0 = sub_index ix (of_bool False)" "m_zoneIndex z1 = sub_index ix (of_bool True)"
    using Node.prems(1) by simp_all
  have *: "k \<le> l \<and> (\<forall>j < k. index_bit l i j = index_bit k ix j) \<and>
      ((\<forall>j < l. level (XOR128 me ident) j = index_bit l i j) \<longrightarrow> level (XOR128 me ident) k = c \<and> leaf_of me ident z = Leaf l i b)"
    if IH: "m_level z \<le> l \<and> (\<forall>j < m_level z. index_bit l i j = index_bit (m_level z) (m_zoneIndex z) j) \<and>
      ((\<forall>j < l. level (XOR128 me ident) j = index_bit l i j) \<longrightarrow> leaf_of me ident z = Leaf l i b)"
      and z: "m_level z = k + 1" "m_zoneIndex z = sub_index ix (of_bool c)" for z c
  proof -
    have b: "index_bit l i j \<longleftrightarrow> (if j = k then c else index_bit k ix j)" if "j \<le> k" for j
    proof -
      have "index_bit l i j = index_bit (k + 1) (sub_index ix (of_bool c)) j" using IH that unfolding z by simp
      then show ?thesis unfolding index_bit_sub [OF k that] .
    qed
    have 1: "k < l" using IH unfolding z by simp
    have 2: "index_bit l i j = index_bit k ix j" if "j < k" for j using b [of j] that by simp
    have 3: "index_bit l i k = c" using b [of k] by simp
    show ?thesis
    proof (intro conjI impI allI)
      assume a: "\<forall>j < l. level (XOR128 me ident) j = index_bit l i j"
      then show "level (XOR128 me ident) k = c" using 1 3 by blast
      show "leaf_of me ident z = Leaf l i b" using IH a by blast
    qed (use 1 2 in simp_all)
  qed
  from Node.prems(2) consider "Leaf l i b \<in> set (zone_leaves z0)" | "Leaf l i b \<in> set (zone_leaves z1)" by auto
  then show ?case
  proof cases
    case 1
    then show ?thesis using * [OF Node.IH(1) sub(1,3)] Node.prems(1) by (simp add: GetBitNumber_level)
  next
    case 2
    then show ?thesis using * [OF Node.IH(2) sub(2,4)] Node.prems(1) by (simp add: GetBitNumber_level)
  qed
qed

text \<open>
  Refreshing stays in the zone. The identifier that \<open>OnBigTimer\<close> of a leaf of a reachable table looks
  up is one for which the table would look into that leaf, whatever the random numbers; in particular it
  does so for leaves with at most two contacts, and for all leaves near the own identifier.
\<close>

theorem kad_lookup_in_zone:
  assumes "kad_reach me (z, s)" and "Leaf l i b \<in> set (zone_leaves z)"
  shows "(\<forall>ident. OnBigTimer me junk rnd (Leaf l i b) = Some ident \<longrightarrow> leaf_of me ident z = Leaf l i b) \<and>
    (l < 4 \<or> length b \<le> 2 \<longrightarrow> OnBigTimer me junk rnd (Leaf l i b) \<noteq> None)"
proof -
  have ok: "zone_ok s z" using reach_table_ok [OF assms(1)] by (simp add: table_ok_def tree_inv_def)
  have l: "l \<le> 127"
  proof -
    have "m_level y \<le> 127" if "y \<in> set (zone_leaves z)" for y
      using ok that by (induction z) auto
    then show ?thesis using assms(2) by fastforce
  qed
  let ?t = "RandomLookup me junk rnd l i"
  have e: "XOR128 me ?t = prefix128 junk rnd (ShiftLeft i (128 - l)) l"
    by (rule level_eqI) (auto simp: RandomLookup_def level_XOR)
  have "level (XOR128 me ?t) j = index_bit l i j" if "j < l" for j
  proof -
    have "128 - l \<le> 127 - j" "127 - j - (128 - l) = l - 1 - j" "j < 128" using that l by linarith+
    moreover have "level (ShiftLeft i (128 - l)) j \<longleftrightarrow> j < 128 \<and> 128 - l \<le> 127 - j \<and> bit (val128 i) (127 - j - (128 - l))"
      by (auto simp: level_def val128_ShiftLeft bit_push_bit_iff)
    ultimately show ?thesis using that unfolding e level_prefix128 index_bit_def by simp
  qed
  then have "leaf_of me ?t z = Leaf l i b" using leaf_of_index [OF ok assms(2), of me ?t] by blast
  then show ?thesis by (auto simp: OnBigTimer_def K_def KBASE_def)
qed

theorem kad_lookup_in_zone_witness:
  "OnBigTimer (SetValue32 0) (SetValue32 0) (\<lambda>_. 0) wit_z \<noteq> None"
  using kad_lookup_in_zone [OF wit_reach, of 0 "SetValue32 0" "[0]" "SetValue32 0" "\<lambda>_. 0"] by (simp add: wit_zone)

section \<open>What a merge keeps\<close>

lemma merge_fold_all:
  assumes "kad_inv s (F \<union> set b)" and "limits_ok s (F \<union> set b \<union> set xs)" and "finite F" and "bin_ok s (b @ xs)" and "set (b @ xs) \<inter> F = {}"
  shows "\<exists>s'. fold merge_entry xs (b, s) = (b @ xs, s')"
  using assms
proof (induction xs arbitrary: b s)
  case Nil
  then show ?case by simp
next
  case (Cons r xs)
  have d: "distinct (b @ r # xs)" using Cons.prems(4) by (rule bin_ok_distinct)
  have r: "r \<notin> F \<union> set b" using d Cons.prems(5) by auto
  have ok: "bin_ok s (b @ [r])" using bin_ok_append [of s "b @ [r]" xs] Cons.prems(4) by simp
  have "limits_ok s (insert r (F \<union> set b))" using Cons.prems(3) by (intro limits_mono [OF Cons.prems(2)]) auto
  then obtain s1 where add: "AddContact r b s = (True, b @ [r], s1)"
    using AddContact_fits [OF Cons.prems(1) r _ ok] by blast
  note A = AddContact_ok [OF Cons.prems(1) r bin_ok_append [OF ok] Un_upper2 add]
  have h: "heap s1 = heap s" by (simp add: A(2))
  have "\<exists>s'. fold merge_entry xs (b @ [r], s1) = ((b @ [r]) @ xs, s')"
  proof (rule Cons.IH)
    show "kad_inv s1 (F \<union> set (b @ [r]))" using A(3) by simp
    show "limits_ok s1 (F \<union> set (b @ [r]) \<union> set xs)" using Cons.prems(2) by (simp add: limits_heap [OF h] Un_insert_right)
    show "bin_ok s1 ((b @ [r]) @ xs)" using Cons.prems(4) by (simp add: bin_ok_heap [OF h])
    show "set ((b @ [r]) @ xs) \<inter> F = {}" using Cons.prems(5) by auto
  qed (rule Cons.prems(3))
  then show ?case by (simp add: merge_entry_def [of r] add)
qed

definition sparse :: "kad \<Rightarrow> nat set \<Rightarrow> bool" where
  "sparse s E \<longleftrightarrow> (\<forall>ip. \<not> IsLanIP (swap32 ip) \<longrightarrow> card (by_net s E (subnet ip)) \<le> 2)"

lemma merge_leaves_all:
  assumes inv: "tree_inv s E (Node l i (Leaf l0 i0 b0) (Leaf l1 i1 b1))" and "sparse s E"
    and pl: "placed me s (b0 @ b1)" and small: "length b0 + length b1 < K div 2" and step: "merge_leaves l i b0 b1 s = (z', s')"
  shows "set (zone_entries z') = set b0 \<union> set b1"
proof -
  let ?t = "dispose_bin True b1 (dispose_bin True b0 s)"
  have k: "kad_inv s E" "set b0 \<union> set b1 \<subseteq> E" and d: "distinct (b0 @ b1)" using inv by (auto simp: tree_inv_def)
  have fin: "finite E" using k by (simp add: kad_inv_def)
  note D = dispose_both [OF k d refl]
  have ids: "distinct (map (\<lambda>r. m_clientID (heap s r)) (b0 @ b1))"
    using distinct_ids [of s "Node l i (Leaf l0 i0 b0) (Leaf l1 i1 b1)" me] inv pl by (simp add: tree_inv_def)
  have "net_count s (b0 @ b1) (subnet ip) \<le> 2" if "\<not> IsLanIP (swap32 ip)" for ip
  proof -
    have "net_count s (b0 @ b1) (subnet ip) = card (by_net s (set (b0 @ b1)) (subnet ip))"
      using by_length(2) [OF d, of s "subnet ip"] by (simp only: net_count_def)
    also have "\<dots> \<le> card (by_net s E (subnet ip))" using k(2) fin by (intro card_mono by_mono) auto
    finally show ?thesis using assms(2) that unfolding sparse_def by (meson le_trans)
  qed
  then have ok: "bin_ok s (b0 @ b1)" using ids small unfolding bin_ok_def K_def by simp
  have E: "E - (set b0 \<union> set b1) \<union> set [] \<union> set (b0 @ b1) = E" using k(2) by auto
  have "\<exists>s'. fold merge_entry (b0 @ b1) ([], ?t) = ([] @ b0 @ b1, s')"
  proof (rule merge_fold_all)
    show "kad_inv ?t (E - (set b0 \<union> set b1) \<union> set [])" using D(1) by simp
    show "limits_ok ?t (E - (set b0 \<union> set b1) \<union> set [] \<union> set (b0 @ b1))"
      using k(1) unfolding E by (simp add: limits_heap [OF D(2)] kad_inv_def)
    show "bin_ok ?t ([] @ b0 @ b1)" using ok by (simp add: bin_ok_heap [OF D(2)])
  qed (use fin in auto)
  then show ?thesis using step by (auto simp: merge_leaves_def)
qed

fun nodes :: "CRoutingZone \<Rightarrow> nat" where
  "nodes (Leaf _ _ _) = 0"
| "nodes (Node _ _ z0 z1) = 1 + nodes z0 + nodes z1"

text \<open>No two leaves that could be merged are left.\<close>

fun merged :: "CRoutingZone \<Rightarrow> bool" where
  "merged (Leaf _ _ _) = True"
| "merged (Node _ _ z0 z1) \<longleftrightarrow> merged z0 \<and> merged z1 \<and>
     (nodes z0 = 0 \<and> nodes z1 = 0 \<longrightarrow> K div 2 \<le> length (zone_entries z0) + length (zone_entries z1))"

lemma nodes_0: "nodes z = 0 \<longleftrightarrow> (\<exists>l i b. z = Leaf l i b)"
  by (cases z) auto

text \<open>The two ways \<open>Consolidate\<close> ends at a node.\<close>

lemma Consolidate_cases:
  assumes "Consolidate (Node l i z0 z1) s = (n, z', s')"
  obtains n0 y0 t0 n1 y1 t1 where "Consolidate z0 s = (n0, y0, t0)" "Consolidate z1 t0 = (n1, y1, t1)"
      "n = n0 + n1" "z' = Node l i y0 y1" "s' = t1"
      "nodes y0 = 0 \<and> nodes y1 = 0 \<longrightarrow> K div 2 \<le> length (zone_entries y0) + length (zone_entries y1)"
    | n0 t0 n1 t1 l0 i0 b0 l1 i1 b1 where "Consolidate z0 s = (n0, Leaf l0 i0 b0, t0)" "Consolidate z1 t0 = (n1, Leaf l1 i1 b1, t1)"
      "n = n0 + n1 + 1" "merge_leaves l i b0 b1 t1 = (z', s')" "length b0 + length b1 < K div 2"
proof -
  obtain n0 y0 t0 where c0: "Consolidate z0 s = (n0, y0, t0)" by (cases "Consolidate z0 s")
  obtain n1 y1 t1 where c1: "Consolidate z1 t0 = (n1, y1, t1)" by (cases "Consolidate z1 t0")
  show thesis
  proof (cases "\<exists>l0 i0 b0 l1 i1 b1. y0 = Leaf l0 i0 b0 \<and> y1 = Leaf l1 i1 b1 \<and> length b0 + length b1 < K div 2")
    case False
    then have "n = n0 + n1 \<and> z' = Node l i y0 y1 \<and> s' = t1" using assms
      by (auto simp: Consolidate_Node c0 c1 simp del: Consolidate.simps split: CRoutingZone.splits if_splits)
    moreover have "nodes y0 = 0 \<and> nodes y1 = 0 \<longrightarrow> K div 2 \<le> length (zone_entries y0) + length (zone_entries y1)"
      using False by (auto simp: nodes_0)
    ultimately show thesis using that(1) c0 c1 by blast
  next
    case True
    then obtain l0 i0 b0 l1 i1 b1 where y: "y0 = Leaf l0 i0 b0" "y1 = Leaf l1 i1 b1" "length b0 + length b1 < K div 2" by blast
    then have "n = n0 + n1 + 1 \<and> merge_leaves l i b0 b1 t1 = (z', s')" using assms
      by (auto simp: Consolidate_Node c0 c1 simp del: Consolidate.simps split: prod.splits)
    then show thesis using that(2) c0 c1 y by blast
  qed
qed

lemma merge_leaves_Leaf: "merge_leaves l i b0 b1 s = (z', s') \<Longrightarrow> nodes z' = 0"
  by (auto simp: merge_leaves_def Let_def split: prod.splits)

lemma Consolidate_shape: "Consolidate z s = (n, z', s') \<Longrightarrow> nodes z' + n = nodes z \<and> merged z'"
proof (induction z arbitrary: s n z' s')
  case (Node l i z0 z1)
  from Node.prems show ?case
  proof (cases rule: Consolidate_cases)
    case (1 n0 y0 t0 n1 y1 t1)
    then show ?thesis using Node.IH(1) [OF 1(1)] Node.IH(2) [OF 1(2)] by simp
  next
    case (2 n0 t0 n1 t1 l0 i0 b0 l1 i1 b1)
    then show ?thesis using Node.IH(1) [OF 2(1)] Node.IH(2) [OF 2(2)] merge_leaves_Leaf [OF 2(4)]
      by (auto simp: nodes_0)
  qed
qed simp

lemma Consolidate_all:
  assumes "tree_inv s E z" and "sparse s E" and "placed me s (zone_entries z)" and "Consolidate z s = (n, z', s')"
  shows "set (zone_entries z') = set (zone_entries z)"
  using assms
proof (induction z arbitrary: s n z' s')
  case (Node l i z0 z1)
  have step: "set (zone_entries y0) = set (zone_entries z0) \<and> set (zone_entries y1) = set (zone_entries z1) \<and>
      tree_inv t1 E (Node l i y0 y1) \<and> heap t1 = heap s"
    if c: "Consolidate z0 s = (n0, y0, t0)" "Consolidate z1 t0 = (n1, y1, t1)" for n0 y0 t0 n1 y1 t1
  proof -
    have i0: "tree_inv s E z0" using tree_inv_children [OF Node.prems(1)] by simp
    have e0: "set (zone_entries y0) = set (zone_entries z0)"
      using Node.prems(2,3) by (intro Node.IH(1) [OF i0 _ _ c(1)]) (auto simp: placed_def)
    note p0 = Consolidate_post [OF i0 c(1)]
    have "shrink_post s E (Node l i z0 z1) (Node l i y0 z1) t0" using p0 by (intro shrink_child0 [OF Node.prems(1)]) simp
    then have t0: "tree_inv t0 E (Node l i y0 z1)" by (simp add: shrink_post_def shrunk_def e0)
    then have i1: "tree_inv t0 E z1" using tree_inv_children by blast
    have h0: "heap t0 = heap s" using p0 by simp
    have "sparse t0 E" using Node.prems(2) by (simp add: sparse_def by_net_def h0)
    then have e1: "set (zone_entries y1) = set (zone_entries z1)"
      using Node.prems(3) by (intro Node.IH(2) [OF i1 _ _ c(2)]) (auto simp: placed_def h0)
    note p1 = Consolidate_post [OF i1 c(2)]
    have "shrink_post t0 E (Node l i y0 z1) (Node l i y0 y1) t1" using p1 by (intro shrink_child [OF t0]) simp
    then have "tree_inv t1 E (Node l i y0 y1)" by (simp add: shrink_post_def shrunk_def e1)
    then show ?thesis using e0 e1 p1 h0 by simp
  qed
  from Node.prems(4) show ?case
  proof (cases rule: Consolidate_cases)
    case (1 n0 y0 t0 n1 y1 t1)
    then show ?thesis using step [OF 1(1,2)] by simp
  next
    case (2 n0 t0 n1 t1 l0 i0 b0 l1 i1 b1)
    note S = step [OF 2(1,2)]
    have "set (zone_entries z') = set b0 \<union> set b1"
    proof (rule merge_leaves_all [OF _ _ _ 2(5,4)])
      show "tree_inv t1 E (Node l i (Leaf l0 i0 b0) (Leaf l1 i1 b1))" using S by simp
      show "sparse t1 E" using Node.prems(2) S by (simp add: sparse_def by_net_def)
      show "placed me t1 (b0 @ b1)" using Node.prems(3) S by (auto simp: placed_def)
    qed
    then show ?thesis using S by simp
  qed
qed simp

text \<open>
  \<open>Consolidate\<close> of a reachable table merges bottom up until no two sibling leaves have fewer than
  \<open>K / 2\<close> contacts together, and returns the number of merges. It writes no contact and frees none, and
  adds none; and when no public \<open>/24\<close> network has more than two contacts, it loses none.
\<close>

theorem kad_consolidate:
  assumes "kad_reach me (z, s)" and "Consolidate z s = (n, z', s')"
  shows "nodes z' + n = nodes z \<and> merged z' \<and> heap s' = heap s \<and> deleted s' = deleted s \<and>
    set (zone_entries z') \<subseteq> set (zone_entries z) \<and>
    ((\<forall>ip. \<not> IsLanIP (swap32 ip) \<longrightarrow> length (filter (\<lambda>r. subnet (m_ip (heap s r)) = subnet ip) (zone_entries z)) \<le> 2) \<longrightarrow>
      mset (zone_entries z') = mset (zone_entries z))"
proof -
  have ok: "table_ok me z s" using reach_table_ok [OF assms(1)] by simp
  then have inv: "tree_inv s (set (zone_entries z)) z" by (simp add: table_ok_def)
  note P = table_placed [OF ok]
  have d': "distinct (zone_entries z')" using table_placed [OF table_ok_Consolidate [OF ok assms(2)]] by simp
  have "mset (zone_entries z') = mset (zone_entries z)"
    if few: "\<forall>ip. \<not> IsLanIP (swap32 ip) \<longrightarrow> length (filter (\<lambda>r. subnet (m_ip (heap s r)) = subnet ip) (zone_entries z)) \<le> 2"
  proof -
    have "sparse s (set (zone_entries z))" using few P by (simp add: sparse_def by_length)
    then have "set (zone_entries z') = set (zone_entries z)" using P by (intro Consolidate_all [OF inv _ _ assms(2)]) auto
    then show ?thesis using d' P set_eq_iff_mset_eq_distinct by blast
  qed
  then show ?thesis using Consolidate_shape [OF assms(2)] Consolidate_post [OF inv assms(2)] by (simp add: shrink_post_def)
qed

theorem kad_consolidate_witness:
  "\<exists>z' s'. Consolidate wit_z wit_s = (0, z', s') \<and> merged z' \<and> mset (zone_entries z') = mset (zone_entries wit_z)"
proof -
  obtain n z' s' where c: "Consolidate wit_z wit_s = (n, z', s')" by (cases "Consolidate wit_z wit_s")
  then have "n = 0" by (simp add: wit_zone)
  moreover have "length (filter Q (zone_entries wit_z)) \<le> 2" for Q using length_filter_le [of Q "[0]"] by (simp add: wit_zone)
  ultimately have "merged z' \<and> mset (zone_entries z') = mset (zone_entries wit_z)"
    using kad_consolidate [OF wit_reach c] by blast
  then show ?thesis using c \<open>n = 0\<close> by blast
qed

text \<open>
  Without that condition contacts are lost: a bin takes two contacts of a network, two bins may have two
  each, and the result of \<open>AddContact\<close> is ignored in the merge. A contact that does not fit is then neither
  in the table nor freed.
\<close>

lemma consolidate_leaks:
  assumes ok: "table_ok me (Node l i (Leaf l0 i0 b0) (Leaf l1 i1 b1)) s"
    and small: "length b0 + length b1 < K div 2" and ip: "\<not> IsLanIP (swap32 ip)"
    and many: "2 < length (filter (\<lambda>r. subnet (m_ip (heap s r)) = subnet ip) (b0 @ b1))"
    and step: "Consolidate (Node l i (Leaf l0 i0 b0) (Leaf l1 i1 b1)) s = (n, z', s')"
  shows "\<exists>r \<in> set (b0 @ b1). r \<notin> set (zone_entries z') \<and> r \<notin> set (deleted s')"
proof (rule ccontr)
  assume none: "\<not> ?thesis"
  let ?z = "Node l i (Leaf l0 i0 b0) (Leaf l1 i1 b1)"
  have inv: "tree_inv s (set (zone_entries ?z)) ?z" using ok unfolding table_ok_def by blast
  note C = Consolidate_post [OF inv step]
  have h: "heap s' = heap s" using C by simp
  have out: "r \<notin> set (deleted s')" if "r \<in> set (b0 @ b1)" for r using ok C that by (auto simp: table_ok_def)
  then have "set (b0 @ b1) \<subseteq> set (zone_entries z')" using none by blast
  moreover have "set (zone_entries z') \<subseteq> set (b0 @ b1)" using C by (simp add: shrink_post_def)
  moreover have P: "zone_ok s' z'" "distinct (zone_entries z')"
    using table_placed [OF table_ok_Consolidate [OF ok step]] by simp_all
  moreover have "distinct (b0 @ b1)" using inv by (simp add: tree_inv_def)
  ultimately have m: "mset (zone_entries z') = mset (b0 @ b1)" by (metis set_eq_iff_mset_eq_distinct subset_antisym)
  obtain l2 i2 b where z': "z' = Leaf l2 i2 b"
    using step small by (auto simp: Let_def split: prod.splits)
  have "net_count s' b (subnet ip) \<le> 2" using P(1) ip by (simp add: z' bin_ok_def)
  moreover have "net_count s' b (subnet ip) = length (filter (\<lambda>r. subnet (m_ip (heap s r)) = subnet ip) (b0 @ b1))"
    unfolding net_count_def h by (rule mset_eq_length) (use m in \<open>simp add: z'\<close>)
  ultimately show False using many by simp
qed

end
