(* ===== verification/RC4.thy ===== *)
theory RC4
  imports Safe_File "HOL-Library.Multiset"
begin

text \<open>
  The stream cipher of the obfuscated protocol and the buffer that carries it: \<open>CRC4EncryptableBuffer\<close>
  (\<open>src/src/RC4Encrypt.cpp\<close>, \<open>.h\<close>). The buffer is a \<open>CMemFile\<close> with a key; what the code throws is
  \<open>Inl\<close>.
\<close>

section \<open>The cipher\<close>

record rc4_key =
  abyState :: "uint8 list"
  byX :: uint8
  byY :: uint8

definition swap_at :: "nat \<Rightarrow> nat \<Rightarrow> 'a list \<Rightarrow> 'a list" where
  "swap_at i j xs = xs[i := xs ! j, j := xs ! i]"

text \<open>One turn of the loop of \<open>RC4Crypt\<close>: the byte to combine with, and the key after it.\<close>

definition rc4_next :: "rc4_key \<Rightarrow> uint8 \<times> rc4_key" where
  "rc4_next k =
     (let x = byX k + 1;
          y = abyState k ! unat x + byY k;
          st = swap_at (unat x) (unat y) (abyState k);
          byXorIndex = st ! unat x + st ! unat y
      in (st ! unat byXorIndex, \<lparr>abyState = st, byX = x, byY = y\<rparr>))"

primrec RC4Crypt :: "uint8 list \<Rightarrow> rc4_key \<Rightarrow> uint8 list \<times> rc4_key" where
  "RC4Crypt [] k = ([], k)"
| "RC4Crypt (b # bs) k =
     (let (z, k1) = rc4_next k; (cs, k2) = RC4Crypt bs k1 in ((b XOR z) # cs, k2))"

text \<open>\<open>RC4Crypt\<close> without an input.\<close>

primrec rc4_discard :: "nat \<Rightarrow> rc4_key \<Rightarrow> rc4_key" where
  "rc4_discard 0 k = k"
| "rc4_discard (Suc n) k = rc4_discard n (snd (rc4_next k))"

definition rc4_mix :: "uint8 list \<Rightarrow> nat \<Rightarrow> uint8 list \<times> uint8 \<times> uint8 \<Rightarrow> uint8 list \<times> uint8 \<times> uint8" where
  "rc4_mix pachKeyData i = (\<lambda>(st, index1, index2).
     (let index2 = pachKeyData ! unat index1 + st ! i + index2 in
      (swap_at i (unat index2) st, of_nat ((unat index1 + 1) mod length pachKeyData), index2)))"

definition RC4CreateKey :: "uint8 list \<Rightarrow> bool \<Rightarrow> rc4_key" where
  "RC4CreateKey pachKeyData bSkipDiscard =
     (let st = fst (fold (rc4_mix pachKeyData) [0..<256] (map of_nat [0..<256], 0, 0));
          k = \<lparr>abyState = st, byX = 0, byY = 0\<rparr>
      in if bSkipDiscard then k else rc4_discard 1024 k)"

section \<open>The buffer\<close>

datatype thrown = RuntimeError | FileError io_error

record rc4_buffer =
  mem :: memfile
  m_encrypted :: bool
  m_hasKey :: bool
  m_key :: rc4_key

definition zero_key :: rc4_key where
  "zero_key = \<lparr>abyState = replicate 256 0, byX = 0, byY = 0\<rparr>"

definition new_rc4_buffer :: "(nat \<Rightarrow> uint8) \<Rightarrow> rc4_buffer" where
  "new_rc4_buffer fresh = \<lparr>mem = new_memfile 1024 fresh, m_encrypted = False, m_hasKey = False, m_key = zero_key\<rparr>"

text \<open>An operation of the underlying file.\<close>

definition buf_io :: "'a io \<Rightarrow> rc4_buffer \<Rightarrow> (thrown + 'a) \<times> rc4_buffer" where
  "buf_io m b =
     (case m (mem b) of
        (Inl e, f) \<Rightarrow> (Inl (FileError e), b\<lparr>mem := f\<rparr>)
      | (Inr x, f) \<Rightarrow> (Inr x, b\<lparr>mem := f\<rparr>))"

definition IsEmpty :: "rc4_buffer \<Rightarrow> bool" where
  "IsEmpty b \<longleftrightarrow> m_fileSize (mem b) = 0"

definition buf_append :: "uint8 list \<Rightarrow> rc4_buffer \<Rightarrow> (thrown + unit) \<times> rc4_buffer" where
  "buf_append buffer b =
     (if m_encrypted b then (Inl RuntimeError, b)
      else buf_io (io_bind (SeekIO 0 FromEnd) (\<lambda>_. WriteIO buffer)) b)"

definition buf_crypt :: "uint8 list \<Rightarrow> rc4_buffer \<Rightarrow> (thrown + uint8 list) \<times> rc4_buffer" where
  "buf_crypt bs b =
     (if m_hasKey b then (Inr (fst (RC4Crypt bs (m_key b))), b\<lparr>m_key := snd (RC4Crypt bs (m_key b))\<rparr>)
      else (Inl RuntimeError, b))"

definition Encrypt :: "rc4_buffer \<Rightarrow> (thrown + unit) \<times> rc4_buffer" where
  "Encrypt b =
     (case buf_crypt (contents (mem b)) b of
        (Inl e, b) \<Rightarrow> (Inl e, b)
      | (Inr cs, b) \<Rightarrow>
          (Inr (), b\<lparr>mem := (mem b)\<lparr>m_buffer := cs @ drop (m_fileSize (mem b)) (m_buffer (mem b))\<rparr>, m_encrypted := True\<rparr>))"

definition buf_reset :: "rc4_buffer \<Rightarrow> rc4_buffer" where
  "buf_reset b = b\<lparr>m_encrypted := False, mem := snd (ResetData (mem b))\<rparr>"

definition Detach :: "rc4_buffer \<Rightarrow> uint8 list \<times> rc4_buffer" where
  "Detach b = (contents (mem b), (buf_reset b)\<lparr>m_encrypted := False\<rparr>)"

definition SetKey :: "uint8 list \<Rightarrow> bool \<Rightarrow> rc4_buffer \<Rightarrow> (thrown + unit) \<times> rc4_buffer" where
  "SetKey keyhash bSkipDiscard b =
     (if m_hasKey b then (Inl RuntimeError, b)
      else (Inr (), b\<lparr>m_hasKey := True, m_key := RC4CreateKey (take 16 keyhash) bSkipDiscard\<rparr>))"

definition FullReset :: "rc4_buffer \<Rightarrow> rc4_buffer" where
  "FullReset b = (buf_reset b)\<lparr>m_hasKey := False, m_key := zero_key\<rparr>"

section \<open>A stream\<close>

lemma RC4Crypt_Cons:
  "RC4Crypt (b # bs) k = ((b XOR fst (rc4_next k)) # fst (RC4Crypt bs (snd (rc4_next k))), snd (RC4Crypt bs (snd (rc4_next k))))"
  by (simp add: Let_def split: prod.split)

lemma length_RC4Crypt [simp]: "length (fst (RC4Crypt bs k)) = length bs"
  by (induction bs arbitrary: k) (simp_all add: RC4Crypt_Cons del: RC4Crypt.simps(2))

lemma RC4Crypt_append:
  "RC4Crypt (a @ b) k = (fst (RC4Crypt a k) @ fst (RC4Crypt b (snd (RC4Crypt a k))), snd (RC4Crypt b (snd (RC4Crypt a k))))"
  by (induction a arbitrary: k) (simp_all add: RC4Crypt_Cons del: RC4Crypt.simps(2))

lemma snd_RC4Crypt: "snd (RC4Crypt bs k) = rc4_discard (length bs) k"
  by (induction bs arbitrary: k) (simp_all add: RC4Crypt_Cons del: RC4Crypt.simps(2))

lemma rc4_discard_add: "rc4_discard m (rc4_discard n k) = rc4_discard (n + m) k"
  by (induction n arbitrary: k) simp_all

lemma RC4Crypt_twice: "fst (RC4Crypt (fst (RC4Crypt bs k)) k) = bs"
  by (induction bs arbitrary: k) (simp_all add: RC4Crypt_Cons xor.assoc del: RC4Crypt.simps(2))

text \<open>The two ends of a stream: what one end encrypts piece by piece the other decrypts in pieces of its own.\<close>

primrec crypt_pieces :: "uint8 list list \<Rightarrow> rc4_key \<Rightarrow> uint8 list \<times> rc4_key" where
  "crypt_pieces [] k = ([], k)"
| "crypt_pieces (p # ps) k =
     (fst (RC4Crypt p k) @ fst (crypt_pieces ps (snd (RC4Crypt p k))), snd (crypt_pieces ps (snd (RC4Crypt p k))))"

lemma crypt_pieces_concat: "crypt_pieces ps k = RC4Crypt (concat ps) k"
  by (induction ps arbitrary: k) (simp_all add: RC4Crypt_append)

text \<open>The state is always a permutation of the 256 bytes.\<close>

definition rc4_ok :: "rc4_key \<Rightarrow> bool" where
  "rc4_ok k \<longleftrightarrow> mset (abyState k) = mset (map of_nat [0..<256])"

lemma mset_swap_at: "i < length xs \<Longrightarrow> j < length xs \<Longrightarrow> mset (swap_at i j xs) = mset xs"
  using mset_swap [of j xs i] by (simp add: swap_at_def)

lemma rc4_ok_length: "rc4_ok k \<Longrightarrow> length (abyState k) = 256"
  using mset_eq_length [of "abyState k" "map of_nat [0..<256]"] by (simp add: rc4_ok_def)

lemma unat8_less [simp]: "unat (w :: uint8) < 256"
  using unsigned_less [of w] by simp

lemma rc4_next_ok: "rc4_ok k \<Longrightarrow> rc4_ok (snd (rc4_next k))"
  using rc4_ok_length [of k] by (simp add: rc4_next_def Let_def rc4_ok_def mset_swap_at)

lemma rc4_discard_ok: "rc4_ok k \<Longrightarrow> rc4_ok (rc4_discard n k)"
  by (induction n arbitrary: k) (simp_all add: rc4_next_ok)

lemma RC4Crypt_ok: "rc4_ok k \<Longrightarrow> rc4_ok (snd (RC4Crypt bs k))"
  by (simp add: snd_RC4Crypt rc4_discard_ok)

lemma rc4_mix_ok:
  "i < 256 \<Longrightarrow> mset (fst x) = mset (map of_nat [0..<256]) \<Longrightarrow> mset (fst (rc4_mix key i x)) = mset (map of_nat [0..<256 :: nat] :: uint8 list)"
  using mset_eq_length [of "fst x" "map of_nat [0..<256]"]
  by (auto simp: rc4_mix_def Let_def mset_swap_at split: prod.split)

lemma rc4_mix_fold_ok:
  "\<forall>i \<in> set is. i < 256 \<Longrightarrow> mset (fst x) = mset (map of_nat [0..<256]) \<Longrightarrow>
     mset (fst (fold (rc4_mix key) is x)) = mset (map of_nat [0..<256 :: nat] :: uint8 list)"
  by (induction "is" arbitrary: x) (simp_all add: rc4_mix_ok)

lemma RC4CreateKey_ok: "rc4_ok (RC4CreateKey key skip)"
proof -
  have "rc4_ok \<lparr>abyState = fst (fold (rc4_mix key) [0..<256] (map of_nat [0..<256], 0, 0)), byX = 0, byY = 0\<rparr>"
    using rc4_mix_fold_ok [of "[0..<256]" "(map of_nat [0..<256], 0, 0)" key] by (simp add: rc4_ok_def)
  then show ?thesis by (simp add: RC4CreateKey_def Let_def rc4_discard_ok)
qed

text \<open>
  C38. A stream that one end encrypts in pieces and the other decrypts in different pieces with the same key comes
  out as it went in, both ends having moved on to the same key; and from any key that \<open>RC4CreateKey\<close> makes on,
  the state stays a permutation of the 256 bytes.
\<close>

theorem rc4_stream:
  assumes "concat qs = fst (crypt_pieces ps (RC4CreateKey key skip))"
  shows "fst (crypt_pieces qs (RC4CreateKey key skip)) = concat ps
    \<and> snd (crypt_pieces qs (RC4CreateKey key skip)) = snd (crypt_pieces ps (RC4CreateKey key skip))
    \<and> rc4_ok (snd (crypt_pieces ps (RC4CreateKey key skip)))"
proof (intro conjI)
  have q: "concat qs = fst (RC4Crypt (concat ps) (RC4CreateKey key skip))" using assms by (simp add: crypt_pieces_concat)
  then have l: "length (concat qs) = length (concat ps)" by simp
  show "fst (crypt_pieces qs (RC4CreateKey key skip)) = concat ps" by (simp only: crypt_pieces_concat q RC4Crypt_twice)
  show "snd (crypt_pieces qs (RC4CreateKey key skip)) = snd (crypt_pieces ps (RC4CreateKey key skip))"
    by (simp only: crypt_pieces_concat snd_RC4Crypt l)
  show "rc4_ok (snd (crypt_pieces ps (RC4CreateKey key skip)))"
    by (simp add: crypt_pieces_concat RC4Crypt_ok RC4CreateKey_ok)
qed

theorem rc4_stream_witness:
  "\<exists>k. k = RC4CreateKey (replicate 16 1) False \<and>
     fst (crypt_pieces [fst (RC4Crypt [7] k), fst (RC4Crypt [8, 9] (snd (RC4Crypt [7] k)))] k) = [7, 8, 9]"
proof -
  let ?k = "RC4CreateKey (replicate 16 1) False"
  have "concat [fst (RC4Crypt [7] ?k), fst (RC4Crypt [8, 9] (snd (RC4Crypt [7] ?k)))] = fst (crypt_pieces [[7], [8, 9]] ?k)"
    by (simp only: crypt_pieces.simps concat.simps fst_conv append_Nil2)
  from rc4_stream [OF this] show ?thesis by (intro exI [of _ ?k]) simp
qed

end
