(* ===== verification/Packet.thy ===== *)
theory Packet
  imports Safe_File
begin

text \<open>
  Packets of the eD2k protocol: \<open>CPacket\<close> (\<open>src/src/Packet.cpp\<close>, \<open>.h\<close>) and the layout of their header
  (\<open>Header_Struct\<close>, \<open>src/src/OtherStructs.h\<close>). The payload of a packet is either inside \<open>completebuffer\<close>, six
  bytes from its start, or memory of its own. Memory that \<open>new\<close> returns holds \<open>junk\<close>; a copy beyond the end
  of an array is the fault \<open>OutOfBounds\<close>. Compression is zlib's and a parameter.
\<close>

section \<open>State\<close>

datatype payload = NoData | Inside | Owned "uint8 list"

record CPacket =
  p_size :: uint32
  opcode :: uint8
  prot :: uint8
  m_bSplitted :: bool
  m_bLastSplitted :: bool
  m_bPacked :: bool
  m_bFromPF :: bool
  completebuffer :: "uint8 list option"
  pBuffer :: payload

definition new_array :: "(nat \<Rightarrow> uint8) \<Rightarrow> nat \<Rightarrow> uint8 list" where
  "new_array junk n = map junk [0..<n]"

lemma length_new_array [simp]: "length (new_array junk n) = n"
  by (simp add: new_array_def)

lemma nth_new_array [simp]: "i < n \<Longrightarrow> new_array junk n ! i = junk i"
  by (simp add: new_array_def)

text \<open>\<open>memcpy (a + off, data, length data)\<close>.\<close>

definition poke :: "nat \<Rightarrow> uint8 list \<Rightarrow> uint8 list \<Rightarrow> fault + uint8 list" where
  "poke off data a =
     (if off + length data \<le> length a then Inr (take off a @ data @ drop (off + length data) a) else Inl OutOfBounds)"

text \<open>\<open>n\<close> bytes read from an array at an offset.\<close>

definition fetch :: "nat \<Rightarrow> nat \<Rightarrow> uint8 list \<Rightarrow> fault + uint8 list" where
  "fetch off n a = (if off + n \<le> length a then Inr (take n (drop off a)) else Inl OutOfBounds)"

section \<open>Protocols\<close>

definition OP_EDONKEYPROT :: uint8 where "OP_EDONKEYPROT = 0xE3"
definition OP_PACKEDPROT :: uint8 where "OP_PACKEDPROT = 0xD4"
definition OP_EMULEPROT :: uint8 where "OP_EMULEPROT = 0xC5"
definition OP_ED2KV2HEADER :: uint8 where "OP_ED2KV2HEADER = 0xF4"
definition OP_ED2KV2PACKEDPROT :: uint8 where "OP_ED2KV2PACKEDPROT = 0xF5"
definition OP_KADEMLIAHEADER :: uint8 where "OP_KADEMLIAHEADER = 0xE4"
definition OP_KADEMLIAPACKEDPROT :: uint8 where "OP_KADEMLIAPACKEDPROT = 0xE5"

section \<open>Constructors\<close>

definition packet_of_protocol :: "uint8 \<Rightarrow> CPacket" where
  "packet_of_protocol protocol =
     \<lparr>p_size = 0, opcode = 0, prot = protocol, m_bSplitted = False, m_bLastSplitted = False, m_bPacked = False,
      m_bFromPF = False, completebuffer = None, pBuffer = NoData\<rparr>"

text \<open>The header is \<open>eDonkeyID\<close>, \<open>packetlength\<close> (little endian) and \<open>command\<close>.\<close>

definition packet_received :: "uint8 list \<Rightarrow> uint8 list \<Rightarrow> CPacket" where
  "packet_received rawHeader buf =
     \<lparr>p_size = of_le (take 4 (drop 1 rawHeader)) - 1, opcode = rawHeader ! 5, prot = rawHeader ! 0,
      m_bSplitted = False, m_bLastSplitted = False, m_bPacked = False, m_bFromPF = False,
      completebuffer = None, pBuffer = Owned buf\<rparr>"

definition packet_of_memfile :: "(nat \<Rightarrow> uint8) \<Rightarrow> memfile \<Rightarrow> uint8 \<Rightarrow> uint8 \<Rightarrow> CPacket" where
  "packet_of_memfile junk datafile protocol ucOpcode =
     (let size = (of_nat (m_fileSize datafile) :: uint32) in
      \<lparr>p_size = size, opcode = ucOpcode, prot = protocol, m_bSplitted = False, m_bLastSplitted = False,
       m_bPacked = False, m_bFromPF = False,
       completebuffer = Some (new_array junk 6 @ take (unat size) (m_buffer datafile)), pBuffer = Inside\<rparr>)"

definition packet_of_size :: "uint8 \<Rightarrow> uint32 \<Rightarrow> uint8 \<Rightarrow> bool \<Rightarrow> CPacket" where
  "packet_of_size in_opcode in_size protocol bFromPF =
     \<lparr>p_size = in_size, opcode = in_opcode, prot = protocol, m_bSplitted = False, m_bLastSplitted = False,
      m_bPacked = False, m_bFromPF = bFromPF,
      completebuffer = (if in_size \<noteq> 0 then Some (replicate (unat in_size + 6 + 4) 0) else None),
      pBuffer = (if in_size \<noteq> 0 then Inside else NoData)\<rparr>"

definition packet_of_part :: "uint8 list \<Rightarrow> uint32 \<Rightarrow> bool \<Rightarrow> bool \<Rightarrow> CPacket" where
  "packet_of_part pPacketPart nSize bLast bFromPF =
     \<lparr>p_size = nSize - 6, opcode = 0, prot = 0, m_bSplitted = True, m_bLastSplitted = bLast, m_bPacked = False,
      m_bFromPF = bFromPF, completebuffer = Some pPacketPart, pBuffer = NoData\<rparr>"

section \<open>Access\<close>

definition GetRealPacketSize :: "CPacket \<Rightarrow> uint32" where
  "GetRealPacketSize p = p_size p + 6"

definition GetPacketSizeFromHeader :: "uint8 list \<Rightarrow> uint32" where
  "GetPacketSizeFromHeader rawHeader =
     (let size = (of_le (take 4 (drop 1 rawHeader)) :: uint32) in
      if size < 1 \<or> 0x7ffffff0 \<le> size then 0 else size - 1)"

text \<open>What \<open>GetDataBuffer\<close> points to; \<open>None\<close> is the null pointer.\<close>

definition GetDataBuffer :: "CPacket \<Rightarrow> uint8 list option" where
  "GetDataBuffer p =
     (case pBuffer p of
        NoData \<Rightarrow> None
      | Inside \<Rightarrow> (case completebuffer p of Some a \<Rightarrow> Some (drop 6 a) | None \<Rightarrow> None)
      | Owned a \<Rightarrow> Some a)"

definition GetHeader :: "CPacket \<Rightarrow> uint8 list" where
  "GetHeader p = prot p # le_bytes 4 (p_size p + 1) @ [opcode p]"

definition GetUDPHeader :: "CPacket \<Rightarrow> uint8 list" where
  "GetUDPHeader p = [prot p, opcode p, 0, 0, 0, 0]"

definition data_or_null :: "CPacket \<Rightarrow> uint8 list" where
  "data_or_null p = (case GetDataBuffer p of Some a \<Rightarrow> a | None \<Rightarrow> [])"

text \<open>
  The array that \<open>DetachPacket\<close> hands over, of which \<open>GetRealPacketSize\<close> bytes are the packet; \<open>GetPacket\<close>
  gives the same bytes.
\<close>

definition DetachPacket :: "(nat \<Rightarrow> uint8) \<Rightarrow> CPacket \<Rightarrow> fault + uint8 list" where
  "DetachPacket junk p =
     (case completebuffer p of
        Some a \<Rightarrow> if \<not> m_bSplitted p then poke 0 (GetHeader p) a else Inr a
      | None \<Rightarrow>
          sum_bind (poke 0 (GetHeader p) (new_array junk (unat (p_size p) + 6 + 4))) (\<lambda>a.
          sum_bind (fetch 0 (unat (p_size p)) (data_or_null p)) (\<lambda>d. poke 6 d a)))"

section \<open>Changes\<close>

text \<open>A write into the payload, wherever it is.\<close>

definition poke_data :: "nat \<Rightarrow> uint8 list \<Rightarrow> CPacket \<Rightarrow> fault + CPacket" where
  "poke_data off data p =
     (case pBuffer p of
        NoData \<Rightarrow> Inl OutOfBounds
      | Inside \<Rightarrow>
          (case completebuffer p of
             None \<Rightarrow> Inl OutOfBounds
           | Some a \<Rightarrow> sum_bind (poke (6 + off) data a) (\<lambda>a. Inr (p\<lparr>completebuffer := Some a\<rparr>)))
      | Owned a \<Rightarrow> sum_bind (poke off data a) (\<lambda>a. Inr (p\<lparr>pBuffer := Owned a\<rparr>)))"

definition CopyToDataBuffer :: "nat \<Rightarrow> uint8 list \<Rightarrow> CPacket \<Rightarrow> fault + CPacket" where
  "CopyToDataBuffer offset data p = poke_data offset data p"

definition Copy16ToDataBuffer :: "uint8 list \<Rightarrow> CPacket \<Rightarrow> fault + CPacket" where
  "Copy16ToDataBuffer data p = sum_bind (fetch 0 16 data) (\<lambda>d. poke_data 0 d p)"

definition CopyUInt32ToDataBuffer :: "uint32 \<Rightarrow> uint32 \<Rightarrow> CPacket \<Rightarrow> fault + CPacket" where
  "CopyUInt32ToDataBuffer data offset p =
     (if unat offset \<le> sub64 (unat (p_size p)) 4 then poke_data (unat offset) (le_bytes 4 data) p else Inr p)"

text \<open>
  \<open>compress2\<close> and \<open>uncompress\<close> take the bytes and the size of the output array; \<open>None\<close> is any result but
  \<open>Z_OK\<close>. They read all \<open>size\<close> bytes of the payload.
\<close>

definition PackPacket :: "(nat \<Rightarrow> uint8 list \<Rightarrow> uint8 list option) \<Rightarrow> CPacket \<Rightarrow> fault + CPacket" where
  "PackPacket compress p =
     sum_bind (fetch 0 (unat (p_size p)) (data_or_null p)) (\<lambda>d.
       case compress (unat (p_size p + 300)) d of
         None \<Rightarrow> Inr p
       | Some output \<Rightarrow>
           if unat (p_size p) \<le> length output then Inr p
           else
             sum_bind (poke_data 0 output
               (p\<lparr>prot := (if prot p = OP_KADEMLIAHEADER then OP_KADEMLIAPACKEDPROT else OP_PACKEDPROT)\<rparr>))
               (\<lambda>p. Inr (p\<lparr>m_bPacked := True, p_size := of_nat (length output)\<rparr>)))"

definition UnPackPacket ::
  "(nat \<Rightarrow> uint8 list \<Rightarrow> uint8 list option) \<Rightarrow> (nat \<Rightarrow> uint8) \<Rightarrow> uint32 \<Rightarrow> CPacket \<Rightarrow> fault + bool \<times> CPacket" where
  "UnPackPacket uncompress junk uMaxDecompressedSize p =
     (let nNewSize = p_size p * 10 + 300;
          nNewSize = (if uMaxDecompressedSize < nNewSize then uMaxDecompressedSize else nNewSize)
      in sum_bind (fetch 0 (unat (p_size p)) (data_or_null p)) (\<lambda>d.
           case uncompress (unat nNewSize) d of
             None \<Rightarrow> Inr (False, p)
           | Some out \<Rightarrow>
               sum_bind (poke 0 out (new_array junk (unat nNewSize))) (\<lambda>unpack.
                 Inr (True, p\<lparr>p_size := of_nat (length out), pBuffer := Owned unpack, prot := OP_EMULEPROT\<rparr>))))"

end
