(* ===== verification/Crypt_Stream.thy ===== *)
theory Crypt_Stream
  imports RC4 Packet
begin

text \<open>
  The obfuscation layer of a TCP connection: \<open>CEncryptedStreamSocket\<close> (\<open>src/src/EncryptedStreamSocket.cpp\<close>,
  \<open>.h\<close>): the state machine of the handshake and the data path. Under it is \<open>CSocketClientProxy\<close>: \<open>accepts\<close> says
  how many bytes each of its \<open>Write\<close>s will take (\<open>None\<close> is \<open>SOCKET_ERROR\<close>, an exhausted list takes everything)
  and \<open>net\<close> is what it took. Crypto++ (MD5, integers), the random numbers, the preferences and the lists that know a
  peer's address are the fields of \<open>crypt_env\<close>.
\<close>

section \<open>State\<close>

datatype EStreamCryptState = ECS_NONE | ECS_UNKNOWN | ECS_PENDING | ECS_PENDING_SERVER | ECS_NEGOTIATING | ECS_ENCRYPTING

datatype ENegotiatingState =
    ONS_NONE
  | ONS_BASIC_CLIENTA_RANDOMPART | ONS_BASIC_CLIENTA_MAGICVALUE | ONS_BASIC_CLIENTA_METHODTAGSPADLEN | ONS_BASIC_CLIENTA_PADDING
  | ONS_BASIC_CLIENTB_MAGICVALUE | ONS_BASIC_CLIENTB_METHODTAGSPADLEN | ONS_BASIC_CLIENTB_PADDING
  | ONS_BASIC_SERVER_DHANSWER | ONS_BASIC_SERVER_MAGICVALUE | ONS_BASIC_SERVER_METHODTAGSPADLEN | ONS_BASIC_SERVER_PADDING
  | ONS_BASIC_SERVER_DELAYEDSENDING
  | ONS_COMPLETE

definition ENM_OBFUSCATION :: uint8 where "ENM_OBFUSCATION = 0"
definition MAGICVALUE_REQUESTER :: uint8 where "MAGICVALUE_REQUESTER = 34"
definition MAGICVALUE_SERVER :: uint8 where "MAGICVALUE_SERVER = 203"
definition MAGICVALUE_SYNC :: uint32 where "MAGICVALUE_SYNC = 0x835E6FC4"
definition DHAGREEMENT_A_BITS :: nat where "DHAGREEMENT_A_BITS = 128"
definition PRIMESIZE_BYTES :: nat where "PRIMESIZE_BYTES = 96"
definition ERR_ENCRYPTION :: nat where "ERR_ENCRYPTION = 3"
definition ERR_ENCRYPTION_NOTALLOWED :: nat where "ERR_ENCRYPTION_NOTALLOWED = 4"
definition SOCKET_ERROR :: nat where "SOCKET_ERROR = 2 ^ 32 - 1"

definition dh768_p :: "uint8 list" where
  "dh768_p =
     [0xF2, 0xBF, 0x52, 0xC5, 0x5F, 0x58, 0x7A, 0xDD, 0x53, 0x71, 0xA9, 0x36, 0xE8, 0x86, 0xEB, 0x3C,
      0x62, 0x17, 0xA3, 0x3E, 0xC3, 0x4C, 0xB4, 0x0D, 0xC7, 0x3A, 0x41, 0xA6, 0x43, 0xAF, 0xFC, 0xE7,
      0x21, 0xFC, 0x28, 0x63, 0x66, 0x53, 0x5B, 0xDB, 0xCE, 0x25, 0x9F, 0x22, 0x86, 0xDA, 0x4A, 0x91,
      0xB2, 0x07, 0xCB, 0xAA, 0x52, 0x55, 0xD4, 0xF6, 0x1C, 0xCE, 0xAE, 0xD4, 0x5A, 0xD5, 0xE0, 0x74,
      0x7D, 0xF7, 0x78, 0x18, 0x28, 0x10, 0x5F, 0x34, 0x0F, 0x76, 0x23, 0x87, 0xF8, 0x8B, 0x28, 0x91,
      0x42, 0xFB, 0x42, 0x68, 0x8F, 0x05, 0x15, 0x0F, 0x54, 0x8B, 0x5F, 0x43, 0x6A, 0xF7, 0x0D, 0xF3]"

record crypt_env =
  MD5 :: "uint8 list \<Rightarrow> uint8 list"
  big_random :: "nat \<Rightarrow> nat"
  a_exp_b_mod_c :: "nat \<Rightarrow> nat \<Rightarrow> nat \<Rightarrow> nat"
  big_decode :: "uint8 list \<Rightarrow> nat"
  big_encode :: "nat \<Rightarrow> nat \<Rightarrow> uint8 list"
  random8 :: "nat \<Rightarrow> uint8"
  random32 :: uint32
  fresh_mem :: "nat \<Rightarrow> uint8"
  CryptTCPPaddingLength :: uint8
  CryptLayerSupported :: bool
  CryptLayerRequired :: bool
  CryptLayerRequiredStrict :: bool
  AwaitingTestFromIP :: bool
  KadFirewallCheckIP :: bool
  UserHash :: "uint8 list"

record crypt_socket =
  m_StreamCryptState :: EStreamCryptState
  m_NegotiatingState :: ENegotiatingState
  m_nObfusicationBytesReceived :: nat
  m_bFullReceive :: bool
  m_dbgbyEncryptionSupported :: uint8
  m_dbgbyEncryptionRequested :: uint8
  m_dbgbyEncryptionMethodSet :: uint8
  m_nReceiveBytesWanted :: nat
  m_nRandomKeyPart :: uint32
  m_bServerCrypt :: bool
  m_pfiReceiveBuffer :: rc4_buffer
  m_pfiSendBuffer :: rc4_buffer
  m_cryptDHA :: nat
  draws :: nat
  accepts :: "nat option list"
  net :: "uint8 list"
  crypt_errors :: "nat list"

definition new_crypt_socket :: "crypt_env \<Rightarrow> crypt_socket" where
  "new_crypt_socket env =
     \<lparr>m_StreamCryptState = (if CryptLayerSupported env then ECS_UNKNOWN else ECS_NONE), m_NegotiatingState = ONS_NONE,
      m_nObfusicationBytesReceived = 0, m_bFullReceive = True, m_dbgbyEncryptionSupported = 0xFF,
      m_dbgbyEncryptionRequested = 0xFF, m_dbgbyEncryptionMethodSet = 0xFF, m_nReceiveBytesWanted = 0,
      m_nRandomKeyPart = 0, m_bServerCrypt = False, m_pfiReceiveBuffer = new_rc4_buffer (fresh_mem env),
      m_pfiSendBuffer = new_rc4_buffer (fresh_mem env), m_cryptDHA = 0, draws = 0, accepts = [], net = [], crypt_errors = []\<rparr>"

section \<open>Computations that can throw\<close>

type_synonym 'a cs = "crypt_socket \<Rightarrow> (thrown + 'a) \<times> crypt_socket"

definition cs_return :: "'a \<Rightarrow> 'a cs" where
  "cs_return x = (\<lambda>s. (Inr x, s))"

definition cs_bind :: "'a cs \<Rightarrow> ('a \<Rightarrow> 'b cs) \<Rightarrow> 'b cs" where
  "cs_bind m k = (\<lambda>s. case m s of (Inl e, s') \<Rightarrow> (Inl e, s') | (Inr x, s') \<Rightarrow> k x s')"

definition cs_seq :: "unit cs \<Rightarrow> 'b cs \<Rightarrow> 'b cs" where
  "cs_seq m k = cs_bind m (\<lambda>_. k)"

definition cs_mod :: "(crypt_socket \<Rightarrow> crypt_socket) \<Rightarrow> unit cs" where
  "cs_mod f = (\<lambda>s. (Inr (), f s))"

definition recv_op :: "(rc4_buffer \<Rightarrow> (thrown + 'a) \<times> rc4_buffer) \<Rightarrow> 'a cs" where
  "recv_op m = (\<lambda>s. case m (m_pfiReceiveBuffer s) of (r, b) \<Rightarrow> (r, s\<lparr>m_pfiReceiveBuffer := b\<rparr>))"

definition send_op :: "(rc4_buffer \<Rightarrow> (thrown + 'a) \<times> rc4_buffer) \<Rightarrow> 'a cs" where
  "send_op m = (\<lambda>s. case m (m_pfiSendBuffer s) of (r, b) \<Rightarrow> (r, s\<lparr>m_pfiSendBuffer := b\<rparr>))"

definition crypt_error :: "nat \<Rightarrow> unit cs" where
  "crypt_error e = cs_mod (\<lambda>s. s\<lparr>crypt_errors := crypt_errors s @ [e]\<rparr>)"

definition GetRandomUint8 :: "crypt_env \<Rightarrow> uint8 cs" where
  "GetRandomUint8 env = (\<lambda>s. (Inr (random8 env (draws s)), s\<lparr>draws := draws s + 1\<rparr>))"

primrec random_bytes :: "crypt_env \<Rightarrow> nat \<Rightarrow> uint8 list cs" where
  "random_bytes env 0 = cs_return []"
| "random_bytes env (Suc n) = cs_bind (GetRandomUint8 env) (\<lambda>b. cs_bind (random_bytes env n) (\<lambda>bs. cs_return (b # bs)))"

text \<open>\<open>CSocketClientProxy::Write\<close>.\<close>

definition proxy_write :: "uint8 list \<Rightarrow> nat cs" where
  "proxy_write bs = (\<lambda>s.
     (case accepts s of
        [] \<Rightarrow> (Inr (length bs), s\<lparr>net := net s @ bs\<rparr>)
      | None # rest \<Rightarrow> (Inr SOCKET_ERROR, s\<lparr>accepts := rest\<rparr>)
      | Some n # rest \<Rightarrow> (Inr (min n (length bs)), s\<lparr>accepts := rest, net := net s @ take n bs\<rparr>)))"

text \<open>A \<open>CMemFile\<close> of its own, written by \<open>m\<close>.\<close>

definition file_of :: "crypt_env \<Rightarrow> nat \<Rightarrow> unit io \<Rightarrow> uint8 list cs" where
  "file_of env growth m =
     (case m (new_memfile growth (fresh_mem env)) of
        (Inl e, f) \<Rightarrow> (\<lambda>s. (Inl (FileError e), s))
      | (Inr x, f) \<Rightarrow> cs_return (contents f))"

section \<open>Sending\<close>

definition IsEncryptionLayerReady :: "crypt_socket \<Rightarrow> bool" where
  "IsEncryptionLayerReady s \<longleftrightarrow>
     (m_StreamCryptState s = ECS_NONE \<or> m_StreamCryptState s = ECS_ENCRYPTING \<or> m_StreamCryptState s = ECS_UNKNOWN)
     \<and> (IsEmpty (m_pfiSendBuffer s) \<or> (m_bServerCrypt s \<and> m_NegotiatingState s = ONS_BASIC_SERVER_DELAYEDSENDING))"

definition send_or_store :: "uint8 list \<Rightarrow> bool \<Rightarrow> nat cs" where
  "send_or_store pBuf bDelaySend =
     cs_bind (if bDelaySend then cs_return 0 else proxy_write pBuf) (\<lambda>result.
       if result = SOCKET_ERROR \<or> bDelaySend then
         cs_seq (send_op (buf_io (WriteIO pBuf))) (cs_return result)
       else if result < length pBuf then
         cs_seq (send_op (buf_io (WriteIO (drop result pBuf)))) (cs_return result)
       else cs_return result)"

definition send_pending :: "nat \<Rightarrow> bool \<Rightarrow> nat cs" where
  "send_pending nStartCryptFromByte bDelaySend = (\<lambda>s.
     if IsEmpty (m_pfiSendBuffer s) \<or> nStartCryptFromByte \<noteq> 0 then (Inr 0, s)
     else cs_bind (send_op (\<lambda>b. case Detach b of (bs, b) \<Rightarrow> (Inr bs, b))) (\<lambda>bs. send_or_store bs bDelaySend) s)"

definition SendNegotiatingData :: "uint8 list option \<Rightarrow> nat \<Rightarrow> bool \<Rightarrow> nat cs" where
  "SendNegotiatingData lpBuf nStartCryptFromByte bDelaySend =
     (case lpBuf of
        None \<Rightarrow> send_pending nStartCryptFromByte bDelaySend
      | Some bs \<Rightarrow>
          cs_bind (if nStartCryptFromByte < length bs then send_op (buf_crypt (drop nStartCryptFromByte bs)) else cs_return [])
            (\<lambda>tail. let pBuf = take nStartCryptFromByte bs @ tail in (\<lambda>s.
               if \<not> IsEmpty (m_pfiSendBuffer s) then
                 cs_seq (cs_mod (\<lambda>s. if m_NegotiatingState s = ONS_BASIC_SERVER_DELAYEDSENDING
                                     then s\<lparr>m_NegotiatingState := ONS_COMPLETE\<rparr> else s))
                   (cs_seq (send_op (buf_append pBuf)) (send_pending 0 bDelaySend)) s
               else send_or_store pBuf bDelaySend s)))"

definition CryptPrepareSendData :: "uint8 list \<Rightarrow> uint8 list cs" where
  "CryptPrepareSendData pBuf = (\<lambda>s.
     if \<not> IsEncryptionLayerReady s then (Inr pBuf, s)
     else
       let s = (if m_StreamCryptState s = ECS_UNKNOWN then s\<lparr>m_StreamCryptState := ECS_NONE\<rparr> else s)
       in if m_StreamCryptState s = ECS_ENCRYPTING then send_op (buf_crypt pBuf) s else (Inr pBuf, s))"

definition crypt_Write :: "uint8 list \<Rightarrow> nat cs" where
  "crypt_Write lpBuf = (\<lambda>s.
     if \<not> IsEncryptionLayerReady s then (Inr 0, s)
     else if m_bServerCrypt s \<and> m_StreamCryptState s = ECS_ENCRYPTING \<and> \<not> IsEmpty (m_pfiSendBuffer s) then
       cs_bind (SendNegotiatingData (Some lpBuf) (length lpBuf) False) (\<lambda>_. cs_return (length lpBuf)) s
     else proxy_write lpBuf (if m_StreamCryptState s = ECS_UNKNOWN then s\<lparr>m_StreamCryptState := ECS_NONE\<rparr> else s))"

section \<open>The handshake\<close>

primrec marker_loop :: "crypt_env \<Rightarrow> nat \<Rightarrow> uint8 cs" where
  "marker_loop env 0 = cs_return 1"
| "marker_loop env (Suc i) =
     cs_bind (GetRandomUint8 env) (\<lambda>b.
       if b = OP_EDONKEYPROT \<or> b = OP_PACKEDPROT \<or> b = OP_EMULEPROT then marker_loop env i else cs_return b)"

definition GetSemiRandomNotProtocolMarker :: "crypt_env \<Rightarrow> uint8 cs" where
  "GetSemiRandomNotProtocolMarker env = marker_loop env 128"

definition key_data :: "uint8 list \<Rightarrow> uint8 \<Rightarrow> uint8 list \<Rightarrow> uint8 list" where
  "key_data hash magic part = take 16 hash @ [magic] @ part"

definition SetConnectionEncryption :: "crypt_env \<Rightarrow> bool \<Rightarrow> uint8 list option \<Rightarrow> bool \<Rightarrow> unit cs" where
  "SetConnectionEncryption env bEnabled pTargetClientHash bServerConnection = (\<lambda>s.
     if m_StreamCryptState s \<noteq> ECS_UNKNOWN \<and> m_StreamCryptState s \<noteq> ECS_NONE then (Inr (), s)
     else
       (case (bEnabled \<and> \<not> bServerConnection, pTargetClientHash) of
          (True, Some hash) \<Rightarrow>
            (let part = random32 env in
             cs_seq (send_op (SetKey (MD5 env (key_data hash MAGICVALUE_REQUESTER (le_bytes 4 part))) False))
               (recv_op (SetKey (MD5 env (key_data hash MAGICVALUE_SERVER (le_bytes 4 part))) False))
               (s\<lparr>m_StreamCryptState := ECS_PENDING, m_nRandomKeyPart := part\<rparr>))
        | _ \<Rightarrow>
            if bServerConnection \<and> bEnabled then (Inr (), s\<lparr>m_bServerCrypt := True, m_StreamCryptState := ECS_PENDING_SERVER\<rparr>)
            else (Inr (), s\<lparr>m_StreamCryptState := ECS_NONE\<rparr>)))"

definition StartNegotiation :: "crypt_env \<Rightarrow> bool \<Rightarrow> unit cs" where
  "StartNegotiation env bOutgoing = (\<lambda>s.
     if \<not> bOutgoing then
       (Inr (), s\<lparr>m_NegotiatingState := ONS_BASIC_CLIENTA_RANDOMPART, m_StreamCryptState := ECS_NEGOTIATING, m_nReceiveBytesWanted := 4\<rparr>)
     else if m_StreamCryptState s = ECS_PENDING then
       cs_bind (GetSemiRandomNotProtocolMarker env) (\<lambda>marker.
       cs_bind (GetRandomUint8 env) (\<lambda>r.
       let byPadding = of_nat (unat r mod (unat (CryptTCPPaddingLength env) + 1)) :: uint8 in
       cs_bind (random_bytes env (unat byPadding)) (\<lambda>padding.
       cs_bind (file_of env 29
         (io_seq (WriteUInt8 marker) (io_seq (WriteUInt32 (m_nRandomKeyPart s)) (io_seq (WriteUInt32 MAGICVALUE_SYNC)
           (io_seq (WriteUInt8 ENM_OBFUSCATION) (io_seq (WriteUInt8 ENM_OBFUSCATION) (io_seq (WriteUInt8 byPadding)
             (io_foreach padding WriteUInt8))))))))
         (\<lambda>request.
       cs_seq (cs_mod (\<lambda>s. s\<lparr>m_NegotiatingState := ONS_BASIC_CLIENTB_MAGICVALUE, m_StreamCryptState := ECS_NEGOTIATING,
                             m_nReceiveBytesWanted := 4\<rparr>))
       (cs_bind (SendNegotiatingData (Some request) 5 False) (\<lambda>_. cs_return ())))))) s
     else if m_StreamCryptState s = ECS_PENDING_SERVER then
       cs_bind (GetSemiRandomNotProtocolMarker env) (\<lambda>marker.
       let a = big_random env DHAGREEMENT_A_BITS;
           ga = a_exp_b_mod_c env 2 a (big_decode env dh768_p) in
       cs_bind (GetRandomUint8 env) (\<lambda>r.
       let byPadding = of_nat (unat r mod 16) :: uint8 in
       cs_bind (random_bytes env (unat byPadding)) (\<lambda>padding.
       cs_bind (file_of env 113
         (io_seq (WriteUInt8 marker) (io_seq (WriteIO (big_encode env ga PRIMESIZE_BYTES))
           (io_seq (WriteUInt8 byPadding) (io_foreach padding WriteUInt8)))))
         (\<lambda>request.
       cs_seq (cs_mod (\<lambda>s. s\<lparr>m_cryptDHA := a, m_NegotiatingState := ONS_BASIC_SERVER_DHANSWER,
                             m_StreamCryptState := ECS_NEGOTIATING, m_nReceiveBytesWanted := 96\<rparr>))
       (cs_bind (SendNegotiatingData (Some request) (length request) False) (\<lambda>_. cs_return ())))))) s
     else (Inr (), s\<lparr>m_StreamCryptState := ECS_NONE\<rparr>))"

definition crypt_OnSend :: "crypt_env \<Rightarrow> unit cs" where
  "crypt_OnSend env = (\<lambda>s.
     if m_StreamCryptState s = ECS_PENDING \<or> m_StreamCryptState s = ECS_PENDING_SERVER then StartNegotiation env True s
     else if \<not> IsEmpty (m_pfiSendBuffer s) then cs_bind (SendNegotiatingData None 0 False) (\<lambda>_. cs_return ()) s
     else (Inr (), s))"

text \<open>
  The \<open>switch\<close> of \<open>Negotiate\<close>: \<open>Some r\<close> is \<open>return r\<close>, \<open>None\<close> a \<open>break\<close>. \<open>answer\<close> is the answer of client A and of a
  client to its server.
\<close>

definition switch_break :: "int option cs" where
  "switch_break = cs_return None"

definition switch_fail :: "int option cs" where
  "switch_fail = cs_seq (crypt_error ERR_ENCRYPTION) (cs_return (Some (-1)))"

definition want :: "ENegotiatingState \<Rightarrow> nat \<Rightarrow> unit cs" where
  "want st n = cs_mod (\<lambda>s. s\<lparr>m_NegotiatingState := st, m_nReceiveBytesWanted := n\<rparr>)"

definition answer :: "crypt_env \<Rightarrow> nat \<Rightarrow> uint8 list cs" where
  "answer env byPaddingLen =
     cs_bind (GetRandomUint8 env) (\<lambda>r.
     let byPadding = of_nat (unat r mod byPaddingLen) :: uint8 in
     cs_bind (random_bytes env (unat byPadding)) (\<lambda>padding.
     file_of env 26
       (io_seq (WriteUInt32 MAGICVALUE_SYNC) (io_seq (WriteUInt8 ENM_OBFUSCATION) (io_seq (WriteUInt8 byPadding)
         (io_foreach padding WriteUInt8))))))"

definition clienta_padding :: "crypt_env \<Rightarrow> int option cs" where
  "clienta_padding env =
     cs_bind (answer env (unat (if AwaitingTestFromIP env then 16 else CryptTCPPaddingLength env + 1))) (\<lambda>response.
     cs_bind (SendNegotiatingData (Some response) 0 False) (\<lambda>_.
     cs_seq (cs_mod (\<lambda>s. s\<lparr>m_NegotiatingState := ONS_COMPLETE, m_StreamCryptState := ECS_ENCRYPTING\<rparr>)) switch_break))"

definition clientb_padding :: "int option cs" where
  "clientb_padding = cs_seq (cs_mod (\<lambda>s. s\<lparr>m_NegotiatingState := ONS_COMPLETE, m_StreamCryptState := ECS_ENCRYPTING\<rparr>)) switch_break"

definition server_padding :: "crypt_env \<Rightarrow> int option cs" where
  "server_padding env =
     cs_bind (answer env 16) (\<lambda>response.
     cs_seq (cs_mod (\<lambda>s. s\<lparr>m_NegotiatingState := ONS_BASIC_SERVER_DELAYEDSENDING\<rparr>))
     (cs_bind (SendNegotiatingData (Some response) 0 True) (\<lambda>_.
     cs_seq (cs_mod (\<lambda>s. s\<lparr>m_StreamCryptState := ECS_ENCRYPTING\<rparr>)) switch_break)))"

definition negotiate_switch :: "crypt_env \<Rightarrow> int option cs" where
  "negotiate_switch env = (\<lambda>s.
     (case m_NegotiatingState s of
        ONS_NONE \<Rightarrow> cs_return (Some 0)
      | ONS_BASIC_CLIENTA_RANDOMPART \<Rightarrow>
          cs_bind (recv_op (buf_io (ReadIO 4))) (\<lambda>part.
          cs_seq (recv_op (SetKey (MD5 env (key_data (UserHash env) MAGICVALUE_REQUESTER part)) False))
          (cs_seq (send_op (SetKey (MD5 env (key_data (UserHash env) MAGICVALUE_SERVER part)) False))
          (cs_seq (want ONS_BASIC_CLIENTA_MAGICVALUE 4) switch_break)))
      | ONS_BASIC_CLIENTA_MAGICVALUE \<Rightarrow>
          cs_bind (recv_op (buf_io ReadUInt32)) (\<lambda>dwValue.
          if dwValue = MAGICVALUE_SYNC then cs_seq (want ONS_BASIC_CLIENTA_METHODTAGSPADLEN 3) switch_break
          else switch_fail)
      | ONS_BASIC_CLIENTA_METHODTAGSPADLEN \<Rightarrow>
          cs_bind (recv_op (buf_io ReadUInt8)) (\<lambda>supported.
          cs_bind (recv_op (buf_io ReadUInt8)) (\<lambda>requested.
          cs_seq (cs_mod (\<lambda>s. s\<lparr>m_dbgbyEncryptionSupported := supported, m_dbgbyEncryptionRequested := requested\<rparr>))
          (cs_bind (recv_op (buf_io ReadUInt8)) (\<lambda>n.
          cs_seq (want ONS_BASIC_CLIENTA_PADDING (unat n))
          (if 0 < unat n then switch_break else clienta_padding env)))))
      | ONS_BASIC_CLIENTA_PADDING \<Rightarrow> clienta_padding env
      | ONS_BASIC_CLIENTB_MAGICVALUE \<Rightarrow>
          cs_bind (recv_op (buf_io ReadUInt32)) (\<lambda>dwValue.
          if dwValue \<noteq> MAGICVALUE_SYNC then switch_fail
          else cs_seq (want ONS_BASIC_CLIENTB_METHODTAGSPADLEN 2) switch_break)
      | ONS_BASIC_CLIENTB_METHODTAGSPADLEN \<Rightarrow>
          cs_bind (recv_op (buf_io ReadUInt8)) (\<lambda>method.
          cs_seq (cs_mod (\<lambda>s. s\<lparr>m_dbgbyEncryptionMethodSet := method\<rparr>))
          (if method \<noteq> ENM_OBFUSCATION then switch_fail
           else
             cs_bind (recv_op (buf_io ReadUInt8)) (\<lambda>n.
             cs_seq (want ONS_BASIC_CLIENTB_PADDING (unat n))
             (if 0 < unat n then switch_break else clientb_padding))))
      | ONS_BASIC_CLIENTB_PADDING \<Rightarrow> clientb_padding
      | ONS_BASIC_SERVER_DHANSWER \<Rightarrow>
          cs_bind (recv_op (buf_io (ReadIO PRIMESIZE_BYTES))) (\<lambda>aBuffer.
          let key = big_encode env (a_exp_b_mod_c env (big_decode env aBuffer) (m_cryptDHA s) (big_decode env dh768_p)) PRIMESIZE_BYTES in
          cs_seq (cs_mod (\<lambda>s. s\<lparr>m_cryptDHA := 0\<rparr>))
          (cs_seq (send_op (SetKey (MD5 env (key @ [MAGICVALUE_REQUESTER])) False))
          (cs_seq (recv_op (SetKey (MD5 env (key @ [MAGICVALUE_SERVER])) False))
          (cs_seq (want ONS_BASIC_SERVER_MAGICVALUE 4) switch_break))))
      | ONS_BASIC_SERVER_MAGICVALUE \<Rightarrow>
          cs_bind (recv_op (buf_io ReadUInt32)) (\<lambda>dwValue.
          if dwValue = MAGICVALUE_SYNC then cs_seq (want ONS_BASIC_SERVER_METHODTAGSPADLEN 3) switch_break
          else switch_fail)
      | ONS_BASIC_SERVER_METHODTAGSPADLEN \<Rightarrow>
          cs_bind (recv_op (buf_io ReadUInt8)) (\<lambda>supported.
          cs_bind (recv_op (buf_io ReadUInt8)) (\<lambda>requested.
          cs_seq (cs_mod (\<lambda>s. s\<lparr>m_dbgbyEncryptionSupported := supported, m_dbgbyEncryptionRequested := requested\<rparr>))
          (cs_bind (recv_op (buf_io ReadUInt8)) (\<lambda>n.
          cs_seq (want ONS_BASIC_SERVER_PADDING (unat n))
          (if 0 < unat n then switch_break else server_padding env)))))
      | ONS_BASIC_SERVER_PADDING \<Rightarrow> server_padding env
      | ONS_BASIC_SERVER_DELAYEDSENDING \<Rightarrow> switch_break
      | ONS_COMPLETE \<Rightarrow> switch_break) s)"

text \<open>
  One turn of the loop with the bytes that are left: \<open>Some r\<close> ends it with the result \<open>r\<close>. The step before the
  \<open>switch\<close> writes the bytes to the buffer and decrypts them.
\<close>

definition negotiate_fill :: "unit cs" where
  "negotiate_fill = (\<lambda>s.
     cs_seq (if m_NegotiatingState s \<noteq> ONS_BASIC_CLIENTA_RANDOMPART \<and> m_NegotiatingState s \<noteq> ONS_BASIC_SERVER_DHANSWER
             then recv_op Encrypt else cs_return ())
       (recv_op (buf_io (io_bind (SeekIO 0 FromStart) (\<lambda>_. io_return ())))) s)"

definition negotiate_turn :: "crypt_env \<Rightarrow> nat \<Rightarrow> uint8 list \<Rightarrow> int option cs" where
  "negotiate_turn env nRead rest = (\<lambda>s.
     if m_NegotiatingState s = ONS_COMPLETE \<or> m_nReceiveBytesWanted s = 0 then (Inr (Some (int nRead)), s)
     else if 512 < m_nReceiveBytesWanted s then (Inr (Some 0), s)
     else
       let nToRead = min (length rest) (m_nReceiveBytesWanted s) in
       cs_seq (recv_op (buf_io (WriteIO (take nToRead rest))))
       (cs_seq (cs_mod (\<lambda>s. s\<lparr>m_nReceiveBytesWanted := m_nReceiveBytesWanted s - nToRead\<rparr>))
       (if nToRead < m_nReceiveBytesWanted s then cs_return (Some (int (nRead + nToRead)))
        else
          cs_seq negotiate_fill
          (cs_bind (negotiate_switch env) (\<lambda>r.
           case r of
             Some r \<Rightarrow> cs_return (Some r)
           | None \<Rightarrow> cs_seq (cs_mod (\<lambda>s. s\<lparr>m_pfiReceiveBuffer := buf_reset (m_pfiReceiveBuffer s)\<rparr>)) (cs_return None))))) s)"

lemma negotiate_turn_goes_on:
  "fst (negotiate_turn env nRead rest s) = Inr None \<Longrightarrow> 0 < m_nReceiveBytesWanted s \<and> m_nReceiveBytesWanted s \<le> length rest"
  by (auto simp: negotiate_turn_def Let_def cs_seq_def cs_bind_def cs_return_def cs_mod_def min_def not_le split: if_splits sum.splits prod.splits)

function negotiate_loop :: "crypt_env \<Rightarrow> nat \<Rightarrow> uint8 list \<Rightarrow> int cs" where
  "negotiate_loop env nRead rest s =
     (let r = negotiate_turn env nRead rest s in
      if fst r = Inr None then
        negotiate_loop env (nRead + m_nReceiveBytesWanted s) (drop (m_nReceiveBytesWanted s) rest) (snd r)
      else (map_sum id the (fst r), snd r))"
  by pat_completeness auto
termination
  by (relation "measure (\<lambda>(env, nRead, rest, s). length rest)") (auto dest!: negotiate_turn_goes_on)

declare negotiate_loop.simps [simp del]

definition Negotiate :: "crypt_env \<Rightarrow> uint8 list \<Rightarrow> int cs" where
  "Negotiate env pBuf = (\<lambda>s.
     if m_nReceiveBytesWanted s = 0 then (Inr (-1), s)
     else
       (case negotiate_loop env 0 pBuf s of
          (Inr r, s) \<Rightarrow> (Inr r, s)
        | (Inl e, s) \<Rightarrow>
            (Inr (-1), s\<lparr>crypt_errors := crypt_errors s @ [ERR_ENCRYPTION], m_pfiReceiveBuffer := buf_reset (m_pfiReceiveBuffer s)\<rparr>)))"

text \<open>
  \<open>Read\<close>: \<open>got\<close> is what \<open>CSocketClientProxy::Read\<close> returned, the result what the caller is left with in its buffer.
\<close>

definition crypt_Read :: "crypt_env \<Rightarrow> nat \<Rightarrow> uint8 list option \<Rightarrow> uint8 list option cs" where
  "crypt_Read env nBufLen got = (\<lambda>s.
     (case got of
        None \<Rightarrow> (Inr None, s\<lparr>m_nObfusicationBytesReceived := SOCKET_ERROR, m_bFullReceive := (nBufLen = SOCKET_ERROR)\<rparr>)
      | Some bs \<Rightarrow>
          let s = s\<lparr>m_nObfusicationBytesReceived := length bs, m_bFullReceive := (length bs = nBufLen)\<rparr> in
          if bs = [] then (Inr (Some []), s)
          else
            (case m_StreamCryptState s of
               ECS_NONE \<Rightarrow> (Inr (Some bs), s)
             | ECS_PENDING \<Rightarrow> (Inr (Some bs), s\<lparr>m_StreamCryptState := ECS_NONE\<rparr>)
             | ECS_PENDING_SERVER \<Rightarrow> (Inr (Some bs), s\<lparr>m_StreamCryptState := ECS_NONE\<rparr>)
             | ECS_UNKNOWN \<Rightarrow>
                 if hd bs \<noteq> OP_EDONKEYPROT \<and> hd bs \<noteq> OP_PACKEDPROT \<and> hd bs \<noteq> OP_EMULEPROT then
                   cs_seq (StartNegotiation env False)
                   (cs_bind (Negotiate env (tl bs)) (\<lambda>nNegRes.
                      if nNegRes = -1 then cs_return (Some [])
                      else if 1 + nNegRes \<noteq> int (length bs) then cs_seq (crypt_error ERR_ENCRYPTION) (cs_return (Some []))
                      else cs_return (Some []))) s
                 else
                   let s = s\<lparr>m_StreamCryptState := ECS_NONE\<rparr> in
                   if CryptLayerRequired env \<and> (CryptLayerRequiredStrict env \<or> (\<not> AwaitingTestFromIP env \<and> \<not> KadFirewallCheckIP env))
                   then cs_seq (crypt_error ERR_ENCRYPTION_NOTALLOWED) (cs_return (Some [])) s
                   else (Inr (Some bs), s)
             | ECS_ENCRYPTING \<Rightarrow> cs_bind (recv_op (buf_crypt bs)) (\<lambda>cs. cs_return (Some cs)) s
             | ECS_NEGOTIATING \<Rightarrow>
                 cs_bind (Negotiate env bs) (\<lambda>nRead. (\<lambda>s.
                   if nRead = -1 then (Inr (Some []), s)
                   else if nRead \<noteq> int (length bs) \<and> m_StreamCryptState s \<noteq> ECS_ENCRYPTING then
                     cs_seq (crypt_error ERR_ENCRYPTION) (cs_return (Some [])) s
                   else if nRead \<noteq> int (length bs) then (Inr (Some (drop (nat nRead) bs)), s)
                   else (Inr (Some []), s))) s)))"

end
