(* ===== verification/EM_Send.thy ===== *)
theory EM_Send
  imports Crypt_Stream
begin

text \<open>
  Writing packets to a TCP stream: the sending half of \<open>CEMSocket\<close> (\<open>src/src/EMSocket.cpp\<close>, \<open>.h\<close>). The encryption
  layer below is \<open>layer\<close>. What a \<open>Write\<close> leaves behind (\<open>BlocksWrite\<close>, \<open>LastError\<close>, \<open>IsOk\<close>) and the clock around it
  are a list of outcomes; when it is used up a write blocks. \<open>requeued\<close> records the calls of
  \<open>QueueForSendingControlPacket\<close> with their argument. \<open>taken\<close> is a ghost: the packets that have left the queues, with
  the queue they left (\<open>True\<close> for control). \<open>wxASSERT\<close> is not modelled.
\<close>

section \<open>State\<close>

record em_send =
  con :: uint8
  layer :: crypt_socket
  sendbuffer :: "uint8 list option"
  sendblen :: nat
  sent :: nat
  m_control_queue :: "CPacket list"
  m_standard_queue :: "(nat \<times> CPacket) list"
  m_currentPacket_is_controlpacket :: bool
  m_numberOfSentBytesCompleteFile :: nat
  m_numberOfSentBytesPartFile :: nat
  m_numberOfSentBytesControlPacket :: nat
  m_currentPackageIsFromPartFile :: bool
  m_bAccelerateUpload :: bool
  lastCalledSend :: nat
  lastSent :: nat
  lastFinishedStandard :: nat
  m_actualPayloadSize :: nat
  m_actualPayloadSizeSent :: nat
  m_bBusy :: bool
  m_hasSent :: bool
  requeued :: "bool list"
  taken :: "(bool \<times> CPacket) list"

definition NOTCONNECTED :: uint8 where "NOTCONNECTED = 0x00"
definition CONNECTED :: uint8 where "CONNECTED = 0x01"
definition DISCONNECTED :: uint8 where "DISCONNECTED = 0xFF"

definition new_em_send :: "crypt_socket \<Rightarrow> nat \<Rightarrow> em_send" where
  "new_em_send l now =
     \<lparr>con = NOTCONNECTED, layer = l, sendbuffer = None, sendblen = 0, sent = 0, m_control_queue = [], m_standard_queue = [],
      m_currentPacket_is_controlpacket = False, m_numberOfSentBytesCompleteFile = 0, m_numberOfSentBytesPartFile = 0,
      m_numberOfSentBytesControlPacket = 0, m_currentPackageIsFromPartFile = False, m_bAccelerateUpload = False,
      lastCalledSend = now, lastSent = sub64 now 1000, lastFinishedStandard = 0, m_actualPayloadSize = 0,
      m_actualPayloadSizeSent = 0, m_bBusy = False, m_hasSent = False, requeued = [], taken = []\<rparr>"

definition standard_pending :: "em_send \<Rightarrow> bool" where
  "standard_pending s \<longleftrightarrow> (sendbuffer s \<noteq> None \<and> \<not> m_currentPacket_is_controlpacket s) \<or> m_standard_queue s \<noteq> []"

definition QueueForSendingControlPacket :: "em_send \<Rightarrow> em_send" where
  "QueueForSendingControlPacket s = s\<lparr>requeued := requeued s @ [m_hasSent s]\<rparr>"

text \<open>\<open>delpacket\<close> decides who owns the packet, not what is queued.\<close>

definition SendPacket :: "nat \<Rightarrow> CPacket \<Rightarrow> bool \<Rightarrow> nat \<Rightarrow> em_send \<Rightarrow> em_send" where
  "SendPacket now packet controlpacket actualPayloadSize s =
     (if con s = DISCONNECTED then s
      else if controlpacket then QueueForSendingControlPacket (s\<lparr>m_control_queue := m_control_queue s @ [packet]\<rparr>)
      else
        let first = \<not> standard_pending s;
            s = s\<lparr>m_standard_queue := m_standard_queue s @ [(actualPayloadSize, packet)]\<rparr>
        in if first then s\<lparr>lastFinishedStandard := now, m_bAccelerateUpload := True\<rparr> else s)"

definition GetSentBytesCompleteFileSinceLastCallAndReset :: "em_send \<Rightarrow> nat \<times> em_send" where
  "GetSentBytesCompleteFileSinceLastCallAndReset s = (m_numberOfSentBytesCompleteFile s, s\<lparr>m_numberOfSentBytesCompleteFile := 0\<rparr>)"

definition GetSentBytesPartFileSinceLastCallAndReset :: "em_send \<Rightarrow> nat \<times> em_send" where
  "GetSentBytesPartFileSinceLastCallAndReset s = (m_numberOfSentBytesPartFile s, s\<lparr>m_numberOfSentBytesPartFile := 0\<rparr>)"

definition GetSentBytesControlPacketSinceLastCallAndReset :: "em_send \<Rightarrow> nat \<times> em_send" where
  "GetSentBytesControlPacketSinceLastCallAndReset s = (m_numberOfSentBytesControlPacket s, s\<lparr>m_numberOfSentBytesControlPacket := 0\<rparr>)"

definition GetSentPayloadSinceLastCallAndReset :: "em_send \<Rightarrow> nat \<times> em_send" where
  "GetSentPayloadSinceLastCallAndReset s = (m_actualPayloadSizeSent s, s\<lparr>m_actualPayloadSizeSent := 0\<rparr>)"

definition HasQueues :: "bool \<Rightarrow> em_send \<Rightarrow> bool" where
  "HasQueues bOnlyStandardPackets s \<longleftrightarrow>
     sendbuffer s \<noteq> None \<or> m_standard_queue s \<noteq> [] \<or> (\<not> bOnlyStandardPackets \<and> m_control_queue s \<noteq> [])"

definition em_OnSend :: "crypt_env \<Rightarrow> nat \<Rightarrow> em_send \<Rightarrow> (thrown + unit) \<times> em_send" where
  "em_OnSend env nErrorCode s =
     (if nErrorCode \<noteq> 0 then (Inr (), s)
      else
        (case crypt_OnSend env (layer s) of
           (Inl e, l) \<Rightarrow> (Inl e, s\<lparr>layer := l\<rparr>)
         | (Inr _, l) \<Rightarrow>
             let s = s\<lparr>layer := l, m_bBusy := False\<rparr> in
             (Inr (),
              if con s \<noteq> DISCONNECTED then
                (let s = s\<lparr>con := CONNECTED\<rparr> in
                 if m_currentPacket_is_controlpacket s then QueueForSendingControlPacket s else s)
              else s)))"

definition TruncateQueues :: "em_send \<Rightarrow> em_send" where
  "TruncateQueues s = s\<lparr>m_standard_queue := []\<rparr>"

text \<open>The sending half of \<open>ClearQueues\<close>.\<close>

definition clear_send :: "em_send \<Rightarrow> em_send" where
  "clear_send s = s\<lparr>m_control_queue := [], m_standard_queue := [], sendbuffer := None, sendblen := 0, sent := 0\<rparr>"

definition close_send :: "em_send \<Rightarrow> em_send" where
  "close_send s = clear_send (s\<lparr>con := DISCONNECTED\<rparr>)"

section \<open>\<open>Send\<close>\<close>

definition GetNextFragSize :: "nat \<Rightarrow> nat \<Rightarrow> nat" where
  "GetNextFragSize current minFragSize =
     (if current mod minFragSize = 0 then current else u32 (minFragSize * (current div minFragSize + 1)))"

record write_outcome =
  blocks_write :: bool
  last_error :: bool
  is_ok :: bool
  tick_before :: nat
  tick_after :: nat

text \<open>What does not change during a call, and its local variables.\<close>

record send_call =
  maxNumber :: nat
  minFrag :: nat
  onlyControl :: bool
  longTime :: bool

record send_locals =
  sentStandard :: nat
  sentControl :: nat
  anError :: bool
  streamIsGone :: bool

definition total :: "send_locals \<Rightarrow> nat" where
  "total l = u32 (sentStandard l + sentControl l)"

definition packet_guard :: "send_call \<Rightarrow> send_locals \<Rightarrow> em_send \<Rightarrow> bool" where
  "packet_guard c l s \<longleftrightarrow>
     sent s < sendblen s \<and> total l < maxNumber c \<and>
     (\<not> onlyControl c \<or> m_currentPacket_is_controlpacket s \<or> (longTime c \<and> total l < minFrag c) \<or> total l mod minFrag c \<noteq> 0)
     \<and> \<not> anError l \<and> \<not> streamIsGone l"

definition at_most :: "nat \<Rightarrow> nat \<Rightarrow> nat \<Rightarrow> nat" where
  "at_most limit done tosend = (if done \<le> limit \<and> limit - done < tosend then limit - done else tosend)"

definition tosend :: "send_call \<Rightarrow> send_locals \<Rightarrow> em_send \<Rightarrow> nat" where
  "tosend c l s =
     (let n = sendblen s - sent s in
      if \<not> onlyControl c \<or> m_currentPacket_is_controlpacket s then at_most (maxNumber c) (total l) n
      else if longTime c \<and> total l < minFrag c then at_most (minFrag c) (total l) n
      else at_most (GetNextFragSize (total l) (minFrag c)) (total l) n)"

definition count_sent :: "nat \<Rightarrow> send_locals \<Rightarrow> em_send \<Rightarrow> send_locals \<times> em_send" where
  "count_sent result l s =
     (if 0 < result then
        (let s = s\<lparr>m_hasSent := True, sent := u32 (sent s + result)\<rparr> in
         if \<not> m_currentPacket_is_controlpacket s then
           (l\<lparr>sentStandard := u32 (sentStandard l + result)\<rparr>,
            if m_currentPackageIsFromPartFile s
            then s\<lparr>m_numberOfSentBytesPartFile := u64 (m_numberOfSentBytesPartFile s + result)\<rparr>
            else s\<lparr>m_numberOfSentBytesCompleteFile := u64 (m_numberOfSentBytesCompleteFile s + result)\<rparr>)
         else
           (l\<lparr>sentControl := u32 (sentControl l + result)\<rparr>,
            s\<lparr>m_numberOfSentBytesControlPacket := u64 (m_numberOfSentBytesControlPacket s + result)\<rparr>))
      else (l, s))"

text \<open>One \<open>Write\<close>; a read beyond the buffer is a memory fault.\<close>

definition write_some :: "send_call \<Rightarrow> nat \<Rightarrow> send_locals \<Rightarrow> em_send \<Rightarrow> thrown + send_locals \<times> em_send" where
  "write_some c now l s =
     (let n = tosend c l s in
      case sendbuffer s of
        None \<Rightarrow> Inl (FileError MemoryFault)
      | Some b \<Rightarrow>
          if length b < sent s + n then Inl (FileError MemoryFault)
          else
            (case crypt_Write (take n (drop (sent s) b)) (layer s) of
               (Inl e, _) \<Rightarrow> Inl e
             | (Inr result, y) \<Rightarrow> Inr (count_sent result l (s\<lparr>lastSent := now, layer := y\<rparr>))))"

definition blocked :: write_outcome where
  "blocked = \<lparr>blocks_write = True, last_error = False, is_ok = True, tick_before = 0, tick_after = 0\<rparr>"

text \<open>The inner loop; \<open>True\<close> is the return from the middle.\<close>

fun send_packet ::
  "send_call \<Rightarrow> send_locals \<Rightarrow> em_send \<Rightarrow> write_outcome list \<Rightarrow> thrown + bool \<times> send_locals \<times> em_send \<times> write_outcome list" where
  "send_packet c l s [] =
     (if \<not> packet_guard c l s then Inr (False, l, s, [])
      else sum_bind (write_some c (tick_before blocked) l s) (\<lambda>(l, s). Inr (True, l, s\<lparr>m_bBusy := True\<rparr>, [])))"
| "send_packet c l s (w # ws) =
     (if \<not> packet_guard c l s then Inr (False, l, s, w # ws)
      else sum_bind (write_some c (tick_before w) l s) (\<lambda>(l, s).
        if blocks_write w then Inr (True, l, s\<lparr>m_bBusy := True\<rparr>, ws)
        else if last_error w then send_packet c (l\<lparr>anError := True\<rparr>) s ws
        else if \<not> is_ok w then Inr (False, l\<lparr>streamIsGone := True\<rparr>, s\<lparr>m_bBusy := False\<rparr>, ws)
        else send_packet c l (s\<lparr>m_bBusy := False\<rparr>) ws))"

definition call_guard :: "send_call \<Rightarrow> send_locals \<Rightarrow> em_send \<Rightarrow> bool" where
  "call_guard c l s \<longleftrightarrow>
     total l < maxNumber c \<and> \<not> anError l \<and> \<not> streamIsGone l \<and>
     (m_control_queue s \<noteq> [] \<or> m_standard_queue s \<noteq> [] \<or> sendbuffer s \<noteq> None) \<and>
     (\<not> onlyControl c
      \<or> (0 < total l \<and> total l mod minFrag c \<noteq> 0)
      \<or> (sendbuffer s = None \<and> m_control_queue s \<noteq> [])
      \<or> (sendbuffer s \<noteq> None \<and> m_currentPacket_is_controlpacket s)
      \<or> (sendbuffer s \<noteq> None \<and> \<not> m_currentPacket_is_controlpacket s \<and> longTime c \<and> m_control_queue s \<noteq> []
           \<and> m_standard_queue s = [] \<and> total l < minFrag c))"

text \<open>The next packet moves to the send buffer and is encrypted there.\<close>

definition load_packet :: "(nat \<Rightarrow> uint8) \<Rightarrow> bool \<Rightarrow> CPacket \<Rightarrow> em_send \<Rightarrow> thrown + em_send" where
  "load_packet junk control p s =
     (case DetachPacket junk p of
        Inl _ \<Rightarrow> Inl (FileError MemoryFault)
      | Inr b \<Rightarrow>
          let n = unat (GetRealPacketSize p) in
          if length b < n then Inl (FileError MemoryFault)
          else
            (case CryptPrepareSendData (take n b) (layer s) of
               (Inl e, _) \<Rightarrow> Inl e
             | (Inr cs, y) \<Rightarrow>
                 Inr (s\<lparr>sendblen := n, sendbuffer := Some (cs @ drop n b), sent := 0, layer := y, taken := taken s @ [(control, p)]\<rparr>)))"

definition next_packet :: "(nat \<Rightarrow> uint8) \<Rightarrow> em_send \<Rightarrow> thrown + em_send" where
  "next_packet junk s =
     (if sendbuffer s \<noteq> None then Inr s
      else
        (case m_control_queue s of
           p # rest \<Rightarrow> load_packet junk True p (s\<lparr>m_currentPacket_is_controlpacket := True, m_control_queue := rest\<rparr>)
         | [] \<Rightarrow>
             (case m_standard_queue s of
                (payload, p) # rest \<Rightarrow>
                  load_packet junk False p (s\<lparr>m_currentPacket_is_controlpacket := False, m_standard_queue := rest,
                    m_actualPayloadSize := payload, m_currentPackageIsFromPartFile := m_bFromPF p\<rparr>)
              | [] \<Rightarrow> Inr s)))"

definition finish_packet :: "nat \<Rightarrow> em_send \<Rightarrow> em_send" where
  "finish_packet now s =
     (if sent s = sendblen s then
        (let s = s\<lparr>sendbuffer := None, sendblen := 0, sent := 0\<rparr> in
         if \<not> m_currentPacket_is_controlpacket s then
           s\<lparr>m_actualPayloadSizeSent := u32 (m_actualPayloadSizeSent s + m_actualPayloadSize s), m_actualPayloadSize := 0,
             lastFinishedStandard := now, m_bAccelerateUpload := False\<rparr>
         else s)
      else s)"

text \<open>The clock when a packet is finished, from the last outcome that was used.\<close>

definition finish_tick :: "write_outcome list \<Rightarrow> write_outcome list \<Rightarrow> nat" where
  "finish_tick ws rest = (if length rest < length ws then tick_after (ws ! (length ws - length rest - 1)) else 0)"

definition work_left :: "em_send \<Rightarrow> nat" where
  "work_left s = length (m_control_queue s) + length (m_standard_queue s) + (if sendbuffer s = None then 0 else 1)"

lemma send_packet_length:
  "send_packet c l s ws = Inr (r, l', s', rest) \<Longrightarrow> length rest \<le> length ws"
  by (induction c l s ws arbitrary: r l' s' rest rule: send_packet.induct)
    (fastforce simp: sum_bind_Inr split: if_splits prod.splits)+

text \<open>
  The outer loop. A round that neither writes nor takes a packet would be repeated for ever: \<open>Spins\<close>.
\<close>

datatype send_fault = Spins | Throws thrown

function send_loop ::
  "(nat \<Rightarrow> uint8) \<Rightarrow> send_call \<Rightarrow> send_locals \<Rightarrow> em_send \<Rightarrow> write_outcome list \<Rightarrow> send_fault + bool \<times> send_locals \<times> em_send" where
  "send_loop junk c l s ws =
     (if \<not> call_guard c l s then Inr (False, l, s)
      else
        (case next_packet junk s of
           Inl e \<Rightarrow> Inl (Throws e)
         | Inr s1 \<Rightarrow>
             (case send_packet c l s1 ws of
                Inl e \<Rightarrow> Inl (Throws e)
              | Inr (returned, l', s2, rest) \<Rightarrow>
                  if returned then Inr (True, l', s2)
                  else
                    let s3 = finish_packet (finish_tick ws rest) s2 in
                    if length rest < length ws \<or> (length rest = length ws \<and> work_left s3 < work_left s)
                    then send_loop junk c l' s3 rest
                    else Inl Spins)))"
  by pat_completeness auto
termination
  by (relation "measures [\<lambda>(junk, c, l, s, ws). length ws, \<lambda>(junk, c, l, s, ws). work_left s]") auto

declare send_loop.simps [simp del]

definition Send ::
  "(nat \<Rightarrow> uint8) \<Rightarrow> nat \<Rightarrow> nat \<Rightarrow> nat \<Rightarrow> bool \<Rightarrow> write_outcome list \<Rightarrow> em_send \<Rightarrow> send_fault + (bool \<times> nat \<times> nat) \<times> em_send" where
  "Send junk now maxNumberOfBytesToSend minFragSize onlyAllowedToSendControlPacket ws s =
     (if con s = DISCONNECTED then Inr ((False, 0, 0), s)
      else if m_bBusy s \<and> onlyAllowedToSendControlPacket then Inr ((True, 0, 0), s)
      else
        (let l0 = \<lparr>sentStandard = 0, sentControl = 0, anError = False, streamIsGone = False\<rparr>;
             frag = (if minFragSize < 1 then 1 else minFragSize);
             c = \<lparr>maxNumber = GetNextFragSize maxNumberOfBytesToSend frag, minFrag = frag,
                  onlyControl = onlyAllowedToSendControlPacket, longTime = (1000 < sub64 now (lastSent s))\<rparr>;
             r = (if con s = CONNECTED \<and> IsEncryptionLayerReady (layer s) \<and> (\<not> m_bBusy s \<or> onlyAllowedToSendControlPacket)
                  then send_loop junk c l0 (s\<lparr>lastCalledSend := now\<rparr>) ws
                  else Inr (False, l0, s))
         in sum_bind r (\<lambda>(returned, l, s).
              if returned then Inr ((True, sentStandard l, sentControl l), s)
              else Inr ((\<not> anError l, sentStandard l, sentControl l),
                if onlyAllowedToSendControlPacket \<and>
                   (m_control_queue s \<noteq> [] \<or> (sendbuffer s \<noteq> None \<and> m_currentPacket_is_controlpacket s))
                then QueueForSendingControlPacket s else s))))"

definition GetNeededBytes :: "nat \<Rightarrow> em_send \<Rightarrow> nat \<times> em_send" where
  "GetNeededBytes now s =
     (if con s = DISCONNECTED \<or> \<not> standard_pending s then (0, s)
      else
        (let current = (sendbuffer s \<noteq> None \<and> \<not> m_currentPacket_is_controlpacket s);
             s = (if current \<and> m_control_queue s \<noteq> [] then s\<lparr>m_bAccelerateUpload := True\<rparr> else s);
             sendgap = sub64 now (lastCalledSend s);
             timetotal = (if m_bAccelerateUpload s then 45000 else 90000);
             timeleft = sub64 now (lastFinishedStandard s);
             sizeleft = (if current then u32 (sendblen s + 2 ^ 32 - sent s) else unat (GetRealPacketSize (snd (hd (m_standard_queue s)))));
             sizetotal = (if current then sendblen s else unat (GetRealPacketSize (snd (hd (m_standard_queue s)))))
         in if timetotal \<le> timeleft then (u32 sizeleft, s)
            else
              (let timeleft = timetotal - timeleft in
               if timetotal * sizeleft \<le> timeleft * sizetotal then (if 20000 < sendgap then 1 else 0, s)
               else
                 (let decval = timeleft * sizetotal div timetotal in
                  if decval = 0 then (u32 sizeleft, s)
                  else if decval < sizeleft then (u32 (sizeleft - decval + 1), s)
                  else (1, s)))))"

end
