(* ===== verification/EM_Send_Props.thy ===== *)
theory EM_Send_Props
  imports EM_Send
begin

text \<open>
  What \<open>CEMSocket::Send\<close> puts on the wire: the packets that left the queues, whole and one after the other.
\<close>

section \<open>The bytes of a packet\<close>

definition sendable :: "CPacket \<Rightarrow> bool" where
  "sendable p \<longleftrightarrow> unat (p_size p) + 6 < 2 ^ 32 \<and>
     (case completebuffer p of Some a \<Rightarrow> unat (p_size p) + 6 \<le> length a | None \<Rightarrow> unat (p_size p) \<le> length (data_or_null p))"

definition packet_bytes :: "CPacket \<Rightarrow> uint8 list" where
  "packet_bytes p =
     (case completebuffer p of
        Some a \<Rightarrow> if m_bSplitted p then take (unat (p_size p) + 6) a else GetHeader p @ take (unat (p_size p)) (drop 6 a)
      | None \<Rightarrow> GetHeader p @ take (unat (p_size p)) (data_or_null p))"

lemma length_GetHeader [simp]: "length (GetHeader p) = 6"
  by (simp add: GetHeader_def)

lemma real_size: "sendable p \<Longrightarrow> unat (GetRealPacketSize p) = unat (p_size p) + 6"
  by (simp add: sendable_def GetRealPacketSize_def unat_plus_simple [THEN iffD1] no_olen_add_nat unat_add_lem [THEN iffD1])

lemma length_packet_bytes: "sendable p \<Longrightarrow> length (packet_bytes p) = unat (p_size p) + 6"
  by (auto simp: sendable_def packet_bytes_def split: option.splits)

lemma DetachPacket_ok:
  assumes "sendable p"
  shows "\<exists>b. DetachPacket junk p = Inr b \<and> unat (p_size p) + 6 \<le> length b \<and> take (unat (p_size p) + 6) b = packet_bytes p"
proof (cases "completebuffer p")
  case None
  let ?n = "unat (p_size p)"
  have l: "?n \<le> length (data_or_null p)" using assms None by (simp add: sendable_def)
  let ?a = "GetHeader p @ drop 6 (new_array junk (?n + 6 + 4))"
  have "poke 0 (GetHeader p) (new_array junk (?n + 6 + 4)) = Inr ?a" by (simp add: poke_def)
  moreover have "fetch 0 ?n (data_or_null p) = Inr (take ?n (data_or_null p))" using l by (simp add: fetch_def)
  moreover have "poke 6 (take ?n (data_or_null p)) ?a = Inr (GetHeader p @ take ?n (data_or_null p) @ drop (6 + ?n) ?a)"
    using l by (simp add: poke_def min_def)
  ultimately show ?thesis using None l by (auto simp: DetachPacket_def packet_bytes_def min_def)
next
  case (Some a)
  then show ?thesis using assms by (auto simp: sendable_def DetachPacket_def packet_bytes_def poke_def)
qed

section \<open>What the socket keeps\<close>

definition layer_ok :: "crypt_socket \<Rightarrow> bool" where
  "layer_ok y \<longleftrightarrow> (m_StreamCryptState y = ECS_NONE \<or> (m_StreamCryptState y = ECS_ENCRYPTING \<and> m_hasKey (m_pfiSendBuffer y)))
     \<and> IsEmpty (m_pfiSendBuffer y) \<and> \<not> m_bServerCrypt y \<and> None \<notin> set (accepts y)"

definition enciphered :: "crypt_socket \<Rightarrow> uint8 list \<Rightarrow> uint8 list" where
  "enciphered y bs = (if m_StreamCryptState y = ECS_ENCRYPTING then fst (RC4Crypt bs (m_key (m_pfiSendBuffer y))) else bs)"

text \<open>\<open>y\<close> is \<open>y0\<close> after \<open>bs\<close> have been encrypted and some bytes written.\<close>

definition layer_after :: "crypt_socket \<Rightarrow> uint8 list \<Rightarrow> crypt_socket \<Rightarrow> bool" where
  "layer_after y0 bs y \<longleftrightarrow> layer_ok y \<and> m_StreamCryptState y = m_StreamCryptState y0 \<and>
     (m_StreamCryptState y0 = ECS_ENCRYPTING \<longrightarrow> m_key (m_pfiSendBuffer y) = rc4_discard (length bs) (m_key (m_pfiSendBuffer y0)))"

definition current_rest :: "em_send \<Rightarrow> uint8 list" where
  "current_rest s = (case sendbuffer s of None \<Rightarrow> [] | Some b \<Rightarrow> drop (sent s) (take (sendblen s) b))"

definition taken_bytes :: "em_send \<Rightarrow> uint8 list" where
  "taken_bytes s = concat (map (\<lambda>x. packet_bytes (snd x)) (taken s))"

definition send_ok :: "crypt_socket \<Rightarrow> em_send \<Rightarrow> bool" where
  "send_ok y0 s \<longleftrightarrow>
     (\<forall>p \<in> set (m_control_queue s). sendable p) \<and> (\<forall>x \<in> set (m_standard_queue s). sendable (snd x)) \<and>
     (case sendbuffer s of None \<Rightarrow> sent s = 0 \<and> sendblen s = 0
      | Some b \<Rightarrow> sendblen s \<le> length b \<and> sent s \<le> sendblen s \<and> sendblen s < 2 ^ 32) \<and>
     layer_after y0 (taken_bytes s) (layer s) \<and>
     net (layer s) @ current_rest s = net y0 @ enciphered y0 (taken_bytes s)"

lemma layer_ready: "layer_ok y \<Longrightarrow> IsEncryptionLayerReady y"
  by (auto simp: layer_ok_def IsEncryptionLayerReady_def)

lemma prepare_ok:
  assumes "layer_after y0 done y"
  shows "\<exists>y'. CryptPrepareSendData bs y = (Inr (enciphered y bs), y') \<and> layer_after y0 (done @ bs) y' \<and> net y' = net y"
proof (cases "m_StreamCryptState y = ECS_ENCRYPTING")
  case True
  then have "CryptPrepareSendData bs y = (Inr (enciphered y bs),
      y\<lparr>m_pfiSendBuffer := (m_pfiSendBuffer y)\<lparr>m_key := rc4_discard (length bs) (m_key (m_pfiSendBuffer y))\<rparr>\<rparr>)"
    using assms layer_ready [of y]
    by (simp add: CryptPrepareSendData_def send_op_def buf_crypt_def snd_RC4Crypt enciphered_def layer_after_def layer_ok_def)
  moreover have "layer_after y0 (done @ bs) (y\<lparr>m_pfiSendBuffer := (m_pfiSendBuffer y)\<lparr>m_key := rc4_discard (length bs) (m_key (m_pfiSendBuffer y))\<rparr>\<rparr>)"
    using assms True rc4_discard_add [of "length bs" "length done"] by (simp add: layer_after_def layer_ok_def IsEmpty_def)
  ultimately show ?thesis by auto
next
  case False
  then have "CryptPrepareSendData bs y = (Inr (enciphered y bs), y)" "layer_after y0 (done @ bs) y"
    using assms layer_ready [of y] by (auto simp: CryptPrepareSendData_def enciphered_def layer_after_def layer_ok_def)
  then show ?thesis by blast
qed

lemma enciphered_append:
  assumes "layer_after y0 done y"
  shows "enciphered y0 (done @ bs) = enciphered y0 done @ enciphered y bs"
  using assms by (simp add: enciphered_def layer_after_def RC4Crypt_append snd_RC4Crypt)

lemma write_ok:
  assumes "layer_after y0 done y"
  shows "\<exists>n y'. crypt_Write bs y = (Inr n, y') \<and> n \<le> length bs \<and> layer_after y0 done y' \<and> net y' = net y @ take n bs"
proof -
  have y: "layer_ok y" "IsEncryptionLayerReady y" "\<not> m_bServerCrypt y" "m_StreamCryptState y \<noteq> ECS_UNKNOWN"
    using assms layer_ready [of y] by (auto simp: layer_after_def layer_ok_def)
  have w: "crypt_Write bs y = proxy_write bs y" using y by (simp add: crypt_Write_def)
  show ?thesis
  proof (cases "accepts y")
    case Nil
    then have "crypt_Write bs y = (Inr (length bs), y\<lparr>net := net y @ bs\<rparr>)" using w by (simp add: proxy_write_def)
    moreover have "layer_after y0 done (y\<lparr>net := net y @ bs\<rparr>)" using assms by (auto simp: layer_after_def layer_ok_def)
    ultimately show ?thesis by (intro exI [of _ "length bs"] exI [of _ "y\<lparr>net := net y @ bs\<rparr>"]) simp
  next
    case (Cons a rest)
    then obtain n where n: "a = Some n" using y(1) by (cases a) (auto simp: layer_ok_def)
    let ?y = "y\<lparr>accepts := rest, net := net y @ take n bs\<rparr>"
    have "crypt_Write bs y = (Inr (min n (length bs)), ?y)" using w Cons n by (simp add: proxy_write_def)
    moreover have "layer_after y0 done ?y" using assms Cons by (auto simp: layer_after_def layer_ok_def)
    ultimately show ?thesis by (intro exI [of _ "min n (length bs)"] exI [of _ ?y]) (auto simp: min_def)
  qed
qed

section \<open>One packet\<close>

lemma send_ok_cong:
  assumes "send_ok y0 s" and "m_control_queue s' = m_control_queue s" and "m_standard_queue s' = m_standard_queue s"
    and "sendbuffer s' = sendbuffer s" and "sent s' = sent s" and "sendblen s' = sendblen s" and "layer s' = layer s" and "taken s' = taken s"
  shows "send_ok y0 s'"
  using assms by (cases "sendbuffer s") (simp_all add: send_ok_def current_rest_def taken_bytes_def)

lemma load_packet_ok:
  assumes "send_ok y0 s" and "sendbuffer s = None" and "sendable p"
  shows "\<exists>b y. load_packet junk c p s = Inr (s\<lparr>sendblen := unat (p_size p) + 6, sendbuffer := Some b, sent := 0, layer := y, taken := taken s @ [(c, p)]\<rparr>)
     \<and> send_ok y0 (s\<lparr>sendblen := unat (p_size p) + 6, sendbuffer := Some b, sent := 0, layer := y, taken := taken s @ [(c, p)]\<rparr>)
     \<and> net y = net (layer s)"
proof -
  let ?n = "unat (p_size p) + 6"
  obtain b where b: "DetachPacket junk p = Inr b" "?n \<le> length b" "take ?n b = packet_bytes p" using DetachPacket_ok [OF assms(3)] by blast
  have la: "layer_after y0 (taken_bytes s) (layer s)" using assms(1) by (simp add: send_ok_def)
  obtain y where y: "CryptPrepareSendData (packet_bytes p) (layer s) = (Inr (enciphered (layer s) (packet_bytes p)), y)"
    "layer_after y0 (taken_bytes s @ packet_bytes p) y" "net y = net (layer s)" using prepare_ok [OF la] by blast
  let ?b = "enciphered (layer s) (packet_bytes p) @ drop ?n b"
  let ?s = "s\<lparr>sendblen := ?n, sendbuffer := Some ?b, sent := 0, layer := y, taken := taken s @ [(c, p)]\<rparr>"
  have l: "length (enciphered (layer s) (packet_bytes p)) = ?n" using length_packet_bytes [OF assms(3)] by (simp add: enciphered_def)
  have "load_packet junk c p s = Inr ?s" using b y(1) by (simp add: load_packet_def real_size [OF assms(3)] Let_def)
  moreover have "taken_bytes ?s = taken_bytes s @ packet_bytes p" by (simp add: taken_bytes_def)
  moreover have "current_rest ?s = enciphered (layer s) (packet_bytes p)" using l by (simp add: current_rest_def)
  moreover have "net (layer s) = net y0 @ enciphered y0 (taken_bytes s)" using assms(1,2) by (simp add: send_ok_def current_rest_def)
  moreover have "send_ok y0 ?s"
    unfolding send_ok_def
  proof (intro conjI)
    show "\<forall>p \<in> set (m_control_queue ?s). sendable p" "\<forall>x \<in> set (m_standard_queue ?s). sendable (snd x)"
      using assms(1) by (simp_all add: send_ok_def)
    show "case sendbuffer ?s of None \<Rightarrow> sent ?s = 0 \<and> sendblen ?s = 0
      | Some b \<Rightarrow> sendblen ?s \<le> length b \<and> sent ?s \<le> sendblen ?s \<and> sendblen ?s < 2 ^ 32"
      using l assms(3) by (simp add: sendable_def)
    show "layer_after y0 (taken_bytes ?s) (layer ?s)" using y(2) calculation(2) by simp
    show "net (layer ?s) @ current_rest ?s = net y0 @ enciphered y0 (taken_bytes ?s)"
      unfolding calculation(2,3) enciphered_append [OF la] using calculation(4) y(3) by simp
  qed
  ultimately show ?thesis using y(3) by blast
qed

definition queued :: "CPacket list \<Rightarrow> CPacket list \<Rightarrow> em_send \<Rightarrow> bool" where
  "queued cs ss s \<longleftrightarrow> map snd (filter fst (taken s)) @ m_control_queue s = cs
     \<and> map snd (filter (\<lambda>x. \<not> fst x) (taken s)) @ map snd (m_standard_queue s) = ss"

lemma next_packet_ok:
  assumes "send_ok y0 s" and "queued cs ss s" and "call_guard c l s"
  shows "\<exists>s'. next_packet junk s = Inr s' \<and> send_ok y0 s' \<and> queued cs ss s' \<and> net (layer s') = net (layer s) \<and> sendbuffer s' \<noteq> None
     \<and> (sendbuffer s = None \<longrightarrow> work_left s' = work_left s \<and> sent s' = 0 \<and> (m_control_queue s \<noteq> [] \<longrightarrow> m_currentPacket_is_controlpacket s'))
     \<and> (sendbuffer s \<noteq> None \<longrightarrow> s' = s)"
proof (cases "sendbuffer s")
  case (Some b)
  then show ?thesis using assms by (simp add: next_packet_def)
next
  case None
  show ?thesis
  proof (cases "m_control_queue s")
    case (Cons p rest)
    let ?s = "s\<lparr>m_currentPacket_is_controlpacket := True, m_control_queue := rest\<rparr>"
    have s: "send_ok y0 ?s" "sendable p" using assms(1) Cons None by (simp_all add: send_ok_def current_rest_def taken_bytes_def)
    have n: "sendbuffer ?s = None" using None by simp
    obtain b y where "load_packet junk True p ?s = Inr (?s\<lparr>sendblen := unat (p_size p) + 6, sendbuffer := Some b, sent := 0, layer := y, taken := taken ?s @ [(True, p)]\<rparr>)"
      "send_ok y0 (?s\<lparr>sendblen := unat (p_size p) + 6, sendbuffer := Some b, sent := 0, layer := y, taken := taken ?s @ [(True, p)]\<rparr>)" "net y = net (layer ?s)"
      using load_packet_ok [OF s(1) n s(2)] by blast
    then show ?thesis using None Cons assms(2) by (auto simp: next_packet_def queued_def work_left_def)
  next
    case Nil
    then obtain n p rest where q: "m_standard_queue s = (n, p) # rest" using assms(3) None by (cases "m_standard_queue s") (auto simp: call_guard_def)
    let ?s = "s\<lparr>m_currentPacket_is_controlpacket := False, m_standard_queue := rest, m_actualPayloadSize := n, m_currentPackageIsFromPartFile := m_bFromPF p\<rparr>"
    have s: "send_ok y0 ?s" "sendable p" using assms(1) q None by (simp_all add: send_ok_def current_rest_def taken_bytes_def)
    have n: "sendbuffer ?s = None" using None by simp
    obtain b y where "load_packet junk False p ?s = Inr (?s\<lparr>sendblen := unat (p_size p) + 6, sendbuffer := Some b, sent := 0, layer := y, taken := taken ?s @ [(False, p)]\<rparr>)"
      "send_ok y0 (?s\<lparr>sendblen := unat (p_size p) + 6, sendbuffer := Some b, sent := 0, layer := y, taken := taken ?s @ [(False, p)]\<rparr>)" "net y = net (layer ?s)"
      using load_packet_ok [OF s(1) n s(2)] by blast
    then show ?thesis using None Nil q assms(2) by (auto simp: next_packet_def queued_def work_left_def)
  qed
qed

text \<open>The limits of a call, and what has been written in it.\<close>

definition call_ok :: "send_call \<Rightarrow> bool" where
  "call_ok c \<longleftrightarrow> maxNumber c < 2 ^ 32 \<and> 0 < minFrag c \<and> minFrag c dvd maxNumber c"

definition within :: "send_call \<Rightarrow> send_locals \<Rightarrow> bool" where
  "within c l \<longleftrightarrow> sentStandard l + sentControl l \<le> maxNumber c"

definition counted :: "nat \<Rightarrow> send_locals \<Rightarrow> em_send \<Rightarrow> bool" where
  "counted base l s \<longleftrightarrow> length (net (layer s)) = base + sentStandard l + sentControl l"

lemma total_within: "call_ok c \<Longrightarrow> within c l \<Longrightarrow> total l = sentStandard l + sentControl l"
  by (simp add: total_def u32_def within_def call_ok_def)

lemma dvd_next:
  fixes f m t :: nat
  assumes "f dvd m" and "t < m" and "0 < f"
  shows "f * (t div f + 1) \<le> m"
proof -
  obtain q where q: "m = f * q" using assms(1) by (rule dvdE)
  have "t div f < q" using assms(2,3) q by (simp add: less_mult_imp_div_less mult.commute)
  then have "t div f + 1 \<le> q" by simp
  then show ?thesis using q mult_le_mono2 [of "t div f + 1" q f] by simp
qed

lemma at_most_le: "at_most limit n x \<le> x" "n \<le> limit \<Longrightarrow> n + at_most limit n x \<le> limit" "n < limit \<Longrightarrow> 0 < x \<Longrightarrow> 0 < at_most limit n x"
  by (auto simp: at_most_def)

lemma tosend_ok:
  assumes "call_ok c" and "within c l" and "packet_guard c l s"
  shows "0 < tosend c l s" and "tosend c l s \<le> sendblen s - sent s" and "total l + tosend c l s \<le> maxNumber c"
proof -
  have t: "total l < maxNumber c" and n: "0 < sendblen s - sent s" using assms(3) by (auto simp: packet_guard_def)
  have c: "minFrag c dvd maxNumber c" "0 < minFrag c" "maxNumber c < 2 ^ 32" using assms(1) by (simp_all add: call_ok_def)
  have frag: "minFrag c \<le> maxNumber c" using c t dvd_imp_le by (metis gr_implies_not0 not_gr_zero)
  consider (all) "\<not> onlyControl c \<or> m_currentPacket_is_controlpacket s"
    | (old) "\<not> (\<not> onlyControl c \<or> m_currentPacket_is_controlpacket s)" "longTime c \<and> total l < minFrag c"
    | (part) "\<not> (\<not> onlyControl c \<or> m_currentPacket_is_controlpacket s)" "\<not> (longTime c \<and> total l < minFrag c)" by blast
  then have "0 < tosend c l s \<and> tosend c l s \<le> sendblen s - sent s \<and> total l + tosend c l s \<le> maxNumber c"
  proof cases
    case all
    then show ?thesis using t n at_most_le [where limit = "maxNumber c" and n = "total l" and x = "sendblen s - sent s"] by (auto simp: tosend_def Let_def)
  next
    case old
    then show ?thesis using n frag at_most_le [where limit = "minFrag c" and n = "total l" and x = "sendblen s - sent s"] by (auto simp: tosend_def Let_def)
  next
    case part
    then have m: "total l mod minFrag c \<noteq> 0" using assms(3) by (auto simp: packet_guard_def)
    let ?g = "minFrag c * (total l div minFrag c + 1)"
    have le: "?g \<le> maxNumber c" by (rule dvd_next [OF c(1) t c(2)])
    then have g: "GetNextFragSize (total l) (minFrag c) = ?g" using m c(3) by (simp add: GetNextFragSize_def u32_def)
    have "total l < ?g" using c(2) by (metis dividend_less_times_div mult.commute add.commute distrib_left mult.right_neutral)
    then have "0 < at_most ?g (total l) (sendblen s - sent s)" "total l + at_most ?g (total l) (sendblen s - sent s) \<le> ?g"
      using at_most_le [where limit = ?g and n = "total l" and x = "sendblen s - sent s"] n by simp_all
    moreover have "tosend c l s = at_most ?g (total l) (sendblen s - sent s)" unfolding tosend_def Let_def g using part by (simp only: if_False)
    ultimately show ?thesis using le at_most_le(1) [of ?g "total l" "sendblen s - sent s"] by linarith
  qed
  then show "0 < tosend c l s" "tosend c l s \<le> sendblen s - sent s" "total l + tosend c l s \<le> maxNumber c" by simp_all
qed

lemma count_sent_frame:
  assumes "count_sent r l s = (l', s')" and "sent s + r < 2 ^ 32" and "sentStandard l + sentControl l + r < 2 ^ 32"
  shows "sent s' = sent s + r" "sentStandard l' + sentControl l' = sentStandard l + sentControl l + r"
    "m_control_queue s' = m_control_queue s" "m_standard_queue s' = m_standard_queue s" "sendbuffer s' = sendbuffer s" "sendblen s' = sendblen s"
    "layer s' = layer s" "taken s' = taken s" "anError l' = anError l" "streamIsGone l' = streamIsGone l"
    "m_currentPacket_is_controlpacket s' = m_currentPacket_is_controlpacket s"
  using assms by (auto simp: count_sent_def u32_def Let_def split: if_splits)

lemma write_some_ok:
  assumes "send_ok y0 s" and "call_ok c" and "within c l" and "packet_guard c l s" and "counted base l s"
  shows "\<exists>l' s'. write_some c now l s = Inr (l', s') \<and> send_ok y0 s' \<and> within c l' \<and> counted base l' s'
     \<and> m_control_queue s' = m_control_queue s \<and> m_standard_queue s' = m_standard_queue s \<and> taken s' = taken s \<and> sendbuffer s' = sendbuffer s"
proof -
  let ?n = "tosend c l s"
  note ts = tosend_ok [OF assms(2-4)]
  obtain b where b: "sendbuffer s = Some b" using assms(1,4) by (cases "sendbuffer s") (auto simp: send_ok_def packet_guard_def)
  have bl: "sendblen s \<le> length b" "sent s \<le> sendblen s" "sendblen s < 2 ^ 32" using assms(1) b by (simp_all add: send_ok_def)
  let ?bs = "take ?n (drop (sent s) b)"
  let ?xs = "drop (sent s) (take (sendblen s) b)"
  have la: "layer_after y0 (taken_bytes s) (layer s)" using assms(1) by (simp add: send_ok_def)
  have len: "length ?bs = ?n" using ts(2) bl by simp
  obtain r y where y: "crypt_Write ?bs (layer s) = (Inr r, y)" "r \<le> ?n" "layer_after y0 (taken_bytes s) y" "net y = net (layer s) @ take r ?bs"
    using write_ok [OF la, of ?bs] len by auto
  obtain l' s' where cs: "count_sent r l (s\<lparr>lastSent := now, layer := y\<rparr>) = (l', s')" by fastforce
  have tot: "total l = sentStandard l + sentControl l" by (rule total_within [OF assms(2,3)])
  have m: "maxNumber c < 2 ^ 32" using assms(2) by (simp add: call_ok_def)
  have bound: "sent (s\<lparr>lastSent := now, layer := y\<rparr>) + r < 2 ^ 32" using y(2) ts(2) bl by simp
  have "sentStandard l + sentControl l + r < 2 ^ 32" using y(2) ts(3) tot m by simp
  note fr = count_sent_frame [OF cs bound this, simplified]
  have w: "write_some c now l s = Inr (l', s')" using b bl ts(2) y(1) cs by (simp add: write_some_def Let_def)
  have x: "take r ?bs = take r ?xs"
  proof -
    have "take r ?bs = take r (drop (sent s) b)" using y(2) by (simp add: min_def)
    moreover have "?xs = take (sendblen s - sent s) (drop (sent s) b)" by (simp add: drop_take)
    ultimately show ?thesis using y(2) ts(2) by (simp add: min_def)
  qed
  have cr: "current_rest s' = drop r ?xs" using b fr by (simp add: current_rest_def add.commute)
  have "net (layer s') @ current_rest s' = net (layer s) @ current_rest s"
    using fr y(4) cr x b by (simp add: current_rest_def del: drop_drop)
  then have "send_ok y0 s'" using assms(1) fr b bl y(2,3) ts(2) by (simp add: send_ok_def taken_bytes_def)
  moreover have "within c l'" using fr(2) y(2) ts(3) tot by (simp add: within_def)
  moreover have "counted base l' s'" using assms(5) fr(2,7) y(2,4) len by (simp add: counted_def)
  ultimately show ?thesis using w fr by blast
qed

section \<open>One call\<close>

definition going :: "crypt_socket \<Rightarrow> CPacket list \<Rightarrow> CPacket list \<Rightarrow> send_call \<Rightarrow> nat \<Rightarrow> send_locals \<Rightarrow> em_send \<Rightarrow> bool" where
  "going y0 cs ss c base l s \<longleftrightarrow> send_ok y0 s \<and> queued cs ss s \<and> within c l \<and> counted base l s"

lemma going_busy [simp]:
  "going y0 cs ss c base l (s\<lparr>m_bBusy := b\<rparr>) = going y0 cs ss c base l s"
  "going y0 cs ss c base (l\<lparr>anError := e\<rparr>) s = going y0 cs ss c base l s"
  "going y0 cs ss c base (l\<lparr>streamIsGone := e\<rparr>) s = going y0 cs ss c base l s"
  by (cases "sendbuffer s"; simp add: going_def send_ok_def queued_def within_def counted_def current_rest_def taken_bytes_def)+

lemma write_some_going:
  assumes "going y0 cs ss c base l s" and "call_ok c" and "packet_guard c l s"
  shows "\<exists>l' s'. write_some c now l s = Inr (l', s') \<and> going y0 cs ss c base l' s'"
proof -
  have a: "send_ok y0 s" "queued cs ss s" "within c l" "counted base l s" using assms(1) by (simp_all add: going_def)
  obtain l' s' where s': "write_some c now l s = Inr (l', s')" "send_ok y0 s'" "within c l'" "counted base l' s'"
    "m_control_queue s' = m_control_queue s" "m_standard_queue s' = m_standard_queue s" "taken s' = taken s"
    using write_some_ok [OF a(1) assms(2) a(3) assms(3) a(4)] by blast
  have "queued cs ss s'" using a(2) s'(5-7) by (simp add: queued_def)
  then show ?thesis using s' by (auto simp: going_def)
qed

lemma send_packet_ok:
  "going y0 cs ss c base l s \<Longrightarrow> call_ok c \<Longrightarrow>
     \<exists>r l' s' rest. send_packet c l s ws = Inr (r, l', s', rest) \<and> going y0 cs ss c base l' s' \<and>
       (packet_guard c l s \<and> \<not> r \<longrightarrow> length rest < length ws) \<and> (\<not> packet_guard c l s \<longrightarrow> \<not> r \<and> l' = l \<and> s' = s \<and> rest = ws)"
proof (induction c l s ws rule: send_packet.induct)
  case (1 c l s)
  show ?case
  proof (cases "packet_guard c l s")
    case True
    then obtain l' s' where "write_some c (tick_before blocked) l s = Inr (l', s')" "going y0 cs ss c base l' s'"
      using write_some_going [OF 1] by blast
    then show ?thesis using True by auto
  qed (use 1 in auto)
next
  case (2 c l s w ws)
  show ?case
  proof (cases "packet_guard c l s")
    case True
    then obtain l' s' where w: "write_some c (tick_before w) l s = Inr (l', s')" "going y0 cs ss c base l' s'"
      using write_some_going [OF 2(3,4)] by blast
    consider "blocks_write w" | "\<not> blocks_write w" "last_error w" | "\<not> blocks_write w" "\<not> last_error w" "\<not> is_ok w"
      | "\<not> blocks_write w" "\<not> last_error w" "is_ok w" by blast
    then show ?thesis
    proof cases
      case 1
      then show ?thesis using True w by auto
    next
      case c2: 2
      have "\<exists>r l2 s2 rest. send_packet c (l'\<lparr>anError := True\<rparr>) s' ws = Inr (r, l2, s2, rest) \<and> going y0 cs ss c base l2 s2"
        using 2(1) [of l' s'] True w(2) c2 2(4) by fastforce
      then obtain r l2 s2 rest where r: "send_packet c (l'\<lparr>anError := True\<rparr>) s' ws = Inr (r, l2, s2, rest)" "going y0 cs ss c base l2 s2" by blast
      have "length rest \<le> length ws" using send_packet_length [OF r(1)] .
      then show ?thesis using True w(1) c2 r(1,2) by (intro exI [of _ r] exI [of _ l2] exI [of _ s2] exI [of _ rest]) simp
    next
      case 3
      then show ?thesis using True w by auto
    next
      case c4: 4
      have "\<exists>r l2 s2 rest. send_packet c l' (s'\<lparr>m_bBusy := False\<rparr>) ws = Inr (r, l2, s2, rest) \<and> going y0 cs ss c base l2 s2"
        using 2(2) [of l' s'] True w(2) c4 2(4) by fastforce
      then obtain r l2 s2 rest where r: "send_packet c l' (s'\<lparr>m_bBusy := False\<rparr>) ws = Inr (r, l2, s2, rest)" "going y0 cs ss c base l2 s2" by blast
      have "length rest \<le> length ws" using send_packet_length [OF r(1)] .
      then show ?thesis using True w(1) c4 r(1,2) by (intro exI [of _ r] exI [of _ l2] exI [of _ s2] exI [of _ rest]) simp
    qed
  qed (use 2 in auto)
qed

lemma finish_packet_ok:
  assumes "send_ok y0 s" and "sendbuffer s \<noteq> None"
  shows "send_ok y0 (finish_packet now s)" and "queued cs ss (finish_packet now s) = queued cs ss s"
    and "layer (finish_packet now s) = layer s" and "sent s = sendblen s \<Longrightarrow> work_left (finish_packet now s) < work_left s"
  using assms by (auto simp: finish_packet_def Let_def send_ok_def queued_def work_left_def current_rest_def taken_bytes_def)

lemma call_to_packet:
  assumes "call_guard c l s" and "sendbuffer s1 \<noteq> None" and "sent s1 < sendblen s1"
    and "sendbuffer s = None \<Longrightarrow> m_control_queue s \<noteq> [] \<Longrightarrow> m_currentPacket_is_controlpacket s1" and "sendbuffer s \<noteq> None \<Longrightarrow> s1 = s"
  shows "packet_guard c l s1"
  using assms by (auto simp: call_guard_def packet_guard_def)

lemma send_packet_sendbuffer:
  "send_packet c l s ws = Inr (r, l', s', rest) \<Longrightarrow> sendbuffer s' = sendbuffer s"
proof (induction c l s ws arbitrary: r l' s' rest rule: send_packet.induct)
  case (1 c l s)
  then show ?case by (auto simp: sum_bind_Inr write_some_def Let_def count_sent_def split: if_splits option.splits prod.splits sum.splits)
next
  case (2 c l s w ws)
  have w: "sendbuffer s2 = sendbuffer s" if "write_some c now l s = Inr (l2, s2)" for now l2 s2
    using that by (auto simp: write_some_def Let_def count_sent_def split: if_splits option.splits prod.splits sum.splits)
  show ?case using 2 w by (fastforce simp: sum_bind_Inr split: if_splits)
qed

lemma send_loop_unfold:
  assumes "call_guard c l s" and "next_packet junk s = Inr s1" and "send_packet c l s1 ws = Inr (r, l2, s2, rest)"
  shows "send_loop junk c l s ws =
     (if r then Inr (True, l2, s2)
      else if length rest < length ws \<or> (length rest = length ws \<and> work_left (finish_packet (finish_tick ws rest) s2) < work_left s)
      then send_loop junk c l2 (finish_packet (finish_tick ws rest) s2) rest else Inl Spins)"
  using assms by (simp add: send_loop.simps [of junk c l s ws] Let_def)

lemma send_loop_ok:
  "going y0 cs ss c base l s \<Longrightarrow> call_ok c \<Longrightarrow>
     \<exists>r l' s'. send_loop junk c l s ws = Inr (r, l', s') \<and> going y0 cs ss c base l' s'"
proof (induction junk c l s ws rule: send_loop.induct)
  case (1 junk c l s ws)
  show ?case
  proof (cases "call_guard c l s")
    case False
    then show ?thesis using 1(2) by (auto simp add: send_loop.simps [of junk c l s ws])
  next
    case True
    have a: "send_ok y0 s" "queued cs ss s" "within c l" "counted base l s" using 1(2) by (simp_all add: going_def)
    obtain s1 where s1: "next_packet junk s = Inr s1" "send_ok y0 s1" "queued cs ss s1" "net (layer s1) = net (layer s)" "sendbuffer s1 \<noteq> None"
      "sendbuffer s = None \<longrightarrow> work_left s1 = work_left s \<and> sent s1 = 0 \<and> (m_control_queue s \<noteq> [] \<longrightarrow> m_currentPacket_is_controlpacket s1)"
      "sendbuffer s \<noteq> None \<longrightarrow> s1 = s" using next_packet_ok [OF a(1,2) True] by blast
    have g1: "going y0 cs ss c base l s1" using s1 a by (simp add: going_def counted_def)
    obtain r l2 s2 rest where p: "send_packet c l s1 ws = Inr (r, l2, s2, rest)" "going y0 cs ss c base l2 s2"
      "packet_guard c l s1 \<and> \<not> r \<longrightarrow> length rest < length ws" "\<not> packet_guard c l s1 \<longrightarrow> \<not> r \<and> l2 = l \<and> s2 = s1 \<and> rest = ws"
      using send_packet_ok [OF g1 1(3), of ws] by blast
    show ?thesis
    proof (cases r)
      case r: True
      then show ?thesis using send_loop_unfold [OF True s1(1) p(1)] p(2) by auto
    next
      case r: False
      let ?s3 = "finish_packet (finish_tick ws rest) s2"
      have b2: "send_ok y0 s2" "sendbuffer s2 \<noteq> None" using p(2) send_packet_sendbuffer [OF p(1)] s1(5) by (simp_all add: going_def)
      have g3: "going y0 cs ss c base l2 ?s3" using p(2) finish_packet_ok [OF b2] by (simp add: going_def counted_def)
      have prog: "length rest < length ws \<or> (length rest = length ws \<and> work_left ?s3 < work_left s)"
      proof (cases "packet_guard c l s1")
        case g: True
        then show ?thesis using p(3) r by simp
      next
        case g: False
        then have e: "s2 = s1" "rest = ws" using p(4) by simp_all
        have "\<not> sent s1 < sendblen s1" using call_to_packet [OF True s1(5)] s1(6,7) g by blast
        moreover have "sent s1 \<le> sendblen s1" using s1(2,5) by (auto simp: send_ok_def)
        ultimately have "work_left ?s3 < work_left s1" using finish_packet_ok(4) [OF b2] e by simp
        moreover have "work_left s1 = work_left s" using s1(6,7) by (cases "sendbuffer s") auto
        ultimately show ?thesis using e by simp
      qed
      have "\<exists>r l' s'. send_loop junk c l2 ?s3 rest = Inr (r, l', s') \<and> going y0 cs ss c base l' s'"
        using 1(1) [OF _ s1(1) p(1) refl refl refl _ refl] True r prog g3 1(3) by simp
      then show ?thesis using send_loop_unfold [OF True s1(1) p(1)] r prog by simp
    qed
  qed
qed

lemma GetNextFragSize_ok:
  assumes "0 < f" and "m + f \<le> 2 ^ 32"
  shows "f dvd GetNextFragSize m f" and "GetNextFragSize m f < 2 ^ 32" and "m \<le> GetNextFragSize m f" and "GetNextFragSize m f < m + f"
proof -
  have "GetNextFragSize m f = (if m mod f = 0 then m else f * (m div f + 1)) \<and> f * (m div f + 1) \<le> m + f
     \<and> (m mod f \<noteq> 0 \<longrightarrow> f * (m div f + 1) < m + f) \<and> m < f * (m div f + 1)"
  proof -
    have d: "f * (m div f) + m mod f = m" by simp
    have x: "f * (m div f + 1) = f * (m div f) + f" by simp
    have r: "m mod f < f" using assms(1) by simp
    have "f * (m div f + 1) \<le> m + f" "m < f * (m div f + 1)" using d x r by linarith+
    moreover have "m mod f \<noteq> 0 \<longrightarrow> f * (m div f + 1) < m + f" using d x by linarith
    ultimately show ?thesis using assms(2) by (cases "m mod f = 0") (auto simp: GetNextFragSize_def u32_def intro!: mod_less)
  qed
  then show "f dvd GetNextFragSize m f" "GetNextFragSize m f < 2 ^ 32" "m \<le> GetNextFragSize m f" "GetNextFragSize m f < m + f"
    using assms by (auto simp: mod_eq_0_iff_dvd split: if_splits)
qed

lemma Send_steps:
  assumes "send_ok y0 s" and "queued cs ss s" and "maxN + max 1 frag \<le> 2 ^ 32"
  shows "\<exists>ok a b s'. Send junk now maxN frag only ws s = Inr ((ok, a, b), s') \<and> send_ok y0 s' \<and> queued cs ss s'
     \<and> length (net (layer s')) = length (net (layer s)) + a + b \<and> a + b < maxN + max 1 frag \<and> (maxN = 0 \<longrightarrow> a + b = 0)"
proof -
  let ?f = "if frag < 1 then 1 else frag"
  let ?l0 = "\<lparr>sentStandard = 0, sentControl = 0, anError = False, streamIsGone = False\<rparr>"
  let ?c = "\<lparr>maxNumber = GetNextFragSize maxN ?f, minFrag = ?f, onlyControl = only, longTime = (1000 < sub64 now (lastSent s))\<rparr>"
  let ?base = "length (net (layer s))"
  have f: "0 < ?f" "?f = max 1 frag" by auto
  note g = GetNextFragSize_ok [OF f(1), of maxN, unfolded f(2), OF assms(3)]
  have z: "GetNextFragSize 0 n = 0" for n by (simp add: GetNextFragSize_def)
  consider "con s = DISCONNECTED" | "con s \<noteq> DISCONNECTED" "m_bBusy s \<and> only"
    | "con s \<noteq> DISCONNECTED" "\<not> (m_bBusy s \<and> only)" by blast
  then show ?thesis
  proof cases
    case 1
    then show ?thesis using assms by (intro exI [of _ False] exI [of _ 0] exI [of _ s]) (simp add: Send_def less_max_iff_disj)
  next
    case 2
    then show ?thesis using assms by (intro exI [of _ True] exI [of _ 0] exI [of _ s]) (simp add: Send_def less_max_iff_disj)
  next
    case 3
    have c: "call_ok ?c" using g f by (simp add: call_ok_def)
    define r where "r = (if con s = CONNECTED \<and> IsEncryptionLayerReady (layer s) \<and> (\<not> m_bBusy s \<or> only)
                  then send_loop junk ?c ?l0 (s\<lparr>lastCalledSend := now\<rparr>) ws else Inr (False, ?l0, s))"
    have g0: "going y0 cs ss ?c ?base ?l0 s" using assms(1,2) by (simp add: going_def within_def counted_def)
    have g1: "going y0 cs ss ?c ?base ?l0 (s\<lparr>lastCalledSend := now\<rparr>)"
      using g0 send_ok_cong [OF assms(1), of "s\<lparr>lastCalledSend := now\<rparr>"] by (simp add: going_def queued_def counted_def)
    have "\<exists>returned l s1. r = Inr (returned, l, s1) \<and> going y0 cs ss ?c ?base l s1"
    proof (cases "con s = CONNECTED \<and> IsEncryptionLayerReady (layer s) \<and> (\<not> m_bBusy s \<or> only)")
      case True
      then have "r = send_loop junk ?c ?l0 (s\<lparr>lastCalledSend := now\<rparr>) ws" unfolding r_def by (rule if_P)
      then show ?thesis using send_loop_ok [OF g1 c, of junk ws] by simp
    next
      case False
      then have "r = Inr (False, ?l0, s)" unfolding r_def by (rule if_not_P)
      then show ?thesis using g0 by blast
    qed
    then obtain returned l s1 where r: "r = Inr (returned, l, s1)" "going y0 cs ss ?c ?base l s1" by blast
    let ?s2 = "if \<not> returned \<and> only \<and> (m_control_queue s1 \<noteq> [] \<or> (sendbuffer s1 \<noteq> None \<and> m_currentPacket_is_controlpacket s1))
       then QueueForSendingControlPacket s1 else s1"
    have S: "Send junk now maxN frag only ws s = Inr ((returned \<or> \<not> anError l, sentStandard l, sentControl l), ?s2)"
    proof -
      have "Send junk now maxN frag only ws s = sum_bind r (\<lambda>(returned, l, s).
              if returned then Inr ((True, sentStandard l, sentControl l), s)
              else Inr ((\<not> anError l, sentStandard l, sentControl l),
                if only \<and> (m_control_queue s \<noteq> [] \<or> (sendbuffer s \<noteq> None \<and> m_currentPacket_is_controlpacket s))
                then QueueForSendingControlPacket s else s))"
        using 3 unfolding Send_def Let_def r_def by auto
      then show ?thesis unfolding r(1) by simp
    qed
    have a: "send_ok y0 s1" "queued cs ss s1" "within ?c l" "counted ?base l s1" using r(2) by (simp_all add: going_def)
    have s2: "send_ok y0 ?s2" "queued cs ss ?s2" "layer ?s2 = layer s1"
      using send_ok_cong [OF a(1), of "QueueForSendingControlPacket s1"] a(1,2) by (simp_all add: QueueForSendingControlPacket_def queued_def)
    have "sentStandard l + sentControl l < maxN + max 1 frag" using a(3) g(4) f(2) by (simp add: within_def)
    moreover have "maxN = 0 \<longrightarrow> sentStandard l + sentControl l = 0" using a(3) z by (auto simp: within_def)
    moreover have "length (net (layer ?s2)) = ?base + sentStandard l + sentControl l" using a(4) s2(3) by (simp add: counted_def)
    ultimately show ?thesis using S s2(1,2)
      by (intro exI [of _ "returned \<or> \<not> anError l"] exI [of _ "sentStandard l"] exI [of _ "sentControl l"] exI [of _ ?s2] conjI)
  qed
qed

section \<open>A connection\<close>

datatype send_action =
    Post nat bool nat CPacket
  | Writes nat nat nat bool "write_outcome list" "nat list"
  | Writable
  | Needed nat

definition limits_ok :: "send_action \<Rightarrow> bool" where
  "limits_ok a = (case a of Post _ _ _ p \<Rightarrow> sendable p | Writes _ m f _ _ _ \<Rightarrow> m + max 1 f \<le> 2 ^ 32 | _ \<Rightarrow> True)"

definition send_act :: "(nat \<Rightarrow> uint8) \<Rightarrow> crypt_env \<Rightarrow> send_action \<Rightarrow> em_send \<Rightarrow> send_fault + em_send" where
  "send_act junk env a s =
     (case a of
        Post now control payload p \<Rightarrow> Inr (SendPacket now p control payload s)
      | Writes now m f only ws ns \<Rightarrow>
          sum_bind (Send junk now m f only ws (s\<lparr>layer := (layer s)\<lparr>accepts := map Some ns\<rparr>\<rparr>)) (\<lambda>x. Inr (snd x))
      | Writable \<Rightarrow> (case em_OnSend env 0 s of (Inl e, _) \<Rightarrow> Inl (Throws e) | (Inr _, s) \<Rightarrow> Inr s)
      | Needed now \<Rightarrow> Inr (snd (GetNeededBytes now s)))"

primrec send_run :: "(nat \<Rightarrow> uint8) \<Rightarrow> crypt_env \<Rightarrow> send_action list \<Rightarrow> em_send \<Rightarrow> send_fault + em_send" where
  "send_run junk env [] s = Inr s"
| "send_run junk env (a # as) s = sum_bind (send_act junk env a s) (send_run junk env as)"

definition posted :: "bool \<Rightarrow> send_action list \<Rightarrow> CPacket list" where
  "posted control as = concat (map (\<lambda>a. case a of Post _ c _ p \<Rightarrow> if c = control then [p] else [] | _ \<Rightarrow> []) as)"

definition conn_ok :: "crypt_socket \<Rightarrow> CPacket list \<Rightarrow> CPacket list \<Rightarrow> em_send \<Rightarrow> bool" where
  "conn_ok y0 cs ss s \<longleftrightarrow> con s \<noteq> DISCONNECTED \<and> send_ok y0 s \<and> queued cs ss s"

lemma con_frame:
  "load_packet junk c p s = Inr s' \<Longrightarrow> con s' = con s" "next_packet junk s = Inr s' \<Longrightarrow> con s' = con s"
  by (auto simp: load_packet_def next_packet_def Let_def split: sum.splits if_splits prod.splits list.splits)

lemma con_write: "write_some c now l s = Inr (l', s') \<Longrightarrow> con s' = con s"
  by (auto simp: write_some_def Let_def count_sent_def split: if_splits option.splits prod.splits sum.splits)

lemma con_send_packet: "send_packet c l s ws = Inr (r, l', s', rest) \<Longrightarrow> con s' = con s"
  by (induction c l s ws arbitrary: r l' s' rest rule: send_packet.induct)
    (fastforce simp: sum_bind_Inr split: if_splits dest: con_write)+

lemma con_finish [simp]: "con (finish_packet t s) = con s"
  by (simp add: finish_packet_def Let_def)

lemma con_send_loop: "send_loop junk c l s ws = Inr (r, l', s') \<Longrightarrow> con s' = con s"
proof (induction junk c l s ws arbitrary: r l' s' rule: send_loop.induct)
  case (1 junk c l s ws)
  show ?case
  proof (cases "call_guard c l s")
    case False
    then show ?thesis using 1(2) by (simp add: send_loop.simps [of junk c l s ws])
  next
    case True
    obtain s1 where s1: "next_packet junk s = Inr s1"
      using 1(2) True by (cases "next_packet junk s") (simp_all add: send_loop.simps [of junk c l s ws])
    obtain r2 l2 s2 rest where p: "send_packet c l s1 ws = Inr (r2, l2, s2, rest)"
      using 1(2) True s1 by (cases "send_packet c l s1 ws") (auto simp add: send_loop.simps [of junk c l s ws])
    have e: "con s2 = con s" using con_frame(2) [OF s1] con_send_packet [OF p] by simp
    show ?thesis
    proof (cases r2)
      case True
      then show ?thesis using 1(2) e send_loop_unfold [OF \<open>call_guard c l s\<close> s1 p] by simp
    next
      case False
      let ?s3 = "finish_packet (finish_tick ws rest) s2"
      have u: "(if length rest < length ws \<or> (length rest = length ws \<and> work_left ?s3 < work_left s)
          then send_loop junk c l2 ?s3 rest else Inl Spins) = Inr (r, l', s')"
        using 1(2) False by (simp only: send_loop_unfold [OF True s1 p] if_False)
      have g: "length rest < length ws \<or> (length rest = length ws \<and> work_left ?s3 < work_left s)"
      proof (rule ccontr)
        assume "\<not> ?thesis"
        from u [unfolded if_not_P [OF this]] show False by simp
      qed
      have n: "send_loop junk c l2 ?s3 rest = Inr (r, l', s')" using u unfolding if_P [OF g] .
      have "con s' = con ?s3" by (rule 1(1) [OF _ s1 p refl refl refl False refl g n]) (use True in simp)
      then show ?thesis using e by simp
    qed
  qed
qed

lemma con_Send:
  assumes "Send junk now m f only ws s = Inr (x, s')"
  shows "con s' = con s"
proof (cases "con s = DISCONNECTED \<or> (m_bBusy s \<and> only)")
  case True
  then show ?thesis using assms by (auto simp: Send_def split: if_splits)
next
  case False
  let ?q = "\<lambda>s. if only \<and> (m_control_queue s \<noteq> [] \<or> (sendbuffer s \<noteq> None \<and> m_currentPacket_is_controlpacket s)) then QueueForSendingControlPacket s else s"
  let ?f = "if f < 1 then 1 else f"
  let ?l0 = "\<lparr>sentStandard = 0, sentControl = 0, anError = False, streamIsGone = False\<rparr>"
  let ?c = "\<lparr>maxNumber = GetNextFragSize m ?f, minFrag = ?f, onlyControl = only, longTime = (1000 < sub64 now (lastSent s))\<rparr>"
  define r where "r = (if con s = CONNECTED \<and> IsEncryptionLayerReady (layer s) \<and> (\<not> m_bBusy s \<or> only)
                  then send_loop junk ?c ?l0 (s\<lparr>lastCalledSend := now\<rparr>) ws else Inr (False, ?l0, s))"
  have S: "Send junk now m f only ws s = sum_bind r (\<lambda>(returned, l, s).
              if returned then Inr ((True, sentStandard l, sentControl l), s) else Inr ((\<not> anError l, sentStandard l, sentControl l), ?q s))"
    using False unfolding Send_def Let_def r_def by auto
  have C: "con s1 = con s" if "r = Inr (returned, l, s1)" for returned l s1
    using that con_send_loop [of junk ?c ?l0 "s\<lparr>lastCalledSend := now\<rparr>" ws] unfolding r_def by (simp split: if_splits)
  from assms [unfolded S sum_bind_Inr] obtain returned l s1 where "r = Inr (returned, l, s1)"
    "(if returned then Inr ((True, sentStandard l, sentControl l), s1) else Inr ((\<not> anError l, sentStandard l, sentControl l), ?q s1)) = (Inr (x, s') :: send_fault + _)"
    by auto
  then show ?thesis using C by (auto simp: QueueForSendingControlPacket_def split: if_splits)
qed

lemma posted_Cons: "posted c (a # as) = posted c [a] @ posted c as"
  by (simp add: posted_def)

lemma SendPacket_ok:
  assumes "conn_ok y0 cs ss s" and "sendable p"
  shows "conn_ok y0 (cs @ (if control then [p] else [])) (ss @ (if control then [] else [p])) (SendPacket now p control payload s)"
proof -
  have s: "con s \<noteq> DISCONNECTED" "send_ok y0 s" "queued cs ss s" using assms(1) by (simp_all add: conn_ok_def)
  show ?thesis
    using s assms(2)
    by (cases control; cases "sendbuffer s")
      (auto simp: SendPacket_def Let_def conn_ok_def send_ok_def queued_def QueueForSendingControlPacket_def current_rest_def taken_bytes_def)
qed

lemma layer_accepts: "layer_after y0 done y \<Longrightarrow> layer_after y0 done (y\<lparr>accepts := map Some ns\<rparr>)"
  by (auto simp: layer_after_def layer_ok_def)

lemma accepts_ok: "conn_ok y0 cs ss s \<Longrightarrow> conn_ok y0 cs ss (s\<lparr>layer := (layer s)\<lparr>accepts := map Some ns\<rparr>\<rparr>)"
  by (cases "sendbuffer s") (simp_all add: conn_ok_def send_ok_def queued_def current_rest_def taken_bytes_def layer_accepts)

lemma crypt_OnSend_idle: "layer_ok y \<Longrightarrow> crypt_OnSend env y = (Inr (), y)"
  by (auto simp: layer_ok_def crypt_OnSend_def)

lemma conn_ok_cong:
  assumes "conn_ok y0 cs ss s" and "m_control_queue s' = m_control_queue s" and "m_standard_queue s' = m_standard_queue s"
    and "sendbuffer s' = sendbuffer s" and "sent s' = sent s" and "sendblen s' = sendblen s" and "layer s' = layer s" and "taken s' = taken s"
    and "con s' \<noteq> DISCONNECTED"
  shows "conn_ok y0 cs ss s'"
  using assms send_ok_cong [of y0 s s'] by (simp add: conn_ok_def queued_def)

lemma send_act_ok:
  assumes "conn_ok y0 cs ss s" and "limits_ok a"
  shows "\<exists>s'. send_act junk env a s = Inr s' \<and> conn_ok y0 (cs @ posted True [a]) (ss @ posted False [a]) s'"
proof (cases a)
  case (Post now control payload p)
  then show ?thesis using SendPacket_ok [OF assms(1), of p control now payload] assms(2)
    by (auto simp: send_act_def posted_def limits_ok_def split: if_splits)
next
  case (Writes now m f only ws ns)
  let ?s = "s\<lparr>layer := (layer s)\<lparr>accepts := map Some ns\<rparr>\<rparr>"
  have c: "con ?s \<noteq> DISCONNECTED" "send_ok y0 ?s" "queued cs ss ?s" using accepts_ok [OF assms(1), of ns] by (simp_all add: conn_ok_def)
  have m: "m + max 1 f \<le> 2 ^ 32" using assms(2) Writes by (simp add: limits_ok_def)
  obtain x s' where s': "Send junk now m f only ws ?s = Inr (x, s')" "send_ok y0 s'" "queued cs ss s'"
    using Send_steps [OF c(2,3) m, of junk now only ws] by blast
  have "con s' \<noteq> DISCONNECTED" using con_Send [OF s'(1)] c(1) by simp
  then show ?thesis using s' Writes by (simp add: send_act_def posted_def conn_ok_def)
next
  case Writable
  have l: "crypt_OnSend env (layer s) = (Inr (), layer s)"
    using assms(1) by (intro crypt_OnSend_idle) (simp add: conn_ok_def send_ok_def layer_after_def)
  have n: "CONNECTED \<noteq> DISCONNECTED" by (simp add: CONNECTED_def DISCONNECTED_def)
  have "conn_ok y0 cs ss (s\<lparr>m_bBusy := False, con := CONNECTED\<rparr>)" "conn_ok y0 cs ss (QueueForSendingControlPacket (s\<lparr>m_bBusy := False, con := CONNECTED\<rparr>))"
    by (rule conn_ok_cong [OF assms(1)], simp_all add: n QueueForSendingControlPacket_def)+
  moreover have "con s \<noteq> DISCONNECTED" using assms(1) by (simp add: conn_ok_def)
  ultimately show ?thesis using Writable l by (simp add: send_act_def posted_def em_OnSend_def Let_def)
next
  case (Needed now)
  have "snd (GetNeededBytes now s) = s \<or> snd (GetNeededBytes now s) = s\<lparr>m_bAccelerateUpload := True\<rparr>"
    unfolding GetNeededBytes_def Let_def by (simp only: if_distrib [of snd] snd_conv if_cancel split: if_split) blast
  moreover have "conn_ok y0 cs ss (s\<lparr>m_bAccelerateUpload := True\<rparr>)"
    by (rule conn_ok_cong [OF assms(1)]) (use assms(1) in \<open>simp_all add: conn_ok_def\<close>)
  ultimately show ?thesis using Needed assms(1) by (auto simp: send_act_def posted_def)
qed

lemma send_run_ok:
  "conn_ok y0 cs ss s \<Longrightarrow> \<forall>a \<in> set as. limits_ok a \<Longrightarrow>
     \<exists>s'. send_run junk env as s = Inr s' \<and> conn_ok y0 (cs @ posted True as) (ss @ posted False as) s'"
proof (induction as arbitrary: s cs ss)
  case Nil
  then show ?case by (simp add: posted_def)
next
  case (Cons a as)
  obtain s1 where s1: "send_act junk env a s = Inr s1" "conn_ok y0 (cs @ posted True [a]) (ss @ posted False [a]) s1"
    using send_act_ok [OF Cons.prems(1)] Cons.prems(2) by fastforce
  obtain s' where s': "send_run junk env as s1 = Inr s'" "conn_ok y0 ((cs @ posted True [a]) @ posted True as) ((ss @ posted False [a]) @ posted False as) s'"
    using Cons.IH [OF s1(2)] Cons.prems(2) by auto
  then show ?case using s1(1) by (simp add: posted_Cons [of True a as] posted_Cons [of False a as])
qed

lemma new_conn_ok: "layer_ok y0 \<Longrightarrow> conn_ok y0 [] [] (new_em_send y0 now)"
  by (simp add: conn_ok_def new_em_send_def NOTCONNECTED_def DISCONNECTED_def send_ok_def queued_def current_rest_def taken_bytes_def
      layer_after_def enciphered_def)

lemma send_session:
  assumes "layer_ok y0" and "\<forall>a \<in> set as. limits_ok a"
  shows "\<exists>s. send_run junk env as (new_em_send y0 now) = Inr s
     \<and> net (layer s) @ current_rest s = net y0 @ enciphered y0 (taken_bytes s)
     \<and> map snd (filter fst (taken s)) @ m_control_queue s = posted True as
     \<and> map snd (filter (\<lambda>x. \<not> fst x) (taken s)) @ map snd (m_standard_queue s) = posted False as"
  using send_run_ok [OF new_conn_ok [OF assms(1)] assms(2), of junk env now] by (auto simp: conn_ok_def send_ok_def queued_def)

text \<open>
  C8. Whatever is posted, and however the calls of \<open>Send\<close> are limited, interrupted by a blocked or failed write or
  served in part, what is on the wire together with the rest of the current packet is the encryption of whole
  packets, one after the other; each queue is sent in the order in which it was filled, and no packet is lost, sent
  twice or torn apart. No call spins or reads beyond a buffer.
\<close>

theorem em_send_stream:
  assumes "layer_ok y0" and "\<forall>a \<in> set as. limits_ok a"
  shows "\<exists>s. send_run junk env as (new_em_send y0 now) = Inr s
     \<and> net (layer s) @ current_rest s = net y0 @ enciphered y0 (taken_bytes s)
     \<and> map snd (filter fst (taken s)) @ m_control_queue s = posted True as
     \<and> map snd (filter (\<lambda>x. \<not> fst x) (taken s)) @ map snd (m_standard_queue s) = posted False as"
  by (rule send_session [OF assms])

definition idle_env :: crypt_env where
  "idle_env = \<lparr>MD5 = take 16, big_random = (\<lambda>_. 0), a_exp_b_mod_c = (\<lambda>a b c. a ^ b mod c), big_decode = (\<lambda>_. 0),
     big_encode = (\<lambda>_ n. replicate n 0), random8 = (\<lambda>n. of_nat n), random32 = 5, fresh_mem = (\<lambda>_. 0), CryptTCPPaddingLength = 3,
     CryptLayerSupported = False, CryptLayerRequired = False, CryptLayerRequiredStrict = False, AwaitingTestFromIP = False,
     KadFirewallCheckIP = False, UserHash = replicate 16 7\<rparr>"

definition idle_layer :: crypt_socket where
  "idle_layer = new_crypt_socket idle_env"

lemma idle_layer_ok: "layer_ok idle_layer" "m_StreamCryptState idle_layer = ECS_NONE" "net idle_layer = []"
  by (simp_all add: idle_layer_def new_crypt_socket_def idle_env_def layer_ok_def IsEmpty_def new_rc4_buffer_def new_memfile_def)

theorem em_send_stream_witness:
  "\<exists>s. send_run (\<lambda>_. 0) idle_env [Post 0 True 0 (packet_of_protocol OP_EDONKEYPROT), Writable, Writes 5 100 10 False [blocked] [3]] (new_em_send idle_layer 0) = Inr s
     \<and> net (layer s) @ current_rest s = net idle_layer @ enciphered idle_layer (taken_bytes s)
     \<and> map snd (filter fst (taken s)) @ m_control_queue s
         = posted True [Post 0 True 0 (packet_of_protocol OP_EDONKEYPROT), Writable, Writes 5 100 10 False [blocked] [3]]
     \<and> map snd (filter (\<lambda>x. \<not> fst x) (taken s)) @ map snd (m_standard_queue s)
         = posted False [Post 0 True 0 (packet_of_protocol OP_EDONKEYPROT), Writable, Writes 5 100 10 False [blocked] [3]]"
  by (rule em_send_stream [OF idle_layer_ok(1)]) (simp add: limits_ok_def sendable_def packet_of_protocol_def)

text \<open>
  C35. On a ready client connection, plain or obfuscated (\<open>layer_ok\<close>: neither the delayed handshake with a server nor
  handshake bytes left in the send buffer, where \<open>Write\<close> reports a full send without one), a call of \<open>Send\<close> reports exactly the bytes that went to the network, split into standard and control bytes, and never
  exceeds the limit it was given by as much as a fragment.
\<close>

theorem em_send_limit:
  assumes "send_ok y0 s" and "maxN + max 1 frag \<le> 2 ^ 32"
  shows "\<exists>ok a b s'. Send junk now maxN frag only ws s = Inr ((ok, a, b), s')
     \<and> length (net (layer s')) = length (net (layer s)) + a + b \<and> a + b < maxN + max 1 frag \<and> (maxN = 0 \<longrightarrow> a + b = 0)"
proof -
  have "queued (map snd (filter fst (taken s)) @ m_control_queue s) (map snd (filter (\<lambda>x. \<not> fst x) (taken s)) @ map snd (m_standard_queue s)) s"
    by (simp add: queued_def)
  from Send_steps [OF assms(1) this assms(2)] show ?thesis by blast
qed

theorem em_send_limit_witness:
  "\<exists>ok a b s'. Send (\<lambda>_. 0) 7 100 10 False [] (new_em_send idle_layer 0) = Inr ((ok, a, b), s')
     \<and> length (net (layer s')) = length (net (layer (new_em_send idle_layer 0))) + a + b \<and> a + b < 100 + max 1 10 \<and> (100 = (0 :: nat) \<longrightarrow> a + b = 0)"
  by (rule em_send_limit [where ?y0.0 = idle_layer]) (use new_conn_ok [OF idle_layer_ok(1), of 0] in \<open>simp_all add: conn_ok_def\<close>)

end
