(* ===== verification/Throttler.thy ===== *)
theory Throttler
  imports Amule_Prelude
begin

text \<open>
  The download budget: \<open>CDownloadBandwidthThrottler\<close> (\<open>src/src/DownloadBandwidthThrottler.cpp\<close>, \<open>.h\<close>). Sockets are
  numbers; \<open>std::set\<close> of their pointers is a sorted list. The atomic updates are single steps. A refill that
  overflows \<open>int64_t\<close> is the fault \<open>SignedOverflow\<close>.
\<close>

record throttler =
  m_bytesAvailable :: int
  m_unlimited :: bool
  m_paused :: "nat list"
  m_waking :: "nat list"

definition new_throttler :: throttler where
  "new_throttler = \<lparr>m_bytesAvailable = 0, m_unlimited = True, m_paused = [], m_waking = []\<rparr>"

definition INT64_MAX :: int where "INT64_MAX = 2 ^ 63 - 1"

definition int64 :: "int \<Rightarrow> bool" where
  "int64 i \<longleftrightarrow> - (2 ^ 63) \<le> i \<and> i \<le> INT64_MAX"

definition RefillBudget :: "uint32 \<Rightarrow> uint32 \<Rightarrow> throttler \<Rightarrow> fault + throttler" where
  "RefillBudget maxDownloadKBps tickPeriodMs t =
     (if maxDownloadKBps = 0 then Inr (t\<lparr>m_unlimited := True, m_bytesAvailable := INT64_MAX\<rparr>)
      else if \<not> int64 (uint maxDownloadKBps * 1024 * uint tickPeriodMs) then Inl SignedOverflow
      else
        let budget = uint maxDownloadKBps * 1024 * uint tickPeriodMs div 1000;
            current = (if m_bytesAvailable t < 0 then 0 else m_bytesAvailable t);
            newBudget = current + budget;
            cap = budget * 2
        in if \<not> int64 newBudget then Inl SignedOverflow
           else Inr (t\<lparr>m_unlimited := False, m_bytesAvailable := (if cap < newBudget then cap else newBudget)\<rparr>))"

definition Reserve :: "nat \<Rightarrow> throttler \<Rightarrow> nat \<times> throttler" where
  "Reserve wantBytes t =
     (if m_unlimited t then (wantBytes, t)
      else if 0 < m_bytesAvailable t then
        let granted = (if m_bytesAvailable t < int wantBytes then nat (m_bytesAvailable t) else wantBytes)
        in (granted, t\<lparr>m_bytesAvailable := m_bytesAvailable t - int granted\<rparr>)
      else (0, t))"

definition Refund :: "nat \<Rightarrow> throttler \<Rightarrow> throttler" where
  "Refund bytes t =
     (if bytes = 0 \<or> m_unlimited t then t else t\<lparr>m_bytesAvailable := m_bytesAvailable t + int bytes\<rparr>)"

definition PauseUntilRefill :: "nat \<Rightarrow> throttler \<Rightarrow> throttler" where
  "PauseUntilRefill socket t = t\<lparr>m_paused := insort_insert socket (m_paused t)\<rparr>"

definition Forget :: "nat \<Rightarrow> throttler \<Rightarrow> throttler" where
  "Forget socket t = t\<lparr>m_paused := remove1 socket (m_paused t), m_waking := remove1 socket (m_waking t)\<rparr>"

text \<open>
  \<open>WakePaused\<close>: the swap, and the loop that takes the sockets one at a time. \<open>wake\<close> is what waking a socket
  does to the throttler; it may pause, forget, reserve and refund.
\<close>

definition swap_paused :: "throttler \<Rightarrow> throttler" where
  "swap_paused t = t\<lparr>m_waking := m_paused t, m_paused := m_waking t\<rparr>"

partial_function (option) wake_loop :: "(nat \<Rightarrow> throttler \<Rightarrow> throttler) \<Rightarrow> throttler \<Rightarrow> nat list \<Rightarrow> (nat list \<times> throttler) option" where
  "wake_loop wake t woken =
     (case m_waking t of
        [] \<Rightarrow> Some (woken, t)
      | s # rest \<Rightarrow> wake_loop wake (wake s (t\<lparr>m_waking := rest\<rparr>)) (woken @ [s]))"

definition WakePaused :: "(nat \<Rightarrow> throttler \<Rightarrow> throttler) \<Rightarrow> throttler \<Rightarrow> (nat list \<times> throttler) option" where
  "WakePaused wake t = wake_loop wake (swap_paused t) []"

section \<open>The budget\<close>

lemma Reserve_grant:
  assumes "Reserve want t = (g, t')"
  shows "g \<le> want" and "m_unlimited t' = m_unlimited t" and "m_unlimited t \<Longrightarrow> t' = t \<and> g = want"
    and "\<not> m_unlimited t \<Longrightarrow> m_bytesAvailable t' = m_bytesAvailable t - int g"
    and "\<not> m_unlimited t \<Longrightarrow> 0 \<le> m_bytesAvailable t \<Longrightarrow> 0 \<le> m_bytesAvailable t'"
    and "m_paused t' = m_paused t" "m_waking t' = m_waking t"
    and "0 < want \<Longrightarrow> m_unlimited t \<or> 0 < m_bytesAvailable t \<Longrightarrow> 0 < g"
  using assms by (auto simp: Reserve_def Let_def split: if_splits)

lemma Refund_simps [simp]:
  "m_unlimited (Refund n t) = m_unlimited t" "m_paused (Refund n t) = m_paused t" "m_waking (Refund n t) = m_waking t"
  "m_bytesAvailable (Refund n t) = (if m_unlimited t then m_bytesAvailable t else m_bytesAvailable t + int n)"
  by (simp_all add: Refund_def)

text \<open>Switching from no limit to a limit overflows, whatever the limit.\<close>

lemma refill_overflows:
  assumes "maxDownloadKBps \<noteq> 0" and "uint maxDownloadKBps * uint tickPeriodMs * 1024 \<ge> 1000"
    and "RefillBudget 0 tickPeriodMs t = Inr t1"
  shows "RefillBudget maxDownloadKBps tickPeriodMs t1 = Inl SignedOverflow"
proof -
  let ?b = "uint maxDownloadKBps * 1024 * uint tickPeriodMs div 1000"
  have "1 * 1000 \<le> uint maxDownloadKBps * 1024 * uint tickPeriodMs" using assms(2) by (simp add: algebra_simps)
  then have "1 \<le> ?b" using zdiv_mono1 [of "1 * 1000" "uint maxDownloadKBps * 1024 * uint tickPeriodMs" 1000] by simp
  then have "\<not> int64 (INT64_MAX + ?b)" by (simp add: int64_def)
  moreover have "m_bytesAvailable t1 = INT64_MAX" using assms(3) by (auto simp: RefillBudget_def)
  ultimately show ?thesis using assms(1) by (simp add: RefillBudget_def Let_def INT64_MAX_def)
qed

end
