(* ===== verification/EM_Receive.thy ===== *)
theory EM_Receive
  imports Packet Throttler
begin

text \<open>
  Reading packets from a TCP stream: the receiving half of \<open>CEMSocket\<close> (\<open>src/src/EMSocket.cpp\<close>, \<open>.h\<close>). What
  the network has delivered is a list of segments: \<open>Read\<close> takes at most what it asks for from the first
  segment; an empty segment is a read that fails, no segment a read that blocks. What the socket calls
  virtually (\<open>PacketReceived\<close>, \<open>OnError\<close>) is recorded in \<open>events\<close>; a handler that closes the socket calls
  \<open>ClearQueues\<close>, which is a transition of its own. \<open>junk\<close> is what fresh memory holds.
\<close>

section \<open>State\<close>

datatype em_event = PacketReceived CPacket | OnError nat

record em_recv =
  byConnected :: uint8
  pendingHeader :: "uint8 list"
  pendingHeaderSize :: nat
  pendingPacket :: "uint8 list option"
  pendingPacketSize :: nat
  pendingOnReceive :: bool
  socket_id :: nat
  thr :: throttler
  segments :: "uint8 list list"
  events :: "em_event list"

definition PACKET_HEADER_SIZE :: nat where "PACKET_HEADER_SIZE = 6"
definition MAX_PACKET_SIZE :: nat where "MAX_PACKET_SIZE = 2000000"
definition ERR_WRONGHEADER :: nat where "ERR_WRONGHEADER = 1"
definition ERR_TOOBIG :: nat where "ERR_TOOBIG = 2"
definition ES_DISCONNECTED :: uint8 where "ES_DISCONNECTED = 0xFF"
definition ES_NOTCONNECTED :: uint8 where "ES_NOTCONNECTED = 0x00"
definition ES_CONNECTED :: uint8 where "ES_CONNECTED = 0x01"

definition new_em_recv :: "nat \<Rightarrow> (nat \<Rightarrow> uint8) \<Rightarrow> throttler \<Rightarrow> em_recv" where
  "new_em_recv this junk t =
     \<lparr>byConnected = ES_NOTCONNECTED, pendingHeader = new_array junk PACKET_HEADER_SIZE, pendingHeaderSize = 0,
      pendingPacket = None, pendingPacketSize = 0, pendingOnReceive = False, socket_id = this, thr = t,
      segments = [], events = []\<rparr>"

definition header_size :: "em_recv \<Rightarrow> nat" where
  "header_size s = unat (GetPacketSizeFromHeader (pendingHeader s))"

section \<open>Reading\<close>

datatype read_result = Blocks | Ends | Got "uint8 list"

fun read_socket :: "nat \<Rightarrow> uint8 list list \<Rightarrow> read_result \<times> uint8 list list" where
  "read_socket n [] = (Blocks, [])"
| "read_socket n ([] # rest) = (Ends, rest)"
| "read_socket n ((b # bs) # rest) =
     (Got (take n (b # bs)), if length (b # bs) \<le> n then rest else drop n (b # bs) # rest)"

text \<open>Where the next bytes go and how many are wanted; \<open>None\<close> after a header that is too big.\<close>

definition prepare_read :: "(nat \<Rightarrow> uint8) \<Rightarrow> em_recv \<Rightarrow> nat option \<times> em_recv" where
  "prepare_read junk s =
     (if pendingHeaderSize s < PACKET_HEADER_SIZE then
        (Some (PACKET_HEADER_SIZE - pendingHeaderSize s), s\<lparr>pendingPacket := None\<rparr>)
      else if pendingPacket s = None then
        (if MAX_PACKET_SIZE < header_size s then
           (None, s\<lparr>pendingPacketSize := 0, pendingHeaderSize := 0, events := events s @ [OnError ERR_TOOBIG]\<rparr>)
         else (Some (header_size s), s\<lparr>pendingPacketSize := 0, pendingPacket := Some (new_array junk (header_size s + 1))\<rparr>))
      else (Some (u32 (header_size s + 2 ^ 32 - pendingPacketSize s)), s))"

text \<open>The bytes land in \<open>buf\<close>.\<close>

definition store_read :: "uint8 list \<Rightarrow> em_recv \<Rightarrow> fault + em_recv" where
  "store_read bs s =
     (if pendingHeaderSize s < PACKET_HEADER_SIZE then
        sum_bind (poke (pendingHeaderSize s) bs (pendingHeader s)) (\<lambda>a. Inr (s\<lparr>pendingHeader := a\<rparr>))
      else
        (case pendingPacket s of
           None \<Rightarrow> Inl OutOfBounds
         | Some b \<Rightarrow> sum_bind (poke (pendingPacketSize s) bs b) (\<lambda>a. Inr (s\<lparr>pendingPacket := Some a\<rparr>))))"

definition valid_protocol :: "uint8 \<Rightarrow> bool" where
  "valid_protocol p \<longleftrightarrow>
     p = OP_EDONKEYPROT \<or> p = OP_PACKEDPROT \<or> p = OP_EMULEPROT \<or> p = OP_ED2KV2HEADER \<or> p = OP_ED2KV2PACKEDPROT"

definition packet_event :: "CPacket \<Rightarrow> em_event" where
  "packet_event p = (if valid_protocol (prot p) then PacketReceived p else OnError ERR_WRONGHEADER)"

text \<open>After \<open>ret\<close> bytes; the flag says whether the loop goes on.\<close>

definition after_read :: "nat \<Rightarrow> em_recv \<Rightarrow> bool \<times> em_recv" where
  "after_read ret s =
     (if PACKET_HEADER_SIZE \<le> pendingHeaderSize s then
        (let s = s\<lparr>pendingPacketSize := pendingPacketSize s + ret\<rparr> in
         if header_size s \<le> pendingPacketSize s then
           (let p = packet_received (pendingHeader s) (case pendingPacket s of Some b \<Rightarrow> b | None \<Rightarrow> []) in
            (False, s\<lparr>pendingPacket := None, pendingPacketSize := 0, pendingHeaderSize := 0,
                      events := events s @ [packet_event p]\<rparr>))
         else (ret \<noteq> 0, s))
      else (ret \<noteq> 0 \<and> PACKET_HEADER_SIZE \<le> pendingHeaderSize s + ret, s\<lparr>pendingHeaderSize := pendingHeaderSize s + ret\<rparr>))"

definition refund :: "bool \<Rightarrow> nat \<Rightarrow> em_recv \<Rightarrow> em_recv" where
  "refund throttled bytes s = (if throttled then s\<lparr>thr := Refund bytes (thr s)\<rparr> else s)"

text \<open>One round of the loop of \<open>OnReceive\<close>.\<close>

definition receive_step :: "(nat \<Rightarrow> uint8) \<Rightarrow> bool \<Rightarrow> em_recv \<Rightarrow> fault + bool \<times> em_recv" where
  "receive_step junk throttled s =
     (case prepare_read junk s of
        (None, s) \<Rightarrow> Inr (False, s)
      | (Some readMax, s) \<Rightarrow>
          if readMax = 0 then Inr (after_read 0 (s\<lparr>pendingOnReceive := True\<rparr>))
          else
            (let (granted, t) = (if throttled then Reserve readMax (thr s) else (readMax, thr s));
                 s = s\<lparr>thr := t\<rparr>
             in if throttled \<and> granted = 0 then
                  Inr (False, s\<lparr>pendingOnReceive := True, thr := PauseUntilRefill (socket_id s) (thr s)\<rparr>)
                else
                  (case read_socket granted (segments s) of
                     (Blocks, rest) \<Rightarrow> Inr (False, (refund throttled granted s)\<lparr>pendingOnReceive := True\<rparr>)
                   | (Ends, rest) \<Rightarrow> Inr (False, (refund throttled granted s)\<lparr>segments := rest\<rparr>)
                   | (Got bs, rest) \<Rightarrow>
                       sum_bind (store_read bs (s\<lparr>segments := rest\<rparr>)) (\<lambda>s.
                         Inr (after_read (length bs)
                           ((if length bs < granted then refund throttled (granted - length bs) s else s)
                             \<lparr>pendingOnReceive := (length bs = granted)\<rparr>)))))) "

text \<open>The loop; every round that goes on has taken bytes from the network.\<close>

definition unread :: "em_recv \<Rightarrow> nat" where
  "unread s = length (concat (segments s))"

lemma read_socket_Got:
  "read_socket n segs = (Got bs, rest) \<Longrightarrow> n \<noteq> 0 \<Longrightarrow> bs \<noteq> [] \<and> length bs \<le> n \<and> concat segs = bs @ concat rest"
  by (cases "(n, segs)" rule: read_socket.cases) (auto split: if_splits)

lemma read_socket_other:
  "read_socket n segs = (Blocks, rest) \<Longrightarrow> segs = []"
  "read_socket n segs = (Ends, rest) \<Longrightarrow> segs = [] # rest"
  by (cases "(n, segs)" rule: read_socket.cases; auto split: if_splits)+

lemma after_read_frame:
  "after_read n s = (go, s') \<Longrightarrow> segments s' = segments s \<and> thr s' = thr s \<and> pendingOnReceive s' = pendingOnReceive s
     \<and> byConnected s' = byConnected s \<and> socket_id s' = socket_id s \<and> (go \<longrightarrow> n \<noteq> 0)"
  by (auto simp: after_read_def Let_def split: if_splits)

lemma prepare_read_frame:
  "prepare_read junk s = (w, s') \<Longrightarrow> segments s' = segments s \<and> thr s' = thr s \<and> pendingOnReceive s' = pendingOnReceive s
     \<and> byConnected s' = byConnected s \<and> socket_id s' = socket_id s"
  by (auto simp: prepare_read_def split: if_splits)

lemma store_read_frame:
  "store_read bs s = Inr s' \<Longrightarrow> segments s' = segments s \<and> thr s' = thr s \<and> pendingOnReceive s' = pendingOnReceive s
     \<and> byConnected s' = byConnected s \<and> socket_id s' = socket_id s \<and> pendingHeaderSize s' = pendingHeaderSize s \<and> events s' = events s"
  by (auto simp: store_read_def sum_bind_Inr split: if_splits option.splits)

text \<open>The rounds that take bytes, and the ones that do not.\<close>

definition takes_bytes :: "(nat \<Rightarrow> uint8) \<Rightarrow> bool \<Rightarrow> em_recv \<Rightarrow> nat \<Rightarrow> nat \<Rightarrow> throttler \<Rightarrow> uint8 list \<Rightarrow> uint8 list list \<Rightarrow> em_recv \<Rightarrow> bool" where
  "takes_bytes junk throttled s want g t bs rest s1 \<longleftrightarrow>
     prepare_read junk s = (Some want, s1) \<and> want \<noteq> 0 \<and> (g, t) = (if throttled then Reserve want (thr s) else (want, thr s))
     \<and> g \<noteq> 0 \<and> read_socket g (segments s) = (Got bs, rest)"

lemma receive_step_cases [consumes 1, case_names too_big no_data paused blocks ends got]:
  assumes "receive_step junk throttled s = r"
  obtains
    s1 where "prepare_read junk s = (None, s1)" "r = Inr (False, s1)"
  | s1 where "prepare_read junk s = (Some 0, s1)" "r = Inr (after_read 0 (s1\<lparr>pendingOnReceive := True\<rparr>))"
  | want t s1 where "prepare_read junk s = (Some want, s1)" "want \<noteq> 0" "throttled" "Reserve want (thr s) = (0, t)"
      "r = Inr (False, s1\<lparr>pendingOnReceive := True, thr := PauseUntilRefill (socket_id s1) t\<rparr>)"
  | want g t s1 where "prepare_read junk s = (Some want, s1)" "want \<noteq> 0"
      "(g, t) = (if throttled then Reserve want (thr s) else (want, thr s))" "g \<noteq> 0" "segments s = []"
      "r = Inr (False, (refund throttled g (s1\<lparr>thr := t\<rparr>))\<lparr>pendingOnReceive := True\<rparr>)"
  | want g t s1 rest where "prepare_read junk s = (Some want, s1)" "want \<noteq> 0"
      "(g, t) = (if throttled then Reserve want (thr s) else (want, thr s))" "g \<noteq> 0" "segments s = [] # rest"
      "r = Inr (False, (refund throttled g (s1\<lparr>thr := t\<rparr>))\<lparr>segments := rest\<rparr>)"
  | want g t bs rest s1 where "takes_bytes junk throttled s want g t bs rest s1"
      "r = sum_bind (store_read bs (s1\<lparr>thr := t, segments := rest\<rparr>)) (\<lambda>s.
             Inr (after_read (length bs)
               ((if length bs < g then refund throttled (g - length bs) s else s)\<lparr>pendingOnReceive := (length bs = g)\<rparr>)))"
proof -
  obtain w s1 where p: "prepare_read junk s = (w, s1)" by fastforce
  note fr = prepare_read_frame [OF p]
  show ?thesis
  proof (cases w)
    case None
    with p assms that(1) show ?thesis by (simp add: receive_step_def)
  next
    case (Some want)
    obtain g t where g: "(g, t) = (if throttled then Reserve want (thr s) else (want, thr s))" by (metis surj_pair)
    consider "want = 0" | "want \<noteq> 0" "throttled" "g = 0" | "want \<noteq> 0" "g \<noteq> 0" using g by (cases "want = 0"; cases throttled; auto)
    then show ?thesis
    proof cases
      case 1
      with Some p assms that(2) show ?thesis by (simp add: receive_step_def)
    next
      case 2
      then have R: "Reserve want (thr s) = (0, t)" using g by simp
      have "r = Inr (False, s1\<lparr>pendingOnReceive := True, thr := PauseUntilRefill (socket_id s1) t\<rparr>)"
        unfolding assms [symmetric] receive_step_def p Some using 2 R fr by simp
      with Some p 2 R show ?thesis by (intro that(3)) simp_all
    next
      case 3
      obtain x rest where x: "read_socket g (segments s) = (x, rest)" by fastforce
      have G: "(if throttled then Reserve want (thr s1) else (want, thr s1)) = (g, t)" using g fr by simp
      have step: "r = (case (x, rest) of
                     (Blocks, rest) \<Rightarrow> Inr (False, (refund throttled g (s1\<lparr>thr := t\<rparr>))\<lparr>pendingOnReceive := True\<rparr>)
                   | (Ends, rest) \<Rightarrow> Inr (False, (refund throttled g (s1\<lparr>thr := t\<rparr>))\<lparr>segments := rest\<rparr>)
                   | (Got bs, rest) \<Rightarrow>
                       sum_bind (store_read bs (s1\<lparr>thr := t, segments := rest\<rparr>)) (\<lambda>s.
                         Inr (after_read (length bs)
                           ((if length bs < g then refund throttled (g - length bs) s else s)\<lparr>pendingOnReceive := (length bs = g)\<rparr>))))"
        unfolding assms [symmetric] receive_step_def p Some prod.case option.case G Let_def using 3 fr x by simp
      show ?thesis
      proof (cases x)
        case Blocks
        then show ?thesis using step p Some g 3 x read_socket_other(1) [of g "segments s" rest] by (intro that(4)) auto
      next
        case Ends
        then show ?thesis using step p Some g 3 x read_socket_other(2) [of g "segments s" rest] by (intro that(5)) auto
      next
        case (Got bs)
        then show ?thesis using step p Some g 3 x by (intro that(6)) (auto simp: takes_bytes_def)
      qed
    qed
  qed
qed

lemma refund_simps [simp]:
  "segments (refund throttled n s) = segments s" "m_unlimited (thr (refund throttled n s)) = m_unlimited (thr s)"
  "m_bytesAvailable (thr (refund throttled n s)) = m_bytesAvailable (thr s) + (if throttled \<and> \<not> m_unlimited (thr s) then int n else 0)"
  by (simp_all add: refund_def)

lemma got_result:
  assumes "takes_bytes junk throttled s want g t bs rest s1"
    and "Inr (go, s') = sum_bind (store_read bs (s1\<lparr>thr := t, segments := rest\<rparr>)) (\<lambda>s.
             Inr (after_read (length bs)
               ((if length bs < g then refund throttled (g - length bs) s else s)\<lparr>pendingOnReceive := (length bs = g)\<rparr>)))"
  shows "segments s' = rest" and "bs \<noteq> []" and "length bs \<le> g" and "unread s = length bs + unread s'"
    and "m_unlimited (thr s') = m_unlimited t"
    and "m_bytesAvailable (thr s') = m_bytesAvailable t + (if throttled \<and> \<not> m_unlimited t then int (g - length bs) else 0)"
proof -
  obtain s2 where s2: "store_read bs (s1\<lparr>thr := t, segments := rest\<rparr>) = Inr s2"
    and a: "after_read (length bs) ((if length bs < g then refund throttled (g - length bs) s2 else s2)\<lparr>pendingOnReceive := (length bs = g)\<rparr>) = (go, s')"
    using assms(2) [symmetric] unfolding sum_bind_Inr by auto
  show "segments s' = rest" "m_unlimited (thr s') = m_unlimited t"
    "m_bytesAvailable (thr s') = m_bytesAvailable t + (if throttled \<and> \<not> m_unlimited t then int (g - length bs) else 0)"
    using after_read_frame [OF a] store_read_frame [OF s2] by (auto split: if_splits)
  then show "bs \<noteq> []" "length bs \<le> g" "unread s = length bs + unread s'"
    using read_socket_Got [of g "segments s" bs rest] assms(1) by (simp_all add: takes_bytes_def unread_def)
qed

lemma step_consumes:
  assumes "receive_step junk throttled s = Inr (True, s')"
  shows "unread s' < unread s"
  using assms
proof (cases rule: receive_step_cases)
  case (no_data s1)
  then show ?thesis using after_read_frame [of 0 "s1\<lparr>pendingOnReceive := True\<rparr>" True s'] by simp
next
  case (got want g t bs rest s1)
  show ?thesis using got_result [OF got] by simp
qed simp_all

function receive_loop :: "(nat \<Rightarrow> uint8) \<Rightarrow> bool \<Rightarrow> em_recv \<Rightarrow> fault + em_recv" where
  "receive_loop junk throttled s =
     (case receive_step junk throttled s of
        Inl e \<Rightarrow> Inl e
      | Inr (go, s') \<Rightarrow> if go then receive_loop junk throttled s' else Inr s')"
  by pat_completeness auto
termination
proof (relation "measure (\<lambda>(junk, throttled, s). unread s)", rule wf_measure)
  fix junk :: "nat \<Rightarrow> uint8" and throttled s x go s'
  assume "receive_step junk throttled s = Inr x" and "(go, s') = x" and go
  then have "receive_step junk throttled s = Inr (True, s')" by simp
  then show "((junk, throttled, s'), junk, throttled, s) \<in> measure (\<lambda>(junk, throttled, s). unread s)"
    using step_consumes by simp
qed

declare receive_loop.simps [simp del]

definition OnReceive :: "(nat \<Rightarrow> uint8) \<Rightarrow> bool \<Rightarrow> nat \<Rightarrow> bool \<Rightarrow> em_recv \<Rightarrow> fault + em_recv" where
  "OnReceive junk throttled nErrorCode lastError s =
     (if nErrorCode \<noteq> 0 \<and> lastError then Inr (s\<lparr>events := events s @ [OnError nErrorCode]\<rparr>)
      else if byConnected s = ES_DISCONNECTED then Inr s
      else receive_loop junk throttled (s\<lparr>byConnected := ES_CONNECTED\<rparr>))"

definition WakeIfPaused :: "(nat \<Rightarrow> uint8) \<Rightarrow> bool \<Rightarrow> bool \<Rightarrow> em_recv \<Rightarrow> fault + em_recv" where
  "WakeIfPaused junk throttled lastError s = (if pendingOnReceive s then OnReceive junk throttled 0 lastError s else Inr s)"

text \<open>The receiving half of \<open>ClearQueues\<close>, and of \<open>OnClose\<close> (the destructor does the same).\<close>

definition clear_receive :: "em_recv \<Rightarrow> em_recv" where
  "clear_receive s =
     s\<lparr>pendingOnReceive := False, pendingHeaderSize := 0, pendingPacket := None, pendingPacketSize := 0\<rparr>"

definition close_receive :: "em_recv \<Rightarrow> em_recv" where
  "close_receive s = clear_receive (s\<lparr>byConnected := ES_DISCONNECTED, thr := Forget (socket_id s) (thr s)\<rparr>)"

end
