(* ===== verification/EM_Stream.thy ===== *)
theory EM_Stream
  imports EM_Receive
begin

text \<open>
  What the receiving half of \<open>CEMSocket\<close> makes of a stream: a parser of the whole stream, written without
  regard to how the bytes arrive, and the proof that \<open>OnReceive\<close> is an incremental implementation of it.
\<close>

section \<open>The stream as a sequence of packets\<close>

definition first_size :: "uint8 list \<Rightarrow> nat" where
  "first_size bs = unat (GetPacketSizeFromHeader (take 6 bs))"

definition first_packet :: "(nat \<Rightarrow> uint8) \<Rightarrow> uint8 list \<Rightarrow> CPacket" where
  "first_packet junk bs = packet_received (take 6 bs) (take (first_size bs) (drop 6 bs) @ [junk (first_size bs)])"

definition add_event :: "em_event \<Rightarrow> em_event list \<times> uint8 list \<Rightarrow> em_event list \<times> uint8 list" where
  "add_event e x = (e # fst x, snd x)"

function frames :: "(nat \<Rightarrow> uint8) \<Rightarrow> uint8 list \<Rightarrow> em_event list \<times> uint8 list" where
  "frames junk bs =
     (if length bs < 6 then ([], bs)
      else if MAX_PACKET_SIZE < first_size bs then add_event (OnError ERR_TOOBIG) (frames junk (drop 6 bs))
      else if length bs < 6 + first_size bs then ([], bs)
      else add_event (packet_event (first_packet junk bs)) (frames junk (drop (6 + first_size bs) bs)))"
  by pat_completeness auto
termination by (relation "measure (\<lambda>(junk, bs). length bs)") auto

declare frames.simps [simp del]

lemma first_size_append [simp]: "6 \<le> length bs \<Longrightarrow> first_size (bs @ cs) = first_size bs"
  by (simp add: first_size_def)

lemma first_packet_append: "6 + first_size bs \<le> length bs \<Longrightarrow> first_packet junk (bs @ cs) = first_packet junk bs"
  by (simp add: first_packet_def)

lemma frames_append:
  "frames junk (a @ b) =
     (fst (frames junk a) @ fst (frames junk (snd (frames junk a) @ b)), snd (frames junk (snd (frames junk a) @ b)))"
proof (induction junk a rule: frames.induct)
  case (1 junk bs)
  consider "length bs < 6" | "6 \<le> length bs" "MAX_PACKET_SIZE < first_size bs"
    | "6 \<le> length bs" "\<not> MAX_PACKET_SIZE < first_size bs" "length bs < 6 + first_size bs"
    | "6 \<le> length bs" "\<not> MAX_PACKET_SIZE < first_size bs" "6 + first_size bs \<le> length bs" by linarith
  then show ?case
  proof cases
    case 1
    then show ?thesis by (simp add: frames.simps [of junk bs])
  next
    case 2
    then have "frames junk (bs @ b) = add_event (OnError ERR_TOOBIG) (frames junk (drop 6 bs @ b))"
      by (simp add: frames.simps [of junk "bs @ b"])
    then show ?thesis using 2 1(1) by (simp add: frames.simps [of junk bs] add_event_def)
  next
    case 3
    then show ?thesis by (simp add: frames.simps [of junk bs])
  next
    case 4
    then have "frames junk (bs @ b) = add_event (packet_event (first_packet junk bs)) (frames junk (drop (6 + first_size bs) bs @ b))"
      by (simp add: frames.simps [of junk "bs @ b"] first_packet_append)
    then show ?thesis using 4 1(2) by (simp add: frames.simps [of junk bs] add_event_def)
  qed
qed

lemma frames_rest: "frames junk (snd (frames junk a)) = ([], snd (frames junk a))"
  using frames_append [of junk a "[]"] by (cases "frames junk (snd (frames junk a))") (simp add: prod_eq_iff)

section \<open>What a socket has pending\<close>

definition pending :: "em_recv \<Rightarrow> uint8 list" where
  "pending s = take (pendingHeaderSize s) (pendingHeader s)
     @ (case pendingPacket s of None \<Rightarrow> [] | Some b \<Rightarrow> take (pendingPacketSize s) b)"

text \<open>Inside the loop; \<open>settled\<close> is what holds between two calls.\<close>

definition recv_mid :: "(nat \<Rightarrow> uint8) \<Rightarrow> em_recv \<Rightarrow> bool" where
  "recv_mid junk s \<longleftrightarrow> length (pendingHeader s) = 6 \<and> pendingHeaderSize s \<le> 6 \<and>
     (case pendingPacket s of
        None \<Rightarrow> True
      | Some b \<Rightarrow> pendingHeaderSize s = 6 \<and> header_size s \<le> MAX_PACKET_SIZE \<and> length b = header_size s + 1
          \<and> b ! header_size s = junk (header_size s) \<and> pendingPacketSize s \<le> header_size s)"

definition recv_ok :: "(nat \<Rightarrow> uint8) \<Rightarrow> em_recv \<Rightarrow> bool" where
  "recv_ok junk s \<longleftrightarrow> recv_mid junk s \<and> (pendingPacket s \<noteq> None \<longrightarrow> pendingPacketSize s < header_size s)"

definition settled :: "em_recv \<Rightarrow> bool" where
  "settled s \<longleftrightarrow> pendingHeaderSize s < 6 \<or> pendingPacket s \<noteq> None"

text \<open>From \<open>s\<close> to \<open>s'\<close> bytes were taken from the network and parsed.\<close>

definition reads :: "(nat \<Rightarrow> uint8) \<Rightarrow> em_recv \<Rightarrow> em_recv \<Rightarrow> bool" where
  "reads junk s s' \<longleftrightarrow>
     (\<exists>bs es. concat (segments s) = bs @ concat (segments s') \<and> events s' = events s @ es \<and>
        (\<forall>more. frames junk (pending s @ bs @ more) = (es @ fst (frames junk (pending s' @ more)), snd (frames junk (pending s' @ more)))))"

lemma readsI:
  assumes "events s' = events s @ es" and "concat (segments s) = bs @ concat (segments s')"
    and "\<And>more. frames junk (pending s @ bs @ more) = (es @ fst (frames junk (pending s' @ more)), snd (frames junk (pending s' @ more)))"
  shows "reads junk s s'"
  using assms unfolding reads_def by blast

lemma reads_trans: "reads junk s s1 \<Longrightarrow> reads junk s1 s' \<Longrightarrow> reads junk s s'"
proof -
  assume "reads junk s s1" and "reads junk s1 s'"
  then obtain b1 e1 b2 e2 where
    1: "concat (segments s) = b1 @ concat (segments s1)" "events s1 = events s @ e1"
      "\<And>more. frames junk (pending s @ b1 @ more) = (e1 @ fst (frames junk (pending s1 @ more)), snd (frames junk (pending s1 @ more)))"
    and 2: "concat (segments s1) = b2 @ concat (segments s')" "events s' = events s1 @ e2"
      "\<And>more. frames junk (pending s1 @ b2 @ more) = (e2 @ fst (frames junk (pending s' @ more)), snd (frames junk (pending s' @ more)))"
    unfolding reads_def by blast
  show ?thesis by (rule readsI [of _ _ "e1 @ e2" "b1 @ b2"]) (simp_all add: 1 2)
qed

lemma reads_cong:
  "events s' = events s \<Longrightarrow> pending s' = pending s \<Longrightarrow> concat (segments s') = concat (segments s) \<Longrightarrow> reads junk s s'"
  by (rule readsI [of _ _ "[]" "[]"]) simp_all

lemma header_size_first: "length (pendingHeader s) = 6 \<Longrightarrow> header_size s = first_size (pendingHeader s @ bs)"
  by (simp add: header_size_def first_size_def)

lemma header_size_update [simp]:
  "header_size (pendingPacketSize_update f s) = header_size s" "header_size (pendingPacket_update g s) = header_size s"
  "header_size (pendingHeaderSize_update f s) = header_size s" "header_size (events_update h s) = header_size s"
  "header_size (segments_update e s) = header_size s" "header_size (pendingOnReceive_update d s) = header_size s"
  "header_size (thr_update c s) = header_size s" "header_size (byConnected_update k s) = header_size s"
  by (simp_all add: header_size_def)

lemma settled_frames:
  assumes "recv_ok junk s" and "settled s"
  shows "frames junk (pending s) = ([], pending s)"
proof (cases "pendingHeaderSize s < 6")
  case True
  then have "length (pending s) < 6" using assms(1) by (auto simp: pending_def recv_ok_def recv_mid_def split: option.splits)
  then show ?thesis by (simp add: frames.simps)
next
  case False
  then obtain b where b: "pendingPacket s = Some b" using assms(2) by (auto simp: settled_def)
  have ok: "length (pendingHeader s) = 6" "pendingHeaderSize s = 6" "header_size s \<le> MAX_PACKET_SIZE"
    "length b = header_size s + 1" "pendingPacketSize s < header_size s" using assms(1) b by (auto simp: recv_ok_def recv_mid_def)
  have p: "pending s = pendingHeader s @ take (pendingPacketSize s) b" using ok b by (simp add: pending_def)
  have "first_size (pending s) = header_size s" using header_size_first [OF ok(1)] p by simp
  then show ?thesis using ok p by (simp add: frames.simps)
qed

lemma prepare_too_big:
  assumes "recv_ok junk s" and "prepare_read junk s = (None, s1)"
  shows "recv_ok junk s1" and "settled s1" and "reads junk s s1"
proof -
  have h: "pendingHeaderSize s = 6" "pendingPacket s = None" "length (pendingHeader s) = 6" "MAX_PACKET_SIZE < header_size s"
    and s1: "s1 = s\<lparr>pendingPacketSize := 0, pendingHeaderSize := 0, events := events s @ [OnError ERR_TOOBIG]\<rparr>"
    using assms by (auto simp: prepare_read_def recv_ok_def recv_mid_def PACKET_HEADER_SIZE_def split: if_splits)
  show "recv_ok junk s1" "settled s1" using h s1 by (auto simp: recv_ok_def recv_mid_def settled_def)
  have p: "pending s = pendingHeader s" "pending s1 = []" using h s1 by (simp_all add: pending_def)
  have "frames junk (pendingHeader s @ more) = add_event (OnError ERR_TOOBIG) (frames junk more)" for more
    using h header_size_first [of s more] by (simp add: frames.simps [of junk "pendingHeader s @ more"])
  then show "reads junk s s1" using p s1 by (intro readsI [of _ _ "[OnError ERR_TOOBIG]" "[]"]) (simp_all add: add_event_def)
qed

definition wanted :: "em_recv \<Rightarrow> nat" where
  "wanted s = (if pendingHeaderSize s < 6 then 6 - pendingHeaderSize s else header_size s - pendingPacketSize s)"

lemma MAX_less_u32: "MAX_PACKET_SIZE < 2 ^ 32"
  by (simp add: MAX_PACKET_SIZE_def)

lemma prepare_read_cases:
  "pendingHeaderSize s < 6 \<Longrightarrow> prepare_read junk s = (Some (6 - pendingHeaderSize s), s\<lparr>pendingPacket := None\<rparr>)"
  "pendingHeaderSize s = 6 \<Longrightarrow> pendingPacket s = None \<Longrightarrow> header_size s \<le> MAX_PACKET_SIZE \<Longrightarrow> prepare_read junk s =
     (Some (header_size s), s\<lparr>pendingPacketSize := 0, pendingPacket := Some (new_array junk (header_size s + 1))\<rparr>)"
  "pendingHeaderSize s = 6 \<Longrightarrow> pendingPacket s = Some b \<Longrightarrow> prepare_read junk s = (Some (u32 (header_size s + 2 ^ 32 - pendingPacketSize s)), s)"
  by (simp_all only: prepare_read_def PACKET_HEADER_SIZE_def if_True if_False less_irrefl option.distinct not_less not_le simp_thms) auto

lemma prepare_read_fits:
  "prepare_read junk s = (Some w, s1) \<Longrightarrow> pendingPacket s = None \<Longrightarrow> pendingHeaderSize s = 6 \<Longrightarrow> \<not> MAX_PACKET_SIZE < header_size s"
  by (rule notI) (simp only: prepare_read_def PACKET_HEADER_SIZE_def less_irrefl if_True if_False simp_thms prod.inject option.distinct)

lemma prepare_some:
  assumes "recv_ok junk s" and "prepare_read junk s = (Some w, s1)"
  shows "recv_mid junk s1" and "settled s1" and "w = wanted s1" and "pending s1 = pending s" and "events s1 = events s"
    and "w \<noteq> 0 \<Longrightarrow> recv_ok junk s1"
proof -
  have ok: "length (pendingHeader s) = 6" "pendingHeaderSize s \<le> 6" using assms(1) by (auto simp: recv_ok_def recv_mid_def)
  consider (header) "pendingHeaderSize s < 6" "w = 6 - pendingHeaderSize s" "s1 = s\<lparr>pendingPacket := None\<rparr>"
    | (fresh) "pendingHeaderSize s = 6" "pendingPacket s = None" "header_size s \<le> MAX_PACKET_SIZE" "w = header_size s"
        "s1 = s\<lparr>pendingPacketSize := 0, pendingPacket := Some (new_array junk (header_size s + 1))\<rparr>"
    | (more) b where "pendingHeaderSize s = 6" "pendingPacket s = Some b" "w = u32 (header_size s + 2 ^ 32 - pendingPacketSize s)" "s1 = s"
  proof (cases "pendingHeaderSize s < 6")
    case True
    then show ?thesis using assms(2) header by (simp add: prepare_read_def PACKET_HEADER_SIZE_def)
  next
    case False
    then have six: "pendingHeaderSize s = 6" using ok by simp
    show ?thesis
    proof (cases "pendingPacket s")
      case None
      have "\<not> MAX_PACKET_SIZE < header_size s"
        by (rule prepare_read_fits [OF assms(2) None six])
      then have "header_size s \<le> MAX_PACKET_SIZE" by simp
      from prepare_read_cases(2) [OF six None this, of junk] assms(2)
      have "w = header_size s" "s1 = s\<lparr>pendingPacketSize := 0, pendingPacket := Some (new_array junk (header_size s + 1))\<rparr>"
        by simp_all
      then show ?thesis using six None \<open>header_size s \<le> MAX_PACKET_SIZE\<close> by (intro fresh)
    next
      case (Some b)
      then show ?thesis using prepare_read_cases(3) [OF six Some, of junk] assms(2) six by (intro more) (simp_all only: prod.inject option.inject)
    qed
  qed
  then have "recv_mid junk s1 \<and> settled s1 \<and> w = wanted s1 \<and> pending s1 = pending s \<and> events s1 = events s \<and> (w \<noteq> 0 \<longrightarrow> recv_ok junk s1)"
  proof cases
    case header
    then show ?thesis
      using assms(1) by (auto simp: recv_ok_def recv_mid_def settled_def wanted_def pending_def split: option.splits)
  next
    case fresh
    then show ?thesis
      using ok by (auto simp: recv_ok_def recv_mid_def settled_def wanted_def pending_def)
  next
    case more
    have b: "header_size s \<le> MAX_PACKET_SIZE" "pendingPacketSize s < header_size s"
      using assms(1) more by (auto simp: recv_ok_def recv_mid_def)
    have "header_size s + 2 ^ 32 - pendingPacketSize s = header_size s - pendingPacketSize s + 2 ^ 32" using b by simp
    then have "w = (header_size s - pendingPacketSize s + 2 ^ 32) mod 2 ^ 32" using more(3) by (simp only: u32_def)
    also have "\<dots> = header_size s - pendingPacketSize s" unfolding mod_add_self2 using b MAX_less_u32 by (intro mod_less) linarith
    finally have "w = header_size s - pendingPacketSize s" .
    then show ?thesis
      using more assms(1) by (simp add: recv_ok_def settled_def wanted_def)
  qed
  then show "recv_mid junk s1" "settled s1" "w = wanted s1" "pending s1 = pending s" "events s1 = events s" "w \<noteq> 0 \<Longrightarrow> recv_ok junk s1"
    by simp_all
qed

lemma poke_Inr:
  "off + length d \<le> length a \<Longrightarrow> poke off d a = Inr (take off a @ d @ drop (off + length d) a)"
  by (simp add: poke_def)

text \<open>Bytes that arrive: the next part of the header, or of the payload.\<close>

lemma store_after_header:
  assumes "recv_mid junk s" and "pendingHeaderSize s < 6" and "pendingPacket s = None" and "length bs \<le> 6 - pendingHeaderSize s" and "bs \<noteq> []"
  shows "\<exists>s2. store_read bs s = Inr s2 \<and> (\<exists>go s'. after_read (length bs) s2 = (go, s') \<and> recv_ok junk s' \<and> (go \<or> settled s')
           \<and> pending s' = pending s @ bs \<and> events s' = events s)"
proof -
  let ?h = "pendingHeaderSize s"
  let ?a = "take ?h (pendingHeader s) @ bs @ drop (?h + length bs) (pendingHeader s)"
  have len: "length (pendingHeader s) = 6" using assms(1) by (simp add: recv_mid_def)
  have st: "store_read bs s = Inr (s\<lparr>pendingHeader := ?a\<rparr>)"
    using assms(2,4) len by (simp add: store_read_def PACKET_HEADER_SIZE_def poke_Inr)
  have "after_read (length bs) (s\<lparr>pendingHeader := ?a\<rparr>) =
          (6 \<le> ?h + length bs, s\<lparr>pendingHeader := ?a, pendingHeaderSize := ?h + length bs\<rparr>)"
    using assms(2,5) by (simp add: after_read_def PACKET_HEADER_SIZE_def)
  moreover have "recv_ok junk (s\<lparr>pendingHeader := ?a, pendingHeaderSize := ?h + length bs\<rparr>)"
    using assms len by (auto simp: recv_ok_def recv_mid_def)
  moreover have "pending (s\<lparr>pendingHeader := ?a, pendingHeaderSize := ?h + length bs\<rparr>) = pending s @ bs"
    using assms(2-4) len by (simp add: pending_def)
  ultimately show ?thesis using st by (auto simp: settled_def)
qed

lemma frames_first:
  assumes "6 \<le> length bs" and "first_size bs \<le> MAX_PACKET_SIZE" and "length bs = 6 + first_size bs"
  shows "frames junk (bs @ cs) = add_event (packet_event (first_packet junk bs)) (frames junk cs)"
proof -
  have "drop (6 + first_size bs) (bs @ cs) = cs" using assms(3) by simp
  then show ?thesis using assms by (simp add: frames.simps [of junk "bs @ cs"] first_packet_append)
qed

lemma store_after_payload:
  assumes "recv_mid junk s" and "pendingPacket s = Some b" and "length bs \<le> header_size s - pendingPacketSize s"
    and "bs = [] \<Longrightarrow> pendingPacketSize s = header_size s"
  shows "\<exists>s2. store_read bs s = Inr s2 \<and> (\<exists>go s' es. after_read (length bs) s2 = (go, s') \<and> recv_ok junk s' \<and> (go \<or> settled s')
           \<and> events s' = events s @ es \<and> (\<forall>more. frames junk (pending s @ bs @ more) = (es @ fst (frames junk (pending s' @ more)), snd (frames junk (pending s' @ more)))))"
proof -
  let ?p = "pendingPacketSize s" and ?n = "header_size s"
  have ok: "length (pendingHeader s) = 6" "pendingHeaderSize s = 6" "?n \<le> MAX_PACKET_SIZE" "length b = ?n + 1"
    "b ! ?n = junk ?n" "?p \<le> ?n" using assms(1,2) by (auto simp: recv_mid_def)
  define c where "c = take ?p b @ bs @ drop (?p + length bs) b"
  have le: "?p + length bs \<le> ?n" using ok(6) assms(3) by simp
  have lc: "length c = ?n + 1" using ok(4) le by (simp add: c_def)
  have cn: "c ! ?n = junk ?n"
  proof -
    have "c = (take ?p b @ bs) @ drop (?p + length bs) b" "length (take ?p b @ bs) = ?p + length bs"
      using ok(4,6) by (simp_all add: c_def)
    then have "c ! ?n = drop (?p + length bs) b ! (?n - (?p + length bs))" using le by (metis nth_append not_less)
    also have "\<dots> = b ! ?n" using le ok(4) by simp
    finally show ?thesis using ok(5) by simp
  qed
  have st: "store_read bs s = Inr (s\<lparr>pendingPacket := Some c\<rparr>)"
    using assms(2) ok le by (simp add: store_read_def PACKET_HEADER_SIZE_def poke_Inr c_def)
  have ps: "pending s @ bs = pendingHeader s @ take (?p + length bs) c"
    using ok le assms(2) by (simp add: pending_def c_def)
  show ?thesis
  proof (cases "?n \<le> ?p + length bs")
    case False
    let ?s = "s\<lparr>pendingPacket := Some c, pendingPacketSize := ?p + length bs\<rparr>"
    have "bs \<noteq> []" using False assms(4) by auto
    then have "after_read (length bs) (s\<lparr>pendingPacket := Some c\<rparr>) = (True, ?s)"
      using False ok(2) by (simp add: after_read_def PACKET_HEADER_SIZE_def)
    moreover have "recv_ok junk ?s" using False ok lc cn by (simp add: recv_ok_def recv_mid_def)
    moreover have "pending ?s = pending s @ bs" using ps ok(1,2) by (simp add: pending_def)
    ultimately show ?thesis using st by (intro exI [of _ "s\<lparr>pendingPacket := Some c\<rparr>"] conjI exI [of _ True] exI [of _ ?s] exI [of _ "[]"]) simp_all
  next
    case True
    then have all: "?p + length bs = ?n" using le by simp
    define p where "p = packet_received (pendingHeader s) c"
    let ?s = "s\<lparr>pendingPacket := None, pendingPacketSize := 0, pendingHeaderSize := 0, events := events s @ [packet_event p]\<rparr>"
    have a: "after_read (length bs) (s\<lparr>pendingPacket := Some c\<rparr>) = (False, ?s)"
      using True ok(2) by (simp add: after_read_def PACKET_HEADER_SIZE_def p_def)
    have r: "recv_ok junk ?s" "settled ?s" "pending ?s = []" using ok by (simp_all add: recv_ok_def recv_mid_def settled_def pending_def)
    let ?bs = "pendingHeader s @ take ?n c"
    have fs: "first_size ?bs = ?n" using header_size_first [OF ok(1)] by simp
    have "c = take ?n c @ [junk ?n]"
      using lc cn take_Suc_conv_app_nth [of ?n c] by simp
    then have "first_packet junk ?bs = p" using fs ok(1) lc by (simp add: first_packet_def p_def)
    then have "frames junk (pending s @ bs @ more) = add_event (packet_event p) (frames junk more)" for more
      using frames_first [of ?bs junk more] fs ok(1,3) lc ps all by (metis append_assoc length_append length_take min_absorb2 le_add1)
    then show ?thesis using st a r
      by (intro exI [of _ "s\<lparr>pendingPacket := Some c\<rparr>"] conjI exI [of _ False] exI [of _ ?s] exI [of _ "[packet_event p]"]) (simp_all add: add_event_def)
  qed
qed

lemma fill:
  assumes "recv_mid junk s" and "settled s" and "length bs \<le> wanted s" and "bs = [] \<Longrightarrow> wanted s = 0"
    and "pendingHeaderSize s < 6 \<Longrightarrow> pendingPacket s = None"
  shows "\<exists>s2. store_read bs s = Inr s2 \<and> (\<exists>go s' es. after_read (length bs) s2 = (go, s') \<and> recv_ok junk s' \<and> (go \<or> settled s')
           \<and> events s' = events s @ es \<and> (\<forall>more. frames junk (pending s @ bs @ more) = (es @ fst (frames junk (pending s' @ more)), snd (frames junk (pending s' @ more)))))"
proof (cases "pendingHeaderSize s < 6")
  case True
  then have "bs \<noteq> []" using assms(4) by (auto simp: wanted_def)
  from store_after_header [OF assms(1) True assms(5) [OF True] _ this] assms(3) True obtain s2 go s' where
    "store_read bs s = Inr s2" "after_read (length bs) s2 = (go, s')" "recv_ok junk s'" "go \<or> settled s'" "pending s' = pending s @ bs" "events s' = events s"
    by (auto simp: wanted_def)
  then show ?thesis by (intro exI [of _ s2] conjI exI [of _ go] exI [of _ s'] exI [of _ "[]"]) simp_all
next
  case False
  then obtain b where b: "pendingPacket s = Some b" using assms(2) by (auto simp: settled_def)
  have "pendingPacketSize s \<le> header_size s" using assms(1) b by (simp add: recv_mid_def)
  then show ?thesis using assms(3,4) False by (intro store_after_payload [OF assms(1) b]) (auto simp: wanted_def)
qed

section \<open>One round, one call\<close>

lemma recv_frame [simp]:
  "recv_mid junk (s\<lparr>pendingOnReceive := b\<rparr>) = recv_mid junk s" "recv_mid junk (s\<lparr>thr := t\<rparr>) = recv_mid junk s"
  "recv_mid junk (s\<lparr>segments := g\<rparr>) = recv_mid junk s" "recv_mid junk (s\<lparr>byConnected := c\<rparr>) = recv_mid junk s"
  "recv_ok junk (s\<lparr>pendingOnReceive := b\<rparr>) = recv_ok junk s" "recv_ok junk (s\<lparr>thr := t\<rparr>) = recv_ok junk s"
  "recv_ok junk (s\<lparr>segments := g\<rparr>) = recv_ok junk s" "recv_ok junk (s\<lparr>byConnected := c\<rparr>) = recv_ok junk s"
  "settled (s\<lparr>pendingOnReceive := b\<rparr>) = settled s" "settled (s\<lparr>thr := t\<rparr>) = settled s"
  "settled (s\<lparr>segments := g\<rparr>) = settled s" "settled (s\<lparr>byConnected := c\<rparr>) = settled s"
  "pending (s\<lparr>pendingOnReceive := b\<rparr>) = pending s" "pending (s\<lparr>thr := t\<rparr>) = pending s"
  "pending (s\<lparr>segments := g\<rparr>) = pending s" "pending (s\<lparr>byConnected := c\<rparr>) = pending s"
  "wanted (s\<lparr>pendingOnReceive := b\<rparr>) = wanted s" "wanted (s\<lparr>thr := t\<rparr>) = wanted s"
  "wanted (s\<lparr>segments := g\<rparr>) = wanted s" "wanted (s\<lparr>byConnected := c\<rparr>) = wanted s"
  by (simp_all add: recv_mid_def recv_ok_def settled_def pending_def wanted_def cong: option.case_cong)

lemma reads_frame [simp]:
  "reads junk s (s'\<lparr>pendingOnReceive := b\<rparr>) = reads junk s s'" "reads junk s (s'\<lparr>thr := t\<rparr>) = reads junk s s'"
  "reads junk s (s'\<lparr>byConnected := c\<rparr>) = reads junk s s'" "reads junk (s\<lparr>byConnected := c\<rparr>) s' = reads junk s s'"
  by (simp_all add: reads_def)

lemma refund_frame:
  "\<exists>t. refund throttled n s = s\<lparr>thr := t\<rparr>"
  by (auto simp: refund_def intro: exI [of _ "thr s"])

lemma after_read_simps:
  assumes "after_read n s2 = (go, s')"
  shows "after_read n (s2\<lparr>pendingOnReceive := b\<rparr>) = (go, s'\<lparr>pendingOnReceive := b\<rparr>)" "after_read n (s2\<lparr>thr := t\<rparr>) = (go, s'\<lparr>thr := t\<rparr>)"
  using assms by (auto simp: after_read_def Let_def packet_received_def header_size_def split: if_splits)

lemma prepare_None_when_header:
  "prepare_read junk s = (Some w, s1) \<Longrightarrow> pendingHeaderSize s1 < 6 \<Longrightarrow> pendingPacket s1 = None"
  by (auto simp: prepare_read_def PACKET_HEADER_SIZE_def split: if_splits)

lemma Reserve_le: "(g, t) = (if throttled then Reserve want t0 else (want, t0)) \<Longrightarrow> g \<le> want"
  using Reserve_grant(1) [of want t0 g t] by (auto split: if_splits)

lemma step_stops:
  assumes "receive_step junk throttled s = Inr (False, s')" and "recv_ok junk s'" and "settled s'" and "reads junk s s'"
  shows "\<exists>go s'. receive_step junk throttled s = Inr (go, s') \<and> recv_ok junk s' \<and> (go \<or> settled s') \<and> reads junk s s'"
  using assms by blast

lemma receive_step_ok:
  assumes "recv_ok junk s"
  shows "\<exists>go s'. receive_step junk throttled s = Inr (go, s') \<and> recv_ok junk s' \<and> (go \<or> settled s') \<and> reads junk s s'"
proof (cases rule: receive_step_cases [OF refl [of "receive_step junk throttled s"]])
  case (1 s1)
  then show ?thesis using prepare_too_big [OF assms 1(1)] by (intro step_stops [OF 1(2)])
next
  case (2 s1)
  note p = prepare_some [OF assms 2(1)] and fr = prepare_read_frame [OF 2(1)]
  obtain s2 go s' es where st: "store_read [] s1 = Inr s2" "after_read 0 s2 = (go, s')" "recv_ok junk s'" "go \<or> settled s'"
    "events s' = events s1 @ es" "\<forall>more. frames junk (pending s1 @ [] @ more) = (es @ fst (frames junk (pending s' @ more)), snd (frames junk (pending s' @ more)))"
    using fill [OF p(1,2), of "[]"] prepare_None_when_header [OF 2(1)] p(3) by auto
  have "s2 = s1" using st(1) by (auto simp: store_read_def poke_def sum_bind_Inr split: if_splits option.splits)
  then have a: "after_read 0 (s1\<lparr>pendingOnReceive := True\<rparr>) = (go, s'\<lparr>pendingOnReceive := True\<rparr>)" using after_read_simps(1) [OF st(2)] by simp
  have "reads junk s s'"
    by (rule readsI [of _ _ es "[]"]) (use st p fr after_read_frame [OF st(2)] \<open>s2 = s1\<close> in auto)
  then show ?thesis using 2(2) a st(3,4) by simp
next
  case (3 want t s1)
  note p = prepare_some [OF assms 3(1)] and fr = prepare_read_frame [OF 3(1)]
  have "reads junk s s1" using p fr by (intro reads_cong) auto
  then show ?thesis using 3(2) p by (intro step_stops [OF 3(5)]) simp_all
next
  case (4 want g t s1)
  note p = prepare_some [OF assms 4(1)] and fr = prepare_read_frame [OF 4(1)]
  have "reads junk s s1" using p fr by (intro reads_cong) auto
  moreover obtain t' where "refund throttled g (s1\<lparr>thr := t\<rparr>) = s1\<lparr>thr := t, thr := t'\<rparr>" using refund_frame by blast
  ultimately show ?thesis using 4(2) p by (intro step_stops [OF 4(6)]) simp_all
next
  case (5 want g t s1 rest)
  note p = prepare_some [OF assms 5(1)] and fr = prepare_read_frame [OF 5(1)]
  have "reads junk s (s1\<lparr>segments := rest\<rparr>)" using p fr 5(5) by (intro reads_cong) auto
  moreover obtain t' where "refund throttled g (s1\<lparr>thr := t\<rparr>) = s1\<lparr>thr := t, thr := t'\<rparr>" using refund_frame by blast
  ultimately show ?thesis using 5(2) p by (intro step_stops [OF 5(6)]) (simp_all add: reads_def)
next
  case (6 want g t bs rest s1)
  then have t: "prepare_read junk s = (Some want, s1)" "want \<noteq> 0" "g \<le> want" "read_socket g (segments s) = (Got bs, rest)" "g \<noteq> 0"
    using Reserve_le [of g t throttled want "thr s"] by (auto simp: takes_bytes_def)
  note p = prepare_some [OF assms t(1)] and fr = prepare_read_frame [OF t(1)] and rd = read_socket_Got [OF t(4,5)]
  let ?s = "s1\<lparr>thr := t, segments := rest\<rparr>"
  obtain s2 go s' es where st: "store_read bs ?s = Inr s2" "after_read (length bs) s2 = (go, s')" "recv_ok junk s'" "go \<or> settled s'"
    "events s' = events s1 @ es" "\<forall>more. frames junk (pending s1 @ bs @ more) = (es @ fst (frames junk (pending s' @ more)), snd (frames junk (pending s' @ more)))"
    using fill [of junk ?s bs] prepare_None_when_header [OF t(1)] p rd t(3) by auto
  obtain t' where "(if length bs < g then refund throttled (g - length bs) s2 else s2) = s2\<lparr>thr := t'\<rparr>"
    using refund_frame [of throttled "g - length bs" s2] by (cases "length bs < g") (auto intro: that [of "thr s2"])
  then have r: "receive_step junk throttled s = Inr (go, s'\<lparr>thr := t', pendingOnReceive := (length bs = g)\<rparr>)"
    using 6(2) st(1) after_read_simps(1) [OF after_read_simps(2) [OF st(2)]] by simp
  have "segments s' = rest" using after_read_frame [OF st(2)] store_read_frame [OF st(1)] by simp
  then have "reads junk s s'"
    by (intro readsI [of _ _ es bs]) (use st p rd in auto)
  then show ?thesis using r st(3,4) by simp
qed

lemma receive_loop_ok:
  "recv_ok junk s \<Longrightarrow>
     \<exists>s'. receive_loop junk throttled s = Inr s' \<and> recv_ok junk s' \<and> settled s' \<and> reads junk s s'"
proof (induction junk throttled s rule: receive_loop.induct)
  case (1 junk throttled s)
  obtain go s1 where st: "receive_step junk throttled s = Inr (go, s1)" "recv_ok junk s1" "go \<or> settled s1" "reads junk s s1"
    using receive_step_ok [OF 1(2)] by blast
  show ?case
  proof (cases go)
    case True
    obtain s' where "receive_loop junk throttled s1 = Inr s'" "recv_ok junk s'" "settled s'" "reads junk s1 s'"
      using 1(1) [OF st(1) refl True st(2)] by blast
    then show ?thesis using st True reads_trans [OF st(4)] by (simp add: receive_loop.simps [of junk throttled s])
  next
    case False
    then show ?thesis using st by (simp add: receive_loop.simps [of junk throttled s])
  qed
qed

section \<open>The budget\<close>

definition charged :: "bool \<Rightarrow> em_recv \<Rightarrow> em_recv \<Rightarrow> bool" where
  "charged throttled s s' \<longleftrightarrow> unread s' \<le> unread s \<and> m_unlimited (thr s') = m_unlimited (thr s) \<and>
     m_bytesAvailable (thr s') = m_bytesAvailable (thr s) -
       (if throttled \<and> \<not> m_unlimited (thr s) then int (unread s) - int (unread s') else 0) \<and>
     (0 \<le> m_bytesAvailable (thr s) \<longrightarrow> 0 \<le> m_bytesAvailable (thr s'))"

lemma charged_same:
  assumes "unread s' = unread s" and "m_unlimited (thr s') = m_unlimited (thr s)" and "m_bytesAvailable (thr s') = m_bytesAvailable (thr s)"
  shows "charged throttled s s'"
  using assms by (simp add: charged_def)

lemma charged_trans: "charged throttled s s1 \<Longrightarrow> charged throttled s1 s' \<Longrightarrow> charged throttled s s'"
  by (auto simp: charged_def split: if_splits)

lemma PauseUntilRefill_budget [simp]:
  "m_unlimited (PauseUntilRefill n t) = m_unlimited t" "m_bytesAvailable (PauseUntilRefill n t) = m_bytesAvailable t"
  by (simp_all add: PauseUntilRefill_def)

lemma reserve_then_refund:
  assumes "(g, t) = (if throttled then Reserve want t0 else (want, t0))"
  shows "m_unlimited t = m_unlimited t0" and "m_bytesAvailable t = m_bytesAvailable t0 - (if throttled \<and> \<not> m_unlimited t0 then int g else 0)"
    and "0 \<le> m_bytesAvailable t0 \<Longrightarrow> 0 \<le> m_bytesAvailable t"
  using assms Reserve_grant [of want t0 g t] by (cases throttled; cases "m_unlimited t0"; simp)+

lemma receive_step_charged:
  assumes "receive_step junk throttled s = Inr (go, s')"
  shows "charged throttled s s'"
  using assms
proof (cases rule: receive_step_cases)
  case (too_big s1)
  then show ?thesis using prepare_read_frame [OF too_big(1)] by (intro charged_same) (auto simp: unread_def)
next
  case (no_data s1)
  then show ?thesis using prepare_read_frame [OF no_data(1)] after_read_frame [of 0 "s1\<lparr>pendingOnReceive := True\<rparr>" go s']
    by (intro charged_same) (auto simp: unread_def)
next
  case (paused want t s1)
  then show ?thesis using prepare_read_frame [OF paused(1)] reserve_then_refund [of 0 t throttled want "thr s"]
    by (intro charged_same) (auto simp: unread_def)
next
  case (blocks want g t s1)
  then show ?thesis using prepare_read_frame [OF blocks(1)] reserve_then_refund [OF blocks(3)]
    by (intro charged_same) (auto simp: unread_def)
next
  case (ends want g t s1 rest)
  then show ?thesis using prepare_read_frame [OF ends(1)] reserve_then_refund [OF ends(3)]
    by (intro charged_same) (auto simp: unread_def)
next
  case (got want g t bs rest s1)
  have "(g, t) = (if throttled then Reserve want (thr s) else (want, thr s))" using got(1) by (simp add: takes_bytes_def)
  then show ?thesis using got_result [OF got] reserve_then_refund [of g t throttled want "thr s"] by (auto simp: charged_def)
qed

lemma receive_loop_charged:
  "receive_loop junk throttled s = Inr s' \<Longrightarrow> charged throttled s s'"
proof (induction junk throttled s rule: receive_loop.induct)
  case (1 junk throttled s)
  obtain go s1 where st: "receive_step junk throttled s = Inr (go, s1)"
    using 1(2) by (simp add: receive_loop.simps [of junk throttled s] split: sum.splits prod.splits)
  note c = receive_step_charged [OF st]
  show ?case
  proof (cases go)
    case True
    then have "receive_loop junk throttled s1 = Inr s'" using 1(2) st by (simp add: receive_loop.simps [of junk throttled s])
    then show ?thesis using 1(1) [OF st refl True] charged_trans [OF c] by blast
  next
    case False
    then show ?thesis using 1(2) st c by (simp add: receive_loop.simps [of junk throttled s])
  qed
qed

section \<open>Progress\<close>

definition has_budget :: "bool \<Rightarrow> throttler \<Rightarrow> bool" where
  "has_budget throttled t \<longleftrightarrow> \<not> throttled \<or> m_unlimited t \<or> 0 < m_bytesAvailable t"

lemma wanted_pos: "recv_ok junk s \<Longrightarrow> settled s \<Longrightarrow> 0 < wanted s"
  by (auto simp: recv_ok_def recv_mid_def settled_def wanted_def)

lemma settled_prepares:
  assumes "recv_ok junk s" and "settled s"
  obtains w s1 where "prepare_read junk s = (Some w, s1)" "w \<noteq> 0"
proof -
  obtain w s1 where p: "prepare_read junk s = (w, s1)" by fastforce
  have "w \<noteq> None" using p assms by (auto simp: prepare_read_def settled_def PACKET_HEADER_SIZE_def split: if_splits)
  then obtain w' where w: "w = Some w'" by blast
  have "wanted s1 = wanted s" using p assms
    by (auto simp: prepare_read_def settled_def PACKET_HEADER_SIZE_def wanted_def split: if_splits)
  then have "w' \<noteq> 0" using prepare_some(3) [OF assms(1) p [unfolded w]] wanted_pos [OF assms] by simp
  then show thesis using that p w by blast
qed

lemma receive_step_progress:
  assumes "recv_ok junk s" and "settled s" and "has_budget throttled (thr s)" and "segments s \<noteq> []" and "[] \<notin> set (segments s)"
    and "receive_step junk throttled s = Inr (go, s')"
  shows "unread s' < unread s"
proof -
  obtain w s1 where p: "prepare_read junk s = (Some w, s1)" "w \<noteq> 0" using settled_prepares [OF assms(1,2)] .
  from assms(6) show ?thesis
  proof (cases rule: receive_step_cases)
    case (paused want t s1)
    then show ?thesis using assms(3) Reserve_grant(8) [of want "thr s" 0 t] by (auto simp: has_budget_def)
  next
    case (got want g t bs rest s1)
    show ?thesis using got_result [OF got] by simp
  qed (use p assms in auto)
qed

lemma read_socket_segments:
  "read_socket n segs = (x, rest) \<Longrightarrow> [] \<notin> set segs \<Longrightarrow> [] \<notin> set rest"
  by (cases "(n, segs)" rule: read_socket.cases) (auto split: if_splits)

lemma receive_step_segments:
  assumes "receive_step junk throttled s = Inr (go, s')" and "[] \<notin> set (segments s)"
  shows "[] \<notin> set (segments s')"
  using assms(1)
proof (cases rule: receive_step_cases)
  case (too_big s1)
  then show ?thesis using prepare_read_frame [OF too_big(1)] assms(2) by auto
next
  case (no_data s1)
  then show ?thesis using prepare_read_frame [OF no_data(1)] after_read_frame [of 0 "s1\<lparr>pendingOnReceive := True\<rparr>" go s'] assms(2) by auto
next
  case (paused want t s1)
  then show ?thesis using prepare_read_frame [OF paused(1)] assms(2) by auto
next
  case (blocks want g t s1)
  then show ?thesis using prepare_read_frame [OF blocks(1)] assms(2) by auto
next
  case (ends want g t s1 rest)
  then show ?thesis using assms(2) by auto
next
  case (got want g t bs rest s1)
  show ?thesis using got_result(1) [OF got] read_socket_segments [of g "segments s" "Got bs" rest] got(1) assms(2)
    by (simp add: takes_bytes_def)
qed

lemma receive_loop_segments:
  "receive_loop junk throttled s = Inr s' \<Longrightarrow> [] \<notin> set (segments s) \<Longrightarrow> [] \<notin> set (segments s')"
proof (induction junk throttled s rule: receive_loop.induct)
  case (1 junk throttled s)
  obtain go s1 where st: "receive_step junk throttled s = Inr (go, s1)"
    using 1(2) by (simp add: receive_loop.simps [of junk throttled s] split: sum.splits prod.splits)
  show ?case
    using 1(1) [OF st refl] 1(2,3) st receive_step_segments [OF st 1(3)]
    by (cases go) (simp_all add: receive_loop.simps [of junk throttled s])
qed

lemma receive_loop_progress:
  assumes "recv_ok junk s" and "settled s" and "has_budget throttled (thr s)" and "segments s \<noteq> []" and "[] \<notin> set (segments s)"
    and "receive_loop junk throttled s = Inr s'"
  shows "unread s' < unread s"
proof -
  obtain go s1 where st: "receive_step junk throttled s = Inr (go, s1)"
    using assms(6) by (simp add: receive_loop.simps [of junk throttled s] split: sum.splits prod.splits)
  have "unread s1 < unread s" by (rule receive_step_progress [OF assms(1-5) st])
  moreover have "unread s' \<le> unread s1"
    using assms(6) st receive_loop_charged [of junk throttled s1 s']
    by (cases go) (simp_all add: receive_loop.simps [of junk throttled s] charged_def)
  ultimately show ?thesis by simp
qed

section \<open>A connection\<close>

text \<open>
  What can happen to a socket that nobody closes: bytes arrive, the socket is told so (or woken by the
  throttler or its download), other sockets and the refill change the budget.
\<close>

datatype em_action = Arrive "uint8 list" | Receive | Wake | Budget throttler

definition em_act :: "(nat \<Rightarrow> uint8) \<Rightarrow> bool \<Rightarrow> em_action \<Rightarrow> em_recv \<Rightarrow> fault + em_recv" where
  "em_act junk throttled a s =
     (case a of
        Arrive bs \<Rightarrow> Inr (s\<lparr>segments := segments s @ [bs]\<rparr>)
      | Receive \<Rightarrow> OnReceive junk throttled 0 False s
      | Wake \<Rightarrow> WakeIfPaused junk throttled False s
      | Budget t \<Rightarrow> Inr (s\<lparr>thr := t\<rparr>))"

primrec em_run :: "(nat \<Rightarrow> uint8) \<Rightarrow> bool \<Rightarrow> em_action list \<Rightarrow> em_recv \<Rightarrow> fault + em_recv" where
  "em_run junk throttled [] s = Inr s"
| "em_run junk throttled (a # as) s = sum_bind (em_act junk throttled a s) (em_run junk throttled as)"

definition arrived :: "em_action list \<Rightarrow> uint8 list" where
  "arrived as = concat (map (\<lambda>a. case a of Arrive bs \<Rightarrow> bs | _ \<Rightarrow> []) as)"

definition parsed :: "(nat \<Rightarrow> uint8) \<Rightarrow> uint8 list \<Rightarrow> em_recv \<Rightarrow> bool" where
  "parsed junk all s \<longleftrightarrow> recv_ok junk s \<and> settled s \<and>
     (\<exists>c. all = c @ concat (segments s) \<and> frames junk c = (events s, pending s))"

lemma parsed_reads:
  assumes "parsed junk all s" and "reads junk s s'" and "recv_ok junk s'" and "settled s'"
  shows "parsed junk all s'"
proof -
  obtain c where c: "all = c @ concat (segments s)" "frames junk c = (events s, pending s)" using assms(1) by (auto simp: parsed_def)
  obtain bs es where r: "concat (segments s) = bs @ concat (segments s')" "events s' = events s @ es"
    "frames junk (pending s @ bs) = (es @ fst (frames junk (pending s')), snd (frames junk (pending s')))"
    using assms(2) unfolding reads_def by (metis append_Nil2)
  have "frames junk (c @ bs) = (events s', pending s')"
    using frames_append [of junk c bs] c(2) r(2,3) settled_frames [OF assms(3,4)] by simp
  then show ?thesis using c(1) r(1) assms(3,4) by (auto simp: parsed_def intro: exI [of _ "c @ bs"])
qed

lemma OnReceive_ok:
  assumes "recv_ok junk s" and "settled s"
  shows "\<exists>s'. OnReceive junk throttled 0 e s = Inr s' \<and> recv_ok junk s' \<and> settled s' \<and> reads junk s s'"
  using receive_loop_ok [of junk "s\<lparr>byConnected := ES_CONNECTED\<rparr>" throttled] assms
  by (auto simp: OnReceive_def intro: reads_cong)

lemma em_act_ok:
  assumes "parsed junk all s"
  shows "\<exists>s'. em_act junk throttled a s = Inr s' \<and> parsed junk (all @ arrived [a]) s'"
proof -
  have ok: "recv_ok junk s" "settled s" using assms by (simp_all add: parsed_def)
  obtain s' where s': "OnReceive junk throttled 0 False s = Inr s'" "parsed junk all s'"
    using OnReceive_ok [OF ok] parsed_reads [OF assms] by blast
  show ?thesis
  proof (cases a)
    case (Arrive bs)
    then show ?thesis using assms by (auto simp: em_act_def parsed_def arrived_def)
  next
    case Receive
    then show ?thesis using s' by (simp add: em_act_def arrived_def)
  next
    case Wake
    then show ?thesis using s' assms by (simp add: em_act_def arrived_def WakeIfPaused_def)
  next
    case (Budget t)
    then show ?thesis using assms by (simp add: em_act_def parsed_def arrived_def)
  qed
qed

lemma em_run_ok:
  "parsed junk all s \<Longrightarrow> \<exists>s'. em_run junk throttled as s = Inr s' \<and> parsed junk (all @ arrived as) s'"
proof (induction as arbitrary: all s)
  case Nil
  then show ?case by (simp add: arrived_def)
next
  case (Cons a as)
  obtain s1 where s1: "em_act junk throttled a s = Inr s1" "parsed junk (all @ arrived [a]) s1" using em_act_ok [OF Cons.prems] by blast
  obtain s' where "em_run junk throttled as s1 = Inr s'" "parsed junk ((all @ arrived [a]) @ arrived as) s'" using Cons.IH [OF s1(2)] by blast
  then show ?case using s1(1) by (simp add: arrived_def)
qed

lemma parsed_new: "parsed junk [] (new_em_recv n junk t)"
  by (simp add: parsed_def recv_ok_def recv_mid_def settled_def new_em_recv_def PACKET_HEADER_SIZE_def pending_def frames.simps)

text \<open>
  C7. However the network cuts a stream into segments, whenever the socket is told or woken and whatever the
  budget allows, the socket has at every moment delivered exactly the packets (and reported exactly the
  oversized headers and unknown protocols) of the bytes it has read so far, which are a prefix of the stream;
  what it holds is the beginning of the next packet, and no read or write leaves a buffer.
\<close>

theorem em_stream:
  "\<exists>s c. em_run junk throttled as (new_em_recv n junk t) = Inr s \<and> arrived as = c @ concat (segments s)
     \<and> frames junk c = (events s, pending s)"
  using em_run_ok [OF parsed_new, of junk throttled as n t] by (auto simp: parsed_def)

text \<open>
  C34. Receiving takes exactly the bytes it read out of a limited budget: what it reserved and did not
  read it gives back, so the budget falls by the number of bytes read and never below zero; a socket that is
  not throttled leaves it alone.
\<close>

theorem em_budget:
  "\<exists>s s'. em_run junk throttled as (new_em_recv n junk t) = Inr s \<and> OnReceive junk throttled 0 e s = Inr s' \<and>
     unread s' \<le> unread s \<and>
     m_bytesAvailable (thr s') = m_bytesAvailable (thr s) -
       (if throttled \<and> \<not> m_unlimited (thr s) then int (unread s) - int (unread s') else 0) \<and>
     (m_bytesAvailable (thr s) < 0 \<or> 0 \<le> m_bytesAvailable (thr s'))"
proof -
  obtain s where s: "em_run junk throttled as (new_em_recv n junk t) = Inr s" "parsed junk (arrived as) s"
    using em_run_ok [OF parsed_new, of junk throttled as n t] by auto
  obtain s' where s': "OnReceive junk throttled 0 e s = Inr s'" using OnReceive_ok s(2) unfolding parsed_def by blast
  have "s' = s \<or> charged throttled (s\<lparr>byConnected := ES_CONNECTED\<rparr>) s'"
    using s' receive_loop_charged by (auto simp: OnReceive_def split: if_splits)
  then have "unread s' \<le> unread s"
    "m_bytesAvailable (thr s') = m_bytesAvailable (thr s) -
       (if throttled \<and> \<not> m_unlimited (thr s) then int (unread s) - int (unread s') else 0)"
    "m_bytesAvailable (thr s) < 0 \<or> 0 \<le> m_bytesAvailable (thr s')"
    by (auto simp: charged_def unread_def not_le)
  then show ?thesis using s(1) s' by blast
qed

lemma OnReceive_progress:
  assumes "recv_ok junk s" "settled s" "byConnected s \<noteq> ES_DISCONNECTED" "has_budget throttled (thr s)"
    "segments s \<noteq> []" "[] \<notin> set (segments s)" "OnReceive junk throttled 0 e s = Inr s'"
  shows "unread s' < unread s"
  using receive_loop_progress [of junk "s\<lparr>byConnected := ES_CONNECTED\<rparr>" throttled s'] assms
  by (auto simp: OnReceive_def unread_def)

lemma unread_0: "[] \<notin> set (segments s) \<Longrightarrow> unread s = 0 \<Longrightarrow> segments s = []"
  by (cases "segments s") (auto simp: unread_def)

lemma receive_step_byConnected:
  assumes "receive_step junk throttled s = Inr (go, s')"
  shows "byConnected s' = byConnected s"
  using assms
proof (cases rule: receive_step_cases)
  case (no_data s1)
  then show ?thesis using prepare_read_frame [OF no_data(1)] after_read_frame [of 0 "s1\<lparr>pendingOnReceive := True\<rparr>" go s'] by auto
next
  case (got want g t bs rest s1)
  obtain s2 where s2: "store_read bs (s1\<lparr>thr := t, segments := rest\<rparr>) = Inr s2"
    and a: "after_read (length bs) ((if length bs < g then refund throttled (g - length bs) s2 else s2)\<lparr>pendingOnReceive := (length bs = g)\<rparr>) = (go, s')"
    using got(2) [symmetric] unfolding sum_bind_Inr by auto
  show ?thesis using after_read_frame [OF a] store_read_frame [OF s2] prepare_read_frame [of junk s "Some want" s1] got(1)
    by (auto simp: takes_bytes_def refund_def split: if_splits)
qed (auto dest: prepare_read_frame simp: refund_def)

lemma receive_loop_byConnected:
  "receive_loop junk throttled s = Inr s' \<Longrightarrow> byConnected s' = byConnected s"
proof (induction junk throttled s rule: receive_loop.induct)
  case (1 junk throttled s)
  obtain go s1 where st: "receive_step junk throttled s = Inr (go, s1)"
    using 1(2) by (simp add: receive_loop.simps [of junk throttled s] split: sum.splits prod.splits)
  show ?case
    using 1(1) [OF st refl] 1(2) st receive_step_byConnected [OF st]
    by (cases go) (simp_all add: receive_loop.simps [of junk throttled s])
qed

definition alive :: "em_recv \<Rightarrow> bool" where
  "alive s \<longleftrightarrow> byConnected s \<noteq> ES_DISCONNECTED \<and> [] \<notin> set (segments s)"

lemma alive_OnReceive:
  assumes "alive s" and "OnReceive junk throttled 0 e s = Inr s'"
  shows "alive s'"
  using assms receive_loop_byConnected [of junk throttled "s\<lparr>byConnected := ES_CONNECTED\<rparr>" s']
    receive_loop_segments [of junk throttled "s\<lparr>byConnected := ES_CONNECTED\<rparr>" s']
  by (simp add: alive_def OnReceive_def ES_CONNECTED_def ES_DISCONNECTED_def split: if_splits)

lemma alive_em_act: "alive s \<Longrightarrow> Arrive [] \<noteq> a \<Longrightarrow> em_act junk throttled a s = Inr s' \<Longrightarrow> alive s'"
  using alive_OnReceive [of s junk throttled False s']
  by (cases a) (auto simp: em_act_def WakeIfPaused_def alive_def split: if_splits)

lemma alive_em_run: "alive s \<Longrightarrow> Arrive [] \<notin> set as \<Longrightarrow> em_run junk throttled as s = Inr s' \<Longrightarrow> alive s'"
  by (induction as arbitrary: s) (auto simp: sum_bind_Inr dest: alive_em_act)

lemma em_run_append: "em_run junk throttled (as @ bs) s = sum_bind (em_run junk throttled as s) (em_run junk throttled bs)"
proof (induction as arbitrary: s)
  case (Cons a as)
  then show ?case by (cases "em_act junk throttled a s") simp_all
qed simp

definition open_budget :: "bool \<Rightarrow> em_recv \<Rightarrow> bool" where
  "open_budget throttled s \<longleftrightarrow> \<not> throttled \<or> m_unlimited (thr s)"

lemma receive_repeatedly:
  "parsed junk all s \<Longrightarrow> alive s \<Longrightarrow> open_budget throttled s \<Longrightarrow> unread s \<le> k \<Longrightarrow>
     \<exists>s'. em_run junk throttled (replicate k Receive) s = Inr s' \<and> parsed junk all s' \<and> segments s' = []"
proof (induction k arbitrary: s)
  case 0
  then show ?case using unread_0 [of s] by (simp add: alive_def)
next
  case (Suc k)
  obtain s1 where s1: "em_act junk throttled Receive s = Inr s1" "parsed junk all s1"
    using em_act_ok [OF Suc.prems(1), of throttled Receive] by (auto simp: arrived_def)
  then have r: "OnReceive junk throttled 0 False s = Inr s1" by (simp add: em_act_def)
  have al: "alive s1" by (rule alive_OnReceive [OF Suc.prems(2) r])
  have c: "s1 = s \<or> charged throttled (s\<lparr>byConnected := ES_CONNECTED\<rparr>) s1"
    using r receive_loop_charged by (auto simp: OnReceive_def split: if_splits)
  then have ob: "open_budget throttled s1" using Suc.prems(3) by (auto simp: open_budget_def charged_def)
  have "unread s1 \<le> k"
  proof (cases "segments s = []")
    case True
    have "unread s1 \<le> unread s" using c by (auto simp: charged_def unread_def)
    moreover have "unread s = 0" using True by (simp add: unread_def)
    ultimately show ?thesis by linarith
  next
    case False
    have "unread s1 < unread s"
      by (rule OnReceive_progress [OF _ _ _ _ False _ r]) (use Suc.prems in \<open>auto simp: parsed_def alive_def open_budget_def has_budget_def\<close>)
    then show ?thesis using Suc.prems(4) by simp
  qed
  from Suc.IH [OF s1(2) al ob this] show ?case using s1(1) by simp
qed

lemma parsed_thr: "parsed junk all (s\<lparr>thr := u\<rparr>) = parsed junk all s"
  by (simp add: parsed_def)

lemma em_run_delivers:
  assumes "Arrive [] \<notin> set as" and "\<not> throttled \<or> m_unlimited u" and "length (arrived as) \<le> k"
  shows "\<exists>s. em_run junk throttled (as @ Budget u # replicate k Receive) (new_em_recv n junk t) = Inr s
     \<and> segments s = [] \<and> frames junk (arrived as) = (events s, pending s)"
proof -
  obtain s1 where s1: "em_run junk throttled as (new_em_recv n junk t) = Inr s1" "parsed junk (arrived as) s1"
    using em_run_ok [OF parsed_new, of junk throttled as n t] by auto
  have "alive (new_em_recv n junk t)" by (simp add: alive_def new_em_recv_def ES_NOTCONNECTED_def ES_DISCONNECTED_def)
  then have al: "alive (s1\<lparr>thr := u\<rparr>)" using alive_em_run [OF _ assms(1) s1(1)] by (simp add: alive_def)
  have "unread s1 \<le> length (arrived as)" using s1(2) by (auto simp: parsed_def unread_def)
  then obtain s' where "em_run junk throttled (replicate k Receive) (s1\<lparr>thr := u\<rparr>) = Inr s'" "parsed junk (arrived as) s'" "segments s' = []"
    using receive_repeatedly [of junk "arrived as" "s1\<lparr>thr := u\<rparr>" throttled k] s1(2) al assms(2,3)
    by (auto simp: parsed_thr open_budget_def unread_def)
  then show ?thesis using s1(1) by (auto simp: em_run_append em_act_def parsed_def)
qed

text \<open>
  C33. Every packet that arrives is delivered: once the budget is open, as many calls of \<open>OnReceive\<close> as bytes
  have arrived hand over every packet of the stream and leave only the unfinished rest.
\<close>

theorem em_delivers:
  assumes "Arrive [] \<notin> set as" and "\<not> throttled \<or> m_unlimited u" and "length (arrived as) \<le> k"
  shows "\<exists>s. em_run junk throttled (as @ Budget u # replicate k Receive) (new_em_recv n junk t) = Inr s
     \<and> segments s = [] \<and> frames junk (arrived as) = (events s, pending s)"
  by (rule em_run_delivers [OF assms])

theorem em_delivers_witness:
  "\<exists>s. em_run (\<lambda>_. 0) True ([Arrive [0xE3, 2, 0, 0], Receive, Arrive [0, 7, 9]] @ Budget new_throttler # replicate 7 Receive)
         (new_em_recv 0 (\<lambda>_. 0) new_throttler) = Inr s
     \<and> segments s = [] \<and> frames (\<lambda>_. 0) (arrived [Arrive [0xE3, 2, 0, 0], Receive, Arrive [0, 7, 9]]) = (events s, pending s)"
  by (rule em_delivers) (simp_all add: new_throttler_def arrived_def)

end
