(* ===== verification/EM_Connection.thy ===== *)
theory EM_Connection
  imports EM_Send_Props EM_Stream
begin

text \<open>
  Two ends of a connection: what \<open>Send\<close> puts on the wire (\<open>EM_Send_Props\<close>) is what \<open>OnReceive\<close> parses
  (\<open>EM_Stream\<close>); and the packets of \<open>CPacket\<close>, their compression, and their bytes.
\<close>

section \<open>A packet and its bytes\<close>

definition payload_bytes :: "CPacket \<Rightarrow> uint8 list" where
  "payload_bytes p = take (unat (p_size p)) (data_or_null p)"

definition received :: "(nat \<Rightarrow> uint8) \<Rightarrow> CPacket \<Rightarrow> CPacket" where
  "received junk p = packet_received (GetHeader p) (payload_bytes p @ [junk (unat (p_size p))])"

text \<open>A packet that a peer accepts: not a part of a split packet, small enough, of a known protocol, its payload in its buffer.\<close>

definition deliverable :: "CPacket \<Rightarrow> bool" where
  "deliverable p \<longleftrightarrow> sendable p \<and> \<not> m_bSplitted p \<and> unat (p_size p) \<le> MAX_PACKET_SIZE \<and> valid_protocol (prot p) \<and>
     (completebuffer p \<noteq> None \<longrightarrow> pBuffer p = Inside)"

lemma packet_bytes_payload: "deliverable p \<Longrightarrow> packet_bytes p = GetHeader p @ payload_bytes p"
  by (auto simp: deliverable_def packet_bytes_def payload_bytes_def data_or_null_def GetDataBuffer_def split: option.splits)

lemma length_payload_bytes: "deliverable p \<Longrightarrow> length (payload_bytes p) = unat (p_size p)"
  using length_packet_bytes [of p] packet_bytes_payload [of p] by (simp add: deliverable_def)

lemma header_parts:
  "take 4 (drop 1 (GetHeader p)) = le_bytes 4 (p_size p + 1)" "GetHeader p ! 5 = opcode p" "GetHeader p ! 0 = prot p"
proof -
  show "take 4 (drop 1 (GetHeader p)) = le_bytes 4 (p_size p + 1)" by (simp add: GetHeader_def)
  show "GetHeader p ! 0 = prot p" by (simp add: GetHeader_def)
  have "GetHeader p = (prot p # le_bytes 4 (p_size p + 1)) @ [opcode p]" by (simp add: GetHeader_def)
  then show "GetHeader p ! 5 = opcode p" by (simp only: nth_append) simp
qed

lemma header_length: "(of_le (take 4 (drop 1 (GetHeader p))) :: uint32) = p_size p + 1"
  unfolding header_parts by (rule of_le_bytes) simp

lemma received_fields:
  "p_size (received junk p) = p_size p" "opcode (received junk p) = opcode p" "prot (received junk p) = prot p"
  "data_or_null (received junk p) = payload_bytes p @ [junk (unat (p_size p))]"
  using header_length [of p] header_parts [of p] by (simp_all add: received_def packet_received_def data_or_null_def GetDataBuffer_def)

lemma first_size_packet:
  assumes "deliverable p"
  shows "first_size (packet_bytes p @ bs) = unat (p_size p)"
proof -
  have n: "unat (p_size p) \<le> 2000000" using assms by (simp add: deliverable_def MAX_PACKET_SIZE_def)
  then have u: "unat (p_size p + 1) = unat (p_size p) + 1" by (subst unat_add_lem [THEN iffD1]) simp_all
  have h: "take 6 (packet_bytes p @ bs) = GetHeader p" using packet_bytes_payload [OF assms] by simp
  have "\<not> p_size p + 1 < 1" using u by (simp add: word_less_nat_alt)
  moreover have "\<not> 0x7ffffff0 \<le> p_size p + 1" using u n by (simp add: word_le_nat_alt)
  ultimately show ?thesis unfolding first_size_def h GetPacketSizeFromHeader_def header_length by (simp add: Let_def)
qed

lemma frames_packet:
  assumes "deliverable p"
  shows "frames junk (packet_bytes p @ bs) = add_event (PacketReceived (received junk p)) (frames junk bs)"
proof -
  note f = first_size_packet [OF assms, of "[]", simplified] and l = length_payload_bytes [OF assms] and b = packet_bytes_payload [OF assms]
  have "first_packet junk (packet_bytes p) = received junk p"
    unfolding first_packet_def f using b l by (simp add: received_def)
  moreover have "valid_protocol (prot (received junk p))" using assms received_fields by (simp add: deliverable_def)
  ultimately have "packet_event (first_packet junk (packet_bytes p)) = PacketReceived (received junk p)" by (simp add: packet_event_def)
  moreover have "frames junk (packet_bytes p @ bs) = add_event (packet_event (first_packet junk (packet_bytes p))) (frames junk bs)"
    using b l f assms by (intro frames_first) (simp_all add: deliverable_def)
  ultimately show ?thesis by simp
qed

lemma frames_packets:
  "\<forall>p \<in> set ps. deliverable p \<Longrightarrow> frames junk (concat (map packet_bytes ps)) = (map (\<lambda>p. PacketReceived (received junk p)) ps, [])"
  by (induction ps) (simp_all add: frames_packet add_event_def frames.simps [of junk "[]"])

section \<open>From queue to handler\<close>

text \<open>
  C6. Two sockets joined by a plain stream (without obfuscation), and packets that the receiver accepts (\<open>deliverable\<close>: of
  at most \<open>MAX_PACKET_SIZE\<close> = 2000000 bytes, with one of the known protocols, not split): at every moment, whatever either
  side has been called with and whatever has arrived of what was written, the packets that the receiver has handed over are the first of those that the
  sender took from its queues, in that order, each with the opcode, the protocol, the size and the payload it was
  posted with; the receiver has reported no error.
\<close>

theorem em_end_to_end:
  assumes "layer_ok y0" and "m_StreamCryptState y0 = ECS_NONE" and "net y0 = []"
    and "\<forall>a \<in> set as. limits_ok a" and "\<forall>p \<in> set (posted True as @ posted False as). deliverable p"
    and "send_run junk env as (new_em_send y0 now) = Inr s"
    and "arrived bs @ later = net (layer s)"
  shows "\<exists>r. em_run junk' throttled bs (new_em_recv n junk' t) = Inr r \<and>
     events r = map (\<lambda>p. PacketReceived (received junk' p)) (take (length (events r)) (map snd (taken s)))"
proof -
  let ?ps = "map snd (taken s)"
  have s: "net (layer s) @ current_rest s = enciphered y0 (taken_bytes s)" "map snd (filter fst (taken s)) @ m_control_queue s = posted True as"
    "map snd (filter (\<lambda>x. \<not> fst x) (taken s)) @ map snd (m_standard_queue s) = posted False as"
    using send_session [OF assms(1,4), of junk env now] assms(3,6) by auto
  have w: "net (layer s) @ current_rest s = concat (map packet_bytes ?ps)"
    using s(1) assms(2) by (simp add: enciphered_def taken_bytes_def comp_def)
  have "deliverable (snd x)" if "x \<in> set (taken s)" for x
  proof (cases "fst x")
    case True
    then have "snd x \<in> set (posted True as)" using that unfolding s(2) [symmetric] by auto
    then show ?thesis using assms(5) by simp
  next
    case False
    then have "snd x \<in> set (posted False as)" using that unfolding s(3) [symmetric] by auto
    then show ?thesis using assms(5) by simp
  qed
  then have f: "frames junk' (net (layer s) @ current_rest s) = (map (\<lambda>p. PacketReceived (received junk' p)) ?ps, [])"
    unfolding w by (intro frames_packets) auto
  obtain r where r: "em_run junk' throttled bs (new_em_recv n junk' t) = Inr r" "parsed junk' (arrived bs) r"
    using em_run_ok [OF parsed_new, of junk' throttled bs n t] by auto
  then obtain c where c: "arrived bs = c @ concat (segments r)" "frames junk' c = (events r, pending r)" by (auto simp: parsed_def)
  have "net (layer s) @ current_rest s = c @ (concat (segments r) @ later @ current_rest s)" using assms(7) c(1) by (metis append_assoc)
  then have "map (\<lambda>p. PacketReceived (received junk' p)) ?ps
      = events r @ fst (frames junk' (pending r @ concat (segments r) @ later @ current_rest s))"
    using f frames_append [of junk' c "concat (segments r) @ later @ current_rest s"] c(2) by (metis fst_conv snd_conv)
  then have "events r = take (length (events r)) (map (\<lambda>p. PacketReceived (received junk' p)) ?ps)" by (metis append_eq_conv_conj)
  then show ?thesis using r(1) by (auto simp: take_map)
qed

definition test_packet :: CPacket where
  "test_packet = \<lparr>p_size = 2, opcode = 9, prot = OP_EDONKEYPROT, m_bSplitted = False, m_bLastSplitted = False, m_bPacked = False,
     m_bFromPF = False, completebuffer = None, pBuffer = Owned [1, 2]\<rparr>"

lemma test_packet_ok: "deliverable test_packet" "sendable test_packet"
  by (simp_all add: test_packet_def deliverable_def sendable_def data_or_null_def GetDataBuffer_def valid_protocol_def MAX_PACKET_SIZE_def)

definition test_posts :: "send_action list" where
  "test_posts = [Post 0 True 0 test_packet, Writable, Post 1 False 2 test_packet, Writes 5 100 10 False [blocked] [3], Writable, Needed 9]"

lemma test_posts_ok: "\<forall>a \<in> set test_posts. limits_ok a" "\<forall>p \<in> set (posted True test_posts @ posted False test_posts). deliverable p"
  by (simp_all add: test_posts_def limits_ok_def test_packet_ok posted_def)

theorem em_end_to_end_witness:
  "\<exists>s. send_run (\<lambda>_. 0) idle_env test_posts (new_em_send idle_layer 0) = Inr s \<and>
     (\<exists>r. em_run (\<lambda>_. 0) True [Arrive (net (layer s)), Receive] (new_em_recv 0 (\<lambda>_. 0) new_throttler) = Inr r \<and>
       events r = map (\<lambda>p. PacketReceived (received (\<lambda>_. 0) p)) (take (length (events r)) (map snd (taken s))))"
proof -
  have l: "layer_ok idle_layer" "m_StreamCryptState idle_layer = ECS_NONE" "net idle_layer = []" by (simp_all add: idle_layer_ok)
  obtain s where s: "send_run (\<lambda>_. 0) idle_env test_posts (new_em_send idle_layer 0) = Inr s"
    using send_session [OF l(1) test_posts_ok(1)] by blast
  have a: "arrived [Arrive (net (layer s)), Receive] @ [] = net (layer s)" by (simp add: arrived_def)
  show ?thesis using em_end_to_end [OF l test_posts_ok s a, of "\<lambda>_. 0" True 0 new_throttler] s by blast
qed

section \<open>Compression\<close>

definition zlib :: "(nat \<Rightarrow> uint8 list \<Rightarrow> uint8 list option) \<Rightarrow> (nat \<Rightarrow> uint8 list \<Rightarrow> uint8 list option) \<Rightarrow> bool" where
  "zlib compress uncompress \<longleftrightarrow>
     (\<forall>n d z. compress n d = Some z \<longrightarrow> length z \<le> n \<and> (\<forall>m. uncompress m z = (if length d \<le> m then Some d else None)))"

lemma data_or_null_prot [simp]: "data_or_null (p\<lparr>prot := x\<rparr>) = data_or_null p"
  "data_or_null (p\<lparr>p_size := n\<rparr>) = data_or_null p" "data_or_null (p\<lparr>m_bPacked := b\<rparr>) = data_or_null p"
  by (cases "pBuffer p"; cases "completebuffer p"; simp add: data_or_null_def GetDataBuffer_def)+

lemma payload_fetch:
  assumes "deliverable p"
  shows "fetch 0 (unat (p_size p)) (data_or_null p) = Inr (payload_bytes p)"
  using length_payload_bytes [OF assms] by (simp add: fetch_def payload_bytes_def)

lemma poke_payload:
  assumes "deliverable p" and "length d < unat (p_size p)"
  shows "\<exists>q. poke_data 0 d p = Inr q \<and> p_size q = p_size p \<and> prot q = prot p \<and> opcode q = opcode p \<and> m_bSplitted q = m_bSplitted p
     \<and> (completebuffer q \<noteq> None \<longrightarrow> pBuffer q = Inside) \<and> (completebuffer q = None \<longleftrightarrow> completebuffer p = None)
     \<and> length d \<le> length (data_or_null q) \<and> take (length d) (data_or_null q) = d
     \<and> (\<forall>a. completebuffer q = Some a \<longrightarrow> (\<exists>b. completebuffer p = Some b \<and> length a = length b))"
proof (cases "completebuffer p")
  case None
  have l: "unat (p_size p) \<le> length (data_or_null p)" using assms(1) None by (simp add: deliverable_def sendable_def)
  then obtain a where a: "pBuffer p = Owned a" "length d < length a" using None assms(2)
    by (cases "pBuffer p") (auto simp: data_or_null_def GetDataBuffer_def)
  then show ?thesis using None by (auto simp: poke_data_def poke_def data_or_null_def GetDataBuffer_def)
next
  case (Some a)
  then have "pBuffer p = Inside" "unat (p_size p) + 6 \<le> length a" using assms(1) by (auto simp: deliverable_def sendable_def)
  then show ?thesis using Some assms(2) by (auto simp: poke_data_def poke_def data_or_null_def GetDataBuffer_def min_def)
qed

text \<open>
  C39. A packet that is packed, sent and unpacked is the packet again, with the protocol \<open>OP_EMULEPROT\<close>, exactly when its
  payload fits both the receiver's limit and ten times the packed size plus 300; a packet that compresses better than
  that is packed and sent all the same, and the receiver refuses it.
\<close>

theorem packet_pack:
  assumes "zlib compress uncompress" and "deliverable p"
  shows "\<exists>q. PackPacket compress p = Inr q \<and> deliverable q \<and> opcode q = opcode p \<and>
     (q = p \<or>
      (prot q = OP_PACKEDPROT \<and> p_size q < p_size p \<and>
       (\<exists>r. UnPackPacket uncompress junk limit (received junk q) =
             Inr (unat (p_size p) \<le> unat limit \<and> unat (p_size p) \<le> 10 * unat (p_size q) + 300, r) \<and>
           (unat (p_size p) \<le> unat limit \<and> unat (p_size p) \<le> 10 * unat (p_size q) + 300 \<longrightarrow>
             p_size r = p_size p \<and> opcode r = opcode p \<and> prot r = OP_EMULEPROT \<and> take (unat (p_size r)) (data_or_null r) = payload_bytes p))))"
proof -
  let ?n = "unat (p_size p)"
  let ?d = "payload_bytes p"
  have f: "fetch 0 ?n (data_or_null p) = Inr ?d" by (rule payload_fetch [OF assms(2)])
  show ?thesis
  proof (cases "compress (unat (p_size p + 300)) ?d")
    case None
    then have "PackPacket compress p = Inr p" using f by (simp add: PackPacket_def)
    then show ?thesis using assms(2) by blast
  next
    case (Some z)
    show ?thesis
    proof (cases "?n \<le> length z")
      case True
      then have "PackPacket compress p = Inr p" using f Some by (simp add: PackPacket_def)
      then show ?thesis using assms(2) by blast
    next
      case False
      let ?p = "p\<lparr>prot := OP_PACKEDPROT\<rparr>"
      have k: "prot p \<noteq> OP_KADEMLIAHEADER" using assms(2)
        by (auto simp: deliverable_def valid_protocol_def OP_KADEMLIAHEADER_def OP_EDONKEYPROT_def OP_PACKEDPROT_def OP_EMULEPROT_def
            OP_ED2KV2HEADER_def OP_ED2KV2PACKEDPROT_def)
      have dp: "deliverable ?p" using assms(2) by (cases "completebuffer p") (simp_all add: deliverable_def sendable_def valid_protocol_def)
      obtain q0 where q0: "poke_data 0 z ?p = Inr q0" "p_size q0 = p_size p" "prot q0 = OP_PACKEDPROT" "opcode q0 = opcode p" "\<not> m_bSplitted q0"
        "completebuffer q0 \<noteq> None \<longrightarrow> pBuffer q0 = Inside" "completebuffer q0 = None \<longleftrightarrow> completebuffer p = None"
        "length z \<le> length (data_or_null q0)" "take (length z) (data_or_null q0) = z"
        "\<forall>a. completebuffer q0 = Some a \<longrightarrow> (\<exists>b. completebuffer p = Some b \<and> length a = length b)"
        using poke_payload [OF dp, of z] False dp by (auto simp: deliverable_def)
      let ?q = "q0\<lparr>m_bPacked := True, p_size := of_nat (length z)\<rparr>"
      have n: "?n \<le> 2000000" using assms(2) by (simp add: deliverable_def MAX_PACKET_SIZE_def)
      then have zs: "unat (of_nat (length z) :: uint32) = length z" using False by (simp add: unat_of_nat)
      have pk: "PackPacket compress p = Inr ?q" using f Some False k q0(1) by (simp add: PackPacket_def)
      have dq: "deliverable ?q" using q0 assms(2) False zs n
        by (auto simp: deliverable_def sendable_def valid_protocol_def MAX_PACKET_SIZE_def split: option.splits)
      have pl: "payload_bytes ?q = z" using q0(9) zs by (simp add: payload_bytes_def)
      have lt: "p_size ?q < p_size p" using False zs by (simp add: word_less_nat_alt)
      let ?r = "received junk ?q"
      have rf: "p_size ?r = of_nat (length z)" "opcode ?r = opcode p" "data_or_null ?r = z @ [junk (length z)]"
        using received_fields [of junk ?q] q0(4) pl zs by simp_all
      have fr: "fetch 0 (unat (p_size ?r)) (data_or_null ?r) = Inr z" using rf zs by (simp add: fetch_def)
      have nn: "unat (p_size ?r * 10 + 300) = 10 * length z + 300"
      proof -
        have "p_size ?r * 10 + 300 = of_nat (10 * length z + 300)" using rf(1) by simp
        moreover have "unat (of_nat (10 * length z + 300) :: uint32) = 10 * length z + 300" using False n by (subst unat_of_nat) (simp add: mod_less)
        ultimately show ?thesis by simp
      qed
      let ?new = "if limit < p_size ?r * 10 + 300 then limit else p_size ?r * 10 + 300"
      have new: "unat ?new = min (unat limit) (10 * length z + 300)" using nn by (simp add: word_less_nat_alt min_def)
      have un: "uncompress m z = (if length ?d \<le> m then Some ?d else None)" for m using assms(1) Some by (simp add: zlib_def)
      have ld: "length ?d = ?n" by (rule length_payload_bytes [OF assms(2)])
      show ?thesis
      proof (cases "?n \<le> unat limit \<and> ?n \<le> 10 * unat (p_size ?q) + 300")
        case True
        let ?u = "?r\<lparr>p_size := of_nat ?n, pBuffer := Owned (?d @ drop ?n (new_array junk (unat ?new))), prot := OP_EMULEPROT\<rparr>"
        have le: "?n \<le> unat ?new" using True new zs by simp
        have po: "poke 0 ?d (new_array junk (unat ?new)) = Inr (?d @ drop ?n (new_array junk (unat ?new)))"
          using le ld by (simp add: poke_def del: upt_Suc)
        have cp: "completebuffer ?r = None" by (simp add: received_def packet_received_def)
        have "UnPackPacket uncompress junk limit ?r = Inr (True, ?u)"
          unfolding UnPackPacket_def Let_def fr using un le ld po by simp
        moreover have "take (unat (p_size ?u)) (data_or_null ?u) = ?d" using ld cp by (simp add: data_or_null_def GetDataBuffer_def)
        ultimately show ?thesis using pk dq q0(3,4) lt True rf(2) by (intro exI [of _ ?q]) (auto simp: intro!: exI [of _ ?u])
      next
        case F: False
        then have "\<not> ?n \<le> unat ?new" using new zs by auto
        then have "UnPackPacket uncompress junk limit ?r = Inr (False, ?r)"
          unfolding UnPackPacket_def Let_def fr using un ld by simp
        then show ?thesis using pk dq q0(3,4) lt F by (intro exI [of _ ?q]) (auto intro!: exI [of _ ?r])
      qed
    qed
  qed
qed

text \<open>
  What \<open>PacketReceived\<close> is given owns one byte more than its size, unless the length field of the header is 0 or at
  least \<open>0x7ffffff0\<close>: then the size is the length field less one, all but 4 GB or 2 GB, and the buffer holds a single byte.
\<close>

theorem received_packet_size:
  assumes "6 + first_size bs \<le> length bs"
  shows "unat (p_size (first_packet junk bs)) + 1 = length (data_or_null (first_packet junk bs)) \<longleftrightarrow>
     1 \<le> (of_le (take 4 (drop 1 bs)) :: uint32) \<and> of_le (take 4 (drop 1 bs)) < (0x7ffffff0 :: uint32)"
proof -
  define L where "L = (of_le (take 4 (drop 1 bs)) :: uint32)"
  have "take 4 (drop 1 (take 6 bs)) = take 4 (drop 1 bs)" by (simp add: drop_take)
  then have h: "of_le (take 4 (drop 1 (take 6 bs))) = L" by (simp only: L_def)
  have ps: "p_size (first_packet junk bs) = L - 1" by (simp add: first_packet_def packet_received_def h del: One_nat_def)
  have dl: "length (data_or_null (first_packet junk bs)) = first_size bs + 1"
    using assms by (simp add: first_packet_def packet_received_def data_or_null_def GetDataBuffer_def)
  have fs: "first_size bs = (if L < 1 \<or> 0x7ffffff0 \<le> L then 0 else unat (L - 1))"
    unfolding first_size_def GetPacketSizeFromHeader_def h by (simp add: Let_def)
  have "unat (L - 1) = first_size bs \<longleftrightarrow> 1 \<le> L \<and> L < 0x7ffffff0"
  proof (cases "L < 1 \<or> 0x7ffffff0 \<le> L")
    case False
    then have "1 \<le> L \<and> L < 0x7ffffff0" by (simp only: de_Morgan_disj not_less not_le)
    then show ?thesis using fs unfolding if_not_P [OF False] by simp
  next
    case True
    have "unat (L - 1) \<noteq> 0"
    proof
      assume "unat (L - 1) = 0"
      then have "L = 1" by (simp add: unat_eq_0)
      then show False using True by (simp add: word_le_nat_alt)
    qed
    then show ?thesis using fs True by auto
  qed
  then show ?thesis unfolding ps dl L_def [symmetric] by simp
qed

theorem received_packet_size_witness:
  "unat (p_size (first_packet (\<lambda>_. 0) [0xE3, 0, 0, 0, 0, 1])) + 1 = length (data_or_null (first_packet (\<lambda>_. 0) [0xE3, 0, 0, 0, 0, 1])) \<longleftrightarrow>
     1 \<le> (of_le (take 4 (drop 1 [0xE3, 0, 0, 0, 0, 1])) :: uint32) \<and> of_le (take 4 (drop 1 [0xE3, 0, 0, 0, 0, 1])) < (0x7ffffff0 :: uint32)"
  by (rule received_packet_size) (simp add: first_size_def GetPacketSizeFromHeader_def of_le_def)

definition zero_compress :: "nat \<Rightarrow> uint8 list \<Rightarrow> uint8 list option" where
  "zero_compress n d = (if 1 \<le> n \<and> length d < 256 \<and> d = replicate (length d) 0 then Some [of_nat (length d)] else None)"

definition zero_uncompress :: "nat \<Rightarrow> uint8 list \<Rightarrow> uint8 list option" where
  "zero_uncompress m z = (if length z = 1 \<and> unat (hd z) \<le> m then Some (replicate (unat (hd z)) 0) else None)"

lemma zlib_zero: "zlib zero_compress zero_uncompress"
  by (auto simp: zlib_def zero_compress_def zero_uncompress_def unat_of_nat)

definition test_zeros :: CPacket where
  "test_zeros = test_packet\<lparr>p_size := 20, pBuffer := Owned (replicate 20 0)\<rparr>"

theorem packet_pack_witness:
  "\<exists>q. PackPacket zero_compress test_zeros = Inr q \<and> deliverable q \<and> opcode q = opcode test_zeros \<and>
     (q = test_zeros \<or>
      (prot q = OP_PACKEDPROT \<and> p_size q < p_size test_zeros \<and>
       (\<exists>r. UnPackPacket zero_uncompress (\<lambda>_. 0) 1000 (received (\<lambda>_. 0) q) =
             Inr (unat (p_size test_zeros) \<le> unat (1000 :: uint32) \<and> unat (p_size test_zeros) \<le> 10 * unat (p_size q) + 300, r) \<and>
           (unat (p_size test_zeros) \<le> unat (1000 :: uint32) \<and> unat (p_size test_zeros) \<le> 10 * unat (p_size q) + 300 \<longrightarrow>
             p_size r = p_size test_zeros \<and> opcode r = opcode test_zeros \<and> prot r = OP_EMULEPROT
             \<and> take (unat (p_size r)) (data_or_null r) = payload_bytes test_zeros))))"
  by (rule packet_pack [OF zlib_zero])
    (simp add: test_zeros_def test_packet_def deliverable_def sendable_def data_or_null_def GetDataBuffer_def valid_protocol_def MAX_PACKET_SIZE_def)

end
