(* ===== verification/Crypt_Handshake.thy ===== *)
theory Crypt_Handshake
  imports Crypt_Stream
begin

text \<open>
  The handshake of two clients: \<open>SetConnectionEncryption\<close> and \<open>OnSend\<close> on one side, \<open>Read\<close> on both, whatever the
  pieces in which the bytes arrive.
\<close>

section \<open>The receive buffer\<close>

text \<open>
  \<open>s\<close> is \<open>t\<close> with a receive buffer that holds \<open>c\<close>, while bytes are collected and before the \<open>switch\<close>; what \<open>Read\<close>
  notes about its last call does not matter.
\<close>

definition holds :: "crypt_socket \<Rightarrow> uint8 list \<Rightarrow> bool \<Rightarrow> bool \<Rightarrow> rc4_key \<Rightarrow> nat \<Rightarrow> crypt_socket \<Rightarrow> bool" where
  "holds t c enc hk k pos s \<longleftrightarrow>
     (\<exists>f n b. s = t\<lparr>m_nObfusicationBytesReceived := n, m_bFullReceive := b, m_pfiReceiveBuffer := \<lparr>mem = f, m_encrypted = enc, m_hasKey = hk, m_key = k\<rparr>\<rparr> \<and> growable f \<and> contents f = c \<and> m_position f = pos)"

lemma holdsI:
  "growable f \<Longrightarrow> contents f = c \<Longrightarrow> m_position f = pos \<Longrightarrow>
     holds t c enc hk k pos (t\<lparr>m_nObfusicationBytesReceived := n, m_bFullReceive := b, m_pfiReceiveBuffer := \<lparr>mem = f, m_encrypted = enc, m_hasKey = hk, m_key = k\<rparr>\<rparr>)"
  unfolding holds_def by blast

lemma holdsE:
  assumes "holds t c enc hk k pos s"
  obtains f n b where "s = t\<lparr>m_nObfusicationBytesReceived := n, m_bFullReceive := b, m_pfiReceiveBuffer := \<lparr>mem = f, m_encrypted = enc, m_hasKey = hk, m_key = k\<rparr>\<rparr>" "growable f" "contents f = c" "m_position f = pos"
  using assms unfolding holds_def by blast

lemma recv_puts:
  assumes "holds t c enc hk k (length c) s" and "puts m bs"
  shows "\<exists>s'. recv_op (buf_io m) s = (Inr (), s') \<and> holds t (c @ bs) enc hk k (length c + length bs) s'"
proof -
  obtain f n b where f: "s = t\<lparr>m_nObfusicationBytesReceived := n, m_bFullReceive := b, m_pfiReceiveBuffer := \<lparr>mem = f, m_encrypted = enc, m_hasKey = hk, m_key = k\<rparr>\<rparr>" "growable f" "contents f = c" "m_position f = length c"
    using holdsE [OF assms(1)] .
  have "m_position f \<le> m_fileSize f" using f length_contents [of f] by (simp add: growable_def)
  then obtain f' where f': "m f = (Inr (), f')" "wrote f bs f'" using putsD [OF assms(2) f(2)] by blast
  then show ?thesis using f by (auto simp: recv_op_def buf_io_def wrote_def intro!: holdsI)
qed

lemma recv_gets:
  assumes "holds t (a @ bs @ rest) enc hk k (length a) s" and "gets m bs x"
  shows "\<exists>s'. recv_op (buf_io m) s = (Inr x, s') \<and> holds t (a @ bs @ rest) enc hk k (length a + length bs) s'"
proof -
  obtain f n b where f: "s = t\<lparr>m_nObfusicationBytesReceived := n, m_bFullReceive := b, m_pfiReceiveBuffer := \<lparr>mem = f, m_encrypted = enc, m_hasKey = hk, m_key = k\<rparr>\<rparr>" "growable f"
    "contents f = a @ bs @ rest" "m_position f = length a" using holdsE [OF assms(1)] .
  then have "m f = (Inr x, f\<lparr>m_position := length a + length bs\<rparr>)" by (intro getsD [OF assms(2)]) (simp_all add: growable_def)
  then show ?thesis using f by (auto simp: recv_op_def buf_io_def growable_def mem_ok_def contents_def intro!: holdsI)
qed

lemma recv_Encrypt:
  assumes "holds t c enc True k pos s"
  shows "\<exists>s'. recv_op Encrypt s = (Inr (), s') \<and> holds t (fst (RC4Crypt c k)) True True (rc4_discard (length c) k) pos s'"
proof -
  obtain f n b where f: "s = t\<lparr>m_nObfusicationBytesReceived := n, m_bFullReceive := b, m_pfiReceiveBuffer := \<lparr>mem = f, m_encrypted = enc, m_hasKey = True, m_key = k\<rparr>\<rparr>" "growable f"
    "contents f = c" "m_position f = pos" using holdsE [OF assms] .
  have l: "length (fst (RC4Crypt c k)) = m_fileSize f" using length_contents [of f] f by (simp add: growable_def)
  define g where "g = f\<lparr>m_buffer := fst (RC4Crypt c k) @ drop (m_fileSize f) (m_buffer f)\<rparr>"
  have "growable g" "contents g = fst (RC4Crypt c k)" "m_position g = pos"
    using f l by (simp_all add: g_def growable_def mem_ok_def contents_def)
  moreover have "recv_op Encrypt s = (Inr (), t\<lparr>m_nObfusicationBytesReceived := n, m_bFullReceive := b, m_pfiReceiveBuffer := \<lparr>mem = g, m_encrypted = True, m_hasKey = True, m_key = rc4_discard (length c) k\<rparr>\<rparr>)"
    using f by (simp add: recv_op_def Encrypt_def buf_crypt_def g_def snd_RC4Crypt)
  ultimately show ?thesis by (auto intro!: holdsI)
qed

lemma recv_seek:
  assumes "holds t c enc hk k pos s"
  shows "\<exists>s'. recv_op (buf_io (io_bind (SeekIO 0 FromStart) (\<lambda>_. io_return ()))) s = (Inr (), s') \<and> holds t c enc hk k 0 s'"
proof -
  obtain f n b where f: "s = t\<lparr>m_nObfusicationBytesReceived := n, m_bFullReceive := b, m_pfiReceiveBuffer := \<lparr>mem = f, m_encrypted = enc, m_hasKey = hk, m_key = k\<rparr>\<rparr>" "growable f"
    "contents f = c" "m_position f = pos" using holdsE [OF assms] .
  then show ?thesis
    by (auto intro!: holdsI simp: recv_op_def buf_io_def SeekIO_def doSeek_def io_bind_def io_return_def growable_def mem_ok_def contents_def)
qed

lemma recv_reset:
  assumes "holds t c enc hk k pos s"
  shows "holds t [] False hk k 0 (s\<lparr>m_pfiReceiveBuffer := buf_reset (m_pfiReceiveBuffer s)\<rparr>)"
proof -
  obtain f n b where f: "s = t\<lparr>m_nObfusicationBytesReceived := n, m_bFullReceive := b, m_pfiReceiveBuffer := \<lparr>mem = f, m_encrypted = enc, m_hasKey = hk, m_key = k\<rparr>\<rparr>" "growable f"
    "contents f = c" "m_position f = pos" using holdsE [OF assms] .
  then show ?thesis by (auto simp: buf_reset_def ResetData_def growable_def mem_ok_def contents_def intro!: holdsI)
qed

lemma holds_state:
  assumes "holds t c enc hk k pos s"
  shows "m_NegotiatingState s = m_NegotiatingState t" "m_nReceiveBytesWanted s = m_nReceiveBytesWanted t"
    "m_StreamCryptState s = m_StreamCryptState t" "m_cryptDHA s = m_cryptDHA t" "m_pfiSendBuffer s = m_pfiSendBuffer t" "net s = net t"
  using assms by (auto simp: holds_def)

definition noted :: "(uint8 list \<Rightarrow> nat) \<Rightarrow> uint8 list \<Rightarrow> crypt_socket \<Rightarrow> crypt_socket" where
  "noted room bs s = s\<lparr>m_nObfusicationBytesReceived := length bs, m_bFullReceive := (length bs = room bs)\<rparr>"

lemma holds_noted: "holds t c enc hk k pos s \<Longrightarrow> holds t c enc hk k pos (noted room bs s)"
proof -
  assume "holds t c enc hk k pos s"
  then obtain f n b where f: "s = t\<lparr>m_nObfusicationBytesReceived := n, m_bFullReceive := b, m_pfiReceiveBuffer := \<lparr>mem = f, m_encrypted = enc, m_hasKey = hk, m_key = k\<rparr>\<rparr>"
    "growable f" "contents f = c" "m_position f = pos" by (rule holdsE)
  have "noted room bs s = t\<lparr>m_nObfusicationBytesReceived := length bs, m_bFullReceive := (length bs = room bs),
      m_pfiReceiveBuffer := \<lparr>mem = f, m_encrypted = enc, m_hasKey = hk, m_key = k\<rparr>\<rparr>" using f(1) by (simp add: noted_def)
  then show ?thesis using holdsI [OF f(2-4)] by simp
qed

lemma holds_mod:
  assumes "holds t c enc hk k pos s" and "\<And>r n b. g (t\<lparr>m_nObfusicationBytesReceived := n, m_bFullReceive := b, m_pfiReceiveBuffer := r\<rparr>) =
       (g t)\<lparr>m_nObfusicationBytesReceived := n, m_bFullReceive := b, m_pfiReceiveBuffer := r\<rparr>"
  shows "holds (g t) c enc hk k pos (g s)"
  using assms(1) unfolding holds_def by (elim exE conjE) (auto simp: assms(2))

section \<open>One stage\<close>

definition raw :: "ENegotiatingState \<Rightarrow> bool" where
  "raw st \<longleftrightarrow> st = ONS_BASIC_CLIENTA_RANDOMPART \<or> st = ONS_BASIC_SERVER_DHANSWER"

definition plain :: "bool \<Rightarrow> uint8 list \<Rightarrow> rc4_key \<Rightarrow> uint8 list" where
  "plain is_raw c k = (if is_raw then c else fst (RC4Crypt c k))"

definition key_after :: "bool \<Rightarrow> uint8 list \<Rightarrow> rc4_key \<Rightarrow> rc4_key" where
  "key_after is_raw c k = (if is_raw then k else rc4_discard (length c) k)"

lemma fill_ok:
  assumes "holds t c False hk k pos s" and "raw (m_NegotiatingState t) \<or> hk"
  shows "\<exists>s'. negotiate_fill s = (Inr (), s') \<and>
     holds t (plain (raw (m_NegotiatingState t)) c k) (\<not> raw (m_NegotiatingState t)) hk (key_after (raw (m_NegotiatingState t)) c k) 0 s'"
proof (cases "raw (m_NegotiatingState t)")
  case True
  then show ?thesis using recv_seek [OF assms(1)] holds_state [OF assms(1)]
    by (auto simp: negotiate_fill_def raw_def cs_seq_def cs_bind_def cs_return_def plain_def key_after_def)
next
  case False
  then have hk using assms(2) by simp
  then obtain s1 where s1: "recv_op Encrypt s = (Inr (), s1)" "holds t (fst (RC4Crypt c k)) True True (rc4_discard (length c) k) pos s1"
    using recv_Encrypt [of t c False k pos s] assms(1) by auto
  then show ?thesis using recv_seek [OF s1(2)] False holds_state [OF assms(1)] \<open>hk\<close>
    by (auto simp: negotiate_fill_def raw_def cs_seq_def cs_bind_def cs_return_def plain_def key_after_def)
qed

definition collects :: "crypt_socket \<Rightarrow> uint8 list \<Rightarrow> bool \<Rightarrow> rc4_key \<Rightarrow> crypt_socket \<Rightarrow> bool" where
  "collects t c hk k s \<longleftrightarrow> holds t c False hk k (length c) s \<and> m_NegotiatingState t \<noteq> ONS_COMPLETE \<and> m_NegotiatingState t \<noteq> ONS_BASIC_SERVER_DELAYEDSENDING
     \<and> m_StreamCryptState t = ECS_NEGOTIATING \<and> 0 < m_nReceiveBytesWanted t \<and> m_nReceiveBytesWanted t \<le> 512 \<and> (raw (m_NegotiatingState t) \<or> hk)"

lemma turn_partial:
  assumes "collects t c hk k s" and "length bs < m_nReceiveBytesWanted t"
  shows "\<exists>s'. negotiate_turn env n bs s = (Inr (Some (int (n + length bs))), s') \<and>
     collects (t\<lparr>m_nReceiveBytesWanted := m_nReceiveBytesWanted t - length bs\<rparr>) (c @ bs) hk k s'"
proof -
  have h: "holds t c False hk k (length c) s" using assms(1) by (simp add: collects_def)
  obtain s1 where s1: "recv_op (buf_io (WriteIO bs)) s = (Inr (), s1)" "holds t (c @ bs) False hk k (length (c @ bs)) s1"
    using recv_puts [OF h puts_WriteIO] by auto
  let ?g = "\<lambda>s :: crypt_socket. s\<lparr>m_nReceiveBytesWanted := m_nReceiveBytesWanted s - length bs\<rparr>"
  have h2: "holds (?g t) (c @ bs) False hk k (length (c @ bs)) (?g s1)" by (rule holds_mod [OF s1(2)]) simp
  show ?thesis
    using assms h2 s1(1) holds_state [OF h]
    by (intro exI [of _ "?g s1"]) (auto simp: negotiate_turn_def collects_def cs_seq_def cs_bind_def cs_mod_def cs_return_def Let_def min_def)
qed

lemma turn_full:
  assumes "collects t c hk k s" and "m_nReceiveBytesWanted t = w" and "w \<le> length bs"
  obtains s1 where "holds (t\<lparr>m_nReceiveBytesWanted := 0\<rparr>) (plain (raw (m_NegotiatingState t)) (c @ take w bs) k)
       (\<not> raw (m_NegotiatingState t)) hk (key_after (raw (m_NegotiatingState t)) (c @ take w bs) k) 0 s1"
    and "\<And>s2. negotiate_switch env s1 = (Inr None, s2) \<Longrightarrow>
       negotiate_turn env n bs s = (Inr None, s2\<lparr>m_pfiReceiveBuffer := buf_reset (m_pfiReceiveBuffer s2)\<rparr>)"
proof -
  have h: "holds t c False hk k (length c) s" using assms(1) by (simp add: collects_def)
  obtain s1 where s1: "recv_op (buf_io (WriteIO (take w bs))) s = (Inr (), s1)" "holds t (c @ take w bs) False hk k (length (c @ take w bs)) s1"
    using recv_puts [OF h puts_WriteIO [of "take w bs"]] unfolding length_append by blast
  let ?g = "\<lambda>s :: crypt_socket. s\<lparr>m_nReceiveBytesWanted := m_nReceiveBytesWanted s - w\<rparr>"
  have h2: "holds (?g t) (c @ take w bs) False hk k (length (c @ take w bs)) (?g s1)" by (rule holds_mod [OF s1(2)]) simp
  moreover have "raw (m_NegotiatingState t) \<or> hk" using assms(1) by (simp add: collects_def)
  ultimately obtain s2 where s2: "negotiate_fill (?g s1) = (Inr (), s2)"
    "holds (?g t) (plain (raw (m_NegotiatingState t)) (c @ take w bs) k)
       (\<not> raw (m_NegotiatingState t)) hk (key_after (raw (m_NegotiatingState t)) (c @ take w bs) k) 0 s2"
    using fill_ok [OF h2] by auto
  show thesis
  proof (rule that [of s2])
    show "holds (t\<lparr>m_nReceiveBytesWanted := 0\<rparr>) (plain (raw (m_NegotiatingState t)) (c @ take w bs) k)
       (\<not> raw (m_NegotiatingState t)) hk (key_after (raw (m_NegotiatingState t)) (c @ take w bs) k) 0 s2" using s2(2) assms(2) by simp
    fix s3 assume "negotiate_switch env s2 = (Inr None, s3)"
    then show "negotiate_turn env n bs s = (Inr None, s3\<lparr>m_pfiReceiveBuffer := buf_reset (m_pfiReceiveBuffer s3)\<rparr>)"
      using assms s1(1) s2(1) holds_state [OF h]
      by (auto simp: negotiate_turn_def collects_def cs_seq_def cs_bind_def cs_mod_def cs_return_def Let_def min_def)
  qed
qed

section \<open>Pieces\<close>

primrec handshake_reads :: "(uint8 list \<Rightarrow> nat) \<Rightarrow> crypt_env \<Rightarrow> uint8 list list \<Rightarrow> crypt_socket \<Rightarrow> crypt_socket option" where
  "handshake_reads room env [] s = Some s"
| "handshake_reads room env (p # ps) s =
     (case crypt_Read env (room p) (Some p) s of
        (Inr (Some out), s') \<Rightarrow> if out = [] then handshake_reads room env ps s' else None
      | _ \<Rightarrow> None)"

lemma crypt_Read_negotiating:
  assumes "m_StreamCryptState s = ECS_NEGOTIATING" and "p \<noteq> []" and "Negotiate env p (noted room p s) = (Inr (int (length p)), s')"
  shows "crypt_Read env (room p) (Some p) s = (Inr (Some []), s')"
  using assms by (simp add: crypt_Read_def noted_def cs_bind_def Let_def)

text \<open>Whatever the pieces, \<open>bs\<close> leads from \<open>s\<close> to a state with \<open>Q\<close>; and so it does from the middle of the loop.\<close>

definition leads :: "(uint8 list \<Rightarrow> nat) \<Rightarrow> crypt_env \<Rightarrow> (crypt_socket \<Rightarrow> bool) \<Rightarrow> uint8 list \<Rightarrow> crypt_socket \<Rightarrow> bool" where
  "leads room env Q bs s \<longleftrightarrow> (\<forall>ps. [] \<notin> set ps \<and> concat ps = bs \<longrightarrow> (\<exists>s'. handshake_reads room env ps s = Some s' \<and> Q s'))"

definition loop_leads :: "(uint8 list \<Rightarrow> nat) \<Rightarrow> crypt_env \<Rightarrow> (crypt_socket \<Rightarrow> bool) \<Rightarrow> uint8 list \<Rightarrow> crypt_socket \<Rightarrow> bool" where
  "loop_leads room env Q bs s \<longleftrightarrow>
     (\<forall>p rest n. bs = p @ rest \<longrightarrow> (\<exists>s'. negotiate_loop env n p s = (Inr (int (n + length p)), s') \<and> leads room env Q rest s'))"

lemma loop_stops:
  "negotiate_turn env n p s = (Inr (Some r), s') \<Longrightarrow> negotiate_loop env n p s = (Inr r, s')"
  by (simp add: negotiate_loop.simps [of env n p s])

lemma loop_goes_on:
  "negotiate_turn env n p s = (Inr None, s') \<Longrightarrow>
     negotiate_loop env n p s = negotiate_loop env (n + m_nReceiveBytesWanted s) (drop (m_nReceiveBytesWanted s) p) s'"
  by (simp add: negotiate_loop.simps [of env n p s])

lemma loop_leads_complete:
  assumes "m_NegotiatingState s = ONS_COMPLETE" and "Q s"
  shows "loop_leads room env Q [] s"
proof -
  have "ps = []" if "[] \<notin> set ps" "concat ps = []" for ps :: "uint8 list list" using that by (cases ps) auto
  then have "leads room env Q [] s" using assms(2) by (fastforce simp: leads_def)
  moreover have "negotiate_loop env n [] s = (Inr (int n), s)" for n
    using assms(1) by (intro loop_stops) (simp add: negotiate_turn_def)
  ultimately show ?thesis by (simp add: loop_leads_def)
qed

lemma collects_noted: "collects t c hk k s \<Longrightarrow> collects t c hk k (noted room bs s)"
  by (simp add: collects_def holds_noted)

lemma stage_piece:
  assumes "collects t c hk k s" and "m_nReceiveBytesWanted t \<le> length (p @ rest)"
    and "\<And>s1. holds (t\<lparr>m_nReceiveBytesWanted := 0\<rparr>) (plain (raw (m_NegotiatingState t)) (c @ take (m_nReceiveBytesWanted t) (p @ rest)) k)
       (\<not> raw (m_NegotiatingState t)) hk (key_after (raw (m_NegotiatingState t)) (c @ take (m_nReceiveBytesWanted t) (p @ rest)) k) 0 s1 \<Longrightarrow>
       \<exists>s2. negotiate_switch env s1 = (Inr None, s2) \<and>
         loop_leads room env Q (drop (m_nReceiveBytesWanted t) (p @ rest)) (s2\<lparr>m_pfiReceiveBuffer := buf_reset (m_pfiReceiveBuffer s2)\<rparr>)"
  shows "\<exists>s'. negotiate_loop env n p s = (Inr (int (n + length p)), s') \<and> leads room env Q rest s'"
  using assms
proof (induction "2 * length (p @ rest) + (if p = [] then 1 else 0)" arbitrary: t c s p rest n rule: less_induct)
  case less
  let ?w = "m_nReceiveBytesWanted t"
  have h: "holds t c False hk k (length c) s" and pos: "0 < ?w" using less.prems(1) by (simp_all add: collects_def)
  show ?case
  proof (cases "length p < ?w")
    case True
    let ?t = "t\<lparr>m_nReceiveBytesWanted := ?w - length p\<rparr>"
    obtain s1 where s1: "negotiate_turn env n p s = (Inr (Some (int (n + length p))), s1)" "collects ?t (c @ p) hk k s1"
      using turn_partial [OF less.prems(1) True] by blast
    have wr: "?w - length p \<le> length rest" "0 < ?w - length p" using True less.prems(2) by auto
    have wanted: "m_nReceiveBytesWanted s1 = ?w - length p" using holds_state(2) s1(2) by (fastforce simp: collects_def)
    have "leads room env Q rest s1" unfolding leads_def
    proof (intro allI impI, elim conjE)
      fix ps assume ps: "[] \<notin> set ps" "concat ps = rest"
      have "rest \<noteq> []" using wr by auto
      then obtain q qs where q: "ps = q # qs" using ps by (cases ps) auto
      then have qn: "q \<noteq> []" and r: "rest = q @ concat qs" using ps by auto
      have e: "(c @ p) @ take (?w - length p) rest = c @ take ?w (p @ rest)" "drop (?w - length p) rest = drop ?w (p @ rest)"
        using True by simp_all
      have "\<exists>s'. negotiate_loop env 0 q (noted room q s1) = (Inr (int (0 + length q)), s') \<and> leads room env Q (concat qs) s'"
      proof (rule less.hyps [OF _ collects_noted [OF s1(2)]])
        show "2 * length (q @ concat qs) + (if q = [] then 1 else 0) < 2 * length (p @ rest) + (if p = [] then 1 else 0)"
          using qn r by (cases "p = []") auto
        show "m_nReceiveBytesWanted ?t \<le> length (q @ concat qs)" using wr r by simp
        fix s2 assume "holds (?t\<lparr>m_nReceiveBytesWanted := 0\<rparr>)
          (plain (raw (m_NegotiatingState ?t)) ((c @ p) @ take (m_nReceiveBytesWanted ?t) (q @ concat qs)) k) (\<not> raw (m_NegotiatingState ?t)) hk
          (key_after (raw (m_NegotiatingState ?t)) ((c @ p) @ take (m_nReceiveBytesWanted ?t) (q @ concat qs)) k) 0 s2"
        then show "\<exists>s3. negotiate_switch env s2 = (Inr None, s3) \<and>
          loop_leads room env Q (drop (m_nReceiveBytesWanted ?t) (q @ concat qs)) (s3\<lparr>m_pfiReceiveBuffer := buf_reset (m_pfiReceiveBuffer s3)\<rparr>)"
          using less.prems(3) [of s2] e r by simp
      qed
      then obtain s' where s': "negotiate_loop env 0 q (noted room q s1) = (Inr (int (length q)), s')" "leads room env Q (concat qs) s'" by auto
      then have "Negotiate env q (noted room q s1) = (Inr (int (length q)), s')" using wanted wr by (simp add: Negotiate_def noted_def)
      moreover have "m_StreamCryptState s1 = ECS_NEGOTIATING" using s1(2) holds_state(3) by (fastforce simp: collects_def)
      ultimately have "crypt_Read env (room q) (Some q) s1 = (Inr (Some []), s')" using qn by (intro crypt_Read_negotiating)
      then show "\<exists>s'. handshake_reads room env ps s1 = Some s' \<and> Q s'" using s'(2) q ps(1) by (auto simp: leads_def)
    qed
    then show ?thesis using loop_stops [OF s1(1)] by blast
  next
    case False
    then have p: "?w \<le> length p" by simp
    have e: "take ?w p = take ?w (p @ rest)" "drop ?w (p @ rest) = drop ?w p @ rest" using p by simp_all
    obtain s1 where s1: "holds (t\<lparr>m_nReceiveBytesWanted := 0\<rparr>) (plain (raw (m_NegotiatingState t)) (c @ take ?w p) k)
       (\<not> raw (m_NegotiatingState t)) hk (key_after (raw (m_NegotiatingState t)) (c @ take ?w p) k) 0 s1"
      and turn: "\<And>s2. negotiate_switch env s1 = (Inr None, s2) \<Longrightarrow>
         negotiate_turn env n p s = (Inr None, s2\<lparr>m_pfiReceiveBuffer := buf_reset (m_pfiReceiveBuffer s2)\<rparr>)"
      using turn_full [OF less.prems(1) refl p, where n = n and env = env] by blast
    obtain s2 where s2: "negotiate_switch env s1 = (Inr None, s2)"
      "loop_leads room env Q (drop ?w (p @ rest)) (s2\<lparr>m_pfiReceiveBuffer := buf_reset (m_pfiReceiveBuffer s2)\<rparr>)"
      using less.prems(3) [OF s1 [unfolded e(1)]] by blast
    have w: "m_nReceiveBytesWanted s = ?w" using holds_state(2) [OF h] .
    have "\<exists>s'. negotiate_loop env (n + ?w) (drop ?w p) (s2\<lparr>m_pfiReceiveBuffer := buf_reset (m_pfiReceiveBuffer s2)\<rparr>)
        = (Inr (int (n + ?w + length (drop ?w p))), s') \<and> leads room env Q rest s'"
      using s2(2) e(2) unfolding loop_leads_def by blast
    then show ?thesis using loop_goes_on [OF turn [OF s2(1)]] w p by (auto simp: algebra_simps)
  qed
qed

lemma stage:
  assumes "collects t c hk k s" and "m_nReceiveBytesWanted t \<le> length bs"
    and "\<And>s1. holds (t\<lparr>m_nReceiveBytesWanted := 0\<rparr>) (plain (raw (m_NegotiatingState t)) (c @ take (m_nReceiveBytesWanted t) bs) k)
       (\<not> raw (m_NegotiatingState t)) hk (key_after (raw (m_NegotiatingState t)) (c @ take (m_nReceiveBytesWanted t) bs) k) 0 s1 \<Longrightarrow>
       \<exists>s2. negotiate_switch env s1 = (Inr None, s2) \<and>
         loop_leads room env Q (drop (m_nReceiveBytesWanted t) bs) (s2\<lparr>m_pfiReceiveBuffer := buf_reset (m_pfiReceiveBuffer s2)\<rparr>)"
  shows "loop_leads room env Q bs s"
  unfolding loop_leads_def
proof (intro allI impI)
  fix p rest n assume "bs = p @ rest"
  then show "\<exists>s'. negotiate_loop env n p s = (Inr (int (n + length p)), s') \<and> leads room env Q rest s'"
    using assms(2,3) by (intro stage_piece [OF assms(1)]) simp_all
qed

section \<open>What the handshake writes\<close>

lemma file_of_puts: "puts m bs \<Longrightarrow> 0 < growth \<Longrightarrow> file_of env growth m s = (Inr bs, s)"
proof -
  assume "puts m bs" and "0 < growth"
  then obtain f where "m (new_memfile growth (fresh_mem env)) = (Inr (), f)" "wrote (new_memfile growth (fresh_mem env)) bs f"
    using putsD [of m bs "new_memfile growth (fresh_mem env)"] by (auto simp: new_memfile_def growable_def mem_ok_def)
  then show ?thesis by (simp add: file_of_def cs_return_def wrote_def new_memfile_def contents_def)
qed

lemma random_bytes_ok:
  "random_bytes env n s = (Inr (map (random8 env) [draws s..<draws s + n]), s\<lparr>draws := draws s + n\<rparr>)"
proof (induction n arbitrary: s)
  case (Suc n)
  have "[draws s..<draws s + Suc n] = draws s # [Suc (draws s)..<draws s + Suc n]" by (simp add: upt_conv_Cons)
  then show ?case using Suc by (simp add: cs_bind_def GetRandomUint8_def cs_return_def)
qed (simp add: cs_return_def)

definition not_protocol :: "uint8 \<Rightarrow> bool" where
  "not_protocol b \<longleftrightarrow> b \<noteq> OP_EDONKEYPROT \<and> b \<noteq> OP_PACKEDPROT \<and> b \<noteq> OP_EMULEPROT"

lemma marker_loop_ok: "\<exists>b d. marker_loop env n s = (Inr b, s\<lparr>draws := d\<rparr>) \<and> not_protocol b"
proof (induction n arbitrary: s)
  case 0
  have "marker_loop env 0 s = (Inr 1, s\<lparr>draws := draws s\<rparr>)" by (simp add: cs_return_def)
  then show ?case by (intro exI [of _ 1] exI [of _ "draws s"]) (simp add: not_protocol_def OP_EDONKEYPROT_def OP_PACKEDPROT_def OP_EMULEPROT_def)
next
  case (Suc n)
  obtain b d where "marker_loop env n (s\<lparr>draws := draws s + 1\<rparr>) = (Inr b, s\<lparr>draws := d\<rparr>)" "not_protocol b"
    using Suc [of "s\<lparr>draws := draws s + 1\<rparr>"] by auto
  then show ?case by (auto simp: cs_bind_def GetRandomUint8_def cs_return_def not_protocol_def)
qed

text \<open>A send buffer that is empty, and what has been handed to the network or waits for it.\<close>

definition send_empty :: "crypt_socket \<Rightarrow> bool" where
  "send_empty s \<longleftrightarrow> growable (mem (m_pfiSendBuffer s)) \<and> m_fileSize (mem (m_pfiSendBuffer s)) = 0 \<and> m_position (mem (m_pfiSendBuffer s)) = 0"

definition handed :: "crypt_socket \<Rightarrow> uint8 list" where
  "handed s = net s @ contents (mem (m_pfiSendBuffer s))"

lemma send_write:
  assumes "send_empty s"
  shows "\<exists>f. send_op (buf_io (WriteIO bs)) s = (Inr (), s\<lparr>m_pfiSendBuffer := (m_pfiSendBuffer s)\<lparr>mem := f\<rparr>\<rparr>) \<and> contents f = bs"
proof -
  let ?f = "mem (m_pfiSendBuffer s)"
  obtain f where "WriteIO bs ?f = (Inr (), f)" "wrote ?f bs f"
    using putsD [OF puts_WriteIO, of ?f] assms by (auto simp: send_empty_def)
  then show ?thesis using assms by (auto simp: send_op_def buf_io_def wrote_def send_empty_def contents_def)
qed

lemma storesI:
  "send_or_store bs False s = (Inr n, s\<lparr>m_pfiSendBuffer := (m_pfiSendBuffer s)\<lparr>mem := f\<rparr>, accepts := acc, net := nt\<rparr>) \<Longrightarrow>
     nt @ contents f = handed s @ bs \<Longrightarrow>
     \<exists>n f acc nt. send_or_store bs False s =
      (Inr n, s\<lparr>m_pfiSendBuffer := (m_pfiSendBuffer s)\<lparr>mem := f\<rparr>, accepts := acc, net := nt\<rparr>) \<and> nt @ contents f = handed s @ bs"
  by blast

lemma send_or_store_ok:
  assumes "send_empty s" and "length bs < SOCKET_ERROR"
  shows "\<exists>n f acc nt. send_or_store bs False s =
      (Inr n, s\<lparr>m_pfiSendBuffer := (m_pfiSendBuffer s)\<lparr>mem := f\<rparr>, accepts := acc, net := nt\<rparr>) \<and> nt @ contents f = handed s @ bs"
proof -
  have e: "handed s = net s" using assms(1) by (simp add: handed_def send_empty_def contents_def)
  consider "accepts s = []" | rest where "accepts s = None # rest" | n rest where "accepts s = Some n # rest"
    by (metis list.exhaust option.exhaust)
  then show ?thesis
  proof cases
    case 1
    have "send_or_store bs False s = (Inr (length bs), s\<lparr>net := net s @ bs\<rparr>)"
      using 1 assms(2) by (simp add: send_or_store_def cs_bind_def proxy_write_def cs_return_def)
    also have "s\<lparr>net := net s @ bs\<rparr> = s\<lparr>m_pfiSendBuffer := (m_pfiSendBuffer s)\<lparr>mem := mem (m_pfiSendBuffer s)\<rparr>, accepts := [], net := net s @ bs\<rparr>"
      using 1 by simp
    finally show ?thesis by (rule storesI) (use e assms(1) in \<open>simp add: send_empty_def contents_def\<close>)
  next
    case 2
    let ?s = "s\<lparr>accepts := rest\<rparr>"
    obtain f where f: "send_op (buf_io (WriteIO bs)) ?s = (Inr (), ?s\<lparr>m_pfiSendBuffer := (m_pfiSendBuffer ?s)\<lparr>mem := f\<rparr>\<rparr>)" "contents f = bs"
      using send_write [of ?s] assms(1) by (auto simp: send_empty_def)
    have "send_or_store bs False s = (Inr SOCKET_ERROR, s\<lparr>m_pfiSendBuffer := (m_pfiSendBuffer s)\<lparr>mem := f\<rparr>, accepts := rest, net := net s\<rparr>)"
      using 2 f by (simp add: send_or_store_def cs_bind_def cs_seq_def proxy_write_def cs_return_def)
    then show ?thesis by (rule storesI) (simp add: e f(2))
  next
    case 3
    let ?m = "min n (length bs)"
    let ?s = "s\<lparr>accepts := rest, net := net s @ take n bs\<rparr>"
    have t: "take n bs = take ?m bs" by (cases "n \<le> length bs") simp_all
    show ?thesis
    proof (cases "?m < length bs")
      case True
      obtain f where f: "send_op (buf_io (WriteIO (drop ?m bs))) ?s = (Inr (), ?s\<lparr>m_pfiSendBuffer := (m_pfiSendBuffer ?s)\<lparr>mem := f\<rparr>\<rparr>)" "contents f = drop ?m bs"
        using send_write [of ?s] assms(1) by (auto simp: send_empty_def)
      have "send_or_store bs False s = (Inr ?m, s\<lparr>m_pfiSendBuffer := (m_pfiSendBuffer s)\<lparr>mem := f\<rparr>, accepts := rest, net := net s @ take n bs\<rparr>)"
        using 3 f True assms(2) by (auto simp add: send_or_store_def cs_bind_def cs_seq_def proxy_write_def cs_return_def min_def split: if_splits)
      then show ?thesis by (rule storesI) (simp add: e f(2) t)
    next
      case False
      have "send_or_store bs False s = (Inr ?m, ?s)"
        using 3 False assms(2) by (simp add: send_or_store_def cs_bind_def cs_seq_def proxy_write_def cs_return_def)
      also have "?s = s\<lparr>m_pfiSendBuffer := (m_pfiSendBuffer s)\<lparr>mem := mem (m_pfiSendBuffer s)\<rparr>, accepts := rest, net := net s @ take n bs\<rparr>" by simp
      finally show ?thesis by (rule storesI) (use e False assms(1) in \<open>simp add: send_empty_def contents_def\<close>)
    qed
  qed
qed

text \<open>The two messages.\<close>

definition hello :: "uint8 \<Rightarrow> uint8 list \<Rightarrow> uint8 list" where
  "hello pad padding = le_bytes 4 MAGICVALUE_SYNC @ [ENM_OBFUSCATION, ENM_OBFUSCATION, pad] @ padding"

definition reply :: "uint8 \<Rightarrow> uint8 list \<Rightarrow> uint8 list" where
  "reply pad padding = le_bytes 4 MAGICVALUE_SYNC @ [ENM_OBFUSCATION, pad] @ padding"

lemma le_bytes_8: "le_bytes (Suc 0) (w :: uint8) = [w]" "le_bytes 1 (w :: uint8) = [w]"
  by (simp_all add: le_bytes_def)

lemma puts_WriteUInt8: "puts (WriteUInt8 w) [w]"
  using int_puts(1) [of w] by (simp add: le_bytes_8)

lemma puts_padding: "puts (io_foreach padding WriteUInt8) padding"
  using puts_foreach [of padding WriteUInt8 "\<lambda>w. [w]"] puts_WriteUInt8 by (simp add: concat_map_singleton)

lemma length_padding: "length (map (random8 env) [d..<d + unat pad]) = unat pad"
  by simp

lemma SendNegotiatingData_ok:
  assumes "send_empty s" and "m_hasKey (m_pfiSendBuffer s)" and "n < length bs" and "length bs < SOCKET_ERROR"
  shows "\<exists>r f acc nt. SendNegotiatingData (Some bs) n False s =
      (Inr r, s\<lparr>m_pfiSendBuffer := (m_pfiSendBuffer s)\<lparr>mem := f, m_key := rc4_discard (length bs - n) (m_key (m_pfiSendBuffer s))\<rparr>,
               accepts := acc, net := nt\<rparr>) \<and>
      nt @ contents f = handed s @ take n bs @ fst (RC4Crypt (drop n bs) (m_key (m_pfiSendBuffer s)))"
proof -
  let ?k = "m_key (m_pfiSendBuffer s)"
  let ?tail = "fst (RC4Crypt (drop n bs) ?k)"
  let ?s = "s\<lparr>m_pfiSendBuffer := (m_pfiSendBuffer s)\<lparr>m_key := rc4_discard (length bs - n) ?k\<rparr>\<rparr>"
  have c: "send_op (buf_crypt (drop n bs)) s = (Inr ?tail, ?s)"
    using assms(2) by (simp add: send_op_def buf_crypt_def snd_RC4Crypt)
  have e: "send_empty ?s" "handed ?s = handed s" using assms(1) by (simp_all add: send_empty_def handed_def)
  have "length (take n bs @ ?tail) < SOCKET_ERROR" using assms(3,4) by simp
  from send_or_store_ok [OF e(1) this] obtain r f acc nt where
    "send_or_store (take n bs @ ?tail) False ?s = (Inr r, ?s\<lparr>m_pfiSendBuffer := (m_pfiSendBuffer ?s)\<lparr>mem := f\<rparr>, accepts := acc, net := nt\<rparr>)"
    "nt @ contents f = handed s @ take n bs @ ?tail" unfolding e(2) by blast
  moreover have "IsEmpty (m_pfiSendBuffer ?s)" using e(1) by (simp add: IsEmpty_def send_empty_def)
  ultimately show ?thesis using c assms(3)
    by (intro exI [of _ r] exI [of _ f] exI [of _ acc] exI [of _ nt]) (simp add: SendNegotiatingData_def cs_bind_def Let_def)
qed

section \<open>The incoming side\<close>

definition key_of :: "uint8 list \<Rightarrow> rc4_key" where
  "key_of h = RC4CreateKey (take 16 h) False"

lemma recv_SetKey:
  assumes "holds t c enc False k pos s"
  shows "\<exists>s'. recv_op (SetKey h False) s = (Inr (), s') \<and> holds t c enc True (key_of h) pos s'"
proof -
  obtain f n b where f: "s = t\<lparr>m_nObfusicationBytesReceived := n, m_bFullReceive := b, m_pfiReceiveBuffer := \<lparr>mem = f, m_encrypted = enc, m_hasKey = False, m_key = k\<rparr>\<rparr>"
    "growable f" "contents f = c" "m_position f = pos" using holdsE [OF assms] .
  then show ?thesis by (auto simp: recv_op_def SetKey_def key_of_def intro!: holdsI)
qed

lemma gets_ReadUInt8: "gets ReadUInt8 [w] w"
  using int_gets(1) [of w] by (simp add: le_bytes_8)

lemma gets_ReadUInt32: "gets ReadUInt32 (le_bytes 4 w) w"
  using int_gets(3) [of w] by simp

lemma holds_want:
  assumes "holds t c enc hk k pos s"
  shows "want st n s = (Inr (), s\<lparr>m_NegotiatingState := st, m_nReceiveBytesWanted := n\<rparr>)"
    and "holds (t\<lparr>m_NegotiatingState := st, m_nReceiveBytesWanted := n\<rparr>) c enc hk k pos (s\<lparr>m_NegotiatingState := st, m_nReceiveBytesWanted := n\<rparr>)"
  using holds_mod [OF assms, of "\<lambda>s. s\<lparr>m_NegotiatingState := st, m_nReceiveBytesWanted := n\<rparr>"] by (simp_all add: want_def cs_mod_def)

lemma switch_randompart:
  assumes "holds t part False False k 0 s" and "m_NegotiatingState t = ONS_BASIC_CLIENTA_RANDOMPART" and "length part = 4"
    and "\<not> m_hasKey (m_pfiSendBuffer t)"
  shows "\<exists>s'. negotiate_switch env s = (Inr None, s') \<and>
     holds (t\<lparr>m_pfiSendBuffer := (m_pfiSendBuffer t)\<lparr>m_hasKey := True, m_key := key_of (MD5 env (key_data (UserHash env) MAGICVALUE_SERVER part))\<rparr>,
              m_NegotiatingState := ONS_BASIC_CLIENTA_MAGICVALUE, m_nReceiveBytesWanted := 4\<rparr>)
       part False True (key_of (MD5 env (key_data (UserHash env) MAGICVALUE_REQUESTER part))) 4 s'"
proof -
  let ?r = "MD5 env (key_data (UserHash env) MAGICVALUE_REQUESTER part)"
  let ?sk = "MD5 env (key_data (UserHash env) MAGICVALUE_SERVER part)"
  obtain s1 where s1: "recv_op (buf_io (ReadIO 4)) s = (Inr part, s1)" "holds t part False False k 4 s1"
    using recv_gets [of t "[]" part "[]" False False k s "ReadIO 4" part] gets_ReadIO [of part] assms(1,3) by auto
  obtain s2 where s2: "recv_op (SetKey ?r False) s1 = (Inr (), s2)" "holds t part False True (key_of ?r) 4 s2"
    using recv_SetKey [OF s1(2)] by blast
  let ?sb = "(m_pfiSendBuffer t)\<lparr>m_hasKey := True, m_key := key_of ?sk\<rparr>"
  have s3: "send_op (SetKey ?sk False) s2 = (Inr (), s2\<lparr>m_pfiSendBuffer := ?sb\<rparr>)"
    using assms(4) holds_state(5) [OF s2(2)] by (simp add: send_op_def SetKey_def key_of_def)
  have h3: "holds (t\<lparr>m_pfiSendBuffer := ?sb\<rparr>) part False True (key_of ?r) 4 (s2\<lparr>m_pfiSendBuffer := ?sb\<rparr>)"
    by (rule holds_mod [OF s2(2), of "\<lambda>s. s\<lparr>m_pfiSendBuffer := ?sb\<rparr>"]) simp
  note w = holds_want [OF h3, where st = ONS_BASIC_CLIENTA_MAGICVALUE and n = 4]
  show ?thesis using s1(1) s2(1) s3 w assms(2) holds_state(1) [OF assms(1)]
    by (simp add: negotiate_switch_def cs_bind_def cs_seq_def switch_break_def cs_return_def)
qed

lemma switch_magic:
  assumes "holds t (le_bytes 4 MAGICVALUE_SYNC) enc hk k 0 s"
  shows "m_NegotiatingState t = ONS_BASIC_CLIENTA_MAGICVALUE \<Longrightarrow> \<exists>s'. negotiate_switch env s = (Inr None, s') \<and>
     holds (t\<lparr>m_NegotiatingState := ONS_BASIC_CLIENTA_METHODTAGSPADLEN, m_nReceiveBytesWanted := 3\<rparr>) (le_bytes 4 MAGICVALUE_SYNC) enc hk k 4 s'"
    and "m_NegotiatingState t = ONS_BASIC_CLIENTB_MAGICVALUE \<Longrightarrow> \<exists>s'. negotiate_switch env s = (Inr None, s') \<and>
     holds (t\<lparr>m_NegotiatingState := ONS_BASIC_CLIENTB_METHODTAGSPADLEN, m_nReceiveBytesWanted := 2\<rparr>) (le_bytes 4 MAGICVALUE_SYNC) enc hk k 4 s'"
proof -
  obtain s1 where s1: "recv_op (buf_io ReadUInt32) s = (Inr MAGICVALUE_SYNC, s1)" "holds t (le_bytes 4 MAGICVALUE_SYNC) enc hk k 4 s1"
    using recv_gets [of t "[]" "le_bytes 4 MAGICVALUE_SYNC" "[]" enc hk k s ReadUInt32] gets_ReadUInt32 assms by auto
  show "m_NegotiatingState t = ONS_BASIC_CLIENTA_MAGICVALUE \<Longrightarrow> \<exists>s'. negotiate_switch env s = (Inr None, s') \<and>
     holds (t\<lparr>m_NegotiatingState := ONS_BASIC_CLIENTA_METHODTAGSPADLEN, m_nReceiveBytesWanted := 3\<rparr>) (le_bytes 4 MAGICVALUE_SYNC) enc hk k 4 s'"
    using s1(1) holds_want [OF s1(2), where st = ONS_BASIC_CLIENTA_METHODTAGSPADLEN and n = 3] holds_state(1) [OF assms]
    by (simp add: negotiate_switch_def cs_bind_def cs_seq_def switch_break_def cs_return_def)
  show "m_NegotiatingState t = ONS_BASIC_CLIENTB_MAGICVALUE \<Longrightarrow> \<exists>s'. negotiate_switch env s = (Inr None, s') \<and>
     holds (t\<lparr>m_NegotiatingState := ONS_BASIC_CLIENTB_METHODTAGSPADLEN, m_nReceiveBytesWanted := 2\<rparr>) (le_bytes 4 MAGICVALUE_SYNC) enc hk k 4 s'"
    using s1(1) holds_want [OF s1(2), where st = ONS_BASIC_CLIENTB_METHODTAGSPADLEN and n = 2] holds_state(1) [OF assms]
    by (simp add: negotiate_switch_def cs_bind_def cs_seq_def switch_break_def cs_return_def)
qed

definition answers :: "crypt_socket \<Rightarrow> crypt_socket \<Rightarrow> bool" where
  "answers t t' \<longleftrightarrow> (\<exists>pad padding d f acc nt. t' = t\<lparr>draws := d, m_NegotiatingState := ONS_COMPLETE, m_StreamCryptState := ECS_ENCRYPTING,
       m_pfiSendBuffer := (m_pfiSendBuffer t)\<lparr>mem := f, m_key := rc4_discard (6 + length padding) (m_key (m_pfiSendBuffer t))\<rparr>, accepts := acc, net := nt\<rparr>
     \<and> nt @ contents f = handed t @ fst (RC4Crypt (reply pad padding) (m_key (m_pfiSendBuffer t))) \<and> length padding = unat pad)"

lemma answer_ok:
  "\<exists>pad padding d. answer env n s = (Inr (reply pad padding), s\<lparr>draws := d\<rparr>) \<and> length padding = unat pad"
proof -
  let ?pad = "of_nat (unat (random8 env (draws s)) mod n) :: uint8"
  let ?padding = "map (random8 env) [Suc (draws s)..<Suc (draws s) + unat ?pad]"
  have p: "puts (io_seq (WriteUInt32 MAGICVALUE_SYNC) (io_seq (WriteUInt8 ENM_OBFUSCATION) (io_seq (WriteUInt8 ?pad)
      (io_foreach ?padding WriteUInt8)))) (le_bytes 4 MAGICVALUE_SYNC @ [ENM_OBFUSCATION] @ [?pad] @ ?padding)"
    by (intro puts_seq int_puts(3) puts_WriteUInt8 puts_padding)
  have "answer env n s = (Inr (reply ?pad ?padding), s\<lparr>draws := Suc (draws s) + unat ?pad\<rparr>)"
    using file_of_puts [OF p, of 26 env] by (simp add: answer_def cs_bind_def GetRandomUint8_def random_bytes_ok Let_def reply_def del: upt_Suc)
  moreover have "length ?padding = unat ?pad" by (rule length_padding)
  ultimately show ?thesis by blast
qed

lemma clienta_padding_ok:
  assumes "holds t c enc hk k pos s" and "send_empty t" and "m_hasKey (m_pfiSendBuffer t)"
  shows "\<exists>t' s'. clienta_padding env s = (Inr None, s') \<and> holds t' c enc hk k pos s' \<and> answers t t'"
proof -
  obtain pad padding d where a: "answer env (unat (if AwaitingTestFromIP env then 16 else CryptTCPPaddingLength env + 1)) s = (Inr (reply pad padding), s\<lparr>draws := d\<rparr>)"
    "length padding = unat pad" using answer_ok by blast
  let ?s = "s\<lparr>draws := d\<rparr>"
  let ?k = "m_key (m_pfiSendBuffer t)"
  have sb: "m_pfiSendBuffer ?s = m_pfiSendBuffer t" "handed ?s = handed t"
    using holds_state(5,6) [OF assms(1)] by (simp_all add: handed_def)
  have e: "send_empty ?s" "m_hasKey (m_pfiSendBuffer ?s)" using assms(2,3) sb(1) by (simp_all add: send_empty_def)
  have l: "length (reply pad padding) = 6 + length padding" by (simp add: reply_def)
  then have l2: "0 < length (reply pad padding)" "length (reply pad padding) < SOCKET_ERROR"
    using a(2) less_trans [OF unat8_less, of 4294967289 pad] by (simp_all add: SOCKET_ERROR_def)
  obtain r f acc nt where w: "SendNegotiatingData (Some (reply pad padding)) 0 False ?s =
      (Inr r, ?s\<lparr>m_pfiSendBuffer := (m_pfiSendBuffer t)\<lparr>mem := f, m_key := rc4_discard (6 + length padding) ?k\<rparr>, accepts := acc, net := nt\<rparr>)"
      "nt @ contents f = handed t @ fst (RC4Crypt (reply pad padding) ?k)"
    using SendNegotiatingData_ok [OF e l2] l unfolding sb by auto
  let ?g = "\<lambda>s. s\<lparr>draws := d, m_pfiSendBuffer := (m_pfiSendBuffer t)\<lparr>mem := f, m_key := rc4_discard (6 + length padding) ?k\<rparr>, accepts := acc, net := nt,
       m_NegotiatingState := ONS_COMPLETE, m_StreamCryptState := ECS_ENCRYPTING\<rparr>"
  have "clienta_padding env s = (Inr None, ?g s)"
    using a(1) w(1) by (simp add: clienta_padding_def cs_bind_def cs_seq_def cs_mod_def switch_break_def cs_return_def)
  moreover have "holds (?g t) c enc hk k pos (?g s)" by (rule holds_mod [OF assms(1)]) simp
  moreover have "answers t (?g t)" unfolding answers_def
    by (intro exI [of _ pad] exI [of _ padding] exI [of _ d] exI [of _ f] exI [of _ acc] exI [of _ nt]) (simp add: w(2) a(2))
  ultimately show ?thesis by blast
qed

lemma switch_methodtags:
  assumes "holds t [x, y, pad] enc hk k 0 s" and "m_NegotiatingState t = ONS_BASIC_CLIENTA_METHODTAGSPADLEN"
  shows "\<exists>s'. holds (t\<lparr>m_dbgbyEncryptionSupported := x, m_dbgbyEncryptionRequested := y, m_NegotiatingState := ONS_BASIC_CLIENTA_PADDING,
              m_nReceiveBytesWanted := unat pad\<rparr>) [x, y, pad] enc hk k 3 s' \<and>
     negotiate_switch env s = (if 0 < unat pad then (Inr None, s') else clienta_padding env s')"
proof -
  obtain s1 where s1: "recv_op (buf_io ReadUInt8) s = (Inr x, s1)" "holds t [x, y, pad] enc hk k 1 s1"
    using recv_gets [of t "[]" "[x]" "[y, pad]" enc hk k s ReadUInt8 x] gets_ReadUInt8 [of x] assms(1) by auto
  obtain s2 where s2: "recv_op (buf_io ReadUInt8) s1 = (Inr y, s2)" "holds t [x, y, pad] enc hk k 2 s2"
    using recv_gets [of t "[x]" "[y]" "[pad]" enc hk k s1 ReadUInt8 y] gets_ReadUInt8 [of y] s1(2) by (auto simp: numeral_2_eq_2)
  let ?g = "\<lambda>s. s\<lparr>m_dbgbyEncryptionSupported := x, m_dbgbyEncryptionRequested := y\<rparr>"
  have h: "holds (?g t) [x, y, pad] enc hk k 2 (?g s2)" by (rule holds_mod [OF s2(2)]) simp
  obtain s3 where s3: "recv_op (buf_io ReadUInt8) (?g s2) = (Inr pad, s3)" "holds (?g t) [x, y, pad] enc hk k 3 s3"
    using recv_gets [of "?g t" "[x, y]" "[pad]" "[]" enc hk k "?g s2" ReadUInt8 pad] gets_ReadUInt8 [of pad] h by (auto simp: numeral_2_eq_2 numeral_3_eq_3)
  let ?s = "s3\<lparr>m_NegotiatingState := ONS_BASIC_CLIENTA_PADDING, m_nReceiveBytesWanted := unat pad\<rparr>"
  note w = holds_want [OF s3(2), where st = ONS_BASIC_CLIENTA_PADDING and n = "unat pad"]
  have "negotiate_switch env s = (if 0 < unat pad then (Inr None, ?s) else clienta_padding env ?s)"
    using s1(1) s2(1) s3(1) w(1) assms(2) holds_state(1) [OF assms(1)]
    by (simp add: negotiate_switch_def cs_bind_def cs_seq_def cs_mod_def switch_break_def cs_return_def)
  then show ?thesis using w(2) by (intro exI [of _ ?s]) simp
qed

lemma decrypt_take: "fst (RC4Crypt (take n (fst (RC4Crypt m k))) k) = take n m"
proof -
  have "fst (RC4Crypt (take n m @ drop n m) k) = fst (RC4Crypt (take n m) k) @ fst (RC4Crypt (drop n m) (snd (RC4Crypt (take n m) k)))"
    by (simp only: RC4Crypt_append fst_conv)
  then have "take n (fst (RC4Crypt m k)) = fst (RC4Crypt (take n m) k)" by (cases "n \<le> length m") simp_all
  then show ?thesis by (simp only: RC4Crypt_twice)
qed

lemma encrypt_drop: "n \<le> length m \<Longrightarrow> drop n (fst (RC4Crypt m k)) = fst (RC4Crypt (drop n m) (rc4_discard n k))"
proof -
  assume n: "n \<le> length m"
  have "fst (RC4Crypt (take n m @ drop n m) k) = fst (RC4Crypt (take n m) k) @ fst (RC4Crypt (drop n m) (snd (RC4Crypt (take n m) k)))"
    by (simp only: RC4Crypt_append fst_conv)
  then show ?thesis using n by (simp add: snd_RC4Crypt min_def)
qed

text \<open>A stage whose bytes are encrypted.\<close>

lemma cipher_stage:
  assumes "collects t [] True k s" and "\<not> raw (m_NegotiatingState t)" and "m_nReceiveBytesWanted t = w" and "w \<le> length m"
    and "\<And>s1. holds (t\<lparr>m_nReceiveBytesWanted := 0\<rparr>) (take w m) True True (rc4_discard w k) 0 s1 \<Longrightarrow>
       \<exists>t2 s2 c pos. negotiate_switch env s1 = (Inr None, s2) \<and> holds t2 c True True (rc4_discard w k) pos s2 \<and>
         (\<forall>s3. holds t2 [] False True (rc4_discard w k) 0 s3 \<longrightarrow> loop_leads room env Q (fst (RC4Crypt (drop w m) (rc4_discard w k))) s3)"
  shows "loop_leads room env Q (fst (RC4Crypt m k)) s"
proof (rule stage [OF assms(1)])
  show "m_nReceiveBytesWanted t \<le> length (fst (RC4Crypt m k))" using assms(3,4) by simp
  fix s1 assume h: "holds (t\<lparr>m_nReceiveBytesWanted := 0\<rparr>) (plain (raw (m_NegotiatingState t)) ([] @ take (m_nReceiveBytesWanted t) (fst (RC4Crypt m k))) k)
     (\<not> raw (m_NegotiatingState t)) True (key_after (raw (m_NegotiatingState t)) ([] @ take (m_nReceiveBytesWanted t) (fst (RC4Crypt m k))) k) 0 s1"
  have "length (take w (fst (RC4Crypt m k))) = w" using assms(4) by simp
  with h have "holds (t\<lparr>m_nReceiveBytesWanted := 0\<rparr>) (take w m) True True (rc4_discard w k) 0 s1"
    using assms(2,3) by (simp add: plain_def key_after_def decrypt_take)
  from assms(5) [OF this] obtain t2 s2 c pos where s2: "negotiate_switch env s1 = (Inr None, s2)" "holds t2 c True True (rc4_discard w k) pos s2"
    "\<And>s3. holds t2 [] False True (rc4_discard w k) 0 s3 \<Longrightarrow> loop_leads room env Q (fst (RC4Crypt (drop w m) (rc4_discard w k))) s3" by blast
  show "\<exists>s2. negotiate_switch env s1 = (Inr None, s2) \<and>
      loop_leads room env Q (drop (m_nReceiveBytesWanted t) (fst (RC4Crypt m k))) (s2\<lparr>m_pfiReceiveBuffer := buf_reset (m_pfiReceiveBuffer s2)\<rparr>)"
    using s2(1) s2(3) [OF recv_reset [OF s2(2)]] assms(3,4) by (auto simp: encrypt_drop)
qed

definition done_keys :: "crypt_socket \<Rightarrow> rc4_key \<Rightarrow> rc4_key \<Rightarrow> bool" where
  "done_keys s kr ks \<longleftrightarrow> m_StreamCryptState s = ECS_ENCRYPTING \<and> m_NegotiatingState s = ONS_COMPLETE \<and> crypt_errors s = []
     \<and> m_hasKey (m_pfiReceiveBuffer s) \<and> m_key (m_pfiReceiveBuffer s) = kr \<and> m_hasKey (m_pfiSendBuffer s) \<and> m_key (m_pfiSendBuffer s) = ks"

definition a_done :: "uint8 list \<Rightarrow> rc4_key \<Rightarrow> rc4_key \<Rightarrow> crypt_socket \<Rightarrow> bool" where
  "a_done h kr ks s \<longleftrightarrow> (\<exists>pad padding. length padding = unat pad \<and> handed s = h @ fst (RC4Crypt (reply pad padding) ks)
     \<and> done_keys s kr (rc4_discard (6 + length padding) ks))"

definition can_answer :: "crypt_socket \<Rightarrow> uint8 list \<Rightarrow> rc4_key \<Rightarrow> bool" where
  "can_answer t h ks \<longleftrightarrow> send_empty t \<and> m_hasKey (m_pfiSendBuffer t) \<and> crypt_errors t = [] \<and> handed t = h \<and> m_key (m_pfiSendBuffer t) = ks"

lemma holds_handed: "holds t c enc hk k pos s \<Longrightarrow> handed s = handed t" "holds t c enc hk k pos s \<Longrightarrow> crypt_errors s = crypt_errors t"
  "holds t c enc hk k pos s \<Longrightarrow> m_hasKey (m_pfiReceiveBuffer s) = hk" "holds t c enc hk k pos s \<Longrightarrow> m_key (m_pfiReceiveBuffer s) = k"
  by (auto simp: holds_def handed_def)

lemma answers_done:
  assumes "answers t t'" and "can_answer t h ks" and "holds t' [] False True k 0 s"
  shows "loop_leads room env (a_done h k ks) [] s"
proof (rule loop_leads_complete)
  obtain pad padding d f acc nt where t': "t' = t\<lparr>draws := d, m_NegotiatingState := ONS_COMPLETE, m_StreamCryptState := ECS_ENCRYPTING,
       m_pfiSendBuffer := (m_pfiSendBuffer t)\<lparr>mem := f, m_key := rc4_discard (6 + length padding) (m_key (m_pfiSendBuffer t))\<rparr>, accepts := acc, net := nt\<rparr>"
    "nt @ contents f = handed t @ fst (RC4Crypt (reply pad padding) (m_key (m_pfiSendBuffer t)))" "length padding = unat pad"
    using assms(1) unfolding answers_def by blast
  show "m_NegotiatingState s = ONS_COMPLETE" using holds_state(1) [OF assms(3)] t'(1) by simp
  have "handed s = h @ fst (RC4Crypt (reply pad padding) ks)" using holds_handed(1) [OF assms(3)] t' assms(2) by (simp add: handed_def can_answer_def)
  moreover have "done_keys s k (rc4_discard (6 + length padding) ks)"
    using holds_handed(2-4) [OF assms(3)] holds_state [OF assms(3)] t'(1) assms(2) by (simp add: done_keys_def can_answer_def)
  ultimately show "a_done h k ks s" using t'(3) unfolding a_done_def by blast
qed

lemma a_padding:
  assumes "collects t [] True k s" and "m_NegotiatingState t = ONS_BASIC_CLIENTA_PADDING" and "m_nReceiveBytesWanted t = length padding"
    and "can_answer t h ks"
  shows "loop_leads room env (a_done h (rc4_discard (length padding) k) ks) (fst (RC4Crypt padding k)) s"
proof (rule cipher_stage [OF assms(1) _ assms(3)])
  fix s1 assume h: "holds (t\<lparr>m_nReceiveBytesWanted := 0\<rparr>) (take (length padding) padding) True True (rc4_discard (length padding) k) 0 s1"
  have c: "can_answer (t\<lparr>m_nReceiveBytesWanted := 0\<rparr>) h ks" using assms(4) by (simp add: can_answer_def send_empty_def handed_def)
  then obtain t2 s2 where s2: "clienta_padding env s1 = (Inr None, s2)" "holds t2 (take (length padding) padding) True True (rc4_discard (length padding) k) 0 s2"
    "answers (t\<lparr>m_nReceiveBytesWanted := 0\<rparr>) t2" using clienta_padding_ok [OF h, where env = env] unfolding can_answer_def by blast
  have "negotiate_switch env s1 = (Inr None, s2)" using s2(1) holds_state(1) [OF h] assms(2) by (simp add: negotiate_switch_def)
  then show "\<exists>t2 s2 c pos. negotiate_switch env s1 = (Inr None, s2) \<and> holds t2 c True True (rc4_discard (length padding) k) pos s2 \<and>
         (\<forall>s3. holds t2 [] False True (rc4_discard (length padding) k) 0 s3 \<longrightarrow>
           loop_leads room env (a_done h (rc4_discard (length padding) k) ks) (fst (RC4Crypt (drop (length padding) padding) (rc4_discard (length padding) k))) s3)"
    using s2(2) answers_done [OF s2(3) c] by (intro exI [of _ t2] exI [of _ s2] exI [of _ "take (length padding) padding"] exI [of _ 0]) simp
qed (simp_all add: raw_def assms(2))

lemma a_methodtags:
  assumes "collects t [] True k s" and "m_NegotiatingState t = ONS_BASIC_CLIENTA_METHODTAGSPADLEN" and "m_nReceiveBytesWanted t = 3"
    and "can_answer t h ks" and "length padding = unat pad"
  shows "loop_leads room env (a_done h (rc4_discard (3 + length padding) k) ks) (fst (RC4Crypt ([x, y, pad] @ padding) k)) s"
proof (rule cipher_stage [OF assms(1) _ assms(3)])
  let ?k = "rc4_discard 3 k"
  let ?t = "t\<lparr>m_nReceiveBytesWanted := 0, m_dbgbyEncryptionSupported := x, m_dbgbyEncryptionRequested := y,
              m_NegotiatingState := ONS_BASIC_CLIENTA_PADDING, m_nReceiveBytesWanted := unat pad\<rparr>"
  fix s1 assume "holds (t\<lparr>m_nReceiveBytesWanted := 0\<rparr>) (take 3 ([x, y, pad] @ padding)) True True ?k 0 s1"
  then have h: "holds (t\<lparr>m_nReceiveBytesWanted := 0\<rparr>) [x, y, pad] True True ?k 0 s1" by simp
  obtain s2 where s2: "holds ?t [x, y, pad] True True ?k 3 s2"
    "negotiate_switch env s1 = (if 0 < unat pad then (Inr None, s2) else clienta_padding env s2)"
    using switch_methodtags [OF h, of env] assms(2) by auto
  have c: "can_answer ?t h ks" using assms(4) by (simp add: can_answer_def send_empty_def handed_def)
  have d: "drop 3 ([x, y, pad] @ padding) = padding" by simp
  show "\<exists>t2 s2 c pos. negotiate_switch env s1 = (Inr None, s2) \<and> holds t2 c True True ?k pos s2 \<and>
         (\<forall>s3. holds t2 [] False True ?k 0 s3 \<longrightarrow>
           loop_leads room env (a_done h (rc4_discard (3 + length padding) k) ks) (fst (RC4Crypt (drop 3 ([x, y, pad] @ padding)) ?k)) s3)"
  proof (cases "0 < unat pad")
    case True
    have "loop_leads room env (a_done h (rc4_discard (3 + length padding) k) ks) (fst (RC4Crypt padding ?k)) s3" if "holds ?t [] False True ?k 0 s3" for s3
    proof -
      have "collects ?t [] True ?k s3" using that assms(1) True less_trans [OF unat8_less, of 513 pad] by (simp add: collects_def)
      from a_padding [OF this _ _ c, of padding] show ?thesis using assms(5) by (simp add: rc4_discard_add)
    qed
    then show ?thesis using True s2 d by (intro exI [of _ ?t] exI [of _ s2] exI [of _ "[x, y, pad]"] exI [of _ 3]) simp
  next
    case False
    obtain t3 s3 where s3: "clienta_padding env s2 = (Inr None, s3)" "holds t3 [x, y, pad] True True ?k 3 s3" "answers ?t t3"
      using clienta_padding_ok [OF s2(1), where env = env] c unfolding can_answer_def by blast
    have "padding = []" using False assms(5) by simp
    then show ?thesis using False s2(2) s3(1,2) answers_done [OF s3(3) c] d
      by (intro exI [of _ t3] exI [of _ s3] exI [of _ "[x, y, pad]"] exI [of _ 3]) simp
  qed
qed (simp_all add: raw_def assms(2))

lemma a_magic:
  assumes "collects t [] True k s" and "m_NegotiatingState t = ONS_BASIC_CLIENTA_MAGICVALUE" and "m_nReceiveBytesWanted t = 4"
    and "can_answer t h ks" and "length padding = unat pad"
  shows "loop_leads room env (a_done h (rc4_discard (7 + length padding) k) ks) (fst (RC4Crypt (hello pad padding) k)) s"
proof (rule cipher_stage [OF assms(1) _ assms(3)])
  let ?k = "rc4_discard 4 k"
  let ?t = "t\<lparr>m_nReceiveBytesWanted := 0, m_NegotiatingState := ONS_BASIC_CLIENTA_METHODTAGSPADLEN, m_nReceiveBytesWanted := 3\<rparr>"
  have e: "take 4 (hello pad padding) = le_bytes 4 MAGICVALUE_SYNC" "drop 4 (hello pad padding) = [ENM_OBFUSCATION, ENM_OBFUSCATION, pad] @ padding"
    by (simp_all add: hello_def)
  fix s1 assume "holds (t\<lparr>m_nReceiveBytesWanted := 0\<rparr>) (take 4 (hello pad padding)) True True ?k 0 s1"
  then have h: "holds (t\<lparr>m_nReceiveBytesWanted := 0\<rparr>) (le_bytes 4 MAGICVALUE_SYNC) True True ?k 0 s1" unfolding e .
  obtain s2 where s2: "negotiate_switch env s1 = (Inr None, s2)" "holds ?t (le_bytes 4 MAGICVALUE_SYNC) True True ?k 4 s2"
    using switch_magic(1) [OF h, of env] assms(2) by auto
  have c: "can_answer ?t h ks" using assms(4) by (simp add: can_answer_def send_empty_def handed_def)
  have "loop_leads room env (a_done h (rc4_discard (7 + length padding) k) ks) (fst (RC4Crypt ([ENM_OBFUSCATION, ENM_OBFUSCATION, pad] @ padding) ?k)) s3"
    if "holds ?t [] False True ?k 0 s3" for s3
  proof -
    have "collects ?t [] True ?k s3" using that assms(1) by (simp add: collects_def)
    from a_methodtags [OF this _ _ c assms(5)] show ?thesis by (simp add: rc4_discard_add del: RC4Crypt.simps append_Cons)
  qed
  then show "\<exists>t2 s2 c pos. negotiate_switch env s1 = (Inr None, s2) \<and> holds t2 c True True ?k pos s2 \<and>
         (\<forall>s3. holds t2 [] False True ?k 0 s3 \<longrightarrow>
           loop_leads room env (a_done h (rc4_discard (7 + length padding) k) ks) (fst (RC4Crypt (drop 4 (hello pad padding)) ?k)) s3)"
    using s2 unfolding e by blast
qed (simp_all add: raw_def assms(2) hello_def)

lemma a_randompart:
  assumes "collects t [] False k s" and "m_NegotiatingState t = ONS_BASIC_CLIENTA_RANDOMPART" and "m_nReceiveBytesWanted t = 4"
    and "send_empty t" and "\<not> m_hasKey (m_pfiSendBuffer t)" and "crypt_errors t = []" and "handed t = h" and "length padding = unat pad" and "length part = 4"
    and "kr = key_of (MD5 env (key_data (UserHash env) MAGICVALUE_REQUESTER part))" and "ks = key_of (MD5 env (key_data (UserHash env) MAGICVALUE_SERVER part))"
  shows "loop_leads room env (a_done h (rc4_discard (7 + length padding) kr) ks) (part @ fst (RC4Crypt (hello pad padding) kr)) s"
proof (rule stage [OF assms(1)])
  let ?t = "t\<lparr>m_nReceiveBytesWanted := 0, m_pfiSendBuffer := (m_pfiSendBuffer t)\<lparr>m_hasKey := True, m_key := ks\<rparr>,
              m_NegotiatingState := ONS_BASIC_CLIENTA_MAGICVALUE, m_nReceiveBytesWanted := 4\<rparr>"
  let ?bs = "part @ fst (RC4Crypt (hello pad padding) kr)"
  show "m_nReceiveBytesWanted t \<le> length ?bs" using assms(3,9) by simp
  have e: "take 4 ?bs = part" "drop 4 ?bs = fst (RC4Crypt (hello pad padding) kr)" using assms(9) by simp_all
  have r: "raw (m_NegotiatingState t)" using assms(2) by (simp add: raw_def)
  fix s1 assume h0: "holds (t\<lparr>m_nReceiveBytesWanted := 0\<rparr>) (plain (raw (m_NegotiatingState t)) ([] @ take (m_nReceiveBytesWanted t) ?bs) k)
     (\<not> raw (m_NegotiatingState t)) False (key_after (raw (m_NegotiatingState t)) ([] @ take (m_nReceiveBytesWanted t) ?bs) k) 0 s1"
  have h: "holds (t\<lparr>m_nReceiveBytesWanted := 0\<rparr>) part False False k 0 s1"
    using h0 r assms(9) unfolding assms(3) by (simp add: plain_def key_after_def)
  obtain s2 where s2: "negotiate_switch env s1 = (Inr None, s2)" "holds ?t part False True kr 4 s2"
    using switch_randompart [OF h _ assms(9), of env] assms(2,5,10,11) by auto
  have c: "can_answer ?t h ks" using assms(4-7) by (simp add: can_answer_def send_empty_def handed_def)
  have "collects ?t [] True kr (s2\<lparr>m_pfiReceiveBuffer := buf_reset (m_pfiReceiveBuffer s2)\<rparr>)"
    using recv_reset [OF s2(2)] assms(1) by (simp add: collects_def)
  from a_magic [OF this _ _ c assms(8)]
  have "loop_leads room env (a_done h (rc4_discard (7 + length padding) kr) ks) (drop (m_nReceiveBytesWanted t) ?bs) (s2\<lparr>m_pfiReceiveBuffer := buf_reset (m_pfiReceiveBuffer s2)\<rparr>)"
    unfolding assms(3) e by simp
  then show "\<exists>s2. negotiate_switch env s1 = (Inr None, s2) \<and>
      loop_leads room env (a_done h (rc4_discard (7 + length padding) kr) ks) (drop (m_nReceiveBytesWanted t) ?bs) (s2\<lparr>m_pfiReceiveBuffer := buf_reset (m_pfiReceiveBuffer s2)\<rparr>)"
    using s2(1) by blast
qed

section \<open>The outgoing side\<close>

lemma clientb_padding_ok:
  assumes "holds t c enc hk k pos s"
  shows "\<exists>s'. clientb_padding s = (Inr None, s') \<and>
     holds (t\<lparr>m_NegotiatingState := ONS_COMPLETE, m_StreamCryptState := ECS_ENCRYPTING\<rparr>) c enc hk k pos s'"
  using holds_mod [OF assms, of "\<lambda>s. s\<lparr>m_NegotiatingState := ONS_COMPLETE, m_StreamCryptState := ECS_ENCRYPTING\<rparr>"]
  by (simp add: clientb_padding_def cs_seq_def cs_bind_def cs_mod_def switch_break_def cs_return_def)

definition b_done :: "rc4_key \<Rightarrow> uint8 list \<Rightarrow> rc4_key \<Rightarrow> crypt_socket \<Rightarrow> bool" where
  "b_done kr h ks s \<longleftrightarrow> done_keys s kr ks \<and> handed s = h"

definition b_ready :: "crypt_socket \<Rightarrow> uint8 list \<Rightarrow> rc4_key \<Rightarrow> bool" where
  "b_ready t h ks \<longleftrightarrow> m_hasKey (m_pfiSendBuffer t) \<and> crypt_errors t = [] \<and> handed t = h \<and> m_key (m_pfiSendBuffer t) = ks"

lemma b_completes:
  assumes "b_ready t h ks" and "holds (t\<lparr>m_NegotiatingState := ONS_COMPLETE, m_StreamCryptState := ECS_ENCRYPTING\<rparr>) [] False True k 0 s"
  shows "loop_leads room env (b_done k h ks) [] s"
  using holds_state [OF assms(2)] holds_handed [OF assms(2)] assms(1)
  by (intro loop_leads_complete) (simp_all add: b_done_def done_keys_def b_ready_def handed_def)

lemma b_padding:
  assumes "collects t [] True k s" and "m_NegotiatingState t = ONS_BASIC_CLIENTB_PADDING" and "m_nReceiveBytesWanted t = length padding" and "b_ready t h ks"
  shows "loop_leads room env (b_done (rc4_discard (length padding) k) h ks) (fst (RC4Crypt padding k)) s"
proof (rule cipher_stage [OF assms(1) _ assms(3)])
  let ?k = "rc4_discard (length padding) k"
  let ?t = "t\<lparr>m_nReceiveBytesWanted := 0\<rparr>"
  fix s1 assume h: "holds ?t (take (length padding) padding) True True ?k 0 s1"
  have c: "b_ready ?t h ks" using assms(4) by (simp add: b_ready_def handed_def)
  obtain s2 where s2: "clientb_padding s1 = (Inr None, s2)"
    "holds (?t\<lparr>m_NegotiatingState := ONS_COMPLETE, m_StreamCryptState := ECS_ENCRYPTING\<rparr>) (take (length padding) padding) True True ?k 0 s2"
    using clientb_padding_ok [OF h] by blast
  have "negotiate_switch env s1 = (Inr None, s2)" using s2(1) holds_state(1) [OF h] assms(2) by (simp add: negotiate_switch_def)
  then show "\<exists>t2 s2 c pos. negotiate_switch env s1 = (Inr None, s2) \<and> holds t2 c True True ?k pos s2 \<and>
         (\<forall>s3. holds t2 [] False True ?k 0 s3 \<longrightarrow> loop_leads room env (b_done ?k h ks) (fst (RC4Crypt (drop (length padding) padding) ?k)) s3)"
    using s2(2) b_completes [OF c]
    by (intro exI [of _ "?t\<lparr>m_NegotiatingState := ONS_COMPLETE, m_StreamCryptState := ECS_ENCRYPTING\<rparr>"] exI [of _ s2]
         exI [of _ "take (length padding) padding"] exI [of _ 0]) simp
qed (simp_all add: raw_def assms(2))

lemma switch_b_methodtags:
  assumes "holds t [ENM_OBFUSCATION, pad] enc hk k 0 s" and "m_NegotiatingState t = ONS_BASIC_CLIENTB_METHODTAGSPADLEN"
  shows "\<exists>s'. holds (t\<lparr>m_dbgbyEncryptionMethodSet := ENM_OBFUSCATION, m_NegotiatingState := ONS_BASIC_CLIENTB_PADDING,
              m_nReceiveBytesWanted := unat pad\<rparr>) [ENM_OBFUSCATION, pad] enc hk k 2 s' \<and>
     negotiate_switch env s = (if 0 < unat pad then (Inr None, s') else clientb_padding s')"
proof -
  obtain s1 where s1: "recv_op (buf_io ReadUInt8) s = (Inr ENM_OBFUSCATION, s1)" "holds t [ENM_OBFUSCATION, pad] enc hk k 1 s1"
    using recv_gets [of t "[]" "[ENM_OBFUSCATION]" "[pad]" enc hk k s ReadUInt8 ENM_OBFUSCATION] gets_ReadUInt8 [of ENM_OBFUSCATION] assms(1) by auto
  let ?g = "\<lambda>s. s\<lparr>m_dbgbyEncryptionMethodSet := ENM_OBFUSCATION\<rparr>"
  have h: "holds (?g t) [ENM_OBFUSCATION, pad] enc hk k 1 (?g s1)" by (rule holds_mod [OF s1(2)]) simp
  obtain s3 where s3: "recv_op (buf_io ReadUInt8) (?g s1) = (Inr pad, s3)" "holds (?g t) [ENM_OBFUSCATION, pad] enc hk k 2 s3"
    using recv_gets [of "?g t" "[ENM_OBFUSCATION]" "[pad]" "[]" enc hk k "?g s1" ReadUInt8 pad] gets_ReadUInt8 [of pad] h by (auto simp: numeral_2_eq_2)
  let ?s = "s3\<lparr>m_NegotiatingState := ONS_BASIC_CLIENTB_PADDING, m_nReceiveBytesWanted := unat pad\<rparr>"
  note w = holds_want [OF s3(2), where st = ONS_BASIC_CLIENTB_PADDING and n = "unat pad"]
  have "negotiate_switch env s = (if 0 < unat pad then (Inr None, ?s) else clientb_padding ?s)"
    using s1(1) s3(1) w(1) assms(2) holds_state(1) [OF assms(1)]
    by (simp add: negotiate_switch_def cs_bind_def cs_seq_def cs_mod_def switch_break_def cs_return_def)
  then show ?thesis using w(2) by (intro exI [of _ ?s]) simp
qed

lemma b_methodtags:
  assumes "collects t [] True k s" and "m_NegotiatingState t = ONS_BASIC_CLIENTB_METHODTAGSPADLEN" and "m_nReceiveBytesWanted t = 2"
    and "b_ready t h ks" and "length padding = unat pad"
  shows "loop_leads room env (b_done (rc4_discard (2 + length padding) k) h ks) (fst (RC4Crypt ([ENM_OBFUSCATION, pad] @ padding) k)) s"
proof (rule cipher_stage [OF assms(1) _ assms(3)])
  let ?k = "rc4_discard 2 k"
  let ?t = "t\<lparr>m_nReceiveBytesWanted := 0, m_dbgbyEncryptionMethodSet := ENM_OBFUSCATION,
              m_NegotiatingState := ONS_BASIC_CLIENTB_PADDING, m_nReceiveBytesWanted := unat pad\<rparr>"
  fix s1 assume "holds (t\<lparr>m_nReceiveBytesWanted := 0\<rparr>) (take 2 ([ENM_OBFUSCATION, pad] @ padding)) True True ?k 0 s1"
  then have h: "holds (t\<lparr>m_nReceiveBytesWanted := 0\<rparr>) [ENM_OBFUSCATION, pad] True True ?k 0 s1" by simp
  obtain s2 where s2: "holds ?t [ENM_OBFUSCATION, pad] True True ?k 2 s2"
    "negotiate_switch env s1 = (if 0 < unat pad then (Inr None, s2) else clientb_padding s2)"
    using switch_b_methodtags [OF h, of env] assms(2) by auto
  have c: "b_ready ?t h ks" using assms(4) by (simp add: b_ready_def handed_def)
  have d: "drop 2 ([ENM_OBFUSCATION, pad] @ padding) = padding" by simp
  show "\<exists>t2 s2 c pos. negotiate_switch env s1 = (Inr None, s2) \<and> holds t2 c True True ?k pos s2 \<and>
         (\<forall>s3. holds t2 [] False True ?k 0 s3 \<longrightarrow>
           loop_leads room env (b_done (rc4_discard (2 + length padding) k) h ks) (fst (RC4Crypt (drop 2 ([ENM_OBFUSCATION, pad] @ padding)) ?k)) s3)"
  proof (cases "0 < unat pad")
    case True
    have "loop_leads room env (b_done (rc4_discard (2 + length padding) k) h ks) (fst (RC4Crypt padding ?k)) s3" if "holds ?t [] False True ?k 0 s3" for s3
    proof -
      have "collects ?t [] True ?k s3" using that assms(1) True less_trans [OF unat8_less, of 513 pad] by (simp add: collects_def)
      from b_padding [OF this _ _ c, of padding] show ?thesis using assms(5) by (simp add: rc4_discard_add)
    qed
    then show ?thesis using True s2 d by (intro exI [of _ ?t] exI [of _ s2] exI [of _ "[ENM_OBFUSCATION, pad]"] exI [of _ 2]) simp
  next
    case False
    obtain s3 where s3: "clientb_padding s2 = (Inr None, s3)"
      "holds (?t\<lparr>m_NegotiatingState := ONS_COMPLETE, m_StreamCryptState := ECS_ENCRYPTING\<rparr>) [ENM_OBFUSCATION, pad] True True ?k 2 s3"
      using clientb_padding_ok [OF s2(1)] by blast
    have "padding = []" using False assms(5) by simp
    then show ?thesis using False s2(2) s3 b_completes [OF c] d
      by (intro exI [of _ "?t\<lparr>m_NegotiatingState := ONS_COMPLETE, m_StreamCryptState := ECS_ENCRYPTING\<rparr>"] exI [of _ s3] exI [of _ "[ENM_OBFUSCATION, pad]"] exI [of _ 2]) simp
  qed
qed (simp_all add: raw_def assms(2))

lemma b_magic:
  assumes "collects t [] True k s" and "m_NegotiatingState t = ONS_BASIC_CLIENTB_MAGICVALUE" and "m_nReceiveBytesWanted t = 4"
    and "b_ready t h ks" and "length padding = unat pad"
  shows "loop_leads room env (b_done (rc4_discard (6 + length padding) k) h ks) (fst (RC4Crypt (reply pad padding) k)) s"
proof (rule cipher_stage [OF assms(1) _ assms(3)])
  let ?k = "rc4_discard 4 k"
  let ?t = "t\<lparr>m_nReceiveBytesWanted := 0, m_NegotiatingState := ONS_BASIC_CLIENTB_METHODTAGSPADLEN, m_nReceiveBytesWanted := 2\<rparr>"
  have e: "take 4 (reply pad padding) = le_bytes 4 MAGICVALUE_SYNC" "drop 4 (reply pad padding) = [ENM_OBFUSCATION, pad] @ padding"
    by (simp_all add: reply_def)
  fix s1 assume "holds (t\<lparr>m_nReceiveBytesWanted := 0\<rparr>) (take 4 (reply pad padding)) True True ?k 0 s1"
  then have h: "holds (t\<lparr>m_nReceiveBytesWanted := 0\<rparr>) (le_bytes 4 MAGICVALUE_SYNC) True True ?k 0 s1" unfolding e .
  obtain s2 where s2: "negotiate_switch env s1 = (Inr None, s2)" "holds ?t (le_bytes 4 MAGICVALUE_SYNC) True True ?k 4 s2"
    using switch_magic(2) [OF h, of env] assms(2) by auto
  have c: "b_ready ?t h ks" using assms(4) by (simp add: b_ready_def handed_def)
  have "loop_leads room env (b_done (rc4_discard (6 + length padding) k) h ks) (fst (RC4Crypt ([ENM_OBFUSCATION, pad] @ padding) ?k)) s3"
    if "holds ?t [] False True ?k 0 s3" for s3
  proof -
    have "collects ?t [] True ?k s3" using that assms(1) by (simp add: collects_def)
    from b_methodtags [OF this _ _ c assms(5)] show ?thesis by (simp add: rc4_discard_add del: RC4Crypt.simps append_Cons)
  qed
  then show "\<exists>t2 s2 c pos. negotiate_switch env s1 = (Inr None, s2) \<and> holds t2 c True True ?k pos s2 \<and>
         (\<forall>s3. holds t2 [] False True ?k 0 s3 \<longrightarrow>
           loop_leads room env (b_done (rc4_discard (6 + length padding) k) h ks) (fst (RC4Crypt (drop 4 (reply pad padding)) ?k)) s3)"
    using s2 unfolding e by blast
qed (simp_all add: raw_def assms(2) reply_def)

section \<open>The two sides\<close>

lemma leads_from_negotiating:
  assumes "loop_leads room env Q bs s" and "\<And>room p. loop_leads room env Q bs (noted room p s)" and "m_StreamCryptState s = ECS_NEGOTIATING"
    and "0 < m_nReceiveBytesWanted s" and "bs \<noteq> []"
  shows "leads room env Q bs s"
  unfolding leads_def
proof (intro allI impI, elim conjE)
  fix ps assume ps: "[] \<notin> set ps" "concat ps = bs"
  then obtain q qs where q: "ps = q # qs" using assms(5) by (cases ps) auto
  then have qn: "q \<noteq> []" and r: "bs = q @ concat qs" using ps by auto
  have "\<exists>s'. negotiate_loop env 0 q (noted room q s) = (Inr (int (0 + length q)), s') \<and> leads room env Q (concat qs) s'"
    using assms(2) [of room q] r unfolding loop_leads_def by blast
  then obtain s' where s': "negotiate_loop env 0 q (noted room q s) = (Inr (int (length q)), s')" "leads room env Q (concat qs) s'" by auto
  then have "Negotiate env q (noted room q s) = (Inr (int (length q)), s')" using assms(4) by (simp add: Negotiate_def noted_def)
  then have "crypt_Read env (room q) (Some q) s = (Inr (Some []), s')" using qn assms(3) by (intro crypt_Read_negotiating)
  then show "\<exists>s'. handshake_reads room env ps s = Some s' \<and> Q s'" using s'(2) q ps(1) by (auto simp: leads_def)
qed

lemma holds_self:
  assumes "m_pfiReceiveBuffer s = \<lparr>mem = f, m_encrypted = enc, m_hasKey = hk, m_key = k\<rparr>" and "growable f" and "contents f = c" and "m_position f = pos"
  shows "holds s c enc hk k pos s"
proof -
  have "s\<lparr>m_nObfusicationBytesReceived := m_nObfusicationBytesReceived s, m_bFullReceive := m_bFullReceive s,
      m_pfiReceiveBuffer := \<lparr>mem = f, m_encrypted = enc, m_hasKey = hk, m_key = k\<rparr>\<rparr> = s"
    unfolding assms(1) [symmetric] by simp
  then show ?thesis using holdsI [OF assms(2-4)] by metis
qed

lemma new_mem: "growable (new_memfile 1024 fresh)" "contents (new_memfile 1024 fresh) = []" "m_position (new_memfile 1024 fresh) = 0" "m_fileSize (new_memfile 1024 fresh) = 0"
  by (simp_all add: new_memfile_def growable_def mem_ok_def contents_def)

definition incoming :: "crypt_env \<Rightarrow> nat option list \<Rightarrow> crypt_socket" where
  "incoming env acc = (new_crypt_socket env)\<lparr>accepts := acc\<rparr>"

text \<open>A new socket that is told to encrypt and then that it is connected.\<close>

definition outgoing :: "crypt_env \<Rightarrow> uint8 list \<Rightarrow> nat option list \<Rightarrow> crypt_socket" where
  "outgoing env hash acc =
     snd (crypt_OnSend env (snd (SetConnectionEncryption env True (Some hash) False ((new_crypt_socket env)\<lparr>accepts := acc\<rparr>))))"

lemma incoming_leads:
  assumes "CryptLayerSupported env" and "not_protocol marker" and "length padding = unat pad" and "length part = 4"
    and "kr = key_of (MD5 env (key_data (UserHash env) MAGICVALUE_REQUESTER part))" and "ks = key_of (MD5 env (key_data (UserHash env) MAGICVALUE_SERVER part))"
  shows "leads room env (a_done [] (rc4_discard (7 + length padding) kr) ks) ([marker] @ part @ fst (RC4Crypt (hello pad padding) kr)) (incoming env acc)"
  unfolding leads_def
proof (intro allI impI, elim conjE)
  let ?bs = "part @ fst (RC4Crypt (hello pad padding) kr)"
  fix ps assume ps: "[] \<notin> set ps" "concat ps = [marker] @ ?bs"
  then obtain q qs where q: "ps = q # qs" by (cases ps) auto
  moreover have "q \<noteq> []" using q ps(1) by auto
  ultimately obtain p where p: "q = marker # p" "?bs = p @ concat qs" using ps(2) by (cases q) auto
  let ?s = "(noted room q (incoming env acc))\<lparr>m_NegotiatingState := ONS_BASIC_CLIENTA_RANDOMPART, m_StreamCryptState := ECS_NEGOTIATING, m_nReceiveBytesWanted := 4\<rparr>"
  have b: "m_pfiReceiveBuffer ?s = \<lparr>mem = new_memfile 1024 (fresh_mem env), m_encrypted = False, m_hasKey = False, m_key = zero_key\<rparr>"
    by (simp add: incoming_def new_crypt_socket_def new_rc4_buffer_def noted_def)
  have "collects ?s [] False zero_key ?s"
    using holds_self [OF b new_mem(1-3)] by (simp add: collects_def raw_def)
  moreover have "send_empty ?s" "\<not> m_hasKey (m_pfiSendBuffer ?s)" "crypt_errors ?s = []" "handed ?s = []"
    using new_mem [of "fresh_mem env"] by (simp_all add: incoming_def new_crypt_socket_def new_rc4_buffer_def noted_def send_empty_def handed_def)
  ultimately have "loop_leads room env (a_done [] (rc4_discard (7 + length padding) kr) ks) ?bs ?s"
    using assms(3-6) by (intro a_randompart) simp_all
  then obtain s' where s': "negotiate_loop env 0 p ?s = (Inr (int (0 + length p)), s')" "leads room env (a_done [] (rc4_discard (7 + length padding) kr) ks) (concat qs) s'"
    using p(2) unfolding loop_leads_def by blast
  then have n: "Negotiate env p ?s = (Inr (int (length p)), s')" by (simp add: Negotiate_def)
  have st: "m_StreamCryptState (incoming env acc) = ECS_UNKNOWN" using assms(1) by (simp add: incoming_def new_crypt_socket_def)
  have "crypt_Read env (room q) (Some q) (incoming env acc) = (Inr (Some []), s')"
    using n assms(2) st p(1)
    by (simp add: crypt_Read_def Let_def not_protocol_def cs_seq_def cs_bind_def StartNegotiation_def noted_def cs_return_def)
  then show "\<exists>s'. handshake_reads room env ps (incoming env acc) = Some s' \<and> a_done [] (rc4_discard (7 + length padding) kr) ks s'"
    using s'(2) q ps(1) by (auto simp: leads_def)
qed

lemma puts_request:
  "puts (io_seq (WriteUInt8 marker) (io_seq (WriteUInt32 part) (io_seq (WriteUInt32 MAGICVALUE_SYNC)
           (io_seq (WriteUInt8 ENM_OBFUSCATION) (io_seq (WriteUInt8 ENM_OBFUSCATION) (io_seq (WriteUInt8 pad)
             (io_foreach padding WriteUInt8)))))))
     ([marker] @ le_bytes 4 part @ hello pad padding)"
proof -
  have "puts (io_seq (WriteUInt8 marker) (io_seq (WriteUInt32 part) (io_seq (WriteUInt32 MAGICVALUE_SYNC)
           (io_seq (WriteUInt8 ENM_OBFUSCATION) (io_seq (WriteUInt8 ENM_OBFUSCATION) (io_seq (WriteUInt8 pad)
             (io_foreach padding WriteUInt8)))))))
     ([marker] @ le_bytes 4 part @ le_bytes 4 MAGICVALUE_SYNC @ [ENM_OBFUSCATION] @ [ENM_OBFUSCATION] @ [pad] @ padding)"
    by (intro puts_seq int_puts(3) puts_WriteUInt8 puts_padding)
  then show ?thesis by (simp add: hello_def)
qed

lemma outgoing_ok:
  assumes "kr = key_of (MD5 env (key_data hash MAGICVALUE_SERVER (le_bytes 4 (random32 env))))"
    and "ks = key_of (MD5 env (key_data hash MAGICVALUE_REQUESTER (le_bytes 4 (random32 env))))"
  shows "\<exists>marker pad padding. not_protocol marker \<and> length padding = unat pad \<and>
     (let h = [marker] @ le_bytes 4 (random32 env) @ fst (RC4Crypt (hello pad padding) ks) in
      b_ready (outgoing env hash acc) h (rc4_discard (7 + length padding) ks) \<and>
      collects (outgoing env hash acc) [] True kr (outgoing env hash acc) \<and>
      m_NegotiatingState (outgoing env hash acc) = ONS_BASIC_CLIENTB_MAGICVALUE \<and> m_nReceiveBytesWanted (outgoing env hash acc) = 4)"
proof -
  let ?part = "random32 env"
  let ?rb = "\<lparr>mem = new_memfile 1024 (fresh_mem env), m_encrypted = False, m_hasKey = True, m_key = kr\<rparr>"
  let ?sb = "\<lparr>mem = new_memfile 1024 (fresh_mem env), m_encrypted = False, m_hasKey = True, m_key = ks\<rparr>"
  define s where "s = (new_crypt_socket env)\<lparr>accepts := acc, m_StreamCryptState := ECS_PENDING, m_nRandomKeyPart := ?part,
     m_pfiSendBuffer := ?sb, m_pfiReceiveBuffer := ?rb\<rparr>"
  have s: "SetConnectionEncryption env True (Some hash) False ((new_crypt_socket env)\<lparr>accepts := acc\<rparr>) = (Inr (), s)"
    by (simp add: SetConnectionEncryption_def new_crypt_socket_def new_rc4_buffer_def cs_seq_def cs_bind_def send_op_def recv_op_def SetKey_def s_def
        assms key_of_def Let_def)
  obtain marker d where m: "GetSemiRandomNotProtocolMarker env s = (Inr marker, s\<lparr>draws := d\<rparr>)" "not_protocol marker"
    using marker_loop_ok [of env 128 s] by (auto simp: GetSemiRandomNotProtocolMarker_def)
  define pad where "pad = (of_nat (unat (random8 env d) mod (unat (CryptTCPPaddingLength env) + 1)) :: uint8)"
  define padding where "padding = map (random8 env) [Suc d..<Suc d + unat pad]"
  have lp: "length padding = unat pad" by (simp add: padding_def)
  let ?req = "[marker] @ le_bytes 4 ?part @ hello pad padding"
  let ?s = "s\<lparr>draws := Suc d + unat pad, m_NegotiatingState := ONS_BASIC_CLIENTB_MAGICVALUE, m_StreamCryptState := ECS_NEGOTIATING, m_nReceiveBytesWanted := 4\<rparr>"
  have e: "send_empty ?s" "m_hasKey (m_pfiSendBuffer ?s)" "handed ?s = []" using new_mem [of "fresh_mem env"]
    by (simp_all add: s_def send_empty_def handed_def new_crypt_socket_def)
  have l: "5 < length ?req" "length ?req < SOCKET_ERROR" "length ?req - 5 = 7 + length padding"
    using lp less_trans [OF unat8_less, of 4294967283 pad] by (simp_all add: hello_def SOCKET_ERROR_def)
  have ht: "take 5 ?req = [marker] @ le_bytes 4 ?part" "drop 5 ?req = hello pad padding" by simp_all
  have mk: "m_key (m_pfiSendBuffer ?s) = ks" by (simp add: s_def)
  obtain r f acc' nt where w: "SendNegotiatingData (Some ?req) 5 False ?s =
      (Inr r, ?s\<lparr>m_pfiSendBuffer := (m_pfiSendBuffer ?s)\<lparr>mem := f, m_key := rc4_discard (7 + length padding) ks\<rparr>, accepts := acc', net := nt\<rparr>)"
      "nt @ contents f = [marker] @ le_bytes 4 ?part @ fst (RC4Crypt (hello pad padding) ks)"
    using SendNegotiatingData_ok [OF e(1,2) l(1,2)] unfolding l(3) ht e(3) mk by auto
  let ?b = "?s\<lparr>m_pfiSendBuffer := (m_pfiSendBuffer ?s)\<lparr>mem := f, m_key := rc4_discard (7 + length padding) ks\<rparr>, accepts := acc', net := nt\<rparr>"
  have st: "m_StreamCryptState s = ECS_PENDING" "m_nRandomKeyPart s = ?part" by (simp_all add: s_def)
  have pd: "of_nat (unat (random8 env d) mod Suc (unat (CryptTCPPaddingLength env))) = pad"
    "map (random8 env) [Suc d..<Suc (d + unat pad)] = padding" by (simp_all add: pad_def padding_def del: upt_Suc)
  have "StartNegotiation env True s = (Inr (), ?b)"
    using m(1) w(1) st file_of_puts [OF puts_request, of 29 env marker ?part pad padding]
    by (simp add: StartNegotiation_def cs_bind_def cs_seq_def cs_mod_def cs_return_def GetRandomUint8_def random_bytes_ok Let_def
        pd del: upt_Suc)
  then have b: "outgoing env hash acc = ?b" using s st(1) by (simp add: outgoing_def crypt_OnSend_def)
  have rb: "m_pfiReceiveBuffer ?b = ?rb" by (simp add: s_def)
  have "holds ?b [] False True kr (length ([] :: uint8 list)) ?b" unfolding list.size by (rule holds_self [OF rb new_mem(1-3)])
  then have "collects ?b [] True kr ?b" unfolding collects_def by (intro conjI) simp_all
  moreover have "b_ready ?b ([marker] @ le_bytes 4 ?part @ fst (RC4Crypt (hello pad padding) ks)) (rc4_discard (7 + length padding) ks)"
    using w(2) by (simp add: b_ready_def handed_def s_def new_crypt_socket_def)
  ultimately show ?thesis using m(2) lp unfolding b
    by (intro exI [of _ marker] exI [of _ pad] exI [of _ padding]) simp
qed

definition established :: "crypt_socket \<Rightarrow> crypt_socket \<Rightarrow> bool" where
  "established a b \<longleftrightarrow>
     (\<forall>s \<in> {a, b}. m_StreamCryptState s = ECS_ENCRYPTING \<and> m_NegotiatingState s = ONS_COMPLETE \<and> crypt_errors s = []
        \<and> m_hasKey (m_pfiReceiveBuffer s) \<and> m_hasKey (m_pfiSendBuffer s))
     \<and> m_key (m_pfiSendBuffer a) = m_key (m_pfiReceiveBuffer b) \<and> m_key (m_pfiSendBuffer b) = m_key (m_pfiReceiveBuffer a)"

lemma established_done: "done_keys a kr ks \<Longrightarrow> done_keys b ks kr \<Longrightarrow> established a b"
  by (simp add: established_def done_keys_def)

lemma handshake:
  assumes "CryptLayerSupported ea" and "MD5 eb = MD5 ea" and "[] \<notin> set ps" and "concat ps = handed (outgoing eb (UserHash ea) accb)"
  shows "\<exists>a. handshake_reads ra ea ps (incoming ea acca) = Some a \<and>
     (\<forall>qs rb. [] \<notin> set qs \<and> concat qs = handed a \<longrightarrow>
       (\<exists>b. handshake_reads rb eb qs (outgoing eb (UserHash ea) accb) = Some b \<and> established a b
          \<and> handed b = handed (outgoing eb (UserHash ea) accb)))"
proof -
  let ?part = "le_bytes 4 (random32 eb)"
  let ?b = "outgoing eb (UserHash ea) accb"
  define kb where "kb = key_of (MD5 ea (key_data (UserHash ea) MAGICVALUE_SERVER ?part))"
  define ka where "ka = key_of (MD5 ea (key_data (UserHash ea) MAGICVALUE_REQUESTER ?part))"
  obtain marker pad padding where b: "not_protocol marker" "length padding = unat pad"
    "b_ready ?b ([marker] @ ?part @ fst (RC4Crypt (hello pad padding) ka)) (rc4_discard (7 + length padding) ka)"
    "collects ?b [] True kb ?b" "m_NegotiatingState ?b = ONS_BASIC_CLIENTB_MAGICVALUE" "m_nReceiveBytesWanted ?b = 4"
    using outgoing_ok [of kb eb "UserHash ea" ka accb] assms(2) by (auto simp: kb_def ka_def Let_def)
  have h: "handed ?b = [marker] @ ?part @ fst (RC4Crypt (hello pad padding) ka)" using b(3) by (simp add: b_ready_def)
  have "leads ra ea (a_done [] (rc4_discard (7 + length padding) ka) kb) (handed ?b) (incoming ea acca)"
    unfolding h by (rule incoming_leads [OF assms(1) b(1,2) length_le_bytes ka_def kb_def])
  then obtain a where a: "handshake_reads ra ea ps (incoming ea acca) = Some a" "a_done [] (rc4_discard (7 + length padding) ka) kb a"
    using assms(3,4) unfolding leads_def by blast
  obtain pad2 padding2 where a2: "length padding2 = unat pad2" "handed a = fst (RC4Crypt (reply pad2 padding2) kb)"
    "done_keys a (rc4_discard (7 + length padding) ka) (rc4_discard (6 + length padding2) kb)" using a(2) by (auto simp: a_done_def)
  have bl: "leads rb eb (b_done (rc4_discard (6 + length padding2) kb) (handed ?b) (rc4_discard (7 + length padding) ka)) (handed a) ?b" for rb
  proof (rule leads_from_negotiating)
    have r: "b_ready ?b (handed ?b) (rc4_discard (7 + length padding) ka)" using b(3) h by simp
    show "loop_leads rb eb (b_done (rc4_discard (6 + length padding2) kb) (handed ?b) (rc4_discard (7 + length padding) ka)) (handed a) ?b"
      unfolding a2(2) by (rule b_magic [OF b(4-6) r a2(1)])
    show "loop_leads room eb (b_done (rc4_discard (6 + length padding2) kb) (handed ?b) (rc4_discard (7 + length padding) ka)) (handed a) (noted room p ?b)" for room p
      unfolding a2(2) by (rule b_magic [OF collects_noted [OF b(4)] b(5,6) r a2(1)])
    show "m_StreamCryptState ?b = ECS_NEGOTIATING" using b(4) by (simp add: collects_def)
    show "0 < m_nReceiveBytesWanted ?b" using b(6) by simp
    have "length (handed a) = 6 + length padding2" by (simp add: a2(2) reply_def)
    then show "handed a \<noteq> []" by auto
  qed
  have "\<exists>b. handshake_reads rb eb qs ?b = Some b \<and> established a b \<and> handed b = handed ?b"
    if "[] \<notin> set qs" "concat qs = handed a" for qs rb
    using bl [of rb] that established_done [OF a2(3)] unfolding leads_def b_done_def by blast
  then show ?thesis using a(1) by blast
qed

text \<open>
  C9. Two clients that agree on a hash always finish the handshake: whatever the random numbers and the padding,
  however much each \<open>Write\<close> takes, and whatever the pieces in which the two messages arrive, both sides end
  encrypting, without an error and without mistaking a byte of the handshake for data, and the key each sends with is
  the key the other receives with.
\<close>

theorem crypt_handshake:
  assumes "CryptLayerSupported ea" and "MD5 eb = MD5 ea" and "[] \<notin> set ps" and "concat ps = handed (outgoing eb (UserHash ea) accb)"
  shows "\<exists>a. handshake_reads ra ea ps (incoming ea acca) = Some a \<and>
     (\<forall>qs rb. [] \<notin> set qs \<and> concat qs = handed a \<longrightarrow>
       (\<exists>b. handshake_reads rb eb qs (outgoing eb (UserHash ea) accb) = Some b \<and> established a b
          \<and> handed b = handed (outgoing eb (UserHash ea) accb)))"
  by (rule handshake [OF assms])

definition test_env :: crypt_env where
  "test_env = \<lparr>MD5 = (\<lambda>bs. take 16 (rev bs)), big_random = (\<lambda>_. 0), a_exp_b_mod_c = (\<lambda>a b c. a ^ b mod c), big_decode = (\<lambda>_. 0),
     big_encode = (\<lambda>_ n. replicate n 0), random8 = (\<lambda>n. of_nat n), random32 = 5, fresh_mem = (\<lambda>_. 0), CryptTCPPaddingLength = 3,
     CryptLayerSupported = True, CryptLayerRequired = False, CryptLayerRequiredStrict = False, AwaitingTestFromIP = False,
     KadFirewallCheckIP = False, UserHash = replicate 16 7\<rparr>"

theorem crypt_handshake_witness:
  "\<exists>a. handshake_reads length test_env (map (\<lambda>b. [b]) (handed (outgoing test_env (UserHash test_env) [Some 3]))) (incoming test_env [None]) = Some a \<and>
     (\<forall>qs rb. [] \<notin> set qs \<and> concat qs = handed a \<longrightarrow>
       (\<exists>b. handshake_reads rb test_env qs (outgoing test_env (UserHash test_env) [Some 3]) = Some b \<and> established a b
          \<and> handed b = handed (outgoing test_env (UserHash test_env) [Some 3])))"
  by (rule crypt_handshake) (auto simp: test_env_def concat_map_singleton)

section \<open>The data\<close>

primrec send_all :: "uint8 list list \<Rightarrow> crypt_socket \<Rightarrow> (uint8 list \<times> crypt_socket) option" where
  "send_all [] s = Some ([], s)"
| "send_all (p # ps) s =
     (case CryptPrepareSendData p s of
        (Inr c, s') \<Rightarrow> map_option (\<lambda>(cs, s''). (c @ cs, s'')) (send_all ps s')
      | _ \<Rightarrow> None)"

primrec read_all :: "(uint8 list \<Rightarrow> nat) \<Rightarrow> crypt_env \<Rightarrow> uint8 list list \<Rightarrow> crypt_socket \<Rightarrow> (uint8 list \<times> crypt_socket) option" where
  "read_all room env [] s = Some ([], s)"
| "read_all room env (p # ps) s =
     (case crypt_Read env (room p) (Some p) s of
        (Inr (Some out), s') \<Rightarrow> map_option (\<lambda>(outs, s''). (out @ outs, s'')) (read_all room env ps s')
      | _ \<Rightarrow> None)"

definition with_send_key :: "rc4_key \<Rightarrow> crypt_socket \<Rightarrow> crypt_socket" where
  "with_send_key k s = s\<lparr>m_pfiSendBuffer := (m_pfiSendBuffer s)\<lparr>m_key := k\<rparr>\<rparr>"

lemma send_all_ok:
  "m_StreamCryptState s = ECS_ENCRYPTING \<Longrightarrow> IsEncryptionLayerReady s \<Longrightarrow> m_hasKey (m_pfiSendBuffer s) \<Longrightarrow>
     send_all ps s = Some (fst (RC4Crypt (concat ps) (m_key (m_pfiSendBuffer s))),
       with_send_key (rc4_discard (length (concat ps)) (m_key (m_pfiSendBuffer s))) s)"
proof (induction ps arbitrary: s)
  case Nil
  then show ?case by (simp add: with_send_key_def)
next
  case (Cons p ps)
  let ?k = "m_key (m_pfiSendBuffer s)"
  let ?s = "with_send_key (rc4_discard (length p) ?k) s"
  have c: "CryptPrepareSendData p s = (Inr (fst (RC4Crypt p ?k)), ?s)"
    using Cons.prems by (simp add: CryptPrepareSendData_def send_op_def buf_crypt_def snd_RC4Crypt with_send_key_def)
  have "IsEncryptionLayerReady ?s" "m_StreamCryptState ?s = ECS_ENCRYPTING" "m_hasKey (m_pfiSendBuffer ?s)"
    using Cons.prems by (simp_all add: IsEncryptionLayerReady_def with_send_key_def IsEmpty_def)
  from Cons.IH [OF this(2,1,3)] show ?case using c
    by (simp add: RC4Crypt_append snd_RC4Crypt with_send_key_def rc4_discard_add)
qed

lemma read_all_ok:
  "m_StreamCryptState s = ECS_ENCRYPTING \<Longrightarrow> m_hasKey (m_pfiReceiveBuffer s) \<Longrightarrow> [] \<notin> set ps \<Longrightarrow>
     \<exists>n b. read_all room env ps s = Some (fst (RC4Crypt (concat ps) (m_key (m_pfiReceiveBuffer s))),
       s\<lparr>m_nObfusicationBytesReceived := n, m_bFullReceive := b,
         m_pfiReceiveBuffer := (m_pfiReceiveBuffer s)\<lparr>m_key := rc4_discard (length (concat ps)) (m_key (m_pfiReceiveBuffer s))\<rparr>\<rparr>)"
proof (induction ps arbitrary: s)
  case Nil
  have "s\<lparr>m_nObfusicationBytesReceived := m_nObfusicationBytesReceived s, m_bFullReceive := m_bFullReceive s,
      m_pfiReceiveBuffer := (m_pfiReceiveBuffer s)\<lparr>m_key := m_key (m_pfiReceiveBuffer s)\<rparr>\<rparr> = s" by simp
  then show ?case by (intro exI [of _ "m_nObfusicationBytesReceived s"] exI [of _ "m_bFullReceive s"]) simp
next
  case (Cons p ps)
  let ?k = "m_key (m_pfiReceiveBuffer s)"
  let ?s = "s\<lparr>m_nObfusicationBytesReceived := length p, m_bFullReceive := (length p = room p),
      m_pfiReceiveBuffer := (m_pfiReceiveBuffer s)\<lparr>m_key := rc4_discard (length p) ?k\<rparr>\<rparr>"
  have r: "crypt_Read env (room p) (Some p) s = (Inr (Some (fst (RC4Crypt p ?k))), ?s)"
    using Cons.prems by (simp add: crypt_Read_def Let_def cs_bind_def recv_op_def buf_crypt_def snd_RC4Crypt cs_return_def)
  obtain n b where "read_all room env ps ?s = Some (fst (RC4Crypt (concat ps) (m_key (m_pfiReceiveBuffer ?s))),
       ?s\<lparr>m_nObfusicationBytesReceived := n, m_bFullReceive := b,
         m_pfiReceiveBuffer := (m_pfiReceiveBuffer ?s)\<lparr>m_key := rc4_discard (length (concat ps)) (m_key (m_pfiReceiveBuffer ?s))\<rparr>\<rparr>)"
    using Cons.IH [of ?s] Cons.prems by auto
  then show ?case using r
    by (intro exI [of _ n] exI [of _ b]) (simp add: RC4Crypt_append snd_RC4Crypt rc4_discard_add)
qed

text \<open>
  C10. On an established connection whatever one side prepares for sending, the other reads, whatever the pieces it
  arrives in; and the connection stays established, so that this holds of everything that follows.
\<close>

theorem crypt_data:
  assumes "established a b" and "IsEncryptionLayerReady a" and "send_all ps a = Some (cipher, a')" and "[] \<notin> set qs" and "concat qs = cipher"
  shows "\<exists>b'. read_all room env qs b = Some (concat ps, b') \<and> established a' b'"
proof -
  let ?k = "m_key (m_pfiSendBuffer a)"
  have e: "m_StreamCryptState a = ECS_ENCRYPTING" "m_hasKey (m_pfiSendBuffer a)" "m_StreamCryptState b = ECS_ENCRYPTING"
    "m_hasKey (m_pfiReceiveBuffer b)" "m_key (m_pfiReceiveBuffer b) = ?k" using assms(1) by (simp_all add: established_def)
  have s: "concat qs = fst (RC4Crypt (concat ps) ?k)" "a' = with_send_key (rc4_discard (length (concat ps)) ?k) a"
    using send_all_ok [OF e(1) assms(2) e(2), of ps] assms(3,5) by simp_all
  obtain n f where "read_all room env qs b = Some (fst (RC4Crypt (concat qs) ?k),
       b\<lparr>m_nObfusicationBytesReceived := n, m_bFullReceive := f,
         m_pfiReceiveBuffer := (m_pfiReceiveBuffer b)\<lparr>m_key := rc4_discard (length (concat qs)) ?k\<rparr>\<rparr>)"
    using read_all_ok [OF e(3,4) assms(4), of room env] unfolding e(5) by blast
  moreover have "length (concat qs) = length (concat ps)" using s(1) by (metis length_RC4Crypt)
  ultimately show ?thesis using s assms(1) by (simp add: RC4Crypt_twice established_def with_send_key_def)
qed

definition test_socket :: crypt_socket where
  "test_socket = (new_crypt_socket test_env)\<lparr>m_StreamCryptState := ECS_ENCRYPTING, m_NegotiatingState := ONS_COMPLETE,
     m_pfiReceiveBuffer := (new_rc4_buffer (\<lambda>_. 0))\<lparr>m_hasKey := True\<rparr>, m_pfiSendBuffer := (new_rc4_buffer (\<lambda>_. 0))\<lparr>m_hasKey := True\<rparr>\<rparr>"

theorem crypt_data_witness:
  "\<exists>cipher a'. send_all [[1, 2], [3]] test_socket = Some (cipher, a') \<and>
     (\<exists>b'. read_all length test_env [cipher] test_socket = Some (concat [[1, 2], [3]], b') \<and> established a' b')"
proof -
  have t: "established test_socket test_socket" "IsEncryptionLayerReady test_socket" "m_hasKey (m_pfiSendBuffer test_socket)"
    "m_StreamCryptState test_socket = ECS_ENCRYPTING"
    by (simp_all add: test_socket_def established_def new_crypt_socket_def new_rc4_buffer_def IsEncryptionLayerReady_def IsEmpty_def new_memfile_def)
  obtain cipher a' where s: "send_all [[1, 2], [3]] test_socket = Some (cipher, a')"
    "cipher = fst (RC4Crypt (concat [[1, 2], [3]]) (m_key (m_pfiSendBuffer test_socket)))"
    using send_all_ok [OF t(4,2,3), of "[[1, 2], [3]]"] by blast
  have "length cipher = 3" unfolding s(2) length_RC4Crypt by simp
  then have "[] \<notin> set [cipher]" by auto
  from crypt_data [OF t(1,2) s(1) this, of length test_env] s(1) show ?thesis by auto
qed

end
