(* ===== verification/UDP_Crypt.thy ===== *)
theory UDP_Crypt
  imports RC4 Packet Kad_Contact
begin

text \<open>
  The obfuscation of UDP packets: \<open>CEncryptedDatagramSocket\<close> (\<open>src/src/EncryptedDatagramSocket.cpp\<close>). The buffers are lists;
  \<open>*bufOut\<close> is an offset into the input buffer, which is decrypted in place. Numbers are stored in little endian, as
  \<open>PokeUInt32\<close> does and \<open>ENDIAN_SWAP\<close> on a little-endian machine. MD5, the random generators and the preferences are arguments.
\<close>

section \<open>Constants and surroundings\<close>

definition CRYPT_HEADER_WITHOUTPADDING :: nat where "CRYPT_HEADER_WITHOUTPADDING = 8"
definition MAGICVALUE_UDP :: uint8 where "MAGICVALUE_UDP = 91"
definition MAGICVALUE_UDP_SYNC_CLIENT :: uint32 where "MAGICVALUE_UDP_SYNC_CLIENT = 0x395F2EC1"
definition MAGICVALUE_UDP_SYNC_SERVER :: uint32 where "MAGICVALUE_UDP_SYNC_SERVER = 0x13EF24D5"
definition MAGICVALUE_UDP_SERVERCLIENT :: uint8 where "MAGICVALUE_UDP_SERVERCLIENT = 0xA5"
definition MAGICVALUE_UDP_CLIENTSERVER :: uint8 where "MAGICVALUE_UDP_CLIENTSERVER = 0x6B"
definition OP_UDPRESERVEDPROT1 :: uint8 where "OP_UDPRESERVEDPROT1 = 0xA3"
definition OP_UDPRESERVEDPROT2 :: uint8 where "OP_UDPRESERVEDPROT2 = 0xB2"

text \<open>\<open>KadID\<close> is \<open>None\<close> when Kademlia has never run. \<open>udp_random8 i\<close> is what the i-th call of \<open>GetRandomUint8\<close> returns.\<close>

record udp_env =
  udp_MD5 :: "uint8 list \<Rightarrow> uint8 list"
  KadID :: "CUInt128 option"
  udp_UserHash :: "uint8 list"
  KadUDPKey :: uint32
  PublicIP :: uint32
  ServerCryptLayerUDPEnabled :: bool
  udp_random8 :: "nat \<Rightarrow> uint8"
  udp_random16 :: uint16

definition udp_key :: "udp_env \<Rightarrow> uint8 list \<Rightarrow> rc4_key" where
  "udp_key env keyData = RC4CreateKey (take 16 (udp_MD5 env keyData)) True"

definition plain_protocol :: "uint8 \<Rightarrow> bool" where
  "plain_protocol b \<longleftrightarrow> b = OP_EMULEPROT \<or> b = OP_KADEMLIAPACKEDPROT \<or> b = OP_KADEMLIAHEADER \<or>
     b = OP_UDPRESERVEDPROT1 \<or> b = OP_UDPRESERVEDPROT2 \<or> b = OP_PACKEDPROT"

definition GetUDPVerifyKey :: "udp_env \<Rightarrow> uint32 \<Rightarrow> uint32" where
  "GetUDPVerifyKey env targetIP =
     (let h = udp_MD5 env (le_bytes 4 targetIP @ le_bytes 4 (KadUDPKey env));
          word = (\<lambda>i. of_le (take 4 (drop i h)) :: uint32)
      in (word 0 XOR word 4 XOR word 8 XOR word 12) mod 0xFFFFFFFE + 1)"

section \<open>Between clients\<close>

definition ed2k_key_data :: "uint8 list \<Rightarrow> uint32 \<Rightarrow> uint8 list \<Rightarrow> uint8 list" where
  "ed2k_key_data hash ip keyPart = hash @ le_bytes 4 ip @ [MAGICVALUE_UDP] @ keyPart"

text \<open>The key of a try; a \<open>MD5Sum\<close> that was not computed is zero.\<close>

definition try_key :: "udp_env \<Rightarrow> uint8 list \<Rightarrow> uint32 \<Rightarrow> nat \<Rightarrow> rc4_key" where
  "try_key env bufIn ip currentTry =
     (let keyPart = take 2 (drop 1 bufIn) in
      if currentTry = 1 then udp_key env (ed2k_key_data (udp_UserHash env) ip keyPart)
      else
        case KadID env of
          None \<Rightarrow> RC4CreateKey (replicate 16 0) True
        | Some kadID \<Rightarrow>
            if currentTry = 0 then udp_key env (StoreCryptValue kadID @ keyPart)
            else udp_key env (le_bytes 4 (GetUDPVerifyKey env ip) @ keyPart))"

text \<open>The loop over the keys: the magic value of the last try, whether it was for Kademlia, and the key.\<close>

fun try_loop :: "udp_env \<Rightarrow> uint8 list \<Rightarrow> uint32 \<Rightarrow> nat \<Rightarrow> nat \<Rightarrow> uint32 \<times> bool \<times> rc4_key" where
  "try_loop env bufIn ip currentTry tries =
     (let tries = tries - 1;
          kad = (currentTry \<noteq> 1);
          (bs, k) = RC4Crypt (take 4 (drop 3 bufIn)) (try_key env bufIn ip currentTry);
          value = of_le bs;
          currentTry = (currentTry + 1) mod 3
      in if value \<noteq> MAGICVALUE_UDP_SYNC_CLIENT \<and> tries > 0 then try_loop env bufIn ip currentTry tries
         else (value, kad, k))"

declare try_loop.simps [simp del]

record decrypted =
  dec_result :: nat
  dec_offset :: nat
  dec_buffer :: "uint8 list"
  dec_receiverKey :: uint32
  dec_senderKey :: uint32

definition pass_through :: "uint8 list \<Rightarrow> decrypted" where
  "pass_through bufIn = \<lparr>dec_result = length bufIn, dec_offset = 0, dec_buffer = bufIn, dec_receiverKey = 0, dec_senderKey = 0\<rparr>"

definition decrypt_tail :: "uint8 list \<Rightarrow> nat \<Rightarrow> rc4_key \<Rightarrow> decrypted \<Rightarrow> decrypted" where
  "decrypt_tail bufIn result k d =
     (let off = length bufIn - result in
      d\<lparr>dec_result := result, dec_offset := off, dec_buffer := take off bufIn @ fst (RC4Crypt (drop off bufIn) k)\<rparr>)"

definition DecryptReceivedClient :: "udp_env \<Rightarrow> uint8 list \<Rightarrow> uint32 \<Rightarrow> decrypted" where
  "DecryptReceivedClient env bufIn ip =
     (let d = pass_through bufIn; bufLen = length bufIn in
      if bufLen \<le> CRYPT_HEADER_WITHOUTPADDING then d
      else if plain_protocol (bufIn ! 0) then d
      else
        let marker = unat (bufIn ! 0 AND 0x03);
            (value, kad, k) = (if KadID env = None then try_loop env bufIn ip 1 1
                               else try_loop env bufIn ip (if marker = 3 then 1 else marker) 3)
        in if value \<noteq> MAGICVALUE_UDP_SYNC_CLIENT then d
           else
             let (pb, k) = RC4Crypt (take 1 (drop 7 bufIn)) k;
                 padLen = unat (hd pb);
                 result = bufLen - CRYPT_HEADER_WITHOUTPADDING
             in if result \<le> padLen then d
                else
                  let k = rc4_discard padLen k; result = result - padLen in
                  if kad then
                    if result \<le> 8 then d
                    else
                      let at = CRYPT_HEADER_WITHOUTPADDING + padLen;
                          (rk, k) = RC4Crypt (take 4 (drop at bufIn)) k;
                          (sk, k) = RC4Crypt (take 4 (drop (at + 4) bufIn)) k
                      in decrypt_tail bufIn (result - 8) k (d\<lparr>dec_receiverKey := of_le rk, dec_senderKey := of_le sk\<rparr>)
                  else decrypt_tail bufIn result k d)"

text \<open>The first byte: random, but never a protocol, with the marker bits of the key.\<close>

definition client_marker :: "bool \<Rightarrow> bool \<Rightarrow> uint8 \<Rightarrow> uint8" where
  "client_marker kad kadRecvKeyUsed b =
     (let m = (if kad then b AND 0xFE else b OR 0x01) in
      if kad then if kadRecvKeyUsed then (m AND 0xFE) OR 0x02 else m AND 0xFC
      else m OR 0x01)"

function client_marker_loop :: "udp_env \<Rightarrow> bool \<Rightarrow> bool \<Rightarrow> nat \<Rightarrow> uint8" where
  "client_marker_loop env kad kadRecvKeyUsed i =
     (if i \<ge> 128 then 0x01
      else
        let m = client_marker kad kadRecvKeyUsed (udp_random8 env i) in
        if plain_protocol m then client_marker_loop env kad kadRecvKeyUsed (i + 1) else m)"
  by pat_completeness auto
termination
  by (relation "measure (\<lambda>(env, kad, r, i). 128 - i)") auto

declare client_marker_loop.simps [simp del]

definition null_or_zero :: "uint8 list option \<Rightarrow> bool" where
  "null_or_zero h \<longleftrightarrow> h = None \<or> h = Some (replicate 16 0)"

text \<open>\<open>None\<close>: nothing is encrypted, the buffer stays.\<close>

definition client_send_key :: "udp_env \<Rightarrow> uint8 list option \<Rightarrow> bool \<Rightarrow> uint32 \<Rightarrow> fault + (rc4_key \<times> bool) option" where
  "client_send_key env clientHashOrKadID kad receiverVerifyKey =
     (let keyPart = le_bytes 2 (udp_random16 env) in
      if kad then
        if null_or_zero clientHashOrKadID \<and> receiverVerifyKey \<noteq> 0 then
          Inr (Some (udp_key env (le_bytes 4 receiverVerifyKey @ keyPart), True))
        else if \<not> null_or_zero clientHashOrKadID then
          Inr (Some (udp_key env (the clientHashOrKadID @ keyPart), False))
        else Inr None
      else
        case clientHashOrKadID of
          None \<Rightarrow> Inl OutOfBounds
        | Some h \<Rightarrow> Inr (Some (udp_key env (ed2k_key_data h (PublicIP env) keyPart), False)))"

definition EncryptSendClient ::
  "udp_env \<Rightarrow> uint8 list \<Rightarrow> uint8 list option \<Rightarrow> bool \<Rightarrow> uint32 \<Rightarrow> uint32 \<Rightarrow> fault + uint8 list" where
  "EncryptSendClient env buf clientHashOrKadID kad receiverVerifyKey senderVerifyKey =
     sum_bind (client_send_key env clientHashOrKadID kad receiverVerifyKey) (\<lambda>r.
       Inr (case r of
          None \<Rightarrow> buf
        | Some (k, kadRecvKeyUsed) \<Rightarrow>
            let padLen = 0;
                (magic, k) = RC4Crypt (le_bytes 4 MAGICVALUE_UDP_SYNC_CLIENT) k;
                (pad, k) = RC4Crypt [of_nat padLen] k;
                (keys, k) = (if kad then
                    let (rk, k) = RC4Crypt (le_bytes 4 receiverVerifyKey) k;
                        (sk, k) = RC4Crypt (le_bytes 4 senderVerifyKey) k
                    in (rk @ sk, k)
                  else ([], k))
            in client_marker_loop env kad kadRecvKeyUsed 0 # le_bytes 2 (udp_random16 env) @ magic @ pad @ keys @ fst (RC4Crypt buf k)))"

section \<open>To and from servers\<close>

definition DecryptReceivedServer :: "udp_env \<Rightarrow> uint8 list \<Rightarrow> uint32 \<Rightarrow> decrypted" where
  "DecryptReceivedServer env bufIn dwBaseKey =
     (let d = pass_through bufIn; nBufLen = length bufIn in
      if nBufLen \<le> CRYPT_HEADER_WITHOUTPADDING \<or> \<not> ServerCryptLayerUDPEnabled env \<or> dwBaseKey = 0 then d
      else if bufIn ! 0 = OP_EDONKEYPROT then d
      else
        let k = udp_key env (le_bytes 4 dwBaseKey @ [MAGICVALUE_UDP_SERVERCLIENT] @ take 2 (drop 1 bufIn));
            (bs, k) = RC4Crypt (take 4 (drop 3 bufIn)) k
        in if of_le bs \<noteq> MAGICVALUE_UDP_SYNC_SERVER then d
           else
             let (pb, k) = RC4Crypt (take 1 (drop 7 bufIn)) k;
                 byPadLen = unat (hd pb AND 15);
                 nResult = nBufLen - CRYPT_HEADER_WITHOUTPADDING
             in if nResult \<le> byPadLen then d
                else decrypt_tail bufIn (nResult - byPadLen) (rc4_discard byPadLen k) d)"

function server_marker_loop :: "udp_env \<Rightarrow> nat \<Rightarrow> uint8" where
  "server_marker_loop env i =
     (if i \<ge> 128 then 0x01
      else if udp_random8 env i \<noteq> OP_EDONKEYPROT then udp_random8 env i else server_marker_loop env (i + 1))"
  by pat_completeness auto
termination
  by (relation "measure (\<lambda>(env, i). 128 - i)") auto

declare server_marker_loop.simps [simp del]

definition EncryptSendServer :: "udp_env \<Rightarrow> uint8 list \<Rightarrow> uint32 \<Rightarrow> uint8 list" where
  "EncryptSendServer env buf dwBaseKey =
     (let keyPart = le_bytes 2 (udp_random16 env);
          k = udp_key env (le_bytes 4 dwBaseKey @ [MAGICVALUE_UDP_CLIENTSERVER] @ keyPart);
          (magic, k) = RC4Crypt (le_bytes 4 MAGICVALUE_UDP_SYNC_SERVER) k;
          (pad, k) = RC4Crypt [0] k
      in server_marker_loop env 0 # keyPart @ magic @ pad @ fst (RC4Crypt buf k))"

end
