(* ===== verification/UDP_Crypt_Props.thy ===== *)
theory UDP_Crypt_Props
  imports UDP_Crypt
begin

text \<open>
  Correctness of the obfuscation of UDP packets: every datagram of the format of \<open>src/src/EncryptedDatagramSocket.cpp\<close> is
  decrypted, \<open>EncryptSendClient\<close> and \<open>EncryptSendServer\<close> make such datagrams, and no input takes the result out of the buffer.
\<close>

section \<open>Datagrams\<close>

declare RC4Crypt.simps(2) [simp del]

text \<open>The format of the comment at the head of the source, with any padding.\<close>

definition udp_datagram :: "uint8 \<Rightarrow> uint8 list \<Rightarrow> rc4_key \<Rightarrow> uint32 \<Rightarrow> uint8 list \<Rightarrow> uint8 list \<Rightarrow> uint8 list \<Rightarrow> uint8 list" where
  "udp_datagram m keyPart k magic pad keys payload =
     m # keyPart @ fst (RC4Crypt (le_bytes 4 magic @ [of_nat (length pad)] @ pad @ keys @ payload) k)"

lemma crypt_append: "fst (RC4Crypt (a @ b) k) = fst (RC4Crypt a k) @ fst (RC4Crypt b (rc4_discard (length a) k))"
  by (simp add: RC4Crypt_append snd_RC4Crypt)

lemma crypt_twice: "RC4Crypt (fst (RC4Crypt bs k)) k = (bs, rc4_discard (length bs) k)"
  by (simp add: prod_eq_iff RC4Crypt_twice snd_RC4Crypt)

lemma datagram_split:
  assumes "length keyPart = 2"
  shows "udp_datagram m keyPart k magic pad keys payload = m # keyPart @ fst (RC4Crypt (le_bytes 4 magic) k) @
      fst (RC4Crypt [of_nat (length pad)] (rc4_discard 4 k)) @ fst (RC4Crypt pad (rc4_discard 5 k)) @
      fst (RC4Crypt keys (rc4_discard (5 + length pad) k)) @ fst (RC4Crypt payload (rc4_discard (5 + length pad + length keys) k))"
  unfolding udp_datagram_def crypt_append length_le_bytes rc4_discard_add by (simp add: algebra_simps)

lemma datagram_parts:
  fixes m keyPart k magic pad keys payload
  defines "d \<equiv> udp_datagram m keyPart k magic pad keys payload"
  assumes "length keyPart = 2"
  shows "length d = 8 + length pad + length keys + length payload" "d ! 0 = m" "take 2 (drop 1 d) = keyPart"
    "take 4 (drop 3 d) = fst (RC4Crypt (le_bytes 4 magic) k)"
    "take 1 (drop 7 d) = fst (RC4Crypt [of_nat (length pad)] (rc4_discard 4 k))"
    "drop (8 + length pad) d = fst (RC4Crypt keys (rc4_discard (5 + length pad) k)) @ fst (RC4Crypt payload (rc4_discard (5 + length pad + length keys) k))"
proof -
  let ?a = "m # keyPart" and ?b = "fst (RC4Crypt (le_bytes 4 magic) k)" and ?c = "fst (RC4Crypt [of_nat (length pad)] (rc4_discard 4 k))"
    and ?p = "fst (RC4Crypt pad (rc4_discard 5 k))"
    and ?r = "fst (RC4Crypt keys (rc4_discard (5 + length pad) k)) @ fst (RC4Crypt payload (rc4_discard (5 + length pad + length keys) k))"
  have d: "d = ?a @ ?b @ ?c @ ?p @ ?r" using datagram_split [OF assms(2)] by (simp add: d_def)
  have l: "length ?a = 3" "length ?b = 4" "length ?c = 1" "length ?p = length pad" using assms(2) by (simp_all del: RC4Crypt.simps)
  show "length d = 8 + length pad + length keys + length payload" unfolding d using l by simp
  show "d ! 0 = m" "take 2 (drop 1 d) = keyPart" unfolding d using assms(2) by simp_all
  show "take 4 (drop 3 d) = ?b" unfolding d drop_append l by (simp add: l assms(2))
  have "drop 7 d = ?c @ ?p @ ?r"
    using l arg_cong [OF d, of "drop 7"] by (simp only: drop_append) simp
  then show "take 1 (drop 7 d) = ?c" using l(3) by simp
  have "length (?a @ ?b @ ?c @ ?p) = 8 + length pad" using l by simp
  moreover have "d = (?a @ ?b @ ?c @ ?p) @ ?r" unfolding d by simp
  ultimately show "drop (8 + length pad) d = ?r" by (metis append_eq_conv_conj)
qed

lemma of_le_4 [simp]: "of_le (le_bytes 4 w) = w" for w :: uint32
  by (simp add: of_le_bytes)

lemma decrypt_client:
  fixes m keyPart k pad rk sk payload
  defines "c \<equiv> (if unat (m AND 0x03) = 3 then 1 else unat (m AND 0x03))"
  defines "keys \<equiv> (if c = 1 then [] else le_bytes 4 rk @ le_bytes 4 sk)"
  defines "d \<equiv> udp_datagram m keyPart k MAGICVALUE_UDP_SYNC_CLIENT pad keys payload"
  assumes "\<not> plain_protocol m" "length keyPart = 2" "length pad \<le> 255" "payload \<noteq> []"
    and "KadID env = None \<Longrightarrow> c = 1" and "k = try_key env d ip c"
  shows "DecryptReceivedClient env d ip = \<lparr>dec_result = length payload, dec_offset = length d - length payload,
      dec_buffer = take (length d - length payload) d @ payload,
      dec_receiverKey = (if c = 1 then 0 else rk), dec_senderKey = (if c = 1 then 0 else sk)\<rparr>"
proof -
  note parts = datagram_parts [OF assms(5), where m = m and k = k and magic = MAGICVALUE_UDP_SYNC_CLIENT and pad = pad and keys = keys and payload = payload, folded d_def]
  have tl: "try_loop env d ip c n = (MAGICVALUE_UDP_SYNC_CLIENT, c \<noteq> 1, rc4_discard 4 k)" for n
    by (subst try_loop.simps) (simp add: parts(4) assms(9) [symmetric] crypt_twice Let_def)
  have t: "(if KadID env = None then try_loop env d ip 1 1 else try_loop env d ip c 3) = (MAGICVALUE_UDP_SYNC_CLIENT, c \<noteq> 1, rc4_discard 4 k)"
    using tl assms(8) by (cases "KadID env") simp_all
  have p: "RC4Crypt (take 1 (drop 7 d)) (rc4_discard 4 k) = ([of_nat (length pad)], rc4_discard 5 k)"
    unfolding parts(5) crypt_twice by (simp add: rc4_discard_add)
  have u: "unat (of_nat (length pad) :: uint8) = length pad" using assms(6) by (simp add: unat_of_nat)
  have ne: "0 < length payload" using assms(7) by simp
  have dec: "DecryptReceivedClient env d ip =
     (let result = length d - 8 - length pad; k = rc4_discard (5 + length pad) k in
      if c \<noteq> 1 then
        if result \<le> 8 then pass_through d
        else
          let (rk, k) = RC4Crypt (take 4 (drop (8 + length pad) d)) k;
              (sk, k) = RC4Crypt (take 4 (drop (8 + length pad + 4) d)) k
          in decrypt_tail d (result - 8) k ((pass_through d)\<lparr>dec_receiverKey := of_le rk, dec_senderKey := of_le sk\<rparr>)
      else decrypt_tail d result k (pass_through d))"
    using parts(1,2) assms(4) ne t p u unfolding c_def
    by (simp add: DecryptReceivedClient_def CRYPT_HEADER_WITHOUTPADDING_def Let_def rc4_discard_add del: One_nat_def)
  show ?thesis
  proof (cases "c = 1")
    case True
    have off: "length d - length payload = 8 + length pad" using parts(1) True by (simp add: keys_def)
    have tail: "drop (8 + length pad) d = fst (RC4Crypt payload (rc4_discard (5 + length pad) k))"
      using parts(6) True by (simp add: keys_def)
    have "length d - 8 - length pad = length payload" using parts(1) True by (simp add: keys_def)
    then show ?thesis unfolding dec Let_def using True
      by (simp add: decrypt_tail_def Let_def off tail RC4Crypt_twice pass_through_def)
  next
    case False
    let ?k = "rc4_discard (5 + length pad) k"
    have keys: "keys = le_bytes 4 rk @ le_bytes 4 sk" using False by (simp add: keys_def)
    have off: "length d - length payload = 8 + length pad + 8" using parts(1) keys by simp
    have tail: "drop (8 + length pad) d = fst (RC4Crypt (le_bytes 4 rk) ?k) @ fst (RC4Crypt (le_bytes 4 sk) (rc4_discard 4 ?k)) @
        fst (RC4Crypt payload (rc4_discard 8 ?k))"
      unfolding parts(6) keys crypt_append by (simp add: rc4_discard_add algebra_simps)
    have r: "take 4 (drop (8 + length pad) d) = fst (RC4Crypt (le_bytes 4 rk) ?k)" unfolding tail by simp
    have "drop (8 + length pad + 4) d = drop 4 (drop (8 + length pad) d)" by (simp add: add.commute)
    also have "\<dots> = fst (RC4Crypt (le_bytes 4 sk) (rc4_discard 4 ?k)) @ fst (RC4Crypt payload (rc4_discard 8 ?k))" unfolding tail by simp
    finally have s: "drop (8 + length pad + 4) d = fst (RC4Crypt (le_bytes 4 sk) (rc4_discard 4 ?k)) @ fst (RC4Crypt payload (rc4_discard 8 ?k))" .
    have "drop (8 + length pad + 8) d = drop 4 (drop (8 + length pad + 4) d)" by (simp add: add.commute)
    also have "\<dots> = fst (RC4Crypt payload (rc4_discard 8 ?k))" unfolding s by simp
    finally have e: "drop (8 + length pad + 8) d = fst (RC4Crypt payload (rc4_discard 8 ?k))" .
    have e': "drop (16 + length pad) d = fst (RC4Crypt payload (rc4_discard 8 ?k))" using e by (simp add: add.commute)
    have res: "length d - 8 - length pad = 8 + length payload" using parts(1) keys by simp
    have k1: "RC4Crypt (take 4 (drop (8 + length pad) d)) ?k = (le_bytes 4 rk, rc4_discard 4 ?k)" unfolding r crypt_twice by simp
    have k2: "RC4Crypt (take 4 (drop (8 + length pad + 4) d)) (rc4_discard 4 ?k) = (le_bytes 4 sk, rc4_discard 8 ?k)"
      unfolding s by (simp add: crypt_twice rc4_discard_add)
    show ?thesis unfolding dec Let_def res k1 prod.case k2 decrypt_tail_def using False ne
      by (simp add: off e' RC4Crypt_twice pass_through_def)
  qed
qed

lemma client_marker_bits:
  "unat (client_marker True False b AND 0x03) = 0" "unat (client_marker True True b AND 0x03) = 2"
  "unat (client_marker False r b AND 0x03) = 1 \<or> unat (client_marker False r b AND 0x03) = 3"
proof -
  obtain x where x: "b AND 3 = x" "x = 0 \<or> x = 1 \<or> x = 2 \<or> x = 3"
  proof
    show "b AND 3 = b AND 3" ..
    have "b AND 3 \<le> 3" by (rule word_and_le1)
    then have "unat (b AND 3) \<le> 3" by (simp add: word_le_nat_alt)
    then consider "unat (b AND 3) = 0" | "unat (b AND 3) = 1" | "unat (b AND 3) = 2" | "unat (b AND 3) = 3" by linarith
    then show "b AND 3 = 0 \<or> b AND 3 = 1 \<or> b AND 3 = 2 \<or> b AND 3 = 3"
      by cases (auto simp: word_unat_eq_iff)
  qed
  have "client_marker True False b AND 0x03 = 0" by (simp add: client_marker_def and.assoc)
  then show "unat (client_marker True False b AND 0x03) = 0" by simp
  have "client_marker True True b AND 0x03 = (b AND 3 AND 2) OR 2" by (simp add: client_marker_def bit.conj_disj_distrib2 and.assoc)
  also have "\<dots> = 2" using x by auto
  finally show "unat (client_marker True True b AND 0x03) = 2" by simp
  have "client_marker False r b AND 0x03 = (b AND 3) OR 1" by (simp add: client_marker_def bit.conj_disj_distrib2 or.assoc)
  also have "\<dots> = 1 \<or> \<dots> = 3" using x by auto
  finally show "unat (client_marker False r b AND 0x03) = 1 \<or> unat (client_marker False r b AND 0x03) = 3" by auto
qed

lemma client_marker_loop_ok:
  "client_marker_loop env kad r i = 0x01 \<or> (\<exists>b. client_marker_loop env kad r i = client_marker kad r b \<and> \<not> plain_protocol (client_marker kad r b))"
proof (induction env kad r i rule: client_marker_loop.induct)
  case (1 env kad r i)
  then show ?case by (subst (1 2) client_marker_loop.simps) (auto simp: Let_def)
qed

text \<open>What \<open>EncryptSendClient\<close> makes is such a datagram without padding.\<close>

lemma crypt_case: "case_prod f (RC4Crypt xs k) = f (fst (RC4Crypt xs k)) (rc4_discard (length xs) k)"
  by (simp add: case_prod_beta snd_RC4Crypt)

lemma encrypt_datagram:
  assumes "client_send_key env h kad rk = Inr (Some (k, used))"
  shows "EncryptSendClient env buf h kad rk sk =
    Inr (udp_datagram (client_marker_loop env kad used 0) (le_bytes 2 (udp_random16 env)) k MAGICVALUE_UDP_SYNC_CLIENT []
      (if kad then le_bytes 4 rk @ le_bytes 4 sk else []) buf)"
  unfolding EncryptSendClient_def assms sum_bind.simps option.case prod.case Let_def udp_datagram_def crypt_append
  by (cases kad) (simp_all add: crypt_case crypt_append rc4_discard_add numeral_eq_Suc)

text \<open>The ways to address a client: its user hash, its Kademlia identifier, or the key that it has given out for our address.\<close>

datatype udp_address = ByUserHash | ByKadID | ByVerifyKey

definition address_ok :: "udp_address \<Rightarrow> udp_env \<Rightarrow> udp_env \<Rightarrow> uint32 \<Rightarrow> uint8 list \<Rightarrow> bool \<Rightarrow> uint32 \<Rightarrow> bool" where
  "address_ok a S R ip h kad rk \<longleftrightarrow> udp_MD5 R = udp_MD5 S \<and>
     (case a of
        ByUserHash \<Rightarrow> \<not> kad \<and> h = udp_UserHash R \<and> PublicIP S = ip
      | ByKadID \<Rightarrow> kad \<and> h \<noteq> replicate 16 0 \<and> (\<exists>K. KadID R = Some K \<and> h = StoreCryptValue K) \<and> (\<exists>i < 128. \<not> plain_protocol (client_marker True False (udp_random8 S i)))
      | ByVerifyKey \<Rightarrow> kad \<and> h = replicate 16 0 \<and> KadID R \<noteq> None \<and> rk = GetUDPVerifyKey R ip \<and> rk \<noteq> 0 \<and> (\<exists>i < 128. \<not> plain_protocol (client_marker True True (udp_random8 S i))))"

lemma marker_1_plain: "\<not> plain_protocol 1"
  by (simp add: plain_protocol_def OP_EMULEPROT_def OP_KADEMLIAPACKEDPROT_def OP_KADEMLIAHEADER_def OP_UDPRESERVEDPROT1_def
      OP_UDPRESERVEDPROT2_def OP_PACKEDPROT_def)

lemma client_marker_loop_plain: "\<not> plain_protocol (client_marker_loop env kad r i)"
  using client_marker_loop_ok [of env kad r i] marker_1_plain by auto

lemma client_marker_loop_found:
  "j < 128 \<Longrightarrow> i \<le> j \<Longrightarrow> \<not> plain_protocol (client_marker kad r (udp_random8 env j)) \<Longrightarrow>
     \<exists>b. client_marker_loop env kad r i = client_marker kad r b"
proof (induction "j - i" arbitrary: i)
  case 0
  then show ?case by (subst client_marker_loop.simps) (auto simp: Let_def)
next
  case (Suc n)
  have "\<exists>b. client_marker_loop env kad r (i + 1) = client_marker kad r b" using Suc by (intro Suc.hyps(1)) auto
  then show ?case using Suc.prems Suc.hyps(2) by (subst client_marker_loop.simps) (auto simp: Let_def)
qed

lemma udp_client_core:
  assumes a: "address_ok a S R ip h kad rk" and "buf \<noteq> []"
  shows "\<exists>bs. EncryptSendClient S buf (Some h) kad rk sk = Inr bs \<and> length bs = 8 + (if kad then 8 else 0) + length buf \<and>
    DecryptReceivedClient R bs ip = \<lparr>dec_result = length buf, dec_offset = length bs - length buf,
      dec_buffer = take (length bs - length buf) bs @ buf,
      dec_receiverKey = (if kad then rk else 0), dec_senderKey = (if kad then sk else 0)\<rparr>"
proof -
  let ?kp = "le_bytes 2 (udp_random16 S)"
  obtain k used where k: "client_send_key S (Some h) kad rk = Inr (Some (k, used))" "used \<longleftrightarrow> a = ByVerifyKey"
      "k = (case a of ByUserHash \<Rightarrow> udp_key S (ed2k_key_data h (PublicIP S) ?kp) | ByKadID \<Rightarrow> udp_key S (h @ ?kp) | ByVerifyKey \<Rightarrow> udp_key S (le_bytes 4 rk @ ?kp))"
    using a by (cases a) (auto simp: client_send_key_def address_ok_def null_or_zero_def Let_def)
  let ?m = "client_marker_loop S kad used 0"
  let ?c = "if unat (?m AND 0x03) = 3 then 1 else unat (?m AND 0x03)"
  have c: "?c = (case a of ByUserHash \<Rightarrow> 1 | ByKadID \<Rightarrow> 0 | ByVerifyKey \<Rightarrow> 2)"
  proof (cases a)
    case ByUserHash
    then have "\<not> kad" using a by (simp add: address_ok_def)
    then consider "?m = 1" | b where "?m = client_marker False used b" using client_marker_loop_ok [of S False used 0] by auto
    then show ?thesis
    proof cases
      case 1
      then show ?thesis using ByUserHash by simp
    next
      case (2 b)
      then show ?thesis using ByUserHash client_marker_bits(3) [of used b] by auto
    qed
  next
    case ByKadID
    then obtain i where "i < 128" "\<not> plain_protocol (client_marker True False (udp_random8 S i))" "kad" "\<not> used" using a k(2) by (auto simp: address_ok_def)
    then obtain b where "?m = client_marker True False b" using client_marker_loop_found [of i 0 True False S] by auto
    then show ?thesis using client_marker_bits(1) [of b] ByKadID by simp
  next
    case ByVerifyKey
    then obtain i where "i < 128" "\<not> plain_protocol (client_marker True True (udp_random8 S i))" "kad" "used" using a k(2) by (auto simp: address_ok_def)
    then obtain b where "?m = client_marker True True b" using client_marker_loop_found [of i 0 True True S] by auto
    then show ?thesis using client_marker_bits(2) [of b] ByVerifyKey by simp
  qed
  define C where C: "C = ?c"
  have kc: "kad \<longleftrightarrow> C \<noteq> 1" using a unfolding C c by (cases a) (auto simp: address_ok_def)
  let ?keys = "if C = 1 then [] else le_bytes 4 rk @ le_bytes 4 sk"
  let ?bs = "udp_datagram ?m ?kp k MAGICVALUE_UDP_SYNC_CLIENT [] ?keys buf"
  have "(if kad then le_bytes 4 rk @ le_bytes 4 sk else []) = ?keys" using kc by auto
  then have e: "EncryptSendClient S buf (Some h) kad rk sk = Inr ?bs"
    using encrypt_datagram [OF k(1), of buf sk] by (simp only:)
  have l2: "length ?kp = 2" by simp
  note parts = datagram_parts [OF l2, where m = ?m and k = k and magic = MAGICVALUE_UDP_SYNC_CLIENT and pad = "[]"
    and keys = ?keys and payload = buf]
  have tk: "k = try_key R ?bs ip C"
    unfolding try_key_def Let_def parts(3) unfolding C c k(3) using a
    by (cases a) (auto simp: address_ok_def udp_key_def)
  have nk: "C = 1" if "KadID R = None" using that a unfolding C c by (cases a) (auto simp: address_ok_def)
  have "length ?bs = 8 + (if kad then 8 else 0) + length buf" using parts(1) kc by auto
  moreover have "DecryptReceivedClient R ?bs ip = \<lparr>dec_result = length buf, dec_offset = length ?bs - length buf,
      dec_buffer = take (length ?bs - length buf) ?bs @ buf, dec_receiverKey = (if C = 1 then 0 else rk), dec_senderKey = (if C = 1 then 0 else sk)\<rparr>"
    by (rule decrypt_client [where m = ?m, OF client_marker_loop_plain l2 _ assms(2), folded C]) (rule tk | erule nk | simp)+
  moreover have "(if C = 1 then 0 else rk) = (if kad then rk else 0)" "(if C = 1 then 0 else sk) = (if kad then sk else 0)" using kc by auto
  ultimately show ?thesis using e by simp
qed

section \<open>Servers\<close>

text \<open>A datagram of a server, with its padding of up to 15 bytes, is decrypted.\<close>

lemma server_decrypts:
  fixes env m keyPart pad payload key
  defines "k \<equiv> udp_key env (le_bytes 4 key @ [MAGICVALUE_UDP_SERVERCLIENT] @ keyPart)"
  defines "d \<equiv> udp_datagram m keyPart k MAGICVALUE_UDP_SYNC_SERVER pad [] payload"
  assumes "ServerCryptLayerUDPEnabled env" "key \<noteq> 0" "m \<noteq> OP_EDONKEYPROT" "length keyPart = 2" "length pad \<le> 15" "payload \<noteq> []"
  shows "DecryptReceivedServer env d key = \<lparr>dec_result = length payload, dec_offset = length d - length payload,
      dec_buffer = take (length d - length payload) d @ payload, dec_receiverKey = 0, dec_senderKey = 0\<rparr>"
proof -
  note parts = datagram_parts [OF assms(6), where m = m and k = k and magic = MAGICVALUE_UDP_SYNC_SERVER and pad = pad and keys = "[]" and payload = payload, folded d_def]
  have ne: "0 < length payload" using assms(8) by simp
  have c1: "\<not> (length d \<le> 8 \<or> \<not> ServerCryptLayerUDPEnabled env \<or> key = 0)" using parts(1) ne assms(3,4) by simp
  have c2: "\<not> d ! 0 = OP_EDONKEYPROT" using parts(2) assms(5) by simp
  have p: "RC4Crypt (take 1 (drop 7 d)) (rc4_discard 4 k) = ([of_nat (length pad)], rc4_discard 5 k)"
    unfolding parts(5) crypt_twice by (simp add: rc4_discard_add)
  have u: "unat ((of_nat (length pad) :: uint8) AND 15) = length pad"
  proof -
    have "(of_nat (length pad) :: uint8) AND 15 = take_bit 4 (of_nat (length pad))" by (simp add: take_bit_eq_mask mask_numeral)
    then show ?thesis using assms(7) by (simp add: unsigned_take_bit_eq take_bit_eq_mod unat_mod unat_of_nat)
  qed
  have c3: "\<not> length d - 8 \<le> length pad" using parts(1) ne by simp
  have res: "length d - 8 - length pad = length payload" using parts(1) by simp
  have off: "length d - length payload = 8 + length pad" using parts(1) by simp
  have tail: "drop (8 + length pad) d = fst (RC4Crypt payload (rc4_discard (5 + length pad) k))" using parts(6) by simp
  have "DecryptReceivedServer env d key = decrypt_tail d (length payload) (rc4_discard (5 + length pad) k) (pass_through d)"
    unfolding DecryptReceivedServer_def CRYPT_HEADER_WITHOUTPADDING_def Let_def if_not_P [OF c1] if_not_P [OF c2] parts(3) k_def [symmetric] parts(4)
      crypt_twice prod.case of_le_4
    using p u c3 res by (simp add: rc4_discard_add del: One_nat_def)
  then show ?thesis by (simp add: decrypt_tail_def Let_def off tail RC4Crypt_twice pass_through_def)
qed

lemma server_encrypts:
  "EncryptSendServer env buf key = udp_datagram (server_marker_loop env 0) (le_bytes 2 (udp_random16 env))
     (udp_key env (le_bytes 4 key @ [MAGICVALUE_UDP_CLIENTSERVER] @ le_bytes 2 (udp_random16 env))) MAGICVALUE_UDP_SYNC_SERVER [] [] buf"
  unfolding EncryptSendServer_def Let_def udp_datagram_def crypt_append
  by (simp add: crypt_case crypt_append rc4_discard_add numeral_eq_Suc)

lemma server_marker: "server_marker_loop env i \<noteq> OP_EDONKEYPROT"
proof (induction env i rule: server_marker_loop.induct)
  case (1 env i)
  then show ?case by (subst server_marker_loop.simps) (auto simp: OP_EDONKEYPROT_def)
qed

section \<open>All inputs\<close>

definition decrypted_fits :: "uint8 list \<Rightarrow> decrypted \<Rightarrow> bool" where
  "decrypted_fits bs d \<longleftrightarrow> dec_offset d + dec_result d = length bs \<and> length (dec_buffer d) = length bs \<and> (bs \<noteq> [] \<longrightarrow> 0 < dec_result d)"

lemma pass_through_fits: "decrypted_fits bs (pass_through bs)"
  by (simp add: decrypted_fits_def pass_through_def)

lemma decrypt_tail_fits: "0 < n \<Longrightarrow> n \<le> length bs \<Longrightarrow> decrypted_fits bs (decrypt_tail bs n k d)"
  by (simp add: decrypted_fits_def decrypt_tail_def Let_def)

lemma fits_if: "(c \<Longrightarrow> decrypted_fits bs x) \<Longrightarrow> (\<not> c \<Longrightarrow> decrypted_fits bs y) \<Longrightarrow> decrypted_fits bs (if c then x else y)"
  by simp

lemma fits_case: "(\<And>a b. decrypted_fits bs (f a b)) \<Longrightarrow> decrypted_fits bs (case p of (a, b) \<Rightarrow> f a b)"
  by (cases p) simp

text \<open>C37. Whatever arrives, the result lies within the buffer, fills it to its end and is not empty unless the buffer is.\<close>

theorem udp_decrypt_fits:
  "decrypted_fits bs (DecryptReceivedClient env bs ip) \<and> decrypted_fits bs (DecryptReceivedServer env bs key)"
proof
  show "decrypted_fits bs (DecryptReceivedClient env bs ip)"
    unfolding DecryptReceivedClient_def Let_def CRYPT_HEADER_WITHOUTPADDING_def
    by (intro fits_if fits_case pass_through_fits decrypt_tail_fits) simp_all
  show "decrypted_fits bs (DecryptReceivedServer env bs key)"
    unfolding DecryptReceivedServer_def Let_def CRYPT_HEADER_WITHOUTPADDING_def
    by (intro fits_if fits_case pass_through_fits decrypt_tail_fits) simp_all
qed

end
