(* ===== verification/UDP_Socket.thy ===== *)
theory UDP_Socket
  imports UDP_Crypt
begin

text \<open>
  The UDP socket of the client: the queue of \<open>CMuleUDPSocket\<close> (\<open>src/src/MuleUDPSocket.cpp\<close>, \<open>.h\<close>) and where
  \<open>CClientUDPSocket::OnPacketReceived\<close> (\<open>src/src/ClientUDPSocket.cpp\<close>) sends what arrives. The socket answers to each \<open>SendTo\<close>;
  the throttler is the number of times the socket has put itself into its queue. The mutex makes each method one step; the
  clock stands still during one. Log messages and counters are not modelled.
\<close>

section \<open>State\<close>

datatype send_answer = SendDone | SendBlocks | SendError

record UDPPack =
  pack_packet :: CPacket
  pack_time :: nat
  pack_IP :: uint32
  pack_port :: uint16
  bEncrypt :: bool
  bKad :: bool
  nReceiverVerifyKey :: uint32
  pachTarget :: "uint8 list"

text \<open>\<open>udp_sock\<close> is whether there is a socket and, if so, whether it is ok.\<close>

record udp_socket =
  udp_queue :: "UDPPack list"
  udp_busy :: bool
  udp_sock :: "bool option"
  udp_answers :: "send_answer list"
  udp_wire :: "(uint8 list \<times> uint32 \<times> uint16) list"
  udp_throttled :: nat
  udp_turn :: nat

definition UDPMAXQUEUETIME :: nat where "UDPMAXQUEUETIME = 30000"
definition UDP_BUFFER_SIZE :: nat where "UDP_BUFFER_SIZE = 16384"

section \<open>Opening and closing\<close>

definition udp_destroy :: "udp_socket \<Rightarrow> udp_socket" where
  "udp_destroy s = s\<lparr>udp_sock := None\<rparr>"

text \<open>\<open>ok\<close>: the new socket is usable.\<close>

definition udp_create :: "bool \<Rightarrow> udp_socket \<Rightarrow> udp_socket" where
  "udp_create ok s = (if udp_sock s \<noteq> None then s else if ok then s\<lparr>udp_sock := Some True\<rparr> else udp_destroy (s\<lparr>udp_sock := Some False\<rparr>))"

text \<open>The socket has died.\<close>

definition udp_OnDisconnected :: "bool \<Rightarrow> udp_socket \<Rightarrow> udp_socket" where
  "udp_OnDisconnected ok s = udp_create ok (udp_destroy s)"

definition udp_Ok :: "udp_socket \<Rightarrow> bool" where
  "udp_Ok s \<longleftrightarrow> udp_sock s = Some True"

definition QueueForSending :: "udp_socket \<Rightarrow> udp_socket" where
  "QueueForSending s = s\<lparr>udp_throttled := udp_throttled s + 1\<rparr>"

definition udp_OnSend :: "bool \<Rightarrow> udp_socket \<Rightarrow> udp_socket" where
  "udp_OnSend errorCode s =
     (if errorCode then s
      else let s = s\<lparr>udp_busy := False\<rparr> in if udp_queue s = [] then s else QueueForSending s)"

section \<open>Sending\<close>

definition udp_SendPacket ::
  "bool \<Rightarrow> nat \<Rightarrow> CPacket \<Rightarrow> uint32 \<Rightarrow> uint16 \<Rightarrow> bool \<Rightarrow> uint8 list option \<Rightarrow> bool \<Rightarrow> uint32 \<Rightarrow> udp_socket \<Rightarrow> udp_socket" where
  "udp_SendPacket cryptSupported now packet IP port encrypt target kad receiverVerifyKey s =
     (if port = 0 \<or> IP = 0 then s
      else if \<not> udp_Ok s then s
      else
        let enc = (encrypt \<and> (target \<noteq> None \<or> (kad \<and> receiverVerifyKey \<noteq> 0)) \<and> cryptSupported);
            newpending = \<lparr>pack_packet = packet, pack_time = now, pack_IP = IP, pack_port = port, bEncrypt = enc, bKad = kad,
              nReceiverVerifyKey = receiverVerifyKey,
              pachTarget = (if enc \<and> target \<noteq> None then take 16 (the target) else replicate 16 0)\<rparr>
        in QueueForSending (s\<lparr>udp_queue := udp_queue s @ [newpending]\<rparr>))"

definition udp_SendTo :: "uint8 list \<Rightarrow> uint32 \<Rightarrow> uint16 \<Rightarrow> udp_socket \<Rightarrow> bool \<times> udp_socket" where
  "udp_SendTo buffer ip port s =
     (if \<not> udp_Ok s then (True, s)
      else
        let s = s\<lparr>udp_busy := False\<rparr> in
        case udp_answers s of
          SendBlocks # as \<Rightarrow> (False, s\<lparr>udp_answers := as, udp_busy := True\<rparr>)
        | SendError # as \<Rightarrow> (True, s\<lparr>udp_answers := as\<rparr>)
        | SendDone # as \<Rightarrow> (True, s\<lparr>udp_answers := as, udp_wire := udp_wire s @ [(buffer, ip, port)]\<rparr>)
        | [] \<Rightarrow> (True, s\<lparr>udp_wire := udp_wire s @ [(buffer, ip, port)]\<rparr>))"

text \<open>What goes out for an entry of the queue. A packet of at least \<open>2 ^ 32 - 2\<close> bytes, whose \<open>len\<close> would wrap around, is not considered.\<close>

definition pack_bytes :: "udp_env \<Rightarrow> UDPPack \<Rightarrow> fault + uint8 list" where
  "pack_bytes env item =
     sum_bind (fetch 0 (unat (p_size (pack_packet item))) (data_or_null (pack_packet item))) (\<lambda>data.
       let sendbuffer = take 2 (GetUDPHeader (pack_packet item)) @ data in
       if bEncrypt item \<and> (PublicIP env > 0 \<or> bKad item) then
         EncryptSendClient env sendbuffer (Some (pachTarget item)) (bKad item) (nReceiverVerifyKey item)
           (if bKad item then GetUDPVerifyKey env (pack_IP item) else 0)
       else Inr sendbuffer)"

text \<open>\<open>env t\<close> is the surroundings at the t-th packet.\<close>

function send_control_loop ::
  "(nat \<Rightarrow> udp_env) \<Rightarrow> nat \<Rightarrow> nat \<Rightarrow> nat \<Rightarrow> udp_socket \<Rightarrow> fault + (nat \<times> udp_socket)" where
  "send_control_loop env now maxNumberOfBytesToSend sentBytes s =
     (case udp_queue s of
        [] \<Rightarrow> Inr (sentBytes, s)
      | item # rest \<Rightarrow>
          if \<not> (\<not> udp_busy s \<and> sentBytes < maxNumberOfBytesToSend) then Inr (sentBytes, s)
          else if sub64 now (pack_time item) < UDPMAXQUEUETIME then
            (case pack_bytes (env (udp_turn s)) item of
               Inl e \<Rightarrow> Inl e
             | Inr bs \<Rightarrow>
                 (case udp_SendTo bs (pack_IP item) (pack_port item) (s\<lparr>udp_turn := udp_turn s + 1\<rparr>) of
                    (sent, s) \<Rightarrow>
                      if sent then
                        send_control_loop env now maxNumberOfBytesToSend (u32 (sentBytes + length bs)) (s\<lparr>udp_queue := rest\<rparr>)
                      else Inr (sentBytes, s)))
          else send_control_loop env now maxNumberOfBytesToSend sentBytes (s\<lparr>udp_queue := rest\<rparr>))"
  by pat_completeness auto
termination
  by (relation "measure (\<lambda>(env, now, m, n, s). length (udp_queue s))") auto

declare send_control_loop.simps [simp del]

definition SendControlData :: "(nat \<Rightarrow> udp_env) \<Rightarrow> nat \<Rightarrow> nat \<Rightarrow> udp_socket \<Rightarrow> fault + (nat \<times> udp_socket)" where
  "SendControlData env now maxNumberOfBytesToSend s =
     sum_bind (send_control_loop env now maxNumberOfBytesToSend 0 s) (\<lambda>(sentBytes, s).
       Inr (sentBytes, if \<not> udp_busy s \<and> udp_queue s \<noteq> [] then QueueForSending s else s))"

section \<open>Receiving\<close>

datatype udp_event =
  ClientPacket "uint8 list" int uint8 uint32 uint16
| KadPacket "uint8 list" nat uint32 uint16 bool CKadUDPKey
| ReservedFrame "uint8 list" nat uint32 uint16
| BadPacket

text \<open>
  \<open>buffer\<close> is the array, \<open>packetLen\<close> the part of it that the datagram fills; a pointer into it is what is left of it from
  there on. \<open>uncompress n\<close> is zlib's for a destination of n bytes. The handlers throw; all is caught here.
\<close>

definition OnPacketReceived ::
  "udp_env \<Rightarrow> (nat \<Rightarrow> uint8 list \<Rightarrow> uint8 list option) \<Rightarrow> uint32 \<Rightarrow> uint16 \<Rightarrow> uint8 list \<Rightarrow> nat \<Rightarrow> fault + udp_event option" where
  "OnPacketReceived env uncompress ip port buffer len =
     (if len < 2 then Inr None
      else
        let d = DecryptReceivedClient env (take len buffer) ip;
            decryptedBuffer = drop (dec_offset d) (dec_buffer d @ drop len buffer);
            packetLen = dec_result d;
            verified = (GetUDPVerifyKey env ip = dec_receiverKey d);
            senderKey = \<lparr>m_key = dec_senderKey d, m_key_ip = PublicIP env\<rparr>
        in sum_bind (fetch 0 2 decryptedBuffer) (\<lambda>hdr.
             let protocol = hdr ! 0; opcode = hdr ! 1 in
             Inr (if packetLen < 1 then None
               else if protocol = OP_EMULEPROT then Some (ClientPacket (drop 2 decryptedBuffer) (int packetLen - 2) opcode ip port)
               else if protocol = OP_KADEMLIAHEADER then
                 if 2 \<le> packetLen then Some (KadPacket (take packetLen decryptedBuffer) packetLen (swap32 ip) port verified senderKey)
                 else Some BadPacket
               else if protocol = OP_KADEMLIAPACKEDPROT then
                 if 2 \<le> packetLen then
                   (case uncompress (packetLen * 10 + 300 - 2) (take (packetLen - 2) (drop 2 decryptedBuffer)) of
                      None \<Rightarrow> None
                    | Some unpack \<Rightarrow>
                        Some (KadPacket (OP_KADEMLIAHEADER # opcode # unpack) (length unpack + 2) (swap32 ip) port verified senderKey))
                 else Some BadPacket
               else if protocol = OP_UDPRESERVEDPROT2 then
                 Some (ReservedFrame (take (packetLen - 1) (drop 1 decryptedBuffer)) (packetLen - 1) ip port)
               else None)))"

text \<open>\<open>recv\<close> is what \<open>RecvFrom\<close> returns: address, port, the bytes, and whether there was an error; \<open>junk\<close> is the array before.\<close>

definition udp_OnReceive ::
  "udp_env \<Rightarrow> (nat \<Rightarrow> uint8 list \<Rightarrow> uint8 list option) \<Rightarrow> (uint32 \<Rightarrow> bool) \<Rightarrow> bool \<Rightarrow> (nat \<Rightarrow> uint8) \<Rightarrow> bool \<Rightarrow>
   uint32 \<times> uint16 \<times> uint8 list \<times> bool \<Rightarrow> udp_socket \<Rightarrow> (fault + udp_event option) \<times> udp_socket" where
  "udp_OnReceive env uncompress IsBannedClient create_ok junk errorCode recv s =
     (if errorCode \<or> \<not> udp_Ok s then (Inr None, udp_create create_ok (udp_destroy s))
      else
        case recv of (ip, port, bytes, error) \<Rightarrow>
        let buffer = take UDP_BUFFER_SIZE bytes @ drop (length (take UDP_BUFFER_SIZE bytes)) (new_array junk UDP_BUFFER_SIZE);
            length = length (take UDP_BUFFER_SIZE bytes)
        in if error then (Inr None, s)
           else if length < 2 then (Inr None, s)
           else if ip = 0 then (Inr None, s)
           else if port = 0 then (Inr None, s)
           else if IsBannedClient ip then (Inr None, s)
           else (OnPacketReceived env uncompress ip port buffer length, s))"

text \<open>\<open>CClientUDPSocket::OnReceive\<close> closes the socket once UDP is disabled.\<close>

definition client_OnReceive ::
  "bool \<Rightarrow> udp_env \<Rightarrow> (nat \<Rightarrow> uint8 list \<Rightarrow> uint8 list option) \<Rightarrow> (uint32 \<Rightarrow> bool) \<Rightarrow> bool \<Rightarrow> (nat \<Rightarrow> uint8) \<Rightarrow> bool \<Rightarrow>
   uint32 \<times> uint16 \<times> uint8 list \<times> bool \<Rightarrow> udp_socket \<Rightarrow> (fault + udp_event option) \<times> udp_socket" where
  "client_OnReceive IsUDPDisabled env uncompress IsBannedClient create_ok junk errorCode recv s =
     (case udp_OnReceive env uncompress IsBannedClient create_ok junk errorCode recv s of
        (r, s) \<Rightarrow> (r, if IsUDPDisabled then udp_destroy s else s))"

end
