(* ===== verification/UDP_Socket_Props.thy ===== *)
theory UDP_Socket_Props
  imports UDP_Crypt_Props UDP_Socket "HOL-Library.Sublist"
begin

text \<open>
  Correctness of the UDP socket: what one client queues is what the other one's handlers get, a call of the throttler keeps to
  the queue and the budget, and what a datagram that decrypts to one byte does.
\<close>

section \<open>From one client to another\<close>

definition udp_event_of ::
  "udp_env \<Rightarrow> (nat \<Rightarrow> uint8 list \<Rightarrow> uint8 list option) \<Rightarrow> uint32 \<Rightarrow> uint16 \<Rightarrow> uint8 \<Rightarrow> uint8 \<Rightarrow> uint8 list \<Rightarrow> uint8 list \<Rightarrow> uint32 \<Rightarrow> uint32 \<Rightarrow> udp_event option" where
  "udp_event_of R uncompress ip port protocol op data junk rk sk =
     (let kad = (\<lambda>bs. KadPacket bs (length bs) (swap32 ip) port (GetUDPVerifyKey R ip = rk) \<lparr>m_key = sk, m_key_ip = PublicIP R\<rparr>) in
      if protocol = OP_EMULEPROT then Some (ClientPacket (data @ junk) (int (length data)) op ip port)
      else if protocol = OP_KADEMLIAHEADER then Some (kad (protocol # op # data))
      else if protocol = OP_KADEMLIAPACKEDPROT then
        map_option (\<lambda>u. kad (OP_KADEMLIAHEADER # op # u)) (uncompress ((length data + 2) * 10 + 300 - 2) data)
      else if protocol = OP_UDPRESERVEDPROT2 then Some (ReservedFrame (op # data) (length data + 1) ip port)
      else None)"

lemma protocols_differ:
  "OP_KADEMLIAHEADER \<noteq> OP_EMULEPROT" "OP_KADEMLIAPACKEDPROT \<noteq> OP_EMULEPROT" "OP_UDPRESERVEDPROT2 \<noteq> OP_EMULEPROT"
  "OP_KADEMLIAPACKEDPROT \<noteq> OP_KADEMLIAHEADER" "OP_UDPRESERVEDPROT2 \<noteq> OP_KADEMLIAHEADER" "OP_UDPRESERVEDPROT2 \<noteq> OP_KADEMLIAPACKEDPROT"
  by (simp_all add: OP_EMULEPROT_def OP_KADEMLIAPACKEDPROT_def OP_KADEMLIAHEADER_def OP_UDPRESERVEDPROT2_def)

lemma received_event:
  assumes "DecryptReceivedClient R bs ip = \<lparr>dec_result = length buf, dec_offset = length bs - length buf,
      dec_buffer = take (length bs - length buf) bs @ buf, dec_receiverKey = rk, dec_senderKey = sk\<rparr>"
    and "buf = protocol # op # data" and "length buf \<le> length bs"
  shows "OnPacketReceived R uncompress ip port (bs @ junk) (length bs) = Inr (udp_event_of R uncompress ip port protocol op data junk rk sk)"
proof -
  have l: "\<not> length bs < 2" using assms(2,3) by simp
  have dr: "drop (length bs - length buf) ((take (length bs - length buf) bs @ buf) @ junk) = buf @ junk" by simp
  have f: "fetch 0 2 (buf @ junk) = Inr [protocol, op]" using assms(2) by (simp add: fetch_def)
  show ?thesis
    unfolding OnPacketReceived_def if_not_P [OF l] Let_def
    using assms(1) dr f assms(2) protocols_differ
    by (simp add: udp_event_of_def Let_def split: option.split)
qed

lemma GetUDPVerifyKey_range: "GetUDPVerifyKey env ip \<noteq> 0"
proof -
  have "x mod 0xFFFFFFFE + 1 \<noteq> 0" for x :: uint32
  proof
    assume e: "x mod 0xFFFFFFFE + 1 = 0"
    have "unat (x mod 0xFFFFFFFE) < 0xFFFFFFFE" by (simp add: unat_mod)
    then have "unat (x mod 0xFFFFFFFE + 1) = unat (x mod 0xFFFFFFFE) + 1" by (simp add: unat_add_lem [THEN iffD1])
    then show False using e by simp
  qed
  then show ?thesis by (simp add: GetUDPVerifyKey_def Let_def)
qed

text \<open>
  C11. A packet in the queue of one client arrives at the other one as it was sent, plain or encrypted, whichever way the
  other client is addressed; a Kademlia packet comes with the keys that were sent, and counts as verified only when it was
  encrypted and holds the key that the receiver has given out.
\<close>

theorem udp_delivers:
  fixes S R :: udp_env and item :: UDPPack
  defines "encrypted \<equiv> bEncrypt item \<and> (PublicIP S > 0 \<or> bKad item)" and "p \<equiv> pack_packet item"
  assumes "fetch 0 (unat (p_size p)) (data_or_null p) = Inr data"
    and "encrypted \<Longrightarrow> address_ok a S R ip (pachTarget item) (bKad item) (nReceiverVerifyKey item)"
    and "\<not> encrypted \<Longrightarrow> plain_protocol (prot p)"
  shows "\<exists>bs. pack_bytes S item = Inr bs \<and>
    (\<forall>junk. OnPacketReceived R uncompress ip port (bs @ junk) (length bs) =
      Inr (udp_event_of R uncompress ip port (prot p) (opcode p) data junk
        (if encrypted \<and> bKad item then nReceiverVerifyKey item else 0)
        (if encrypted \<and> bKad item then GetUDPVerifyKey S (pack_IP item) else 0)))"
proof -
  let ?buf = "prot p # opcode p # data"
  have h: "take 2 (GetUDPHeader p) @ data = ?buf" by (simp add: GetUDPHeader_def)
  show ?thesis
  proof (cases encrypted)
    case True
    let ?sk = "if bKad item then GetUDPVerifyKey S (pack_IP item) else 0"
    obtain bs where bs: "EncryptSendClient S ?buf (Some (pachTarget item)) (bKad item) (nReceiverVerifyKey item) ?sk = Inr bs"
      "length bs = 8 + (if bKad item then 8 else 0) + length ?buf"
      "DecryptReceivedClient R bs ip = \<lparr>dec_result = length ?buf, dec_offset = length bs - length ?buf, dec_buffer = take (length bs - length ?buf) bs @ ?buf,
        dec_receiverKey = (if bKad item then nReceiverVerifyKey item else 0), dec_senderKey = (if bKad item then ?sk else 0)\<rparr>"
      using udp_client_core [OF assms(4) [OF True], of ?buf ?sk] by auto
    have "pack_bytes S item = Inr bs" using True bs(1) assms(3) h unfolding pack_bytes_def encrypted_def p_def by (simp add: Let_def)
    moreover have "length ?buf \<le> length bs" using bs(2) by simp
    ultimately show ?thesis using received_event [OF bs(3) refl] True by auto
  next
    case False
    have "pack_bytes S item = Inr ?buf" using False assms(3) h unfolding pack_bytes_def encrypted_def p_def by (auto simp: Let_def)
    moreover have "DecryptReceivedClient R ?buf ip = \<lparr>dec_result = length ?buf, dec_offset = length ?buf - length ?buf,
        dec_buffer = take (length ?buf - length ?buf) ?buf @ ?buf, dec_receiverKey = 0, dec_senderKey = 0\<rparr>"
      using assms(5) [OF False] by (simp add: DecryptReceivedClient_def Let_def pass_through_def)
    ultimately show ?thesis using received_event [of R ?buf ip ?buf 0 0 "prot p" "opcode p" data] False by auto
  qed
qed

section \<open>The queue\<close>

lemma SendTo_cases:
  "udp_SendTo bs ip port s = (sent, s') \<Longrightarrow> udp_queue s' = udp_queue s \<and> udp_turn s' = udp_turn s \<and>
     (udp_wire s' = udp_wire s \<or> sent \<and> udp_wire s' = udp_wire s @ [(bs, ip, port)]) \<and> (\<not> sent \<longrightarrow> udp_busy s')"
  by (auto simp: udp_SendTo_def Let_def split: if_splits list.splits send_answer.splits)

definition sent_ok :: "(nat \<Rightarrow> udp_env) \<Rightarrow> nat \<Rightarrow> uint8 list \<times> uint32 \<times> uint16 \<Rightarrow> UDPPack \<Rightarrow> bool" where
  "sent_ok env now d item \<longleftrightarrow> (case d of (bs, ip, port) \<Rightarrow> ip = pack_IP item \<and> port = pack_port item \<and>
     (\<exists>t. pack_bytes (env t) item = Inr bs) \<and> sub64 now (pack_time item) < UDPMAXQUEUETIME)"

definition queue_step :: "(nat \<Rightarrow> udp_env) \<Rightarrow> nat \<Rightarrow> udp_socket \<Rightarrow> udp_socket \<Rightarrow> bool" where
  "queue_step env now s s' \<longleftrightarrow> (\<exists>gone sent wire. udp_queue s = gone @ udp_queue s' \<and> udp_wire s' = udp_wire s @ wire \<and> subseq sent gone \<and>
     list_all2 (sent_ok env now) wire sent)"

lemma queue_step_refl: "udp_queue s' = udp_queue s \<Longrightarrow> udp_wire s' = udp_wire s \<Longrightarrow> queue_step env now s s'"
  unfolding queue_step_def by (intro exI [of _ "[]"]) simp

lemma queue_step_trans: "queue_step env now s t \<Longrightarrow> queue_step env now t u \<Longrightarrow> queue_step env now s u"
proof -
  assume "queue_step env now s t" "queue_step env now t u"
  then obtain g1 s1 w1 g2 s2 w2 where "udp_queue s = g1 @ udp_queue t" "udp_wire t = udp_wire s @ w1" "subseq s1 g1" "list_all2 (sent_ok env now) w1 s1"
      "udp_queue t = g2 @ udp_queue u" "udp_wire u = udp_wire t @ w2" "subseq s2 g2" "list_all2 (sent_ok env now) w2 s2"
    unfolding queue_step_def by blast
  then show ?thesis unfolding queue_step_def
    by (intro exI [of _ "g1 @ g2"] exI [of _ "s1 @ s2"] exI [of _ "w1 @ w2"]) (auto intro: list_emb_append_mono list_all2_appendI)
qed

lemma send_loop_queue:
  "send_control_loop env now maxb n s = Inr (n', s') \<Longrightarrow>
     queue_step env now s s' \<and> (udp_queue s' = [] \<or> udp_busy s' \<or> maxb \<le> n') \<and>
     (maxb + L < 2 ^ 32 \<longrightarrow> (\<forall>item \<in> set (udp_queue s). \<forall>t bs. pack_bytes (env t) item = Inr bs \<longrightarrow> length bs \<le> L) \<longrightarrow> n' = n \<or> n' < maxb + L)"
proof (induction env now maxb n s rule: send_control_loop.induct)
  case (1 env now maxb n s)
  show ?case
  proof (cases "udp_queue s")
    case Nil
    then show ?thesis using 1(3) by (subst (asm) send_control_loop.simps) (simp add: queue_step_refl)
  next
    case (Cons item rest)
    show ?thesis
    proof (cases "\<not> udp_busy s \<and> n < maxb")
      case False
      then show ?thesis using 1(3) Cons by (subst (asm) send_control_loop.simps) (auto simp: queue_step_refl)
    next
      case go: True
      show ?thesis
      proof (cases "sub64 now (pack_time item) < UDPMAXQUEUETIME")
        case False
        have eq: "send_control_loop env now maxb n (s\<lparr>udp_queue := rest\<rparr>) = Inr (n', s')"
          using 1(3) Cons go False by (subst (asm) send_control_loop.simps) simp
        have "queue_step env now s (s\<lparr>udp_queue := rest\<rparr>)"
          unfolding queue_step_def by (rule exI [of _ "[item]"], rule exI [of _ "[]"], rule exI [of _ "[]"]) (simp add: Cons)
        then show ?thesis using "1.IH"(2) [OF Cons _ False eq] go queue_step_trans Cons by auto
      next
        case fresh: True
        obtain bs where bs: "pack_bytes (env (udp_turn s)) item = Inr bs"
          using 1(3) Cons go fresh by (subst (asm) send_control_loop.simps) (auto split: sum.splits)
        obtain sent s1 where s1: "udp_SendTo bs (pack_IP item) (pack_port item) (s\<lparr>udp_turn := udp_turn s + 1\<rparr>) = (sent, s1)"
          by (cases "udp_SendTo bs (pack_IP item) (pack_port item) (s\<lparr>udp_turn := udp_turn s + 1\<rparr>)")
        have st: "udp_queue s1 = udp_queue s" "udp_wire s1 = udp_wire s \<or> sent \<and> udp_wire s1 = udp_wire s @ [(bs, pack_IP item, pack_port item)]"
            "\<not> sent \<longrightarrow> udp_busy s1"
          using SendTo_cases [OF s1] by auto
        show ?thesis
        proof (cases sent)
          case False
          then show ?thesis using 1(3) Cons go fresh bs s1 st
            by (subst (asm) send_control_loop.simps) (auto simp: queue_step_refl)
        next
          case True
          have eq: "send_control_loop env now maxb (u32 (n + length bs)) (s1\<lparr>udp_queue := rest\<rparr>) = Inr (n', s')"
            using 1(3) Cons go fresh bs s1 True by (subst (asm) send_control_loop.simps) simp
          have so: "sent_ok env now (bs, pack_IP item, pack_port item) item" using bs fresh by (auto simp: sent_ok_def)
          have "queue_step env now s (s1\<lparr>udp_queue := rest\<rparr>)"
            using st(2)
          proof
            assume "udp_wire s1 = udp_wire s"
            then show ?thesis unfolding queue_step_def
              by (intro exI [of _ "[item]"] exI [of _ "[]"]) (simp add: Cons)
          next
            assume "sent \<and> udp_wire s1 = udp_wire s @ [(bs, pack_IP item, pack_port item)]"
            then show ?thesis unfolding queue_step_def using so
              by (intro exI [of _ "[item]"] exI [of _ "[(bs, pack_IP item, pack_port item)]"]) (simp add: Cons)
          qed
          moreover have "n' = n \<or> n' < maxb + L"
            if L: "maxb + L < 2 ^ 32" "\<forall>item \<in> set (udp_queue s). \<forall>t bs. pack_bytes (env t) item = Inr bs \<longrightarrow> length bs \<le> L"
          proof -
            have "length bs \<le> L" using L(2) Cons bs by auto
            then have "u32 (n + length bs) < maxb + L" using L(1) go by (simp add: u32_def)
            then show ?thesis using "1.IH"(1) [OF Cons _ fresh bs s1 [symmetric] True eq] go L Cons by auto
          qed
          ultimately show ?thesis using "1.IH"(1) [OF Cons _ fresh bs s1 [symmetric] True eq] go queue_step_trans by blast
        qed
      qed
    qed
  qed
qed

lemma send_loop_throttled:
  "send_control_loop env now maxb n s = Inr (n', s') \<Longrightarrow> udp_throttled s' = udp_throttled s"
proof (induction env now maxb n s rule: send_control_loop.induct)
  case (1 env now maxb n s)
  have st: "udp_throttled u = udp_throttled s" if "udp_SendTo bs ip port (s\<lparr>udp_turn := k\<rparr>) = (b, u)" for bs ip port k b u
    using that by (auto simp: udp_SendTo_def Let_def split: if_splits list.splits send_answer.splits)
  show ?case
    using "1.prems" by (subst (asm) send_control_loop.simps)
      (auto simp: st split: list.splits if_splits sum.splits prod.splits dest: "1.IH")
qed

text \<open>
  C12. A call of the throttler takes packets from the front of the queue only; what goes out is, in this order and once each, what
  \<open>pack_bytes\<close> makes of some of them, none older than the limit. It stops when the queue is empty, the socket busy or the
  budget spent, overdraws the budget by less than one datagram, and comes back when packets are left and the socket is not busy.
\<close>

theorem udp_queue:
  assumes "SendControlData env now maxb s = Inr (n, s')" and "0 < maxb + L" and "maxb + L < 2 ^ 32"
    and "\<And>item t bs. item \<in> set (udp_queue s) \<Longrightarrow> pack_bytes (env t) item = Inr bs \<Longrightarrow> length bs \<le> L"
  shows "(\<exists>gone sent wire. udp_queue s = gone @ udp_queue s' \<and> udp_wire s' = udp_wire s @ wire \<and> subseq sent gone \<and>
      list_all2 (sent_ok env now) wire sent) \<and>
    (udp_queue s' = [] \<or> udp_busy s' \<or> maxb \<le> n) \<and> n < maxb + L \<and>
    (udp_queue s' = [] \<or> udp_busy s' \<or> udp_throttled s' = udp_throttled s + 1)"
proof -
  obtain t where t: "send_control_loop env now maxb 0 s = Inr (n, t)"
      "s' = (if \<not> udp_busy t \<and> udp_queue t \<noteq> [] then QueueForSending t else t)"
    using assms(1) by (auto simp: SendControlData_def sum_bind_Inr)
  have eq: "udp_queue s' = udp_queue t" "udp_wire s' = udp_wire t" "udp_busy s' = udp_busy t"
    "udp_throttled s' = (if \<not> udp_busy t \<and> udp_queue t \<noteq> [] then udp_throttled t + 1 else udp_throttled t)"
    using t(2) by (simp_all add: QueueForSending_def)
  have q: "queue_step env now s t" and stop: "udp_queue t = [] \<or> udp_busy t \<or> maxb \<le> n" and n: "n = 0 \<or> n < maxb + L"
    using send_loop_queue [OF t(1), of L] assms(3,4) by blast+
  have th: "udp_throttled t = udp_throttled s" by (rule send_loop_throttled [OF t(1)])
  show ?thesis using q stop n assms(2) unfolding eq th queue_step_def by auto
qed

text \<open>
  C36. A datagram of nine bytes that decrypts to the single byte \<open>OP_EMULEPROT\<close>: the handler of client packets is called with size -1, and with
  the byte that happens to follow in the receive buffer as the opcode.
\<close>

theorem udp_short:
  assumes "address_ok ByUserHash S R ip (udp_UserHash R) False 0"
  shows "\<exists>bs. EncryptSendClient S [OP_EMULEPROT] (Some (udp_UserHash R)) False 0 0 = Inr bs \<and> length bs = 9 \<and>
    (\<forall>b junk. OnPacketReceived R uncompress ip port (bs @ b # junk) 9 = Inr (Some (ClientPacket junk (-1) b ip port)))"
proof -
  let ?buf = "[OP_EMULEPROT]"
  obtain bs where bs: "EncryptSendClient S ?buf (Some (udp_UserHash R)) False 0 0 = Inr bs" "length bs = 9"
      "DecryptReceivedClient R bs ip = \<lparr>dec_result = 1, dec_offset = 8, dec_buffer = take 8 bs @ ?buf, dec_receiverKey = 0, dec_senderKey = 0\<rparr>"
    using udp_client_core [OF assms, of ?buf 0] by auto
  have "OnPacketReceived R uncompress ip port (bs @ b # junk) 9 = Inr (Some (ClientPacket junk (-1) b ip port))" for b junk
  proof -
    have parts: "take 9 (bs @ b # junk) = bs" "drop 9 (bs @ b # junk) = b # junk"
        "drop 8 ((take 8 bs @ ?buf) @ b # junk) = ?buf @ b # junk" "fetch 0 2 (?buf @ b # junk) = Inr [OP_EMULEPROT, b]"
      using bs(2) by (simp_all add: fetch_def)
    have l: "\<not> (9::nat) < 2" by simp
    show ?thesis
      unfolding OnPacketReceived_def if_not_P [OF l] parts(1,2) bs(3) decrypted.select_convs Let_def parts(3,4)
      by simp
  qed
  then show ?thesis using bs(1,2) by blast
qed

section \<open>Instances\<close>

definition example_env :: udp_env where
  "example_env = \<lparr>udp_MD5 = (\<lambda>_. replicate 16 0), KadID = None, udp_UserHash = replicate 16 1, KadUDPKey = 0, PublicIP = 16909060,
     ServerCryptLayerUDPEnabled = True, udp_random8 = (\<lambda>_. 7), udp_random16 = 258\<rparr>"

definition example_packet :: CPacket where
  "example_packet = \<lparr>p_size = 2, opcode = 0x92, prot = OP_EMULEPROT, m_bSplitted = False, m_bLastSplitted = False, m_bPacked = False,
     m_bFromPF = False, completebuffer = None, pBuffer = Owned [5, 6, 7]\<rparr>"

definition example_item :: "bool \<Rightarrow> nat \<Rightarrow> UDPPack" where
  "example_item encrypt time = \<lparr>pack_packet = example_packet, pack_time = time, pack_IP = 67305985, pack_port = 4672, bEncrypt = encrypt, bKad = False,
     nReceiverVerifyKey = 0, pachTarget = replicate 16 1\<rparr>"

definition example_socket :: udp_socket where
  "example_socket = \<lparr>udp_queue = [example_item False 0, example_item False 40000], udp_busy = False, udp_sock = Some True, udp_answers = [],
     udp_wire = [], udp_throttled = 0, udp_turn = 0\<rparr>"

lemma example_address: "address_ok ByUserHash example_env example_env 16909060 (replicate 16 1) False 0"
  by (simp add: address_ok_def example_env_def)

lemma example_data: "fetch 0 (unat (p_size example_packet)) (data_or_null example_packet) = Inr [5, 6]"
  by (simp add: example_packet_def data_or_null_def GetDataBuffer_def fetch_def)

lemma udp_delivers_witness:
  "\<exists>bs. pack_bytes example_env (example_item True 0) = Inr bs \<and>
    OnPacketReceived example_env (\<lambda>_ _. None) 16909060 4672 (bs @ [9]) (length bs) =
      Inr (Some (ClientPacket [5, 6, 9] 2 0x92 16909060 4672))"
proof -
  have i: "pack_packet (example_item True 0) = example_packet" "pachTarget (example_item True 0) = replicate 16 1"
      "bKad (example_item True 0) = False" "nReceiverVerifyKey (example_item True 0) = 0" "bEncrypt (example_item True 0)" "PublicIP example_env > 0"
      "prot example_packet = OP_EMULEPROT" "opcode example_packet = 0x92"
    by (simp_all add: example_item_def example_env_def example_packet_def)
  show ?thesis
    using udp_delivers [where item = "example_item True 0" and S = example_env and R = example_env and data = "[5, 6]" and a = ByUserHash
        and ip = 16909060 and port = 4672 and uncompress = "\<lambda>_ _. None"]
      example_data example_address i
    by (auto simp: udp_event_of_def Let_def)
qed

lemma udp_short_witness:
  "\<exists>bs. EncryptSendClient example_env [OP_EMULEPROT] (Some (udp_UserHash example_env)) False 0 0 = Inr bs \<and> length bs = 9 \<and>
    OnPacketReceived example_env (\<lambda>_ _. None) 16909060 4672 (bs @ 6 # [7]) 9 = Inr (Some (ClientPacket [7] (-1) 6 16909060 4672))"
proof -
  have "address_ok ByUserHash example_env example_env 16909060 (udp_UserHash example_env) False 0"
    using example_address by (simp add: example_env_def)
  from udp_short [OF this, of "\<lambda>_ _. None" 4672] show ?thesis by blast
qed

lemma example_bytes: "pack_bytes env (example_item False t) = Inr [OP_EMULEPROT, 0x92, 5, 6]"
  by (simp add: pack_bytes_def example_item_def example_data Let_def GetUDPHeader_def) (simp add: example_packet_def)

lemma example_run:
  "SendControlData (\<lambda>_. example_env) 50000 100 example_socket =
     Inr (4, example_socket\<lparr>udp_queue := [], udp_wire := [([OP_EMULEPROT, 0x92, 5, 6], 67305985, 4672)], udp_turn := 1\<rparr>)"
proof -
  have i: "pack_time (example_item False t) = t" "pack_IP (example_item False t) = 67305985" "pack_port (example_item False t) = 4672" for t
    by (simp_all add: example_item_def)
  have s: "udp_queue example_socket = [example_item False 0, example_item False 40000]" "\<not> udp_busy example_socket" "udp_sock example_socket = Some True"
      "udp_answers example_socket = []" "udp_wire example_socket = []" "udp_turn example_socket = 0"
    by (simp_all add: example_socket_def)
  show ?thesis
    unfolding SendControlData_def
    by (simp add: send_control_loop.simps s i example_bytes udp_SendTo_def Let_def udp_Ok_def UDPMAXQUEUETIME_def sub64_def u64_def u32_def)
qed

lemma udp_queue_witness:
  "\<exists>sent. subseq sent (udp_queue example_socket) \<and>
      list_all2 (sent_ok (\<lambda>_. example_env) 50000) [([OP_EMULEPROT, 0x92, 5, 6], 67305985, 4672)] sent"
proof -
  have L: "length bs \<le> 4" if "item \<in> set (udp_queue example_socket)" "pack_bytes ((\<lambda>_. example_env) t) item = Inr bs" for item bs and t :: nat
    using that by (auto simp: example_socket_def example_bytes)
  have "udp_wire example_socket = []" by (simp add: example_socket_def)
  then show ?thesis using udp_queue [OF example_run, of 4] L by auto
qed

end
