(* ===== verification/AICH_Tree.thy ===== *)
theory AICH_Tree
  imports Safe_File
begin

text \<open>
  The hash tree of AICH: \<open>CAICHHashTree\<close> (\<open>src/src/SHAHashSet.cpp\<close>, \<open>.h\<close>). A node covers \<open>m_nDataSize\<close> bytes of
  a file; a node of more than one base block has its data split between two children. A node that \<open>FindHash\<close> returns
  is the path to it, \<open>True\<close> for a left branch. The hash algorithm is an argument of the methods, an object of the
  abstract class \<open>CAICHHashAlgo\<close>: here a function of the bytes added since \<open>Reset\<close>. Readers of a hash keep what
  they have done to the tree when the file ends. Log messages and assertions are not modelled.
\<close>

section \<open>State\<close>

datatype CAICHHashTree =
  HashTree (m_Hash: "uint8 list") (m_nDataSize: nat) (m_nBaseSize: nat) (m_bIsLeftBranch: bool) (m_bHashValid: bool)
    (m_pLeftTree: "CAICHHashTree option") (m_pRightTree: "CAICHHashTree option")

definition HASHSIZE :: nat where
  "HASHSIZE = 20"

definition new_hash_tree :: "nat \<Rightarrow> bool \<Rightarrow> nat \<Rightarrow> CAICHHashTree" where
  "new_hash_tree nDataSize bLeftBranch nBaseSize =
     HashTree (replicate HASHSIZE 0) nDataSize nBaseSize bLeftBranch False None None"

definition nBlocks :: "nat \<Rightarrow> nat \<Rightarrow> nat" where
  "nBlocks nDataSize nBaseSize = nDataSize div nBaseSize + (if nDataSize mod nBaseSize \<noteq> 0 then 1 else 0)"

definition left_size :: "nat \<Rightarrow> nat \<Rightarrow> bool \<Rightarrow> nat" where
  "left_size nDataSize nBaseSize bLeft =
     (if bLeft then nBlocks nDataSize nBaseSize + 1 else nBlocks nDataSize nBaseSize) div 2 * nBaseSize"

definition nLeft :: "CAICHHashTree \<Rightarrow> nat" where
  "nLeft t = left_size (m_nDataSize t) (m_nBaseSize t) (m_bIsLeftBranch t)"

definition nRight :: "CAICHHashTree \<Rightarrow> nat" where
  "nRight t = m_nDataSize t - nLeft t"

definition base_size :: "nat \<Rightarrow> nat" where
  "base_size n = (if n \<le> PARTSIZE then EMBLOCKSIZE else PARTSIZE)"

text \<open>The children, created where they are missing.\<close>

definition left_child :: "CAICHHashTree \<Rightarrow> CAICHHashTree" where
  "left_child t =
     (case m_pLeftTree t of None \<Rightarrow> new_hash_tree (nLeft t) True (base_size (nLeft t)) | Some l \<Rightarrow> l)"

definition right_child :: "CAICHHashTree \<Rightarrow> CAICHHashTree" where
  "right_child t =
     (case m_pRightTree t of None \<Rightarrow> new_hash_tree (nRight t) False (base_size (nRight t)) | Some r \<Rightarrow> r)"

definition set_left :: "CAICHHashTree option \<Rightarrow> CAICHHashTree \<Rightarrow> CAICHHashTree" where
  "set_left l t = HashTree (m_Hash t) (m_nDataSize t) (m_nBaseSize t) (m_bIsLeftBranch t) (m_bHashValid t) l (m_pRightTree t)"

definition set_right :: "CAICHHashTree option \<Rightarrow> CAICHHashTree \<Rightarrow> CAICHHashTree" where
  "set_right r t = HashTree (m_Hash t) (m_nDataSize t) (m_nBaseSize t) (m_bIsLeftBranch t) (m_bHashValid t) (m_pLeftTree t) r"

definition set_hash :: "uint8 list \<Rightarrow> CAICHHashTree \<Rightarrow> CAICHHashTree" where
  "set_hash h t = HashTree h (m_nDataSize t) (m_nBaseSize t) (m_bIsLeftBranch t) True (m_pLeftTree t) (m_pRightTree t)"

text \<open>The node at the end of a path.\<close>

fun node_at :: "bool list \<Rightarrow> CAICHHashTree \<Rightarrow> CAICHHashTree option" where
  "node_at [] t = Some t"
| "node_at (b # p) t = (case (if b then m_pLeftTree t else m_pRightTree t) of None \<Rightarrow> None | Some c \<Rightarrow> node_at p c)"

fun update_node :: "bool list \<Rightarrow> (CAICHHashTree \<Rightarrow> CAICHHashTree) \<Rightarrow> CAICHHashTree \<Rightarrow> CAICHHashTree" where
  "update_node [] f t = f t"
| "update_node (b # p) f t =
     (if b then set_left (map_option (update_node p f) (m_pLeftTree t)) t
      else set_right (map_option (update_node p f) (m_pRightTree t)) t)"

section \<open>Finding a node\<close>

text \<open>The nodes on the way are created; the result is the path, the depth and the tree.\<close>

function FindHash :: "nat \<Rightarrow> nat \<Rightarrow> nat \<Rightarrow> CAICHHashTree \<Rightarrow> bool list option \<times> nat \<times> CAICHHashTree" where
  "FindHash nStartPos nSize nLevel t =
     (let nLevel = nLevel + 1 in
      if \<not> nLevel \<le> 22 \<or> \<not> u64 (nStartPos + nSize) \<le> m_nDataSize t \<or> \<not> nSize \<le> m_nDataSize t then (None, nLevel, t)
      else if nStartPos = 0 \<and> nSize = m_nDataSize t then (Some [], nLevel, t)
      else if m_nDataSize t \<le> m_nBaseSize t then (None, nLevel, t)
      else if nStartPos < nLeft t then
        (if nLeft t < u64 (nStartPos + nSize) then (None, nLevel, t)
         else
           (case FindHash nStartPos nSize nLevel (left_child t) of
              (p, lv, l) \<Rightarrow> (map_option (Cons True) p, lv, set_left (Some l) t)))
      else
        (let nStartPos = nStartPos - nLeft t in
         if nRight t < u64 (nStartPos + nSize) then (None, nLevel, t)
         else
           (case FindHash nStartPos nSize nLevel (right_child t) of
              (p, lv, r) \<Rightarrow> (map_option (Cons False) p, lv, set_right (Some r) t))))"
  by pat_completeness auto
termination
  by (relation "measure (\<lambda>(a, n, lv, t). 22 - lv)") auto

declare FindHash.simps [simp del]

section \<open>Computing and verifying\<close>

fun ReCalculateHash :: "(uint8 list \<Rightarrow> uint8 list) \<Rightarrow> bool \<Rightarrow> CAICHHashTree \<Rightarrow> bool \<times> CAICHHashTree" where
  "ReCalculateHash hashalg bDontReplace (HashTree h d b lb v (Some l) (Some r)) =
     (let (okl, l') = ReCalculateHash hashalg bDontReplace l in
      if \<not> okl then (False, HashTree h d b lb v (Some l') (Some r))
      else
        let (okr, r') = ReCalculateHash hashalg bDontReplace r in
        if \<not> okr then (False, HashTree h d b lb v (Some l') (Some r'))
        else if bDontReplace \<and> v then (True, HashTree h d b lb v (Some l') (Some r'))
        else if m_bHashValid r' \<and> m_bHashValid l' then
          (True, HashTree (hashalg (m_Hash l' @ m_Hash r')) d b lb True (Some l') (Some r'))
        else (v, HashTree h d b lb v (Some l') (Some r')))"
| "ReCalculateHash hashalg bDontReplace (HashTree h d b lb v None None) = (True, HashTree h d b lb v None None)"
| "ReCalculateHash hashalg bDontReplace (HashTree h d b lb v (Some l) None) = (False, HashTree h d b lb v (Some l) None)"
| "ReCalculateHash hashalg bDontReplace (HashTree h d b lb v None (Some r)) = (False, HashTree h d b lb v None (Some r))"

lemma size_ReCalculateHash [simp]: "size (snd (ReCalculateHash hashalg dr t)) = size t"
  by (induction hashalg dr t rule: ReCalculateHash.induct) (auto simp: Let_def split: prod.splits)

definition valid_child :: "CAICHHashTree option \<Rightarrow> bool" where
  "valid_child c \<longleftrightarrow> (case c of None \<Rightarrow> False | Some t \<Rightarrow> m_bHashValid t)"

text \<open>The missing hashes of a child are computed before it is looked at.\<close>

definition complete_child :: "(uint8 list \<Rightarrow> uint8 list) \<Rightarrow> CAICHHashTree option \<Rightarrow> CAICHHashTree option" where
  "complete_child hashalg c =
     map_option (\<lambda>t. if m_bHashValid t then t else snd (ReCalculateHash hashalg True t)) c"

definition delete_children :: "bool \<Rightarrow> CAICHHashTree \<Rightarrow> CAICHHashTree" where
  "delete_children bDeleteBadTrees t = (if bDeleteBadTrees then set_left None (set_right None t) else t)"

lemma complete_child_size: "complete_child hashalg c = Some t \<Longrightarrow> size t < size_option size c"
  by (cases c) (auto simp: complete_child_def)

lemma complete_child_None [simp]: "complete_child hashalg c = None \<longleftrightarrow> c = None"
  by (simp add: complete_child_def)

function VerifyHashTree :: "(uint8 list \<Rightarrow> uint8 list) \<Rightarrow> bool \<Rightarrow> CAICHHashTree \<Rightarrow> bool \<times> CAICHHashTree" where
  "VerifyHashTree hashalg bDeleteBadTrees t =
     (if \<not> m_bHashValid t then (False, delete_children bDeleteBadTrees t)
      else
        let l = complete_child hashalg (m_pLeftTree t);
            r = complete_child hashalg (m_pRightTree t);
            t = set_left l (set_right r t)
        in if valid_child r \<noteq> valid_child l then (False, delete_children bDeleteBadTrees t)
           else
             (case (l, r) of
                (Some l', Some r') \<Rightarrow>
                  if valid_child r \<and> valid_child l then
                    if m_Hash t \<noteq> hashalg (m_Hash l' @ m_Hash r') then (False, delete_children bDeleteBadTrees t)
                    else
                      (case VerifyHashTree hashalg bDeleteBadTrees l' of
                         (okl, l') \<Rightarrow>
                           if \<not> okl then (False, set_left (Some l') t)
                           else
                             (case VerifyHashTree hashalg bDeleteBadTrees r' of
                                (okr, r') \<Rightarrow> (okr, set_left (Some l') (set_right (Some r') t))))
                  else (True, t)
              | _ \<Rightarrow> (True, t)))"
  by pat_completeness auto
termination
proof (relation "measure (\<lambda>(hashalg, del, t). size t)", goal_cases)
  case 1
  show ?case by simp
next
  case (2 hashalg del t l r t' x y l' r')
  then have "complete_child hashalg (m_pLeftTree t) = Some l'" by simp
  from complete_child_size [OF this] show ?case by (cases t) simp
next
  case (3 hashalg del t l r t' x y l' r')
  then have "complete_child hashalg (m_pRightTree t) = Some r'" by simp
  from complete_child_size [OF this] show ?case by (cases t) simp
qed

declare VerifyHashTree.simps [simp del]

section \<open>Reading and writing\<close>

definition ReadAICHHash :: "uint8 list io" where
  "ReadAICHHash = ReadIO HASHSIZE"

definition WriteAICHHash :: "uint8 list \<Rightarrow> unit io" where
  "WriteAICHHash h = WriteIO (take HASHSIZE h)"

definition SetBlockHash :: "nat \<Rightarrow> nat \<Rightarrow> uint8 list \<Rightarrow> CAICHHashTree \<Rightarrow> CAICHHashTree" where
  "SetBlockHash nSize nStartPos hash t =
     (case FindHash nStartPos nSize 0 t of
        (None, lv, t) \<Rightarrow> t
      | (Some p, lv, t) \<Rightarrow>
          (case node_at p t of
             None \<Rightarrow> t
           | Some c \<Rightarrow> if m_nBaseSize c \<noteq> EMBLOCKSIZE \<or> m_nDataSize c \<noteq> nSize then t else update_node p (set_hash hash) t))"

definition next_ident :: "uint32 \<Rightarrow> CAICHHashTree \<Rightarrow> uint32" where
  "next_ident wHashIdent t = push_bit 1 wHashIdent OR (if m_bIsLeftBranch t then 1 else 0)"

definition WriteNodeHash :: "uint32 \<Rightarrow> bool \<Rightarrow> CAICHHashTree \<Rightarrow> unit io" where
  "WriteNodeHash wHashIdent b32BitIdent t =
     (let wHashIdent = next_ident wHashIdent t in
      io_seq (if \<not> b32BitIdent then WriteUInt16 (ucast wHashIdent) else WriteUInt32 wHashIdent) (WriteAICHHash (m_Hash t)))"

text \<open>\<open>a && b\<close> where both write.\<close>

definition io_and :: "bool io \<Rightarrow> bool io \<Rightarrow> bool io" where
  "io_and a b = io_bind a (\<lambda>x. if x then b else io_return False)"

fun WriteLowestLevelHashs :: "uint32 \<Rightarrow> bool \<Rightarrow> bool \<Rightarrow> CAICHHashTree \<Rightarrow> bool io" where
  "WriteLowestLevelHashs wHashIdent bNoIdent b32BitIdent (HashTree h d b lb v None None) =
     (let wHashIdent = next_ident wHashIdent (HashTree h d b lb v None None) in
      if d \<le> b \<and> v then
        io_seq
          (if \<not> bNoIdent \<and> \<not> b32BitIdent then WriteUInt16 (ucast wHashIdent)
           else if \<not> bNoIdent \<and> b32BitIdent then WriteUInt32 wHashIdent
           else io_return ())
          (io_seq (WriteAICHHash h) (io_return True))
      else io_return False)"
| "WriteLowestLevelHashs wHashIdent bNoIdent b32BitIdent (HashTree h d b lb v (Some l) (Some r)) =
     (let wHashIdent = next_ident wHashIdent (HashTree h d b lb v (Some l) (Some r)) in
      io_and (WriteLowestLevelHashs wHashIdent bNoIdent b32BitIdent l)
        (WriteLowestLevelHashs wHashIdent bNoIdent b32BitIdent r))"
| "WriteLowestLevelHashs wHashIdent bNoIdent b32BitIdent (HashTree h d b lb v (Some l) None) = io_return False"
| "WriteLowestLevelHashs wHashIdent bNoIdent b32BitIdent (HashTree h d b lb v None (Some r)) = io_return False"

function CreateTreeRecoveryData :: "nat \<Rightarrow> nat \<Rightarrow> uint32 \<Rightarrow> bool \<Rightarrow> CAICHHashTree \<Rightarrow> bool io" where
  "CreateTreeRecoveryData nStartPos nSize wHashIdent b32BitIdent t =
     (if \<not> u64 (nStartPos + nSize) \<le> m_nDataSize t \<or> \<not> nSize \<le> m_nDataSize t then io_return False
      else if nStartPos = 0 \<and> nSize = m_nDataSize t then WriteLowestLevelHashs wHashIdent False b32BitIdent t
      else if m_nDataSize t \<le> m_nBaseSize t then io_return False
      else
        let wHashIdent = next_ident wHashIdent t in
        case (m_pLeftTree t, m_pRightTree t) of
          (Some l, Some r) \<Rightarrow>
            if nStartPos < nLeft t then
              (if nLeft t < u64 (nStartPos + nSize) \<or> \<not> m_bHashValid r then io_return False
               else io_seq (WriteNodeHash wHashIdent b32BitIdent r) (CreateTreeRecoveryData nStartPos nSize wHashIdent b32BitIdent l))
            else
              let nStartPos = nStartPos - nLeft t in
              if nRight t < u64 (nStartPos + nSize) \<or> \<not> m_bHashValid l then io_return False
              else io_seq (WriteNodeHash wHashIdent b32BitIdent l) (CreateTreeRecoveryData nStartPos nSize wHashIdent b32BitIdent r)
        | _ \<Rightarrow> io_return False)"
  by pat_completeness auto
termination
proof (relation "measure (\<lambda>(a, n, w, b, t). size t)", goal_cases)
  case 1
  show ?case by simp
next
  case (2 a n w b t w' x y l r)
  then show ?case by (cases t) auto
next
  case (3 a n w b t w' x y l r a')
  then show ?case by (cases t) auto
qed

declare CreateTreeRecoveryData.simps [simp del]

text \<open>Operations on a tree that read a file; the tree as it is left when the file ends is kept.\<close>

type_synonym tree_io = "CAICHHashTree \<Rightarrow> memfile \<Rightarrow> (io_error + bool) \<times> CAICHHashTree \<times> memfile"

definition read_hash :: tree_io where
  "read_hash t f =
     (case ReadAICHHash f of
        (Inl e, f) \<Rightarrow> (Inl e, t, f)
      | (Inr h, f) \<Rightarrow> (Inr True, set_hash h t, f))"

definition on_left :: "tree_io \<Rightarrow> tree_io" where
  "on_left m t f = (case m (left_child t) f of (r, l, f) \<Rightarrow> (r, set_left (Some l) t, f))"

definition on_right :: "tree_io \<Rightarrow> tree_io" where
  "on_right m t f = (case m (right_child t) f of (r, c, f) \<Rightarrow> (r, set_right (Some c) t, f))"

text \<open>
  Without an identifier. The sizes of the children are asserted to be \<open>nLeft\<close> and \<open>nRight\<close>; a child that is not smaller
  than its parent would be descended into without end, which is the fault \<open>MemoryFault\<close>.
\<close>

function LoadLowestLevelHashs :: tree_io where
  "LoadLowestLevelHashs t f =
     (if m_nDataSize t \<le> m_nBaseSize t then read_hash t f
      else
        let t = set_left (Some (left_child t)) (set_right (Some (right_child t)) t);
            l = left_child t; r = right_child t
        in if \<not> (m_nDataSize l < m_nDataSize t \<and> m_nDataSize r < m_nDataSize t) then (Inl MemoryFault, t, f)
           else
             (case LoadLowestLevelHashs l f of
                (Inr True, l', f) \<Rightarrow>
                  (case LoadLowestLevelHashs r f of
                     (x, r', f) \<Rightarrow> (x, set_left (Some l') (set_right (Some r') t), f))
              | (x, l', f) \<Rightarrow> (x, set_left (Some l') t, f)))"
  by pat_completeness auto
termination
proof (relation "measure (\<lambda>(t, f). m_nDataSize t)", goal_cases)
qed (auto simp: set_left_def set_right_def)

declare LoadLowestLevelHashs.simps [simp del]

text \<open>
  \<open>SetHash\<close>: the first call counts the levels from the highest bit of the identifier, the others follow its bits.
  They do not pass \<open>bAllowOverwrite\<close> on: its default is \<open>true\<close>.
\<close>

function ident_level :: "nat \<Rightarrow> uint32 \<Rightarrow> nat \<times> uint32" where
  "ident_level i wHashIdent =
     (if i < 32 \<and> wHashIdent AND 0x80000000 = 0 then ident_level (i + 1) (push_bit 1 wHashIdent) else (i, wHashIdent))"
  by pat_completeness auto
termination
  by (relation "measure (\<lambda>(i, w). 32 - i)") auto

declare ident_level.simps [simp del]

fun SetHash_at :: "uint32 \<Rightarrow> nat \<Rightarrow> bool \<Rightarrow> tree_io" where
  "SetHash_at wHashIdent 0 bAllowOverwrite t f =
     (if m_bHashValid t \<and> \<not> bAllowOverwrite then
        (case SeekIO (int HASHSIZE) FromCurrent f of
           (Inl e, f) \<Rightarrow> (Inl e, t, f)
         | (Inr _, f) \<Rightarrow> (Inr True, t, f))
      else read_hash t f)"
| "SetHash_at wHashIdent (Suc nLevel) bAllowOverwrite t f =
     (if m_nDataSize t \<le> m_nBaseSize t then (Inr False, t, f)
      else
        let wHashIdent = push_bit 1 wHashIdent in
        if wHashIdent AND 0x80000000 \<noteq> 0 then on_left (SetHash_at wHashIdent nLevel True) t f
        else on_right (SetHash_at wHashIdent nLevel True) t f)"

definition SetHash :: "uint32 \<Rightarrow> bool \<Rightarrow> tree_io" where
  "SetHash wHashIdent bAllowOverwrite t f =
     (case ident_level 0 wHashIdent of
        (i, w) \<Rightarrow> if 31 < i then (Inr False, t, f) else SetHash_at w (31 - i) bAllowOverwrite t f)"

end
