(* ===== verification/AICH_Set.thy ===== *)
theory AICH_Set
  imports AICH_Tree
begin

text \<open>
  The AICH hash set of a file: \<open>CAICHHashSet\<close> (\<open>src/src/SHAHashSet.cpp\<close>, \<open>.h\<close>): the packets that recover the hashes of a
  part, and the votes on the root hash. \<open>sha\<close> is the algorithm of \<open>GetNewHashAlgo\<close>.
\<close>

section \<open>The hash set of a file\<close>

datatype EAICHStatus = AICH_ERROR | AICH_EMPTY | AICH_UNTRUSTED | AICH_TRUSTED | AICH_VERIFIED | AICH_HASHSETCOMPLETE

definition OLD_MAX_FILE_SIZE :: nat where
  "OLD_MAX_FILE_SIZE = 4290048000"

text \<open>Of the file that owns the set only its size and whether it is a part file are used.\<close>

record CAICHHashSet =
  owner_size :: nat
  IsPartFile :: bool
  m_eStatus :: EAICHStatus
  m_aUntrustedHashs :: "(uint8 list \<times> uint32 list) list"
  m_pHashTree :: CAICHHashTree

definition new_hash_set :: "nat \<Rightarrow> bool \<Rightarrow> CAICHHashSet" where
  "new_hash_set nFileSize partFile =
     \<lparr>owner_size = nFileSize, IsPartFile = partFile, m_eStatus = AICH_EMPTY, m_aUntrustedHashs = [],
      m_pHashTree = new_hash_tree 0 True PARTSIZE\<rparr>"

definition IsLargeFile :: "CAICHHashSet \<Rightarrow> bool" where
  "IsLargeFile s \<longleftrightarrow> OLD_MAX_FILE_SIZE < owner_size s"

definition SetFileSize :: "nat \<Rightarrow> CAICHHashSet \<Rightarrow> CAICHHashSet" where
  "SetFileSize nSize s =
     (let t = m_pHashTree s in
      s\<lparr>m_pHashTree := HashTree (m_Hash t) nSize (base_size nSize) (m_bIsLeftBranch t) (m_bHashValid t) (m_pLeftTree t) (m_pRightTree t)\<rparr>)"

definition SetMasterHash :: "uint8 list \<Rightarrow> EAICHStatus \<Rightarrow> CAICHHashSet \<Rightarrow> CAICHHashSet" where
  "SetMasterHash h eNewStatus s = s\<lparr>m_pHashTree := set_hash h (m_pHashTree s), m_eStatus := eNewStatus\<rparr>"

definition FreeHashSet :: "CAICHHashSet \<Rightarrow> CAICHHashSet" where
  "FreeHashSet s = s\<lparr>m_pHashTree := set_left None (set_right None (m_pHashTree s))\<rparr>"

definition set_ReCalculateHash :: "(uint8 list \<Rightarrow> uint8 list) \<Rightarrow> bool \<Rightarrow> CAICHHashSet \<Rightarrow> bool \<times> CAICHHashSet" where
  "set_ReCalculateHash sha bDontReplace s =
     (case ReCalculateHash sha bDontReplace (m_pHashTree s) of (r, t) \<Rightarrow> (r, s\<lparr>m_pHashTree := t\<rparr>))"

definition set_VerifyHashTree :: "(uint8 list \<Rightarrow> uint8 list) \<Rightarrow> bool \<Rightarrow> CAICHHashSet \<Rightarrow> bool \<times> CAICHHashSet" where
  "set_VerifyHashTree sha bDeleteBadTrees s =
     (case VerifyHashTree sha bDeleteBadTrees (m_pHashTree s) of (r, t) \<Rightarrow> (r, s\<lparr>m_pHashTree := t\<rparr>))"

definition part_size :: "nat \<Rightarrow> CAICHHashSet \<Rightarrow> nat" where
  "part_size nPartStartPos s = min PARTSIZE (sub64 (owner_size s) nPartStartPos)"

definition num_blocks :: "nat \<Rightarrow> nat" where
  "num_blocks n = n div EMBLOCKSIZE + (if n mod EMBLOCKSIZE \<noteq> 0 then 1 else 0)"

text \<open>The number of hashes of the recovery data of a part, on \<open>uint16\<close>.\<close>

definition hashs_of_part :: "nat \<Rightarrow> CAICHHashSet \<Rightarrow> nat \<times> CAICHHashSet" where
  "hashs_of_part nPartStartPos s =
     (case FindHash nPartStartPos (part_size nPartStartPos s) 0 (m_pHashTree s) of
        (p, nLevel, t) \<Rightarrow> (u16 (nLevel - 1 + num_blocks (part_size nPartStartPos s)), s\<lparr>m_pHashTree := t\<rparr>))"

text \<open>\<open>load\<close> is \<open>LoadHashSet\<close>, which reads the file of all hash sets; \<open>None\<close> when \<open>bDbgDontLoad\<close> is set.\<close>

definition CreatePartRecoveryData ::
  "(CAICHHashSet \<Rightarrow> bool \<times> CAICHHashSet) option \<Rightarrow> nat \<Rightarrow> CAICHHashSet \<Rightarrow> memfile \<Rightarrow> (io_error + bool) \<times> CAICHHashSet \<times> memfile" where
  "CreatePartRecoveryData load nPartStartPos s f =
     (if IsPartFile s \<or> m_eStatus s \<noteq> AICH_HASHSETCOMPLETE then (Inr False, s, f)
      else if m_nDataSize (m_pHashTree s) \<le> EMBLOCKSIZE then (Inr False, s, f)
      else
        case (case load of None \<Rightarrow> (True, s) | Some g \<Rightarrow> g s) of (loaded, s) \<Rightarrow>
        if \<not> loaded then (Inr False, s\<lparr>m_eStatus := AICH_ERROR\<rparr>, f)
        else
          case hashs_of_part nPartStartPos s of (nHashsToWrite, s) \<Rightarrow>
          let large = IsLargeFile s in
          case io_seq (if large then WriteUInt16 0 else io_return ()) (WriteUInt16 (of_nat nHashsToWrite)) f of
            (Inl e, f) \<Rightarrow> (Inl e, s, f)
          | (Inr _, f) \<Rightarrow>
              let nCheckFilePos = m_position f in
              case CreateTreeRecoveryData nPartStartPos (part_size nPartStartPos s) 0 large (m_pHashTree s) f of
                (Inl e, f) \<Rightarrow> (Inl e, s, f)
              | (Inr ok, f) \<Rightarrow>
                  let good = (ok \<and> nHashsToWrite * (HASHSIZE + (if large then 4 else 2)) = m_position f - nCheckFilePos);
                      s = (if good then s else s\<lparr>m_eStatus := AICH_ERROR\<rparr>)
                  in case (if \<not> large then WriteUInt16 0 else io_return ()) f of
                       (Inl e, f) \<Rightarrow> (Inl e, s, f)
                     | (Inr _, f) \<Rightarrow> (Inr good, if load \<noteq> None then FreeHashSet s else s, f))"

text \<open>The loops of \<open>ReadRecoveryData\<close>: \<open>n\<close> identifiers with their hashes; \<open>ident_ok\<close> refuses identifiers.\<close>

primrec read_hashs :: "uint32 io \<Rightarrow> (uint32 \<Rightarrow> bool) \<Rightarrow> nat \<Rightarrow> tree_io" where
  "read_hashs ReadIdent ident_ok 0 t f = (Inr True, t, f)"
| "read_hashs ReadIdent ident_ok (Suc n) t f =
     (case ReadIdent f of
        (Inl e, f) \<Rightarrow> (Inl e, t, f)
      | (Inr wHashIdent, f) \<Rightarrow>
          if \<not> ident_ok wHashIdent then (Inr False, t, f)
          else
            case SetHash wHashIdent False t f of
              (Inr True, t, f) \<Rightarrow> read_hashs ReadIdent ident_ok n t f
            | (r, t, f) \<Rightarrow> (r, t, f))"

text \<open>Are all hashes of the blocks of a part there?  The nodes that \<open>FindHash\<close> creates stay.\<close>

function blocks_there :: "nat \<Rightarrow> nat \<Rightarrow> nat \<Rightarrow> CAICHHashTree \<Rightarrow> bool \<times> CAICHHashTree" where
  "blocks_there nPartStartPos nPartSize nPartPos t =
     (if \<not> nPartPos < nPartSize then (True, t)
      else
        case FindHash (u64 (nPartStartPos + nPartPos)) (min EMBLOCKSIZE (nPartSize - nPartPos)) 0 t of
          (None, lv, t) \<Rightarrow> (False, t)
        | (Some p, lv, t) \<Rightarrow>
            if \<not> valid_child (node_at p t) then (False, t)
            else blocks_there nPartStartPos nPartSize (nPartPos + EMBLOCKSIZE) t)"
  by pat_completeness auto
termination
  by (relation "measure (\<lambda>(a, n, i, t). n - i)") (auto simp: EMBLOCKSIZE_def)

declare blocks_there.simps [simp del]

definition IsPartDataAvailable :: "nat \<Rightarrow> CAICHHashSet \<Rightarrow> bool \<times> CAICHHashSet" where
  "IsPartDataAvailable nPartStartPos s =
     (if \<not> (m_eStatus s = AICH_VERIFIED \<or> m_eStatus s = AICH_TRUSTED \<or> m_eStatus s = AICH_HASHSETCOMPLETE) then (False, s)
      else
        case blocks_there nPartStartPos (part_size nPartStartPos s) 0 (m_pHashTree s) of
          (r, t) \<Rightarrow> (r, s\<lparr>m_pHashTree := t\<rparr>))"

definition ReadRecoveryData ::
  "(uint8 list \<Rightarrow> uint8 list) \<Rightarrow> nat \<Rightarrow> CAICHHashSet \<Rightarrow> memfile \<Rightarrow> (io_error + bool) \<times> CAICHHashSet \<times> memfile" where
  "ReadRecoveryData sha nPartStartPos s f =
     (if \<not> (m_eStatus s = AICH_VERIFIED \<or> m_eStatus s = AICH_TRUSTED) then (Inr False, s, f)
      else
        case hashs_of_part nPartStartPos s of (nHashsToRead, s) \<Rightarrow>
        case ReadUInt16 f of
          (Inl e, f) \<Rightarrow> (Inl e, s, f)
        | (Inr count1, f) \<Rightarrow>
            let nHashsAvailable = unat count1 in
            if remaining f < nHashsToRead * (HASHSIZE + 2) \<or> (nHashsToRead \<noteq> nHashsAvailable \<and> nHashsAvailable \<noteq> 0)
            then (Inr False, s, f)
            else
              case read_hashs (io_map ucast ReadUInt16) (\<lambda>w. w \<noteq> 1) nHashsAvailable (m_pHashTree s) f of
                (Inl e, t, f) \<Rightarrow> (Inl e, s\<lparr>m_pHashTree := t\<rparr>, f)
              | (Inr False, t, f) \<Rightarrow> (Inr False, snd (set_VerifyHashTree sha True (s\<lparr>m_pHashTree := t\<rparr>)), f)
              | (Inr True, t, f) \<Rightarrow>
                  let s = s\<lparr>m_pHashTree := t\<rparr> in
                  let finish = (\<lambda>n s f.
                    if n = 0 then (Inr False, s, f)
                    else
                      (case set_VerifyHashTree sha True s of
                         (False, s) \<Rightarrow> (Inr False, s, f)
                       | (True, s) \<Rightarrow>
                           (case blocks_there nPartStartPos (part_size nPartStartPos s) 0 (m_pHashTree s) of
                              (r, t) \<Rightarrow> (Inr r, s\<lparr>m_pHashTree := t\<rparr>, f))))
                  in if nHashsAvailable = 0 \<and> 2 \<le> remaining f then
                       (case ReadUInt16 f of
                          (Inl e, f) \<Rightarrow> (Inl e, s, f)
                        | (Inr count2, f) \<Rightarrow>
                            let nHashsAvailable = unat count2 in
                            if remaining f < nHashsToRead * (HASHSIZE + 4) \<or> (nHashsToRead \<noteq> nHashsAvailable \<and> nHashsAvailable \<noteq> 0)
                            then (Inr False, s, f)
                            else
                              (case read_hashs ReadUInt32 (\<lambda>w. w \<noteq> 1 \<and> w \<le> 0x400000) nHashsToRead (m_pHashTree s) f of
                                 (Inl e, t, f) \<Rightarrow> (Inl e, s\<lparr>m_pHashTree := t\<rparr>, f)
                               | (Inr False, t, f) \<Rightarrow> (Inr False, snd (set_VerifyHashTree sha True (s\<lparr>m_pHashTree := t\<rparr>)), f)
                               | (Inr True, t, f) \<Rightarrow> finish nHashsAvailable (s\<lparr>m_pHashTree := t\<rparr>) f))
                     else finish nHashsAvailable s f)"

text \<open>Which hash to trust: \<open>IsTrustingEveryHash\<close> is a preference. The set of signing addresses keeps their first 20 bits.\<close>

definition MINUNIQUEIPS_TOTRUST :: nat where "MINUNIQUEIPS_TOTRUST = 10"
definition MINPERCENTAGE_TOTRUST :: nat where "MINPERCENTAGE_TOTRUST = 92"

definition AddSigningIP :: "uint32 \<Rightarrow> uint8 list \<times> uint32 list \<Rightarrow> uint8 list \<times> uint32 list" where
  "AddSigningIP dwIP u = (fst u, List.insert (dwIP AND 0x00F0FFFF) (snd u))"

fun sign_first :: "uint8 list \<Rightarrow> uint32 \<Rightarrow> (uint8 list \<times> uint32 list) list \<Rightarrow> (uint8 list \<times> uint32 list) list" where
  "sign_first h ip [] = [AddSigningIP ip (h, [])]"
| "sign_first h ip (u # us) = (if fst u = h then AddSigningIP ip u # us else u # sign_first h ip us)"

definition most_trusted :: "(uint8 list \<times> uint32 list) list \<Rightarrow> (uint8 list \<times> uint32 list) option" where
  "most_trusted us =
     fold (\<lambda>u m. if (case m of None \<Rightarrow> 0 | Some v \<Rightarrow> length (snd v)) < length (snd u) then Some u else m) us None"

definition UntrustedHashReceived :: "bool \<Rightarrow> uint8 list \<Rightarrow> uint32 \<Rightarrow> CAICHHashSet \<Rightarrow> CAICHHashSet" where
  "UntrustedHashReceived IsTrustingEveryHash hash dwFromIP s =
     (if m_eStatus s \<notin> {AICH_EMPTY, AICH_UNTRUSTED, AICH_TRUSTED} then s
      else
        let us = sign_first hash dwFromIP (m_aUntrustedHashs s);
            s = s\<lparr>m_aUntrustedHashs := us\<rparr>;
            nSigningIPsTotal = u32 (sum_list (map (\<lambda>u. length (snd u)) us))
        in case most_trusted us of
             None \<Rightarrow> s
           | Some (h, ips) \<Rightarrow>
               if nSigningIPsTotal = 0 then s
               else
               let status = (if IsTrustingEveryHash \<or>
                     (MINUNIQUEIPS_TOTRUST \<le> length ips \<and> MINPERCENTAGE_TOTRUST \<le> u32 (100 * length ips) div nSigningIPsTotal)
                   then AICH_TRUSTED else AICH_UNTRUSTED)
               in if \<not> m_bHashValid (m_pHashTree s) \<or> m_Hash (m_pHashTree s) \<noteq> h
                  then FreeHashSet (SetMasterHash h status s)
                  else s\<lparr>m_eStatus := status\<rparr>)"

end
