(* ===== verification/AICH_Paths.thy ===== *)
theory AICH_Paths
  imports AICH_Set
begin

text \<open>
  Paths in the hash tree: which node holds a piece of the file and how deep it is (\<open>locates\<close>), the shape that the sizes
  give the tree (\<open>shaped\<close>), what \<open>FindHash\<close> and \<open>SetHash\<close> do along a path, and the identifiers that name a path.
\<close>

section \<open>The sizes in the tree\<close>

lemma sizes_pos [simp]: "0 < EMBLOCKSIZE" "0 < PARTSIZE" "EMBLOCKSIZE \<le> PARTSIZE" "0 < base_size d"
  by (simp_all add: EMBLOCKSIZE_def PARTSIZE_def base_size_def)

lemma nBlocks_bounds:
  assumes "0 < b" and "b < d"
  shows "2 \<le> nBlocks d b" and "(nBlocks d b - 1) * b < d" and "d \<le> nBlocks d b * b"
proof -
  let ?q = "d div b" and ?r = "d mod b"
  have d: "d = ?q * b + ?r" "?r < b" using assms by simp_all
  have "1 * b \<le> d" using assms by simp
  then have q: "1 \<le> ?q" using assms(1) less_eq_div_iff_mult_less_eq [of b 1 d] by simp
  show "2 \<le> nBlocks d b"
  proof (cases "?r = 0")
    case True
    then have "?q \<noteq> 1" using d assms(2) by auto
    then show ?thesis using q True by (simp add: nBlocks_def)
  next
    case False
    then show ?thesis using q by (simp add: nBlocks_def)
  qed
  show "d \<le> nBlocks d b * b"
  proof (cases "?r = 0")
    case True
    then show ?thesis using d by (simp add: nBlocks_def)
  next
    case False
    have "nBlocks d b * b = ?q * b + b" using False by (simp add: nBlocks_def algebra_simps)
    then show ?thesis using d by linarith
  qed
  show "(nBlocks d b - 1) * b < d"
  proof (cases "?r = 0")
    case True
    have "(nBlocks d b - 1) * b = ?q * b - b" using True by (simp add: nBlocks_def diff_mult_distrib)
    then show ?thesis using d True q assms by simp
  next
    case False
    have "(nBlocks d b - 1) * b = ?q * b" using False by (simp add: nBlocks_def)
    then show ?thesis using d False by linarith
  qed
qed

lemma left_size_bounds:
  assumes "0 < b" and "b < d"
  shows "0 < left_size d b lb" and "left_size d b lb < d" and "b dvd left_size d b lb"
    and "left_size d b lb \<le> (nBlocks d b - 1) * b"
proof -
  let ?k = "nBlocks d b"
  let ?m = "(if lb then ?k + 1 else ?k) div 2"
  have k: "2 \<le> ?k" "(?k - 1) * b < d" using nBlocks_bounds [OF assms] by simp_all
  have m: "1 \<le> ?m" "?m \<le> ?k - 1" using k(1) by auto
  have l: "left_size d b lb = ?m * b" by (simp add: left_size_def)
  show "0 < left_size d b lb" unfolding l using m(1) assms(1) by simp
  show le: "left_size d b lb \<le> (?k - 1) * b" unfolding l using m(2) by (rule mult_le_mono1)
  show "left_size d b lb < d" using le k(2) by linarith
  show "b dvd left_size d b lb" unfolding l by simp
qed

lemma nBlocks_le: "0 < b \<Longrightarrow> d \<le> k * b \<Longrightarrow> nBlocks d b \<le> k"
proof -
  assume b: "0 < b" and d: "d \<le> k * b"
  have "d = d div b * b + d mod b" by simp
  show ?thesis
  proof (cases "d mod b = 0")
    case True
    have "d div b \<le> k" using d b by (metis div_le_mono nonzero_mult_div_cancel_right not_gr_zero)
    then show ?thesis using True by (simp add: nBlocks_def)
  next
    case False
    have "d div b * b < k * b" using False d \<open>d = d div b * b + d mod b\<close> by linarith
    then have "d div b < k" using b by simp
    then show ?thesis using False by (simp add: nBlocks_def)
  qed
qed

lemma nBlocks_halves:
  assumes "0 < b" and "b < d"
  shows "nBlocks (left_size d b lb) b + nBlocks (d - left_size d b lb) b = nBlocks d b"
    and "nBlocks d b \<le> 2 * j \<Longrightarrow> nBlocks (left_size d b lb) b \<le> j \<and> nBlocks (d - left_size d b lb) b \<le> j"
proof -
  let ?k = "nBlocks d b"
  let ?m = "(if lb then ?k + 1 else ?k) div 2"
  have k: "2 \<le> ?k" using nBlocks_bounds [OF assms] by simp
  have l: "left_size d b lb = ?m * b" by (simp add: left_size_def)
  have a: "nBlocks (?m * b) b = ?m" using assms(1) by (simp add: nBlocks_def)
  have "?m * b \<le> d" using left_size_bounds(2) [OF assms, of lb] l by simp
  then obtain e where e: "d = ?m * b + e" by (metis le_add_diff_inverse)
  have "nBlocks d b = ?m + nBlocks e b" using assms(1) unfolding e [symmetric]
    by (subst e) (simp add: nBlocks_def)
  moreover have "d - ?m * b = e" using e by simp
  ultimately show s: "nBlocks (left_size d b lb) b + nBlocks (d - left_size d b lb) b = nBlocks d b"
    using a l by simp
  assume "nBlocks d b \<le> 2 * j"
  then show "nBlocks (left_size d b lb) b \<le> j \<and> nBlocks (d - left_size d b lb) b \<le> j"
    using s a l k by (auto split: if_splits)
qed

text \<open>The path that the data from \<open>start\<close> on for \<open>size\<close> bytes has in a tree of \<open>d\<close> bytes.\<close>

inductive locates :: "nat \<Rightarrow> bool \<Rightarrow> nat \<Rightarrow> nat \<Rightarrow> bool list \<Rightarrow> bool" where
  here: "locates d lb 0 d []"
| left: "base_size d < d \<Longrightarrow> n < d \<Longrightarrow> start + n \<le> left_size d (base_size d) lb \<Longrightarrow> 0 < n
    \<Longrightarrow> locates (left_size d (base_size d) lb) True start n p \<Longrightarrow> locates d lb start n (True # p)"
| right: "base_size d < d \<Longrightarrow> n < d \<Longrightarrow> start + n \<le> d - left_size d (base_size d) lb \<Longrightarrow> 0 < n
    \<Longrightarrow> locates (d - left_size d (base_size d) lb) False start n p
    \<Longrightarrow> locates d lb (left_size d (base_size d) lb + start) n (False # p)"

lemma locates_bounds: "locates d lb start n p \<Longrightarrow> start + n \<le> d \<and> (p \<noteq> [] \<longrightarrow> 0 < n)"
  by (induction rule: locates.induct)
    (use left_size_bounds in \<open>auto simp: less_imp_le intro: order_trans\<close>)

text \<open>An aligned piece of one base block.\<close>

lemma locates_unit:
  assumes "0 < B" and "\<And>d'. B < d' \<Longrightarrow> d' \<le> D \<Longrightarrow> base_size d' = B"
  shows "d \<le> D \<Longrightarrow> B dvd start \<Longrightarrow> start < d \<Longrightarrow> nBlocks d B \<le> 2 ^ m \<Longrightarrow> n = min B (d - start)
    \<Longrightarrow> \<exists>p. locates d lb start n p \<and> length p \<le> m \<and> (B < d \<longrightarrow> p \<noteq> [])"
proof (induction m arbitrary: d lb start n)
  case 0
  have "d \<le> B"
  proof (rule ccontr)
    assume "\<not> d \<le> B"
    then have "2 \<le> nBlocks d B" using nBlocks_bounds(1) [of B d] assms(1) by simp
    then show False using 0 by simp
  qed
  moreover have "start = 0"
  proof (rule ccontr)
    assume "start \<noteq> 0"
    then have "B \<le> start" using 0(2) by (simp add: dvd_imp_le)
    then show False using 0 \<open>d \<le> B\<close> by simp
  qed
  ultimately show ?case using 0 locates.here [of d lb] by (intro exI [of _ "[]"]) simp
next
  case (Suc m)
  show ?case
  proof (cases "d \<le> B")
    case True
    have "start = 0"
    proof (rule ccontr)
      assume "start \<noteq> 0"
      then have "B \<le> start" using Suc.prems(2) by (simp add: dvd_imp_le)
      then show False using Suc.prems True by simp
    qed
    then show ?thesis using Suc.prems True locates.here [of d lb] by (intro exI [of _ "[]"]) simp
  next
    case False
    let ?L = "left_size d B lb"
    have bs: "base_size d = B" using assms(2) [of d] False Suc.prems(1) by simp
    have L: "0 < ?L" "?L < d" "B dvd ?L" using left_size_bounds [of B d lb] assms(1) False by simp_all
    have h: "nBlocks ?L B \<le> 2 ^ m" "nBlocks (d - ?L) B \<le> 2 ^ m"
      using nBlocks_halves(2) [of B d "2 ^ m" lb] assms(1) False Suc.prems(4) by simp_all
    have n: "0 < n" "n < d" using Suc.prems False assms(1) by auto
    show ?thesis
    proof (cases "start < ?L")
      case True
      have "B \<le> ?L - start" using L(3) Suc.prems(2) True by (intro dvd_imp_le) auto
      then have nn: "n = min B (?L - start)" using Suc.prems(5) L(2) by simp
      obtain p where p: "locates ?L True start n p" "length p \<le> m" using Suc.IH [of ?L start n True] L Suc.prems(1,2) True h(1) nn by auto
      have "start + n \<le> ?L" using nn True by simp
      then have "locates d lb start n (True # p)" using p(1) n False bs by (intro locates.left) simp_all
      then show ?thesis using p(2) by (intro exI [of _ "True # p"]) simp
    next
      case F: False
      let ?s = "start - ?L"
      have nn: "n = min B (d - ?L - ?s)" using Suc.prems(5) F by simp
      have "B dvd ?s" using Suc.prems(2) L(3) F by (simp add: dvd_diff_nat)
      moreover have sd: "?s < d - ?L" using Suc.prems(3) F by simp
      moreover have "d - ?L \<le> D" using Suc.prems(1) by simp
      ultimately obtain p where p: "locates (d - ?L) False ?s n p" "length p \<le> m" using Suc.IH [OF _ _ _ h(2) nn] by blast
      have "n \<le> d - ?L - ?s" using nn by (simp only: min.cobounded2)
      then have "?s + n \<le> d - ?L" using sd by linarith
      then have "locates d lb (left_size d (base_size d) lb + ?s) n (False # p)" using p(1) n False bs by (intro locates.right) simp_all
      then show ?thesis using p(2) F bs by (intro exI [of _ "False # p"]) simp
    qed
  qed
qed

lemma locates_append:
  "locates d lb S n p \<Longrightarrow> locates n (if p = [] then lb else last p) s z q \<Longrightarrow> 0 < z \<Longrightarrow> locates d lb (S + s) z (p @ q)"
proof (induction rule: locates.induct)
  case (here d lb)
  then show ?case by simp
next
  case (left d n start lb p)
  have b: "s + z \<le> n" using locates_bounds left.prems(1) by blast
  have "locates (left_size d (base_size d) lb) True (start + s) z (p @ q)"
    using left by (cases "p = []") auto
  then show ?case using left b by (auto intro!: locates.left)
next
  case (right d n start lb p)
  have b: "s + z \<le> n" using locates_bounds right.prems(1) by blast
  have "locates (d - left_size d (base_size d) lb) False (start + s) z (p @ q)"
    using right by (cases "p = []") auto
  then have "locates d lb (left_size d (base_size d) lb + (start + s)) z (False # (p @ q))" using right b by (intro locates.right) auto
  then show ?case by (simp add: add.assoc)
qed

section \<open>Nodes\<close>

lemma set_left_simps [simp]:
  "m_Hash (set_left c t) = m_Hash t" "m_nDataSize (set_left c t) = m_nDataSize t" "m_nBaseSize (set_left c t) = m_nBaseSize t"
  "m_bIsLeftBranch (set_left c t) = m_bIsLeftBranch t" "m_bHashValid (set_left c t) = m_bHashValid t"
  "m_pLeftTree (set_left c t) = c" "m_pRightTree (set_left c t) = m_pRightTree t"
  by (simp_all add: set_left_def)

lemma set_right_simps [simp]:
  "m_Hash (set_right c t) = m_Hash t" "m_nDataSize (set_right c t) = m_nDataSize t" "m_nBaseSize (set_right c t) = m_nBaseSize t"
  "m_bIsLeftBranch (set_right c t) = m_bIsLeftBranch t" "m_bHashValid (set_right c t) = m_bHashValid t"
  "m_pLeftTree (set_right c t) = m_pLeftTree t" "m_pRightTree (set_right c t) = c"
  by (simp_all add: set_right_def)

lemma set_hash_simps [simp]:
  "m_Hash (set_hash h t) = h" "m_nDataSize (set_hash h t) = m_nDataSize t" "m_nBaseSize (set_hash h t) = m_nBaseSize t"
  "m_bIsLeftBranch (set_hash h t) = m_bIsLeftBranch t" "m_bHashValid (set_hash h t)"
  "m_pLeftTree (set_hash h t) = m_pLeftTree t" "m_pRightTree (set_hash h t) = m_pRightTree t"
  by (simp_all add: set_hash_def)

lemma new_hash_tree_simps [simp]:
  "m_nDataSize (new_hash_tree d lb b) = d" "m_nBaseSize (new_hash_tree d lb b) = b" "m_bIsLeftBranch (new_hash_tree d lb b) = lb"
  "\<not> m_bHashValid (new_hash_tree d lb b)" "m_pLeftTree (new_hash_tree d lb b) = None" "m_pRightTree (new_hash_tree d lb b) = None"
  by (simp_all add: new_hash_tree_def)

lemma hash_tree_eqI:
  "m_Hash s = m_Hash t \<Longrightarrow> m_nDataSize s = m_nDataSize t \<Longrightarrow> m_nBaseSize s = m_nBaseSize t \<Longrightarrow> m_bIsLeftBranch s = m_bIsLeftBranch t
    \<Longrightarrow> m_bHashValid s = m_bHashValid t \<Longrightarrow> m_pLeftTree s = m_pLeftTree t \<Longrightarrow> m_pRightTree s = m_pRightTree t \<Longrightarrow> s = t"
  by (cases s, cases t) simp

definition child_of :: "bool \<Rightarrow> CAICHHashTree \<Rightarrow> CAICHHashTree" where
  "child_of b t = (if b then left_child t else right_child t)"

definition the_child :: "bool \<Rightarrow> CAICHHashTree \<Rightarrow> CAICHHashTree option" where
  "the_child b t = (if b then m_pLeftTree t else m_pRightTree t)"

definition set_child :: "bool \<Rightarrow> CAICHHashTree option \<Rightarrow> CAICHHashTree \<Rightarrow> CAICHHashTree" where
  "set_child b c t = (if b then set_left c t else set_right c t)"

lemma set_child_simps [simp]:
  "m_Hash (set_child b c t) = m_Hash t" "m_nDataSize (set_child b c t) = m_nDataSize t" "m_nBaseSize (set_child b c t) = m_nBaseSize t"
  "m_bIsLeftBranch (set_child b c t) = m_bIsLeftBranch t" "m_bHashValid (set_child b c t) = m_bHashValid t"
  "the_child a (set_child b c t) = (if a = b then c else the_child a t)"
  "set_child b c (set_child b d t) = set_child b c t"
  by (auto simp: set_child_def the_child_def intro: hash_tree_eqI)

lemma set_child_same [simp]: "the_child b t = c \<Longrightarrow> set_child b c t = t"
  by (auto simp: set_child_def the_child_def intro: hash_tree_eqI)

lemma child_simps [simp]:
  "the_child True t = m_pLeftTree t" "the_child False t = m_pRightTree t"
  "set_child True c t = set_left c t" "set_child False c t = set_right c t"
  "child_of True t = left_child t" "child_of False t = right_child t"
  by (simp_all add: the_child_def set_child_def child_of_def)

definition child_dim :: "bool \<Rightarrow> nat \<Rightarrow> bool \<Rightarrow> nat" where
  "child_dim b d lb = (if b then left_size d (base_size d) lb else d - left_size d (base_size d) lb)"

text \<open>The sizes of a tree fit its root.\<close>

fun shaped :: "CAICHHashTree \<Rightarrow> bool" where
  "shaped (HashTree h d b lb v lo ro) \<longleftrightarrow> b = base_size d \<and>
     (case lo of None \<Rightarrow> True | Some l \<Rightarrow> b < d \<and> m_nDataSize l = left_size d b lb \<and> m_bIsLeftBranch l \<and> shaped l) \<and>
     (case ro of None \<Rightarrow> True | Some r \<Rightarrow> b < d \<and> m_nDataSize r = d - left_size d b lb \<and> \<not> m_bIsLeftBranch r \<and> shaped r)"

lemma shaped_iff:
  "shaped t \<longleftrightarrow> m_nBaseSize t = base_size (m_nDataSize t) \<and>
     (\<forall>b c. the_child b t = Some c \<longrightarrow> m_nBaseSize t < m_nDataSize t \<and> m_nDataSize c = child_dim b (m_nDataSize t) (m_bIsLeftBranch t)
        \<and> m_bIsLeftBranch c = b \<and> shaped c)"
proof (cases t)
  case (HashTree h d b lb v lo ro)
  have "(\<forall>x c. the_child x t = Some c \<longrightarrow> Q x c) = ((case lo of None \<Rightarrow> True | Some l \<Rightarrow> Q True l) \<and> (case ro of None \<Rightarrow> True | Some r \<Rightarrow> Q False r))" for Q
    unfolding all_bool_eq using HashTree by (simp split: option.splits)
  note q = this [of "\<lambda>b c. m_nBaseSize t < m_nDataSize t \<and> m_nDataSize c = child_dim b (m_nDataSize t) (m_bIsLeftBranch t)
        \<and> m_bIsLeftBranch c = b \<and> shaped c"]
  show ?thesis unfolding q using HashTree by (auto simp: child_dim_def split: option.splits)
qed

lemma child_of_cases: "child_of b t = (case the_child b t of Some c \<Rightarrow> c
    | None \<Rightarrow> new_hash_tree (if b then nLeft t else nRight t) b (base_size (if b then nLeft t else nRight t)))"
  by (induction b) (simp_all add: left_child_def right_child_def)

lemma shaped_child:
  assumes "shaped t" and "base_size (m_nDataSize t) < m_nDataSize t"
  shows "shaped (child_of b t)" and "m_nDataSize (child_of b t) = child_dim b (m_nDataSize t) (m_bIsLeftBranch t)" and "m_bIsLeftBranch (child_of b t) = b"
proof -
  have bs: "m_nBaseSize t = base_size (m_nDataSize t)" using assms(1) by (simp add: shaped_iff [of t])
  have dd: "(if b then nLeft t else nRight t) = child_dim b (m_nDataSize t) (m_bIsLeftBranch t)"
    by (simp add: nLeft_def nRight_def child_dim_def bs)
  have n: "shaped (new_hash_tree e b (base_size e))" for e by (simp add: new_hash_tree_def)
  show "shaped (child_of b t)" "m_nDataSize (child_of b t) = child_dim b (m_nDataSize t) (m_bIsLeftBranch t)" "m_bIsLeftBranch (child_of b t) = b"
    using assms(1) unfolding child_of_cases dd shaped_iff [of t] by (auto simp: n simp del: shaped.simps split: option.split)
qed

lemma shaped_set_child:
  assumes "shaped t" and "base_size (m_nDataSize t) < m_nDataSize t" and "shaped c"
    and "m_nDataSize c = child_dim b (m_nDataSize t) (m_bIsLeftBranch t)" and "m_bIsLeftBranch c = b"
  shows "shaped (set_child b (Some c) t)"
  using assms by (subst shaped_iff) (auto simp: shaped_iff [of t])

text \<open>The change of the node at the end of a path; missing nodes on the way are created.\<close>

fun at_path :: "bool list \<Rightarrow> (CAICHHashTree \<Rightarrow> CAICHHashTree) \<Rightarrow> CAICHHashTree \<Rightarrow> CAICHHashTree" where
  "at_path [] f t = f t"
| "at_path (b # p) f t = set_child b (Some (at_path p f (child_of b t))) t"

fun dim_path :: "bool list \<Rightarrow> nat \<Rightarrow> bool \<Rightarrow> bool" where
  "dim_path [] d lb \<longleftrightarrow> True"
| "dim_path (b # p) d lb \<longleftrightarrow> base_size d < d \<and> dim_path p (child_dim b d lb) b"

definition same_dims :: "CAICHHashTree \<Rightarrow> CAICHHashTree \<Rightarrow> bool" where
  "same_dims s t \<longleftrightarrow> m_nDataSize s = m_nDataSize t \<and> m_nBaseSize s = m_nBaseSize t \<and> m_bIsLeftBranch s = m_bIsLeftBranch t"

lemma at_path_dims: "(\<And>s. same_dims (f s) s) \<Longrightarrow> same_dims (at_path p f t) t"
  by (cases p) (simp_all add: same_dims_def)

lemma shaped_at_path:
  assumes "\<And>s. shaped s \<Longrightarrow> shaped (f s)" and "\<And>s. same_dims (f s) s"
  shows "shaped t \<Longrightarrow> dim_path p (m_nDataSize t) (m_bIsLeftBranch t) \<Longrightarrow> shaped (at_path p f t)"
proof (induction p arbitrary: t)
  case Nil
  then show ?case using assms(1) by simp
next
  case (Cons b p)
  have bd: "base_size (m_nDataSize t) < m_nDataSize t" using Cons.prems by simp
  note c = shaped_child [OF Cons.prems(1) bd, of b]
  have "shaped (at_path p f (child_of b t))" using Cons.IH c Cons.prems(2) by simp
  moreover have "same_dims (at_path p f (child_of b t)) (child_of b t)" by (rule at_path_dims [OF assms(2)])
  ultimately show ?case using shaped_set_child [OF Cons.prems(1) bd] c by (simp add: same_dims_def)
qed

lemma shaped_set_hash [simp]: "shaped (set_hash h t) = shaped t"
  by (subst (1 2) shaped_iff) (simp add: the_child_def)

lemma same_dims_set_hash [simp]: "same_dims (set_hash h t) t" "same_dims t t"
  by (simp_all add: same_dims_def)

lemma locates_dim_path: "locates d lb start n p \<Longrightarrow> dim_path p d lb"
  by (induction rule: locates.induct) (simp_all add: child_dim_def)

text \<open>\<open>FindHash\<close> follows the path and creates what is missing.\<close>

lemma FindHash_locates:
  "locates d lb start n p \<Longrightarrow> shaped t \<Longrightarrow> m_nDataSize t = d \<Longrightarrow> m_bIsLeftBranch t = lb \<Longrightarrow> d < 2 ^ 64 \<Longrightarrow> lv + 1 + length p \<le> 22
    \<Longrightarrow> FindHash start n lv t = (Some p, lv + 1 + length p, at_path p (\<lambda>s. s) t)"
proof (induction arbitrary: t lv rule: locates.induct)
  case (here d lb)
  then show ?case by (subst FindHash.simps) (simp add: wrap_simps)
next
  case (left d n start lb p)
  have bs: "m_nBaseSize t = base_size d" using left.prems(1,2) by (simp add: shaped_iff [of t])
  have L: "nLeft t = left_size d (base_size d) lb" using left.prems bs by (simp add: nLeft_def)
  have Ld: "left_size d (base_size d) lb < d" using left_size_bounds left.hyps(1) by simp
  have c: "shaped (left_child t)" "m_nDataSize (left_child t) = left_size d (base_size d) lb" "m_bIsLeftBranch (left_child t)"
    using shaped_child [OF left.prems(1), of True] left.prems left.hyps(1) by (simp_all add: child_of_def child_dim_def)
  have ih: "FindHash start n (lv + 1) (left_child t) = (Some p, lv + 1 + 1 + length p, at_path p (\<lambda>s. s) (left_child t))"
    using left.IH [of "left_child t" "lv + 1"] c left.prems(4,5) Ld by simp
  have u: "u64 (start + n) = start + n" using left.hyps(3) Ld left.prems(4) by (intro u64_small) simp
  show ?case using left.hyps left.prems bs L ih u Ld
    by (subst FindHash.simps) (simp add: child_of_def set_child_def)
next
  case (right d n start lb p)
  have bs: "m_nBaseSize t = base_size d" using right.prems(1,2) by (simp add: shaped_iff [of t])
  let ?L = "left_size d (base_size d) lb"
  have L: "nLeft t = ?L" "nRight t = d - ?L" using right.prems bs by (simp_all add: nLeft_def nRight_def)
  have Ld: "?L < d" using left_size_bounds right.hyps(1) by simp
  have c: "shaped (right_child t)" "m_nDataSize (right_child t) = d - ?L" "\<not> m_bIsLeftBranch (right_child t)"
    using shaped_child [OF right.prems(1), of False] right.prems right.hyps(1) by (simp_all add: child_of_def child_dim_def)
  have ih: "FindHash start n (lv + 1) (right_child t) = (Some p, lv + 1 + 1 + length p, at_path p (\<lambda>s. s) (right_child t))"
    using right.IH [of "right_child t" "lv + 1"] c right.prems(4,5) Ld by simp
  have u: "u64 (start + n) = start + n" "u64 (?L + start + n) = ?L + start + n" using right.hyps(3) Ld right.prems(4) by (simp_all add: u64_small)
  show ?case using right.hyps right.prems bs L ih u Ld
    by (subst FindHash.simps) (simp add: child_of_def set_child_def)
qed

text \<open>Nothing is created where the node exists.\<close>

lemma node_at_Cons: "node_at (b # p) t = (case the_child b t of None \<Rightarrow> None | Some c \<Rightarrow> node_at p c)"
  by (simp add: the_child_def)

declare node_at.simps(2) [simp del]
declare node_at_Cons [simp]

lemma at_path_exists: "node_at p t \<noteq> None \<Longrightarrow> at_path p (\<lambda>s. s) t = t"
proof (induction p arbitrary: t)
  case (Cons b p)
  then obtain c where "the_child b t = Some c" "node_at p c \<noteq> None" by (auto split: option.splits)
  then show ?case using Cons.IH by (simp add: child_of_cases)
qed simp

fun end_node :: "bool list \<Rightarrow> CAICHHashTree \<Rightarrow> CAICHHashTree" where
  "end_node [] t = t"
| "end_node (b # p) t = end_node p (child_of b t)"

lemma node_at_at_path [simp]: "node_at p (at_path p f t) = Some (f (end_node p t))"
  by (induction p arbitrary: t) simp_all

lemma end_node_exists: "node_at p t = Some c \<Longrightarrow> end_node p t = c"
  by (induction p arbitrary: t) (auto simp: child_of_cases split: option.splits)

lemma node_at_append: "node_at (p @ q) t = (case node_at p t of None \<Rightarrow> None | Some c \<Rightarrow> node_at q c)"
  by (induction p arbitrary: t) (auto split: option.splits)

section \<open>Identifiers\<close>

definition path_ident :: "bool list \<Rightarrow> uint32" where
  "path_ident p = foldl (\<lambda>w b. push_bit 1 w OR (if b then 1 else 0)) 1 p"

lemma path_ident_snoc: "path_ident (p @ [b]) = push_bit 1 (path_ident p) OR (if b then 1 else 0)"
  by (simp add: path_ident_def)

lemma bit_path_ident:
  "length p \<le> 31 \<Longrightarrow> bit (path_ident p) j \<longleftrightarrow> j = length p \<or> (j < length p \<and> p ! (length p - 1 - j))"
proof (induction p arbitrary: j rule: rev_induct)
  case Nil
  then show ?case by (simp add: path_ident_def bit_1_iff)
next
  case (snoc b p)
  have one: "bit ((if b then 1 else 0) :: uint32) j \<longleftrightarrow> j = 0 \<and> b" by (simp add: bit_1_iff)
  show ?case
  proof (cases j)
    case 0
    then show ?thesis unfolding path_ident_snoc bit_or_iff one bit_push_bit_iff by (simp add: nth_append)
  next
    case (Suc i)
    have "bit (push_bit 1 (path_ident p)) j \<longleftrightarrow> j < 32 \<and> bit (path_ident p) i" unfolding bit_push_bit_iff using Suc by auto
    moreover have "bit (path_ident p) i \<Longrightarrow> j < 32" using snoc.IH [of i] snoc.prems Suc by auto
    ultimately show ?thesis unfolding path_ident_snoc bit_or_iff one using snoc.IH [of i] snoc.prems Suc
      by (auto simp: nth_append)
  qed
qed

lemma path_ident_small: "length p \<le> 31 \<Longrightarrow> unat (path_ident p) < 2 ^ Suc (length p)"
proof -
  assume l: "length p \<le> 31"
  have "take_bit (Suc (length p)) (path_ident p) = path_ident p"
    by (rule bit_eqI) (use l in \<open>auto simp: bit_take_bit_iff bit_path_ident\<close>)
  then have "take_bit (Suc (length p)) (unat (path_ident p)) = unat (path_ident p)" by (metis unsigned_take_bit_eq)
  then show ?thesis by (simp add: take_bit_nat_eq_self_iff)
qed

lemma path_ident_16:
  assumes "length p \<le> 15"
  shows "ucast (ucast (path_ident p) :: uint16) = path_ident p"
  by (rule bit_eqI) (use assms in \<open>auto simp: bit_simps bit_path_ident\<close>)

lemma path_ident_not_1: "length p \<le> 31 \<Longrightarrow> p \<noteq> [] \<Longrightarrow> path_ident p \<noteq> 1"
proof
  assume a: "length p \<le> 31" "p \<noteq> []" "path_ident p = 1"
  then have "bit (1 :: uint32) (length p)" using bit_path_ident [of p "length p"] by simp
  then have "length p = 0" unfolding bit_1_iff by simp
  then show False using a(2) by simp
qed

lemma path_ident_le: "length p \<le> 21 \<Longrightarrow> path_ident p \<le> 0x400000"
proof -
  assume l: "length p \<le> 21"
  have "unat (path_ident p) < 2 ^ Suc (length p)" using l by (intro path_ident_small) simp
  also have "\<dots> \<le> 2 ^ 22" using l by (intro power_increasing) auto
  finally show ?thesis by (simp add: word_le_nat_alt)
qed

lemma high_bit: "w AND 0x80000000 \<noteq> 0 \<longleftrightarrow> bit w 31" for w :: uint32
proof -
  have m: "(0x80000000 :: uint32) = push_bit 31 1" by simp
  have b: "bit (0x80000000 :: uint32) n \<longleftrightarrow> n = 31" for n unfolding m by (auto simp: bit_simps simp del: push_bit_of_1)
  show ?thesis
  proof
    assume "bit w 31"
    then have "bit (w AND 0x80000000) 31" using b [of 31] by (simp add: bit_and_iff)
    then show "w AND 0x80000000 \<noteq> 0" by (metis bit_0_eq bot_apply bot_bool_def)
  next
    assume "w AND 0x80000000 \<noteq> 0"
    then obtain n where "bit (w AND 0x80000000) n" by (metis bit_eqI bit_0_eq bot_apply bot_bool_def)
    then show "bit w 31" using b [of n] by (simp add: bit_and_iff)
  qed
qed

lemma ident_level_top:
  "k \<le> 31 \<Longrightarrow> bit w k \<Longrightarrow> (\<And>j. k < j \<Longrightarrow> \<not> bit w j) \<Longrightarrow> i \<le> 31 - k \<Longrightarrow>
     ident_level i (push_bit i w) = (31 - k, push_bit (31 - k) w)"
proof (induction "31 - k - i" arbitrary: i)
  case 0
  then have i: "i = 31 - k" by simp
  have "bit (push_bit i w) 31" using 0 i by (simp add: bit_simps)
  then have "push_bit i w AND 0x80000000 \<noteq> 0" by (simp only: high_bit)
  then show ?case using i by (subst ident_level.simps) simp
next
  case (Suc n)
  have i: "i < 31 - k" using Suc.hyps(2) by simp
  have "\<not> bit (push_bit i w) 31" using Suc.prems(3) [of "31 - i"] i by (auto simp: bit_simps)
  then have z: "push_bit i w AND 0x80000000 = 0" using high_bit by blast
  have "ident_level (i + 1) (push_bit (i + 1) w) = (31 - k, push_bit (31 - k) w)"
    using Suc.hyps(1) [of "i + 1"] Suc.hyps(2) Suc.prems i by simp
  then show ?case using i z by (subst ident_level.simps) (simp add: push_bit_push_bit add.commute)
qed

lemma ident_level_path:
  assumes "length p \<le> 31"
  shows "ident_level 0 (path_ident p) = (31 - length p, push_bit (31 - length p) (path_ident p))"
  using ident_level_top [of "length p" "path_ident p" 0] assms by (simp add: bit_path_ident)

section \<open>Hashes that are read\<close>

lemma ReadAICHHash_ok: "gets ReadAICHHash h h" if "length h = HASHSIZE"
  using gets_ReadIO [of h] that by (simp add: ReadAICHHash_def)

lemma read_hash_ok:
  assumes "length h = HASHSIZE" "mem_ok f" "contents f = pre @ h @ rest" "m_position f = length pre"
  shows "read_hash t f = (Inr True, set_hash h t, f\<lparr>m_position := length pre + HASHSIZE\<rparr>)"
  using getsD [OF ReadAICHHash_ok [OF assms(1)] assms(2-4)] assms(1) by (simp add: read_hash_def)

lemma SetHash_at_path:
  assumes "\<And>t. read_hash t f = (Inr True, set_hash h t, f')"
  shows "length p \<le> 31 \<Longrightarrow> (\<And>i. i < length p \<Longrightarrow> bit w (30 - i) = p ! i) \<Longrightarrow> shaped t
    \<Longrightarrow> dim_path p (m_nDataSize t) (m_bIsLeftBranch t) \<Longrightarrow>
    SetHash_at w (length p) True t f = (Inr True, at_path p (set_hash h) t, f')"
proof (induction p arbitrary: w t)
  case Nil
  then show ?case using assms by simp
next
  case (Cons b p)
  have bs: "m_nBaseSize t = base_size (m_nDataSize t)" using Cons.prems(3) by (simp add: shaped_iff [of t])
  have bd: "base_size (m_nDataSize t) < m_nDataSize t" using Cons.prems(4) by simp
  note c = shaped_child [OF Cons.prems(3) bd, of b]
  have top: "push_bit 1 w AND 0x80000000 \<noteq> 0 \<longleftrightarrow> b"
    using Cons.prems(2) [of 0] unfolding high_bit bit_push_bit_iff by simp
  have "bit (push_bit 1 w) (30 - i) = p ! i" if "i < length p" for i
  proof -
    have "30 - i = Suc (30 - Suc i)" using that Cons.prems(1) by simp
    then show ?thesis using Cons.prems(2) [of "Suc i"] that Cons.prems(1) unfolding bit_push_bit_iff by auto
  qed
  then have "SetHash_at (push_bit 1 w) (length p) True (child_of b t) f = (Inr True, at_path p (set_hash h) (child_of b t), f')"
    using Cons.IH [of "push_bit 1 w" "child_of b t"] Cons.prems c by simp
  then show ?case using top bs bd by (cases b) (simp_all add: on_left_def on_right_def)
qed

lemma SetHash_ok:
  assumes "length h = HASHSIZE" "mem_ok f" "contents f = pre @ h @ rest" "m_position f = length pre"
    and "p \<noteq> []" "length p \<le> 31" "shaped t" "dim_path p (m_nDataSize t) (m_bIsLeftBranch t)"
  shows "SetHash (path_ident p) False t f = (Inr True, at_path p (set_hash h) t, f\<lparr>m_position := length pre + HASHSIZE\<rparr>)"
proof -
  note rh = read_hash_ok [OF assms(1-4)]
  obtain b q where p: "p = b # q" using assms(5) by (cases p) auto
  let ?w = "push_bit (31 - length p) (path_ident p)"
  have bits: "bit ?w (30 - i) = p ! i" if "i < length p" for i
  proof -
    have e: "30 - i - (31 - length p) = length p - 1 - i" "31 - length p \<le> 30 - i" "length p - 1 - (length p - 1 - i) = i"
      using that assms(6) by simp_all
    moreover have "length p - 1 - i < length p" "length p - 1 - i \<noteq> length p" "30 - i < 32" using that by auto
    ultimately show ?thesis using that assms(6) unfolding bit_push_bit_iff by (simp only: bit_path_ident) simp
  qed
  have "SetHash_at ?w (length p) False t f = SetHash_at ?w (length p) True t f" using p by simp
  also have "\<dots> = (Inr True, at_path p (set_hash h) t, f\<lparr>m_position := length pre + HASHSIZE\<rparr>)"
    using SetHash_at_path [OF rh assms(6) bits assms(7,8)] .
  finally show ?thesis using assms(6) by (simp add: SetHash_def ident_level_path del: SetHash_at.simps)
qed

text \<open>A sequence of hashes.\<close>

fun put_all :: "(bool list \<times> uint8 list) list \<Rightarrow> CAICHHashTree \<Rightarrow> CAICHHashTree" where
  "put_all [] t = t"
| "put_all ((p, h) # es) t = put_all es (at_path p (set_hash h) t)"

definition ident_bytes :: "bool \<Rightarrow> bool list \<Rightarrow> uint8 list" where
  "ident_bytes b32 p = (if b32 then le_bytes 4 (path_ident p) else le_bytes 2 (ucast (path_ident p) :: uint16))"

definition entry_ok :: "bool \<Rightarrow> nat \<Rightarrow> bool \<Rightarrow> bool list \<times> uint8 list \<Rightarrow> bool" where
  "entry_ok b32 d lb e \<longleftrightarrow> fst e \<noteq> [] \<and> length (fst e) \<le> (if b32 then 21 else 15) \<and> length (snd e) = HASHSIZE \<and> dim_path (fst e) d lb"

definition entry_bytes :: "bool \<Rightarrow> bool list \<times> uint8 list \<Rightarrow> uint8 list" where
  "entry_bytes b32 e = ident_bytes b32 (fst e) @ snd e"

definition read_ident :: "bool \<Rightarrow> uint32 io" where
  "read_ident b32 = (if b32 then ReadUInt32 else io_map ucast ReadUInt16)"

definition ident_fine :: "bool \<Rightarrow> uint32 \<Rightarrow> bool" where
  "ident_fine b32 w = (if b32 then w \<noteq> 1 \<and> w \<le> 0x400000 else w \<noteq> 1)"

lemma gets_ident:
  assumes "length p \<le> (if b32 then 21 else 15)"
  shows "gets (read_ident b32) (ident_bytes b32 p) (path_ident p)"
proof (cases b32)
  case True
  then show ?thesis using u32.get_bytes [OF TrueI, of "path_ident p"] by (simp add: read_ident_def ident_bytes_def)
next
  case False
  have "gets (io_map ucast ReadUInt16) (le_bytes 2 (ucast (path_ident p) :: uint16)) (ucast (ucast (path_ident p) :: uint16) :: uint32)"
    by (intro gets_map u16.get_bytes) simp
  then show ?thesis using False assms path_ident_16 [of p] by (simp add: read_ident_def ident_bytes_def)
qed

lemma put_hash_shaped:
  assumes "shaped t" "dim_path p (m_nDataSize t) (m_bIsLeftBranch t)"
  shows "shaped (at_path p (set_hash h) t)" and "same_dims (at_path p (set_hash h) t) t"
  using shaped_at_path [of "set_hash h" t p] at_path_dims [of "set_hash h" p t] assms by simp_all

lemma read_hashs_ok:
  "\<forall>e \<in> set es. entry_ok b32 (m_nDataSize t) (m_bIsLeftBranch t) e \<Longrightarrow> shaped t \<Longrightarrow> mem_ok f \<Longrightarrow>
   contents f = pre @ concat (map (entry_bytes b32) es) @ rest \<Longrightarrow> m_position f = length pre \<Longrightarrow>
   read_hashs (read_ident b32) (ident_fine b32) (length es) t f =
     (Inr True, put_all es t, f\<lparr>m_position := length pre + length (concat (map (entry_bytes b32) es))\<rparr>)"
proof (induction es arbitrary: t f pre)
  case Nil
  then show ?case by simp
next
  case (Cons e es)
  obtain p h where e: "e = (p, h)" by (cases e)
  have ok: "p \<noteq> []" "length p \<le> (if b32 then 21 else 15)" "length h = HASHSIZE" "dim_path p (m_nDataSize t) (m_bIsLeftBranch t)"
    using Cons.prems(1) e by (simp_all add: entry_ok_def)
  have l31: "length p \<le> 31" using ok(2) by (simp split: if_splits)
  have fine: "ident_fine b32 (path_ident p)" using ok(1,2) l31 path_ident_not_1 [of p] path_ident_le [of p] by (auto simp: ident_fine_def)
  let ?ib = "ident_bytes b32 p" and ?rest = "concat (map (entry_bytes b32) es) @ rest"
  let ?f1 = "f\<lparr>m_position := length pre + length ?ib\<rparr>"
  have eb: "entry_bytes b32 e = ?ib @ h" using e by (simp add: entry_bytes_def)
  have c: "contents f = pre @ ?ib @ (h @ ?rest)" using Cons.prems(4) by (simp add: eb)
  have r1: "read_ident b32 f = (Inr (path_ident p), ?f1)" using getsD [OF gets_ident [OF ok(2)] Cons.prems(3) c Cons.prems(5)] .
  have f1: "mem_ok ?f1" "contents ?f1 = (pre @ ?ib) @ h @ ?rest" "m_position ?f1 = length (pre @ ?ib)"
    using Cons.prems(3) c by (simp_all add: mem_ok_def contents_def)
  let ?f2 = "f\<lparr>m_position := length (pre @ ?ib @ h)\<rparr>"
  have r2: "SetHash (path_ident p) False t ?f1 = (Inr True, at_path p (set_hash h) t, ?f2)"
    using SetHash_ok [OF ok(3) f1 ok(1) l31 Cons.prems(2) ok(4)] ok(3) by (simp add: add.assoc)
  have f2: "mem_ok ?f2" "contents ?f2 = (pre @ ?ib @ h) @ concat (map (entry_bytes b32) es) @ rest" "m_position ?f2 = length (pre @ ?ib @ h)"
    using Cons.prems(3) c by (simp_all add: mem_ok_def contents_def)
  note sh = put_hash_shaped [OF Cons.prems(2) ok(4), of h]
  have "read_hashs (read_ident b32) (ident_fine b32) (length es) (at_path p (set_hash h) t) ?f2 =
     (Inr True, put_all es (at_path p (set_hash h) t), ?f2\<lparr>m_position := length (pre @ ?ib @ h) + length (concat (map (entry_bytes b32) es))\<rparr>)"
    using Cons.IH [OF _ sh(1) f2] Cons.prems(1) sh(2) by (simp add: same_dims_def)
  then show ?case using e r1 r2 fine eb unfolding e by (simp add: add.assoc)
qed

end
