(* ===== verification/AICH_Recovery.thy ===== *)
theory AICH_Recovery
  imports AICH_Paths
begin

text \<open>
  The recovery data of a part: what a file with all hashes writes, and that a download that knows the root hash gets all
  hashes of the part from it. \<open>full\<close> says that a tree is complete, \<open>cut\<close> that it is a part of another one.
\<close>

section \<open>A complete tree and the recovery data of a part\<close>

text \<open>All nodes are there down to the blocks, and every hash is that of its children.\<close>

fun full :: "(uint8 list \<Rightarrow> uint8 list) \<Rightarrow> CAICHHashTree \<Rightarrow> bool" where
  "full sha (HashTree h d b lb v None None) \<longleftrightarrow> d \<le> b \<and> b = base_size d \<and> v \<and> length h = HASHSIZE"
| "full sha (HashTree h d b lb v (Some l) (Some r)) \<longleftrightarrow>
     b < d \<and> b = base_size d \<and> v \<and> length h = HASHSIZE \<and> h = sha (m_Hash l @ m_Hash r) \<and>
     m_nDataSize l = left_size d b lb \<and> m_bIsLeftBranch l \<and> full sha l \<and>
     m_nDataSize r = d - left_size d b lb \<and> \<not> m_bIsLeftBranch r \<and> full sha r"
| "full sha (HashTree h d b lb v (Some l) None) \<longleftrightarrow> False"
| "full sha (HashTree h d b lb v None (Some r)) \<longleftrightarrow> False"

lemma full_simps:
  assumes "full sha t"
  shows "m_bHashValid t" "length (m_Hash t) = HASHSIZE" "m_nBaseSize t = base_size (m_nDataSize t)" "shaped t"
  using assms by (induction sha t rule: full.induct) (auto simp: base_size_def)

lemma full_node:
  assumes "full sha t" and "base_size (m_nDataSize t) < m_nDataSize t"
  shows "\<exists>c. the_child b t = Some c \<and> full sha c \<and> m_nDataSize c = child_dim b (m_nDataSize t) (m_bIsLeftBranch t) \<and> m_bIsLeftBranch c = b"
  using assms by (induction b; cases "(sha, t)" rule: full.cases) (auto simp: child_dim_def)

lemma full_leaf:
  assumes "full sha t" and "m_nDataSize t \<le> base_size (m_nDataSize t)"
  shows "m_pLeftTree t = None" "m_pRightTree t = None"
  using assms by (cases "(sha, t)" rule: full.cases; auto)+

text \<open>The blocks below a node, and the hashes beside the path to it, with their paths from the node where they start.\<close>

fun low_list :: "CAICHHashTree \<Rightarrow> (bool list \<times> uint8 list) list" where
  "low_list (HashTree h d b lb v (Some l) (Some r)) =
     map (apfst (Cons True)) (low_list l) @ map (apfst (Cons False)) (low_list r)"
| "low_list (HashTree h d b lb v None x) = [([], h)]"
| "low_list (HashTree h d b lb v (Some l) None) = [([], h)]"

definition hash_of :: "CAICHHashTree option \<Rightarrow> uint8 list" where
  "hash_of c = (case c of None \<Rightarrow> [] | Some t \<Rightarrow> m_Hash t)"

fun side_list :: "bool list \<Rightarrow> CAICHHashTree \<Rightarrow> (bool list \<times> uint8 list) list" where
  "side_list [] t = low_list t"
| "side_list (b # p) t = ([\<not> b], hash_of (the_child (\<not> b) t)) # map (apfst (Cons b)) (side_list p (the (the_child b t)))"

definition bytes_of :: "bool \<Rightarrow> bool list \<Rightarrow> (bool list \<times> uint8 list) list \<Rightarrow> uint8 list" where
  "bytes_of b32 pre es = concat (map (\<lambda>e. entry_bytes b32 (pre @ fst e, snd e)) es)"

lemma bytes_of_simps [simp]:
  "bytes_of b32 pre [] = []"
  "bytes_of b32 pre (e # es) = entry_bytes b32 (pre @ fst e, snd e) @ bytes_of b32 pre es"
  "bytes_of b32 pre (es @ fs) = bytes_of b32 pre es @ bytes_of b32 pre fs"
  "bytes_of b32 pre (map (apfst (Cons b)) es) = bytes_of b32 (pre @ [b]) es"
  "bytes_of b32 [] es = concat (map (entry_bytes b32) es)"
  by (simp_all add: bytes_of_def comp_def)

section \<open>Writers with a result\<close>

definition puts_result :: "'a io \<Rightarrow> uint8 list \<Rightarrow> 'a \<Rightarrow> bool" where
  "puts_result m bs x \<longleftrightarrow> (\<forall>f. growable f \<and> m_position f \<le> m_fileSize f \<longrightarrow> (\<exists>f'. m f = (Inr x, f') \<and> wrote f bs f'))"

lemma puts_result_return: "puts_result (io_return x) [] x"
  by (simp add: puts_result_def io_return_def wrote_def)

lemma puts_result_bind:
  assumes "puts_result m a x" and "puts_result (k x) b y"
  shows "puts_result (io_bind m k) (a @ b) y"
  unfolding puts_result_def
proof (intro allI impI, elim conjE)
  fix f assume f: "growable f" "m_position f \<le> m_fileSize f"
  obtain f' where f': "m f = (Inr x, f')" "wrote f a f'" using assms(1) f unfolding puts_result_def by blast
  have "growable f'" using f' by (simp add: wrote_def)
  then obtain f'' where "k x f' = (Inr y, f'')" "wrote f' b f''"
    using assms(2) wrote_pos [OF f'(2) f(2,1)] unfolding puts_result_def by blast
  then show "\<exists>f'. io_bind m k f = (Inr y, f') \<and> wrote f (a @ b) f'"
    using f' f wrote_trans [OF f'(2) _ f(2,1)] by (auto simp: io_bind_def)
qed

lemma puts_result_unit: "puts m bs \<Longrightarrow> puts_result m bs ()"
  by (simp add: puts_result_def puts_def)

lemma puts_result_seq: "puts m a \<Longrightarrow> puts_result k b y \<Longrightarrow> puts_result (io_seq m k) (a @ b) y"
  unfolding io_seq_def by (rule puts_result_bind [OF puts_result_unit])

lemma puts_result_and: "puts_result m a True \<Longrightarrow> puts_result k b x \<Longrightarrow> puts_result (io_and m k) (a @ b) x"
  using puts_result_bind [of m a True "\<lambda>x. if x then k else io_return False" b x] by (simp add: io_and_def)

lemma puts_hash: "length h = HASHSIZE \<Longrightarrow> puts (WriteAICHHash h) h"
  by (simp add: WriteAICHHash_def puts_WriteIO)

lemma puts_ident: "puts (if \<not> b32 then WriteUInt16 (ucast (path_ident p)) else WriteUInt32 (path_ident p)) (ident_bytes b32 p)"
  using u16.put_bytes [OF TrueI] u32.put_bytes [OF TrueI] by (simp add: ident_bytes_def)

lemma next_ident_child: "next_ident (path_ident pre) t = path_ident (pre @ [m_bIsLeftBranch t])"
  by (simp add: next_ident_def path_ident_snoc)

section \<open>What is written\<close>

lemma puts_low:
  "full sha t \<Longrightarrow> next_ident w t = path_ident pre \<Longrightarrow>
     puts_result (WriteLowestLevelHashs w False b32 t) (bytes_of b32 pre (low_list t)) True"
proof (induction sha t arbitrary: w pre rule: full.induct)
  case (1 sha h d b lb v)
  have "puts_result (io_seq (if \<not> b32 then WriteUInt16 (ucast (path_ident pre)) else WriteUInt32 (path_ident pre))
      (io_seq (WriteAICHHash h) (io_return True))) (ident_bytes b32 pre @ h @ []) True"
    using 1 by (intro puts_result_seq puts_ident puts_hash puts_result_return) simp
  then show ?case using 1 by (cases b32) (simp_all add: entry_bytes_def)
next
  case (2 sha h d b lb v l r)
  have l: "next_ident (path_ident pre) l = path_ident (pre @ [True])" "next_ident (path_ident pre) r = path_ident (pre @ [False])"
    using 2(3) by (simp_all add: next_ident_child)
  show ?case using 2 puts_result_and [OF "2.IH"(1) [OF _ l(1)] "2.IH"(2) [OF _ l(2)]] by (simp add: Let_def)
qed simp_all

lemma puts_node: "full sha t \<Longrightarrow> puts (WriteNodeHash (path_ident pre) b32 t) (entry_bytes b32 (pre @ [m_bIsLeftBranch t], m_Hash t))"
  unfolding WriteNodeHash_def Let_def entry_bytes_def next_ident_child fst_conv snd_conv
  by (intro puts_seq puts_ident puts_hash) (rule full_simps(2))

lemma puts_side:
  "locates d lb start n p \<Longrightarrow> full sha t \<Longrightarrow> m_nDataSize t = d \<Longrightarrow> m_bIsLeftBranch t = lb \<Longrightarrow> d < 2 ^ 64
    \<Longrightarrow> next_ident w t = path_ident pre \<Longrightarrow>
     puts_result (CreateTreeRecoveryData start n w b32 t) (bytes_of b32 pre (side_list p t)) True"
proof (induction arbitrary: t w pre rule: locates.induct)
  case (here d lb)
  then show ?case using puts_low [OF here.prems(1,5), of b32] by (subst CreateTreeRecoveryData.simps) (simp add: wrap_simps)
next
  case (left d n start lb p)
  have bd: "base_size (m_nDataSize t) < m_nDataSize t" using left by simp
  obtain l where l: "m_pLeftTree t = Some l" "full sha l" "m_nDataSize l = left_size d (base_size d) lb" "m_bIsLeftBranch l"
    using full_node [OF left.prems(1) bd, of True] left.prems by (auto simp: child_dim_def)
  obtain r where r: "m_pRightTree t = Some r" "full sha r" "\<not> m_bIsLeftBranch r"
    using full_node [OF left.prems(1) bd, of False] left.prems by (auto simp: child_dim_def)
  note ft = full_simps [OF left.prems(1)] and fr = full_simps [OF r(2)]
  have L: "nLeft t = left_size d (base_size d) lb" using left.prems ft by (simp add: nLeft_def)
  have Ld: "left_size d (base_size d) lb < d" using left_size_bounds left.hyps(1) by simp
  have u: "u64 (start + n) = start + n" using left.hyps(3) Ld left.prems(4) by (intro u64_small) simp
  have w: "puts (WriteNodeHash (path_ident pre) b32 r) (entry_bytes b32 (pre @ [False], m_Hash r))"
    using puts_node [OF r(2)] r(3) by simp
  have c: "puts_result (CreateTreeRecoveryData start n (path_ident pre) b32 l) (bytes_of b32 (pre @ [True]) (side_list p l)) True"
    using left.IH [OF l(2,3)] l(4) Ld left.prems(4) by (simp add: next_ident_child)
  have "CreateTreeRecoveryData start n w b32 t = io_seq (WriteNodeHash (path_ident pre) b32 r) (CreateTreeRecoveryData start n (path_ident pre) b32 l)"
    using left.hyps left.prems l r ft fr L Ld u by (subst CreateTreeRecoveryData.simps) (simp add: Let_def)
  then show ?case using puts_result_seq [OF w c] l r by (simp add: hash_of_def)
next
  case (right d n start lb p)
  let ?L = "left_size d (base_size d) lb"
  have bd: "base_size (m_nDataSize t) < m_nDataSize t" using right by simp
  obtain l where l: "m_pLeftTree t = Some l" "full sha l" "m_bIsLeftBranch l"
    using full_node [OF right.prems(1) bd, of True] right.prems by (auto simp: child_dim_def)
  obtain r where r: "m_pRightTree t = Some r" "full sha r" "m_nDataSize r = d - ?L" "\<not> m_bIsLeftBranch r"
    using full_node [OF right.prems(1) bd, of False] right.prems by (auto simp: child_dim_def)
  note ft = full_simps [OF right.prems(1)] and fl = full_simps [OF l(2)]
  have L: "nLeft t = ?L" "nRight t = d - ?L" using right.prems ft by (simp_all add: nLeft_def nRight_def)
  have Ld: "?L < d" using left_size_bounds right.hyps(1) by simp
  have u: "u64 (start + n) = start + n" "u64 (?L + start + n) = ?L + start + n" using right.hyps(3) Ld right.prems(4) by (simp_all add: u64_small)
  have sm: "?L + start + n \<le> d" using right.hyps(3) Ld by simp
  have w: "puts (WriteNodeHash (path_ident pre) b32 l) (entry_bytes b32 (pre @ [True], m_Hash l))"
    using puts_node [OF l(2)] l(3) by simp
  have c: "puts_result (CreateTreeRecoveryData start n (path_ident pre) b32 r) (bytes_of b32 (pre @ [False]) (side_list p r)) True"
    using right.IH [OF r(2,3)] r(4) Ld right.prems(4) by (simp add: next_ident_child)
  have "CreateTreeRecoveryData (?L + start) n w b32 t = io_seq (WriteNodeHash (path_ident pre) b32 l) (CreateTreeRecoveryData start n (path_ident pre) b32 r)"
    using right.hyps right.prems l r ft fl L Ld u sm by (subst CreateTreeRecoveryData.simps) (simp add: Let_def)
  then show ?case using puts_result_seq [OF w c] l r by (simp add: hash_of_def)
qed

section \<open>Part of a complete tree\<close>

text \<open>
  \<open>cut R T\<close>: \<open>R\<close> is \<open>T\<close> without the nodes below some of its nodes; all hashes that it has are those of \<open>T\<close>, and it has
  those of its leaves.
\<close>

inductive cut :: "CAICHHashTree \<Rightarrow> CAICHHashTree \<Rightarrow> bool" where
  leaf: "m_Hash T = h \<Longrightarrow> m_nDataSize T = d \<Longrightarrow> m_nBaseSize T = b \<Longrightarrow> m_bIsLeftBranch T = lb \<Longrightarrow> cut (HashTree h d b lb True None None) T"
| node: "cut l l' \<Longrightarrow> cut r r' \<Longrightarrow> (v \<longrightarrow> h = h') \<Longrightarrow>
    cut (HashTree h d b lb v (Some l) (Some r)) (HashTree h' d b lb True (Some l') (Some r'))"

inductive_simps cut_leaf_simps: "cut (HashTree h d b lb v None None) T"
inductive_simps cut_node_simps: "cut (HashTree h d b lb v (Some l) (Some r)) T"
inductive_cases cutE: "cut R T"

lemma cut_same_dims: "cut R T \<Longrightarrow> same_dims R T"
  by (induction rule: cut.induct) (simp_all add: same_dims_def)

lemma cut_hash: "cut R T \<Longrightarrow> m_bHashValid R \<Longrightarrow> m_Hash R = m_Hash T"
  by (induction rule: cut.induct) simp_all

lemma cut_set_hash: "cut R T \<Longrightarrow> full sha T \<Longrightarrow> cut (set_hash (m_Hash T) R) T"
  by (cases rule: cut.cases) (auto simp: set_hash_def intro: cut.intros)

lemma cut_child: "cut R T \<Longrightarrow> the_child b R = Some x \<Longrightarrow> \<exists>y. the_child b T = Some y \<and> cut x y"
  by (cases rule: cut.cases, assumption) (auto simp: the_child_def)

lemma cut_node_at: "cut R T \<Longrightarrow> node_at p R = Some c \<Longrightarrow> \<exists>c'. node_at p T = Some c' \<and> cut c c'"
proof (induction p arbitrary: R T)
  case (Cons b p)
  obtain x where x: "the_child b R = Some x" "node_at p x = Some c" using Cons.prems(2) by (auto split: option.splits)
  obtain y where y: "the_child b T = Some y" "cut x y" using cut_child [OF Cons.prems(1) x(1)] by blast
  show ?case using Cons.IH [OF y(2) x(2)] y(1) by simp
qed simp

fun skel :: "CAICHHashTree \<Rightarrow> CAICHHashTree" where
  "skel (HashTree h d b lb v lo ro) = HashTree [] d b lb False (map_option skel lo) (map_option skel ro)"

lemma skel_children: "m_pLeftTree (skel t) = map_option skel (m_pLeftTree t)" "m_pRightTree (skel t) = map_option skel (m_pRightTree t)"
  by (cases t; simp)+

lemma skel_exists: "skel s = skel t \<Longrightarrow> node_at p s = None \<longleftrightarrow> node_at p t = None"
proof (induction p arbitrary: s t)
  case (Cons b p)
  have e: "map_option skel (the_child b s) = map_option skel (the_child b t)"
    unfolding the_child_def using skel_children [of s] skel_children [of t] Cons.prems by (cases b) metis+
  show ?case
  proof (cases "the_child b s")
    case None
    then show ?thesis using e by simp
  next
    case (Some x)
    then obtain y where y: "the_child b t = Some y" "skel y = skel x" using e by (cases "the_child b t") auto
    show ?thesis using Some y(1) Cons.IH [OF y(2) [symmetric]] by simp
  qed
qed simp

lemma skel_ReCalculateHash: "skel (snd (ReCalculateHash sha dr t)) = skel t"
  by (induction sha dr t rule: ReCalculateHash.induct) (auto simp: Let_def split: prod.splits)

lemma cut_recalc:
  "cut R T \<Longrightarrow> full sha T \<Longrightarrow> \<exists>R'. ReCalculateHash sha True R = (True, R') \<and> cut R' T \<and> m_bHashValid R' \<and> skel R' = skel R"
proof (induction rule: cut.induct)
  case (leaf T h d b lb)
  then show ?case by (auto intro: cut.leaf)
next
  case (node l l' r r' v h h' d b lb)
  obtain l1 where l1: "ReCalculateHash sha True l = (True, l1)" "cut l1 l'" "m_bHashValid l1" "skel l1 = skel l" using node by auto
  obtain r1 where r1: "ReCalculateHash sha True r = (True, r1)" "cut r1 r'" "m_bHashValid r1" "skel r1 = skel r" using node by auto
  have h: "h' = sha (m_Hash l1 @ m_Hash r1)" using node.prems cut_hash [OF l1(2,3)] cut_hash [OF r1(2,3)] by simp
  have "cut (HashTree h' d b lb True (Some l1) (Some r1)) (HashTree h' d b lb True (Some l') (Some r'))"
    using l1(2) r1(2) by (rule cut.node) simp
  then show ?case using l1 r1 h node.hyps(3) by (cases v) (auto simp: Let_def)
qed

lemma cut_complete:
  assumes "cut R T" "full sha T"
  shows "\<exists>R'. complete_child sha (Some R) = Some R' \<and> cut R' T \<and> m_bHashValid R' \<and> skel R' = skel R"
  using cut_recalc [OF assms] assms(1) by (cases "m_bHashValid R") (auto simp: complete_child_def)

text \<open>Such a tree passes the check.\<close>

lemma cut_verify:
  "full sha T \<Longrightarrow> cut R T \<Longrightarrow> m_bHashValid R \<Longrightarrow>
     \<exists>R'. VerifyHashTree sha del R = (True, R') \<and> cut R' T \<and> m_bHashValid R' \<and> skel R' = skel R"
proof (induction sha T arbitrary: R rule: full.induct)
  case (1 sha h d b lb v)
  from 1(2,3) have "m_pLeftTree R = None" "m_pRightTree R = None" by (auto elim: cutE)
  moreover from this have "set_left None (set_right None R) = R" by (intro hash_tree_eqI) simp_all
  ultimately show ?case using 1 by (subst VerifyHashTree.simps) (simp add: complete_child_def valid_child_def Let_def)
next
  case (2 sha h d b lb v l' r')
  from 2(4) show ?case
  proof (cases rule: cut.cases)
    case (leaf h d b lb)
    then show ?thesis using 2 by (subst VerifyHashTree.simps) (auto simp: complete_child_def valid_child_def Let_def set_left_def set_right_def)
  next
    case (node l r v1 h1)
    obtain l1 where l1: "complete_child sha (Some l) = Some l1" "cut l1 l'" "m_bHashValid l1" "skel l1 = skel l"
      using cut_complete [of l l' sha] node "2.prems"(1) by auto
    obtain r1 where r1: "complete_child sha (Some r) = Some r1" "cut r1 r'" "m_bHashValid r1" "skel r1 = skel r"
      using cut_complete [of r r' sha] node "2.prems"(1) by auto
    have f: "full sha l'" "full sha r'" "h = sha (m_Hash l' @ m_Hash r')" using "2.prems"(1) by simp_all
    have h: "h1 = h" "v1" using node "2.prems"(3) by simp_all
    obtain l2 where l2: "VerifyHashTree sha del l1 = (True, l2)" "cut l2 l'" "skel l2 = skel l1"
      using "2.IH"(1) [OF f(1) l1(2,3)] by blast
    obtain r2 where r2: "VerifyHashTree sha del r1 = (True, r2)" "cut r2 r'" "skel r2 = skel r1"
      using "2.IH"(2) [OF f(2) r1(2,3)] by blast
    have e: "h = sha (m_Hash l1 @ m_Hash r1)" using f(3) cut_hash [OF l1(2,3)] cut_hash [OF r1(2,3)] by simp
    have R: "R = HashTree h d b lb True (Some l) (Some r)" using node h by simp
    have "VerifyHashTree sha del R = (True, HashTree h d b lb True (Some l2) (Some r2))"
      unfolding R using l1(1,3) r1(1,3) l2(1) r2(1) e [symmetric]
      by (subst VerifyHashTree.simps) (simp add: valid_child_def Let_def set_left_def set_right_def)
    moreover have "cut (HashTree h d b lb True (Some l2) (Some r2)) (HashTree h d b lb v (Some l') (Some r'))"
      using node(2) l2(2) r2(2) by (auto intro: cut.node)
    ultimately show ?thesis unfolding R using l1(4) r1(4) l2(3) r2(3) by simp
  qed
qed simp_all

section \<open>Putting hashes into a tree\<close>

inductive loose :: "CAICHHashTree \<Rightarrow> CAICHHashTree \<Rightarrow> bool" where
  "same_dims R T \<Longrightarrow> (m_bHashValid R \<longrightarrow> m_Hash R = m_Hash T) \<Longrightarrow>
    (\<forall>b c. the_child b R = Some c \<longrightarrow> (\<exists>c'. the_child b T = Some c' \<and> loose c c')) \<Longrightarrow> loose R T"

inductive_simps loose_iff: "loose R T"

lemma looseD: "loose R T \<Longrightarrow> same_dims R T" "loose R T \<Longrightarrow> m_bHashValid R \<longrightarrow> m_Hash R = m_Hash T"
  "loose R T \<Longrightarrow> the_child b R = Some c \<Longrightarrow> \<exists>c'. the_child b T = Some c' \<and> loose c c'"
  by (cases rule: loose.cases, assumption, blast)+

lemma cut_loose: "cut R T \<Longrightarrow> loose R T"
proof (induction rule: cut.induct)
  case (leaf T h d b lb)
  then show ?case by (subst loose_iff) (simp add: same_dims_def the_child_def)
next
  case (node l l' r r' v h h' d b lb)
  then show ?case by (subst loose_iff) (simp add: same_dims_def the_child_def)
qed

lemma loose_new: "m_nDataSize T = d \<Longrightarrow> m_bIsLeftBranch T = lb \<Longrightarrow> m_nBaseSize T = b \<Longrightarrow> loose (new_hash_tree d lb b) T"
  by (subst loose_iff) (simp add: same_dims_def the_child_def)

lemma new_child:
  assumes "full sha T" "same_dims R T" "the_child b R = None" "the_child b T = Some c"
  shows "child_of b R = new_hash_tree (m_nDataSize c) b (m_nBaseSize c)" "m_bIsLeftBranch c = b"
proof -
  have bd: "base_size (m_nDataSize T) < m_nDataSize T"
    using assms(1,4) by (cases "(sha, T)" rule: full.cases) (auto simp: the_child_def split: if_splits)
  obtain c1 where "the_child b T = Some c1" "full sha c1" "m_nDataSize c1 = child_dim b (m_nDataSize T) (m_bIsLeftBranch T)" "m_bIsLeftBranch c1 = b"
    using full_node [OF assms(1) bd] by blast
  then have c: "full sha c" "m_nDataSize c = child_dim b (m_nDataSize T) (m_bIsLeftBranch T)" "m_bIsLeftBranch c = b" using assms(4) by auto
  have d: "(if b then nLeft R else nRight R) = m_nDataSize c"
    using c(2) assms(2) full_simps(3) [OF assms(1)] by (simp add: nLeft_def nRight_def child_dim_def same_dims_def)
  show "child_of b R = new_hash_tree (m_nDataSize c) b (m_nBaseSize c)"
    unfolding child_of_cases assms(3) option.case d full_simps(3) [OF c(1)] ..
  show "m_bIsLeftBranch c = b" by (rule c(3))
qed

lemma loose_child:
  assumes "full sha T" "loose R T" "the_child b T = Some c"
  shows "loose (child_of b R) c"
proof (cases "the_child b R")
  case None
  have "same_dims R T" by (rule looseD(1) [OF assms(2)])
  from new_child [OF assms(1) this None assms(3)] show ?thesis by (simp add: loose_new)
next
  case (Some x)
  then show ?thesis using looseD(3) [OF assms(2) Some] assms(3) by (auto simp: child_of_cases)
qed

lemma child_of_set_child [simp]: "child_of b (set_child b (Some c) t) = c" "b \<noteq> a \<Longrightarrow> child_of b (set_child a d t) = child_of b t"
  by (simp_all add: child_of_cases nLeft_def nRight_def split: option.splits)

lemma put_all_child: "es \<noteq> [] \<Longrightarrow> put_all (map (apfst (Cons b)) es) t = set_child b (Some (put_all es (child_of b t))) t"
proof (induction es arbitrary: t)
  case (Cons e es)
  obtain p h where "e = (p, h)" by (cases e)
  then show ?case using Cons.IH [of "set_child b (Some (at_path p (set_hash h) (child_of b t))) t"] by (cases "es = []") simp_all
qed simp

lemma put_all_append [simp]: "put_all (es @ fs) t = put_all fs (put_all es t)"
  by (induction es arbitrary: t) auto

lemma low_list_not_Nil [simp]: "low_list t \<noteq> []"
  by (induction t rule: low_list.induct) simp_all

lemma set_both: "set_child (\<not> b) (Some r) (set_child b (Some l) t) = (if b then set_left (Some l) (set_right (Some r) t) else set_left (Some r) (set_right (Some l) t))"
  by (cases b) (auto intro: hash_tree_eqI)

lemma cut_both:
  assumes "full sha T" "same_dims R T" "m_bHashValid R \<longrightarrow> m_Hash R = m_Hash T" "the_child b T = Some c" "the_child (\<not> b) T = Some c'"
    and "cut l c" "cut r c'"
  shows "cut (set_child (\<not> b) (Some r) (set_child b (Some l) R)) T"
  using assms by (cases b; cases R; cases T) (auto simp: same_dims_def set_left_def set_right_def dest: full_simps(1) intro!: cut.node)

lemma cut_low: "full sha T \<Longrightarrow> loose R T \<Longrightarrow> cut (put_all (low_list T) R) T"
proof (induction sha T arbitrary: R rule: full.induct)
  case (1 sha h d b lb v)
  have "m_pLeftTree R = None" using looseD(3) [OF 1(2), of True] by (cases "m_pLeftTree R") auto
  moreover have "m_pRightTree R = None" using looseD(3) [OF 1(2), of False] by (cases "m_pRightTree R") auto
  moreover note looseD(1) [OF 1(2)]
  ultimately show ?case by (cases R) (auto simp: set_hash_def same_dims_def intro: cut.leaf)
next
  case (2 sha h d b lb v l r)
  let ?T = "HashTree h d b lb v (Some l) (Some r)"
  have l: "cut (put_all (low_list l) (child_of True R)) l" using 2 loose_child [OF "2.prems", of True] by simp
  have r: "cut (put_all (low_list r) (child_of False R)) r" using 2 loose_child [OF "2.prems", of False] by simp
  have "put_all (low_list ?T) R = set_child False (Some (put_all (low_list r) (child_of False R)))
      (set_child True (Some (put_all (low_list l) (child_of True R))) R)"
    using put_all_child [OF low_list_not_Nil, of True l R] put_all_child [OF low_list_not_Nil, of False r "put_all (map (apfst (Cons True)) (low_list l)) R"]
      child_of_set_child(2) [of False True "Some (put_all (low_list l) (child_of True R))" R]
    by simp
  moreover have "cut (set_child (\<not> True) (Some (put_all (low_list r) (child_of False R))) (set_child True (Some (put_all (low_list l) (child_of True R))) R)) ?T"
    using "2.prems"(2) l r by (intro cut_both [OF "2.prems"(1) looseD(1,2)]) simp_all
  ultimately show ?case by simp
qed simp_all

text \<open>A part of the tree in which only the way to a part may be incomplete.\<close>

fun opened :: "bool list \<Rightarrow> CAICHHashTree \<Rightarrow> CAICHHashTree \<Rightarrow> bool" where
  "opened [] R T \<longleftrightarrow> loose R T"
| "opened (b # p) R T \<longleftrightarrow> same_dims R T \<and> (m_bHashValid R \<longrightarrow> m_Hash R = m_Hash T) \<and>
     (\<exists>c. the_child b T = Some c \<and> opened p (child_of b R) c) \<and>
     (\<forall>x. the_child (\<not> b) R = Some x \<longrightarrow> (\<exists>c. the_child (\<not> b) T = Some c \<and> cut x c))"

lemma opened_new:
  "full sha T \<Longrightarrow> m_nDataSize T = d \<Longrightarrow> m_bIsLeftBranch T = lb \<Longrightarrow> dim_path p d lb \<Longrightarrow> opened p (new_hash_tree d lb (base_size d)) T"
proof (induction p arbitrary: T d lb)
  case Nil
  then show ?case using full_simps(3) by (simp add: loose_new)
next
  case (Cons b p)
  let ?R = "new_hash_tree d lb (base_size d)"
  have sd: "same_dims ?R T" using Cons.prems full_simps(3) by (simp add: same_dims_def)
  obtain c where c: "the_child b T = Some c" "full sha c" "m_nDataSize c = child_dim b d lb" "m_bIsLeftBranch c = b"
    using full_node [OF Cons.prems(1)] Cons.prems by auto
  have "child_of b ?R = new_hash_tree (child_dim b d lb) b (base_size (child_dim b d lb))"
    using new_child [OF Cons.prems(1) sd _ c(1)] c full_simps(3) by (simp add: the_child_def)
  then show ?case using sd c Cons.IH [OF c(2-4)] Cons.prems(4) by (simp add: the_child_def)
qed

lemma cut_opened: "full sha T \<Longrightarrow> cut R T \<Longrightarrow> dim_path p (m_nDataSize T) (m_bIsLeftBranch T) \<Longrightarrow> opened p R T"
proof (induction p arbitrary: R T)
  case Nil
  then show ?case by (simp add: cut_loose)
next
  case (Cons b p)
  have sd: "same_dims R T" by (rule cut_same_dims [OF Cons.prems(2)])
  obtain c where c: "the_child b T = Some c" "full sha c" "m_nDataSize c = child_dim b (m_nDataSize T) (m_bIsLeftBranch T)" "m_bIsLeftBranch c = b"
    using full_node [OF Cons.prems(1)] Cons.prems(3) by auto
  have ch: "\<exists>y. the_child a T = Some y \<and> cut x y" if "the_child a R = Some x" for a x
    using cut_node_at [OF Cons.prems(2), of "[a]" x] that by (auto split: option.splits)
  have "opened p (child_of b R) c"
  proof (cases "the_child b R")
    case None
    from new_child [OF Cons.prems(1) sd None c(1)] show ?thesis
      using opened_new [OF c(2) refl refl, of p] Cons.prems(3) c full_simps(3) [OF c(2)] by simp
  next
    case (Some x)
    then have "cut x c" using ch [of b x] c(1) by simp
    then show ?thesis using Some Cons.IH [OF c(2)] c Cons.prems(3) by (simp add: child_of_cases)
  qed
  then show ?case using sd c(1) ch cut_hash [OF Cons.prems(2)] by auto
qed

lemma opened_dims: "opened p R T \<Longrightarrow> same_dims R T"
  by (cases p) (auto dest: looseD(1))

lemma full_child:
  assumes "full sha T" "the_child b T = Some c"
  shows "full sha c"
proof -
  have "base_size (m_nDataSize T) < m_nDataSize T"
    using assms by (cases "(sha, T)" rule: full.cases) (auto simp: the_child_def split: if_splits)
  from full_node [OF assms(1) this, of b] assms(2) show ?thesis by auto
qed

text \<open>A search inside the part, which creates what is missing, leaves such a tree such a tree.\<close>

lemma loose_at_path: "full sha T \<Longrightarrow> loose R T \<Longrightarrow> node_at q T \<noteq> None \<Longrightarrow> loose (at_path q (\<lambda>s. s) R) T"
proof (induction q arbitrary: R T)
  case (Cons b q)
  obtain c where c: "the_child b T = Some c" "node_at q c \<noteq> None" using Cons.prems(3) by (auto simp: node_at_Cons split: option.splits)
  have l: "loose (at_path q (\<lambda>s. s) (child_of b R)) c"
    by (rule Cons.IH [OF full_child [OF Cons.prems(1) c(1)] loose_child [OF Cons.prems(1,2) c(1)] c(2)])
  show ?case
  proof (subst loose_iff, intro conjI allI impI)
    show "same_dims (at_path (b # q) (\<lambda>s. s) R) T" using looseD(1) [OF Cons.prems(2)] by (simp add: same_dims_def)
    show "m_Hash (at_path (b # q) (\<lambda>s. s) R) = m_Hash T" if "m_bHashValid (at_path (b # q) (\<lambda>s. s) R)"
      using looseD(2) [OF Cons.prems(2)] that by simp
    show "\<exists>c'. the_child a T = Some c' \<and> loose x c'" if "the_child a (at_path (b # q) (\<lambda>s. s) R) = Some x" for a x
      using that l c(1) looseD(3) [OF Cons.prems(2), of a x] by (cases "a = b") auto
  qed
qed simp

lemma opened_below: "full sha T \<Longrightarrow> opened p R T \<Longrightarrow> node_at (p @ q) T \<noteq> None \<Longrightarrow> opened p (at_path (p @ q) (\<lambda>s. s) R) T"
proof (induction p arbitrary: R T)
  case Nil
  then show ?case by (simp add: loose_at_path)
next
  case (Cons b p)
  obtain c where c: "the_child b T = Some c" "opened p (child_of b R) c" using Cons.prems(2) by auto
  have "node_at (p @ q) c \<noteq> None" using Cons.prems(3) c(1) by (simp add: node_at_Cons)
  then have "opened p (at_path (p @ q) (\<lambda>s. s) (child_of b R)) c" by (rule Cons.IH [OF full_child [OF Cons.prems(1) c(1)] c(2)])
  then show ?case using Cons.prems(2) c(1) by (auto simp: same_dims_def)
qed

lemma opened_at_path: "opened p R T \<Longrightarrow> opened p (at_path p (\<lambda>s. s) R) T"
proof (induction p arbitrary: R T)
  case (Cons b p)
  then show ?case by (auto simp: same_dims_def)
qed simp

lemma cut_side: "full sha T \<Longrightarrow> opened p R T \<Longrightarrow> cut (put_all (side_list p T) R) T"
proof (induction p arbitrary: R T)
  case Nil
  then show ?case using cut_low by simp
next
  case (Cons b p)
  obtain c where c: "the_child b T = Some c" "opened p (child_of b R) c" using Cons.prems(2) by auto
  have sd: "same_dims R T" and hv: "m_bHashValid R \<longrightarrow> m_Hash R = m_Hash T" using Cons.prems(2) by simp_all
  have bd: "base_size (m_nDataSize T) < m_nDataSize T"
    using Cons.prems(1) c(1) by (cases "(sha, T)" rule: full.cases) (auto simp: the_child_def split: if_splits)
  have fc: "full sha c" using full_node [OF Cons.prems(1) bd, of b] c(1) by auto
  obtain s where s: "the_child (\<not> b) T = Some s" "full sha s" "m_bIsLeftBranch s = (\<not> b)"
    using full_node [OF Cons.prems(1) bd, of "\<not> b"] by auto
  have sc: "cut (set_hash (m_Hash s) (child_of (\<not> b) R)) s"
  proof (cases "the_child (\<not> b) R")
    case None
    from new_child [OF Cons.prems(1) sd None s(1)] show ?thesis by (simp add: set_hash_def new_hash_tree_def) (rule cut.leaf, simp_all)
  next
    case (Some x)
    then have "cut x s" using Cons.prems(2) s(1) by auto
    then show ?thesis using cut_set_hash [OF _ s(2)] Some by (simp add: child_of_cases)
  qed
  have ne: "side_list p c \<noteq> []" by (cases p) simp_all
  let ?l = "put_all (side_list p c) (child_of b R)" and ?r = "set_hash (m_Hash s) (child_of (\<not> b) R)"
  have l: "cut ?l c" by (rule Cons.IH [OF fc c(2)])
  have "put_all (side_list (b # p) T) R = set_child b (Some ?l) (set_child (\<not> b) (Some ?r) R)"
    using c(1) s(1) ne put_all_child [OF ne, of b "set_child (\<not> b) (Some ?r) R"] by (simp add: hash_of_def)
  moreover have "cut (set_child (\<not> \<not> b) (Some ?l) (set_child (\<not> b) (Some ?r) R)) T"
    by (rule cut_both [OF Cons.prems(1) sd hv s(1) _ sc l]) (simp add: c(1))
  ultimately show ?case by simp
qed

section \<open>The nodes of a part\<close>

lemma full_node_at:
  "full sha T \<Longrightarrow> locates d lb start n p \<Longrightarrow> m_nDataSize T = d \<Longrightarrow> m_bIsLeftBranch T = lb \<Longrightarrow>
     \<exists>c. node_at p T = Some c \<and> full sha c \<and> m_nDataSize c = n \<and> m_bIsLeftBranch c = (if p = [] then lb else last p)"
proof (induction p arbitrary: T d lb start)
  case Nil
  then show ?case by (auto elim: locates.cases)
next
  case (Cons b p)
  have bd: "base_size d < d" using locates_dim_path [OF Cons.prems(2)] by simp
  obtain c where c: "the_child b T = Some c" "full sha c" "m_nDataSize c = child_dim b d lb" "m_bIsLeftBranch c = b"
    using full_node [OF Cons.prems(1)] bd Cons.prems(3,4) by auto
  obtain s where "locates (child_dim b d lb) b s n p"
    using Cons.prems(2) by (auto simp: child_dim_def elim: locates.cases)
  from Cons.IH [OF c(2) this c(3,4)] show ?case using c(1) by (cases "p = []") simp_all
qed

lemma low_list_ok:
  "full sha t \<Longrightarrow> e \<in> set (low_list t) \<Longrightarrow>
     length (snd e) = HASHSIZE \<and> dim_path (fst e) (m_nDataSize t) (m_bIsLeftBranch t) \<and>
     (base_size (m_nDataSize t) < m_nDataSize t \<longrightarrow> fst e \<noteq> [])"
  by (induction sha t arbitrary: e rule: full.induct) (auto simp: child_dim_def)

text \<open>Within a part there is one hash for each block, and the paths to them are short.\<close>

lemma low_list_size:
  "full sha t \<Longrightarrow> 0 < m_nDataSize t \<Longrightarrow> m_nDataSize t \<le> PARTSIZE \<Longrightarrow> length (low_list t) = nBlocks (m_nDataSize t) EMBLOCKSIZE \<and>
     (\<forall>m. nBlocks (m_nDataSize t) EMBLOCKSIZE \<le> 2 ^ m \<longrightarrow> (\<forall>e \<in> set (low_list t). length (fst e) \<le> m))"
proof (induction sha t rule: full.induct)
  case (1 sha h d b lb v)
  then have "0 < d" "d \<le> EMBLOCKSIZE" by (simp_all add: base_size_def)
  then have "nBlocks d EMBLOCKSIZE = 1"
    by (cases "d = EMBLOCKSIZE") (simp_all add: nBlocks_def)
  then show ?case by simp
next
  case (2 sha h d b lb v l r)
  have b: "b = EMBLOCKSIZE" "EMBLOCKSIZE < d" using "2.prems" by (simp_all add: base_size_def split: if_splits)
  let ?L = "left_size d EMBLOCKSIZE lb"
  have L: "0 < ?L" "?L < d" using left_size_bounds [OF _ b(2)] by simp_all
  have ls: "m_nDataSize l = ?L" "m_nDataSize r = d - ?L" using "2.prems"(1) b by simp_all
  have ihl: "length (low_list l) = nBlocks ?L EMBLOCKSIZE" "\<And>m. nBlocks ?L EMBLOCKSIZE \<le> 2 ^ m \<Longrightarrow> \<forall>e \<in> set (low_list l). length (fst e) \<le> m"
    using "2.IH"(1) "2.prems" L ls by auto
  have ihr: "length (low_list r) = nBlocks (d - ?L) EMBLOCKSIZE" "\<And>m. nBlocks (d - ?L) EMBLOCKSIZE \<le> 2 ^ m \<Longrightarrow> \<forall>e \<in> set (low_list r). length (fst e) \<le> m"
    using "2.IH"(2) "2.prems" L ls by auto
  have n: "2 \<le> nBlocks d EMBLOCKSIZE" "nBlocks ?L EMBLOCKSIZE + nBlocks (d - ?L) EMBLOCKSIZE = nBlocks d EMBLOCKSIZE"
    using nBlocks_bounds(1) [OF _ b(2)] nBlocks_halves(1) [OF _ b(2)] by simp_all
  have "\<forall>e \<in> set (low_list (HashTree h d b lb v (Some l) (Some r))). length (fst e) \<le> m" if m: "nBlocks d EMBLOCKSIZE \<le> 2 ^ m" for m
  proof (cases m)
    case 0
    then show ?thesis using m n(1) by simp
  next
    case (Suc k)
    then have "nBlocks ?L EMBLOCKSIZE \<le> 2 ^ k" "nBlocks (d - ?L) EMBLOCKSIZE \<le> 2 ^ k"
      using nBlocks_halves(2) [OF _ b(2), of "2 ^ k" lb] m by simp_all
    then show ?thesis using ihl(2) [of k] ihr(2) [of k] Suc by auto
  qed
  then show ?case using ihl(1) ihr(1) n(2) by simp
qed simp_all

lemma side_list_ok:
  "full sha T \<Longrightarrow> locates d lb start n p \<Longrightarrow> m_nDataSize T = d \<Longrightarrow> m_bIsLeftBranch T = lb \<Longrightarrow> node_at p T = Some c \<Longrightarrow>
     length (side_list p T) = length p + length (low_list c) \<and>
     (\<forall>e \<in> set (side_list p T). length (snd e) = HASHSIZE \<and> dim_path (fst e) d lb \<and>
        (base_size n < n \<or> p \<noteq> [] \<longrightarrow> fst e \<noteq> []) \<and>
        (length (fst e) \<le> length p \<or> (\<exists>q \<in> set (low_list c). length (fst e) = length p + length (fst q))))"
proof (induction p arbitrary: T d lb start)
  case Nil
  then have "n = d" by (auto elim: locates.cases)
  then show ?case using low_list_ok [OF Nil.prems(1)] Nil.prems by auto
next
  case (Cons b p)
  have bd: "base_size d < d" using locates_dim_path [OF Cons.prems(2)] by simp
  obtain x where x: "the_child b T = Some x" "full sha x" "m_nDataSize x = child_dim b d lb" "m_bIsLeftBranch x = b"
    using full_node [OF Cons.prems(1)] bd Cons.prems(3,4) by auto
  obtain y where y: "the_child (\<not> b) T = Some y" "full sha y"
    using full_node [OF Cons.prems(1), of "\<not> b"] bd Cons.prems(3,4) by auto
  obtain s where s: "locates (child_dim b d lb) b s n p"
    using Cons.prems(2) by (auto simp: child_dim_def elim: locates.cases)
  have c: "node_at p x = Some c" using Cons.prems(5) x(1) by simp
  note ih = Cons.IH [OF x(2) s x(3,4) c]
  have h: "length (hash_of (the_child (\<not> b) T)) = HASHSIZE" using y full_simps(2) by (simp add: hash_of_def)
  show ?case using ih h x(1) bd by (auto simp: child_dim_def)
qed

lemma low_list_mem: "full sha c \<Longrightarrow> node_at q c = Some x \<Longrightarrow> m_nDataSize x \<le> base_size (m_nDataSize x) \<Longrightarrow> (q, m_Hash x) \<in> set (low_list c)"
proof (induction sha c arbitrary: q rule: full.induct)
  case (1 sha h d b lb v)
  then show ?case by (cases q) (auto simp: the_child_def split: if_splits)
next
  case (2 sha h d b lb v l r)
  show ?case
  proof (cases q)
    case Nil
    then have "x = HashTree h d b lb v (Some l) (Some r)" using "2.prems"(2) by simp
    then show ?thesis using "2.prems"(1,3) by simp
  next
    case (Cons a q')
    then have "node_at q' (if a then l else r) = Some x" using "2.prems"(2) by (simp add: the_child_def split: if_splits)
    then show ?thesis using Cons "2.IH" "2.prems"(1,3) by (cases a) (force simp: image_iff)+
  qed
qed simp_all

lemma side_list_mem: "node_at p T = Some c \<Longrightarrow> (q, h) \<in> set (low_list c) \<Longrightarrow> (p @ q, h) \<in> set (side_list p T)"
proof (induction p arbitrary: T)
  case (Cons b p)
  obtain x where x: "the_child b T = Some x" "node_at p x = Some c" using Cons.prems(1) by (auto split: option.splits)
  then show ?case using Cons.IH [OF x(2) Cons.prems(2)] by (force simp: image_iff)
qed simp

section \<open>The nodes that are put\<close>

lemma the_child_set_hash [simp]: "the_child b (set_hash h t) = the_child b t"
  by (simp add: the_child_def)

lemma at_path_keeps: "node_at q t \<noteq> None \<Longrightarrow> node_at q (at_path p (set_hash h) t) \<noteq> None"
proof (induction q arbitrary: p t)
  case (Cons a q)
  obtain x where x: "the_child a t = Some x" "node_at q x \<noteq> None" using Cons.prems by (auto split: option.splits)
  show ?case
  proof (cases p)
    case Nil
    then show ?thesis using x by simp
  next
    case P: (Cons b p')
    show ?thesis
    proof (cases "a = b")
      case True
      then show ?thesis using P x Cons.IH [OF x(2)] by (simp add: child_of_cases)
    next
      case False
      then show ?thesis using P x by simp
    qed
  qed
qed simp

lemma put_all_keeps: "node_at q t \<noteq> None \<Longrightarrow> node_at q (put_all es t) \<noteq> None"
proof (induction es arbitrary: t)
  case (Cons e es)
  obtain p h where e: "e = (p, h)" by (cases e)
  show ?case using Cons.IH [OF at_path_keeps [OF Cons.prems]] unfolding e by simp
qed simp

lemma put_all_exists: "(q, h) \<in> set es \<Longrightarrow> node_at q (put_all es t) \<noteq> None"
proof (induction es arbitrary: t)
  case (Cons e es)
  obtain p g where e: "e = (p, g)" by (cases e)
  show ?case
  proof (cases "(q, h) \<in> set es")
    case True
    then show ?thesis using Cons.IH unfolding e by simp
  next
    case False
    then have "p = q" using Cons.prems e by simp
    then show ?thesis using put_all_keeps [of q "at_path q (set_hash g) t" es] unfolding e by simp
  qed
qed simp

lemma put_all_root: "\<forall>e \<in> set es. fst e \<noteq> [] \<Longrightarrow> m_bHashValid (put_all es t) = m_bHashValid t \<and> m_Hash (put_all es t) = m_Hash t"
proof (induction es arbitrary: t)
  case (Cons e es)
  obtain b p h where e: "e = (b # p, h)" using Cons.prems by (cases e; cases "fst e") auto
  show ?case using Cons.IH [of "at_path (b # p) (set_hash h) t"] Cons.prems unfolding e by simp
qed simp

lemma cut_shaped: "cut R T \<Longrightarrow> full sha T \<Longrightarrow> shaped R"
proof (induction rule: cut.induct)
  case (leaf T h d b lb)
  then show ?case using full_simps(3) [OF leaf.prems] by (simp add: shaped_iff [of "HashTree _ _ _ _ _ _ _"] the_child_def)
next
  case (node l l' r r' v h h' d b lb)
  then show ?case using cut_same_dims [OF node.hyps(1)] cut_same_dims [OF node.hyps(2)] by (simp add: same_dims_def)
qed

section \<open>Recovery of a part\<close>

text \<open>The hash that the tree has for a block.\<close>

definition block_hash :: "CAICHHashTree \<Rightarrow> nat \<Rightarrow> nat \<Rightarrow> uint8 list option" where
  "block_hash t pos n =
     (case FindHash pos n 0 t of
        (None, lv, t) \<Rightarrow> None
      | (Some p, lv, t) \<Rightarrow> if valid_child (node_at p t) then Some (hash_of (node_at p t)) else None)"

lemma part_path:
  assumes "N \<le> MAX_FILE_SIZE" and "PARTSIZE dvd start" and "start < N"
  shows "\<exists>p. locates N True start (min PARTSIZE (N - start)) p \<and> length p \<le> (if OLD_MAX_FILE_SIZE < N then 15 else 9)"
proof -
  let ?m = "if OLD_MAX_FILE_SIZE < N then 15 else 9 :: nat"
  have "N \<le> 2 ^ ?m * PARTSIZE" using assms(1) by (simp add: MAX_FILE_SIZE_def OLD_MAX_FILE_SIZE_def PARTSIZE_def)
  then have nb: "nBlocks N PARTSIZE \<le> 2 ^ ?m" by (intro nBlocks_le) simp_all
  have bs: "base_size d' = PARTSIZE" if "PARTSIZE < d'" for d' using that by (simp add: base_size_def)
  show ?thesis using locates_unit [of PARTSIZE N N start ?m "min PARTSIZE (N - start)" True] bs assms(2,3) nb by auto
qed

lemma block_path:
  assumes "n \<le> PARTSIZE" and "EMBLOCKSIZE dvd pos" and "pos < n"
  shows "\<exists>q. locates n lb pos (min EMBLOCKSIZE (n - pos)) q \<and> length q \<le> 6"
proof -
  have nb: "nBlocks n EMBLOCKSIZE \<le> 2 ^ 6" using assms(1) by (intro nBlocks_le) (simp_all add: EMBLOCKSIZE_def PARTSIZE_def)
  have bs: "base_size d' = EMBLOCKSIZE" if "EMBLOCKSIZE < d'" "d' \<le> PARTSIZE" for d' using that by (simp add: base_size_def)
  show ?thesis using locates_unit [of EMBLOCKSIZE PARTSIZE n pos 6 "min EMBLOCKSIZE (n - pos)" lb] bs assms nb by auto
qed

lemma part_facts:
  assumes T: "full sha T" "m_nDataSize T = N" "m_bIsLeftBranch T" and N: "EMBLOCKSIZE < N" "N \<le> MAX_FILE_SIZE"
    and p: "locates N True start n p" "length p \<le> (if OLD_MAX_FILE_SIZE < N then 15 else 9)" "n \<le> PARTSIZE" "0 < n"
  shows "length (side_list p T) = length p + num_blocks n"
    and "\<forall>e \<in> set (side_list p T). entry_ok (OLD_MAX_FILE_SIZE < N) N True e"
proof -
  obtain c where c: "node_at p T = Some c" "full sha c" "m_nDataSize c = n"
    using full_node_at [OF T(1) p(1) T(2)] T(3) by auto
  have nb: "nBlocks n EMBLOCKSIZE \<le> 2 ^ 6" using p(3) by (intro nBlocks_le) (simp_all add: EMBLOCKSIZE_def PARTSIZE_def)
  have low: "length (low_list c) = nBlocks n EMBLOCKSIZE" "\<forall>e \<in> set (low_list c). length (fst e) \<le> 6"
    using low_list_size [OF c(2)] c(3) p(3,4) nb by simp_all
  have ok: "length (side_list p T) = length p + length (low_list c)"
    "\<forall>e \<in> set (side_list p T). length (snd e) = HASHSIZE \<and> dim_path (fst e) N True \<and>
        (base_size n < n \<or> p \<noteq> [] \<longrightarrow> fst e \<noteq> []) \<and>
        (length (fst e) \<le> length p \<or> (\<exists>q \<in> set (low_list c). length (fst e) = length p + length (fst q)))"
    using side_list_ok [OF T(1) p(1) T(2) _ c(1)] T(3) by simp_all
  show "length (side_list p T) = length p + num_blocks n" using ok(1) low(1) by (simp add: num_blocks_def nBlocks_def)
  have ne: "base_size n < n \<or> p \<noteq> []"
  proof (cases "p = []")
    case True
    then have "n = N" using p(1) by (auto elim: locates.cases)
    then show ?thesis using N(1) p(3) by (simp add: base_size_def)
  qed simp
  show "\<forall>e \<in> set (side_list p T). entry_ok (OLD_MAX_FILE_SIZE < N) N True e"
  proof
    fix e assume e: "e \<in> set (side_list p T)"
    have "length (fst e) \<le> length p + 6" using ok(2) e low(2) by fastforce
    then have "length (fst e) \<le> (if OLD_MAX_FILE_SIZE < N then 21 else 15)" using p(2) by (simp split: if_splits)
    then show "entry_ok (OLD_MAX_FILE_SIZE < N) N True e" using ok(2) e ne unfolding entry_ok_def by blast
  qed
qed

text \<open>The packet.\<close>

definition recovery_bytes :: "bool \<Rightarrow> (bool list \<times> uint8 list) list \<Rightarrow> uint8 list" where
  "recovery_bytes large es =
     (if large then le_bytes 2 (0 :: uint16) else []) @ le_bytes 2 (of_nat (length es) :: uint16) @ bytes_of large [] es @
     (if large then [] else le_bytes 2 (0 :: uint16))"

lemma length_entries:
  "\<forall>e \<in> set es. entry_ok b32 d lb e \<Longrightarrow> length (bytes_of b32 [] es) = length es * (HASHSIZE + (if b32 then 4 else 2))"
proof (induction es)
  case (Cons e es)
  have "length (entry_bytes b32 e) = HASHSIZE + (if b32 then 4 else 2)"
    using Cons.prems by (simp add: entry_bytes_def ident_bytes_def entry_ok_def)
  then show ?case using Cons by simp
qed simp

lemma FindHash_noop:
  assumes "locates d lb start n p" "shaped t" "m_nDataSize t = d" "m_bIsLeftBranch t = lb" "d < 2 ^ 64" "length p \<le> 21" "node_at p t \<noteq> None"
  shows "FindHash start n 0 t = (Some p, Suc (length p), t)"
  using FindHash_locates [OF assms(1-5), of 0] assms(6) at_path_exists [OF assms(7)] by simp

lemma write_part:
  assumes T: "full sha (m_pHashTree s)" "m_nDataSize (m_pHashTree s) = N" "m_bIsLeftBranch (m_pHashTree s)" "owner_size s = N"
    and s0: "load s0 = (True, s)" "m_eStatus s0 = AICH_HASHSETCOMPLETE" "\<not> IsPartFile s0" "EMBLOCKSIZE < m_nDataSize (m_pHashTree s0)"
    and N: "EMBLOCKSIZE < N" "N \<le> MAX_FILE_SIZE"
    and p: "locates N True start n p" "length p \<le> (if OLD_MAX_FILE_SIZE < N then 15 else 9)" "n = min PARTSIZE (N - start)" "start < N"
    and f: "growable f" "m_position f \<le> m_fileSize f"
  shows "\<exists>f1. CreatePartRecoveryData (Some load) start s0 f = (Inr True, FreeHashSet s, f1) \<and>
      wrote f (recovery_bytes (OLD_MAX_FILE_SIZE < N) (side_list p (m_pHashTree s))) f1"
proof -
  let ?T = "m_pHashTree s" and ?large = "OLD_MAX_FILE_SIZE < N"
  let ?es = "side_list p ?T"
  have n: "n \<le> PARTSIZE" "0 < n" using p(3,4) by simp_all
  note pf = part_facts [OF T(1-3) N p(1,2) n]
  have N64: "N < 2 ^ 64" using N(2) by (simp add: MAX_FILE_SIZE_def)
  have ps: "part_size start s = n" using p(3,4) T(4) N64 by (simp add: part_size_def wrap_simps)
  obtain c where c: "node_at p ?T = Some c" using full_node_at [OF T(1) p(1) T(2)] T(3) by auto
  have l: "length p \<le> 21" using p(2) by (simp split: if_splits)
  have fh: "FindHash start n 0 ?T = (Some p, Suc (length p), ?T)"
    by (rule FindHash_noop [OF p(1) full_simps(4) [OF T(1)] T(2) _ N64 l]) (simp_all add: T(3) c)
  have nb: "num_blocks n \<le> 64"
  proof -
    have "nBlocks n EMBLOCKSIZE \<le> 64" using n by (intro nBlocks_le) (simp_all add: EMBLOCKSIZE_def PARTSIZE_def)
    then show ?thesis by (simp add: nBlocks_def num_blocks_def)
  qed
  have hp: "hashs_of_part start s = (length ?es, s)"
    using l nb by (simp add: hashs_of_part_def ps fh pf(1) u16_small)
  let ?hdr = "(if ?large then le_bytes 2 (0 :: uint16) else []) @ le_bytes 2 (of_nat (length ?es) :: uint16)"
  have w1: "puts (io_seq (if ?large then WriteUInt16 0 else io_return ()) (WriteUInt16 (of_nat (length ?es)))) ?hdr"
    by (intro puts_seq) (simp_all add: puts_return u16.put_bytes)
  obtain f1 where f1: "io_seq (if ?large then WriteUInt16 0 else io_return ()) (WriteUInt16 (of_nat (length ?es))) f = (Inr (), f1)" "wrote f ?hdr f1"
    using putsD [OF w1 f] by blast
  have g1: "growable f1" "m_position f1 \<le> m_fileSize f1" using f1(2) wrote_pos [OF f1(2) f(2,1)] by (simp_all add: wrote_def)
  have w2: "puts_result (CreateTreeRecoveryData start n 0 ?large ?T) (bytes_of ?large [] ?es) True"
    by (rule puts_side [OF p(1) T(1,2) _ N64]) (simp_all add: T(3) next_ident_def path_ident_def)
  obtain f2 where f2: "CreateTreeRecoveryData start n 0 ?large ?T f1 = (Inr True, f2)" "wrote f1 (bytes_of ?large [] ?es) f2"
    using w2 g1 unfolding puts_result_def by blast
  have g2: "growable f2" "m_position f2 \<le> m_fileSize f2" using f2(2) wrote_pos [OF f2(2) g1(2,1)] by (simp_all add: wrote_def)
  have pos: "length ?es * (HASHSIZE + (if ?large then 4 else 2)) = m_position f2 - m_position f1"
    using f2(2) length_entries [OF pf(2)] by (simp add: wrote_def)
  have w3: "puts (if \<not> ?large then WriteUInt16 0 else io_return ()) (if ?large then [] else le_bytes 2 (0 :: uint16))"
    by (simp add: puts_return u16.put_bytes)
  obtain f3 where f3: "(if \<not> ?large then WriteUInt16 0 else io_return ()) f2 = (Inr (), f3)" "wrote f2 (if ?large then [] else le_bytes 2 (0 :: uint16)) f3"
    using putsD [OF w3 g2] by blast
  have "wrote f (recovery_bytes ?large ?es) f3"
    using wrote_trans [OF wrote_trans [OF f1(2) f2(2) f(2,1)] f3(2) f(2,1)] by (simp add: recovery_bytes_def)
  moreover have "IsLargeFile s = ?large" by (simp add: IsLargeFile_def T(4))
  ultimately show ?thesis using s0 hp f1(1) f2(1) f3(1) pos ps
    by (intro exI [of _ f3]) (simp add: CreatePartRecoveryData_def Let_def)
qed

lemma blocks_there_ok:
  assumes "\<And>pos. pos < n \<Longrightarrow> EMBLOCKSIZE dvd pos \<Longrightarrow>
    \<exists>p lv. FindHash (u64 (start + pos)) (min EMBLOCKSIZE (n - pos)) 0 t = (Some p, lv, t) \<and> valid_child (node_at p t)"
  shows "EMBLOCKSIZE dvd pos \<Longrightarrow> blocks_there start n pos t = (True, t)"
proof (induction "n - pos" arbitrary: pos rule: less_induct)
  case less
  show ?case
  proof (cases "pos < n")
    case True
    obtain p lv where p: "FindHash (u64 (start + pos)) (min EMBLOCKSIZE (n - pos)) 0 t = (Some p, lv, t)" "valid_child (node_at p t)"
      using assms [OF True less.prems] by blast
    have "blocks_there start n (pos + EMBLOCKSIZE) t = (True, t)"
      by (rule less.hyps) (use True less.prems sizes_pos(1) diff_less_mono2 [of pos "pos + EMBLOCKSIZE" n] in auto)
    then show ?thesis using True p by (subst blocks_there.simps) simp
  next
    case False
    then show ?thesis by (subst blocks_there.simps) simp
  qed
qed

lemma valid_child_Some [simp]: "valid_child (Some t) = m_bHashValid t"
  by (simp add: valid_child_def)

lemma hash_of_Some [simp]: "hash_of (Some t) = m_Hash t"
  by (simp add: hash_of_def)

lemma cut_leaf_valid: "cut R T \<Longrightarrow> full sha T \<Longrightarrow> m_nDataSize T \<le> base_size (m_nDataSize T) \<Longrightarrow> m_bHashValid R"
  by (cases rule: cut.cases, assumption) (auto dest: full_simps(3))

text \<open>Once the hashes of a part have been put, each of its blocks has its hash.\<close>

lemma block_there:
  assumes T: "full sha T" "m_nDataSize T = N" "m_bIsLeftBranch T" "N < 2 ^ 64"
    and p: "locates N True start n p" "length p \<le> 15" "n \<le> PARTSIZE" "node_at p T = Some c"
    and R: "cut R T" "skel R = skel (put_all (side_list p T) R0)"
    and pos: "pos < n" "EMBLOCKSIZE dvd pos"
  shows "\<exists>q h. FindHash (start + pos) (min EMBLOCKSIZE (n - pos)) 0 R = (Some q, Suc (length q), R) \<and>
      FindHash (start + pos) (min EMBLOCKSIZE (n - pos)) 0 T = (Some q, Suc (length q), T) \<and>
      valid_child (node_at q R) \<and> hash_of (node_at q R) = h \<and> valid_child (node_at q T) \<and> hash_of (node_at q T) = h"
proof -
  let ?z = "min EMBLOCKSIZE (n - pos)"
  obtain q where q: "locates n (if p = [] then True else last p) pos ?z q" "length q \<le> 6"
    using block_path [OF p(3) pos(2,1)] by blast
  have z: "0 < ?z" using pos(1) by simp
  have loc: "locates N True (start + pos) ?z (p @ q)" by (rule locates_append [OF p(1) q(1) z])
  obtain x where x: "node_at (p @ q) T = Some x" "full sha x" "m_nDataSize x = ?z"
    using full_node_at [OF T(1) loc T(2)] T(3) by auto
  have xs: "m_nDataSize x \<le> base_size (m_nDataSize x)" using x(3) sizes_pos(3) by (auto simp: base_size_def intro: min.coboundedI1)
  have fc: "full sha c" using full_node_at [OF T(1) p(1) T(2)] T(3) p(4) by auto
  have qc: "node_at q c = Some x" using x(1) p(4) by (simp add: node_at_append)
  have "(p @ q, m_Hash x) \<in> set (side_list p T)" by (rule side_list_mem [OF p(4) low_list_mem [OF fc qc xs]])
  then have "node_at (p @ q) R \<noteq> None" using put_all_exists skel_exists [OF R(2)] by blast
  then obtain y where y: "node_at (p @ q) R = Some y" by blast
  have "cut y x" using cut_node_at [OF R(1) y] x(1) by simp
  then have v: "m_bHashValid y" "m_Hash y = m_Hash x" using cut_leaf_valid [OF _ x(2) xs] cut_hash by blast+
  have l: "length (p @ q) \<le> 21" using p(2) q(2) by simp
  have d: "m_nDataSize R = N" "m_bIsLeftBranch R" using cut_same_dims [OF R(1)] T(2,3) by (simp_all add: same_dims_def)
  have "FindHash (start + pos) ?z 0 R = (Some (p @ q), Suc (length (p @ q)), R)"
    by (rule FindHash_noop [OF loc cut_shaped [OF R(1) T(1)] d(1) _ T(4) l]) (simp_all add: d y)
  moreover have "FindHash (start + pos) ?z 0 T = (Some (p @ q), Suc (length (p @ q)), T)"
    by (rule FindHash_noop [OF loc full_simps(4) [OF T(1)] T(2) _ T(4) l]) (simp_all add: T(3) x)
  ultimately show ?thesis using x(1) y v full_simps(1) [OF x(2)]
    by (intro exI [of _ "p @ q"] exI [of _ "m_Hash x"]) simp
qed

lemma put_part:
  assumes T: "full sha T" "m_nDataSize T = N" "m_bIsLeftBranch T" "EMBLOCKSIZE < N" "N \<le> MAX_FILE_SIZE"
    and p: "locates N True start n p" "length p \<le> (if OLD_MAX_FILE_SIZE < N then 15 else 9)" "n \<le> PARTSIZE" "0 < n"
    and R: "opened p R0 T"
  shows "cut (put_all (side_list p T) (at_path p (\<lambda>s. s) R0)) T"
    and "m_bHashValid R0 \<Longrightarrow> m_bHashValid (put_all (side_list p T) (at_path p (\<lambda>s. s) R0))"
proof -
  note pf = part_facts [OF T p]
  from cut_side [OF T(1) opened_at_path [OF R]] show "cut (put_all (side_list p T) (at_path p (\<lambda>s. s) R0)) T" .
  have "\<forall>e \<in> set (side_list p T). fst e \<noteq> []" using pf(2) by (simp add: entry_ok_def)
  from put_all_root [OF this, of "at_path p (\<lambda>s. s) R0"] show "m_bHashValid R0 \<Longrightarrow> m_bHashValid (put_all (side_list p T) (at_path p (\<lambda>s. s) R0))"
    by (cases p) simp_all
qed

lemma read_ident_16: "read_ident False = io_map ucast ReadUInt16" "ident_fine False = (\<lambda>w. w \<noteq> 1)"
  and read_ident_32: "read_ident True = ReadUInt32" "ident_fine True = (\<lambda>w. w \<noteq> 1 \<and> w \<le> 0x400000)"
  by (auto simp: read_ident_def ident_fine_def fun_eq_iff)

lemma read_packet:
  assumes N: "EMBLOCKSIZE < N" "N \<le> MAX_FILE_SIZE" "start < N" "n = min PARTSIZE (N - start)"
    and r: "owner_size r = N" "m_eStatus r = AICH_VERIFIED \<or> m_eStatus r = AICH_TRUSTED"
    and p: "FindHash start n 0 (m_pHashTree r) = (Some p, Suc (length p), R1)" "length p \<le> 15"
    and R1: "shaped R1" "m_nDataSize R1 = N" "m_bIsLeftBranch R1"
    and es: "length es = length p + num_blocks n" "\<forall>e \<in> set es. entry_ok (OLD_MAX_FILE_SIZE < N) N True e" "es \<noteq> []"
    and R: "VerifyHashTree sha True (put_all es R1) = (True, R)" "blocks_there start n 0 R = (True, R)"
    and f: "mem_ok f" "contents f = recovery_bytes (OLD_MAX_FILE_SIZE < N) es" "m_position f = 0"
  shows "\<exists>f2. ReadRecoveryData sha start r f = (Inr True, r\<lparr>m_pHashTree := R\<rparr>, f2)"
proof -
  let ?large = "OLD_MAX_FILE_SIZE < N"
  have n: "n \<le> PARTSIZE" using N(4) by simp
  have N64: "N < 2 ^ 64" using N(2) by (simp add: MAX_FILE_SIZE_def)
  have ps: "part_size start r = n" using N(3,4) r(1) N64 by (simp add: part_size_def wrap_simps)
  have nb: "num_blocks n \<le> 64"
  proof -
    have "nBlocks n EMBLOCKSIZE \<le> 64" using n by (intro nBlocks_le) (simp_all add: EMBLOCKSIZE_def PARTSIZE_def)
    then show ?thesis by (simp add: nBlocks_def num_blocks_def)
  qed
  have cnt: "length es \<le> 79" using es(1) p(2) nb by simp
  let ?r1 = "r\<lparr>m_pHashTree := R1\<rparr>"
  have hp: "hashs_of_part start r = (length es, ?r1)"
    using p(2) nb by (simp add: hashs_of_part_def ps p(1) es(1) u16_small)
  have un: "unat (of_nat (length es) :: uint16) = length es" using cnt by (simp add: unat_of_nat)
  have le: "length (bytes_of ?large [] es) = length es * (HASHSIZE + (if ?large then 4 else 2))" by (rule length_entries [OF es(2)])
  have fs: "m_fileSize f = length (recovery_bytes ?large es)" using length_contents [OF f(1)] f(2) by simp
  have ok: "\<forall>e \<in> set es. entry_ok ?large (m_nDataSize R1) (m_bIsLeftBranch R1) e" using es(2) R1(2,3) by simp
  show ?thesis
  proof (cases ?large)
    case False
    let ?pre = "le_bytes 2 (of_nat (length es) :: uint16)"
    have cf: "contents f = ?pre @ bytes_of ?large [] es @ le_bytes 2 (0 :: uint16)" using f(2) False by (simp add: recovery_bytes_def)
    let ?f1 = "f\<lparr>m_position := 2\<rparr>"
    have r1: "ReadUInt16 f = (Inr (of_nat (length es)), ?f1)"
      using getsD [OF u16.get_bytes [OF TrueI] f(1), of "[]"] cf f(3) by simp
    have f1: "mem_ok ?f1" "contents ?f1 = ?pre @ bytes_of ?large [] es @ le_bytes 2 (0 :: uint16)" "m_position ?f1 = length ?pre"
      using f(1) cf by (simp_all add: mem_ok_def contents_def)
    obtain f2 where r2: "read_hashs (io_map ucast ReadUInt16) (\<lambda>w. w \<noteq> 1) (length es) R1 ?f1 = (Inr True, (put_all es R1), f2)"
      using read_hashs_ok [OF ok R1(1) f1(1) _ f1(3)] f1(2) False by (simp add: read_ident_16)
    have rem: "\<not> remaining ?f1 < length es * (HASHSIZE + 2)"
      using fs le False by (simp add: remaining_def recovery_bytes_def)
    show ?thesis using r(2) hp r1 r2 rem un R ps es(3) by (simp add: ReadRecoveryData_def Let_def set_VerifyHashTree_def part_size_def)
  next
    case True
    let ?pre = "le_bytes 2 (0 :: uint16) @ le_bytes 2 (of_nat (length es) :: uint16)"
    have cf: "contents f = ?pre @ bytes_of ?large [] es @ []" using f(2) True by (simp add: recovery_bytes_def)
    let ?f1 = "f\<lparr>m_position := 2\<rparr>" and ?f2 = "f\<lparr>m_position := 4\<rparr>"
    have r1: "ReadUInt16 f = (Inr 0, ?f1)"
      using getsD [OF u16.get_bytes [OF TrueI] f(1), of "[]"] cf f(3) by simp
    have f1: "mem_ok ?f1" "contents ?f1 = le_bytes 2 (0 :: uint16) @ le_bytes 2 (of_nat (length es) :: uint16) @ bytes_of ?large [] es" "m_position ?f1 = length (le_bytes 2 (0 :: uint16))"
      using f(1) cf by (simp_all add: mem_ok_def contents_def)
    have r2: "ReadUInt16 ?f1 = (Inr (of_nat (length es)), ?f2)"
      using getsD [OF u16.get_bytes [OF TrueI] f1] by simp
    have f2: "mem_ok ?f2" "contents ?f2 = ?pre @ bytes_of ?large [] es @ []" "m_position ?f2 = length ?pre"
      using f(1) cf by (simp_all add: mem_ok_def contents_def)
    obtain f3 where r3: "read_hashs ReadUInt32 (\<lambda>w. w \<noteq> 1 \<and> w \<le> 0x400000) (length es) R1 ?f2 = (Inr True, (put_all es R1), f3)"
      using read_hashs_ok [OF ok R1(1) f2(1) _ f2(3)] f2(2) True by (simp add: read_ident_32)
    have rem: "\<not> remaining ?f1 < length es * (HASHSIZE + 2)" "\<not> remaining ?f2 < length es * (HASHSIZE + 4)" "2 \<le> remaining ?f1"
      using fs le True by (simp_all add: remaining_def recovery_bytes_def HASHSIZE_def)
    show ?thesis using r(2) hp r1 r2 r3 rem(1,2) un R ps es(3) by (simp add: rem(3) ReadRecoveryData_def Let_def set_VerifyHashTree_def part_size_def)
  qed
qed

lemma read_part:
  assumes T: "full sha T" "m_nDataSize T = N" "m_bIsLeftBranch T" "EMBLOCKSIZE < N" "N \<le> MAX_FILE_SIZE"
    and p: "locates N True start n p" "length p \<le> (if OLD_MAX_FILE_SIZE < N then 15 else 9)" "n = min PARTSIZE (N - start)" "start < N"
    and r: "opened p (m_pHashTree r) T" "m_bHashValid (m_pHashTree r)" "owner_size r = N" "m_eStatus r = AICH_VERIFIED \<or> m_eStatus r = AICH_TRUSTED"
    and sh: "shaped (m_pHashTree r)"
    and f: "mem_ok f" "contents f = recovery_bytes (OLD_MAX_FILE_SIZE < N) (side_list p T)" "m_position f = 0"
  shows "\<exists>R f2. ReadRecoveryData sha start r f = (Inr True, r\<lparr>m_pHashTree := R\<rparr>, f2) \<and> cut R T \<and>
      skel R = skel (put_all (side_list p T) (at_path p (\<lambda>s. s) (m_pHashTree r)))"
proof -
  let ?R0 = "m_pHashTree r" and ?large = "OLD_MAX_FILE_SIZE < N"
  let ?es = "side_list p T" and ?R1 = "at_path p (\<lambda>s. s) ?R0"
  let ?R2 = "put_all ?es ?R1"
  have n: "n \<le> PARTSIZE" "0 < n" using p(3,4) by simp_all
  note pf = part_facts [OF T p(1,2) n]
  have N64: "N < 2 ^ 64" using T(5) by (simp add: MAX_FILE_SIZE_def)
  have l: "length p \<le> 15" using p(2) by (simp split: if_splits)
  obtain c where c: "node_at p T = Some c" using full_node_at [OF T(1) p(1) T(2)] T(3) by auto
  have d0: "m_nDataSize ?R0 = N" "m_bIsLeftBranch ?R0" using opened_dims [OF r(1)] T(2,3) by (simp_all add: same_dims_def)
  have fh: "FindHash start n 0 ?R0 = (Some p, Suc (length p), ?R1)"
    using FindHash_locates [OF p(1) sh d0(1) _ N64, of 0] d0(2) l by simp
  have lpos: "?es \<noteq> []" by (cases p) simp_all
  have cR2: "cut ?R2 T" and vR2: "m_bHashValid ?R2"
    using put_part [OF T p(1,2) n r(1)] r(2) by simp_all
  obtain R where R: "VerifyHashTree sha True ?R2 = (True, R)" "cut R T" "skel R = skel ?R2"
    using cut_verify [OF T(1) cR2 vR2] by blast
  have there: "blocks_there start n 0 R = (True, R)"
  proof (rule blocks_there_ok)
    fix pos assume pos: "pos < n" "EMBLOCKSIZE dvd pos"
    have "pos < N - start" using pos(1) p(3) by simp
    then have "start + pos < N" by linarith
    then have "u64 (start + pos) = start + pos" using N64 by (intro u64_small) simp
    then show "\<exists>p lv. FindHash (u64 (start + pos)) (min EMBLOCKSIZE (n - pos)) 0 R = (Some p, lv, R) \<and> valid_child (node_at p R)"
      using block_there [OF T(1-3) N64 p(1) l n(1) c R(2,3) pos] by auto
  qed simp
  have dp: "dim_path p (m_nDataSize ?R0) (m_bIsLeftBranch ?R0)" using locates_dim_path [OF p(1)] d0 by simp
  have R1: "shaped ?R1" by (rule shaped_at_path [OF _ _ sh dp]) simp_all
  have dR1: "m_nDataSize ?R1 = N" "m_bIsLeftBranch ?R1" using at_path_dims [of "\<lambda>s. s" p ?R0] d0 by (simp_all add: same_dims_def)
  show ?thesis using read_packet [OF T(4,5) p(4,3) r(3,4) fh l R1 dR1 pf lpos R(1) there f] R(2,3) by blast
qed

text \<open>\<open>IsPartDataAvailable\<close>, which asks before the request, creates nodes in the part that it asks for.\<close>

lemma blocks_opened:
  assumes T: "full sha T" "m_nDataSize T = N" "m_bIsLeftBranch T" "N < 2 ^ 64"
    and p: "locates N True start n p" "length p \<le> 15" "n = min PARTSIZE (N - start)" "start < N"
  shows "opened p R T \<Longrightarrow> shaped R \<Longrightarrow> EMBLOCKSIZE dvd pos \<Longrightarrow>
    opened p (snd (blocks_there start n pos R)) T \<and> shaped (snd (blocks_there start n pos R)) \<and>
    m_bHashValid (snd (blocks_there start n pos R)) = m_bHashValid R"
proof (induction "n - pos" arbitrary: pos R rule: less_induct)
  case less
  show ?case
  proof (cases "pos < n")
    case True
    let ?z = "min EMBLOCKSIZE (n - pos)"
    obtain q where q: "locates n (if p = [] then True else last p) pos ?z q" "length q \<le> 6"
      using block_path [OF _ less.prems(3) True] p(3) by auto
    have loc: "locates N True (start + pos) ?z (p @ q)" by (rule locates_append [OF p(1) q(1)]) (use True in simp)
    have d: "m_nDataSize R = N" "m_bIsLeftBranch R" using opened_dims [OF less.prems(1)] T(2,3) by (simp_all add: same_dims_def)
    have "start + pos < N" using True p(3,4) by linarith
    then have u: "u64 (start + pos) = start + pos" using T(4) by (intro u64_small) simp
    let ?R = "at_path (p @ q) (\<lambda>s. s) R"
    have fh: "FindHash (u64 (start + pos)) ?z 0 R = (Some (p @ q), 0 + 1 + length (p @ q), ?R)"
      unfolding u by (rule FindHash_locates [OF loc less.prems(2) d(1) _ T(4)]) (use d(2) p(2) q(2) in simp_all)
    have "node_at (p @ q) T \<noteq> None" using full_node_at [OF T(1) loc T(2)] T(3) by auto
    then have o: "opened p ?R T" by (rule opened_below [OF T(1) less.prems(1)])
    have sh: "shaped ?R" by (rule shaped_at_path [OF _ _ less.prems(2)]) (use locates_dim_path [OF loc] d in simp_all)
    have v: "m_bHashValid ?R = m_bHashValid R" by (cases "p @ q") simp_all
    have "n - (pos + EMBLOCKSIZE) < n - pos" using True by (simp add: EMBLOCKSIZE_def)
    from less.hyps [OF this o sh] less.prems(3) o sh v show ?thesis
      by (subst (1 2 3) blocks_there.simps) (simp add: True fh)
  next
    case False
    then show ?thesis using less.prems by (subst (1 2 3) blocks_there.simps) simp
  qed
qed

text \<open>What holds of a download between its questions for a part.\<close>

definition asking :: "bool list \<Rightarrow> CAICHHashTree \<Rightarrow> nat \<Rightarrow> CAICHHashSet \<Rightarrow> bool" where
  "asking p T N r \<longleftrightarrow> opened p (m_pHashTree r) T \<and> shaped (m_pHashTree r) \<and> m_bHashValid (m_pHashTree r) \<and> owner_size r = N \<and>
     (m_eStatus r = AICH_VERIFIED \<or> m_eStatus r = AICH_TRUSTED)"

lemma asking_available:
  assumes T: "full sha T" "m_nDataSize T = N" "m_bIsLeftBranch T" "N < 2 ^ 64"
    and p: "locates N True start (min PARTSIZE (N - start)) p" "length p \<le> 15" "start < N" and r: "asking p T N r"
  shows "asking p T N (((\<lambda>x. snd (IsPartDataAvailable start x)) ^^ k) r)"
proof (induction k)
  case (Suc k)
  let ?r = "((\<lambda>x. snd (IsPartDataAvailable start x)) ^^ k) r" and ?n = "min PARTSIZE (N - start)"
  have ps: "part_size start ?r = ?n" using p(3) Suc T(4) by (simp add: asking_def part_size_def wrap_simps)
  have "snd (IsPartDataAvailable start ?r) = ?r\<lparr>m_pHashTree := snd (blocks_there start ?n 0 (m_pHashTree ?r))\<rparr>"
    using Suc ps by (auto simp: asking_def IsPartDataAvailable_def split: prod.split)
  then show ?case using blocks_opened [OF T p(1,2) refl p(3), of "m_pHashTree ?r" 0] Suc by (simp add: asking_def)
qed (simp add: r)

text \<open>
  C1. A file that has all its hashes writes the recovery data of a part, and a download that knows the same root hash reads
  them, also after it has asked any number of times (\<open>IsPartDataAvailable\<close>) whether it has the hashes of this part already:
  afterwards its tree is a part of the other one and every block of the part has its hash. Before, the tree of the download is a
  part of the other one without half-open nodes, as it is at the start and after each part that was recovered; a question
  about another part that was not answered yet leaves such nodes, and the theorem does not cover it.
\<close>

theorem aich_recovery:
  assumes "load s0 = (True, s)" and "m_eStatus s0 = AICH_HASHSETCOMPLETE" and "\<not> IsPartFile s0"
    and "EMBLOCKSIZE < m_nDataSize (m_pHashTree s0)"
    and "full sha (m_pHashTree s)" and "m_nDataSize (m_pHashTree s) = owner_size s" and "m_bIsLeftBranch (m_pHashTree s)"
    and "EMBLOCKSIZE < owner_size s" and "owner_size s \<le> MAX_FILE_SIZE" and "PARTSIZE dvd start" and "start < owner_size s"
    and "cut (m_pHashTree r0) (m_pHashTree s)" and "m_bHashValid (m_pHashTree r0)" and "owner_size r0 = owner_size s"
    and "m_eStatus r0 = AICH_VERIFIED \<or> m_eStatus r0 = AICH_TRUSTED"
    and "growable f" and "contents f = []" and "m_position f = 0"
    and "r = ((\<lambda>x. snd (IsPartDataAvailable start x)) ^^ k) r0"
  shows "\<exists>f1 R f2. CreatePartRecoveryData (Some load) start s0 f = (Inr True, FreeHashSet s, f1) \<and>
    ReadRecoveryData sha start r (f1\<lparr>m_position := 0\<rparr>) = (Inr True, r\<lparr>m_pHashTree := R\<rparr>, f2) \<and>
    cut R (m_pHashTree s) \<and>
    (\<forall>pos. pos < part_size start s \<longrightarrow> EMBLOCKSIZE dvd pos \<longrightarrow>
       (\<exists>h. block_hash R (start + pos) (min EMBLOCKSIZE (part_size start s - pos)) = Some h \<and>
            block_hash (m_pHashTree s) (start + pos) (min EMBLOCKSIZE (part_size start s - pos)) = Some h))"
proof -
  let ?N = "owner_size s" and ?T = "m_pHashTree s"
  let ?n = "min PARTSIZE (?N - start)"
  obtain p where p: "locates ?N True start ?n p" "length p \<le> (if OLD_MAX_FILE_SIZE < ?N then 15 else 9)"
    using part_path [OF assms(9-11)] by blast
  have n: "?n \<le> PARTSIZE" by simp
  have N64: "?N < 2 ^ 64" using assms(9) by (simp add: MAX_FILE_SIZE_def)
  have ps: "part_size start s = ?n" using assms(11) N64 by (simp add: part_size_def wrap_simps)
  have pos0: "m_position f \<le> m_fileSize f" using assms(18) by simp
  obtain f1 where f1: "CreatePartRecoveryData (Some load) start s0 f = (Inr True, FreeHashSet s, f1)"
      "wrote f (recovery_bytes (OLD_MAX_FILE_SIZE < ?N) (side_list p ?T)) f1"
    using write_part [where N = ?N and start = start and s = s and load = load, OF assms(5-7) refl assms(1-4,8,9) p refl assms(11,16) pos0] by blast
  let ?f = "f1\<lparr>m_position := 0\<rparr>"
  have "contents f1 = recovery_bytes (OLD_MAX_FILE_SIZE < ?N) (side_list p ?T)" using f1(2) assms(17,18) by (simp add: wrote_def)
  then have f: "mem_ok ?f" "contents ?f = recovery_bytes (OLD_MAX_FILE_SIZE < ?N) (side_list p ?T)" "m_position ?f = 0"
    using f1(2) by (simp_all add: wrote_def growable_def mem_ok_def contents_def)
  have l: "length p \<le> 15" using p(2) by (simp split: if_splits)
  have "asking p ?T ?N r0"
    using cut_opened [OF assms(5,12)] locates_dim_path [OF p(1)] cut_shaped [OF assms(12,5)] assms(6,7,13-15) by (simp add: asking_def)
  from asking_available [OF assms(5-7) N64 p(1) l assms(11) this, of k]
  have r: "opened p (m_pHashTree r) ?T" "shaped (m_pHashTree r)" "m_bHashValid (m_pHashTree r)" "owner_size r = ?N"
      "m_eStatus r = AICH_VERIFIED \<or> m_eStatus r = AICH_TRUSTED"
    unfolding assms(19) asking_def by blast+
  obtain R f2 where R: "ReadRecoveryData sha start r ?f = (Inr True, r\<lparr>m_pHashTree := R\<rparr>, f2)" "cut R ?T"
      "skel R = skel (put_all (side_list p ?T) (at_path p (\<lambda>s. s) (m_pHashTree r)))"
    using read_part [OF assms(5-9) p refl assms(11) r(1,3-5) r(2) f] by blast
  obtain c where c: "node_at p ?T = Some c" using full_node_at [OF assms(5) p(1) assms(6)] assms(7) by auto
  have "\<exists>h. block_hash R (start + pos) (min EMBLOCKSIZE (?n - pos)) = Some h \<and>
      block_hash ?T (start + pos) (min EMBLOCKSIZE (?n - pos)) = Some h" if pos: "pos < ?n" "EMBLOCKSIZE dvd pos" for pos
    using block_there [OF assms(5-7) N64 p(1) l n c R(2,3) pos] by (auto simp: block_hash_def)
  then show ?thesis unfolding ps
    by (intro exI [of _ f1] exI [of _ R] exI [of _ f2] conjI allI impI f1(1) R(1,2))
qed

section \<open>A file whose hashes are all equal\<close>

function zero_tree :: "nat \<Rightarrow> bool \<Rightarrow> CAICHHashTree" where
  "zero_tree d lb =
     (if d \<le> base_size d then HashTree (replicate HASHSIZE 0) d (base_size d) lb True None None
      else HashTree (replicate HASHSIZE 0) d (base_size d) lb True (Some (zero_tree (left_size d (base_size d) lb) True))
        (Some (zero_tree (d - left_size d (base_size d) lb) False)))"
  by pat_completeness auto
termination
  by (relation "measure (\<lambda>(d, lb). d)") (use left_size_bounds in \<open>auto simp: not_le\<close>)

declare zero_tree.simps [simp del]

lemma zero_tree_simps [simp]:
  "m_Hash (zero_tree d lb) = replicate HASHSIZE 0" "m_nDataSize (zero_tree d lb) = d" "m_bIsLeftBranch (zero_tree d lb) = lb"
  "m_bHashValid (zero_tree d lb)"
  by (subst zero_tree.simps; simp)+

lemma full_zero_tree: "full (\<lambda>bs. replicate HASHSIZE 0) (zero_tree d lb)"
proof (induction d lb rule: zero_tree.induct)
  case (1 d lb)
  then show ?case by (subst zero_tree.simps) simp
qed

definition zero_set :: "nat \<Rightarrow> EAICHStatus \<Rightarrow> CAICHHashTree \<Rightarrow> CAICHHashSet" where
  "zero_set d st t = \<lparr>owner_size = d, IsPartFile = False, m_eStatus = st, m_aUntrustedHashs = [], m_pHashTree = t\<rparr>"

definition zero_root :: "nat \<Rightarrow> CAICHHashTree" where
  "zero_root d = HashTree (replicate HASHSIZE 0) d (base_size d) True True None None"

lemma cut_zero_root: "cut (zero_root d) (zero_tree d True)"
  unfolding zero_root_def using full_simps(3) [OF full_zero_tree, of d True] by (intro cut.leaf) simp_all

lemma aich_recovery_witness:
  "let r = snd (IsPartDataAvailable 0 (zero_set 400000 AICH_TRUSTED (zero_root 400000))) in
   \<exists>f1 R f2. CreatePartRecoveryData (Some (\<lambda>s. (True, s))) 0 (zero_set 400000 AICH_HASHSETCOMPLETE (zero_tree 400000 True))
      (new_memfile 1024 (\<lambda>_. 0)) =
      (Inr True, FreeHashSet (zero_set 400000 AICH_HASHSETCOMPLETE (zero_tree 400000 True)), f1) \<and>
    ReadRecoveryData (\<lambda>bs. replicate HASHSIZE 0) 0 r (f1\<lparr>m_position := 0\<rparr>) = (Inr True, r\<lparr>m_pHashTree := R\<rparr>, f2)"
  using aich_recovery [where load = "\<lambda>s. (True, s)" and ?s0.0 = "zero_set 400000 AICH_HASHSETCOMPLETE (zero_tree 400000 True)"
      and s = "zero_set 400000 AICH_HASHSETCOMPLETE (zero_tree 400000 True)" and sha = "\<lambda>bs. replicate HASHSIZE 0" and start = 0
      and ?r0.0 = "zero_set 400000 AICH_TRUSTED (zero_root 400000)" and k = 1 and r = "snd (IsPartDataAvailable 0 (zero_set 400000 AICH_TRUSTED (zero_root 400000)))" and f = "new_memfile 1024 (\<lambda>_. 0)"]
    full_zero_tree [of 400000 True] cut_zero_root [of 400000]
  by (auto simp: Let_def zero_set_def EMBLOCKSIZE_def MAX_FILE_SIZE_def zero_root_def new_memfile_def growable_def mem_ok_def contents_def)

end
