(* ===== verification/AICH_Trust.thy ===== *)
theory AICH_Trust
  imports AICH_Recovery
begin

text \<open>
  What accepted recovery data are worth: a hash is that of the file where all hashes on its way to the root and beside it
  are known (\<open>trusted_path\<close>), and the packets that are accepted although they hold no hash of the file.
\<close>

section \<open>Forged recovery data\<close>

text \<open>
  What \<open>VerifyHashTree\<close> does not see: a node that has no hash and only one child. The entries of the hashes beside the
  path are needed only for their number: here the first block is sent again in their place.
\<close>

definition forged_list :: "bool list \<Rightarrow> CAICHHashTree \<Rightarrow> (bool list \<times> uint8 list) list" where
  "forged_list p c = map (apfst (append p)) (replicate (length p) (hd (low_list c)) @ low_list c)"

lemma at_path_compose: "at_path p f (at_path p g t) = at_path p (\<lambda>s. f (g s)) t"
  by (induction p arbitrary: t) simp_all

lemma at_path_append: "at_path (p @ q) f t = at_path p (at_path q f) t"
  by (induction p arbitrary: t) simp_all

lemma put_all_prefix: "put_all (map (apfst (append p)) es) (at_path p g t) = at_path p (\<lambda>s. put_all es (g s)) t"
proof (induction es arbitrary: g)
  case (Cons e es)
  obtain q h where e: "e = (q, h)" by (cases e)
  show ?case using Cons.IH unfolding e by (simp add: at_path_append at_path_compose)
qed simp

lemma end_node_new:
  "locates d lb start n p \<Longrightarrow> m_nDataSize t = d \<Longrightarrow> m_bIsLeftBranch t = lb \<Longrightarrow> m_nBaseSize t = base_size d
    \<Longrightarrow> m_pLeftTree t = None \<Longrightarrow> m_pRightTree t = None \<Longrightarrow> p \<noteq> [] \<Longrightarrow> end_node p t = new_hash_tree n (last p) (base_size n)"
proof (induction arbitrary: t rule: locates.induct)
  case (left d n start lb p)
  have c: "child_of True t = new_hash_tree (left_size d (base_size d) lb) True (base_size (left_size d (base_size d) lb))"
    using left.prems by (simp add: left_child_def nLeft_def)
  show ?case
  proof (cases "p = []")
    case True
    then have "n = left_size d (base_size d) lb" using left.hyps(5) by (auto elim: locates.cases)
    then show ?thesis using True c by simp
  next
    case False
    then show ?thesis using left.IH [of "child_of True t"] c by simp
  qed
next
  case (right d n start lb p)
  have c: "child_of False t = new_hash_tree (d - left_size d (base_size d) lb) False (base_size (d - left_size d (base_size d) lb))"
    using right.prems by (simp add: right_child_def nRight_def nLeft_def)
  show ?case
  proof (cases "p = []")
    case True
    then have "n = d - left_size d (base_size d) lb" using right.hyps(5) by (auto elim: locates.cases)
    then show ?thesis using True c by simp
  next
    case False
    then show ?thesis using right.IH [of "child_of False t"] c by simp
  qed
qed simp

text \<open>In a file of more than three parts no part is a child of the root.\<close>

lemma part_deep:
  assumes "locates N True start n p" "n \<le> PARTSIZE" "3 * PARTSIZE < N"
  shows "\<exists>a b q. p = a # b # q"
proof (rule ccontr)
  assume neg: "\<not> ?thesis"
  have bs: "base_size N = PARTSIZE" and lt: "PARTSIZE < N" using assms(3) by (simp_all add: base_size_def)
  let ?k = "nBlocks N PARTSIZE"
  note k = nBlocks_bounds [OF sizes_pos(2) lt]
  have "3 < ?k"
  proof (rule ccontr)
    assume "\<not> 3 < ?k"
    then have "?k * PARTSIZE \<le> 3 * PARTSIZE" by (intro mult_le_mono1) simp
    then show False using k(3) assms(3) by linarith
  qed
  then have m: "2 \<le> (?k + 1) div 2" "(?k + 1) div 2 + 1 \<le> ?k - 1" by presburger+
  have L: "2 * PARTSIZE \<le> left_size N PARTSIZE True"
    using mult_le_mono1 [OF m(1), of PARTSIZE] by (simp add: left_size_def)
  have "((?k + 1) div 2 + 1) * PARTSIZE \<le> (?k - 1) * PARTSIZE" by (rule mult_le_mono1 [OF m(2)])
  then have R: "PARTSIZE < N - left_size N PARTSIZE True" using k(2) by (simp add: left_size_def)
  consider "p = []" | a where "p = [a]" using neg by (metis list.exhaust)
  then show False
  proof cases
    case 1
    then show ?thesis using assms(1,2) lt by (auto elim: locates.cases)
  next
    case 2
    then obtain s where "locates (child_dim a N True) a s n []" using assms(1) by (auto simp: child_dim_def elim: locates.cases)
    then have "n = child_dim a N True" by (auto elim: locates.cases)
    then show ?thesis using L R assms(2) bs sizes_pos(2) by (cases a) (simp_all add: child_dim_def)
  qed
qed

text \<open>A tree of which only the root is known takes them, whatever the hash algorithm says.\<close>

lemma verify_lonely:
  assumes "m_bHashValid t" "the_child b t = Some x" "the_child (\<not> b) t = None"
    and "\<not> m_bHashValid x" "the_child a x = Some y" "the_child (\<not> a) x = None"
  shows "VerifyHashTree sha del t = (True, t)"
proof -
  have x: "ReCalculateHash sha True x = (False, x)"
    using assms(5,6) by (cases x; cases a) simp_all
  then have c: "complete_child sha (Some x) = Some x" using assms(4) by (simp add: complete_child_def)
  have e: "set_left (m_pLeftTree t) (set_right (m_pRightTree t) t) = t" by (rule hash_tree_eqI) simp_all
  show ?thesis
  proof (cases b)
    case True
    then have "m_pLeftTree t = Some x" "m_pRightTree t = None" using assms(2,3) by simp_all
    then show ?thesis using assms(1,4) c e by (subst VerifyHashTree.simps) (simp add: complete_child_def Let_def valid_child_def)
  next
    case False
    then have "m_pLeftTree t = None" "m_pRightTree t = Some x" using assms(2,3) by simp_all
    then show ?thesis using assms(1,4) c e by (subst VerifyHashTree.simps) (simp add: complete_child_def Let_def valid_child_def)
  qed
qed

lemma node_at_path_append: "node_at (p @ q) (at_path p f t) = node_at q (f (end_node p t))"
  by (simp add: node_at_append)

lemma forged_node:
  assumes G: "full sha' G" "m_nDataSize G = N" "m_bIsLeftBranch G"
    and p: "locates N True start n p" "node_at p G = Some c" "n \<le> PARTSIZE"
    and e: "loose E c" and pos: "pos < n" "EMBLOCKSIZE dvd pos"
  shows "\<exists>q h. locates N True (start + pos) (min EMBLOCKSIZE (n - pos)) (p @ q) \<and> length q \<le> 6 \<and>
      node_at (p @ q) G \<noteq> None \<and> valid_child (node_at (p @ q) G) \<and> hash_of (node_at (p @ q) G) = h \<and>
      node_at q (put_all (low_list c) E) \<noteq> None \<and>
      valid_child (node_at q (put_all (low_list c) E)) \<and> hash_of (node_at q (put_all (low_list c) E)) = h"
proof -
  let ?z = "min EMBLOCKSIZE (n - pos)" and ?C = "put_all (low_list c) E"
  obtain q where q: "locates n (if p = [] then True else last p) pos ?z q" "length q \<le> 6"
    using block_path [OF p(3) pos(2,1)] by blast
  have z: "0 < ?z" using pos(1) by simp
  have loc: "locates N True (start + pos) ?z (p @ q)" by (rule locates_append [OF p(1) q(1) z])
  obtain x where x: "node_at (p @ q) G = Some x" "full sha' x" "m_nDataSize x = ?z"
    using full_node_at [OF G(1) loc G(2)] G(3) by auto
  have xs: "m_nDataSize x \<le> base_size (m_nDataSize x)" using x(3) sizes_pos(3) by (auto simp: base_size_def intro: min.coboundedI1)
  have fc: "full sha' c" using full_node_at [OF G(1) p(1) G(2)] G(3) p(2) by auto
  have qc: "node_at q c = Some x" using x(1) p(2) by (simp add: node_at_append)
  have "node_at q ?C \<noteq> None" using put_all_exists low_list_mem [OF fc qc xs] by blast
  then obtain y where y: "node_at q ?C = Some y" by blast
  have "cut y x" using cut_node_at [OF cut_low [OF fc e] y] qc by simp
  then have "m_bHashValid y" "m_Hash y = m_Hash x" using cut_leaf_valid [OF _ x(2) xs] cut_hash by blast+
  then show ?thesis using loc q(2) x(1) y full_simps(1) [OF x(2)]
    by (intro exI [of _ q] exI [of _ "m_Hash x"]) simp
qed

lemma forged_entries:
  assumes G: "full sha' G" "m_nDataSize G = N" "m_bIsLeftBranch G" "EMBLOCKSIZE < N" "N \<le> MAX_FILE_SIZE"
    and p: "locates N True start n p" "length p \<le> (if OLD_MAX_FILE_SIZE < N then 15 else 9)" "n \<le> PARTSIZE" "0 < n" "node_at p G = Some c" "p \<noteq> []"
  shows "length (forged_list p c) = length p + num_blocks n"
    and "\<forall>e \<in> set (forged_list p c). entry_ok (OLD_MAX_FILE_SIZE < N) N True e"
proof -
  have c: "full sha' c" "m_nDataSize c = n" "m_bIsLeftBranch c = last p" using full_node_at [OF G(1) p(1) G(2)] G(3) p(5,6) by auto
  have nb: "nBlocks n EMBLOCKSIZE \<le> 2 ^ 6" using p(3) by (intro nBlocks_le) (simp_all add: EMBLOCKSIZE_def PARTSIZE_def)
  have low: "length (low_list c) = nBlocks n EMBLOCKSIZE" "\<forall>e \<in> set (low_list c). length (fst e) \<le> 6"
    using low_list_size [OF c(1)] c(2) p(3,4) nb by simp_all
  show "length (forged_list p c) = length p + num_blocks n"
    using low(1) by (simp add: forged_list_def num_blocks_def nBlocks_def)
  have dp: "dim_path (p @ q) N True" if "dim_path q n (last p)" for q
    using p(1,6) that
  proof (induction rule: locates.induct)
    case (left d n start lb p)
    then show ?case by (cases "p = []") (auto simp: child_dim_def elim: locates.cases)
  next
    case (right d n start lb p)
    then show ?case by (cases "p = []") (auto simp: child_dim_def elim: locates.cases)
  qed simp
  show "\<forall>e \<in> set (forged_list p c). entry_ok (OLD_MAX_FILE_SIZE < N) N True e"
  proof
    fix e assume "e \<in> set (forged_list p c)"
    moreover have "hd (low_list c) \<in> set (low_list c)" by simp
    ultimately obtain e0 where "e = apfst (append p) e0" "e0 \<in> set (low_list c)"
      unfolding forged_list_def set_map set_append image_iff by (metis Un_iff in_set_replicate)
    then obtain q h where e: "e = (p @ q, h)" "(q, h) \<in> set (low_list c)" by (cases e0) auto
    have "length h = HASHSIZE" "dim_path q n (last p)" using low_list_ok [OF c(1) e(2)] c by simp_all
    moreover have "length q \<le> 6" using low(2) e(2) by fastforce
    ultimately show "entry_ok (OLD_MAX_FILE_SIZE < N) N True e"
      using dp [of q] p(2,6) e(1) by (auto simp: entry_ok_def)
  qed
qed

lemma low_list_node: "full sha c \<Longrightarrow> (q, h) \<in> set (low_list c) \<Longrightarrow> \<exists>x. node_at q c = Some x \<and> m_Hash x = h"
proof (induction sha c arbitrary: q rule: full.induct)
  case (2 sha h d b lb v l r)
  then show ?case by (auto simp: the_child_def)
qed auto

lemma loose_put:
  "full sha T \<Longrightarrow> loose R T \<Longrightarrow> node_at q T = Some x \<Longrightarrow> loose (at_path q (set_hash (m_Hash x)) R) T"
proof (induction q arbitrary: T R)
  case Nil
  then show ?case using looseD [OF Nil.prems(2)] by (intro loose.intros) (auto simp: same_dims_def)
next
  case (Cons b q)
  obtain c where c: "the_child b T = Some c" "node_at q c = Some x" using Cons.prems(3) by (auto split: option.splits)
  have bd: "base_size (m_nDataSize T) < m_nDataSize T"
    using Cons.prems(1) c(1) by (cases "(sha, T)" rule: full.cases) (auto simp: the_child_def split: if_splits)
  have fc: "full sha c" using full_node [OF Cons.prems(1) bd, of b] c(1) by auto
  have "loose (at_path q (set_hash (m_Hash x)) (child_of b R)) c"
    using Cons.IH [OF fc loose_child [OF Cons.prems(1,2) c(1)] c(2)] .
  then show ?case using looseD [OF Cons.prems(2)] c(1) by (intro loose.intros) (auto simp: same_dims_def)
qed

lemma loose_put_all: "full sha T \<Longrightarrow> loose R T \<Longrightarrow> set es \<subseteq> set (low_list T) \<Longrightarrow> loose (put_all es R) T"
proof (induction es arbitrary: R)
  case (Cons e es)
  obtain q h where e: "e = (q, h)" by (cases e)
  obtain x where "node_at q T = Some x" "m_Hash x = h" using low_list_node [OF Cons.prems(1)] Cons.prems(3) e by auto
  then show ?case using Cons.IH [OF Cons.prems(1) loose_put [OF Cons.prems(1,2)]] Cons.prems(3) e by auto
qed simp

lemma put_all_shaped:
  "\<forall>e \<in> set es. entry_ok b32 (m_nDataSize t) (m_bIsLeftBranch t) e \<Longrightarrow> shaped t \<Longrightarrow> shaped (put_all es t) \<and> same_dims (put_all es t) t"
proof (induction es arbitrary: t)
  case (Cons e es)
  obtain p h where e: "e = (p, h)" by (cases e)
  have "dim_path p (m_nDataSize t) (m_bIsLeftBranch t)" using Cons.prems(1) e by (simp add: entry_ok_def)
  note sh = put_hash_shaped [OF Cons.prems(2) this, of h]
  show ?case using Cons.IH [OF _ sh(1)] Cons.prems(1) sh(2) unfolding e by (simp add: same_dims_def)
qed simp

text \<open>
  C3. A download of more than three parts that knows only the root hash of its tree takes the hashes of the blocks of any part
  from a packet that anyone can build: \<open>G\<close> is the tree of some other data of the same size.
\<close>

theorem aich_forged:
  assumes "full sha' G" and "m_nDataSize G = owner_size r" and "m_bIsLeftBranch G"
    and "3 * PARTSIZE < owner_size r" and "owner_size r \<le> MAX_FILE_SIZE" and "PARTSIZE dvd start" and "start < owner_size r"
    and "m_pHashTree r = HashTree h (owner_size r) (base_size (owner_size r)) True True None None"
    and "m_eStatus r = AICH_VERIFIED \<or> m_eStatus r = AICH_TRUSTED"
  shows "\<exists>packet. \<forall>sha f. mem_ok f \<and> contents f = packet \<and> m_position f = 0 \<longrightarrow>
    (\<exists>R f2. ReadRecoveryData sha start r f = (Inr True, r\<lparr>m_pHashTree := R\<rparr>, f2) \<and>
      (\<forall>pos. pos < part_size start r \<longrightarrow> EMBLOCKSIZE dvd pos \<longrightarrow>
         (\<exists>g. block_hash R (start + pos) (min EMBLOCKSIZE (part_size start r - pos)) = Some g \<and>
              block_hash G (start + pos) (min EMBLOCKSIZE (part_size start r - pos)) = Some g)))"
proof -
  let ?N = "owner_size r" and ?R0 = "m_pHashTree r"
  let ?n = "min PARTSIZE (?N - start)" and ?large = "OLD_MAX_FILE_SIZE < owner_size r"
  obtain p where p: "locates ?N True start ?n p" "length p \<le> (if ?large then 15 else 9)"
    using part_path [OF assms(5-7)] by blast
  have n: "?n \<le> PARTSIZE" "0 < ?n" using assms(7) by simp_all
  obtain a b q where pe: "p = a # b # q" using part_deep [OF p(1) n(1) assms(4)] by blast
  then have pn: "p \<noteq> []" by simp
  have N: "EMBLOCKSIZE < ?N" using assms(4) sizes_pos by (simp add: EMBLOCKSIZE_def PARTSIZE_def)
  have N64: "?N < 2 ^ 64" using assms(5) by (simp add: MAX_FILE_SIZE_def)
  have ps: "part_size start r = ?n" using assms(7) N64 by (simp add: part_size_def wrap_simps)
  have l: "length p \<le> 15" using p(2) by (simp split: if_splits)
  obtain c where c: "node_at p G = Some c" using full_node_at [OF assms(1) p(1) assms(2)] assms(3) by auto
  have cf: "full sha' c" "m_nDataSize c = ?n" "m_bIsLeftBranch c = last p" using full_node_at [OF assms(1) p(1) assms(2)] assms(3) c pn by auto
  note fe = forged_entries [OF assms(1-3) N assms(5) p n c pn]
  let ?es = "forged_list p c" and ?R1 = "at_path p (\<lambda>s. s) ?R0"
  have d0: "m_nDataSize ?R0 = ?N" "m_bIsLeftBranch ?R0" "m_bHashValid ?R0" "m_nBaseSize ?R0 = base_size ?N" "m_pLeftTree ?R0 = None" "m_pRightTree ?R0 = None"
    by (simp_all add: assms(8))
  have sh: "shaped ?R0" unfolding assms(8) by simp
  have fh: "FindHash start ?n 0 ?R0 = (Some p, Suc (length p), ?R1)"
    using FindHash_locates [OF p(1) sh d0(1) _ N64, of 0] d0(2) l by simp
  let ?E = "put_all (replicate (length p) (hd (low_list c))) (end_node p ?R0)"
  let ?R2 = "at_path p (\<lambda>s. put_all (low_list c) (put_all (replicate (length p) (hd (low_list c))) s)) ?R0"
  have R2: "put_all ?es ?R1 = ?R2" unfolding forged_list_def put_all_prefix by simp
  have E: "loose ?E c"
  proof (rule loose_put_all [OF cf(1)])
    have "end_node p ?R0 = new_hash_tree ?n (last p) (base_size ?n)" by (rule end_node_new [OF p(1) d0(1) _ d0(4-6) pn]) (simp add: d0(2))
    then show "loose (end_node p ?R0) c" using cf full_simps(3) [OF cf(1)] by (simp add: loose_new)
    show "set (replicate (length p) (hd (low_list c))) \<subseteq> set (low_list c)" by (simp add: set_replicate_conv_if)
  qed
  have R2: "put_all ?es ?R1 = ?R2" unfolding forged_list_def put_all_prefix by simp
  have d2: "m_nDataSize ?R2 = ?N" "m_bIsLeftBranch ?R2" "m_bHashValid ?R2" using d0 pe by simp_all
  let ?X = "at_path (b # q) (\<lambda>s. put_all (low_list c) (put_all (replicate (length p) (hd (low_list c))) s)) (child_of a ?R0)"
  have X: "the_child a ?R2 = Some ?X" "the_child (\<not> a) ?R2 = None" "\<not> m_bHashValid ?X" "the_child (\<not> b) ?X = None"
    unfolding pe using d0 by (cases a; cases b; simp add: left_child_def right_child_def)+
  obtain Y where Y: "the_child b ?X = Some Y" by simp
  have ver: "VerifyHashTree sha True ?R2 = (True, ?R2)" for sha by (rule verify_lonely [OF d2(3) X(1-3) Y X(4)])
  have dp: "dim_path p (m_nDataSize ?R0) (m_bIsLeftBranch ?R0)" using locates_dim_path [OF p(1)] d0 by simp
  have s1: "shaped ?R1" by (rule shaped_at_path [OF _ _ sh dp]) simp_all
  have d1: "m_nDataSize ?R1 = ?N" "m_bIsLeftBranch ?R1" using at_path_dims [of "\<lambda>s. s" p ?R0] d0 by (simp_all add: same_dims_def)
  have s2: "shaped ?R2" unfolding R2 [symmetric] using put_all_shaped [of ?es ?large ?R1] fe(2) s1 d1 by simp
  have blk: "\<exists>q g. FindHash (start + pos) (min EMBLOCKSIZE (?n - pos)) 0 ?R2 = (Some q, Suc (length q), ?R2) \<and>
      FindHash (start + pos) (min EMBLOCKSIZE (?n - pos)) 0 G = (Some q, Suc (length q), G) \<and>
      valid_child (node_at q ?R2) \<and> hash_of (node_at q ?R2) = g \<and> valid_child (node_at q G) \<and> hash_of (node_at q G) = g"
    if pos: "pos < ?n" "EMBLOCKSIZE dvd pos" for pos
  proof -
    obtain q g where q: "locates ?N True (start + pos) (min EMBLOCKSIZE (?n - pos)) (p @ q)" "length q \<le> 6"
      "node_at (p @ q) G \<noteq> None" "valid_child (node_at (p @ q) G)" "hash_of (node_at (p @ q) G) = g"
      "node_at q (put_all (low_list c) ?E) \<noteq> None" "valid_child (node_at q (put_all (low_list c) ?E))" "hash_of (node_at q (put_all (low_list c) ?E)) = g"
      using forged_node [OF assms(1-3) p(1) c n(1) E pos] by blast
    have e: "node_at (p @ q) ?R2 = node_at q (put_all (low_list c) ?E)" by (simp only: node_at_path_append)
    have len: "length (p @ q) \<le> 21" using l q(2) by simp
    have "FindHash (start + pos) (min EMBLOCKSIZE (?n - pos)) 0 ?R2 = (Some (p @ q), Suc (length (p @ q)), ?R2)"
      by (rule FindHash_noop [OF q(1) s2 d2(1) _ N64 len]) (use d2(2) e q(6) in simp_all)
    moreover have "FindHash (start + pos) (min EMBLOCKSIZE (?n - pos)) 0 G = (Some (p @ q), Suc (length (p @ q)), G)"
      by (rule FindHash_noop [OF q(1) full_simps(4) [OF assms(1)] assms(2) _ N64 len q(3)]) (simp add: assms(3))
    ultimately show ?thesis using q e by (intro exI [of _ "p @ q"] exI [of _ g]) simp
  qed
  show ?thesis
  proof (intro exI [of _ "recovery_bytes ?large ?es"] allI impI, elim conjE)
    fix sha f assume f: "mem_ok f" "contents f = recovery_bytes ?large ?es" "m_position f = 0"
    have there: "blocks_there start ?n 0 ?R2 = (True, ?R2)"
    proof (rule blocks_there_ok)
      fix pos assume pos: "pos < ?n" "EMBLOCKSIZE dvd pos"
      have "pos < ?N - start" using pos(1) by simp
      then have "start + pos < ?N" by linarith
      then have "u64 (start + pos) = start + pos" using N64 by (intro u64_small) simp
      then show "\<exists>p lv. FindHash (u64 (start + pos)) (min EMBLOCKSIZE (?n - pos)) 0 ?R2 = (Some p, lv, ?R2) \<and> valid_child (node_at p ?R2)"
        using blk [OF pos] by auto
    qed simp
    have ne: "?es \<noteq> []" by (simp add: forged_list_def)
    obtain f2 where rd: "ReadRecoveryData sha start r f = (Inr True, r\<lparr>m_pHashTree := ?R2\<rparr>, f2)"
      using read_packet [OF N assms(5,7) refl refl assms(9) fh l s1 d1 fe ne ver [of sha, folded R2] there [folded R2] f] unfolding R2 by blast
    have "\<exists>g. block_hash ?R2 (start + pos) (min EMBLOCKSIZE (?n - pos)) = Some g \<and>
        block_hash G (start + pos) (min EMBLOCKSIZE (?n - pos)) = Some g" if "pos < ?n" "EMBLOCKSIZE dvd pos" for pos
      using blk [OF that] by (auto simp: block_hash_def)
    then show "\<exists>R f2. ReadRecoveryData sha start r f = (Inr True, r\<lparr>m_pHashTree := R\<rparr>, f2) \<and>
      (\<forall>pos. pos < part_size start r \<longrightarrow> EMBLOCKSIZE dvd pos \<longrightarrow>
         (\<exists>g. block_hash R (start + pos) (min EMBLOCKSIZE (part_size start r - pos)) = Some g \<and>
              block_hash G (start + pos) (min EMBLOCKSIZE (part_size start r - pos)) = Some g))"
      unfolding ps by (intro exI [of _ ?R2] exI [of _ f2] conjI allI impI rd)
  qed
qed

lemma aich_forged_witness:
  "\<exists>packet. \<forall>sha f. mem_ok f \<and> contents f = packet \<and> m_position f = 0 \<longrightarrow>
    (\<exists>R f2. ReadRecoveryData sha PARTSIZE (zero_set 40000000 AICH_VERIFIED (zero_root 40000000)) f =
        (Inr True, (zero_set 40000000 AICH_VERIFIED (zero_root 40000000))\<lparr>m_pHashTree := R\<rparr>, f2))"
proof -
  let ?r = "zero_set 40000000 AICH_VERIFIED (zero_root 40000000)"
  have "m_nDataSize (zero_tree 40000000 True) = owner_size ?r" "m_bIsLeftBranch (zero_tree 40000000 True)"
    "3 * PARTSIZE < owner_size ?r" "owner_size ?r \<le> MAX_FILE_SIZE" "PARTSIZE dvd PARTSIZE" "PARTSIZE < owner_size ?r"
    "m_pHashTree ?r = HashTree (replicate HASHSIZE 0) (owner_size ?r) (base_size (owner_size ?r)) True True None None"
    "m_eStatus ?r = AICH_VERIFIED \<or> m_eStatus ?r = AICH_TRUSTED"
    by (simp_all add: zero_set_def zero_root_def PARTSIZE_def MAX_FILE_SIZE_def)
  from aich_forged [OF full_zero_tree this] show ?thesis by blast
qed

section \<open>What a verified tree is worth\<close>

text \<open>Every hash of two children that are valid is theirs.\<close>

inductive chained :: "(uint8 list \<Rightarrow> uint8 list) \<Rightarrow> CAICHHashTree \<Rightarrow> bool" for sha where
  "(\<And>l r. m_bHashValid t \<Longrightarrow> m_pLeftTree t = Some l \<Longrightarrow> m_pRightTree t = Some r \<Longrightarrow> m_bHashValid l \<Longrightarrow> m_bHashValid r \<Longrightarrow>
      m_Hash t = sha (m_Hash l @ m_Hash r) \<and> chained sha l \<and> chained sha r) \<Longrightarrow> chained sha t"

lemma chainedD:
  "chained sha t \<Longrightarrow> m_bHashValid t \<Longrightarrow> m_pLeftTree t = Some l \<Longrightarrow> m_pRightTree t = Some r \<Longrightarrow> m_bHashValid l \<Longrightarrow> m_bHashValid r \<Longrightarrow>
     m_Hash t = sha (m_Hash l @ m_Hash r) \<and> chained sha l \<and> chained sha r"
  by (erule chained.cases) blast

fun sized :: "CAICHHashTree \<Rightarrow> bool" where
  "sized (HashTree h d b lb v lo ro) \<longleftrightarrow> length h = HASHSIZE \<and>
     (case lo of None \<Rightarrow> True | Some l \<Rightarrow> sized l) \<and> (case ro of None \<Rightarrow> True | Some r \<Rightarrow> sized r)"

lemma sized_iff: "sized t \<longleftrightarrow> length (m_Hash t) = HASHSIZE \<and> (\<forall>b c. the_child b t = Some c \<longrightarrow> sized c)"
proof (cases t)
  case (HashTree h d b lb v lo ro)
  have "(\<forall>x c. the_child x t = Some c \<longrightarrow> sized c) = ((case lo of None \<Rightarrow> True | Some l \<Rightarrow> sized l) \<and> (case ro of None \<Rightarrow> True | Some r \<Rightarrow> sized r))"
    unfolding all_bool_eq using HashTree by (simp split: option.splits)
  then show ?thesis using HashTree by simp
qed

lemma sizedD: "sized t \<Longrightarrow> the_child b t = Some c \<Longrightarrow> sized c"
  using sized_iff [of t] by blast

lemma sized_new [simp]: "sized (new_hash_tree d lb b)"
  by (simp add: new_hash_tree_def)

lemma sized_child_of: "sized t \<Longrightarrow> sized (child_of b t)"
  by (cases "the_child b t") (simp_all add: child_of_cases sizedD)

lemma sized_set_child: "sized t \<Longrightarrow> (\<And>x. c = Some x \<Longrightarrow> sized x) \<Longrightarrow> sized (set_child b c t)"
  by (subst sized_iff) (auto simp: sized_iff [of t])

lemma sized_recalc: "(\<And>bs. length (sha bs) = HASHSIZE) \<Longrightarrow> sized t \<Longrightarrow> sized (snd (ReCalculateHash sha dr t))"
  by (induction sha dr t rule: ReCalculateHash.induct) (auto simp: Let_def split: prod.splits)

lemma verify_root:
  "m_Hash (snd (VerifyHashTree sha del t)) = m_Hash t" "m_bHashValid (snd (VerifyHashTree sha del t)) = m_bHashValid t"
  by (subst VerifyHashTree.simps; auto simp: Let_def delete_children_def split: option.splits prod.splits)+

lemma complete_child_of_None [simp]: "complete_child sha None = None"
  by simp

lemma verify_true:
  "VerifyHashTree sha del t = (True, t') \<Longrightarrow> (\<And>bs. length (sha bs) = HASHSIZE) \<Longrightarrow> sized t \<Longrightarrow> chained sha t' \<and> sized t'"
proof (induction "size t" arbitrary: t t' rule: less_induct)
  case (less t)
  let ?l = "complete_child sha (m_pLeftTree t)" and ?r = "complete_child sha (m_pRightTree t)"
  let ?t = "set_left ?l (set_right ?r t)"
  have v: "m_bHashValid t" and eq: "valid_child ?r = valid_child ?l"
    using less(2) by (subst (asm) VerifyHashTree.simps; auto simp: Let_def split: if_splits)+
  have sl: "sized x" if "?l = Some x" for x
    using that less(3) sized_recalc [of sha] sizedD [OF less(4), of True] by (cases "m_pLeftTree t") (auto simp: complete_child_def)
  have sr: "sized x" if "?r = Some x" for x
    using that less(3) sized_recalc [of sha] sizedD [OF less(4), of False] by (cases "m_pRightTree t") (auto simp: complete_child_def)
  have st: "sized ?t" using less(4) sl sr sized_set_child [of t ?r False] sized_set_child [of "set_right ?r t" ?l True] by simp
  show ?case
  proof (cases "\<exists>l r. ?l = Some l \<and> ?r = Some r \<and> m_bHashValid l \<and> m_bHashValid r")
    case False
    have t': "t' = ?t"
      using less(2) v eq False by (subst (asm) VerifyHashTree.simps) (auto simp: Let_def valid_child_def split: option.splits if_splits)
    have "chained sha ?t" by (rule chained.intros) (use False in auto)
    then show ?thesis using t' st by simp
  next
    case True
    then obtain l r where lr: "?l = Some l" "?r = Some r" "m_bHashValid l" "m_bHashValid r" by blast
    have "\<exists>l' r'. m_Hash t = sha (m_Hash l @ m_Hash r) \<and> VerifyHashTree sha del l = (True, l') \<and> VerifyHashTree sha del r = (True, r') \<and>
        t' = set_left (Some l') (set_right (Some r') ?t)"
      using less(2) v lr by (subst (asm) VerifyHashTree.simps) (auto simp: Let_def valid_child_def split: if_splits prod.splits)
    then obtain l' r' where x: "m_Hash t = sha (m_Hash l @ m_Hash r)" "VerifyHashTree sha del l = (True, l')" "VerifyHashTree sha del r = (True, r')"
        "t' = set_left (Some l') (set_right (Some r') ?t)" by blast
    have sz: "size l < size t" "size r < size t"
      using complete_child_size [OF lr(1)] complete_child_size [OF lr(2)] by (cases t; simp)+
    have l: "chained sha l' \<and> sized l'" by (rule less(1) [OF sz(1) x(2) less(3) sl [OF lr(1)]])
    have r: "chained sha r' \<and> sized r'" by (rule less(1) [OF sz(2) x(3) less(3) sr [OF lr(2)]])
    have h: "m_Hash l' = m_Hash l" "m_Hash r' = m_Hash r" using verify_root(1) [of sha del l] verify_root(1) [of sha del r] x(2,3) by simp_all
    have "sized t'" unfolding x(4) using st l r sized_set_child [of "set_right (Some r') ?t" "Some l'" True] sized_set_child [of ?t "Some r'" False] by simp
    moreover have "chained sha t'" by (rule chained.intros) (use x(1,4) l r h in auto)
    ultimately show ?thesis by simp
  qed
qed

text \<open>The nodes of the way to \<open>p\<close> and the nodes beside them have hashes.\<close>

fun trusted_path :: "bool list \<Rightarrow> CAICHHashTree \<Rightarrow> bool" where
  "trusted_path [] t \<longleftrightarrow> m_bHashValid t"
| "trusted_path (b # p) t \<longleftrightarrow> m_bHashValid t \<and> valid_child (the_child (\<not> b) t) \<and>
     (case the_child b t of None \<Rightarrow> False | Some c \<Rightarrow> trusted_path p c)"

text \<open>Two inputs of the hash algorithm, both in the trees, that have the same hash.\<close>

definition collision :: "(uint8 list \<Rightarrow> uint8 list) \<Rightarrow> CAICHHashTree \<Rightarrow> CAICHHashTree \<Rightarrow> bool" where
  "collision sha R T \<longleftrightarrow>
     (\<exists>q. let a = hash_of (node_at (q @ [True]) R) @ hash_of (node_at (q @ [False]) R);
             b = hash_of (node_at (q @ [True]) T) @ hash_of (node_at (q @ [False]) T)
         in a \<noteq> b \<and> sha a = sha b)"

lemma trusted_valid: "trusted_path p t \<Longrightarrow> m_bHashValid t"
  by (cases p) simp_all

lemma chained_sound:
  "chained sha R \<Longrightarrow> sized R \<Longrightarrow> full sha T \<Longrightarrow> m_Hash R = m_Hash T \<Longrightarrow> trusted_path p R \<Longrightarrow> node_at p T \<noteq> None \<Longrightarrow>
     hash_of (node_at p R) = hash_of (node_at p T) \<or> collision sha R T"
proof (induction p arbitrary: R T)
  case (Cons b p)
  obtain c d where R: "the_child b R = Some c" "the_child (\<not> b) R = Some d" "trusted_path p c" "m_bHashValid d" "m_bHashValid R"
    using Cons.prems(5) by (auto simp: valid_child_def split: option.splits)
  obtain c' where T: "the_child b T = Some c'" "node_at p c' \<noteq> None" using Cons.prems(6) by (auto split: option.splits)
  have bd: "base_size (m_nDataSize T) < m_nDataSize T"
    using Cons.prems(3) T(1) by (cases "(sha, T)" rule: full.cases) (auto simp: the_child_def split: if_splits)
  obtain l r where lr: "m_pLeftTree R = Some l" "m_pRightTree R = Some r" "m_bHashValid l" "m_bHashValid r"
    using R trusted_valid [OF R(3)] by (cases b) auto
  obtain l' r' where lr': "m_pLeftTree T = Some l'" "m_pRightTree T = Some r'" "full sha l'" "full sha r'"
    using full_node [OF Cons.prems(3) bd, of True] full_node [OF Cons.prems(3) bd, of False] by auto
  have hT: "m_Hash T = sha (m_Hash l' @ m_Hash r')" using Cons.prems(3) lr' by (cases "(sha, T)" rule: full.cases) auto
  note ch = chainedD [OF Cons.prems(1) R(5) lr]
  show ?case
  proof (cases "m_Hash l @ m_Hash r = m_Hash l' @ m_Hash r'")
    case False
    then have "collision sha R T" using ch hT Cons.prems(4) lr lr' by (auto simp: collision_def Let_def intro!: exI [of _ "[]"])
    then show ?thesis ..
  next
    case True
    have sz: "sized l" "sized r" using sizedD [OF Cons.prems(2), of True] sizedD [OF Cons.prems(2), of False] lr by simp_all
    have "length (m_Hash l) = length (m_Hash l')" using sz(1) full_simps(2) [OF lr'(3)] by (simp add: sized_iff [of l])
    then have h: "m_Hash l = m_Hash l'" "m_Hash r = m_Hash r'" using True by simp_all
    have c: "chained sha c" "sized c" "full sha c'" "m_Hash c = m_Hash c'"
      using R(1) T(1) lr lr' ch sz h by (cases b; simp)+
    from Cons.IH [OF c R(3) T(2)] have "hash_of (node_at p c) = hash_of (node_at p c') \<or> collision sha c c'" .
    moreover have "collision sha R T" if "collision sha c c'"
    proof -
      obtain q where "(let a = hash_of (node_at (q @ [True]) c) @ hash_of (node_at (q @ [False]) c);
             b = hash_of (node_at (q @ [True]) c') @ hash_of (node_at (q @ [False]) c')
         in a \<noteq> b \<and> sha a = sha b)" using \<open>collision sha c c'\<close> unfolding collision_def by blast
      then show ?thesis unfolding collision_def using R(1) T(1) by (intro exI [of _ "b # q"]) simp
    qed
    ultimately show ?thesis using R(1) T(1) by auto
  qed
qed simp

section \<open>Reading recovery data\<close>

text \<open>What the operations that read leave alone.\<close>

definition keeps :: "CAICHHashTree \<Rightarrow> CAICHHashTree \<Rightarrow> bool" where
  "keeps t t' \<longleftrightarrow> m_Hash t' = m_Hash t \<and> m_bHashValid t' = m_bHashValid t \<and> (sized t \<longrightarrow> sized t')"

lemma keeps_refl [simp]: "keeps t t"
  by (simp add: keeps_def)

lemma keeps_trans: "keeps t u \<Longrightarrow> keeps u v \<Longrightarrow> keeps t v"
  by (simp add: keeps_def)

lemma keeps_set_child: "(sized t \<Longrightarrow> sized x) \<Longrightarrow> keeps t (set_child b (Some x) t)"
  by (auto simp: keeps_def intro: sized_set_child)

lemma FindHash_cases:
  assumes "FindHash a n lv t = (p, lv', t')"
  shows "t' = t \<or> lv < 22 \<and> (\<exists>b a' p1 lv1 x. FindHash a' n (lv + 1) (child_of b t) = (p1, lv1, x) \<and> t' = set_child b (Some x) t)"
proof -
  have "t' = t \<or> lv < 22 \<and> ((\<exists>a' p1 lv1 x. FindHash a' n (lv + 1) (left_child t) = (p1, lv1, x) \<and> t' = set_left (Some x) t) \<or>
      (\<exists>a' p1 lv1 x. FindHash a' n (lv + 1) (right_child t) = (p1, lv1, x) \<and> t' = set_right (Some x) t))"
    using assms by (subst (asm) FindHash.simps) (auto simp: Let_def split: if_splits prod.splits; blast)
  then show ?thesis by (metis child_simps(3-6))
qed

lemma chained_set_child:
  assumes "chained sha t" "keeps (child_of b t) x" "chained sha (child_of b t) \<Longrightarrow> chained sha x"
  shows "chained sha (set_child b (Some x) t)"
proof (rule chained.intros, goal_cases)
  case (1 l r)
  have v: "m_bHashValid (child_of b t)" "m_Hash x = m_Hash (child_of b t)" using 1 assms(2) by (cases b; simp add: keeps_def)+
  then obtain c where c: "the_child b t = Some c" "child_of b t = c" by (cases "the_child b t") (simp_all add: child_of_cases)
  show ?case
  proof (cases b)
    case True
    then show ?thesis using 1 chainedD [OF assms(1), of c r] c v assms(3) by simp
  next
    case False
    then show ?thesis using 1 chainedD [OF assms(1), of l c] c v assms(3) by simp
  qed
qed

lemma FindHash_keeps: "FindHash a n lv t = (p, lv', t') \<Longrightarrow> keeps t t' \<and> (chained sha t \<longrightarrow> chained sha t')"
proof (induction "22 - lv" arbitrary: a lv t p lv' t' rule: less_induct)
  case less
  from FindHash_cases [OF less.prems] show ?case
  proof (elim disjE conjE exE)
    fix b a' p1 lv1 x assume h: "lv < 22" "FindHash a' n (lv + 1) (child_of b t) = (p1, lv1, x)" "t' = set_child b (Some x) t"
    have k: "keeps (child_of b t) x \<and> (chained sha (child_of b t) \<longrightarrow> chained sha x)"
      using less.hyps [OF _ h(2)] h(1) by simp
    then have "keeps t t'" unfolding h(3) by (intro keeps_set_child) (simp add: keeps_def sized_child_of)
    then show ?thesis using chained_set_child [of sha t b x] k h(3) by auto
  qed simp
qed

lemma blocks_there_keeps: "blocks_there st n pos t = (r, t') \<Longrightarrow> keeps t t' \<and> (chained sha t \<longrightarrow> chained sha t')"
proof (induction "n - pos" arbitrary: pos t rule: less_induct)
  case less
  show ?case
  proof (cases "pos < n")
    case False
    then show ?thesis using less.prems by (subst (asm) blocks_there.simps) simp
  next
    case True
    obtain p lv u where u: "FindHash (u64 (st + pos)) (min EMBLOCKSIZE (n - pos)) 0 t = (p, lv, u)" by (metis prod_cases3)
    note k = FindHash_keeps [OF u, of sha]
    have "u = t' \<or> blocks_there st n (pos + EMBLOCKSIZE) u = (r, t')"
      using less.prems True u by (subst (asm) blocks_there.simps) (auto split: option.splits if_splits)
    then show ?thesis
    proof
      assume b: "blocks_there st n (pos + EMBLOCKSIZE) u = (r, t')"
      have "n - (pos + EMBLOCKSIZE) < n - pos" using True sizes_pos(1) diff_less_mono2 [of pos "pos + EMBLOCKSIZE" n] by auto
      from less.hyps [OF this b] show ?thesis using k keeps_trans by blast
    qed (use k in simp)
  qed
qed

lemma read_hash_sized: "read_hash t f = (x, t', f') \<Longrightarrow> sized t \<Longrightarrow> sized t'"
proof -
  assume a: "read_hash t f = (x, t', f')" "sized t"
  have l: "length h = HASHSIZE" if "ReadAICHHash f = (Inr h, f')" for h
    using that by (auto simp: ReadAICHHash_def ReadIO_def split: prod.splits sum.splits if_splits)
  show ?thesis
  proof (cases "ReadAICHHash f")
    case (Pair y g)
    show ?thesis
    proof (cases y)
      case (Inl e)
      then show ?thesis using a Pair by (simp add: read_hash_def)
    next
      case (Inr h)
      then have "t' = set_hash h t" "length h = HASHSIZE" using a(1) Pair l by (simp_all add: read_hash_def)
      then show ?thesis using sized_iff [of t] a(2) by (subst sized_iff) simp
    qed
  qed
qed

lemma SetHash_at_Suc:
  assumes "SetHash_at w (Suc n) b t f = (x, t', f')"
  shows "t' = t \<or> (\<exists>a c y g. SetHash_at (push_bit 1 w) n True (child_of a t) f = (y, c, g) \<and> t' = set_child a (Some c) t)"
  using assms by (auto simp: Let_def on_left_def on_right_def child_of_def set_child_def split: if_splits prod.splits)

lemma SetHash_at_sized: "SetHash_at w n b t f = (x, t', f') \<Longrightarrow> sized t \<Longrightarrow> sized t'"
proof (induction n arbitrary: w b t x t' f')
  case 0
  then show ?case by (auto intro: read_hash_sized split: if_splits prod.splits sum.splits)
next
  case (Suc n)
  from SetHash_at_Suc [OF Suc.prems(1)] show ?case
  proof (elim disjE exE conjE)
    fix a c y g assume c: "SetHash_at (push_bit 1 w) n True (child_of a t) f = (y, c, g)" "t' = set_child a (Some c) t"
    have "sized c" by (rule Suc.IH [OF c(1) sized_child_of [OF Suc.prems(2)]])
    then show ?thesis unfolding c(2) by (intro sized_set_child Suc.prems(2)) simp
  qed (use Suc.prems in simp)
qed

lemma SetHash_at_keeps: "SetHash_at w (Suc n) b t f = (x, t', f') \<Longrightarrow> keeps t t'"
  using SetHash_at_sized [of w "Suc n" b t f x t' f'] SetHash_at_Suc [of w n b t f x t' f'] by (auto simp: keeps_def)

text \<open>Only the identifier 1 is that of the root.\<close>

lemma ident_level_31:
  "ident_level i w = (31, v) \<Longrightarrow> i \<le> 31 \<Longrightarrow> bit w i \<and> (\<forall>j. i < j \<longrightarrow> \<not> bit w j)"
proof (induction i w rule: ident_level.induct)
  case (1 i w)
  show ?case
  proof (cases "w AND 0x80000000 = 0")
    case False
    then have "i = 31" "bit w 31" using "1.prems" high_bit [of w] by (simp_all add: ident_level.simps [of i w])
    then show ?thesis by (auto dest: bit_imp_le_length)
  next
    case True
    then have e: "ident_level (i + 1) (push_bit 1 w) = (31, v)" using "1.prems" by (simp add: ident_level.simps [of i w])
    have i: "i + 1 \<le> 31"
    proof (rule ccontr)
      assume "\<not> i + 1 \<le> 31"
      then have "i = 31" using "1.prems"(2) by simp
      then show False using e by (simp add: ident_level.simps [of 32])
    qed
    from 1(1) [OF _ e i] True i have b: "bit (push_bit 1 w) (i + 1)" "\<forall>j. i + 1 < j \<longrightarrow> \<not> bit (push_bit 1 w) j" by simp_all
    have "\<not> bit w j" if "i < j" for j
    proof (cases "j = 31")
      case True
      then show ?thesis using \<open>w AND 0x80000000 = 0\<close> high_bit by blast
    next
      case False
      then have "j < 31" if "bit w j" using bit_imp_le_length [OF that] by simp
      moreover have "\<not> bit (push_bit 1 w) (Suc j)" using b(2) that by simp
      ultimately show ?thesis unfolding bit_push_bit_iff by auto
    qed
    then show ?thesis using b(1) unfolding bit_push_bit_iff by simp
  qed
qed

lemma SetHash_keeps:
  assumes "SetHash w b t f = (x, t', f')" "w \<noteq> 1"
  shows "keeps t t'"
proof -
  obtain i v where iv: "ident_level 0 w = (i, v)" by (cases "ident_level 0 w")
  show ?thesis
  proof (cases "31 < i")
    case True
    then show ?thesis using assms(1) iv by (simp add: SetHash_def)
  next
    case False
    have "i \<noteq> 31"
    proof
      assume "i = 31"
      then have "bit w 0 \<and> (\<forall>j. 0 < j \<longrightarrow> \<not> bit w j)" using ident_level_31 [of 0 w v] iv by simp
      then have "w = 1" by (intro bit_word_eqI) (auto simp: bit_1_iff)
      then show False using assms(2) by simp
    qed
    then obtain n where "31 - i = Suc n" using False by (cases "31 - i") auto
    then have "SetHash_at v (Suc n) b t f = (x, t', f')" using assms(1) iv False by (simp add: SetHash_def)
    then show ?thesis by (rule SetHash_at_keeps)
  qed
qed

lemma read_hashs_keeps:
  "read_hashs rd ok n t f = (x, t', f') \<Longrightarrow> (\<And>w. ok w \<Longrightarrow> w \<noteq> 1) \<Longrightarrow> keeps t t'"
proof (induction n arbitrary: t f)
  case (Suc n)
  obtain y g where y: "rd f = (y, g)" by (cases "rd f")
  show ?case
  proof (cases "\<exists>w. y = Inr w \<and> ok w")
    case False
    then have "t' = t" using Suc.prems(1) y by (auto split: sum.splits if_splits)
    then show ?thesis by simp
  next
    case True
    then obtain w where w: "y = Inr w" "ok w" by blast
    obtain z u h where u: "SetHash w False t g = (z, u, h)" by (metis prod_cases3)
    have k: "keeps t u" by (rule SetHash_keeps [OF u Suc.prems(2) [OF w(2)]])
    have "u = t' \<or> read_hashs rd ok n u h = (x, t', f')"
      using Suc.prems(1) y w u by (auto split: sum.splits bool.splits)
    then show ?thesis using k Suc.IH [of u h] Suc.prems(2) keeps_trans by blast
  qed
qed simp

lemma ReadRecoveryData_true:
  assumes "ReadRecoveryData sha start r f = (Inr True, r', f')"
  shows "\<exists>t R. keeps (m_pHashTree r) t \<and> VerifyHashTree sha True t = (True, R) \<and>
    blocks_there start (part_size start r) 0 R = (True, m_pHashTree r')"
proof -
  obtain p lv t0 where fh: "FindHash start (part_size start r) 0 (m_pHashTree r) = (p, lv, t0)" by (metis prod_cases3)
  let ?n = "u16 (lv - 1 + num_blocks (part_size start r))"
  have hp: "hashs_of_part start r = (?n, r\<lparr>m_pHashTree := t0\<rparr>)" by (simp add: hashs_of_part_def fh)
  have k0: "keeps (m_pHashTree r) t0" using FindHash_keeps [OF fh] by simp
  have st: "m_eStatus r = AICH_VERIFIED \<or> m_eStatus r = AICH_TRUSTED"
    using assms by (auto simp: ReadRecoveryData_def split: if_splits)
  note a = assms [unfolded ReadRecoveryData_def hp prod.case]
  obtain c1 f1 where c1: "ReadUInt16 f = (Inr c1, f1)"
    using a st by (cases "ReadUInt16 f") (auto split: sum.splits)
  have ps: "part_size start (r\<lparr>m_pHashTree := t\<rparr>) = part_size start r" for t by (simp add: part_size_def)
  have fin: "\<exists>R. VerifyHashTree sha True t = (True, R) \<and> blocks_there start (part_size start r) 0 R = (True, m_pHashTree r')"
    if "(if n = 0 then (Inr False, r\<lparr>m_pHashTree := t\<rparr>, g)
         else case set_VerifyHashTree sha True (r\<lparr>m_pHashTree := t\<rparr>) of
            (False, s) \<Rightarrow> (Inr False, s, g)
          | (True, s) \<Rightarrow>
              (case blocks_there start (part_size start s) 0 (m_pHashTree s) of
                 (b, t) \<Rightarrow> (Inr b, s\<lparr>m_pHashTree := t\<rparr>, g))) = (Inr True, r', f')" for n t g
    using that by (auto simp: set_VerifyHashTree_def part_size_def split: if_splits prod.splits bool.splits)
  obtain x t1 f2 where r1: "read_hashs (io_map ucast ReadUInt16) (\<lambda>w. w \<noteq> 1) (unat c1) t0 f1 = (x, t1, f2)" by (metis prod_cases3)
  have x: "x = Inr True" using a st c1 r1 by (auto simp: Let_def split: if_splits sum.splits bool.splits)
  have k1: "keeps t0 t1" by (rule read_hashs_keeps [OF r1]) simp
  show ?thesis
  proof (cases "unat c1 = 0 \<and> 2 \<le> remaining f2")
    case False
    have "\<exists>R. VerifyHashTree sha True t1 = (True, R) \<and> blocks_there start (part_size start r) 0 R = (True, m_pHashTree r')"
      using a st c1 r1 x False by (intro fin [of "unat c1" t1 f2]) (auto simp: Let_def split: if_splits)
    then show ?thesis using keeps_trans [OF k0 k1] by blast
  next
    case True
    obtain c2 f3 where c2: "ReadUInt16 f2 = (Inr c2, f3)"
      using a st c1 r1 x True by (cases "ReadUInt16 f2") (auto simp: Let_def split: sum.splits if_splits)
    have n1: "\<not> (remaining f1 < ?n * (HASHSIZE + 2) \<or> (?n \<noteq> unat c1 \<and> unat c1 \<noteq> 0))"
    proof
      assume c: "remaining f1 < ?n * (HASHSIZE + 2) \<or> (?n \<noteq> unat c1 \<and> unat c1 \<noteq> 0)"
      show False using a [unfolded c1 prod.case sum.case Let_def if_P [OF c]] st by simp
    qed
    have tree: "m_pHashTree (s\<lparr>m_pHashTree := t\<rparr>) = t" for s :: CAICHHashSet and t by simp
    note a1 = a [unfolded c1 prod.case sum.case Let_def if_not_P [OF n1] tree r1 x bool.case c2 if_P [OF True]]
    have n2: "\<not> (remaining f3 < ?n * (HASHSIZE + 4) \<or> (?n \<noteq> unat c2 \<and> unat c2 \<noteq> 0))"
    proof
      assume c: "remaining f3 < ?n * (HASHSIZE + 4) \<or> (?n \<noteq> unat c2 \<and> unat c2 \<noteq> 0)"
      show False using a1 [unfolded if_P [OF c]] st by simp
    qed
    obtain y t2 f4 where r2: "read_hashs ReadUInt32 (\<lambda>w. w \<noteq> 1 \<and> w \<le> 0x400000) ?n t1 f3 = (y, t2, f4)" by (rule prod_cases3)
    note b = a1 [unfolded if_not_P [OF n2] r2 prod.case]
    have y: "y = Inr True"
    proof (cases y)
      case (Inl e)
      show ?thesis using b [unfolded Inl sum.case] st by simp
    next
      case (Inr z)
      show ?thesis using b [unfolded Inr sum.case] st Inr by (cases z) simp_all
    qed
    have k2: "keeps t1 t2" by (rule read_hashs_keeps [OF r2]) simp
    have "\<exists>R. VerifyHashTree sha True t2 = (True, R) \<and> blocks_there start (part_size start r) 0 R = (True, m_pHashTree r')"
      using b [unfolded y sum.case bool.case] st by (intro fin [of "unat c2" t2 f4]) (simp split: if_split_asm)
    then show ?thesis using keeps_trans [OF keeps_trans [OF k0 k1] k2] by blast
  qed
qed

text \<open>
  C2. A hash of the tree after recovery data have been taken, all hashes on the way to which and beside it are there, is that
  of the file, or two inputs of the hash algorithm with the same hash can be read off the two trees.
\<close>

theorem aich_sound:
  assumes "ReadRecoveryData sha start r f = (Inr True, r', f')" and "\<And>bs. length (sha bs) = HASHSIZE"
    and "sized (m_pHashTree r)" and "full sha T" and "m_Hash (m_pHashTree r) = m_Hash T"
    and "trusted_path p (m_pHashTree r')" and "node_at p T \<noteq> None"
  shows "hash_of (node_at p (m_pHashTree r')) = hash_of (node_at p T) \<or> collision sha (m_pHashTree r') T"
proof -
  obtain t R where R: "keeps (m_pHashTree r) t" "VerifyHashTree sha True t = (True, R)"
      "blocks_there start (part_size start r) 0 R = (True, m_pHashTree r')"
    using ReadRecoveryData_true [OF assms(1)] by blast
  have v: "chained sha R \<and> sized R" using verify_true [OF R(2) assms(2)] R(1) assms(3) by (simp add: keeps_def)
  have k: "keeps R (m_pHashTree r') \<and> (chained sha R \<longrightarrow> chained sha (m_pHashTree r'))" by (rule blocks_there_keeps [OF R(3)])
  have h: "m_Hash (m_pHashTree r') = m_Hash T" using k R(1) verify_root(1) [of sha True t] R(2) assms(5) by (simp add: keeps_def)
  show ?thesis by (rule chained_sound) (use v k h assms(4,6,7) in \<open>simp_all add: keeps_def\<close>)
qed

definition zero_leaf :: "nat \<Rightarrow> bool \<Rightarrow> CAICHHashTree" where
  "zero_leaf d lb = HashTree (replicate HASHSIZE 0) d EMBLOCKSIZE lb True None None"

definition zero_pair :: CAICHHashTree where
  "zero_pair = HashTree (replicate HASHSIZE 0) 300000 EMBLOCKSIZE True True
     (Some (zero_leaf EMBLOCKSIZE True)) (Some (zero_leaf (300000 - EMBLOCKSIZE) False))"

lemma zero_verify: "VerifyHashTree (\<lambda>bs. replicate HASHSIZE 0) True zero_pair = (True, zero_pair)"
proof -
  have "VerifyHashTree (\<lambda>bs. replicate HASHSIZE 0) True (zero_leaf d lb) = (True, zero_leaf d lb)" for d lb
    by (subst VerifyHashTree.simps) (simp add: zero_leaf_def complete_child_def valid_child_def Let_def set_left_def set_right_def)
  then show ?thesis
    by (subst VerifyHashTree.simps)
      (simp add: zero_pair_def complete_child_def valid_child_def Let_def set_left_def set_right_def, simp add: zero_leaf_def)
qed

lemma zero_dims: "base_size 300000 = EMBLOCKSIZE" "nBlocks 300000 EMBLOCKSIZE = 2" "left_size 300000 EMBLOCKSIZE True = EMBLOCKSIZE"
  "base_size EMBLOCKSIZE = EMBLOCKSIZE" "base_size (300000 - EMBLOCKSIZE) = EMBLOCKSIZE" "EMBLOCKSIZE < 300000" "300000 < PARTSIZE"
  "300000 - EMBLOCKSIZE \<le> EMBLOCKSIZE"
  by (simp_all add: base_size_def nBlocks_def left_size_def EMBLOCKSIZE_def PARTSIZE_def)

lemma zero_full: "full (\<lambda>bs. replicate HASHSIZE 0) zero_pair"
  by (simp add: zero_pair_def zero_leaf_def zero_dims)

lemma zero_put:
  "put_all [([True], replicate HASHSIZE 0), ([False], replicate HASHSIZE 0)] (zero_root 300000) = zero_pair"
  by (simp add: zero_root_def zero_pair_def zero_leaf_def set_hash_def left_child_def right_child_def set_left_def set_right_def
      new_hash_tree_def nLeft_def nRight_def zero_dims)

lemma zero_read:
  "\<exists>f2. ReadRecoveryData (\<lambda>bs. replicate HASHSIZE 0) 0 (zero_set 300000 AICH_TRUSTED (zero_root 300000))
      (attach_memfile (recovery_bytes False [([True], replicate HASHSIZE 0), ([False], replicate HASHSIZE 0)]) True) =
      (Inr True, (zero_set 300000 AICH_TRUSTED (zero_root 300000))\<lparr>m_pHashTree := zero_pair\<rparr>, f2)"
proof -
  let ?es = "[([True], replicate HASHSIZE 0), ([False], replicate HASHSIZE 0)] :: (bool list \<times> uint8 list) list"
  let ?r = "zero_set 300000 AICH_TRUSTED (zero_root 300000)"
  have large: "\<not> OLD_MAX_FILE_SIZE < 300000" by (simp add: OLD_MAX_FILE_SIZE_def)
  have n: "min PARTSIZE (300000 - 0) = 300000" using zero_dims(7) by simp
  have fh: "FindHash 0 300000 0 (m_pHashTree ?r) = (Some [], Suc (length []), zero_root 300000)"
    by (subst FindHash.simps) (simp add: zero_set_def zero_root_def wrap_simps)
  have es: "length ?es = length [] + num_blocks 300000" "\<forall>e \<in> set ?es. entry_ok (OLD_MAX_FILE_SIZE < 300000) 300000 True e" "?es \<noteq> []"
    using large by (simp_all add: num_blocks_def EMBLOCKSIZE_def entry_ok_def zero_dims(1,6))
  have R1: "shaped (zero_root 300000)" "m_nDataSize (zero_root 300000) = 300000" "m_bIsLeftBranch (zero_root 300000)" by (simp_all add: zero_root_def)
  have there: "blocks_there 0 300000 0 zero_pair = (True, zero_pair)"
  proof (rule blocks_there_ok)
    fix pos :: nat assume pos: "pos < 300000" "EMBLOCKSIZE dvd pos"
    have d: "m_nDataSize zero_pair = 300000" "m_bIsLeftBranch zero_pair" by (simp_all add: zero_pair_def)
    have loc: "locates 300000 True 0 300000 []" by (rule locates.here)
    have n0: "node_at [] zero_pair = Some zero_pair" by simp
    have sk: "skel zero_pair = skel (put_all (side_list [] zero_pair) (zero_root 300000))"
      using zero_put by (simp add: zero_pair_def zero_leaf_def)
    have ct: "cut zero_pair zero_pair" unfolding zero_pair_def zero_leaf_def by (intro cut.node cut.leaf) simp_all
    show "\<exists>p lv. FindHash (u64 (0 + pos)) (min EMBLOCKSIZE (300000 - pos)) 0 zero_pair = (Some p, lv, zero_pair) \<and> valid_child (node_at p zero_pair)"
      using block_there [OF zero_full d _ loc _ _ n0 ct sk pos] pos(1) zero_dims(7) by (auto simp: wrap_simps)
  qed simp
  show ?thesis
    by (rule read_packet [OF zero_dims(6) _ _ n [symmetric] _ _ fh _ R1 es _ there, unfolded zero_put])
      (use large in \<open>simp_all add: MAX_FILE_SIZE_def zero_set_def zero_verify attach_memfile_def mem_ok_def contents_def\<close>)
qed

lemma aich_sound_witness:
  "\<exists>r' f'. ReadRecoveryData (\<lambda>bs. replicate HASHSIZE 0) 0 (zero_set 300000 AICH_TRUSTED (zero_root 300000))
      (attach_memfile (recovery_bytes False [([True], replicate HASHSIZE 0), ([False], replicate HASHSIZE 0)]) True) = (Inr True, r', f') \<and>
    (hash_of (node_at [True] (m_pHashTree r')) = hash_of (node_at [True] zero_pair) \<or>
      collision (\<lambda>bs. replicate HASHSIZE 0) (m_pHashTree r') zero_pair)"
proof -
  let ?r = "zero_set 300000 AICH_TRUSTED (zero_root 300000)"
  obtain f2 where f2: "ReadRecoveryData (\<lambda>bs. replicate HASHSIZE 0) 0 ?r
      (attach_memfile (recovery_bytes False [([True], replicate HASHSIZE 0), ([False], replicate HASHSIZE 0)]) True) =
      (Inr True, ?r\<lparr>m_pHashTree := zero_pair\<rparr>, f2)"
    using zero_read by blast
  have "sized (m_pHashTree ?r)" "m_Hash (m_pHashTree ?r) = m_Hash zero_pair"
    "trusted_path [True] (m_pHashTree (?r\<lparr>m_pHashTree := zero_pair\<rparr>))" "node_at [True] zero_pair \<noteq> None"
    by (simp_all add: zero_set_def zero_root_def zero_pair_def zero_leaf_def)
  from aich_sound [OF f2 _ this(1) zero_full this(2-4)] show ?thesis using f2 by auto
qed

end
