(* ===== verification/AICH_Votes.thy ===== *)
theory AICH_Votes
  imports AICH_Set
begin

text \<open>
  The votes on the root hash: what \<open>CAICHHashSet::UntrustedHashReceived\<close> makes of any sequence of messages.
\<close>

section \<open>The hash with the most votes\<close>








section \<open>The votes\<close>










section \<open>A sequence of messages\<close>









end
