(* ===== verification/Black_Box.thy ===== *)
theory Black_Box
  imports Amule_Prelude
begin

text \<open>
  Who sent which bytes: \<open>CCorruptionBlackBox\<close> (\<open>src/src/CorruptionBlackBox.cpp\<close>, \<open>.h\<close>). Positions are naturals, wrapped
  around where the source keeps them in \<open>uint32\<close> or \<open>uint64\<close>; the maps are sorted association lists. The log messages, the
  names for them and \<open>DumpAll\<close> are not modelled.
\<close>

section \<open>Records\<close>

definition sub32 :: "nat \<Rightarrow> nat \<Rightarrow> nat" where
  "sub32 a b = u32 (a + (2 ^ 32 - u32 b))"

lemma sub32_small [wrap_simps]: "b \<le> a \<Longrightarrow> a < 2 ^ 32 \<Longrightarrow> sub32 a b = a - b"
proof -
  assume le: "b \<le> a" and lt: "a < 2 ^ 32"
  then have "a + (2 ^ 32 - b) = (a - b) + 2 ^ 32" by simp
  then have "(a + (2 ^ 32 - b)) mod 2 ^ 32 = (a - b) mod 2 ^ 32" by (simp only: mod_add_self2)
  also have "\<dots> = a - b" using lt by (simp add: less_imp_diff_less)
  finally show ?thesis using le lt by (simp add: sub32_def u32_def)
qed

definition CBB_BANTHRESHOLD :: int where "CBB_BANTHRESHOLD = 32"

record CCBBRecord =
  m_nStartPos :: nat
  m_nEndPos :: nat
  m_dwIP :: uint32

text \<open>\<open>junk\<close> is what is in the memory of a new record, which the constructor leaves there if the positions are in the wrong order.\<close>

definition new_CCBBRecord :: "CCBBRecord \<Rightarrow> nat \<Rightarrow> nat \<Rightarrow> uint32 \<Rightarrow> CCBBRecord" where
  "new_CCBBRecord junk nStartPos nEndPos dwIP =
     (if nStartPos > nEndPos then junk else \<lparr>m_nStartPos = nStartPos, m_nEndPos = nEndPos, m_dwIP = dwIP\<rparr>)"

definition Merge :: "nat \<Rightarrow> nat \<Rightarrow> uint32 \<Rightarrow> CCBBRecord \<Rightarrow> bool \<times> CCBBRecord" where
  "Merge nStartPos nEndPos dwIP r =
     (if m_dwIP r = dwIP then
        if nStartPos = u32 (m_nEndPos r + 1) then (True, r\<lparr>m_nEndPos := nEndPos\<rparr>)
        else if u32 (nEndPos + 1) = m_nStartPos r then (True, r\<lparr>m_nStartPos := nStartPos\<rparr>)
        else (False, r)
      else (False, r))"

section \<open>The box\<close>

record CCorruptionBlackBox =
  m_Records :: "(nat, CCBBRecord list) stdmap"
  m_goodClients :: "(uint32, nat) stdmap"
  m_badClients :: "(uint32, nat) stdmap"

definition new_box :: CCorruptionBlackBox where
  "new_box = \<lparr>m_Records = [], m_goodClients = [], m_badClients = []\<rparr>"

definition Free :: "CCorruptionBlackBox \<Rightarrow> CCorruptionBlackBox" where
  "Free b = b\<lparr>m_Records := [], m_goodClients := [], m_badClients := []\<rparr>"

definition records_of :: "nat \<Rightarrow> (nat, CCBBRecord list) stdmap \<Rightarrow> CCBBRecord list" where
  "records_of nPart m = (case map_of m nPart of None \<Rightarrow> [] | Some list \<Rightarrow> list)"

definition downloaded :: "uint32 \<Rightarrow> (uint32, nat) stdmap \<Rightarrow> nat" where
  "downloaded ip m = (case map_of m ip of None \<Rightarrow> 0 | Some n \<Rightarrow> n)"

section \<open>Data that arrive\<close>

fun merge_loop :: "nat \<Rightarrow> nat \<Rightarrow> uint32 \<Rightarrow> CCBBRecord list \<Rightarrow> bool \<times> CCBBRecord list" where
  "merge_loop s e ip [] = (False, [])"
| "merge_loop s e ip (r # rs) =
     (case Merge s e ip r of
        (True, r') \<Rightarrow> (True, r' # rs)
      | (False, r') \<Rightarrow> (case merge_loop s e ip rs of (merged, rs') \<Rightarrow> (merged, r' # rs')))"

definition add_record :: "CCBBRecord \<Rightarrow> nat \<Rightarrow> nat \<Rightarrow> nat \<Rightarrow> uint32 \<Rightarrow> CCorruptionBlackBox \<Rightarrow> CCorruptionBlackBox" where
  "add_record junk nPart s e ip b =
     (case merge_loop s e ip (records_of nPart (m_Records b)) of
        (merged, list) \<Rightarrow> b\<lparr>m_Records := sm_put nPart (if merged then list else list @ [new_CCBBRecord junk s e ip]) (m_Records b)\<rparr>)"

text \<open>Data that reach over the end of a part are split, the later parts first; \<open>None\<close> would be a recursion without end.\<close>

partial_function (option) TransferredData ::
  "CCBBRecord \<Rightarrow> nat \<Rightarrow> nat \<Rightarrow> uint32 \<Rightarrow> CCorruptionBlackBox \<Rightarrow> CCorruptionBlackBox option" where
  "TransferredData junk nStartPos nEndPos senderIP b =
     (if nStartPos > nEndPos then Some b
      else
        let nPart = u16 (nStartPos div PARTSIZE);
            nRelStartPos = u32 (sub64 nStartPos (nPart * PARTSIZE));
            nRelEndPos = u32 (sub64 nEndPos (nPart * PARTSIZE))
        in if nRelEndPos \<ge> PARTSIZE then
             Option.bind (TransferredData junk ((nPart + 1) * PARTSIZE) nEndPos senderIP b) (\<lambda>b.
               Some (add_record junk nPart nRelStartPos (PARTSIZE - 1) senderIP b))
           else Some (add_record junk nPart nRelStartPos nRelEndPos senderIP b))"

section \<open>Data that are verified\<close>

text \<open>What is left of a record and how many of its bytes the range holds.\<close>

definition cut_record :: "CCBBRecord \<Rightarrow> nat \<Rightarrow> nat \<Rightarrow> CCBBRecord \<Rightarrow> CCBBRecord list \<times> nat" where
  "cut_record junk s e r =
     (if m_nStartPos r \<ge> s \<and> m_nStartPos r \<le> e then
        if m_nEndPos r > e then ([r\<lparr>m_nStartPos := u32 (e + 1)\<rparr>], u32 (sub32 e (m_nStartPos r) + 1))
        else ([], u32 (sub32 (m_nEndPos r) (m_nStartPos r) + 1))
      else if m_nStartPos r < s \<and> m_nEndPos r \<ge> s then
        if m_nEndPos r > e then
          ([new_CCBBRecord junk (m_nStartPos r) (sub32 s 1) (m_dwIP r), r\<lparr>m_nStartPos := u32 (e + 1)\<rparr>], u32 (sub32 e s + 1))
        else ([r\<lparr>m_nEndPos := sub32 s 1\<rparr>], u32 (sub32 (m_nEndPos r) s + 1))
      else ([r], 0))"

definition count_data :: "bool \<Rightarrow> uint32 \<Rightarrow> nat \<Rightarrow> CCorruptionBlackBox \<Rightarrow> CCorruptionBlackBox" where
  "count_data ok ip data b =
     (if data = 0 then b
      else if ok then b\<lparr>m_goodClients := sm_put ip (u64 (downloaded ip (m_goodClients b) + data)) (m_goodClients b)\<rparr>
      else b\<lparr>m_badClients := sm_put ip (u64 (downloaded ip (m_badClients b) + (if data > EMBLOCKSIZE then data else EMBLOCKSIZE))) (m_badClients b)\<rparr>)"

fun verify_loop ::
  "CCBBRecord \<Rightarrow> bool \<Rightarrow> nat \<Rightarrow> nat \<Rightarrow> CCBBRecord list \<Rightarrow> CCorruptionBlackBox \<Rightarrow> CCBBRecord list \<times> CCorruptionBlackBox" where
  "verify_loop junk ok s e [] b = ([], b)"
| "verify_loop junk ok s e (r # rs) b =
     (case cut_record junk s e r of (left, data) \<Rightarrow>
      case verify_loop junk ok s e rs (count_data ok (m_dwIP r) data b) of (rest, b) \<Rightarrow> (left @ rest, b))"

definition VerifiedData :: "CCBBRecord \<Rightarrow> bool \<Rightarrow> nat \<Rightarrow> nat \<Rightarrow> nat \<Rightarrow> CCorruptionBlackBox \<Rightarrow> CCorruptionBlackBox" where
  "VerifiedData junk ok nPart nRelStartPos nRelEndPos b =
     (if nRelStartPos > nRelEndPos then b
      else
        case verify_loop junk ok nRelStartPos nRelEndPos (records_of nPart (m_Records b)) b of (list, b) \<Rightarrow>
        b\<lparr>m_Records := (if list = [] then sm_erase nPart (m_Records b) else sm_put nPart list (m_Records b))\<rparr>)"

section \<open>The judgement\<close>

text \<open>
  \<open>Banned\<close>: the client is found, tracked, banned, its download state set and its connection closed. \<open>AddressBanned\<close>: there
  is no such client, the address is banned. \<open>Tracked\<close>: the client is within the limit and only tracked. \<open>Reported\<close>: only logged.
\<close>

datatype verdict = Banned uint32 | AddressBanned uint32 | Tracked uint32 | Reported uint32

definition judge :: "(uint32 \<Rightarrow> bool) \<Rightarrow> uint32 \<Rightarrow> nat \<Rightarrow> nat \<Rightarrow> fault + verdict list" where
  "judge FindClientByIP ip bad good =
     (if bad = 0 then Inr []
      else if u64 (bad + good) = 0 then Inl DivisionByZero
      else
        let nCorruptPercentage = sint (of_nat (u64 (bad * 100) div u64 (bad + good)) :: uint32) in
        Inr [if nCorruptPercentage > CBB_BANTHRESHOLD
             then if FindClientByIP ip then Banned ip else AddressBanned ip
             else if FindClientByIP ip then Tracked ip else Reported ip])"

fun judge_loop :: "(uint32 \<Rightarrow> bool) \<Rightarrow> (uint32, nat) stdmap \<Rightarrow> (uint32, nat) stdmap \<Rightarrow> fault + verdict list" where
  "judge_loop FindClientByIP goods [] = Inr []"
| "judge_loop FindClientByIP goods ((ip, bad) # bads) =
     sum_bind (judge FindClientByIP ip bad (downloaded ip goods)) (\<lambda>vs.
       sum_bind (judge_loop FindClientByIP goods bads) (\<lambda>rest. Inr (vs @ rest)))"

definition EvaluateData :: "(uint32 \<Rightarrow> bool) \<Rightarrow> CCorruptionBlackBox \<Rightarrow> fault + verdict list" where
  "EvaluateData FindClientByIP b = judge_loop FindClientByIP (m_goodClients b) (m_badClients b)"

end
