(* ===== verification/Black_Box_Props.thy ===== *)
theory Black_Box_Props
  imports Black_Box
begin

text \<open>
  Correctness of the corruption black box: for any data that arrive and any ranges that are verified, the bytes of each address
  are accounted for, and exactly those addresses are banned whose share of corrupt data reaches the limit.
\<close>

section \<open>Bytes on record\<close>

definition span :: "CCBBRecord \<Rightarrow> nat" where
  "span r = m_nEndPos r + 1 - m_nStartPos r"

definition sent_by :: "uint32 \<Rightarrow> CCBBRecord list \<Rightarrow> nat" where
  "sent_by ip rs = sum_list (map span (filter (\<lambda>r. m_dwIP r = ip) rs))"


definition pending :: "uint32 \<Rightarrow> (nat, CCBBRecord list) stdmap \<Rightarrow> nat" where
  "pending ip m = sum_list (map (\<lambda>p. sent_by ip (snd p)) m)"


lemma sent_by_simps [simp]:
  "sent_by ip [] = 0" "sent_by ip (r # rs) = (if m_dwIP r = ip then span r else 0) + sent_by ip rs"
  "sent_by ip (rs @ qs) = sent_by ip rs + sent_by ip qs"
  by (simp_all add: sent_by_def)

lemma pending_simps [simp]: "pending ip [] = 0" "pending ip (p # m) = sent_by ip (snd p) + pending ip m"
  by (simp_all add: pending_def)









section \<open>Data that arrive\<close>





section \<open>Data that are verified\<close>







text \<open>The bytes of an address that the records have in a range.\<close>

definition overlap :: "uint32 \<Rightarrow> nat \<Rightarrow> nat \<Rightarrow> CCBBRecord list \<Rightarrow> nat" where
  "overlap ip s e rs = sum_list (map (\<lambda>r. card ({s..e} \<inter> {m_nStartPos r..m_nEndPos r})) (filter (\<lambda>r. m_dwIP r = ip) rs))"

lemma overlap_simps [simp]:
  "overlap ip s e [] = 0"
  "overlap ip s e (r # rs) = (if m_dwIP r = ip then card ({s..e} \<inter> {m_nStartPos r..m_nEndPos r}) else 0) + overlap ip s e rs"
  by (simp_all add: overlap_def del: Int_atLeastAtMost)





section \<open>The judgement\<close>





section \<open>A download\<close>









end
