(* ===== verification/Spec2Isabelle.thy ===== *)
theory Spec2Isabelle
  imports GapList RangeMap RLE EC_Tag Part_Status MemFile UInt128 Safe_File Ed2k_Tag Routing_Closest EM_Connection Crypt_Handshake UDP_Socket_Props AICH_Trust AICH_Votes Black_Box_Props
begin

section \<open>aMule: a verification library\<close>

text \<open>
  aMule is a client of two file-sharing networks: eD2k, where peers exchange the parts of files over TCP, and Kademlia,
  a distributed table of contacts over UDP. A daemon can run alone and is then driven over a protocol of its own, the
  external connection. This library models the logic of the program that its correctness rests on, from the sources under
  \<open>src/src\<close>; every name of a definition is that of the function or type it models where Isabelle allows it.

  The layers, from the bytes up, and how they meet:

  \<^item> Shared: \<open>Amule_Prelude\<close> has the machine integers (words for values of the network, naturals with \<open>u64\<close>, \<open>u32\<close>,
    \<open>u16\<close> written out for positions in files), the sizes of \<open>Constants.h\<close>, and a \<open>std::map\<close> as a sorted list.

  \<^item> Files in memory and fields: \<open>MemFile\<close> is \<open>CMemFile\<close> (\<open>MemFile.cpp\<close>) with a position, a buffer and its growth; \<open>Safe_File\<close>
    the typed fields and strings of \<open>CFileDataIO\<close> (\<open>SafeFile.cpp\<close>); \<open>Ed2k_Tag\<close> the tags (\<open>Tag.cpp\<close>). The locale
    \<open>field_codec\<close> states what a field promises (what is written is read back, a file that ends early is an error); it is
    interpreted for every kind of field, for Kademlia tags and for the keys of \<open>KadUDPKey.h\<close>, and gives lists of them.

  \<^item> Packets and connections: \<open>Packet\<close> is \<open>CPacket\<close> (\<open>Packet.cpp\<close>). \<open>EM_Receive\<close> and \<open>EM_Send\<close> are the two halves of
    \<open>CEMSocket\<close> (\<open>EMSocket.cpp\<close>); sending takes its budget from \<open>Throttler\<close> (\<open>DownloadBandwidthThrottler.cpp\<close>) for
    downloads, and goes through \<open>Crypt_Stream\<close>, the obfuscation of \<open>CEncryptedStreamSocket\<close> (\<open>EncryptedStreamSocket.cpp\<close>),
    whose cipher is \<open>RC4\<close> (\<open>RC4Encrypt.cpp\<close>). \<open>EM_Stream\<close> compares the receiver with a parser of the whole stream,
    \<open>EM_Send_Props\<close> the sender with the concatenation of its packets, \<open>EM_Connection\<close> puts both ends together, and
    \<open>Crypt_Handshake\<close> runs the handshake of two clients to its end and the data after it.

  \<^item> UDP: \<open>UDP_Crypt\<close> is the obfuscation of \<open>CEncryptedDatagramSocket\<close> (\<open>EncryptedDatagramSocket.cpp\<close>), between clients and with
    servers; \<open>UDP_Socket\<close> the queue of \<open>CMuleUDPSocket\<close> (\<open>MuleUDPSocket.cpp\<close>) and the dispatch of what arrives
    (\<open>ClientUDPSocket.cpp\<close>). \<open>UDP_Crypt_Props\<close> shows that datagrams decrypt, \<open>UDP_Socket_Props\<close> that packets arrive and that
    the queue and the budget are kept.

  \<^item> Kademlia: \<open>UInt128\<close> has the identifiers (\<open>kademlia/utils/UInt128.cpp\<close>), \<open>Kad_Contact\<close> the contacts and the kinds of
    addresses, \<open>Routing_Bin\<close> a bucket with the counters of addresses and subnets, \<open>Routing_Zone\<close> and \<open>Routing_Table\<close> the tree of
    zones and the table with its timers (\<open>kademlia/routing\<close>). \<open>Routing_Inv\<close> is the invariant of the tree, \<open>Routing_Props\<close>
    that the operations keep it, \<open>Routing_Closest\<close> that the closest contacts are found.

  \<^item> The parts of a download: \<open>GapList\<close> has the missing ranges (\<open>GapList.cpp\<close>), \<open>RangeMap\<close> the map of ranges
    (\<open>RangeMap.h\<close>); both interpret the locale \<open>interval_set\<close> (\<open>Interval_Set\<close>), from which sequences of calls are read
    as sets of positions. \<open>AICH_Tree\<close> and \<open>AICH_Set\<close> have the hash trees and their packets (\<open>SHAHashSet.cpp\<close>);
    \<open>AICH_Paths\<close> the geometry of the tree, \<open>AICH_Recovery\<close> that recovery data arrive, \<open>AICH_Trust\<close> what they are worth,
    \<open>AICH_Votes\<close> which root hash is trusted. \<open>Black_Box\<close> is \<open>CCorruptionBlackBox\<close> (\<open>CorruptionBlackBox.cpp\<close>), which records who
    sent which bytes of a part; \<open>Black_Box_Props\<close> keeps the accounts over a whole download, up to the bans.

  \<^item> External connection: \<open>EC_Number\<close> has the numbers (\<open>libs/ec/cpp/ECSocket.cpp\<close>), \<open>EC_Tag\<close> the tag trees and packets
    (\<open>ECTag.cpp\<close>, \<open>ECPacket.cpp\<close>), \<open>RLE\<close> the run-length coding of status bars (\<open>RLE.cpp\<close>), an interpretation of the locale
    \<open>stream_codec\<close> (\<open>Stream_Codec\<close>) in three widths, and \<open>Part_Status\<close> the encoder in the daemon
    (\<open>ExternalConn.cpp\<close>) against the decoder in the remote interface (\<open>amule-remote-gui.cpp\<close>).

  How state and effects are modelled. Objects are records, enumerations and trees datatypes, with the members of the
  source as fields. A method is a function that returns the changed record beside its result; readers and writers are
  functions of the file (\<open>'a io\<close>), and an exception is the left side of a sum that keeps the file as it is then. What
  leaves the defined behaviour of the program (an index out of bounds, a null pointer, a loop that does not end) is a fault,
  and theorems say that it does not occur. Allocation always succeeds, and
  memory that is freed is followed only for the contacts of the routing table. What a peer, a clock, a preference or the operating system decides is an
  argument (\<open>crypt_env\<close>, the pieces of a stream, the numbers of bytes that a socket takes), and theorems hold for all of them.

  What the groups of lemmas show: round trips for every format that is both written and read; the invariant of each
  structure and that each operation keeps it; that chunked processing (pieces of a stream, several calls of \<open>Read\<close>, several
  calls of \<open>Send\<close>) does what whole processing does; that budgets and limits are kept; and, where the program falls short,
  theorems that show by how much (\<open>AICH_Trust.aich_forged\<close>, \<open>Routing_Props.lower_version_moves_address\<close>,
  \<open>UDP_Socket_Props.udp_short\<close>).

  Bounds and fuel. Loops are recursions with a measure. Exceptions: \<open>FindHash\<close> is cut at depth 22 as in the source, and
  files of at most \<open>MAX_FILE_SIZE\<close> need at most 22 (\<open>part_path\<close> gives 15 for the parts, \<open>block_path\<close> 6 for the blocks); the
  search for the marker of the handshake is over the bytes read, which the source bounds by its padding of 128 bytes; the sending
  loop has a fault \<open>Spins\<close> for the case that neither queue nor socket advances, and the properties of \<open>Send\<close> show that it
  does not occur.

  Not modelled, and why: the classes that hold the program together (\<open>CPartFile\<close>, \<open>CUpDownClient\<close>, the queues, the servers,
  the searches) are graphs of mutual pointers driven by timers and threads; the self-contained structures they use are
  above. The file of all hash sets (\<open>known2_64.met\<close>) and the list of pending AICH requests are not modelled. Sockets, threads, proxies, the
  web server, the web interface, preferences, statistics, logging, the user interface, generated data and the libraries under
  \<open>extern\<close> are input and output or third-party code. Hash functions (MD4, MD5, SHA-1), zlib and big-number arithmetic are arguments of the
  definitions that use them, with hypotheses that say what is assumed of them.
\<close>

end
